(* ===== verification/Prelude.thy ===== *)
theory Prelude
  imports Main "HOL-Library.Word"
begin

text \<open>
  Shared by every component: the types of bytes and byte strings, the allocator's answers,
  character constants, and generic lemmas on lists and words.

  The program is C: an \<^verbatim>\<open>unsigned char\<close> is an 8-bit word, a \<^verbatim>\<open>dbus_uint32_t\<close> a 32-bit word,
  an \<^verbatim>\<open>int\<close> that only indexes or counts is a \<open>nat\<close>. Text whose bytes are compared with
  C literals is a HOL \<open>string\<close>; \<open>bytes\<close> converts.
\<close>

unbundle bit_operations_syntax

named_theorems spec_simps \<open>characteristic equations of the abstract specifications\<close>

section \<open>Bytes\<close>

type_synonym byte = "8 word"
type_synonym bytes = "8 word list"

definition bytes :: "string \<Rightarrow> bytes" where
  "bytes = map of_char"

lemma bytes_Nil [simp]: "bytes [] = []"
  by (simp add: bytes_def)

lemma bytes_Cons [simp]: "bytes (c # cs) = of_char c # bytes cs"
  by (simp add: bytes_def)

lemma bytes_append [simp]: "bytes (xs @ ys) = bytes xs @ bytes ys"
  by (simp add: bytes_def)

lemma length_bytes [simp]: "length (bytes s) = length s"
  by (simp add: bytes_def)

section \<open>Lists\<close>

text \<open>Reading a byte string in a range, as the validators do.\<close>

definition substring :: "'a list \<Rightarrow> nat \<Rightarrow> nat \<Rightarrow> 'a list" where
  "substring xs start len = take len (drop start xs)"

lemma length_substring [simp]:
  "start + len \<le> length xs \<Longrightarrow> length (substring xs start len) = len"
  by (simp add: substring_def)

lemma substring_whole [simp]: "substring xs 0 (length xs) = xs"
  by (simp add: substring_def)

lemma substring_append_drop:
  "start + len \<le> length xs \<Longrightarrow>
   take start xs @ substring xs start len @ drop (start + len) xs = xs"
  by (metis add.commute append_take_drop_id drop_drop substring_def)

lemma takeWhile_dropWhile_hd:
  "dropWhile P xs = y # ys \<Longrightarrow> \<not> P y"
  by (metis hd_dropWhile list.distinct(1) list.sel(1))

lemma list_all_takeWhile [simp]: "list_all P (takeWhile P xs)"
  by (induction xs) auto

lemma rev_cases_ne: "xs \<noteq> [] \<Longrightarrow> \<exists>ys y. xs = ys @ [y]"
  by (metis rev_exhaust)

section \<open>Words\<close>

lemma unat_word8_less [simp]: "unat (w :: byte) < 256"
  using unsigned_less [of w] by simp

lemma unat_word32_less [simp]: "unat (w :: 32 word) < 4294967296"
  using unsigned_less [of w] by simp

text \<open>Clearing the low bits of a word, as a mask with its high bits set does.\<close>

lemma word_and_not_mask: "w AND NOT (mask k) = push_bit k (drop_bit k w)"
  for w :: "'a::len word"
  by (rule bit_word_eqI) (auto simp: bit_simps)

lemma unat_drop_bit: "unat (drop_bit k w) = unat w div 2 ^ k"
  for w :: "'a::len word"
  by (simp only: unsigned_drop_bit_eq take_bit_nat_eq_self unsigned_less)
    (simp only: drop_bit_eq_div)

lemma unat_take_bit: "unat (take_bit k w) = unat w mod 2 ^ k"
  for w :: "'a::len word"
  by (simp only: unsigned_take_bit_eq) (simp only: take_bit_eq_mod)

lemma unat_push_drop: "unat (push_bit k (drop_bit k w)) = 2 ^ k * (unat w div 2 ^ k)"
  for w :: "'a::len word"
proof -
  have "2 ^ k * (unat w div 2 ^ k) < 2 ^ LENGTH('a)"
    using div_times_less_eq_dividend [of "unat w" "2 ^ k"] unsigned_less [of w]
    by (metis le_less_trans mult.commute)
  then show ?thesis
    unfolding unsigned_push_bit_eq unat_drop_bit
    by (simp only: push_bit_eq_mult take_bit_nat_eq_self mult.commute [of "unat w div 2 ^ k"])
qed

lemma word_eq_unat: "v = w \<longleftrightarrow> unat v = unat w"
  by (simp add: word_unat_eq_iff)

text \<open>Putting a number below \<open>2 ^ k\<close> into the low bits of a shifted word.\<close>

lemma push_bit_or_eq_add:
  fixes v w :: "'a::len word"
  assumes "take_bit k w = w"
  shows "push_bit k v OR w = push_bit k v + w"
proof -
  have "\<not> bit w n" if "k \<le> n" for n
    using assms that by (metis bit_take_bit_iff linorder_not_less)
  then have "\<forall>n. \<not> bit (push_bit k v) n \<or> \<not> bit w n"
    by (auto simp: bit_simps not_le)
  then show ?thesis by (simp add: disjunctive_add)
qed

lemma unat_ucast_byte [simp]: "unat (ucast (c :: byte) :: 32 word) = unat c"
proof -
  have "unat c < 2 ^ 32" using unat_word8_less [of c] by (rule less_trans) simp
  then show ?thesis by (simp add: unsigned_ucast_eq take_bit_nat_eq_self)
qed

lemma mult_div_eq_iff:
  "0 < m \<Longrightarrow> m * (n div m) = m * q \<longleftrightarrow> m * q \<le> n \<and> n < m * q + m" for n :: nat
  by (metis add.commute div_nat_eqI dividend_less_times_div mult.commute mult_Suc nat_mult_eq_cancel1
      times_div_less_eq_dividend)

section \<open>Answers\<close>

text \<open>Reading off what an operation with several results answers.\<close>

lemma ex_answer4:
  "(\<exists>a b c d. Some (x, y, z, w) = Some (a, b, c, d) \<and> Q a b c d) \<longleftrightarrow> Q x y z w"
  by auto

lemma ex_answer3:
  "(\<exists>a b c. Some (x, y, z) = Some (a, b, c) \<and> Q a b c) \<longleftrightarrow> Q x y z"
  by auto

section \<open>Allocation\<close>

text \<open>
  \<^verbatim>\<open>dbus_malloc\<close> and \<^verbatim>\<open>dbus_realloc\<close> may fail at any call. Where a component's behaviour
  under memory exhaustion matters, the allocator is a list of answers, consumed one per
  allocation; when the list is used up every further allocation succeeds. Theorems about such
  a component hold for every list of answers, so for every pattern of failures.
\<close>

type_synonym mem = "bool list"

fun alloc :: "mem \<Rightarrow> bool \<times> mem" where
  "alloc [] = (True, [])"
| "alloc (ok # m) = (ok, m)"

section \<open>Operations that may stop\<close>

text \<open>
  An operation that may fail an assertion or follow a bad pointer has an option as its result.
  \<open>returns m P\<close>: it does not stop, and its result satisfies \<open>P\<close>.
\<close>

definition returns :: "'a option \<Rightarrow> ('a \<Rightarrow> bool) \<Rightarrow> bool" where
  "returns m P \<longleftrightarrow> (\<exists>r. m = Some r \<and> P r)"

lemma returns_simps [simp]:
  "returns (Some r) P \<longleftrightarrow> P r"
  "\<not> returns None P"
  by (auto simp: returns_def)

lemma returns_bind: "returns (Option.bind m f) P \<longleftrightarrow> returns m (\<lambda>r. returns (f r) P)"
  by (cases m) (auto simp: returns_def)

lemma returns_mono: "returns m P \<Longrightarrow> (\<And>r. P r \<Longrightarrow> Q r) \<Longrightarrow> returns m Q"
  by (auto simp: returns_def)

lemma returns_bindI: "returns m Q \<Longrightarrow> (\<And>r. Q r \<Longrightarrow> returns (f r) P) \<Longrightarrow> returns (Option.bind m f) P"
  by (simp add: returns_bind returns_mono)

lemma returns_bind_pairI:
  "returns m (\<lambda>(a, b). Q a b) \<Longrightarrow> (\<And>a b. Q a b \<Longrightarrow> returns (f (a, b)) P) \<Longrightarrow> returns (Option.bind m f) P"
  by (auto simp: returns_def)

lemma returnsE: "returns m P \<Longrightarrow> (\<And>r. m = Some r \<Longrightarrow> P r \<Longrightarrow> thesis) \<Longrightarrow> thesis"
  by (auto simp: returns_def)

lemma returns_conj: "returns m P \<Longrightarrow> returns m Q \<Longrightarrow> returns m (\<lambda>r. P r \<and> Q r)"
  by (auto simp: returns_def)

end
