(* ===== verification/DString.thy ===== *)
theory DString
  imports Prelude "HOL-Library.Monad_Syntax"
begin

text \<open>
  The string buffer of \<^verbatim>\<open>dbus/dbus-string.c\<close>. A string is kept at the byte level: the malloc
  block with its address modulo 8, the offset that aligns \<^verbatim>\<open>str\<close> to 8 bytes, the length and the
  allocated size. Every access is checked against the block, so that \<open>None\<close> is an access out of
  bounds or a failed assertion; the allocator's answers are a parameter. The relation \<open>rep\<close> says
  which byte list a buffer holds; each operation is shown to stay in bounds and to implement an
  operation on lists.
\<close>

section \<open>Memory\<close>

text \<open>
  An answer of \<^verbatim>\<open>dbus_malloc\<close> or \<^verbatim>\<open>dbus_realloc\<close>: failure, or a block with its address modulo 8
  and the arbitrary bytes it holds. When the list of answers is used up, allocation succeeds.
\<close>

datatype answer = Fail | Grant nat "nat \<Rightarrow> byte"

type_synonym heap = "answer list"

fun heap_alloc :: "heap \<Rightarrow> nat \<Rightarrow> (nat \<times> bytes) option \<times> heap" where
  "heap_alloc [] n = (Some (0, replicate n 0), [])"
| "heap_alloc (Fail # h) n = (None, h)"
| "heap_alloc (Grant a junk # h) n = (Some (a mod 8, map junk [0..<n]), h)"

definition heap_realloc :: "heap \<Rightarrow> bytes \<Rightarrow> nat \<Rightarrow> (nat \<times> bytes) option \<times> heap" where
  "heap_realloc h block n =
     (case heap_alloc h n of
        (None, h) \<Rightarrow> (None, h)
      | (Some (a, fresh), h) \<Rightarrow> (Some (a, take n block @ drop (length block) fresh), h))"

definition mem_read :: "bytes \<Rightarrow> nat \<Rightarrow> nat \<Rightarrow> bytes option" where
  "mem_read block at n = (if at + n \<le> length block then Some (substring block at n) else None)"

definition mem_write :: "bytes \<Rightarrow> nat \<Rightarrow> bytes \<Rightarrow> bytes option" where
  "mem_write block at xs =
     (if at + length xs \<le> length block
      then Some (take at block @ xs @ drop (at + length xs) block) else None)"

definition memmove :: "bytes \<Rightarrow> nat \<Rightarrow> nat \<Rightarrow> nat \<Rightarrow> bytes option" where
  "memmove block dst src n = do { xs \<leftarrow> mem_read block src n; mem_write block dst xs }"

definition check :: "bool \<Rightarrow> unit option" where
  "check b = (if b then Some () else None)"

section \<open>The string\<close>

record real_string =
  ds_block :: bytes
  ds_addr :: nat
  ds_align_offset :: nat
  ds_len :: nat
  ds_allocated :: nat
  ds_constant :: bool
  ds_locked :: bool

definition ALLOCATION_PADDING :: nat where
  "ALLOCATION_PADDING = 8"

definition STRING_MAX_LENGTH :: nat where
  "STRING_MAX_LENGTH = 2147483647 - ALLOCATION_PADDING"

text \<open>\<^verbatim>\<open>DBUS_STRING_PREAMBLE\<close>.\<close>

definition string_preamble :: "real_string \<Rightarrow> unit option" where
  "string_preamble real =
     check (ds_len real + ALLOCATION_PADDING \<le> ds_allocated real \<and> ds_len real \<le> STRING_MAX_LENGTH \<and>
       \<not> ds_constant real \<and> \<not> ds_locked real)"

definition get_at :: "real_string \<Rightarrow> nat \<Rightarrow> nat \<Rightarrow> bytes option" where
  "get_at real i n = mem_read (ds_block real) (ds_align_offset real + i) n"

definition put_at :: "real_string \<Rightarrow> nat \<Rightarrow> bytes \<Rightarrow> real_string option" where
  "put_at real i xs =
     do { block \<leftarrow> mem_write (ds_block real) (ds_align_offset real + i) xs;
          Some (real\<lparr>ds_block := block\<rparr>) }"

definition move_at :: "real_string \<Rightarrow> nat \<Rightarrow> nat \<Rightarrow> nat \<Rightarrow> real_string option" where
  "move_at real dst src n = do { xs \<leftarrow> get_at real src n; put_at real dst xs }"

definition fixup_alignment :: "real_string \<Rightarrow> real_string option" where
  "fixup_alignment real =
     do { check (ds_len real + ALLOCATION_PADDING \<le> ds_allocated real);
          let new = (8 - ds_addr real mod 8) mod 8;
          block \<leftarrow> (if ds_align_offset real \<noteq> new
                    then memmove (ds_block real) new (ds_align_offset real) (ds_len real + 1)
                    else Some (ds_block real));
          Some (real\<lparr>ds_block := block, ds_align_offset := new\<rparr>) }"

definition undo_alignment :: "real_string \<Rightarrow> real_string option" where
  "undo_alignment real =
     (if ds_align_offset real \<noteq> 0 then
        do { block \<leftarrow> memmove (ds_block real) 0 (ds_align_offset real) (ds_len real + 1);
             Some (real\<lparr>ds_block := block, ds_align_offset := 0\<rparr>) }
      else Some real)"

definition string_init_preallocated :: "heap \<Rightarrow> nat \<Rightarrow> (real_string option \<times> heap) option" where
  "string_init_preallocated h allocate_size =
     (case heap_alloc h (ALLOCATION_PADDING + allocate_size) of
        (None, h) \<Rightarrow> Some (None, h)
      | (Some (a, block), h) \<Rightarrow>
          do { block \<leftarrow> mem_write block 0 [0];
               real \<leftarrow> fixup_alignment \<lparr>ds_block = block, ds_addr = a, ds_align_offset = 0,
                 ds_len = 0, ds_allocated = ALLOCATION_PADDING + allocate_size,
                 ds_constant = False, ds_locked = False\<rparr>;
               Some (Some real, h) })"

definition string_init :: "heap \<Rightarrow> (real_string option \<times> heap) option" where
  "string_init h = string_init_preallocated h 0"

definition string_init_const_len :: "bytes \<Rightarrow> nat \<Rightarrow> real_string option" where
  "string_init_const_len value len =
     do { check (len \<le> STRING_MAX_LENGTH);
          Some \<lparr>ds_block = value, ds_addr = 0, ds_align_offset = 0, ds_len = len,
            ds_allocated = len + ALLOCATION_PADDING, ds_constant = True, ds_locked = True\<rparr> }"

type_synonym outcome = "(bool \<times> real_string \<times> heap) option"

definition compact :: "heap \<Rightarrow> real_string \<Rightarrow> nat \<Rightarrow> outcome" where
  "compact h real max_waste =
     (let waste = ds_allocated real - (ds_len real + ALLOCATION_PADDING) in
      if waste \<le> max_waste then Some (True, real, h)
      else let new_allocated = ds_len real + ALLOCATION_PADDING in
        case heap_realloc h (ds_block real) new_allocated of
          (None, h) \<Rightarrow> Some (False, real, h)
        | (Some (a, block), h) \<Rightarrow>
            do { real \<leftarrow> fixup_alignment
                   (real\<lparr>ds_block := block, ds_addr := a, ds_allocated := new_allocated\<rparr>);
                 Some (True, real, h) })"

definition reallocate_for_length :: "heap \<Rightarrow> real_string \<Rightarrow> nat \<Rightarrow> outcome" where
  "reallocate_for_length h real new_length =
     (let new_allocated =
            (if ds_allocated real > (STRING_MAX_LENGTH + ALLOCATION_PADDING) div 2
             then STRING_MAX_LENGTH + ALLOCATION_PADDING else ds_allocated real * 2);
          new_allocated = max new_allocated (new_length + ALLOCATION_PADDING) in
      do { check (new_allocated \<ge> ds_allocated real);
           case heap_realloc h (ds_block real) new_allocated of
             (None, h) \<Rightarrow> Some (False, real, h)
           | (Some (a, block), h) \<Rightarrow>
               do { real \<leftarrow> fixup_alignment
                      (real\<lparr>ds_block := block, ds_addr := a, ds_allocated := new_allocated\<rparr>);
                    Some (True, real, h) } })"

definition set_length :: "heap \<Rightarrow> real_string \<Rightarrow> nat \<Rightarrow> outcome" where
  "set_length h real new_length =
     (if new_length > STRING_MAX_LENGTH then Some (False, real, h)
      else do {
        (ok, real, h) \<leftarrow>
          (if new_length + ALLOCATION_PADDING > ds_allocated real
           then reallocate_for_length h real new_length else Some (True, real, h));
        if \<not> ok then Some (False, real, h)
        else do {
          real \<leftarrow> put_at (real\<lparr>ds_len := new_length\<rparr>) new_length [0];
          Some (True, real, h) } })"

definition open_gap :: "heap \<Rightarrow> nat \<Rightarrow> real_string \<Rightarrow> nat \<Rightarrow> outcome" where
  "open_gap h len dest insert_at =
     (if len = 0 then Some (True, dest, h)
      else if len > STRING_MAX_LENGTH - ds_len dest then Some (False, dest, h)
      else do {
        (ok, dest, h) \<leftarrow> set_length h dest (ds_len dest + len);
        if \<not> ok then Some (False, dest, h)
        else do {
          dest \<leftarrow> move_at dest (insert_at + len) insert_at (ds_len dest - len - insert_at);
          Some (True, dest, h) } })"

definition string_get_byte :: "real_string \<Rightarrow> nat \<Rightarrow> byte option" where
  "string_get_byte real start =
     do { check (start \<le> ds_len real); xs \<leftarrow> get_at real start 1; Some (hd xs) }"

definition string_set_byte :: "real_string \<Rightarrow> nat \<Rightarrow> byte \<Rightarrow> real_string option" where
  "string_set_byte real i b =
     do { string_preamble real; check (i < ds_len real); put_at real i [b] }"

definition string_insert_bytes :: "heap \<Rightarrow> real_string \<Rightarrow> nat \<Rightarrow> nat \<Rightarrow> byte \<Rightarrow> outcome" where
  "string_insert_bytes h real i n_bytes b =
     do { string_preamble real; check (i \<le> ds_len real);
          if n_bytes = 0 then Some (True, real, h)
          else do {
            (ok, real, h) \<leftarrow> open_gap h n_bytes real i;
            if \<not> ok then Some (False, real, h)
            else do { real \<leftarrow> put_at real i (replicate n_bytes b); Some (True, real, h) } } }"

definition string_insert_byte :: "heap \<Rightarrow> real_string \<Rightarrow> nat \<Rightarrow> byte \<Rightarrow> outcome" where
  "string_insert_byte h real i b =
     do { string_preamble real; check (i \<le> ds_len real);
          (ok, real, h) \<leftarrow> open_gap h 1 real i;
          if \<not> ok then Some (False, real, h)
          else do { real \<leftarrow> put_at real i [b]; Some (True, real, h) } }"

definition string_steal_data :: "heap \<Rightarrow> real_string \<Rightarrow> (bytes option \<times> real_string \<times> heap) option" where
  "string_steal_data h real =
     do { string_preamble real;
          real \<leftarrow> undo_alignment real;
          let data_return = ds_block real;
          (new, h) \<leftarrow> string_init h;
          case new of
            None \<Rightarrow> do { real \<leftarrow> fixup_alignment (real\<lparr>ds_block := data_return\<rparr>);
                         Some (None, real, h) }
          | Some real' \<Rightarrow> Some (Some data_return, real', h) }"

definition string_lengthen :: "heap \<Rightarrow> real_string \<Rightarrow> nat \<Rightarrow> outcome" where
  "string_lengthen h real additional_length =
     do { string_preamble real;
          if additional_length > STRING_MAX_LENGTH - ds_len real then Some (False, real, h)
          else set_length h real (ds_len real + additional_length) }"

definition string_shorten :: "heap \<Rightarrow> real_string \<Rightarrow> nat \<Rightarrow> (real_string \<times> heap) option" where
  "string_shorten h real length_to_remove =
     do { string_preamble real; check (length_to_remove \<le> ds_len real);
          (ok, real, h) \<leftarrow> set_length h real (ds_len real - length_to_remove);
          Some (real, h) }"

definition string_set_length :: "heap \<Rightarrow> real_string \<Rightarrow> nat \<Rightarrow> outcome" where
  "string_set_length h real n = do { string_preamble real; set_length h real n }"

definition align_value :: "nat \<Rightarrow> nat \<Rightarrow> nat" where
  "align_value n boundary = (n + boundary - 1) div boundary * boundary"

text \<open>The answer also carries \<^verbatim>\<open>*insert_at_p\<close>.\<close>

definition align_insert_point_then_open_gap ::
    "heap \<Rightarrow> real_string \<Rightarrow> nat \<Rightarrow> nat \<Rightarrow> nat \<Rightarrow> (bool \<times> nat \<times> real_string \<times> heap) option" where
  "align_insert_point_then_open_gap h real insert_at alignment gap_size =
     do { string_preamble real; check (1 \<le> alignment \<and> alignment \<le> 8 \<and> insert_at \<le> ds_len real);
          let gap_pos = align_value insert_at alignment;
              new_len = ds_len real + (gap_pos - insert_at) + gap_size;
              delta = new_len - ds_len real in
          if new_len > STRING_MAX_LENGTH then Some (False, insert_at, real, h)
          else if delta = 0 then do { check (insert_at = gap_pos); Some (True, insert_at, real, h) }
          else do {
            (ok, real, h) \<leftarrow> open_gap h delta real insert_at;
            if \<not> ok then Some (False, insert_at, real, h)
            else do {
              real \<leftarrow> (if gap_size < delta
                      then put_at real insert_at (replicate (gap_pos - insert_at) 0) else Some real);
              Some (True, gap_pos, real, h) } } }"

definition align_length_then_lengthen :: "heap \<Rightarrow> real_string \<Rightarrow> nat \<Rightarrow> nat \<Rightarrow> outcome" where
  "align_length_then_lengthen h real alignment then_lengthen_by =
     do { (ok, at, real, h) \<leftarrow>
            align_insert_point_then_open_gap h real (ds_len real) alignment then_lengthen_by;
          Some (ok, real, h) }"

definition string_align_length :: "heap \<Rightarrow> real_string \<Rightarrow> nat \<Rightarrow> outcome" where
  "string_align_length h real alignment = align_length_then_lengthen h real alignment 0"

definition string_alloc_space :: "heap \<Rightarrow> real_string \<Rightarrow> nat \<Rightarrow> outcome" where
  "string_alloc_space h real extra_bytes =
     do { (ok, real, h) \<leftarrow> string_lengthen h real extra_bytes;
          if \<not> ok then Some (False, real, h)
          else do { (real, h) \<leftarrow> string_shorten h real extra_bytes; Some (True, real, h) } }"

definition append_buffer :: "heap \<Rightarrow> real_string \<Rightarrow> bytes \<Rightarrow> outcome" where
  "append_buffer h real buffer =
     (if length buffer = 0 then Some (True, real, h)
      else do {
        (ok, real, h) \<leftarrow> string_lengthen h real (length buffer);
        if \<not> ok then Some (False, real, h)
        else do { real \<leftarrow> put_at real (ds_len real - length buffer) buffer; Some (True, real, h) } })"

text \<open>\<^verbatim>\<open>buffer\<close> is the C string without its NUL.\<close>

definition string_append :: "heap \<Rightarrow> real_string \<Rightarrow> bytes \<Rightarrow> outcome" where
  "string_append h real buffer =
     do { string_preamble real;
          if length buffer > STRING_MAX_LENGTH then Some (False, real, h)
          else append_buffer h real buffer }"

definition string_append_len :: "heap \<Rightarrow> real_string \<Rightarrow> bytes \<Rightarrow> nat \<Rightarrow> outcome" where
  "string_append_len h real buffer len =
     do { string_preamble real; buf \<leftarrow> mem_read buffer 0 len; append_buffer h real buf }"

text \<open>
  \<^verbatim>\<open>_dbus_string_insert_2_aligned\<close>, \<^verbatim>\<open>_4_\<close> and \<^verbatim>\<open>_8_\<close> differ in the number of octets.
\<close>

definition string_insert_aligned :: "heap \<Rightarrow> real_string \<Rightarrow> nat \<Rightarrow> bytes \<Rightarrow> outcome" where
  "string_insert_aligned h real insert_at octets =
     do { string_preamble real;
          (ok, at, real, h) \<leftarrow>
            align_insert_point_then_open_gap h real insert_at (length octets) (length octets);
          if \<not> ok then Some (False, real, h)
          else do { real \<leftarrow> put_at real at octets; Some (True, real, h) } }"

definition string_insert_alignment ::
    "heap \<Rightarrow> real_string \<Rightarrow> nat \<Rightarrow> nat \<Rightarrow> (bool \<times> nat \<times> real_string \<times> heap) option" where
  "string_insert_alignment h real insert_at alignment =
     do { string_preamble real;
          (ok, at, real, h) \<leftarrow> align_insert_point_then_open_gap h real insert_at alignment 0;
          check (\<not> ok \<or> align_value at alignment = at);
          Some (ok, at, real, h) }"

definition string_append_byte :: "heap \<Rightarrow> real_string \<Rightarrow> byte \<Rightarrow> outcome" where
  "string_append_byte h real b =
     do { string_preamble real;
          (ok, real, h) \<leftarrow> set_length h real (ds_len real + 1);
          if \<not> ok then Some (False, real, h)
          else do { real \<leftarrow> put_at real (ds_len real - 1) [b]; Some (True, real, h) } }"

definition delete_range :: "real_string \<Rightarrow> nat \<Rightarrow> nat \<Rightarrow> real_string option" where
  "delete_range real start len =
     (if len = 0 then Some real
      else do {
        real \<leftarrow> move_at real start (start + len) (ds_len real - (start + len));
        put_at (real\<lparr>ds_len := ds_len real - len\<rparr>) (ds_len real - len) [0] })"

definition string_delete :: "real_string \<Rightarrow> nat \<Rightarrow> nat \<Rightarrow> real_string option" where
  "string_delete real start len =
     do { string_preamble real; check (start \<le> ds_len real \<and> len \<le> ds_len real - start);
          delete_range real start len }"

definition copy_range :: "heap \<Rightarrow> real_string \<Rightarrow> nat \<Rightarrow> nat \<Rightarrow> real_string \<Rightarrow> nat \<Rightarrow> outcome" where
  "copy_range h source start len dest insert_at =
     (if len = 0 then Some (True, dest, h)
      else do {
        (ok, dest, h) \<leftarrow> open_gap h len dest insert_at;
        if \<not> ok then Some (False, dest, h)
        else do { xs \<leftarrow> get_at source start len;
                  dest \<leftarrow> put_at dest insert_at xs;
                  Some (True, dest, h) } })"

text \<open>\<^verbatim>\<open>DBUS_STRING_COPY_PREAMBLE\<close>; source and destination are different strings.\<close>

definition copy_preamble :: "real_string \<Rightarrow> nat \<Rightarrow> real_string \<Rightarrow> nat \<Rightarrow> unit option" where
  "copy_preamble source start dest insert_at =
     do { check (ds_len source + ALLOCATION_PADDING \<le> ds_allocated source \<and>
            ds_len source \<le> STRING_MAX_LENGTH);
          string_preamble dest;
          check (start \<le> ds_len source \<and> insert_at \<le> ds_len dest) }"

definition string_copy :: "heap \<Rightarrow> real_string \<Rightarrow> nat \<Rightarrow> real_string \<Rightarrow> nat \<Rightarrow> outcome" where
  "string_copy h source start dest insert_at =
     do { copy_preamble source start dest insert_at;
          copy_range h source start (ds_len source - start) dest insert_at }"

definition string_copy_len :: "heap \<Rightarrow> real_string \<Rightarrow> nat \<Rightarrow> nat \<Rightarrow> real_string \<Rightarrow> nat \<Rightarrow> outcome" where
  "string_copy_len h source start len dest insert_at =
     do { copy_preamble source start dest insert_at; check (len \<le> ds_len source - start);
          copy_range h source start len dest insert_at }"

text \<open>
  \<^verbatim>\<open>_dbus_string_move_len\<close>, with its shortcut that swaps the two buffers when a whole string
  moves into an empty one; the answer carries source and destination.
\<close>

definition string_move_len ::
    "heap \<Rightarrow> real_string \<Rightarrow> nat \<Rightarrow> nat \<Rightarrow> real_string \<Rightarrow> nat \<Rightarrow>
     (bool \<times> real_string \<times> real_string \<times> heap) option" where
  "string_move_len h source start len dest insert_at =
     do { copy_preamble source start dest insert_at; check (start + len \<le> ds_len source);
          if len = 0 then Some (True, source, dest, h)
          else if start = 0 \<and> len = ds_len source \<and> ds_len dest = 0 then
            Some (True,
              source\<lparr>ds_block := ds_block dest, ds_addr := ds_addr dest, ds_len := ds_len dest,
                ds_allocated := ds_allocated dest, ds_align_offset := ds_align_offset dest\<rparr>,
              dest\<lparr>ds_block := ds_block source, ds_addr := ds_addr source, ds_len := ds_len source,
                ds_allocated := ds_allocated source, ds_align_offset := ds_align_offset source\<rparr>, h)
          else do {
            (ok, dest, h) \<leftarrow> copy_range h source start len dest insert_at;
            if \<not> ok then Some (False, source, dest, h)
            else do { source \<leftarrow> delete_range source start len; Some (True, source, dest, h) } } }"

definition string_move ::
    "heap \<Rightarrow> real_string \<Rightarrow> nat \<Rightarrow> real_string \<Rightarrow> nat \<Rightarrow>
     (bool \<times> real_string \<times> real_string \<times> heap) option" where
  "string_move h source start dest insert_at =
     do { check (start \<le> ds_len source);
          string_move_len h source start (ds_len source - start) dest insert_at }"

definition string_replace_len ::
    "heap \<Rightarrow> real_string \<Rightarrow> nat \<Rightarrow> nat \<Rightarrow> real_string \<Rightarrow> nat \<Rightarrow> nat \<Rightarrow> outcome" where
  "string_replace_len h source start len dest replace_at replace_len =
     do { copy_preamble source start dest replace_at;
          check (len \<le> ds_len source - start \<and> replace_len \<le> ds_len dest - replace_at);
          if len = replace_len then
            do { xs \<leftarrow> get_at source start len; dest \<leftarrow> put_at dest replace_at xs; Some (True, dest, h) }
          else if len < replace_len then
            do { xs \<leftarrow> get_at source start len; dest \<leftarrow> put_at dest replace_at xs;
                 dest \<leftarrow> delete_range dest (replace_at + len) (replace_len - len);
                 Some (True, dest, h) }
          else
            do { (ok, dest, h) \<leftarrow> copy_range h source (start + replace_len) (len - replace_len)
                   dest (replace_at + replace_len);
                 if \<not> ok then Some (False, dest, h)
                 else do { xs \<leftarrow> get_at source start replace_len;
                           dest \<leftarrow> put_at dest replace_at xs;
                           Some (True, dest, h) } } }"

section \<open>Memory lemmas\<close>

lemma mem_read_append [simp]:
  "n = length Y \<Longrightarrow> at = length X \<Longrightarrow> mem_read (X @ Y @ Z) at n = Some Y"
  by (simp add: mem_read_def substring_def)

lemma mem_write_append:
  "length Y = length xs \<Longrightarrow> at = length X \<Longrightarrow> mem_write (X @ Y @ Z) at xs = Some (X @ xs @ Z)"
  by (simp add: mem_write_def)

lemma check_True [simp]: "check b = Some () \<longleftrightarrow> b"
  by (simp add: check_def)

lemma check_simps [simp]: "check True = Some ()" "check False = None"
  by (simp_all add: check_def)

lemma heap_alloc_length: "heap_alloc h n = (Some (a, b), h') \<Longrightarrow> length b = n \<and> a < 8"
  by (cases "(h, n)" rule: heap_alloc.cases) auto

lemma heap_alloc_fail: "heap_alloc h n = (None, h') \<Longrightarrow> Fail \<in> set h"
  by (cases "(h, n)" rule: heap_alloc.cases) auto

lemma heap_alloc_subset: "heap_alloc h n = (r, h') \<Longrightarrow> set h' \<subseteq> set h"
  by (cases "(h, n)" rule: heap_alloc.cases) auto

lemma heap_realloc_cases:
  assumes "heap_realloc h block n = (r, h')"
  obtains (fails) "r = None" "Fail \<in> set h" "set h' \<subseteq> set h"
  | (grants) a b where "r = Some (a, b)" "length b = n" "a < 8" "set h' \<subseteq> set h"
      "length block \<le> n \<longrightarrow> take (length block) b = block"
      "n \<le> length block \<longrightarrow> b = take n block"
proof -
  obtain q h1 where q: "heap_alloc h n = (q, h1)" by fastforce
  show ?thesis
  proof (cases q)
    case None
    with q assms show ?thesis
      using heap_alloc_fail heap_alloc_subset by (intro fails) (auto simp: heap_realloc_def)
  next
    case (Some p)
    obtain a fresh where p: "p = (a, fresh)" by fastforce
    have "length fresh = n" "a < 8" using heap_alloc_length q Some p by auto
    with q assms Some p show ?thesis
      using heap_alloc_subset [of h n]
      by (intro grants [of a "take n block @ drop (length block) fresh"]) (auto simp: heap_realloc_def)
  qed
qed

section \<open>The byte list a buffer holds\<close>

text \<open>
  \<open>rep real C\<close>: the buffer is well formed, may be written, and holds the bytes \<open>C\<close>, followed by
  a NUL. \<open>holds real C\<close> is enough for reading, and also true of constant strings.
\<close>

definition rep :: "real_string \<Rightarrow> bytes \<Rightarrow> bool" where
  "rep real C \<longleftrightarrow>
     (\<exists>A R. ds_block real = A @ C @ 0 # R \<and> length A = ds_align_offset real) \<and>
     ds_align_offset real < 8 \<and> ds_len real = length C \<and>
     length (ds_block real) = ds_allocated real \<and> length C + 8 \<le> ds_allocated real \<and>
     ds_allocated real \<le> 2147483647 \<and> \<not> ds_constant real \<and> \<not> ds_locked real"

definition holds :: "real_string \<Rightarrow> bytes \<Rightarrow> bool" where
  "holds real C \<longleftrightarrow>
     (\<exists>A R. ds_block real = A @ C @ R \<and> length A = ds_align_offset real) \<and>
     ds_len real = length C \<and> length C + 8 \<le> ds_allocated real \<and> length C \<le> STRING_MAX_LENGTH"

text \<open>
  What an operation may answer: it did its job, or it failed and left the contents alone; and it
  fails only when an allocation failed or the result would be too long.
\<close>

definition outcome :: "heap \<Rightarrow> outcome \<Rightarrow> bytes \<Rightarrow> bytes \<Rightarrow> bool" where
  "outcome h r C C' \<longleftrightarrow>
     (\<exists>ok real h'. r = Some (ok, real, h') \<and> rep real (if ok then C' else C) \<and> set h' \<subseteq> set h \<and>
        (ok \<or> Fail \<in> set h \<or> STRING_MAX_LENGTH < length C'))"

lemmas max_length = STRING_MAX_LENGTH_def ALLOCATION_PADDING_def

lemma rep_length: "rep real C \<Longrightarrow> ds_len real = length C \<and> length C \<le> STRING_MAX_LENGTH"
  by (auto simp: rep_def max_length)

lemma rep_holds: "rep real C \<Longrightarrow> holds real C"
  by (auto simp: rep_def holds_def max_length)

lemma rep_preamble [simp]: "rep real C \<Longrightarrow> string_preamble real = Some ()"
  by (auto simp: rep_def string_preamble_def max_length)

lemma holds_fun: "holds real C \<Longrightarrow> holds real C' \<Longrightarrow> C = C'"
  by (auto simp: holds_def append_eq_append_conv)

lemma rep_fun: "rep real C \<Longrightarrow> rep real C' \<Longrightarrow> C = C'"
  using rep_holds holds_fun by blast

lemma outcome_ok: "rep real C' \<Longrightarrow> set h' \<subseteq> set h \<Longrightarrow> outcome h (Some (True, real, h')) C C'"
  by (auto simp: outcome_def)

lemma outcome_fail:
  "rep real C \<Longrightarrow> set h' \<subseteq> set h \<Longrightarrow> Fail \<in> set h \<or> STRING_MAX_LENGTH < length C' \<Longrightarrow>
   outcome h (Some (False, real, h')) C C'"
  by (auto simp: outcome_def)

text \<open>Continuing after a step that may fail.\<close>

lemma outcome_bind:
  assumes "outcome h r C D" and "length D \<le> length C'"
    and "\<And>real h'. rep real D \<Longrightarrow> set h' \<subseteq> set h \<Longrightarrow> outcome h (f real h') C C'"
  shows "outcome h (r \<bind> (\<lambda>(ok, real, h). if \<not> ok then Some (False, real, h) else f real h)) C C'"
proof -
  obtain ok real h' where r: "r = Some (ok, real, h')" "rep real (if ok then D else C)"
    "set h' \<subseteq> set h" "ok \<or> Fail \<in> set h \<or> STRING_MAX_LENGTH < length D"
    using assms(1) by (auto simp: outcome_def)
  with assms(2,3) show ?thesis by (cases ok) (auto intro: outcome_fail)
qed

section \<open>Reading and writing\<close>

lemma get_at_holds:
  "holds real (X @ Y @ Z) \<Longrightarrow> i = length X \<Longrightarrow> n = length Y \<Longrightarrow> get_at real i n = Some Y"
  unfolding holds_def get_at_def
  by (metis append.assoc length_append mem_read_append)

lemma put_at_rep:
  assumes "rep real (X @ Y @ Z)" "i = length X" "length xs = length Y"
  shows "\<exists>real'. put_at real i xs = Some real' \<and> rep real' (X @ xs @ Z) \<and>
    ds_len real' = ds_len real"
proof -
  obtain A R where AR: "ds_block real = (A @ X) @ Y @ (Z @ 0 # R)" "length A = ds_align_offset real"
    using assms(1) by (auto simp: rep_def)
  have "mem_write (ds_block real) (ds_align_offset real + i) xs = Some ((A @ X) @ xs @ (Z @ 0 # R))"
    unfolding AR(1) by (rule mem_write_append) (use assms AR in simp_all)
  moreover have "rep (real\<lparr>ds_block := (A @ X) @ xs @ (Z @ 0 # R)\<rparr>) (X @ xs @ Z)"
    unfolding rep_def by (intro conjI exI [of _ A] exI [of _ R]) (use assms AR in \<open>auto simp: rep_def\<close>)
  ultimately show ?thesis by (simp add: put_at_def)
qed

text \<open>A buffer of the right shape, before its terminating NUL is written.\<close>

definition roomy :: "real_string \<Rightarrow> bytes \<Rightarrow> bool" where
  "roomy real D \<longleftrightarrow>
     (\<exists>A R. ds_block real = A @ D @ R \<and> length A = ds_align_offset real) \<and>
     ds_align_offset real < 8 \<and> length (ds_block real) = ds_allocated real \<and>
     length D + 7 \<le> ds_allocated real \<and>
     ds_allocated real \<le> 2147483647 \<and> \<not> ds_constant real \<and> \<not> ds_locked real"

lemma rep_roomy: "rep real C \<Longrightarrow> roomy real (C @ [0])"
  by (auto simp: rep_def roomy_def)

lemma roomy_rep:
  assumes "roomy real (C @ [0])" "ds_len real = length C"
  shows "rep real C"
proof -
  obtain A R where "ds_block real = A @ C @ 0 # R" "length A = ds_align_offset real"
    using assms(1) by (auto simp: roomy_def)
  then show ?thesis
    unfolding rep_def
    by (intro conjI exI [of _ A] exI [of _ R]) (use assms in \<open>auto simp: roomy_def\<close>)
qed

lemma fixup_alignment_roomy:
  assumes "roomy real D" "length D = Suc (ds_len real)"
  shows "\<exists>real'. fixup_alignment real = Some real' \<and> roomy real' D \<and>
    ds_len real' = ds_len real \<and> ds_allocated real' = ds_allocated real"
proof -
  let ?b = "ds_block real"
  define new where "new = (8 - ds_addr real mod 8) mod 8"
  have new: "new < 8" by (simp add: new_def)
  obtain A R where AR: "?b = A @ D @ R" "length A = ds_align_offset real"
    using assms(1) by (auto simp: roomy_def)
  have l: "length D + 7 \<le> ds_allocated real" "length ?b = ds_allocated real"
    using assms(1) by (auto simp: roomy_def)
  define c where "c = take new ?b @ D @ drop (new + length D) ?b"
  have fits: "new + length D \<le> length ?b" using l new by linarith
  have "mem_read ?b (ds_align_offset real) (ds_len real + 1) = Some D"
    using AR assms(2) by simp
  then have mv: "memmove ?b new (ds_align_offset real) (ds_len real + 1) = Some c"
    using fits by (simp add: memmove_def mem_write_def c_def)
  have "roomy (real\<lparr>ds_block := c, ds_align_offset := new\<rparr>) D"
    unfolding roomy_def
    by (intro conjI exI [of _ "take new ?b"] exI [of _ "drop (new + length D) ?b"])
      (use assms(1) fits new l in \<open>auto simp: roomy_def c_def\<close>)
  moreover have "check (ds_len real + ALLOCATION_PADDING \<le> ds_allocated real) = Some ()"
    using l assms(2) by (simp add: max_length)
  ultimately show ?thesis
    using assms(1) mv by (auto simp: fixup_alignment_def Let_def new_def [symmetric])
qed

lemma reallocate_roomy:
  assumes "rep real C" "ds_allocated real < n + 8" "n \<le> STRING_MAX_LENGTH"
  obtains ok real' h' where "reallocate_for_length h real n = Some (ok, real', h')"
    "set h' \<subseteq> set h"
    "if ok then roomy real' (C @ [0]) \<and> n + 8 \<le> ds_allocated real' \<and> ds_len real' = length C
     else real' = real \<and> Fail \<in> set h"
proof -
  let ?na = "max (if ds_allocated real > (STRING_MAX_LENGTH + ALLOCATION_PADDING) div 2
             then STRING_MAX_LENGTH + ALLOCATION_PADDING else ds_allocated real * 2) (n + 8)"
  have na: "ds_allocated real \<le> ?na" "?na \<le> 2147483647" "n + 8 \<le> ?na"
    using assms by (auto simp: max_length rep_def)
  obtain r h' where r: "heap_realloc h (ds_block real) ?na = (r, h')" by fastforce
  from r show ?thesis
  proof (cases rule: heap_realloc_cases)
    case fails
    with na r that [of False real h'] show ?thesis
      by (simp add: reallocate_for_length_def Let_def max_length)
  next
    case (grants a b)
    let ?real = "real\<lparr>ds_block := b, ds_addr := a, ds_allocated := ?na\<rparr>"
    from assms(1) obtain A R where AR: "ds_block real = A @ (C @ [0]) @ R"
      "length A = ds_align_offset real" by (auto simp: rep_def)
    have "length (ds_block real) \<le> ?na" using assms(1) na by (simp add: rep_def)
    with grants(5) have "take (length (ds_block real)) b = ds_block real"
      by blast
    then have "b = A @ (C @ [0]) @ R @ drop (length (ds_block real)) b"
      using AR by (metis append.assoc append_take_drop_id)
    then have "roomy ?real (C @ [0])"
      using AR(2) grants(2) na assms(1) by (auto simp: roomy_def rep_def)
    then obtain real' where "fixup_alignment ?real = Some real'" "roomy real' (C @ [0])"
      "ds_len real' = length C" "ds_allocated real' = ?na"
      using fixup_alignment_roomy [of ?real "C @ [0]"] assms(1) by (auto simp: rep_def)
    with grants na r that [of True real' h'] show ?thesis
      by (simp add: reallocate_for_length_def Let_def max_length)
  qed
qed

text \<open>Writing the NUL at the new length, which the padding always leaves room for.\<close>

lemma terminate_roomy:
  assumes "roomy real (C @ [0])" "n + 8 \<le> ds_allocated real"
  shows "\<exists>real' G. put_at (real\<lparr>ds_len := n\<rparr>) n [0] = Some real' \<and> length G = n - length C \<and>
    rep real' (take n C @ G)"
proof -
  obtain A R where AR: "ds_block real = A @ (C @ [0]) @ R" "length A = ds_align_offset real"
    using assms(1) by (auto simp: roomy_def)
  define S where "S = C @ 0 # R"
  have len: "length A + n < length (ds_block real)"
    using assms AR(2) by (auto simp: roomy_def)
  then have n: "n < length S" using AR by (auto simp: S_def)
  let ?b = "A @ take n S @ 0 # drop (Suc n) S"
  have "mem_write (ds_block real) (length A + n) [0] = Some ?b"
    using len unfolding mem_write_def AR(1) S_def by simp
  moreover have "take n S = take n C @ take (n - length C) (0 # R)"
    by (simp add: S_def)
  moreover have "length ?b = length (ds_block real)"
    using AR n by (simp add: S_def)
  ultimately show ?thesis
    using assms AR(2) n
    by (intro exI [of _ "real\<lparr>ds_len := n, ds_block := ?b\<rparr>"] exI [of _ "take (n - length C) (0 # R)"])
      (auto simp: put_at_def rep_def roomy_def S_def)
qed

lemma set_length_outcome:
  assumes "rep real C"
  shows "\<exists>G. length G = n - length C \<and> outcome h (set_length h real n) C (take n C @ G)"
proof (cases "n \<le> STRING_MAX_LENGTH")
  case False
  with assms show ?thesis
    by (intro exI [of _ "replicate (n - length C) 0"])
      (auto simp: set_length_def intro!: outcome_fail)
next
  case True
  show ?thesis
  proof (cases "ds_allocated real < n + 8")
    case False
    with terminate_roomy [OF rep_roomy [OF assms], of n] obtain real' G
      where G: "put_at (real\<lparr>ds_len := n\<rparr>) n [0] = Some real'" "length G = n - length C"
        "rep real' (take n C @ G)" by auto
    then show ?thesis
      using True False by (intro exI [of _ G]) (auto simp: set_length_def max_length intro!: outcome_ok)
  next
    case less: True
    obtain ok real1 h' where r: "reallocate_for_length h real n = Some (ok, real1, h')"
      "set h' \<subseteq> set h"
      "if ok then roomy real1 (C @ [0]) \<and> n + 8 \<le> ds_allocated real1 \<and> ds_len real1 = length C
       else real1 = real \<and> Fail \<in> set h"
      using assms less True by (rule reallocate_roomy)
    show ?thesis
    proof (cases ok)
      case False
      with r assms less True show ?thesis
        by (intro exI [of _ "replicate (n - length C) 0"])
          (auto simp: set_length_def max_length intro!: outcome_fail)
    next
      case True
      with r terminate_roomy [of real1 C n] obtain real' G
        where G: "put_at (real1\<lparr>ds_len := n\<rparr>) n [0] = Some real'" "length G = n - length C"
          "rep real' (take n C @ G)" by auto
      with True r less \<open>n \<le> STRING_MAX_LENGTH\<close> show ?thesis
        by (intro exI [of _ G]) (auto simp: set_length_def max_length intro!: outcome_ok)
    qed
  qed
qed

text \<open>Making a string shorter cannot fail.\<close>

lemma set_length_shorter:
  assumes "rep real C" "n \<le> length C"
  shows "\<exists>real'. set_length h real n = Some (True, real', h) \<and> rep real' (take n C)"
proof -
  have n: "n + 8 \<le> ds_allocated real" "n \<le> STRING_MAX_LENGTH"
    using assms by (auto simp: rep_def max_length)
  with terminate_roomy [OF rep_roomy [OF assms(1)], of n] assms(2) obtain real'
    where "put_at (real\<lparr>ds_len := n\<rparr>) n [0] = Some real'" "rep real' (take n C)" by auto
  with n show ?thesis by (simp add: set_length_def ALLOCATION_PADDING_def)
qed

text \<open>The move that opens the gap; what is left in the gap does not matter.\<close>

lemma gap_move:
  assumes "rep real (C @ H)" "i \<le> length C" "length H = n"
  shows "\<exists>real' G. move_at real (i + n) i (ds_len real - n - i) = Some real' \<and> length G = n \<and>
    rep real' (take i C @ G @ drop i C)"
proof -
  define X Y where "X = take i C" and "Y = drop i C"
  have C: "C = X @ Y" and X: "length X = i" using assms(2) by (simp_all add: X_def Y_def)
  define G where "G = take n (Y @ H)"
  have G: "length G = n" using assms(3) by (simp add: G_def)
  have len: "ds_len real - n - i = length Y"
    using rep_length [OF assms(1)] assms(3) C X by simp
  have rd: "get_at real i (length Y) = Some Y"
    by (rule get_at_holds [of _ X Y H]) (use rep_holds [OF assms(1)] C X in simp_all)
  define Z where "Z = drop n (Y @ H)"
  have split: "C @ H = (X @ G) @ Z @ []" and Z: "length Z = length Y"
    unfolding C G_def Z_def using assms(3) by (simp_all del: take_append drop_append)
  have "\<exists>real'. put_at real (i + n) Y = Some real' \<and> rep real' ((X @ G) @ Y @ []) \<and>
      ds_len real' = ds_len real"
    by (rule put_at_rep [OF assms(1) [unfolded split]]) (use X G Z in auto)
  then show ?thesis
    using rd G unfolding len X_def [symmetric] Y_def [symmetric] by (auto simp: move_at_def)
qed

lemma open_gap_outcome:
  assumes "rep real C" "i \<le> length C"
  shows "\<exists>G. length G = n \<and> outcome h (open_gap h n real i) C (take i C @ G @ drop i C)"
proof (cases "n = 0")
  case True
  with assms(1) show ?thesis
    by (intro exI [of _ "[]"]) (simp add: open_gap_def outcome_ok)
next
  case pos: False
  note len = rep_length [OF assms(1)]
  show ?thesis
  proof (cases "STRING_MAX_LENGTH - ds_len real < n")
    case True
    with assms pos len show ?thesis
      by (intro exI [of _ "replicate n 0"]) (auto simp: open_gap_def intro!: outcome_fail)
  next
    case False
    obtain H where H: "length H = n" "outcome h (set_length h real (ds_len real + n)) C (C @ H)"
      using set_length_outcome [OF assms(1), of "ds_len real + n" h] len by auto
    then obtain ok real1 h1 where 1: "set_length h real (ds_len real + n) = Some (ok, real1, h1)"
      "rep real1 (if ok then C @ H else C)" "set h1 \<subseteq> set h"
      "ok \<or> Fail \<in> set h \<or> STRING_MAX_LENGTH < length C + n"
      by (auto simp: outcome_def)
    show ?thesis
    proof (cases ok)
      case True
      with 1(2) gap_move [of real1 C H i n] assms(2) H(1) obtain real2 G
        where "move_at real1 (i + n) i (ds_len real1 - n - i) = Some real2" "length G = n"
          "rep real2 (take i C @ G @ drop i C)" by auto
      with 1 True pos False show ?thesis
        by (intro exI [of _ G]) (auto simp: open_gap_def intro!: outcome_ok)
    next
      case False
      with 1 pos assms show ?thesis
        by (intro exI [of _ "replicate n 0"]) (auto simp: open_gap_def intro!: outcome_fail)
    qed
  qed
qed

section \<open>The operations\<close>

lemma open_gap_then:
  assumes "rep real C" "i \<le> length C" "length C' = length C + n"
    and "\<And>real' h' G. length G = n \<Longrightarrow> rep real' (take i C @ G @ drop i C) \<Longrightarrow> set h' \<subseteq> set h \<Longrightarrow>
      outcome h (f real' h') C C'"
  shows "outcome h (open_gap h n real i \<bind>
    (\<lambda>(ok, real, h). if \<not> ok then Some (False, real, h) else f real h)) C C'"
proof -
  obtain G where G: "length G = n"
    "outcome h (open_gap h n real i) C (take i C @ G @ drop i C)"
    using open_gap_outcome [OF assms(1,2)] by blast
  show ?thesis
    by (rule outcome_bind [OF G(2)]) (use G(1) assms in auto)
qed

lemma put_outcome:
  assumes "rep real (X @ Y @ Z)" "i = length X" "length xs = length Y" "set h' \<subseteq> set h"
  shows "outcome h (do { real \<leftarrow> put_at real i xs; Some (True, real, h') }) C (X @ xs @ Z)"
  using put_at_rep [OF assms(1-3)] assms(4) by (auto intro: outcome_ok)

lemma string_insert_bytes_outcome:
  assumes "rep real C" "i \<le> length C"
  shows "outcome h (string_insert_bytes h real i n b) C (take i C @ replicate n b @ drop i C)"
proof (cases "n = 0")
  case True
  with assms show ?thesis by (simp add: string_insert_bytes_def rep_length outcome_ok)
next
  case False
  have "outcome h (open_gap h n real i \<bind> (\<lambda>(ok, real, h). if \<not> ok then Some (False, real, h)
     else do { real \<leftarrow> put_at real i (replicate n b); Some (True, real, h) }))
    C (take i C @ replicate n b @ drop i C)"
    by (rule open_gap_then [OF assms], simp) (rule put_outcome, use assms(2) in auto)
  with False assms show ?thesis by (simp add: string_insert_bytes_def rep_length)
qed

lemma string_insert_byte_outcome:
  assumes "rep real C" "i \<le> length C"
  shows "outcome h (string_insert_byte h real i b) C (take i C @ [b] @ drop i C)"
proof -
  have "outcome h (open_gap h 1 real i \<bind> (\<lambda>(ok, real, h). if \<not> ok then Some (False, real, h)
     else do { real \<leftarrow> put_at real i [b]; Some (True, real, h) })) C (take i C @ [b] @ drop i C)"
    by (rule open_gap_then [OF assms], simp) (rule put_outcome, use assms(2) in auto)
  with assms show ?thesis by (simp add: string_insert_byte_def rep_length)
qed

lemma copy_range_outcome:
  assumes "holds src S" "rep dest C" "i \<le> length C" "start + n \<le> length S"
  shows "outcome h (copy_range h src start n dest i) C (take i C @ substring S start n @ drop i C)"
proof (cases "n = 0")
  case True
  with assms show ?thesis by (simp add: copy_range_def substring_def outcome_ok)
next
  case False
  have rd: "get_at src start n = Some (substring S start n)"
    using get_at_holds [of src "take start S" "substring S start n" "drop (start + n) S" start n]
      assms(1,4) by (simp add: substring_append_drop)
  have "outcome h (open_gap h n dest i \<bind> (\<lambda>(ok, dest, h). if \<not> ok then Some (False, dest, h)
     else do { xs \<leftarrow> get_at src start n; dest \<leftarrow> put_at dest i xs; Some (True, dest, h) }))
     C (take i C @ substring S start n @ drop i C)"
    unfolding rd bind.bind_lunit
    by (rule open_gap_then [OF assms(2,3)], use assms(4) in simp)
      (rule put_outcome, use assms(3,4) in auto)
  with False show ?thesis by (simp add: copy_range_def)
qed

lemma copy_preamble_ok:
  "holds src S \<Longrightarrow> rep dest C \<Longrightarrow> start \<le> length S \<Longrightarrow> i \<le> length C \<Longrightarrow>
   copy_preamble src start dest i = Some ()"
  by (auto simp: copy_preamble_def holds_def rep_length ALLOCATION_PADDING_def)

lemma string_copy_len_outcome:
  assumes "holds src S" "rep dest C" "i \<le> length C" "start \<le> length S" "n \<le> length S - start"
  shows "outcome h (string_copy_len h src start n dest i) C
    (take i C @ substring S start n @ drop i C)"
  using copy_range_outcome [OF assms(1-3), of start n h] copy_preamble_ok [OF assms(1,2,4,3)] assms
  by (simp add: string_copy_len_def holds_def)

lemma string_copy_outcome:
  assumes "holds src S" "rep dest C" "i \<le> length C" "start \<le> length S"
  shows "outcome h (string_copy h src start dest i) C (take i C @ drop start S @ drop i C)"
  using copy_range_outcome [OF assms(1-3), of start "length S - start" h]
    copy_preamble_ok [OF assms(1,2,4,3)] assms
  by (simp add: string_copy_def holds_def substring_def)

text \<open>Deleting never fails.\<close>

lemma delete_range_rep:
  assumes "rep real (X @ Y @ Z)" "start = length X" "n = length Y"
  shows "\<exists>real'. delete_range real start n = Some real' \<and> rep real' (X @ Z)"
proof (cases "n = 0")
  case True
  with assms show ?thesis by (simp add: delete_range_def)
next
  case False
  have len: "ds_len real - (start + n) = length Z" "ds_len real - n = length (X @ Z)"
    using rep_length [OF assms(1)] assms(2,3) by auto
  have rd: "get_at real (start + n) (length Z) = Some Z"
    by (rule get_at_holds [of _ "X @ Y" Z "[]"]) (use rep_holds [OF assms(1)] assms in simp_all)
  define W where "W = drop (length Z) (Y @ Z)"
  define V where "V = take (length Z) (Y @ Z)"
  have split: "X @ Y @ Z = X @ V @ W" and V: "length Z = length V"
    by (simp_all add: V_def W_def del: take_append drop_append)
  have "length W = n" using assms(3) by (simp add: W_def)
  obtain real1 where 1: "put_at real start Z = Some real1" "rep real1 (X @ Z @ W)"
    "ds_len real1 = ds_len real"
    using put_at_rep [OF assms(1) [unfolded split] assms(2) V] by auto
  have "n \<le> length (X @ Z @ W)" using \<open>length W = n\<close> by simp
  with terminate_roomy [OF rep_roomy [OF 1(2)], of "length (X @ Z)"] 1(2)
  obtain real2 where "put_at (real1\<lparr>ds_len := length (X @ Z)\<rparr>) (length (X @ Z)) [0] = Some real2"
    "rep real2 (take (length (X @ Z)) ((X @ Z) @ W))"
    by (auto simp: rep_def)
  with False rd 1 len show ?thesis by (simp add: delete_range_def move_at_def)
qed

lemma string_delete_rep:
  assumes "rep real C" "start + n \<le> length C"
  shows "\<exists>real'. string_delete real start n = Some real' \<and>
    rep real' (take start C @ drop (start + n) C)"
proof -
  have "rep real (take start C @ substring C start n @ drop (start + n) C)"
    using assms by (simp add: substring_append_drop)
  from delete_range_rep [OF this, of start n] assms show ?thesis
    by (auto simp: string_delete_def rep_length check_def)
qed

lemma rep_swap:
  "rep a X \<Longrightarrow> rep b Y \<Longrightarrow>
   rep (a\<lparr>ds_block := ds_block b, ds_addr := ds_addr b, ds_len := ds_len b,
     ds_allocated := ds_allocated b, ds_align_offset := ds_align_offset b\<rparr>) Y"
  by (simp add: rep_def)

text \<open>What a move promises of its answer.\<close>

definition moves :: "heap \<Rightarrow> (bool \<times> real_string \<times> real_string \<times> heap) option \<Rightarrow>
    bytes \<Rightarrow> bytes \<Rightarrow> bytes \<Rightarrow> bytes \<Rightarrow> bool" where
  "moves h r S S' C C' \<longleftrightarrow>
     (\<exists>ok source' dest' h'. r = Some (ok, source', dest', h') \<and> set h' \<subseteq> set h \<and>
       (if ok then rep source' S' \<and> rep dest' C'
        else rep source' S \<and> rep dest' C \<and> (Fail \<in> set h \<or> STRING_MAX_LENGTH < length C')))"

lemma movesI_ok:
  "rep source' S' \<Longrightarrow> rep dest' C' \<Longrightarrow> set h' \<subseteq> set h \<Longrightarrow>
   moves h (Some (True, source', dest', h')) S S' C C'"
  by (auto simp: moves_def)

lemma movesI_fail:
  "rep source S \<Longrightarrow> rep dest' C \<Longrightarrow> set h' \<subseteq> set h \<Longrightarrow>
   Fail \<in> set h \<or> STRING_MAX_LENGTH < length C' \<Longrightarrow> moves h (Some (False, source, dest', h')) S S' C C'"
  by (auto simp: moves_def)

lemma move_by_swap:
  assumes "rep source S" "rep dest []" "S \<noteq> []"
  shows "moves h (string_move_len h source 0 (length S) dest 0) S [] [] S"
proof -
  have "copy_preamble source 0 dest 0 = Some ()"
    using copy_preamble_ok [OF rep_holds [OF assms(1)] assms(2)] by simp
  then show ?thesis
    using assms rep_length [OF assms(1)] rep_length [OF assms(2)]
      rep_swap [OF assms(1,2)] rep_swap [OF assms(2,1)]
    by (auto simp: string_move_len_def intro!: movesI_ok)
qed

lemma move_by_copy:
  assumes "rep source S" "rep dest C" "i \<le> length C" "start + n \<le> length S"
    and "\<not> (start = 0 \<and> n = ds_len source \<and> ds_len dest = 0)" "n \<noteq> 0"
  shows "moves h (string_move_len h source start n dest i) S (take start S @ drop (start + n) S)
    C (take i C @ substring S start n @ drop i C)"
proof -
  have pre: "copy_preamble source start dest i = Some ()" "check (start + n \<le> ds_len source) = Some ()"
    using assms copy_preamble_ok [OF rep_holds [OF assms(1)] assms(2)] by (auto simp: rep_length)
  obtain ok dest' h' where 1: "copy_range h source start n dest i = Some (ok, dest', h')"
    "rep dest' (if ok then take i C @ substring S start n @ drop i C else C)" "set h' \<subseteq> set h"
    "ok \<or> Fail \<in> set h \<or> STRING_MAX_LENGTH < length (take i C @ substring S start n @ drop i C)"
    using copy_range_outcome [OF rep_holds [OF assms(1)] assms(2-4), of h] unfolding outcome_def by blast
  have "rep source (take start S @ substring S start n @ drop (start + n) S)"
    using assms by (simp add: substring_append_drop)
  then obtain source' where 2: "delete_range source start n = Some source'"
    "rep source' (take start S @ drop (start + n) S)"
    using delete_range_rep [of source "take start S" "substring S start n" "drop (start + n) S" start n]
      assms(4) by auto
  have "string_move_len h source start n dest i =
      Some (ok, if ok then source' else source, dest', h')"
    using assms(5,6) pre 1(1) 2(1) by (simp add: string_move_len_def del: de_Morgan_conj)
  with 1(2-4) 2(2) assms(1) show ?thesis by (cases ok) (auto intro: movesI_ok movesI_fail)
qed

lemma string_move_len_moves:
  assumes "rep source S" "rep dest C" "i \<le> length C" "start + n \<le> length S"
  shows "moves h (string_move_len h source start n dest i) S (take start S @ drop (start + n) S)
    C (take i C @ substring S start n @ drop i C)"
proof (cases "n = 0")
  case True
  have "copy_preamble source start dest i = Some ()"
    using assms copy_preamble_ok [OF rep_holds [OF assms(1)] assms(2)] by simp
  with True assms show ?thesis
    by (simp add: string_move_len_def substring_def rep_length movesI_ok)
next
  case False
  note len = rep_length [OF assms(1)] rep_length [OF assms(2)]
  show ?thesis
  proof (cases "start = 0 \<and> n = ds_len source \<and> ds_len dest = 0")
    case True
    with len assms False move_by_swap [OF assms(1), of dest h] show ?thesis
      by (auto simp: substring_def)
  next
    case not_whole: False
    from move_by_copy [OF assms not_whole False] show ?thesis .
  qed
qed

lemma movesE:
  assumes "moves h r S S' C C'"
  obtains (ok) source' dest' h' where "r = Some (True, source', dest', h')" "rep source' S'" "rep dest' C'"
      "set h' \<subseteq> set h"
  | (fails) source' dest' h' where "r = Some (False, source', dest', h')" "rep source' S" "rep dest' C"
      "set h' \<subseteq> set h"
      "Fail \<in> set h \<or> STRING_MAX_LENGTH < length C'"
  using assms unfolding moves_def by (metis (full_types))

text \<open>
  C18. Moving a range between two buffers stays within their blocks; it takes the bytes out of
  the source and inserts them into the destination, or fails and changes neither. The shortcut
  that swaps the two buffers has the same effect as the copy.
\<close>

theorem string_move_len_spec:
  assumes "rep source S" "rep dest C" "i \<le> length C" "start + n \<le> length S"
  shows "\<exists>ok source' dest' h'. string_move_len h source start n dest i = Some (ok, source', dest', h') \<and>
    (if ok then rep source' (take start S @ drop (start + n) S) \<and>
                rep dest' (take i C @ substring S start n @ drop i C)
     else rep source' S \<and> rep dest' C \<and>
          (Fail \<in> set h \<or> STRING_MAX_LENGTH < length (take i C @ substring S start n @ drop i C)))"
  using string_move_len_moves [OF assms] unfolding moves_def by blast

lemma substring_then_drop:
  "n \<le> k \<Longrightarrow> drop (at + n) C = substring C (at + n) (k - n) @ drop (at + k) C"
  using append_take_drop_id [of "k - n" "drop (at + n) C"] by (simp add: substring_def add.commute)

lemma take_then_substring: "take (at + k) C = take at C @ substring C at k"
  by (simp add: substring_def take_add)

lemma substring_then_substring:
  "substring S at k @ substring S (at + k) n = substring S at (k + n)"
  by (simp add: substring_def take_add add.commute)

lemma string_replace_len_outcome:
  assumes "holds source S" "rep dest C" "start + n \<le> length S" "at + k \<le> length C"
  shows "outcome h (string_replace_len h source start n dest at k) C
    (take at C @ substring S start n @ drop (at + k) C)"
proof -
  have pre: "copy_preamble source start dest at = Some ()"
    "check (n \<le> ds_len source - start \<and> k \<le> ds_len dest - at) = Some ()"
    using copy_preamble_ok [OF assms(1,2)] assms by (auto simp: rep_length holds_def)
  have rd: "get_at source start m = Some (substring S start m)" if "m \<le> n" for m
    using get_at_holds [of source "take start S" "substring S start m" "drop (start + m) S" start m]
      assms(1,3) that by (simp add: substring_append_drop)
  show ?thesis
  proof (cases "n \<le> k")
    case True
    have C: "rep dest (take at C @ substring C at n @ drop (at + n) C)"
      using assms(2,4) True by (simp add: substring_append_drop)
    obtain dest1 where 1: "put_at dest at (substring S start n) = Some dest1"
      "rep dest1 (take at C @ substring S start n @ drop (at + n) C)"
      using put_at_rep [OF C, of at "substring S start n"] assms(3,4) True
      by auto
    have rest: "drop (at + n) C = substring C (at + n) (k - n) @ drop (at + k) C"
      using True by (rule substring_then_drop)
    have "rep dest1 ((take at C @ substring S start n) @ substring C (at + n) (k - n) @ drop (at + k) C)"
      using 1(2) rest by simp
    from delete_range_rep [OF this, of "at + n" "k - n"] assms(3,4) True obtain dest2
      where "delete_range dest1 (at + n) (k - n) = Some dest2"
        "rep dest2 (take at C @ substring S start n @ drop (at + k) C)" by auto
    show ?thesis
    proof (cases "n = k")
      case eq: True
      have "string_replace_len h source start n dest at k = Some (True, dest1, h)"
        using pre rd [of n] 1(1) eq by (simp add: string_replace_len_def)
      with 1(2) eq show ?thesis by (simp add: outcome_ok)
    next
      case neq: False
      have "string_replace_len h source start n dest at k = Some (True, dest2, h)"
        using pre rd [of n] 1(1) neq True \<open>delete_range dest1 (at + n) (k - n) = Some dest2\<close>
        by (simp add: string_replace_len_def)
      with \<open>rep dest2 _\<close> show ?thesis by (simp add: outcome_ok)
    qed
  next
    case False
    then have le: "k \<le> n" "start + k + (n - k) \<le> length S" using assms(3) by auto
    obtain ok dest1 h' where 1: "copy_range h source (start + k) (n - k) dest (at + k) =
        Some (ok, dest1, h')" "set h' \<subseteq> set h" "ok \<or> Fail \<in> set h \<or> STRING_MAX_LENGTH < length C + (n - k)"
      "rep dest1 (if ok then take (at + k) C @ substring S (start + k) (n - k) @ drop (at + k) C else C)"
    proof -
      have "length (take (at + k) C @ substring S (start + k) (n - k) @ drop (at + k) C) =
          length C + (n - k)"
        using assms(4) le by simp
      with copy_range_outcome [OF assms(1,2,4) le(2), of h] that show thesis
        unfolding outcome_def by auto
    qed
    show ?thesis
    proof (cases ok)
      case True
      have "rep dest1 (take at C @ substring C at k @ substring S (start + k) (n - k) @ drop (at + k) C)"
        using 1(4) True by (simp only: if_True take_then_substring append.assoc)
      from put_at_rep [OF this, of at "substring S start k"] assms(3,4) le obtain dest2
        where "put_at dest1 at (substring S start k) = Some dest2"
          "rep dest2 (take at C @ substring S start k @ substring S (start + k) (n - k) @ drop (at + k) C)"
        by auto
      moreover have "substring S start k @ substring S (start + k) (n - k) = substring S start n"
        using le(1) by (simp add: substring_then_substring)
      ultimately have 2: "put_at dest1 at (substring S start k) = Some dest2"
        "rep dest2 (take at C @ substring S start n @ drop (at + k) C)"
        by (simp_all only: append.assoc [symmetric])
      have "string_replace_len h source start n dest at k = Some (True, dest2, h')"
        using pre rd [of k] 1(1) True 2(1) False by (simp add: string_replace_len_def)
      with 2(2) 1(2) show ?thesis by (simp add: outcome_ok)
    next
      case not_ok: False
      have "string_replace_len h source start n dest at k = Some (False, dest1, h')"
        using pre 1(1) not_ok False by (simp add: string_replace_len_def)
      moreover have "length (take at C @ substring S start n @ drop (at + k) C) = length C + (n - k)"
        using assms(3,4) le by simp
      moreover have "rep dest1 C" "Fail \<in> set h \<or> STRING_MAX_LENGTH < length C + (n - k)"
        using 1(3,4) not_ok by simp_all
      ultimately show ?thesis using 1(2) by (simp only: outcome_fail)
    qed
  qed
qed

lemma string_lengthen_outcome:
  assumes "rep real C"
  shows "\<exists>G. length G = n \<and> outcome h (string_lengthen h real n) C (C @ G)"
proof (cases "n > STRING_MAX_LENGTH - ds_len real")
  case True
  with assms show ?thesis
    by (intro exI [of _ "replicate n 0"])
      (auto simp: string_lengthen_def rep_length intro!: outcome_fail)
next
  case False
  with assms set_length_outcome [OF assms, of "ds_len real + n" h] show ?thesis
    by (auto simp: string_lengthen_def rep_length)
qed

lemma string_shorten_rep:
  assumes "rep real C" "n \<le> length C"
  shows "\<exists>real'. string_shorten h real n = Some (real', h) \<and> rep real' (take (length C - n) C)"
  using set_length_shorter [OF assms(1), of "length C - n" h] assms
  by (auto simp: string_shorten_def rep_length)

lemma append_buffer_outcome:
  assumes "rep real C"
  shows "outcome h (append_buffer h real buf) C (C @ buf)"
proof (cases "buf = []")
  case True
  with assms show ?thesis by (simp add: append_buffer_def outcome_ok)
next
  case False
  obtain G where G: "length G = length buf" "outcome h (string_lengthen h real (length buf)) C (C @ G)"
    using string_lengthen_outcome [OF assms] by blast
  have "outcome h (string_lengthen h real (length buf) \<bind> (\<lambda>(ok, real, h).
      if \<not> ok then Some (False, real, h)
      else do { real \<leftarrow> put_at real (ds_len real - length buf) buf; Some (True, real, h) })) C (C @ buf @ [])"
    by (rule outcome_bind [OF G(2)], use G(1) in simp)
      (rule put_outcome [where Y = G], use G(1) in \<open>auto simp: rep_length\<close>)
  with False show ?thesis by (simp add: append_buffer_def)
qed

text \<open>
  Appending to a well-formed buffer stays within its block and either appends the bytes, or
  fails and keeps the contents, the latter only when an allocation failed or the result would
  exceed the maximal length.
\<close>

theorem string_append_spec:
  assumes "rep real C"
  shows "outcome h (string_append h real buf) C (C @ buf)"
  using append_buffer_outcome [OF assms] assms
  by (auto simp: string_append_def intro: outcome_fail)

lemma string_append_len_outcome:
  "rep real C \<Longrightarrow> n \<le> length buf \<Longrightarrow> outcome h (string_append_len h real buf n) C (C @ take n buf)"
  by (simp add: string_append_len_def mem_read_def substring_def append_buffer_outcome)

lemma string_append_byte_outcome:
  assumes "rep real C"
  shows "outcome h (string_append_byte h real b) C (C @ [b])"
proof -
  obtain G where G: "length G = 1" "outcome h (set_length h real (ds_len real + 1)) C (C @ G)"
    using set_length_outcome [OF assms, of "ds_len real + 1" h] rep_length [OF assms] by auto
  have "outcome h (set_length h real (ds_len real + 1) \<bind> (\<lambda>(ok, real, h).
      if \<not> ok then Some (False, real, h)
      else do { real \<leftarrow> put_at real (ds_len real - 1) [b]; Some (True, real, h) })) C (C @ [b] @ [])"
    by (rule outcome_bind [OF G(2)], use G(1) in simp)
      (rule put_outcome [where Y = G], use G(1) in \<open>auto simp: rep_length\<close>)
  with assms show ?thesis by (simp add: string_append_byte_def)
qed

lemma string_set_byte_rep:
  assumes "rep real C" "i < length C"
  shows "\<exists>real'. string_set_byte real i b = Some real' \<and> rep real' (C[i := b])"
proof -
  have "rep real (take i C @ [C ! i] @ drop (Suc i) C)"
    using assms by (simp add: id_take_nth_drop [symmetric])
  from put_at_rep [OF this, of i "[b]"] assms show ?thesis
    by (auto simp: string_set_byte_def rep_length upd_conv_take_nth_drop)
qed

lemma string_get_byte_holds:
  assumes "holds real C" "i < length C"
  shows "string_get_byte real i = Some (C ! i)"
  using get_at_holds [of real "take i C" "[C ! i]" "drop (Suc i) C" i 1] assms
  by (simp add: string_get_byte_def holds_def id_take_nth_drop [symmetric])

text \<open>Reading at the length gives the terminating NUL.\<close>

lemma string_get_byte_end: "rep real C \<Longrightarrow> string_get_byte real (length C) = Some 0"
  by (auto simp: string_get_byte_def get_at_def mem_read_def substring_def rep_def)

section \<open>Alignment\<close>

lemma align_value_bounds:
  assumes "0 < a"
  shows "n \<le> align_value n a" "align_value n a < n + a" "a dvd align_value n a"
proof -
  have "(n + a - 1) div a * a + (n + a - 1) mod a = n + a - 1" by simp
  moreover have "(n + a - 1) mod a < a" using assms by simp
  ultimately show "n \<le> align_value n a" "align_value n a < n + a"
    unfolding align_value_def using assms by linarith+
qed (simp add: align_value_def)

text \<open>\<^verbatim>\<open>_DBUS_ALIGN_VALUE\<close> masks the low bits off.\<close>

lemma align_value_mask:
  fixes w :: "64 word"
  assumes "unat w + 2 ^ k \<le> 2 ^ 64" "k < 64"
  shows "unat ((w + (2 ^ k - 1)) AND NOT (mask k)) = align_value (unat w) (2 ^ k)"
proof -
  have "(2 ^ k - 1 :: nat) < 2 ^ 64"
    by (metis assms(2) less_imp_diff_less one_less_numeral_iff power_strict_increasing semiring_norm(76))
  moreover have "(2 ^ k - 1 :: 64 word) = of_nat (2 ^ k - 1)" by (simp add: of_nat_diff)
  ultimately have "unat (2 ^ k - 1 :: 64 word) = 2 ^ k - 1"
    by (simp add: unsigned_of_nat take_bit_nat_eq_self del: of_nat_diff)
  then have "unat (w + (2 ^ k - 1)) = unat w + (2 ^ k - 1)"
    using assms(1) by (subst unat_add_lem [THEN iffD1]) (auto simp: le_less_trans)
  then show ?thesis
    by (simp add: word_and_not_mask unat_push_drop align_value_def)
qed

lemma align_open_gap_cases:
  assumes "rep real C" "i \<le> length C" "1 \<le> a" "a \<le> 8"
  obtains (ok) real' h' G where
    "align_insert_point_then_open_gap h real i a g = Some (True, align_value i a, real', h')"
    "set h' \<subseteq> set h" "length G = g"
    "rep real' (take i C @ replicate (align_value i a - i) 0 @ G @ drop i C)"
  | (fails) real' h' where
    "align_insert_point_then_open_gap h real i a g = Some (False, i, real', h')"
    "set h' \<subseteq> set h" "rep real' C"
    "Fail \<in> set h \<or> STRING_MAX_LENGTH < length C + (align_value i a - i) + g"
proof -
  define p where "p = align_value i a"
  define d where "d = p - i + g"
  note len = rep_length [OF assms(1)]
  have pre: "string_preamble real = Some ()" "check (1 \<le> a \<and> a \<le> 8 \<and> i \<le> ds_len real) = Some ()"
    using assms len by auto
  have p: "i \<le> p" using align_value_bounds(1) assms(3) by (simp add: p_def)
  have eq: "align_insert_point_then_open_gap h real i a g =
     (if ds_len real + d > STRING_MAX_LENGTH then Some (False, i, real, h)
      else if d = 0 then do { check (i = p); Some (True, i, real, h) }
      else do {
        (ok, real, h) \<leftarrow> open_gap h d real i;
        if \<not> ok then Some (False, i, real, h)
        else do { real \<leftarrow> (if g < d then put_at real i (replicate (p - i) 0) else Some real);
                  Some (True, p, real, h) } })"
    unfolding align_insert_point_then_open_gap_def pre
    by (simp add: Let_def d_def p_def add.assoc cong: if_cong)
  consider (long) "length C + d > STRING_MAX_LENGTH" | (none) "length C + d \<le> STRING_MAX_LENGTH" "d = 0"
    | (gap) "length C + d \<le> STRING_MAX_LENGTH" "d \<noteq> 0" by linarith
  then show thesis
  proof cases
    case long
    show ?thesis
      by (rule fails [of real h]) (use eq long len assms(1) in \<open>simp_all add: d_def p_def add.assoc\<close>)
  next
    case none
    then have "i = p" "g = 0" using p by (simp_all add: d_def)
    then show ?thesis
      by (intro ok [of real h "[]"]) (use eq none len assms(1) p_def in simp_all)
  next
    case gap
    obtain H where H: "length H = d" "outcome h (open_gap h d real i) C (take i C @ H @ drop i C)"
      using open_gap_outcome [OF assms(1,2)] by blast
    have lenH: "length (take i C @ H @ drop i C) = length C + d"
      using H(1) assms(2) by simp
    obtain b real1 h1 where 1: "open_gap h d real i = Some (b, real1, h1)" "set h1 \<subseteq> set h"
      "rep real1 (if b then take i C @ H @ drop i C else C)"
      "b \<or> Fail \<in> set h \<or> STRING_MAX_LENGTH < length C + d"
      using H(2) unfolding outcome_def lenH by blast
    show ?thesis
    proof (cases b)
      case False
      have "align_insert_point_then_open_gap h real i a g = Some (False, i, real1, h1)"
        using eq gap len 1(1) False by simp
      moreover have "Fail \<in> set h \<or> STRING_MAX_LENGTH < length C + (align_value i a - i) + g"
        using 1(4) False by (simp add: d_def p_def add.assoc)
      ultimately show ?thesis using 1(2,3) False by (intro fails [of real1 h1]) simp_all
    next
      case True
      define H1 H2 where "H1 = take (p - i) H" and "H2 = drop (p - i) H"
      have H12: "H = H1 @ H2" "length H1 = p - i" "length H2 = g"
        using H(1) by (simp_all add: H1_def H2_def d_def)
      have r1: "rep real1 (take i C @ H1 @ (H2 @ drop i C))" using 1(3) True H12(1) by simp
      obtain real2 where 2: "put_at real1 i (replicate (p - i) 0) = Some real2"
        "rep real2 (take i C @ replicate (p - i) 0 @ H2 @ drop i C)"
        using put_at_rep [OF r1, of i "replicate (p - i) 0"] H12(2) assms(2) by auto
      show ?thesis
      proof (cases "g < d")
        case less: True
        show ?thesis
          by (rule ok [of real2 h1 H2]) (use eq gap len 1(1,2) True less 2 H12(3) p_def in simp_all)
      next
        case False
        then have "H1 = []" "p - i = 0" using H12(2) by (simp_all add: d_def)
        then show ?thesis
          by (intro ok [of real1 h1 H2]) (use eq gap len 1(1,2) True False r1 H12(3) p_def in simp_all)
      qed
    qed
  qed
qed

lemma string_insert_aligned_outcome:
  assumes "rep real C" "i \<le> length C" "octets \<noteq> []" "length octets \<le> 8"
  shows "outcome h (string_insert_aligned h real i octets) C
    (take i C @ replicate (align_value i (length octets) - i) 0 @ octets @ drop i C)"
proof -
  have one: "1 \<le> length octets" using assms(3) by (cases octets) auto
  let ?a = "length octets" and ?p = "align_value i (length octets)"
  note pre = rep_preamble [OF assms(1)]
  from assms(1,2) one assms(4) show ?thesis
  proof (cases rule: align_open_gap_cases [where h = h and g = "length octets"])
    case (ok real' h' G)
    have p: "length (take i C @ replicate (?p - i) 0) = ?p"
      using assms(2) align_value_bounds(1) [of ?a i] one by (simp add: Suc_le_eq)
    have "rep real' ((take i C @ replicate (?p - i) 0) @ G @ drop i C)" using ok(4) by simp
    then obtain real2 where "put_at real' ?p octets = Some real2"
      "rep real2 ((take i C @ replicate (?p - i) 0) @ octets @ drop i C)"
      using put_at_rep [of real' _ G _ ?p octets] ok(3) p by metis
    with ok(1,2) pre show ?thesis by (simp add: string_insert_aligned_def outcome_ok)
  next
    case (fails real' h')
    with pre assms(2) show ?thesis
      by (auto simp: string_insert_aligned_def add.assoc intro!: outcome_fail)
  qed
qed

lemma string_align_length_outcome:
  assumes "rep real C" "1 \<le> a" "a \<le> 8"
  shows "outcome h (string_align_length h real a) C
    (C @ replicate (align_value (length C) a - length C) 0)"
  using assms(1) order_refl assms(2,3)
proof (cases rule: align_open_gap_cases [where h = h and g = 0])
  case (ok real' h' G)
  with rep_length [OF assms(1)] show ?thesis
    by (simp add: string_align_length_def align_length_then_lengthen_def outcome_ok)
next
  case (fails real' h')
  with rep_length [OF assms(1)] show ?thesis
    by (auto simp: string_align_length_def align_length_then_lengthen_def intro!: outcome_fail)
qed

section \<open>Creation, compaction, stealing\<close>

lemma string_init_spec:
  "\<exists>r h'. string_init h = Some (r, h') \<and>
     (case r of None \<Rightarrow> Fail \<in> set h | Some real \<Rightarrow> rep real [])"
proof -
  obtain q h' where q: "heap_alloc h 8 = (q, h')" by fastforce
  show ?thesis
  proof (cases q)
    case None
    with q heap_alloc_fail [of h 8 h'] show ?thesis
      by (simp add: string_init_def string_init_preallocated_def ALLOCATION_PADDING_def)
  next
    case (Some ab)
    obtain a b where ab: "ab = (a, b)" by fastforce
    with Some q have "length b = 8" using heap_alloc_length by blast
    then have w: "mem_write b 0 [0] = Some ([] @ [0] @ drop 1 b)" by (simp add: mem_write_def)
    let ?r = "\<lparr>ds_block = [] @ [0] @ drop 1 b, ds_addr = a, ds_align_offset = 0, ds_len = 0,
      ds_allocated = 8, ds_constant = False, ds_locked = False\<rparr>"
    have "roomy ?r [0]"
      unfolding roomy_def by (intro conjI exI [of _ "[]"] exI [of _ "drop 1 b"]) (simp_all add: \<open>length b = 8\<close>)
    from fixup_alignment_roomy [OF this] obtain real where real: "fixup_alignment ?r = Some real"
      "roomy real [0]" "ds_len real = 0" "ds_allocated real = 8" by auto
    then have "rep real []" by (auto simp: roomy_def rep_def)
    with real(1) w ab Some q show ?thesis
      by (simp add: string_init_def string_init_preallocated_def ALLOCATION_PADDING_def)
  qed
qed

lemma fixup_alignment_rep:
  assumes "roomy real (C @ [0])" "ds_len real = length C"
  shows "\<exists>real'. fixup_alignment real = Some real' \<and> rep real' C"
  using fixup_alignment_roomy [OF assms(1)] assms(2) roomy_rep by auto

text \<open>
  Compaction shrinks the block to the length plus the padding; the aligned string still fits
  because the offset is less than the padding.
\<close>

lemma compact_spec:
  assumes "rep real C"
  shows "\<exists>ok real' h'. compact h real w = Some (ok, real', h') \<and> rep real' C \<and> (ok \<or> Fail \<in> set h)"
proof (cases "ds_allocated real - (ds_len real + 8) \<le> w")
  case True
  with assms show ?thesis by (auto simp: compact_def ALLOCATION_PADDING_def)
next
  case False
  note len = rep_length [OF assms]
  obtain r h' where r: "heap_realloc h (ds_block real) (ds_len real + 8) = (r, h')" by fastforce
  from r show ?thesis
  proof (cases rule: heap_realloc_cases)
    case fails
    with False r assms show ?thesis by (auto simp: compact_def ALLOCATION_PADDING_def Let_def)
  next
    case (grants a b)
    let ?real = "real\<lparr>ds_block := b, ds_addr := a, ds_allocated := ds_len real + 8\<rparr>"
    obtain A R where AR: "ds_block real = A @ (C @ [0]) @ R" "length A = ds_align_offset real"
      using assms by (auto simp: rep_def)
    have off: "ds_align_offset real < 8" and "ds_len real + 8 \<le> length (ds_block real)"
      using assms by (auto simp: rep_def)
    with grants(6) have "b = take (ds_len real + 8) (ds_block real)" by simp
    then have "b = A @ (C @ [0]) @ take (8 - (length A + 1)) R"
      using AR off len by (simp add: take_Cons')
    then have "roomy ?real (C @ [0])"
      unfolding roomy_def
      by (intro conjI exI [of _ A] exI [of _ "take (8 - (length A + 1)) R"])
        (use AR(2) grants(2) assms in \<open>auto simp: rep_def\<close>)
    then obtain real' where "fixup_alignment ?real = Some real'" "rep real' C"
      using fixup_alignment_rep [of ?real C] len by auto
    with False r grants(1) show ?thesis by (auto simp: compact_def ALLOCATION_PADDING_def Let_def)
  qed
qed

text \<open>Taking the aligned string back to the start of its block.\<close>

lemma undo_alignment_roomy:
  assumes "rep real C"
  shows "\<exists>real'. undo_alignment real = Some real' \<and> roomy real' (C @ [0]) \<and>
    ds_align_offset real' = 0 \<and> ds_len real' = length C"
proof (cases "ds_align_offset real = 0")
  case True
  with assms rep_roomy rep_length show ?thesis by (auto simp: undo_alignment_def)
next
  case False
  let ?b = "ds_block real"
  obtain A R where AR: "?b = A @ (C @ [0]) @ R" "length A = ds_align_offset real"
    using assms by (auto simp: rep_def)
  note len = rep_length [OF assms]
  define c where "c = (C @ [0]) @ drop (length (C @ [0])) ?b"
  have "mem_read ?b (ds_align_offset real) (ds_len real + 1) = Some (C @ [0])"
    unfolding AR(1) by (rule mem_read_append) (use AR len in simp_all)
  then have "memmove ?b 0 (ds_align_offset real) (ds_len real + 1) = Some c"
    using AR by (simp add: memmove_def mem_write_def c_def)
  moreover have "roomy (real\<lparr>ds_block := c, ds_align_offset := 0\<rparr>) (C @ [0])"
    unfolding roomy_def
    by (intro conjI exI [of _ "[]"] exI [of _ "drop (length (C @ [0])) ?b"])
      (use assms AR in \<open>auto simp: rep_def c_def\<close>)
  ultimately show ?thesis using False len by (simp add: undo_alignment_def)
qed

text \<open>
  C19. Stealing the data of a buffer hands over its bytes with their NUL and leaves an empty
  buffer; when the new buffer cannot be allocated the old one is restored.
\<close>

theorem string_steal_data_spec:
  assumes "rep real C"
  shows "\<exists>r real' h'. string_steal_data h real = Some (r, real', h') \<and>
    (case r of None \<Rightarrow> rep real' C \<and> Fail \<in> set h
     | Some data \<Rightarrow> rep real' [] \<and> take (length C + 1) data = C @ [0])"
proof -
  obtain real1 where 1: "undo_alignment real = Some real1" "roomy real1 (C @ [0])"
    "ds_align_offset real1 = 0" "ds_len real1 = length C"
    using undo_alignment_roomy [OF assms] by blast
  obtain r h' where r: "string_init h = Some (r, h')"
    "case r of None \<Rightarrow> Fail \<in> set h | Some real \<Rightarrow> rep real []"
    using string_init_spec by blast
  show ?thesis
  proof (cases r)
    case None
    obtain real2 where "fixup_alignment real1 = Some real2" "rep real2 C"
      using fixup_alignment_rep [OF 1(2,4)] by blast
    with None r 1(1) assms show ?thesis by (simp add: string_steal_data_def Let_def)
  next
    case (Some real2)
    obtain R where "ds_block real1 = (C @ [0]) @ R" using 1(2,3) by (auto simp: roomy_def)
    with Some r 1(1) assms show ?thesis by (simp add: string_steal_data_def Let_def)
  qed
qed

section \<open>Concrete buffers\<close>

text \<open>A buffer holding \<open>C\<close> in a block with the minimal padding.\<close>

definition buffer_of :: "bytes \<Rightarrow> real_string" where
  "buffer_of C = \<lparr>ds_block = C @ replicate 8 0, ds_addr = 0, ds_align_offset = 0,
     ds_len = length C, ds_allocated = length C + 8, ds_constant = False, ds_locked = False\<rparr>"

lemma rep_buffer_of: "length C \<le> STRING_MAX_LENGTH \<Longrightarrow> rep (buffer_of C) C"
proof -
  assume len: "length C \<le> STRING_MAX_LENGTH"
  have "replicate 8 0 = 0 # replicate 7 (0 :: byte)" by (simp add: numeral_eq_Suc)
  then have "ds_block (buffer_of C) = [] @ C @ 0 # replicate 7 0" by (simp add: buffer_of_def)
  then show ?thesis
    unfolding rep_def
    by (intro conjI exI [of _ "[]"] exI [of _ "replicate 7 0"])
      (use len in \<open>simp_all add: buffer_of_def max_length\<close>)
qed

theorem string_move_len_witness:
  "\<exists>ok source' dest' h'.
     string_move_len [] (buffer_of (bytes ''abcd'')) (Suc 0) (Suc (Suc 0)) (buffer_of (bytes ''xy'')) (Suc 0) =
       Some (ok, source', dest', h') \<and> ok \<and> rep source' (bytes ''ad'') \<and> rep dest' (bytes ''xbcy'')"
proof -
  have "rep (buffer_of (bytes ''abcd'')) (bytes ''abcd'')" "rep (buffer_of (bytes ''xy'')) (bytes ''xy'')"
    by (rule rep_buffer_of, simp add: max_length)+
  from string_move_len_spec [OF this, of "Suc 0" "Suc 0" "Suc (Suc 0)" "[]"] show ?thesis
    by (auto simp: max_length substring_def split: if_splits)
qed

theorem string_append_witness:
  "outcome [] (string_append [] (buffer_of (bytes ''ab'')) (bytes ''cd'')) (bytes ''ab'') (bytes ''abcd'')"
proof -
  have "rep (buffer_of (bytes ''ab'')) (bytes ''ab'')"
    by (rule rep_buffer_of) (simp add: max_length)
  from string_append_spec [OF this, of "[]" "bytes ''cd''"] show ?thesis by simp
qed

theorem string_steal_data_witness:
  "\<exists>data real' h'. string_steal_data [] (buffer_of (bytes ''ab'')) = Some (Some data, real', h') \<and>
     rep real' [] \<and> take (Suc (Suc (Suc 0))) data = bytes ''ab'' @ [0]"
proof -
  have "rep (buffer_of (bytes ''ab'')) (bytes ''ab'')"
    by (rule rep_buffer_of) (simp add: max_length)
  from string_steal_data_spec [OF this, of "[]"] show ?thesis
    by (auto split: option.splits)
qed

end
