(* ===== verification/Octets.thy ===== *)
theory Octets
  imports Prelude
begin

text \<open>
  Integers in memory: the byte swapping macros of \<^verbatim>\<open>dbus/dbus-marshal-basic.h\<close> and the packing and
  unpacking functions of \<^verbatim>\<open>dbus/dbus-marshal-basic.c\<close>. The byte order of the machine
  (\<^verbatim>\<open>DBUS_COMPILER_BYTE_ORDER\<close>) is a parameter \<open>host\<close>; the lemmas show that the marshalled bytes do
  not depend on it.
\<close>

section \<open>Definitions\<close>

datatype byte_order = LITTLE_ENDIAN | BIG_ENDIAN

definition UINT16_SWAP_LE_BE :: "16 word \<Rightarrow> 16 word" where
  "UINT16_SWAP_LE_BE v = drop_bit 8 v OR push_bit 8 v"

definition UINT32_SWAP_LE_BE :: "32 word \<Rightarrow> 32 word" where
  "UINT32_SWAP_LE_BE v =
     push_bit 24 (v AND 0x000000ff) OR push_bit 8 (v AND 0x0000ff00) OR
     drop_bit 8 (v AND 0x00ff0000) OR drop_bit 24 (v AND 0xff000000)"

definition UINT64_SWAP_LE_BE :: "64 word \<Rightarrow> 64 word" where
  "UINT64_SWAP_LE_BE v =
     push_bit 56 (v AND 0x00000000000000ff) OR push_bit 40 (v AND 0x000000000000ff00) OR
     push_bit 24 (v AND 0x0000000000ff0000) OR push_bit 8 (v AND 0x00000000ff000000) OR
     drop_bit 8 (v AND 0x000000ff00000000) OR drop_bit 24 (v AND 0x0000ff0000000000) OR
     drop_bit 40 (v AND 0x00ff000000000000) OR drop_bit 56 (v AND 0xff00000000000000)"

text \<open>The bytes of an integer, the least significant first, and the integer of such bytes.\<close>

definition le_bytes :: "'a::len word \<Rightarrow> bytes" where
  "le_bytes v = map (\<lambda>i. ucast (drop_bit (8 * i) v)) [0..<LENGTH('a) div 8]"

definition of_le :: "bytes \<Rightarrow> 'a::len word" where
  "of_le bs = foldr (\<lambda>b acc. push_bit 8 acc OR ucast b) bs 0"

text \<open>An integer as it stands in the memory of the host.\<close>

definition store :: "byte_order \<Rightarrow> 'a::len word \<Rightarrow> bytes" where
  "store host v = (if host = LITTLE_ENDIAN then le_bytes v else rev (le_bytes v))"

definition load :: "byte_order \<Rightarrow> bytes \<Rightarrow> 'a::len word" where
  "load host bs = (if host = LITTLE_ENDIAN then of_le bs else of_le (rev bs))"

definition pack_2_octets :: "byte_order \<Rightarrow> 16 word \<Rightarrow> byte_order \<Rightarrow> bytes" where
  "pack_2_octets host v byte_order =
     store host (if byte_order = LITTLE_ENDIAN
       then (if host = LITTLE_ENDIAN then v else UINT16_SWAP_LE_BE v)
       else (if host = BIG_ENDIAN then v else UINT16_SWAP_LE_BE v))"

definition pack_4_octets :: "byte_order \<Rightarrow> 32 word \<Rightarrow> byte_order \<Rightarrow> bytes" where
  "pack_4_octets host v byte_order =
     store host (if byte_order = LITTLE_ENDIAN
       then (if host = LITTLE_ENDIAN then v else UINT32_SWAP_LE_BE v)
       else (if host = BIG_ENDIAN then v else UINT32_SWAP_LE_BE v))"

definition pack_8_octets :: "byte_order \<Rightarrow> 64 word \<Rightarrow> byte_order \<Rightarrow> bytes" where
  "pack_8_octets host v byte_order =
     store host (if byte_order = LITTLE_ENDIAN
       then (if host = LITTLE_ENDIAN then v else UINT64_SWAP_LE_BE v)
       else (if host = BIG_ENDIAN then v else UINT64_SWAP_LE_BE v))"

definition unpack_uint16 :: "byte_order \<Rightarrow> byte_order \<Rightarrow> bytes \<Rightarrow> 16 word" where
  "unpack_uint16 host byte_order data =
     (if byte_order = LITTLE_ENDIAN
      then (if host = LITTLE_ENDIAN then load host data else UINT16_SWAP_LE_BE (load host data))
      else (if host = BIG_ENDIAN then load host data else UINT16_SWAP_LE_BE (load host data)))"

definition unpack_uint32 :: "byte_order \<Rightarrow> byte_order \<Rightarrow> bytes \<Rightarrow> 32 word" where
  "unpack_uint32 host byte_order data =
     (if byte_order = LITTLE_ENDIAN
      then (if host = LITTLE_ENDIAN then load host data else UINT32_SWAP_LE_BE (load host data))
      else (if host = BIG_ENDIAN then load host data else UINT32_SWAP_LE_BE (load host data)))"

text \<open>\<^verbatim>\<open>swap_8_octets\<close>, and reading the 8 octets of a 64-bit value back.\<close>

definition swap_8_octets :: "byte_order \<Rightarrow> 64 word \<Rightarrow> byte_order \<Rightarrow> 64 word" where
  "swap_8_octets host v byte_order = (if byte_order \<noteq> host then UINT64_SWAP_LE_BE v else v)"

definition unpack_uint64 :: "byte_order \<Rightarrow> byte_order \<Rightarrow> bytes \<Rightarrow> 64 word" where
  "unpack_uint64 host byte_order data = swap_8_octets host (load host data) byte_order"

section \<open>Bits\<close>

lemma bit_of_le:
  "bit (of_le bs :: 'a::len word) n \<longleftrightarrow>
   n < LENGTH('a) \<and> n div 8 < length bs \<and> bit (bs ! (n div 8)) (n mod 8)"
proof (induction bs arbitrary: n)
  case Nil
  then show ?case by (simp add: of_le_def)
next
  case (Cons b bs)
  have "of_le (b # bs) = (push_bit 8 (of_le bs) OR ucast b :: 'a word)" by (simp add: of_le_def)
  moreover have "8 \<le> n \<Longrightarrow> \<not> bit b n"
    using bit_imp_le_length [of b n] by auto
  ultimately show ?case
    using Cons.IH [of "n - 8"]
    by (cases "n < 8") (auto simp: bit_simps div_less nth_Cons' le_div_geq le_mod_geq not_less)
qed

lemma length_le_bytes [simp]: "length (le_bytes (v :: 'a::len word)) = LENGTH('a) div 8"
  by (simp add: le_bytes_def)

lemma bit_le_bytes:
  "i < LENGTH('a) div 8 \<Longrightarrow> bit (le_bytes (v :: 'a::len word) ! i) j \<longleftrightarrow> j < 8 \<and> bit v (8 * i + j)"
  by (simp add: le_bytes_def bit_simps)

lemma of_le_bytes:
  assumes "8 dvd LENGTH('a)"
  shows "of_le (le_bytes v) = (v :: 'a::len word)"
proof (rule bit_word_eqI)
  fix n assume n: "n < LENGTH('a)"
  obtain k where k: "LENGTH('a) = 8 * k" using assms by (elim dvdE)
  with n have "n div 8 < LENGTH('a) div 8" by (simp add: less_mult_imp_div_less mult.commute)
  with n show "bit (of_le (le_bytes v) :: 'a word) n = bit v n"
    by (simp add: bit_of_le bit_le_bytes)
qed

lemma le_bytes_of_le:
  assumes "8 * length bs = LENGTH('a)"
  shows "le_bytes (of_le bs :: 'a::len word) = bs"
proof (rule nth_equalityI)
  show len: "length (le_bytes (of_le bs :: 'a word)) = length bs" using assms [symmetric] by simp
  fix i assume "i < length (le_bytes (of_le bs :: 'a word))"
  with len have i: "i < length bs" by simp
  show "le_bytes (of_le bs :: 'a word) ! i = bs ! i"
  proof (rule bit_word_eqI)
    fix j assume "j < LENGTH(8)"
    with i assms show "bit (le_bytes (of_le bs :: 'a word) ! i) j = bit (bs ! i) j"
      by (subst bit_le_bytes) (auto simp: bit_of_le)
  qed
qed

text \<open>The macros reverse the bytes.\<close>

lemma bit_reversed:
  assumes "LENGTH('a) = 8 * k" "q < k" "r < 8"
  shows "bit (of_le (rev (le_bytes v)) :: 'a::len word) (8 * q + r) \<longleftrightarrow>
    bit (v :: 'a word) (8 * (k - 1 - q) + r)"
proof -
  have "8 * q + r < LENGTH('a)" using assms by linarith
  moreover have "(8 * q + r) div 8 = q" "(8 * q + r) mod 8 = r" using assms(3) by simp_all
  ultimately show ?thesis
    using assms by (simp add: bit_of_le rev_nth bit_le_bytes)
qed

lemma reversedI:
  assumes "LENGTH('a) = 8 * k"
    and "\<And>q r. q < k \<Longrightarrow> r < 8 \<Longrightarrow> bit (w :: 'a::len word) (8 * q + r) \<longleftrightarrow> bit (v :: 'a word) (8 * (k - 1 - q) + r)"
  shows "w = of_le (rev (le_bytes v))"
proof (rule bit_word_eqI)
  fix n assume "n < LENGTH('a)"
  then have "n div 8 < k" using assms(1) by (simp add: less_mult_imp_div_less mult.commute)
  moreover have "n mod 8 < 8" "8 * (n div 8) + n mod 8 = n" by simp_all
  ultimately show "bit w n = bit (of_le (rev (le_bytes v)) :: 'a word) n"
    using bit_reversed [OF assms(1), of "n div 8" "n mod 8" v] assms(2) [of "n div 8" "n mod 8"]
    by (simp only: )
qed

lemma swap_masks:
  "0xff = (mask 8 :: 'a::len word)" "0xff00 = (push_bit 8 (mask 8) :: 'a::len word)"
  "0xff0000 = (push_bit 16 (mask 8) :: 'a::len word)"
  "0xff000000 = (push_bit 24 (mask 8) :: 'a::len word)"
  "0xff00000000 = (push_bit 32 (mask 8) :: 'a::len word)"
  "0xff0000000000 = (push_bit 40 (mask 8) :: 'a::len word)"
  "0xff000000000000 = (push_bit 48 (mask 8) :: 'a::len word)"
  "0xff00000000000000 = (push_bit 56 (mask 8) :: 'a::len word)"
  by (simp_all add: mask_eq_exp_minus_1 push_bit_eq_mult)

lemma less_cases:
  "q < (2 :: nat) \<Longrightarrow> q = 0 \<or> q = 1" "q < (4 :: nat) \<Longrightarrow> q = 0 \<or> q = 1 \<or> q = 2 \<or> q = 3"
  "q < (8 :: nat) \<Longrightarrow> q = 0 \<or> q = 1 \<or> q = 2 \<or> q = 3 \<or> q = 4 \<or> q = 5 \<or> q = 6 \<or> q = 7"
  by presburger+

lemma swap16: "UINT16_SWAP_LE_BE v = of_le (rev (le_bytes v))"
proof (rule reversedI [where k = 2])
  fix q r :: nat assume "q < 2" and r: "r < 8"
  from less_cases(1) [OF \<open>q < 2\<close>]
  show "bit (UINT16_SWAP_LE_BE v) (8 * q + r) \<longleftrightarrow> bit v (8 * (2 - 1 - q) + r)"
    unfolding UINT16_SWAP_LE_BE_def
    by (elim disjE) (use r bit_imp_le_length [of v "16 + r"] in \<open>auto simp: bit_simps\<close>)
qed simp

lemma swap32: "UINT32_SWAP_LE_BE v = of_le (rev (le_bytes v))"
proof (rule reversedI [where k = 4])
  fix q r :: nat assume "q < 4" and r: "r < 8"
  from less_cases(2) [OF \<open>q < 4\<close>]
  show "bit (UINT32_SWAP_LE_BE v) (8 * q + r) \<longleftrightarrow> bit v (8 * (4 - 1 - q) + r)"
    unfolding UINT32_SWAP_LE_BE_def swap_masks
    by (elim disjE) (use r in \<open>simp_all add: bit_simps\<close>)
qed simp

lemma swap64: "UINT64_SWAP_LE_BE v = of_le (rev (le_bytes v))"
proof (rule reversedI [where k = 8])
  fix q r :: nat assume "q < 8" and r: "r < 8"
  from less_cases(3) [OF \<open>q < 8\<close>]
  show "bit (UINT64_SWAP_LE_BE v) (8 * q + r) \<longleftrightarrow> bit v (8 * (8 - 1 - q) + r)"
    unfolding UINT64_SWAP_LE_BE_def swap_masks
    by (elim disjE) (use r in \<open>simp_all add: bit_simps\<close>)
qed simp

section \<open>Packing\<close>

lemma le_bytes_reversed:
  "8 dvd LENGTH('a) \<Longrightarrow> le_bytes (of_le (rev (le_bytes v)) :: 'a::len word) = rev (le_bytes (v :: 'a word))"
  by (rule le_bytes_of_le) simp

lemma of_le_reversed:
  "8 * length bs = LENGTH('a) \<Longrightarrow> of_le (rev (le_bytes (of_le bs :: 'a::len word))) = (of_le (rev bs) :: 'a word)"
  by (simp add: le_bytes_of_le)

lemma load_store:
  "8 dvd LENGTH('a) \<Longrightarrow> load b (store b v) = (v :: 'a::len word)"
  by (simp add: load_def store_def of_le_bytes)

lemma length_store [simp]: "length (store b (v :: 'a::len word)) = LENGTH('a) div 8"
  by (simp add: store_def)

lemma byte_order_cases: "b \<noteq> LITTLE_ENDIAN \<longleftrightarrow> b = BIG_ENDIAN"
  by (cases b) auto

text \<open>What is packed is the integer in the byte order asked for, whatever the host.\<close>

lemma pack_2_octets_eq: "pack_2_octets host v byte_order = store byte_order v"
  by (cases host; cases byte_order) (simp_all add: pack_2_octets_def store_def swap16 le_bytes_reversed)

lemma pack_4_octets_eq: "pack_4_octets host v byte_order = store byte_order v"
  by (cases host; cases byte_order) (simp_all add: pack_4_octets_def store_def swap32 le_bytes_reversed)

lemma pack_8_octets_eq: "pack_8_octets host v byte_order = store byte_order v"
  by (cases host; cases byte_order) (simp_all add: pack_8_octets_def store_def swap64 le_bytes_reversed)

lemma unpack_uint16_eq: "length data = 2 \<Longrightarrow> unpack_uint16 host byte_order data = load byte_order data"
  by (cases host; cases byte_order)
    (simp_all add: unpack_uint16_def load_def swap16 of_le_reversed le_bytes_of_le)

lemma unpack_uint32_eq: "length data = 4 \<Longrightarrow> unpack_uint32 host byte_order data = load byte_order data"
  by (cases host; cases byte_order)
    (simp_all add: unpack_uint32_def load_def swap32 of_le_reversed le_bytes_of_le)

lemma unpack_uint64_eq: "length data = 8 \<Longrightarrow> unpack_uint64 host byte_order data = load byte_order data"
  by (cases host; cases byte_order)
    (simp_all add: unpack_uint64_def swap_8_octets_def load_def swap64 of_le_reversed le_bytes_of_le)

section \<open>The interface of an octet codec\<close>

text \<open>
  What the marshalling code relies on: packing has a fixed width and does not depend on the host,
  and unpacking on any host inverts it.
\<close>

locale octet_codec =
  fixes pack :: "byte_order \<Rightarrow> 'v \<Rightarrow> byte_order \<Rightarrow> bytes"
    and unpack :: "byte_order \<Rightarrow> byte_order \<Rightarrow> bytes \<Rightarrow> 'v"
    and width :: nat
  assumes width: "length (pack host v byte_order) = width"
    and host_independent: "pack host v byte_order = pack host' v byte_order"
    and unpack_pack: "unpack host byte_order (pack host v byte_order) = v"
begin

lemma unpack_other_host: "unpack host byte_order (pack host' v byte_order) = v"
  using host_independent [of host' v byte_order host] unpack_pack by simp

lemma pack_inject: "pack host v byte_order = pack host' v' byte_order \<longleftrightarrow> v = v'"
  using unpack_other_host host_independent by metis

lemma unpack_within:
  "unpack host byte_order (substring (xs @ pack host' v byte_order @ ys) (length xs) width) = v"
  using width by (simp add: substring_def unpack_other_host)

end

interpretation u16: octet_codec pack_2_octets unpack_uint16 2
  by unfold_locales (simp_all add: pack_2_octets_eq unpack_uint16_eq load_store)

interpretation u32: octet_codec pack_4_octets unpack_uint32 4
  by unfold_locales (simp_all add: pack_4_octets_eq unpack_uint32_eq load_store)

interpretation u64: octet_codec pack_8_octets unpack_uint64 8
  by unfold_locales (simp_all add: pack_8_octets_eq unpack_uint64_eq load_store)

text \<open>
  C20. Unpacking on any host inverts packing on any host, for 2, 4 and 8 octets and both byte
  orders.
\<close>

theorem pack_unpack:
  "unpack_uint16 host byte_order (pack_2_octets host' v byte_order) = v \<and>
   unpack_uint32 host byte_order (pack_4_octets host' w byte_order) = w \<and>
   unpack_uint64 host byte_order (pack_8_octets host' x byte_order) = x"
  by (simp add: u16.unpack_other_host u32.unpack_other_host u64.unpack_other_host)

end
