(* ===== verification/Validity.thy ===== *)
theory Validity
  imports Main
begin

text \<open>
  The answers of the validators, \<^verbatim>\<open>enum DBusValidity\<close> of \<^verbatim>\<open>dbus/dbus-marshal-validate.h\<close>.
\<close>

datatype (plugins only: code) DBusValidity =
    DBUS_VALIDITY_UNKNOWN_OOM_ERROR
  | DBUS_INVALID_FOR_UNKNOWN_REASON
  | DBUS_VALID_BUT_INCOMPLETE
  | DBUS_VALIDITY_UNKNOWN
  | DBUS_VALID
  | DBUS_INVALID_UNKNOWN_TYPECODE
  | DBUS_INVALID_MISSING_ARRAY_ELEMENT_TYPE
  | DBUS_INVALID_SIGNATURE_TOO_LONG
  | DBUS_INVALID_EXCEEDED_MAXIMUM_ARRAY_RECURSION
  | DBUS_INVALID_EXCEEDED_MAXIMUM_STRUCT_RECURSION
  | DBUS_INVALID_STRUCT_ENDED_BUT_NOT_STARTED
  | DBUS_INVALID_STRUCT_STARTED_BUT_NOT_ENDED
  | DBUS_INVALID_STRUCT_HAS_NO_FIELDS
  | DBUS_INVALID_ALIGNMENT_PADDING_NOT_NUL
  | DBUS_INVALID_BOOLEAN_NOT_ZERO_OR_ONE
  | DBUS_INVALID_NOT_ENOUGH_DATA
  | DBUS_INVALID_TOO_MUCH_DATA
  | DBUS_INVALID_BAD_BYTE_ORDER
  | DBUS_INVALID_BAD_PROTOCOL_VERSION
  | DBUS_INVALID_BAD_MESSAGE_TYPE
  | DBUS_INVALID_BAD_SERIAL
  | DBUS_INVALID_INSANE_FIELDS_ARRAY_LENGTH
  | DBUS_INVALID_INSANE_BODY_LENGTH
  | DBUS_INVALID_MESSAGE_TOO_LONG
  | DBUS_INVALID_HEADER_FIELD_CODE
  | DBUS_INVALID_HEADER_FIELD_HAS_WRONG_TYPE
  | DBUS_INVALID_USES_LOCAL_INTERFACE
  | DBUS_INVALID_USES_LOCAL_PATH
  | DBUS_INVALID_HEADER_FIELD_APPEARS_TWICE
  | DBUS_INVALID_BAD_DESTINATION
  | DBUS_INVALID_BAD_INTERFACE
  | DBUS_INVALID_BAD_MEMBER
  | DBUS_INVALID_BAD_ERROR_NAME
  | DBUS_INVALID_BAD_SENDER
  | DBUS_INVALID_MISSING_PATH
  | DBUS_INVALID_MISSING_INTERFACE
  | DBUS_INVALID_MISSING_MEMBER
  | DBUS_INVALID_MISSING_ERROR_NAME
  | DBUS_INVALID_MISSING_REPLY_SERIAL
  | DBUS_INVALID_LENGTH_OUT_OF_BOUNDS
  | DBUS_INVALID_ARRAY_LENGTH_EXCEEDS_MAXIMUM
  | DBUS_INVALID_BAD_PATH
  | DBUS_INVALID_SIGNATURE_LENGTH_OUT_OF_BOUNDS
  | DBUS_INVALID_BAD_UTF8_IN_STRING
  | DBUS_INVALID_ARRAY_LENGTH_INCORRECT
  | DBUS_INVALID_VARIANT_SIGNATURE_LENGTH_OUT_OF_BOUNDS
  | DBUS_INVALID_VARIANT_SIGNATURE_BAD
  | DBUS_INVALID_VARIANT_SIGNATURE_EMPTY
  | DBUS_INVALID_VARIANT_SIGNATURE_SPECIFIES_MULTIPLE_VALUES
  | DBUS_INVALID_VARIANT_SIGNATURE_MISSING_NUL
  | DBUS_INVALID_STRING_MISSING_NUL
  | DBUS_INVALID_SIGNATURE_MISSING_NUL
  | DBUS_INVALID_EXCEEDED_MAXIMUM_DICT_ENTRY_RECURSION
  | DBUS_INVALID_DICT_ENTRY_ENDED_BUT_NOT_STARTED
  | DBUS_INVALID_DICT_ENTRY_STARTED_BUT_NOT_ENDED
  | DBUS_INVALID_DICT_ENTRY_HAS_NO_FIELDS
  | DBUS_INVALID_DICT_ENTRY_HAS_ONLY_ONE_FIELD
  | DBUS_INVALID_DICT_ENTRY_HAS_TOO_MANY_FIELDS
  | DBUS_INVALID_DICT_ENTRY_NOT_INSIDE_ARRAY
  | DBUS_INVALID_DICT_KEY_MUST_BE_BASIC_TYPE
  | DBUS_INVALID_MISSING_UNIX_FDS
  | DBUS_INVALID_NESTED_TOO_DEEPLY

end
