(* ===== verification/Signature.thy ===== *)
theory Signature
  imports Prelude Validity
begin

text \<open>
  Type signatures: the type code predicates of \<^verbatim>\<open>dbus/dbus-signature.c\<close>, the validator
  \<^verbatim>\<open>_dbus_validate_signature_with_reason\<close> of \<^verbatim>\<open>dbus/dbus-marshal-validate.c\<close>, the step
  \<^verbatim>\<open>_dbus_type_signature_next\<close> of \<^verbatim>\<open>dbus/dbus-marshal-recursive.c\<close> and the signature
  iterators built on it. The grammar of signatures is the datatype \<open>dtype\<close>.
\<close>

section \<open>Type codes\<close>

abbreviation DBUS_TYPE_INVALID :: byte where "DBUS_TYPE_INVALID \<equiv> 0"
abbreviation DBUS_TYPE_BYTE :: byte where "DBUS_TYPE_BYTE \<equiv> 121"
abbreviation DBUS_TYPE_BOOLEAN :: byte where "DBUS_TYPE_BOOLEAN \<equiv> 98"
abbreviation DBUS_TYPE_INT16 :: byte where "DBUS_TYPE_INT16 \<equiv> 110"
abbreviation DBUS_TYPE_UINT16 :: byte where "DBUS_TYPE_UINT16 \<equiv> 113"
abbreviation DBUS_TYPE_INT32 :: byte where "DBUS_TYPE_INT32 \<equiv> 105"
abbreviation DBUS_TYPE_UINT32 :: byte where "DBUS_TYPE_UINT32 \<equiv> 117"
abbreviation DBUS_TYPE_INT64 :: byte where "DBUS_TYPE_INT64 \<equiv> 120"
abbreviation DBUS_TYPE_UINT64 :: byte where "DBUS_TYPE_UINT64 \<equiv> 116"
abbreviation DBUS_TYPE_DOUBLE :: byte where "DBUS_TYPE_DOUBLE \<equiv> 100"
abbreviation DBUS_TYPE_STRING :: byte where "DBUS_TYPE_STRING \<equiv> 115"
abbreviation DBUS_TYPE_OBJECT_PATH :: byte where "DBUS_TYPE_OBJECT_PATH \<equiv> 111"
abbreviation DBUS_TYPE_SIGNATURE :: byte where "DBUS_TYPE_SIGNATURE \<equiv> 103"
abbreviation DBUS_TYPE_UNIX_FD :: byte where "DBUS_TYPE_UNIX_FD \<equiv> 104"
abbreviation DBUS_TYPE_ARRAY :: byte where "DBUS_TYPE_ARRAY \<equiv> 97"
abbreviation DBUS_TYPE_VARIANT :: byte where "DBUS_TYPE_VARIANT \<equiv> 118"
abbreviation DBUS_TYPE_STRUCT :: byte where "DBUS_TYPE_STRUCT \<equiv> 114"
abbreviation DBUS_TYPE_DICT_ENTRY :: byte where "DBUS_TYPE_DICT_ENTRY \<equiv> 101"
abbreviation STRUCT_BEGIN :: byte where "STRUCT_BEGIN \<equiv> 40"
abbreviation STRUCT_END :: byte where "STRUCT_END \<equiv> 41"
abbreviation DICT_ENTRY_BEGIN :: byte where "DICT_ENTRY_BEGIN \<equiv> 123"
abbreviation DICT_ENTRY_END :: byte where "DICT_ENTRY_END \<equiv> 125"

definition DBUS_MAXIMUM_SIGNATURE_LENGTH :: nat where
  "DBUS_MAXIMUM_SIGNATURE_LENGTH = 255"

definition DBUS_MAXIMUM_TYPE_RECURSION_DEPTH :: nat where
  "DBUS_MAXIMUM_TYPE_RECURSION_DEPTH = 32"

definition TYPE_IS_CONTAINER :: "byte \<Rightarrow> bool" where
  "TYPE_IS_CONTAINER t \<longleftrightarrow>
     t = DBUS_TYPE_STRUCT \<or> t = DBUS_TYPE_DICT_ENTRY \<or> t = DBUS_TYPE_VARIANT \<or> t = DBUS_TYPE_ARRAY"

definition dbus_type_is_valid :: "byte \<Rightarrow> bool" where
  "dbus_type_is_valid t \<longleftrightarrow>
     t \<in> set [DBUS_TYPE_BYTE, DBUS_TYPE_BOOLEAN, DBUS_TYPE_INT16, DBUS_TYPE_UINT16,
       DBUS_TYPE_INT32, DBUS_TYPE_UINT32, DBUS_TYPE_INT64, DBUS_TYPE_UINT64, DBUS_TYPE_DOUBLE,
       DBUS_TYPE_STRING, DBUS_TYPE_OBJECT_PATH, DBUS_TYPE_SIGNATURE, DBUS_TYPE_ARRAY,
       DBUS_TYPE_STRUCT, DBUS_TYPE_DICT_ENTRY, DBUS_TYPE_VARIANT, DBUS_TYPE_UNIX_FD]"

text \<open>\<^verbatim>\<open>_dbus_return_val_if_fail\<close>: a code that is no type code answers \<open>False\<close>.\<close>

definition dbus_type_is_container :: "byte \<Rightarrow> bool" where
  "dbus_type_is_container t =
     (if \<not> (dbus_type_is_valid t \<or> t = DBUS_TYPE_INVALID) then False else TYPE_IS_CONTAINER t)"

definition dbus_type_is_basic :: "byte \<Rightarrow> bool" where
  "dbus_type_is_basic t =
     (if \<not> (dbus_type_is_valid t \<or> t = DBUS_TYPE_INVALID) then False
      else \<not> (t = DBUS_TYPE_INVALID \<or> TYPE_IS_CONTAINER t))"

definition dbus_type_is_fixed :: "byte \<Rightarrow> bool" where
  "dbus_type_is_fixed t =
     (if \<not> (dbus_type_is_valid t \<or> t = DBUS_TYPE_INVALID) then False
      else t \<in> set [DBUS_TYPE_BYTE, DBUS_TYPE_BOOLEAN, DBUS_TYPE_INT16, DBUS_TYPE_UINT16,
        DBUS_TYPE_INT32, DBUS_TYPE_UINT32, DBUS_TYPE_INT64, DBUS_TYPE_UINT64, DBUS_TYPE_DOUBLE,
        DBUS_TYPE_UNIX_FD])"

definition map_type_char_to_type :: "byte \<Rightarrow> byte" where
  "map_type_char_to_type t =
     (if t = STRUCT_BEGIN then DBUS_TYPE_STRUCT
      else if t = DICT_ENTRY_BEGIN then DBUS_TYPE_DICT_ENTRY
      else t)"

section \<open>The signature validator\<close>

text \<open>
  The locals of \<^verbatim>\<open>_dbus_validate_signature_with_reason\<close>. \<^verbatim>\<open>element_count_stack\<close> is a
  \<^verbatim>\<open>DBusList\<close> used as a stack: its last element is the head here, and popping the empty list
  gives \<^verbatim>\<open>NULL\<close>, the count 0. Every \<^verbatim>\<open>_dbus_list_append\<close> allocates a link.
\<close>

record sig_state =
  last_code :: byte
  struct_depth :: nat
  array_depth :: nat
  dict_entry_depth :: nat
  element_count_stack :: "nat list"

fun pop_count :: "nat list \<Rightarrow> nat \<times> nat list" where
  "pop_count [] = (0, [])"
| "pop_count (n # ns) = (n, ns)"

text \<open>\<^verbatim>\<open>_dbus_list_append\<close> to the stack, with the answer of the allocator.\<close>

definition push_count :: "mem \<Rightarrow> nat \<Rightarrow> sig_state \<Rightarrow> (DBusValidity + sig_state) \<times> mem" where
  "push_count m n s =
     (case alloc m of
        (False, m') \<Rightarrow> (Inl DBUS_VALIDITY_UNKNOWN_OOM_ERROR, m')
      | (True, m') \<Rightarrow> (Inr (s\<lparr>element_count_stack := n # element_count_stack s\<rparr>), m'))"

definition simple_codes :: "byte list" where
  "simple_codes =
     [DBUS_TYPE_BYTE, DBUS_TYPE_BOOLEAN, DBUS_TYPE_INT16, DBUS_TYPE_UINT16, DBUS_TYPE_INT32,
      DBUS_TYPE_UINT32, DBUS_TYPE_UNIX_FD, DBUS_TYPE_INT64, DBUS_TYPE_UINT64, DBUS_TYPE_DOUBLE,
      DBUS_TYPE_STRING, DBUS_TYPE_OBJECT_PATH, DBUS_TYPE_SIGNATURE, DBUS_TYPE_VARIANT]"

text \<open>The \<^verbatim>\<open>switch\<close> of the loop body.\<close>

definition sig_switch :: "mem \<Rightarrow> byte \<Rightarrow> sig_state \<Rightarrow> (DBusValidity + sig_state) \<times> mem" where
  "sig_switch m c s =
     (if c \<in> set simple_codes then (Inr s, m)
      else if c = DBUS_TYPE_ARRAY then
        let s = s\<lparr>array_depth := array_depth s + 1\<rparr> in
        if array_depth s > DBUS_MAXIMUM_TYPE_RECURSION_DEPTH
        then (Inl DBUS_INVALID_EXCEEDED_MAXIMUM_ARRAY_RECURSION, m)
        else (Inr s, m)
      else if c = STRUCT_BEGIN then
        let s = s\<lparr>struct_depth := struct_depth s + 1\<rparr> in
        if struct_depth s > DBUS_MAXIMUM_TYPE_RECURSION_DEPTH
        then (Inl DBUS_INVALID_EXCEEDED_MAXIMUM_STRUCT_RECURSION, m)
        else push_count m 0 s
      else if c = STRUCT_END then
        (if struct_depth s = 0 then (Inl DBUS_INVALID_STRUCT_ENDED_BUT_NOT_STARTED, m)
         else if last_code s = STRUCT_BEGIN then (Inl DBUS_INVALID_STRUCT_HAS_NO_FIELDS, m)
         else (Inr (s\<lparr>element_count_stack := snd (pop_count (element_count_stack s)),
                     struct_depth := struct_depth s - 1\<rparr>), m))
      else if c = DICT_ENTRY_BEGIN then
        (if last_code s \<noteq> DBUS_TYPE_ARRAY then (Inl DBUS_INVALID_DICT_ENTRY_NOT_INSIDE_ARRAY, m)
         else let s = s\<lparr>dict_entry_depth := dict_entry_depth s + 1\<rparr> in
           if dict_entry_depth s > DBUS_MAXIMUM_TYPE_RECURSION_DEPTH
           then (Inl DBUS_INVALID_EXCEEDED_MAXIMUM_DICT_ENTRY_RECURSION, m)
           else push_count m 0 s)
      else if c = DICT_ENTRY_END then
        (if dict_entry_depth s = 0
         then (Inl DBUS_INVALID_DICT_ENTRY_ENDED_BUT_NOT_STARTED, m)
         else let s = s\<lparr>dict_entry_depth := dict_entry_depth s - 1\<rparr>;
                  (element_count, stack) = pop_count (element_count_stack s);
                  s = s\<lparr>element_count_stack := stack\<rparr> in
           if element_count \<noteq> 2 then
             (Inl (if element_count = 0 then DBUS_INVALID_DICT_ENTRY_HAS_NO_FIELDS
                   else if element_count = 1 then DBUS_INVALID_DICT_ENTRY_HAS_ONLY_ONE_FIELD
                   else DBUS_INVALID_DICT_ENTRY_HAS_TOO_MANY_FIELDS), m)
           else (Inr s, m))
      else (Inl DBUS_INVALID_UNKNOWN_TYPECODE, m))"

text \<open>Counting the element just completed.\<close>

definition sig_count :: "mem \<Rightarrow> byte \<Rightarrow> sig_state \<Rightarrow> (DBusValidity + sig_state) \<times> mem" where
  "sig_count m c s =
     (if c \<noteq> DBUS_TYPE_ARRAY \<and> c \<noteq> DICT_ENTRY_BEGIN \<and> c \<noteq> STRUCT_BEGIN then
        let (element_count, stack) = pop_count (element_count_stack s) in
        push_count m (element_count + 1) (s\<lparr>element_count_stack := stack\<rparr>)
      else (Inr s, m))"

text \<open>The bookkeeping of arrays; \<open>p1\<close> is the byte after \<open>c\<close>, which the code peeks at.\<close>

definition sig_array :: "byte \<Rightarrow> byte \<Rightarrow> sig_state \<Rightarrow> DBusValidity + sig_state" where
  "sig_array c p1 s =
     (if array_depth s > 0 then
        if c = DBUS_TYPE_ARRAY then
          if p1 = STRUCT_END \<or> p1 = DICT_ENTRY_END
          then Inl DBUS_INVALID_MISSING_ARRAY_ELEMENT_TYPE
          else Inr s
        else Inr (s\<lparr>array_depth := 0\<rparr>)
      else Inr s)"

definition sig_key :: "byte \<Rightarrow> sig_state \<Rightarrow> DBusValidity + sig_state" where
  "sig_key c s =
     (if last_code s = DICT_ENTRY_BEGIN \<and> \<not> (dbus_type_is_valid c \<and> dbus_type_is_basic c)
      then Inl DBUS_INVALID_DICT_KEY_MUST_BE_BASIC_TYPE
      else Inr (s\<lparr>last_code := c\<rparr>))"

text \<open>One iteration of the loop.\<close>

definition sig_step :: "mem \<Rightarrow> byte \<Rightarrow> byte \<Rightarrow> sig_state \<Rightarrow> (DBusValidity + sig_state) \<times> mem" where
  "sig_step m c p1 s =
     (case sig_switch m c s of
        (Inl e, m) \<Rightarrow> (Inl e, m)
      | (Inr s, m) \<Rightarrow>
        (case sig_count m c s of
           (Inl e, m) \<Rightarrow> (Inl e, m)
         | (Inr s, m) \<Rightarrow>
           (case sig_array c p1 s of
              Inl e \<Rightarrow> (Inl e, m)
            | Inr s \<Rightarrow> (sig_key c s, m))))"

text \<open>What is checked when the loop has reached the end.\<close>

definition sig_finish :: "sig_state \<Rightarrow> DBusValidity" where
  "sig_finish s =
     (if array_depth s > 0 then DBUS_INVALID_MISSING_ARRAY_ELEMENT_TYPE
      else if struct_depth s > 0 then DBUS_INVALID_STRUCT_STARTED_BUT_NOT_ENDED
      else if dict_entry_depth s > 0 then DBUS_INVALID_DICT_ENTRY_STARTED_BUT_NOT_ENDED
      else DBUS_VALID)"

text \<open>The loop from \<^verbatim>\<open>p\<close> to \<^verbatim>\<open>end\<close>; \<open>after\<close> is the byte at \<^verbatim>\<open>end\<close>.\<close>

fun sig_loop :: "mem \<Rightarrow> byte \<Rightarrow> bytes \<Rightarrow> sig_state \<Rightarrow> DBusValidity \<times> mem" where
  "sig_loop m after [] s = (sig_finish s, m)"
| "sig_loop m after (c # cs) s =
     (case sig_step m c (case cs of [] \<Rightarrow> after | d # ds \<Rightarrow> d) s of
        (Inl e, m) \<Rightarrow> (e, m)
      | (Inr s, m) \<Rightarrow> sig_loop m after cs s)"

definition sig_init :: sig_state where
  "sig_init = \<lparr>last_code = DBUS_TYPE_INVALID, struct_depth = 0, array_depth = 0,
     dict_entry_depth = 0, element_count_stack = []\<rparr>"

definition byte_at :: "bytes \<Rightarrow> nat \<Rightarrow> byte" where
  "byte_at str i = (if i < length str then str ! i else 0)"

definition validate_signature_with_reason ::
    "mem \<Rightarrow> bytes \<Rightarrow> nat \<Rightarrow> nat \<Rightarrow> DBusValidity \<times> mem" where
  "validate_signature_with_reason m type_str type_pos len =
     (case push_count m 0 sig_init of
        (Inl e, m) \<Rightarrow> (e, m)
      | (Inr s, m) \<Rightarrow>
          if len > DBUS_MAXIMUM_SIGNATURE_LENGTH then (DBUS_INVALID_SIGNATURE_TOO_LONG, m)
          else sig_loop m (byte_at type_str (type_pos + len)) (substring type_str type_pos len) s)"

definition validate_signature :: "mem \<Rightarrow> bytes \<Rightarrow> nat \<Rightarrow> nat \<Rightarrow> bool" where
  "validate_signature m str start len =
     (if len > length str - start then False
      else fst (validate_signature_with_reason m str start len) = DBUS_VALID)"

section \<open>The grammar\<close>

text \<open>
  \<open>Simple\<close> is a type of one code, the variant included; \<open>Dict k v\<close> is an array of dict entries,
  the only place an entry may stand.
\<close>

datatype dtype = Simple byte | Array dtype | Dict byte dtype | Struct "dtype list"

fun sig_of :: "dtype \<Rightarrow> bytes" where
  "sig_of (Simple c) = [c]"
| "sig_of (Array t) = DBUS_TYPE_ARRAY # sig_of t"
| "sig_of (Dict k v) = [DBUS_TYPE_ARRAY, DICT_ENTRY_BEGIN, k] @ sig_of v @ [DICT_ENTRY_END]"
| "sig_of (Struct ts) = STRUCT_BEGIN # concat (map sig_of ts) @ [STRUCT_END]"

definition sig_of_list :: "dtype list \<Rightarrow> bytes" where
  "sig_of_list ts = concat (map sig_of ts)"

text \<open>The number of array codes a type starts with.\<close>

fun array_run :: "dtype \<Rightarrow> nat" where
  "array_run (Array t) = Suc (array_run t)"
| "array_run (Dict k v) = 1"
| "array_run t = 0"

text \<open>
  A well-formed type inside \<open>sd\<close> open structs and \<open>dd\<close> open dict entries, within the limits the
  code enforces.
\<close>

fun wf_type :: "nat \<Rightarrow> nat \<Rightarrow> dtype \<Rightarrow> bool" where
  "wf_type sd dd (Simple c) \<longleftrightarrow> c \<in> set simple_codes"
| "wf_type sd dd (Array t) \<longleftrightarrow> Suc (array_run t) \<le> 32 \<and> wf_type sd dd t"
| "wf_type sd dd (Dict k v) \<longleftrightarrow>
     k \<in> set simple_codes \<and> k \<noteq> DBUS_TYPE_VARIANT \<and> dd < 32 \<and> wf_type sd (Suc dd) v"
| "wf_type sd dd (Struct ts) \<longleftrightarrow> ts \<noteq> [] \<and> sd < 32 \<and> list_all (wf_type (Suc sd) dd) ts"

section \<open>Memory exhaustion\<close>

lemma push_count_ok [simp]:
  "push_count [] n s = (Inr (s\<lparr>element_count_stack := n # element_count_stack s\<rparr>), [])"
  by (simp add: push_count_def)

lemma push_count_cases:
  "push_count m n s = (r, m') \<Longrightarrow>
   r = Inl DBUS_VALIDITY_UNKNOWN_OOM_ERROR \<or> r = fst (push_count [] n s)"
  by (auto simp: push_count_def split: prod.splits bool.splits)

lemma sig_switch_cases:
  "sig_switch m c s = (r, m') \<Longrightarrow>
   r = Inl DBUS_VALIDITY_UNKNOWN_OOM_ERROR \<or> r = fst (sig_switch [] c s)"
  unfolding sig_switch_def Let_def
  by (auto split: if_splits prod.splits dest!: push_count_cases)

lemma sig_count_cases:
  "sig_count m c s = (r, m') \<Longrightarrow>
   r = Inl DBUS_VALIDITY_UNKNOWN_OOM_ERROR \<or> r = fst (sig_count [] c s)"
  unfolding sig_count_def Let_def
  by (auto split: if_splits prod.splits dest!: push_count_cases)

lemma sig_switch_mem [simp]: "snd (sig_switch [] c s) = []"
  by (simp add: sig_switch_def Let_def split: prod.splits)

lemma sig_count_mem [simp]: "snd (sig_count [] c s) = []"
  by (simp add: sig_count_def Let_def split: prod.splits)

lemma sig_switch_memD: "sig_switch [] c s = (r, m) \<Longrightarrow> m = []"
  using sig_switch_mem [of c s] by simp

lemma sig_count_memD: "sig_count [] c s = (r, m) \<Longrightarrow> m = []"
  using sig_count_mem [of c s] by simp

lemma sig_step_mem [simp]: "snd (sig_step [] c p1 s) = []"
  by (auto simp: sig_step_def split: prod.splits sum.splits
      dest!: sig_switch_memD dest: sig_count_memD)

lemma sig_step_cases:
  assumes "sig_step m c p1 s = (r, m')"
  shows "r = Inl DBUS_VALIDITY_UNKNOWN_OOM_ERROR \<or> r = fst (sig_step [] c p1 s)"
proof -
  obtain r1 m1 where sw: "sig_switch m c s = (r1, m1)" by fastforce
  obtain r1' where sw': "sig_switch [] c s = (r1', [])"
    by (metis prod.collapse sig_switch_mem)
  from sig_switch_cases [OF sw] sw' consider (oom) "r1 = Inl DBUS_VALIDITY_UNKNOWN_OOM_ERROR"
    | (err) e where "r1 = Inl e" "r1' = Inl e" | (ok) s1 where "r1 = Inr s1" "r1' = Inr s1"
    by (cases r1) auto
  then show ?thesis
  proof cases
    case ok
    obtain r2 m2 where c: "sig_count m1 c s1 = (r2, m2)" by fastforce
    obtain r2' where c': "sig_count [] c s1 = (r2', [])"
      by (metis prod.collapse sig_count_mem)
    from sig_count_cases [OF c] c' assms sw sw' ok c show ?thesis
      by (auto simp: sig_step_def split: sum.splits)
  qed (use assms sw sw' in \<open>auto simp: sig_step_def\<close>)
qed

lemma sig_loop_cases:
  "fst (sig_loop m after cs s) = DBUS_VALIDITY_UNKNOWN_OOM_ERROR \<or>
   fst (sig_loop m after cs s) = fst (sig_loop [] after cs s)"
proof (induction cs arbitrary: m s)
  case (Cons c cs)
  let ?p1 = "case cs of [] \<Rightarrow> after | d # ds \<Rightarrow> d"
  obtain r m' where r: "sig_step m c ?p1 s = (r, m')" by fastforce
  obtain r' where r': "sig_step [] c ?p1 s = (r', [])" by (metis prod.collapse sig_step_mem)
  from sig_step_cases [OF r] r' Cons.IH r show ?case
    by (auto split: sum.splits)
qed simp

text \<open>
  Running out of memory is the only effect of the allocator on the answer: it is the error
  value or the answer given with enough memory.
\<close>

lemma validate_signature_oom:
  "fst (validate_signature_with_reason m str pos len) = DBUS_VALIDITY_UNKNOWN_OOM_ERROR \<or>
   fst (validate_signature_with_reason m str pos len) =
     fst (validate_signature_with_reason [] str pos len)"
proof -
  obtain r m' where r: "push_count m 0 sig_init = (r, m')" by fastforce
  from push_count_cases [OF r] r sig_loop_cases show ?thesis
    by (auto simp: validate_signature_with_reason_def split: sum.splits)
qed

text \<open>
  Whatever allocations fail while a signature is validated, the answer is the out-of-memory
  code or the answer given with enough memory.
\<close>

theorem validate_signature_memory:
  "fst (validate_signature_with_reason m str pos len) = DBUS_VALIDITY_UNKNOWN_OOM_ERROR \<or>
   fst (validate_signature_with_reason m str pos len) =
     fst (validate_signature_with_reason [] str pos len)"
  by (rule validate_signature_oom)

section \<open>Steps\<close>

lemma simple_codes_basic:
  "c \<in> set simple_codes \<Longrightarrow> c \<noteq> DBUS_TYPE_VARIANT \<Longrightarrow> dbus_type_is_valid c \<and> dbus_type_is_basic c"
  by (auto simp: simple_codes_def dbus_type_is_valid_def dbus_type_is_basic_def TYPE_IS_CONTAINER_def)

lemma simple_codes_not_special:
  "c \<in> set simple_codes \<Longrightarrow>
   c \<noteq> DBUS_TYPE_ARRAY \<and> c \<noteq> STRUCT_BEGIN \<and> c \<noteq> STRUCT_END \<and> c \<noteq> DICT_ENTRY_BEGIN \<and>
   c \<noteq> DICT_ENTRY_END"
  by (auto simp: simple_codes_def)

lemma special_not_simple [simp]:
  "DBUS_TYPE_ARRAY \<notin> set simple_codes" "STRUCT_BEGIN \<notin> set simple_codes"
  "STRUCT_END \<notin> set simple_codes" "DICT_ENTRY_BEGIN \<notin> set simple_codes"
  "DICT_ENTRY_END \<notin> set simple_codes"
  by (simp_all add: simple_codes_def)

lemmas step_defs = sig_step_def sig_switch_def sig_count_def sig_array_def sig_key_def Let_def
  DBUS_MAXIMUM_TYPE_RECURSION_DEPTH_def

lemma step_simple:
  "c \<in> set simple_codes \<Longrightarrow> element_count_stack s = n # ns \<Longrightarrow>
   last_code s = DICT_ENTRY_BEGIN \<longrightarrow> c \<noteq> DBUS_TYPE_VARIANT \<Longrightarrow>
   sig_step [] c p1 s =
     (Inr (s\<lparr>last_code := c, array_depth := 0, element_count_stack := Suc n # ns\<rparr>), [])"
  using simple_codes_not_special [of c] simple_codes_basic [of c]
  by (auto simp: step_defs)

lemma step_array:
  "array_depth s < 32 \<Longrightarrow> last_code s \<noteq> DICT_ENTRY_BEGIN \<Longrightarrow> p1 \<noteq> STRUCT_END \<Longrightarrow>
   p1 \<noteq> DICT_ENTRY_END \<Longrightarrow>
   sig_step [] DBUS_TYPE_ARRAY p1 s =
     (Inr (s\<lparr>array_depth := Suc (array_depth s), last_code := DBUS_TYPE_ARRAY\<rparr>), [])"
  by (auto simp: step_defs)

lemma step_struct_begin:
  "struct_depth s < 32 \<Longrightarrow> last_code s \<noteq> DICT_ENTRY_BEGIN \<Longrightarrow>
   sig_step [] STRUCT_BEGIN p1 s =
     (Inr (s\<lparr>struct_depth := Suc (struct_depth s), array_depth := 0, last_code := STRUCT_BEGIN,
             element_count_stack := 0 # element_count_stack s\<rparr>), [])"
  by (auto simp: step_defs)

lemma step_struct_end:
  "struct_depth s = Suc d \<Longrightarrow> last_code s \<noteq> STRUCT_BEGIN \<Longrightarrow> last_code s \<noteq> DICT_ENTRY_BEGIN \<Longrightarrow>
   element_count_stack s = k # n # ns \<Longrightarrow>
   sig_step [] STRUCT_END p1 s =
     (Inr (s\<lparr>struct_depth := d, last_code := STRUCT_END, array_depth := 0,
             element_count_stack := Suc n # ns\<rparr>), [])"
  by (auto simp: step_defs)

lemma step_dict_begin:
  "dict_entry_depth s < 32 \<Longrightarrow> last_code s = DBUS_TYPE_ARRAY \<Longrightarrow>
   sig_step [] DICT_ENTRY_BEGIN p1 s =
     (Inr (s\<lparr>dict_entry_depth := Suc (dict_entry_depth s), array_depth := 0,
             last_code := DICT_ENTRY_BEGIN, element_count_stack := 0 # element_count_stack s\<rparr>), [])"
  by (auto simp: step_defs)

lemma step_dict_end:
  "dict_entry_depth s = Suc d \<Longrightarrow> last_code s \<noteq> DICT_ENTRY_BEGIN \<Longrightarrow>
   element_count_stack s = Suc (Suc 0) # n # ns \<Longrightarrow>
   sig_step [] DICT_ENTRY_END p1 s =
     (Inr (s\<lparr>dict_entry_depth := d, last_code := DICT_ENTRY_END, array_depth := 0,
             element_count_stack := Suc n # ns\<rparr>), [])"
  by (auto simp: step_defs)

section \<open>Completeness\<close>

lemma sig_of_ne [simp]: "sig_of t \<noteq> []"
  by (cases t) auto

lemma hd_sig_of:
  "wf_type sd dd t \<Longrightarrow> hd (sig_of t @ ys) \<noteq> STRUCT_END \<and> hd (sig_of t @ ys) \<noteq> DICT_ENTRY_END"
  using simple_codes_not_special by (cases t) auto

lemma last_sig_of:
  "wf_type sd dd t \<Longrightarrow> last (sig_of t) \<noteq> DBUS_TYPE_ARRAY \<and> last (sig_of t) \<noteq> STRUCT_BEGIN \<and>
   last (sig_of t) \<noteq> DICT_ENTRY_BEGIN"
proof (induction t arbitrary: sd dd)
  case (Simple c)
  then show ?case using simple_codes_not_special [of c] by simp
qed (simp_all, blast)

lemma next_code: "cs \<noteq> [] \<Longrightarrow> (case cs of [] \<Rightarrow> after | d # ds \<Rightarrow> d) = hd cs"
  by (cases cs) auto

text \<open>What the loop does with one complete type, and with several in a row.\<close>

definition loop_skips :: "dtype \<Rightarrow> bool" where
  "loop_skips t \<longleftrightarrow>
     (\<forall>s n ns ys after. wf_type (struct_depth s) (dict_entry_depth s) t \<longrightarrow>
       last_code s \<noteq> DICT_ENTRY_BEGIN \<longrightarrow> array_depth s + array_run t \<le> 32 \<longrightarrow>
       element_count_stack s = n # ns \<longrightarrow>
       sig_loop [] after (sig_of t @ ys) s =
       sig_loop [] after ys (s\<lparr>last_code := last (sig_of t), array_depth := 0,
         element_count_stack := Suc n # ns\<rparr>))"

lemma loop_skipsD:
  "loop_skips t \<Longrightarrow> wf_type (struct_depth s) (dict_entry_depth s) t \<Longrightarrow>
   last_code s \<noteq> DICT_ENTRY_BEGIN \<Longrightarrow> array_depth s + array_run t \<le> 32 \<Longrightarrow>
   element_count_stack s = n # ns \<Longrightarrow>
   sig_loop [] after (sig_of t @ ys) s =
   sig_loop [] after ys (s\<lparr>last_code := last (sig_of t), array_depth := 0,
     element_count_stack := Suc n # ns\<rparr>)"
  by (simp add: loop_skips_def)

lemma array_run_le: "wf_type sd dd t \<Longrightarrow> array_run t \<le> 32"
  by (cases t) auto

lemma loop_skips_list:
  "list_all loop_skips ts \<Longrightarrow> list_all (wf_type (struct_depth s) (dict_entry_depth s)) ts \<Longrightarrow>
   last_code s \<noteq> DICT_ENTRY_BEGIN \<Longrightarrow> array_depth s = 0 \<Longrightarrow> element_count_stack s = n # ns \<Longrightarrow>
   sig_loop [] after (concat (map sig_of ts) @ ys) s =
   sig_loop [] after ys
     (s\<lparr>last_code := (if ts = [] then last_code s else last (sig_of (last ts))),
        element_count_stack := (n + length ts) # ns\<rparr>)"
proof (induction ts arbitrary: s n)
  case Nil
  then show ?case by (cases s) simp
next
  case (Cons t ts)
  let ?s = "s\<lparr>last_code := last (sig_of t), array_depth := 0, element_count_stack := Suc n # ns\<rparr>"
  have "sig_loop [] after (sig_of t @ concat (map sig_of ts) @ ys) s =
      sig_loop [] after (concat (map sig_of ts) @ ys) ?s"
    using Cons.prems by (intro loop_skipsD) (auto dest: array_run_le)
  also have "\<dots> = sig_loop [] after ys
     (?s\<lparr>last_code := (if ts = [] then last_code ?s else last (sig_of (last ts))),
        element_count_stack := (Suc n + length ts) # ns\<rparr>)"
    using Cons.prems last_sig_of by (intro Cons.IH) (auto simp: list.pred_mono_strong)
  finally show ?case using Cons.prems by (cases s) simp
qed

lemma loop_skips_type: "loop_skips t"
proof (induction t)
  case (Simple c)
  then show ?case by (auto simp: loop_skips_def step_simple)
next
  case (Array t)
  show ?case
    unfolding loop_skips_def
  proof (intro allI impI)
    fix s :: sig_state and n ns ys after
    assume a: "wf_type (struct_depth s) (dict_entry_depth s) (Array t)"
      "last_code s \<noteq> DICT_ENTRY_BEGIN" "array_depth s + array_run (Array t) \<le> 32"
      "element_count_stack s = n # ns"
    let ?s = "s\<lparr>array_depth := Suc (array_depth s), last_code := DBUS_TYPE_ARRAY\<rparr>"
    have "sig_loop [] after (sig_of (Array t) @ ys) s = sig_loop [] after (sig_of t @ ys) ?s"
      using a hd_sig_of [of "struct_depth s" "dict_entry_depth s" t ys]
      by (simp add: step_array next_code)
    also have "\<dots> = sig_loop [] after ys (?s\<lparr>last_code := last (sig_of t), array_depth := 0,
        element_count_stack := Suc n # ns\<rparr>)"
      using a by (intro loop_skipsD [OF Array.IH]) auto
    finally show "sig_loop [] after (sig_of (Array t) @ ys) s = sig_loop [] after ys
        (s\<lparr>last_code := last (sig_of (Array t)), array_depth := 0,
           element_count_stack := Suc n # ns\<rparr>)" by simp
  qed
next
  case (Dict k v)
  show ?case
    unfolding loop_skips_def
  proof (intro allI impI)
    fix s :: sig_state and n ns ys after
    assume a: "wf_type (struct_depth s) (dict_entry_depth s) (Dict k v)"
      "last_code s \<noteq> DICT_ENTRY_BEGIN" "array_depth s + array_run (Dict k v) \<le> 32"
      "element_count_stack s = n # ns"
    let ?s = "s\<lparr>dict_entry_depth := Suc (dict_entry_depth s), last_code := k, array_depth := 0,
      element_count_stack := 1 # n # ns\<rparr>"
    let ?t = "s\<lparr>dict_entry_depth := Suc (dict_entry_depth s), last_code := last (sig_of v),
      array_depth := 0, element_count_stack := Suc (Suc 0) # n # ns\<rparr>"
    have "sig_loop [] after (sig_of (Dict k v) @ ys) s =
        sig_loop [] after (sig_of v @ DICT_ENTRY_END # ys) ?s"
      using a by (simp add: step_array step_dict_begin step_simple)
    also have "\<dots> = sig_loop [] after (DICT_ENTRY_END # ys) ?t"
      using a simple_codes_not_special [of k] array_run_le [of _ _ v]
      by (subst loop_skipsD [OF Dict.IH]) auto
    also have "\<dots> = sig_loop [] after ys (s\<lparr>last_code := last (sig_of (Dict k v)),
        array_depth := 0, element_count_stack := Suc n # ns\<rparr>)"
      using a last_sig_of [of "struct_depth s" "Suc (dict_entry_depth s)" v]
      by (simp add: step_dict_end [of _ "dict_entry_depth s" n ns])
    finally show "sig_loop [] after (sig_of (Dict k v) @ ys) s = sig_loop [] after ys
        (s\<lparr>last_code := last (sig_of (Dict k v)), array_depth := 0,
           element_count_stack := Suc n # ns\<rparr>)" .
  qed
next
  case (Struct ts)
  show ?case
    unfolding loop_skips_def
  proof (intro allI impI)
    fix s :: sig_state and n ns ys after
    assume a: "wf_type (struct_depth s) (dict_entry_depth s) (Struct ts)"
      "last_code s \<noteq> DICT_ENTRY_BEGIN" "array_depth s + array_run (Struct ts) \<le> 32"
      "element_count_stack s = n # ns"
    let ?s = "s\<lparr>struct_depth := Suc (struct_depth s), array_depth := 0, last_code := STRUCT_BEGIN,
      element_count_stack := 0 # n # ns\<rparr>"
    let ?t = "?s\<lparr>last_code := last (sig_of (last ts)), element_count_stack := length ts # n # ns\<rparr>"
    from a(1) have "ts \<noteq> []" and wf: "list_all (wf_type (Suc (struct_depth s)) (dict_entry_depth s)) ts"
      by auto
    have "sig_loop [] after (sig_of (Struct ts) @ ys) s =
        sig_loop [] after (concat (map sig_of ts) @ STRUCT_END # ys) ?s"
      using a by (simp add: step_struct_begin)
    also have "\<dots> = sig_loop [] after (STRUCT_END # ys) ?t"
      using wf Struct.IH \<open>ts \<noteq> []\<close>
      by (subst loop_skips_list [where n = 0 and ns = "n # ns"]) (auto simp: list_all_iff)
    also have "\<dots> = sig_loop [] after ys (s\<lparr>last_code := last (sig_of (Struct ts)),
        array_depth := 0, element_count_stack := Suc n # ns\<rparr>)"
      using a \<open>ts \<noteq> []\<close> wf last_sig_of [of "Suc (struct_depth s)" "dict_entry_depth s" "last ts"]
      by (simp add: step_struct_end [of _ "struct_depth s" "length ts" n ns] list_all_iff)
    finally show "sig_loop [] after (sig_of (Struct ts) @ ys) s = sig_loop [] after ys
        (s\<lparr>last_code := last (sig_of (Struct ts)), array_depth := 0,
           element_count_stack := Suc n # ns\<rparr>)" .
  qed
qed

text \<open>Every signature of the grammar, within the limits, is accepted.\<close>

lemma validate_signature_complete:
  assumes "list_all (wf_type 0 0) ts" and "length (sig_of_list ts) \<le> 255"
    and "substring str pos len = sig_of_list ts" and "pos + len \<le> length str"
  shows "validate_signature [] str pos len"
proof -
  let ?s = "sig_init\<lparr>element_count_stack := [0]\<rparr>"
  have "sig_loop [] after (concat (map sig_of ts) @ []) ?s = (DBUS_VALID, [])" for after
    using assms(1)
    by (subst loop_skips_list [where n = 0 and ns = "[]"])
      (auto simp: sig_init_def loop_skips_type sig_finish_def list_all_iff)
  moreover have "len = length (sig_of_list ts)"
    using assms(3,4) by (metis length_substring)
  ultimately show ?thesis
    using assms
    by (auto simp: validate_signature_def validate_signature_with_reason_def sig_of_list_def
        DBUS_MAXIMUM_SIGNATURE_LENGTH_def sig_init_def)
qed

text \<open>
  C14. Every signature of the type grammar within the nesting limits and of at most 255 bytes is
  accepted by the signature validator, wherever it stands in the string.
\<close>

theorem validate_signature_accepts:
  assumes "list_all (wf_type 0 0) ts" and "length (sig_of_list ts) \<le> 255"
  shows "validate_signature [] (xs @ sig_of_list ts @ ys) (length xs) (length (sig_of_list ts))"
  using validate_signature_complete [OF assms] by (simp add: substring_def)

theorem validate_signature_accepts_witness:
  "validate_signature [] (bytes ''ua{s(ii)}v'') (Suc 0) (length (bytes ''a{s(ii)}v''))"
  using validate_signature_accepts [of "[Dict DBUS_TYPE_STRING
      (Struct [Simple DBUS_TYPE_INT32, Simple DBUS_TYPE_INT32]), Simple DBUS_TYPE_VARIANT]"
      "[DBUS_TYPE_UINT32]" "[]"]
  by (simp add: simple_codes_def sig_of_list_def)

section \<open>Soundness\<close>

text \<open>
  The converse for signatures without dict entries: the loop keeps a stack of open structs, each
  with the types completed in it and the number of array codes waiting for their element type.
\<close>

type_synonym frame = "dtype list \<times> nat"

fun flat :: "frame list \<Rightarrow> bytes" where
  "flat [] = []"
| "flat ((ts, k) # fs) =
     flat fs @ (if fs = [] then [] else [STRUCT_BEGIN]) @ sig_of_list ts @ replicate k DBUS_TYPE_ARRAY"

fun wf_frames :: "frame list \<Rightarrow> bool" where
  "wf_frames [] \<longleftrightarrow> True"
| "wf_frames ((ts, k) # fs) \<longleftrightarrow>
     k \<le> 32 \<and> length fs \<le> 32 \<and> list_all (wf_type (length fs) 0) ts \<and> wf_frames fs"

definition frames_inv :: "frame list \<Rightarrow> sig_state \<Rightarrow> bool" where
  "frames_inv fs s \<longleftrightarrow>
     fs \<noteq> [] \<and> wf_frames fs \<and> struct_depth s = length fs - 1 \<and> array_depth s = snd (hd fs) \<and>
     dict_entry_depth s = 0 \<and> element_count_stack s = map (length \<circ> fst) fs \<and>
     last_code s \<noteq> DICT_ENTRY_BEGIN \<and>
     (length fs > 1 \<and> hd fs = ([], 0) \<longrightarrow> last_code s = STRUCT_BEGIN)"

lemma sig_of_arrays: "sig_of ((Array ^^ k) t) = replicate k DBUS_TYPE_ARRAY @ sig_of t"
  by (induction k) auto

lemma array_run_arrays: "array_run ((Array ^^ k) t) = k + array_run t"
  by (induction k) auto

lemma wf_arrays:
  "wf_type sd dd t \<Longrightarrow> k + array_run t \<le> 32 \<Longrightarrow> wf_type sd dd ((Array ^^ k) t)"
  by (induction k) (auto simp: array_run_arrays)

lemma sig_of_list_snoc [simp]: "sig_of_list (ts @ [t]) = sig_of_list ts @ sig_of t"
  by (simp add: sig_of_list_def)

text \<open>Completing a type in the innermost frame.\<close>

definition complete :: "dtype \<Rightarrow> frame \<Rightarrow> frame" where
  "complete t f = (fst f @ [(Array ^^ snd f) t], 0)"

lemma flat_complete: "flat (complete t f # fs) = flat (f # fs) @ sig_of t"
  by (cases f) (simp add: complete_def sig_of_arrays)

lemma wf_complete:
  "wf_frames (f # fs) \<Longrightarrow> wf_type (length fs) 0 t \<Longrightarrow> array_run t = 0 \<Longrightarrow>
   wf_frames (complete t f # fs)"
  by (cases f) (simp add: complete_def wf_arrays)

lemma frames_simple:
  assumes "frames_inv (f # fs) s" "c \<in> set simple_codes" "sig_step [] c p1 s = (Inr s', m)"
  shows "frames_inv (complete (Simple c) f # fs) s'"
proof -
  obtain n ns where "element_count_stack s = n # ns" using assms(1) by (simp add: frames_inv_def)
  with assms show ?thesis
    using simple_codes_not_special [of c] wf_complete [of f fs "Simple c"]
    by (auto simp: step_simple frames_inv_def complete_def simp del: wf_frames.simps)
qed

lemma frames_array:
  assumes "frames_inv ((ts, k) # fs) s" "sig_step [] DBUS_TYPE_ARRAY p1 s = (Inr s', m)"
  shows "frames_inv ((ts, Suc k) # fs) s'" and "p1 \<noteq> STRUCT_END"
  using assms by (auto simp: frames_inv_def step_defs split: if_splits)

lemma frames_struct_begin:
  assumes "frames_inv fs s" "sig_step [] STRUCT_BEGIN p1 s = (Inr s', m)"
  shows "frames_inv (([], 0) # fs) s'"
  using assms by (auto simp: frames_inv_def step_defs split: if_splits)

lemma frames_struct_end:
  assumes "frames_inv (f # fs) s" "sig_step [] STRUCT_END p1 s = (Inr s', m)" "array_depth s = 0"
  obtains ts g gs where "f = (ts, 0)" "fs = g # gs" "frames_inv (complete (Struct ts) g # gs) s'"
proof -
  from assms have k: "snd f = 0" and "struct_depth s \<noteq> 0" and nb: "last_code s \<noteq> STRUCT_BEGIN"
    by (auto simp: frames_inv_def step_defs split: if_splits)
  with assms(1) obtain g gs where fs: "fs = g # gs"
    by (cases fs) (auto simp: frames_inv_def)
  with assms(1) k nb have "fst f \<noteq> []" by (cases f) (auto simp: frames_inv_def)
  with assms(1) k fs have wf: "wf_frames (complete (Struct (fst f)) g # gs)"
    by (cases f) (auto intro!: wf_complete simp: frames_inv_def)
  have "frames_inv (complete (Struct (fst f)) g # gs) s'"
    using assms fs wf k nb
    by (auto simp: frames_inv_def step_defs complete_def simp del: wf_frames.simps)
  with k fs show thesis by (intro that [of "fst f" g gs]) (cases f, auto)
qed

lemma frames_step:
  assumes "frames_inv fs s" "sig_step [] c p1 s = (Inr s', m)"
    and "c \<noteq> DICT_ENTRY_BEGIN" "c \<noteq> DICT_ENTRY_END" "c = STRUCT_END \<longrightarrow> array_depth s = 0"
  obtains fs' where "frames_inv fs' s'" "flat fs' = flat fs @ [c]"
    "array_depth s' = 0 \<or> p1 \<noteq> STRUCT_END"
proof -
  obtain f gs where fs: "fs = f # gs" using assms(1) by (cases fs) (auto simp: frames_inv_def)
  consider (simple) "c \<in> set simple_codes" | (array) "c = DBUS_TYPE_ARRAY" | (begins) "c = STRUCT_BEGIN"
    | (ends) "c = STRUCT_END"
    using assms by (auto simp: step_defs split: if_splits)
  then show thesis
  proof cases
    case simple
    note inv = frames_simple [OF assms(1) [unfolded fs] simple assms(2)]
    show ?thesis
    proof (rule that [OF inv])
      show "flat (complete (Simple c) f # gs) = flat fs @ [c]"
        unfolding flat_complete fs by simp
    qed (use inv in \<open>simp add: frames_inv_def complete_def\<close>)
  next
    case array
    obtain ts k where f: "f = (ts, k)" by fastforce
    note fr = frames_array [OF assms(1) [unfolded fs f] assms(2) [unfolded array]]
    show ?thesis
      by (rule that [OF fr(1)]) (use fr(2) fs f array in \<open>simp_all add: replicate_append_same\<close>)
  next
    case begins
    note inv = frames_struct_begin [OF assms(1) assms(2) [unfolded begins]]
    show ?thesis
      by (rule that [OF inv])
        (use inv fs begins in \<open>simp_all add: frames_inv_def sig_of_list_def del: flat.simps(2)\<close>, simp add: sig_of_list_def)
  next
    case ends
    with assms fs obtain ts g hs where *: "f = (ts, 0)" "gs = g # hs"
      "frames_inv (complete (Struct ts) g # hs) s'"
      by (auto elim: frames_struct_end)
    have "flat (complete (Struct ts) g # hs) = flat fs @ [c]"
      unfolding flat_complete using fs * ends by (simp add: sig_of_list_def)
    with that [OF *(3)] *(3) show ?thesis by (auto simp: frames_inv_def complete_def)
  qed
qed

lemma frames_finish:
  "frames_inv fs s \<Longrightarrow> sig_finish s = DBUS_VALID \<Longrightarrow>
   \<exists>ts. list_all (wf_type 0 0) ts \<and> flat fs = sig_of_list ts"
  by (cases fs rule: flat.cases) (auto simp: frames_inv_def sig_finish_def split: if_splits)

lemma sig_loop_sound:
  "frames_inv fs s \<Longrightarrow> fst (sig_loop [] after cs s) = DBUS_VALID \<Longrightarrow>
   DICT_ENTRY_BEGIN \<notin> set cs \<Longrightarrow> DICT_ENTRY_END \<notin> set cs \<Longrightarrow>
   array_depth s = 0 \<or> cs = [] \<or> hd cs \<noteq> STRUCT_END \<Longrightarrow>
   \<exists>ts. list_all (wf_type 0 0) ts \<and> flat fs @ cs = sig_of_list ts"
proof (induction cs arbitrary: fs s)
  case Nil
  then show ?case using frames_finish by simp
next
  case (Cons c cs)
  let ?p1 = "case cs of [] \<Rightarrow> after | d # ds \<Rightarrow> d"
  obtain r where r: "sig_step [] c ?p1 s = (r, [])" by (metis prod.collapse sig_step_mem)
  show ?case
  proof (cases r)
    case (Inl e)
    have "e \<noteq> DBUS_VALID"
      using r Inl by (auto simp: step_defs split: if_splits prod.splits)
    with Inl r Cons.prems show ?thesis by simp
  next
    case (Inr s')
    with r Cons.prems obtain fs' where fs': "frames_inv fs' s'" "flat fs' = flat fs @ [c]"
      "array_depth s' = 0 \<or> ?p1 \<noteq> STRUCT_END"
      by (elim frames_step [of fs s c ?p1 s' "[]"]) auto
    from Cons.IH [OF fs'(1)] fs' Inr r Cons.prems show ?thesis
      by (auto split: list.splits)
  qed
qed

lemma validate_signature_sound:
  assumes "fst (validate_signature_with_reason [] str pos len) = DBUS_VALID"
    and "DICT_ENTRY_BEGIN \<notin> set (substring str pos len)"
    and "DICT_ENTRY_END \<notin> set (substring str pos len)"
  shows "len \<le> 255 \<and> (\<exists>ts. list_all (wf_type 0 0) ts \<and> substring str pos len = sig_of_list ts)"
proof -
  from assms(1) have len: "len \<le> 255" and "fst (sig_loop [] (byte_at str (pos + len)) (substring str pos len)
      (sig_init\<lparr>element_count_stack := [0]\<rparr>)) = DBUS_VALID"
    by (auto simp: validate_signature_with_reason_def sig_init_def
        DBUS_MAXIMUM_SIGNATURE_LENGTH_def split: if_splits)
  moreover have "frames_inv [([], 0)] (sig_init\<lparr>element_count_stack := [0]\<rparr>)"
    by (simp add: frames_inv_def sig_init_def)
  ultimately have "\<exists>ts. list_all (wf_type 0 0) ts \<and> flat [([], 0)] @ substring str pos len = sig_of_list ts"
    using assms by (intro sig_loop_sound) (auto simp: sig_init_def)
  with len show ?thesis by (simp add: sig_of_list_def)
qed

text \<open>
  C15. For a range without dict entry brackets the signature validator decides the grammar: it
  accepts the range exactly when it is the concatenation of complete types within the limits and
  at most 255 bytes long.
\<close>

theorem validate_signature_iff:
  assumes "pos + len \<le> length str"
    and "DICT_ENTRY_BEGIN \<notin> set (substring str pos len)"
    and "DICT_ENTRY_END \<notin> set (substring str pos len)"
  shows "validate_signature [] str pos len \<longleftrightarrow>
    len \<le> 255 \<and> (\<exists>ts. list_all (wf_type 0 0) ts \<and> substring str pos len = sig_of_list ts)"
    (is "?l \<longleftrightarrow> ?r")
proof
  assume ?l
  with assms(2,3) show ?r
    by (intro validate_signature_sound) (auto simp: validate_signature_def split: if_splits)
next
  assume ?r
  with assms(1) show ?l by (metis length_substring validate_signature_complete)
qed

theorem validate_signature_iff_witness:
  "validate_signature [] (bytes ''a(ii)s'') 0 6 \<longleftrightarrow>
   6 \<le> (255 :: nat) \<and> (\<exists>ts. list_all (wf_type 0 0) ts \<and> substring (bytes ''a(ii)s'') 0 6 = sig_of_list ts)"
  by (rule validate_signature_iff) (simp_all add: substring_def)

text \<open>
  With dict entries it accepts more than the grammar: the brackets of structs and dict entries
  are counted apart, so they may interleave.
\<close>

lemma not_a_dict_with_struct:
  "xs @ [STRUCT_END] @ [DICT_ENTRY_END] @ ys \<noteq> [DBUS_TYPE_INT32, DBUS_TYPE_INT32, DICT_ENTRY_END, STRUCT_END]"
  by (auto simp: append_eq_Cons_conv)

text \<open>
  C16. The validator counts struct and dict entry brackets separately, so it accepts a{s(ii}),
  whose brackets interleave and which no list of well-formed types produces.
\<close>

theorem validate_signature_interleaved:
  "validate_signature [] (bytes ''a{s(ii})'') 0 8 \<and>
   (\<nexists>ts. list_all (wf_type 0 0) ts \<and> sig_of_list ts = bytes ''a{s(ii})'')"
proof (rule conjI, code_simp, rule notI, elim exE conjE)
  fix ts assume wf: "list_all (wf_type 0 0) ts" and ts: "sig_of_list ts = bytes ''a{s(ii})''"
  then obtain t us where "ts = t # us" and t: "sig_of t @ sig_of_list us = bytes ''a{s(ii})''"
    and wt: "wf_type 0 0 t"
    by (cases ts) (auto simp: sig_of_list_def)
  from t wt obtain v where v: "sig_of v @ [DICT_ENTRY_END] @ sig_of_list us = bytes ''(ii})''"
    "wf_type 0 1 v"
  proof (cases t)
    case (Array t')
    with t wt hd_sig_of show ?thesis by (cases t') (auto simp: simple_codes_def)
  qed (auto simp: simple_codes_def intro: that)
  then obtain vs where "concat (map sig_of vs) @ [STRUCT_END] @ [DICT_ENTRY_END] @ sig_of_list us =
      [DBUS_TYPE_INT32, DBUS_TYPE_INT32, DICT_ENTRY_END, STRUCT_END]"
    by (cases v) (auto simp: simple_codes_def)
  then show False using not_a_dict_with_struct by blast
qed

end
