(* ===== verification/SigIter.thy ===== *)
theory SigIter
  imports Signature
begin

text \<open>
  Walking over a signature: \<^verbatim>\<open>_dbus_type_signature_next\<close> of
  \<^verbatim>\<open>dbus/dbus-marshal-recursive.c\<close>, the first type code and the alignment of a type from
  \<^verbatim>\<open>dbus/dbus-marshal-basic.c\<close>, and the public signature iterators of
  \<^verbatim>\<open>dbus/dbus-signature.c\<close>. A failed assertion is \<open>None\<close>.
\<close>

section \<open>Definitions\<close>

definition first_type_in_signature :: "bytes \<Rightarrow> nat \<Rightarrow> byte" where
  "first_type_in_signature str pos = map_type_char_to_type (byte_at str pos)"

definition type_get_alignment :: "byte \<Rightarrow> nat option" where
  "type_get_alignment t =
     (if t \<in> set [DBUS_TYPE_BYTE, DBUS_TYPE_VARIANT, DBUS_TYPE_SIGNATURE] then Some 1
      else if t \<in> set [DBUS_TYPE_INT16, DBUS_TYPE_UINT16] then Some 2
      else if t \<in> set [DBUS_TYPE_BOOLEAN, DBUS_TYPE_INT32, DBUS_TYPE_UINT32, DBUS_TYPE_UNIX_FD,
        DBUS_TYPE_STRING, DBUS_TYPE_OBJECT_PATH, DBUS_TYPE_ARRAY] then Some 4
      else if t \<in> set [DBUS_TYPE_INT64, DBUS_TYPE_UINT64, DBUS_TYPE_DOUBLE, DBUS_TYPE_STRUCT,
        DBUS_TYPE_DICT_ENTRY] then Some 8
      else None)"

text \<open>
  The two loops that look for the bracket \<open>e\<close> closing the bracket \<open>b\<close>; the list is what follows
  \<^verbatim>\<open>p\<close>, the result how far \<^verbatim>\<open>p\<close> moves. Meeting the terminating NUL fails the assertion.
\<close>

fun skip_nested :: "byte \<Rightarrow> byte \<Rightarrow> nat \<Rightarrow> bytes \<Rightarrow> nat option" where
  "skip_nested b e depth [] = None"
| "skip_nested b e depth (c # cs) =
     (if c = DBUS_TYPE_INVALID then None
      else if c = b then map_option Suc (skip_nested b e (depth + 1) cs)
      else if c = e then
        (if depth - 1 = 0 then Some 1 else map_option Suc (skip_nested b e (depth - 1) cs))
      else map_option Suc (skip_nested b e depth cs))"

definition type_signature_next :: "bytes \<Rightarrow> nat \<Rightarrow> nat option" where
  "type_signature_next type_str type_pos =
     (if byte_at type_str type_pos \<in> {STRUCT_END, DICT_ENTRY_END} then None
      else let p = type_pos + length (takeWhile (\<lambda>c. c = DBUS_TYPE_ARRAY) (drop type_pos type_str));
               c = byte_at type_str p in
        if c \<in> {STRUCT_END, DICT_ENTRY_END} then None
        else if c = STRUCT_BEGIN then
          map_option (\<lambda>n. p + 1 + n) (skip_nested STRUCT_BEGIN STRUCT_END 1 (drop (p + 1) type_str))
        else if c = DICT_ENTRY_BEGIN then
          map_option (\<lambda>n. p + 1 + n)
            (skip_nested DICT_ENTRY_BEGIN DICT_ENTRY_END 1 (drop (p + 1) type_str))
        else Some (p + 1))"

definition find_len_of_complete_type :: "bytes \<Rightarrow> nat \<Rightarrow> nat option" where
  "find_len_of_complete_type type_str type_pos =
     map_option (\<lambda>e. e - type_pos) (type_signature_next type_str type_pos)"

text \<open>\<^verbatim>\<open>DBusSignatureRealIter\<close>; the pointer \<^verbatim>\<open>pos\<close> is the string it points to.\<close>

record sig_iter =
  si_pos :: bytes
  si_finished :: bool
  si_in_array :: bool

definition signature_iter_init :: "bytes \<Rightarrow> sig_iter" where
  "signature_iter_init signature = \<lparr>si_pos = signature, si_finished = False, si_in_array = False\<rparr>"

definition signature_iter_get_current_type :: "sig_iter \<Rightarrow> byte" where
  "signature_iter_get_current_type iter = first_type_in_signature (si_pos iter) 0"

text \<open>
  The signature of the current type. The source builds it in a string buffer and answers \<^verbatim>\<open>NULL\<close> when
  one of its three allocations fails; this is the answer with memory.
\<close>

definition signature_iter_get_signature :: "sig_iter \<Rightarrow> bytes option" where
  "signature_iter_get_signature iter =
     map_option (\<lambda>pos. take pos (si_pos iter)) (type_signature_next (si_pos iter) 0)"

definition signature_iter_get_element_type :: "sig_iter \<Rightarrow> byte" where
  "signature_iter_get_element_type iter =
     (if signature_iter_get_current_type iter \<noteq> DBUS_TYPE_ARRAY then DBUS_TYPE_INVALID
      else first_type_in_signature (si_pos iter) 1)"

definition signature_iter_next :: "sig_iter \<Rightarrow> (bool \<times> sig_iter) option" where
  "signature_iter_next iter =
     (if si_finished iter then Some (False, iter)
      else if si_in_array iter then Some (False, iter\<lparr>si_finished := True\<rparr>)
      else case type_signature_next (si_pos iter) 0 of
        None \<Rightarrow> None
      | Some pos \<Rightarrow>
          let iter = iter\<lparr>si_pos := drop pos (si_pos iter)\<rparr>; c = byte_at (si_pos iter) 0 in
          if c = STRUCT_END \<or> c = DICT_ENTRY_END then Some (False, iter\<lparr>si_finished := True\<rparr>)
          else Some (c \<noteq> DBUS_TYPE_INVALID, iter))"

text \<open>
  \<^verbatim>\<open>dbus_signature_iter_recurse\<close>; when the current type is no container the function returns
  without having set the sub-iterator: \<open>None\<close>.
\<close>

definition signature_iter_recurse :: "sig_iter \<Rightarrow> sig_iter option" where
  "signature_iter_recurse iter =
     (if \<not> dbus_type_is_container (signature_iter_get_current_type iter) then None
      else Some (iter\<lparr>si_in_array := (signature_iter_get_current_type iter = DBUS_TYPE_ARRAY),
        si_pos := drop 1 (si_pos iter)\<rparr>))"

definition signature_validate :: "mem \<Rightarrow> bytes \<Rightarrow> DBusValidity option" where
  "signature_validate m signature =
     (let reason = fst (validate_signature_with_reason m signature 0 (length signature)) in
      if reason = DBUS_VALID then None else Some reason)"

definition signature_validate_single :: "mem \<Rightarrow> bytes \<Rightarrow> bool option" where
  "signature_validate_single m signature =
     (if signature_validate m signature \<noteq> None then Some False
      else let iter = signature_iter_init signature in
        if signature_iter_get_current_type iter = DBUS_TYPE_INVALID then Some False
        else map_option (\<lambda>(again, iter). \<not> again) (signature_iter_next iter))"

section \<open>Skipping one complete type\<close>

text \<open>A well-formed type is transparent to the search for an enclosing closing bracket.\<close>

abbreviation brackets :: "(byte \<times> byte) set" where
  "brackets \<equiv> {(STRUCT_BEGIN, STRUCT_END), (DICT_ENTRY_BEGIN, DICT_ENTRY_END)}"

definition skips_over :: "bytes \<Rightarrow> bool" where
  "skips_over xs \<longleftrightarrow>
     (\<forall>b e d ys. (b, e) \<in> brackets \<longrightarrow> 0 < d \<longrightarrow>
        skip_nested b e d (xs @ ys) = map_option (\<lambda>n. length xs + n) (skip_nested b e d ys))"

lemma skips_overD:
  "skips_over xs \<Longrightarrow> (b, e) \<in> brackets \<Longrightarrow> 0 < d \<Longrightarrow>
   skip_nested b e d (xs @ ys) = map_option (\<lambda>n. length xs + n) (skip_nested b e d ys)"
  unfolding skips_over_def by blast

lemma simple_codes_nonzero: "c \<in> set simple_codes \<Longrightarrow> c \<noteq> 0"
  by (auto simp: simple_codes_def)

lemma skips_over_simple: "c \<in> set simple_codes \<Longrightarrow> skips_over [c]"
  using simple_codes_not_special [of c] simple_codes_nonzero [of c]
  by (auto simp: skips_over_def intro!: option.map_cong)

lemma skips_over_concat:
  "list_all skips_over xss \<Longrightarrow> skips_over (concat xss)"
proof (induction xss)
  case Nil
  then show ?case by (simp add: skips_over_def option.map_ident)
next
  case (Cons xs xss)
  then show ?case
    by (auto simp: skips_over_def option.map_comp comp_def add.assoc)
qed

lemma skips_over_Cons:
  "skips_over xs \<Longrightarrow> c \<notin> {0, STRUCT_BEGIN, STRUCT_END, DICT_ENTRY_BEGIN, DICT_ENTRY_END} \<Longrightarrow>
   skips_over (c # xs)"
  by (auto simp: skips_over_def option.map_comp comp_def)

lemma skips_over_bracketed:
  "skips_over xs \<Longrightarrow> (b, e) \<in> brackets \<Longrightarrow> skips_over (b # xs @ [e])"
  by (auto simp: skips_over_def option.map_comp comp_def)

lemma skips_over_sig_of: "wf_type sd dd t \<Longrightarrow> skips_over (sig_of t)"
proof (induction t arbitrary: sd dd)
  case (Simple c)
  then show ?case by (simp add: skips_over_simple)
next
  case (Array t)
  then show ?case by (auto intro!: skips_over_Cons)
next
  case (Dict k v)
  then have "skips_over (concat [[k], sig_of v])"
    by (intro skips_over_concat) (auto simp: skips_over_simple)
  then show ?case
    using skips_over_Cons [OF skips_over_bracketed [of "k # sig_of v" DICT_ENTRY_BEGIN DICT_ENTRY_END]]
    by simp
next
  case (Struct ts)
  then have "skips_over (concat (map sig_of ts))"
    by (intro skips_over_concat) (auto simp: list_all_iff)
  then show ?case
    using skips_over_bracketed [of _ STRUCT_BEGIN STRUCT_END] by simp
qed

lemma byte_at_append [simp]: "byte_at (xs @ ys) (length xs + i) = byte_at ys i"
  by (simp add: byte_at_def nth_append)

lemma byte_at_append0 [simp]: "byte_at (xs @ ys) (length xs) = byte_at ys 0"
  using byte_at_append [of xs ys 0] by simp

lemma byte_at_Cons0 [simp]: "byte_at (c # cs) 0 = c"
  by (simp add: byte_at_def)

lemma byte_at_Cons_Suc [simp]: "byte_at (c # cs) (Suc i) = byte_at cs i"
  by (simp add: byte_at_def)

lemma byte_at_Nil [simp]: "byte_at [] i = 0"
  by (simp add: byte_at_def)

text \<open>The type below the leading array codes.\<close>

fun core :: "dtype \<Rightarrow> bytes" where
  "core (Array t) = core t"
| "core (Dict k v) = [DICT_ENTRY_BEGIN, k] @ sig_of v @ [DICT_ENTRY_END]"
| "core t = sig_of t"

lemma sig_of_core: "sig_of t = replicate (array_run t) DBUS_TYPE_ARRAY @ core t"
  by (induction t) auto

lemma core_ne: "core t \<noteq> []"
  by (induction t) auto

lemma hd_core:
  "wf_type sd dd t \<Longrightarrow> hd (core t) \<notin> {DBUS_TYPE_ARRAY, STRUCT_END, DICT_ENTRY_END}"
proof (induction t arbitrary: sd dd)
  case (Simple c)
  then show ?case using simple_codes_not_special [of c] by simp
qed auto

lemma takeWhile_core:
  "wf_type sd dd t \<Longrightarrow>
   length (takeWhile (\<lambda>c. c = DBUS_TYPE_ARRAY) (sig_of t @ ys)) = array_run t"
  using hd_core [of sd dd t] core_ne [of t]
  by (cases "core t") (auto simp: sig_of_core takeWhile_append)

text \<open>After one core, bracketed or a single code.\<close>

lemma skip_core:
  "wf_type sd dd t \<Longrightarrow>
   (\<exists>c. core t = [c] \<and> c \<noteq> STRUCT_BEGIN \<and> c \<noteq> DICT_ENTRY_BEGIN) \<or>
   (\<exists>b e xs. (b, e) \<in> brackets \<and> core t = b # xs @ [e] \<and> skips_over xs)"
proof (induction t arbitrary: sd dd)
  case (Simple c)
  then show ?case using simple_codes_not_special [of c] by simp
next
  case (Array t)
  from Array.prems have "wf_type sd dd t" by simp
  from Array.IH [OF this] show ?case by simp
next
  case (Dict k v)
  then have "skips_over (concat [[k], sig_of v])"
    by (intro skips_over_concat) (auto simp: skips_over_simple skips_over_sig_of)
  then show ?case by (intro disjI2 exI [of _ DICT_ENTRY_BEGIN] exI [of _ DICT_ENTRY_END] exI [of _ "k # sig_of v"]) simp
next
  case (Struct ts)
  then have "skips_over (concat (map sig_of ts))"
    by (intro skips_over_concat) (auto simp: list_all_iff skips_over_sig_of)
  then show ?case by (intro disjI2 exI [of _ STRUCT_BEGIN] exI [of _ STRUCT_END] exI) auto
qed

lemma skip_nested_closed:
  "skips_over xs \<Longrightarrow> (b, e) \<in> brackets \<Longrightarrow> skip_nested b e 1 (xs @ e # ys) = Some (length xs + 1)"
  by (subst skips_overD) auto

lemma signature_next_sig_of:
  assumes "wf_type sd dd t"
  shows "type_signature_next (xs @ sig_of t @ ys) (length xs) = Some (length xs + length (sig_of t))"
proof -
  define str where "str = xs @ sig_of t @ ys"
  have hd: "byte_at str (length xs) \<notin> {STRUCT_END, DICT_ENTRY_END}"
    using hd_sig_of [OF assms, of ys] by (cases "sig_of t") (auto simp: str_def)
  have p: "length (takeWhile (\<lambda>c. c = DBUS_TYPE_ARRAY) (drop (length xs) str)) = array_run t"
    using takeWhile_core [OF assms] by (simp add: str_def)
  have s: "str = (xs @ replicate (array_run t) DBUS_TYPE_ARRAY) @ core t @ ys"
    by (simp add: str_def sig_of_core)
  have at: "byte_at str (length xs + array_run t) = hd (core t)"
    using core_ne [of t] byte_at_append0 [of "xs @ replicate (array_run t) DBUS_TYPE_ARRAY" "core t @ ys"]
    unfolding s by (cases "core t") auto
  have dr: "drop (Suc (length xs + array_run t)) str = tl (core t) @ ys"
    unfolding s using core_ne [of t] by (cases "core t") auto
  have l: "length (sig_of t) = array_run t + length (core t)"
    by (simp add: sig_of_core)
  have "type_signature_next str (length xs) = Some (length xs + length (sig_of t))"
    using skip_core [OF assms] hd hd_core [OF assms] skip_nested_closed
    by (elim disjE exE conjE)
      (auto simp: type_signature_next_def Let_def p at dr l)
  then show ?thesis by (simp only: str_def)
qed


lemma find_len_sig_of:
  "wf_type sd dd t \<Longrightarrow>
   find_len_of_complete_type (xs @ sig_of t @ ys) (length xs) = Some (length (sig_of t))"
  by (simp add: find_len_of_complete_type_def signature_next_sig_of)

section \<open>The iterators\<close>

lemma iter_next_sig_of:
  assumes "wf_type sd dd t"
  shows "signature_iter_next \<lparr>si_pos = sig_of t @ ys, si_finished = False, si_in_array = False\<rparr> =
    Some (byte_at ys 0 \<notin> {0, STRUCT_END, DICT_ENTRY_END},
      \<lparr>si_pos = ys, si_finished = byte_at ys 0 \<in> {STRUCT_END, DICT_ENTRY_END}, si_in_array = False\<rparr>)"
  using signature_next_sig_of [OF assms, of "[]" ys]
  by (simp add: signature_iter_next_def Let_def)

lemma current_type_sig_of:
  "signature_iter_get_current_type \<lparr>si_pos = sig_of t @ ys, si_finished = f, si_in_array = a\<rparr> =
     map_type_char_to_type (hd (sig_of t))"
  by (cases "sig_of t") (auto simp: signature_iter_get_current_type_def first_type_in_signature_def)

lemma type_of_simple [simp]:
  "c \<in> set simple_codes \<Longrightarrow> map_type_char_to_type c = c"
  by (auto simp: simple_codes_def map_type_char_to_type_def)

lemma type_of_container [simp]:
  "map_type_char_to_type DBUS_TYPE_ARRAY = DBUS_TYPE_ARRAY"
  "map_type_char_to_type STRUCT_BEGIN = DBUS_TYPE_STRUCT"
  "map_type_char_to_type DICT_ENTRY_BEGIN = DBUS_TYPE_DICT_ENTRY"
  by (simp_all add: map_type_char_to_type_def)

lemma simple_type_nonzero: "wf_type sd dd t \<Longrightarrow> map_type_char_to_type (hd (sig_of t)) \<noteq> 0"
  using simple_codes_nonzero by (cases t) (auto simp: )

text \<open>Descending into a container gives an iterator at its first child.\<close>

lemma signature_iter_recurse_children:
  "signature_iter_recurse \<lparr>si_pos = sig_of (Array t) @ ys, si_finished = f, si_in_array = a\<rparr> =
     Some \<lparr>si_pos = sig_of t @ ys, si_finished = f, si_in_array = True\<rparr> \<and>
   signature_iter_recurse \<lparr>si_pos = sig_of (Struct ts) @ ys, si_finished = f, si_in_array = a\<rparr> =
     Some \<lparr>si_pos = sig_of_list ts @ STRUCT_END # ys, si_finished = f, si_in_array = False\<rparr> \<and>
   (c \<in> set simple_codes \<and> c \<noteq> DBUS_TYPE_VARIANT \<longrightarrow>
    signature_iter_recurse \<lparr>si_pos = sig_of (Simple c) @ ys, si_finished = f, si_in_array = a\<rparr> = None)"
  by (auto simp: signature_iter_recurse_def signature_iter_get_current_type_def
      first_type_in_signature_def dbus_type_is_container_def dbus_type_is_valid_def
      TYPE_IS_CONTAINER_def sig_of_list_def simple_codes_def)

text \<open>Reading the complete types one by one, as a client's loop does.\<close>

fun iterate :: "nat \<Rightarrow> sig_iter \<Rightarrow> bytes list option" where
  "iterate 0 iter = None"
| "iterate (Suc n) iter =
     (case (signature_iter_get_signature iter, signature_iter_next iter) of
        (Some sg, Some (again, iter')) \<Rightarrow>
          (if again then map_option ((#) sg) (iterate n iter') else Some [sg])
      | _ \<Rightarrow> None)"

lemma byte_at_sig_of:
  "wf_type sd dd t \<Longrightarrow> byte_at (sig_of t @ ys) 0 \<notin> {0, STRUCT_END, DICT_ENTRY_END}"
  using hd_sig_of [of sd dd t ys] simple_codes_nonzero by (cases t) (auto simp: byte_at_def)

lemma iterate_step:
  assumes "wf_type sd dd t"
  shows "iterate (Suc n) \<lparr>si_pos = sig_of t @ ys, si_finished = False, si_in_array = False\<rparr> =
    (if byte_at ys 0 \<in> {0, STRUCT_END, DICT_ENTRY_END} then Some [sig_of t]
     else map_option ((#) (sig_of t))
       (iterate n \<lparr>si_pos = ys, si_finished = False, si_in_array = False\<rparr>))"
  using signature_next_sig_of [OF assms, of "[]" ys] iter_next_sig_of [OF assms, of ys]
  by (simp add: signature_iter_get_signature_def)

lemma iterate_types:
  assumes "list_all (wf_type sd dd) (t # ts)" "byte_at ys 0 \<in> {0, STRUCT_END, DICT_ENTRY_END}"
  shows "iterate (length (t # ts))
     \<lparr>si_pos = sig_of_list (t # ts) @ ys, si_finished = False, si_in_array = False\<rparr> =
   Some (map sig_of (t # ts))"
  using assms
proof (induction ts arbitrary: t)
  case Nil
  then show ?case
    using iterate_step [of sd dd t 0 ys] by (simp add: sig_of_list_def)
next
  case (Cons u us)
  let ?zs = "sig_of_list (u # us) @ ys"
  have "byte_at ?zs 0 \<notin> {0, STRUCT_END, DICT_ENTRY_END}"
    using Cons.prems byte_at_sig_of [of sd dd u] by (simp add: sig_of_list_def)
  moreover have "iterate (length (u # us)) \<lparr>si_pos = ?zs, si_finished = False, si_in_array = False\<rparr> =
      Some (map sig_of (u # us))"
    using Cons.prems by (intro Cons.IH) auto
  ultimately show ?case
    using iterate_step [of sd dd t "length (u # us)" ?zs] Cons.prems
    by (simp add: sig_of_list_def del: iterate.simps)
qed

text \<open>
  C17. Iterating over a grammatical signature with the public iterator yields exactly its
  complete types, in order, and then stops.
\<close>

theorem signature_iterate:
  assumes "list_all (wf_type 0 0) ts" "ts \<noteq> []"
  shows "iterate (length ts) (signature_iter_init (sig_of_list ts)) = Some (map sig_of ts)"
proof -
  from assms(2) obtain t us where ts: "ts = t # us" by (cases ts) auto
  with assms(1) iterate_types [of 0 0 t us "[]"] show ?thesis
    by (simp add: signature_iter_init_def del: iterate.simps list.map)
qed

theorem signature_iterate_witness:
  "iterate (Suc (Suc 0)) (signature_iter_init (bytes ''a{sv}(ii)'')) = Some [bytes ''a{sv}'', bytes ''(ii)'']"
  using signature_iterate [of "[Dict DBUS_TYPE_STRING (Simple DBUS_TYPE_VARIANT),
      Struct [Simple DBUS_TYPE_INT32, Simple DBUS_TYPE_INT32]]"]
  by (simp add: simple_codes_def sig_of_list_def del: iterate.simps)

text \<open>
  On a grammatical signature the single-type check answers yes exactly when it has one
  complete type, and never runs past the terminating NUL.
\<close>

theorem signature_validate_single_iff:
  assumes "list_all (wf_type 0 0) ts" "length (sig_of_list ts) \<le> 255"
  shows "signature_validate_single [] (sig_of_list ts) = Some (length ts = 1)"
proof -
  have v: "signature_validate [] (sig_of_list ts) = None"
    using validate_signature_complete [OF assms, of "sig_of_list ts" 0 "length (sig_of_list ts)"]
    by (simp add: validate_signature_def signature_validate_def)
  show ?thesis
  proof (cases ts)
    case Nil
    then show ?thesis
      using v by (simp add: signature_validate_single_def Let_def signature_iter_init_def sig_of_list_def
          signature_iter_get_current_type_def first_type_in_signature_def map_type_char_to_type_def)
  next
    case (Cons t us)
    with assms(1) have "byte_at (sig_of_list us) 0 \<notin> {0, STRUCT_END, DICT_ENTRY_END} \<longleftrightarrow> us \<noteq> []"
      using byte_at_sig_of by (cases us) (auto simp: sig_of_list_def)
    with Cons assms(1) v show ?thesis
      using iter_next_sig_of [of 0 0 t "sig_of_list us"] simple_type_nonzero [of 0 0 t]
      by (simp add: signature_validate_single_def Let_def signature_iter_init_def sig_of_list_def
          current_type_sig_of)
  qed
qed

theorem signature_validate_single_witness:
  "signature_validate_single [] (bytes ''a{s(ii)}'') = Some True"
  using signature_validate_single_iff [of "[Dict DBUS_TYPE_STRING
      (Struct [Simple DBUS_TYPE_INT32, Simple DBUS_TYPE_INT32])]"]
  by (simp add: simple_codes_def sig_of_list_def)

end
