(* ===== verification/Marshal.thy ===== *)
theory Marshal
  imports DString Octets SigIter
begin

text \<open>
  Marshalling of basic values, \<^verbatim>\<open>dbus/dbus-marshal-basic.c\<close>, on the buffers of theory \<open>DString\<close>.
  A \<^verbatim>\<open>DBusBasicValue\<close> is a value of the member the type code selects. Positions are \<open>nat\<close>: a
  message is at most 2 to the 27 bytes long, so no \<^verbatim>\<open>int\<close> position overflows.
\<close>

section \<open>Definitions\<close>

datatype DBusBasicValue = byt byte | u16 "16 word" | u32 "32 word" | u64 "64 word" | str bytes

abbreviation is_two :: "byte \<Rightarrow> bool" where
  "is_two t \<equiv> t = DBUS_TYPE_INT16 \<or> t = DBUS_TYPE_UINT16"

abbreviation is_four :: "byte \<Rightarrow> bool" where
  "is_four t \<equiv> t = DBUS_TYPE_INT32 \<or> t = DBUS_TYPE_UINT32 \<or> t = DBUS_TYPE_UNIX_FD"

abbreviation is_eight :: "byte \<Rightarrow> bool" where
  "is_eight t \<equiv> t = DBUS_TYPE_INT64 \<or> t = DBUS_TYPE_UINT64 \<or> t = DBUS_TYPE_DOUBLE"

abbreviation is_string_like :: "byte \<Rightarrow> bool" where
  "is_string_like t \<equiv> t = DBUS_TYPE_STRING \<or> t = DBUS_TYPE_OBJECT_PATH"

text \<open>The value as the member that a case of the type switch reads.\<close>

fun as_byt :: "DBusBasicValue \<Rightarrow> byte option" where
  "as_byt (byt v) = Some v"
| "as_byt _ = None"

fun as_u16 :: "DBusBasicValue \<Rightarrow> 16 word option" where
  "as_u16 (u16 v) = Some v"
| "as_u16 _ = None"

fun as_u32 :: "DBusBasicValue \<Rightarrow> 32 word option" where
  "as_u32 (u32 v) = Some v"
| "as_u32 _ = None"

fun as_u64 :: "DBusBasicValue \<Rightarrow> 64 word option" where
  "as_u64 (u64 v) = Some v"
| "as_u64 _ = None"

fun as_str :: "DBusBasicValue \<Rightarrow> bytes option" where
  "as_str (str v) = Some v"
| "as_str _ = None"

type_synonym marshal_result = "(bool \<times> nat \<times> real_string \<times> heap) option"

definition set_octets :: "real_string \<Rightarrow> nat \<Rightarrow> bytes \<Rightarrow> real_string option" where
  "set_octets real offset octets =
     do { string_preamble real;
          check (offset \<le> ds_len real \<and> length octets \<le> ds_len real - offset);
          put_at real offset octets }"

definition set_2_octets :: "byte_order \<Rightarrow> real_string \<Rightarrow> nat \<Rightarrow> 16 word \<Rightarrow> byte_order \<Rightarrow> real_string option" where
  "set_2_octets host real offset v byte_order = set_octets real offset (pack_2_octets host v byte_order)"

definition set_4_octets :: "byte_order \<Rightarrow> real_string \<Rightarrow> nat \<Rightarrow> 32 word \<Rightarrow> byte_order \<Rightarrow> real_string option" where
  "set_4_octets host real offset v byte_order = set_octets real offset (pack_4_octets host v byte_order)"

definition set_8_octets :: "byte_order \<Rightarrow> real_string \<Rightarrow> nat \<Rightarrow> 64 word \<Rightarrow> byte_order \<Rightarrow> real_string option" where
  "set_8_octets host real offset v byte_order = set_octets real offset (pack_8_octets host v byte_order)"

definition marshal_set_uint32 :: "byte_order \<Rightarrow> real_string \<Rightarrow> nat \<Rightarrow> 32 word \<Rightarrow> byte_order \<Rightarrow> real_string option" where
  "marshal_set_uint32 host real pos v byte_order = set_4_octets host real pos v byte_order"

text \<open>A C string as a constant \<^verbatim>\<open>DBusString\<close>; the memory ends with its NUL.\<close>

definition string_init_const :: "bytes \<Rightarrow> real_string option" where
  "string_init_const v = string_init_const_len (v @ [0]) (length v)"

text \<open>
  The answers carry \<^verbatim>\<open>*old_end_pos\<close> and \<^verbatim>\<open>*new_end_pos\<close> as a pair.
\<close>

definition set_string ::
    "byte_order \<Rightarrow> heap \<Rightarrow> real_string \<Rightarrow> nat \<Rightarrow> bytes \<Rightarrow> byte_order \<Rightarrow>
     (bool \<times> (nat \<times> nat) \<times> real_string \<times> heap) option" where
  "set_string host h real pos v byte_order =
     do { dstr \<leftarrow> string_init_const v;
          check (align_value pos 4 = pos);
          data \<leftarrow> get_at real pos 4;
          let old_len = unat (unpack_uint32 host byte_order data);
          let new_len = length v;
          (ok, real, h) \<leftarrow> string_replace_len h dstr 0 new_len real (pos + 4) old_len;
          if \<not> ok then Some (False, (0, 0), real, h)
          else do { real \<leftarrow> marshal_set_uint32 host real pos (of_nat new_len) byte_order;
                    Some (True, (pos + 4 + old_len + 1, pos + 4 + new_len + 1), real, h) } }"

definition set_signature ::
    "heap \<Rightarrow> real_string \<Rightarrow> nat \<Rightarrow> bytes \<Rightarrow> (bool \<times> (nat \<times> nat) \<times> real_string \<times> heap) option" where
  "set_signature h real pos v =
     do { dstr \<leftarrow> string_init_const v;
          old \<leftarrow> string_get_byte real pos;
          let old_len = unat old;
          let new_len = length v;
          (ok, real, h) \<leftarrow> string_replace_len h dstr 0 new_len real (pos + 1) old_len;
          if \<not> ok then Some (False, (0, 0), real, h)
          else do { real \<leftarrow> string_set_byte real pos (of_nat new_len);
                    Some (True, (pos + 1 + old_len + 1, pos + 1 + new_len + 1), real, h) } }"

definition marshal_set_basic ::
    "byte_order \<Rightarrow> heap \<Rightarrow> real_string \<Rightarrow> nat \<Rightarrow> byte \<Rightarrow> DBusBasicValue \<Rightarrow> byte_order \<Rightarrow>
     (bool \<times> (nat \<times> nat) \<times> real_string \<times> heap) option" where
  "marshal_set_basic host h real pos type v byte_order =
     (if type = DBUS_TYPE_BYTE then
        do { b \<leftarrow> as_byt v; real \<leftarrow> string_set_byte real pos b;
             Some (True, (pos + 1, pos + 1), real, h) }
      else if is_two type then
        do { w \<leftarrow> as_u16 v; let pos = align_value pos 2;
             real \<leftarrow> set_2_octets host real pos w byte_order;
             Some (True, (pos + 2, pos + 2), real, h) }
      else if type = DBUS_TYPE_BOOLEAN \<or> is_four type then
        do { w \<leftarrow> as_u32 v; let pos = align_value pos 4;
             real \<leftarrow> set_4_octets host real pos w byte_order;
             Some (True, (pos + 4, pos + 4), real, h) }
      else if is_eight type then
        do { w \<leftarrow> as_u64 v; let pos = align_value pos 8;
             real \<leftarrow> set_8_octets host real pos w byte_order;
             Some (True, (pos + 8, pos + 8), real, h) }
      else if is_string_like type then
        do { s \<leftarrow> as_str v; set_string host h real (align_value pos 4) s byte_order }
      else if type = DBUS_TYPE_SIGNATURE then
        do { s \<leftarrow> as_str v; set_signature h real pos s }
      else None)"

definition marshal_read_uint32 :: "byte_order \<Rightarrow> real_string \<Rightarrow> nat \<Rightarrow> byte_order \<Rightarrow> (32 word \<times> nat) option" where
  "marshal_read_uint32 host real pos byte_order =
     (let pos = align_value pos 4 in
      do { check (pos + 4 \<le> ds_len real);
           data \<leftarrow> get_at real pos 4;
           Some (unpack_uint32 host byte_order data, pos + 4) })"

text \<open>
  The C string at a pointer into the buffer: the bytes up to the first NUL of the block.
\<close>

definition c_string_at :: "real_string \<Rightarrow> nat \<Rightarrow> bytes" where
  "c_string_at real pos = takeWhile (\<lambda>b. b \<noteq> 0) (drop (ds_align_offset real + pos) (ds_block real))"

definition marshal_read_basic ::
    "byte_order \<Rightarrow> real_string \<Rightarrow> nat \<Rightarrow> byte \<Rightarrow> byte_order \<Rightarrow> (DBusBasicValue \<times> nat) option" where
  "marshal_read_basic host real pos type byte_order =
     do { check (dbus_type_is_basic type);
          if type = DBUS_TYPE_BYTE then
            do { b \<leftarrow> string_get_byte real pos; Some (byt b, pos + 1) }
          else if is_two type then
            do { let pos = align_value pos 2;
                 data \<leftarrow> get_at real pos 2;
                 let w = load host data;
                 Some (u16 (if byte_order \<noteq> host then UINT16_SWAP_LE_BE w else w), pos + 2) }
          else if type = DBUS_TYPE_BOOLEAN \<or> is_four type then
            do { let pos = align_value pos 4;
                 data \<leftarrow> get_at real pos 4;
                 let w = load host data;
                 Some (u32 (if byte_order \<noteq> host then UINT32_SWAP_LE_BE w else w), pos + 4) }
          else if is_eight type then
            do { let pos = align_value pos 8;
                 data \<leftarrow> get_at real pos 8;
                 let w = load host data;
                 Some (u64 (if byte_order \<noteq> host then UINT64_SWAP_LE_BE w else w), pos + 8) }
          else if is_string_like type then
            do { (len, pos) \<leftarrow> marshal_read_uint32 host real pos byte_order;
                 Some (str (c_string_at real pos), pos + (unat len + 1)) }
          else if type = DBUS_TYPE_SIGNATURE then
            do { len \<leftarrow> string_get_byte real pos;
                 let pos = pos + 1;
                 Some (str (c_string_at real pos), pos + (unat len + 1)) }
          else None }"

text \<open>
  \<^verbatim>\<open>marshal_2_octets\<close>, \<^verbatim>\<open>marshal_4_octets\<close>, \<^verbatim>\<open>marshal_8_octets\<close>: the value is swapped unless the
  host has the byte order asked for, and inserted as it stands in memory.
\<close>

definition marshal_octets :: "heap \<Rightarrow> real_string \<Rightarrow> nat \<Rightarrow> bytes \<Rightarrow> marshal_result" where
  "marshal_octets h real insert_at octets =
     (let orig_len = ds_len real in
      do { (ok, real, h) \<leftarrow> string_insert_aligned h real insert_at octets;
           Some (ok, insert_at + (ds_len real - orig_len), real, h) })"

definition marshal_2_octets ::
    "byte_order \<Rightarrow> heap \<Rightarrow> real_string \<Rightarrow> nat \<Rightarrow> 16 word \<Rightarrow> byte_order \<Rightarrow> marshal_result" where
  "marshal_2_octets host h real insert_at v byte_order =
     (let v = (if byte_order \<noteq> host then UINT16_SWAP_LE_BE v else v) in
      marshal_octets h real insert_at (store host v))"

definition marshal_4_octets ::
    "byte_order \<Rightarrow> heap \<Rightarrow> real_string \<Rightarrow> nat \<Rightarrow> 32 word \<Rightarrow> byte_order \<Rightarrow> marshal_result" where
  "marshal_4_octets host h real insert_at v byte_order =
     (let v = (if byte_order \<noteq> host then UINT32_SWAP_LE_BE v else v) in
      marshal_octets h real insert_at (store host v))"

definition marshal_8_octets ::
    "byte_order \<Rightarrow> heap \<Rightarrow> real_string \<Rightarrow> nat \<Rightarrow> 64 word \<Rightarrow> byte_order \<Rightarrow> marshal_result" where
  "marshal_8_octets host h real insert_at v byte_order =
     marshal_octets h real insert_at (store host (swap_8_octets host v byte_order))"

datatype marshal_as = MARSHAL_AS_STRING | MARSHAL_AS_SIGNATURE | MARSHAL_AS_BYTE_ARRAY

text \<open>
  \<open>v\<close> is the memory at \<^verbatim>\<open>value\<close>. The \<^verbatim>\<open>oom\<close> exit deletes what was inserted. Where a function
  fails without setting \<^verbatim>\<open>*pos_after\<close> the answer has the insertion point there.
\<close>

definition marshal_len_followed_by_bytes ::
    "marshal_as \<Rightarrow> byte_order \<Rightarrow> heap \<Rightarrow> real_string \<Rightarrow> nat \<Rightarrow> bytes \<Rightarrow> nat \<Rightarrow> byte_order \<Rightarrow> marshal_result" where
  "marshal_len_followed_by_bytes how host h real insert_at v data_len byte_order =
     (let value_len = (if how = MARSHAL_AS_BYTE_ARRAY then data_len else data_len + 1) in
      do { value_str \<leftarrow> string_init_const_len v value_len;
           (ok, pos, real, h) \<leftarrow>
             (if how = MARSHAL_AS_SIGNATURE then
                do { check (data_len \<le> 255);
                     (ok, real, h) \<leftarrow> string_insert_byte h real insert_at (of_nat data_len);
                     Some (ok, if ok then insert_at + 1 else insert_at, real, h) }
              else marshal_4_octets host h real insert_at (of_nat data_len) byte_order);
           if \<not> ok then
             do { real \<leftarrow> string_delete real insert_at (pos - insert_at); Some (False, insert_at, real, h) }
           else do {
             (ok, real, h) \<leftarrow> string_copy_len h value_str 0 value_len real pos;
             if \<not> ok then
               do { real \<leftarrow> string_delete real insert_at (pos - insert_at); Some (False, insert_at, real, h) }
             else Some (True, pos + value_len, real, h) } })"

definition marshal_string ::
    "byte_order \<Rightarrow> heap \<Rightarrow> real_string \<Rightarrow> nat \<Rightarrow> bytes \<Rightarrow> byte_order \<Rightarrow> marshal_result" where
  "marshal_string host h real insert_at v byte_order =
     marshal_len_followed_by_bytes MARSHAL_AS_STRING host h real insert_at (v @ [0]) (length v) byte_order"

definition marshal_signature :: "byte_order \<Rightarrow> heap \<Rightarrow> real_string \<Rightarrow> nat \<Rightarrow> bytes \<Rightarrow> marshal_result" where
  "marshal_signature host h real insert_at v =
     marshal_len_followed_by_bytes MARSHAL_AS_SIGNATURE host h real insert_at (v @ [0]) (length v) host"

definition marshal_write_basic ::
    "byte_order \<Rightarrow> heap \<Rightarrow> real_string \<Rightarrow> nat \<Rightarrow> byte \<Rightarrow> DBusBasicValue \<Rightarrow> byte_order \<Rightarrow> marshal_result" where
  "marshal_write_basic host h real insert_at type v byte_order =
     do { check (dbus_type_is_basic type);
          if type = DBUS_TYPE_BYTE then
            do { b \<leftarrow> as_byt v;
                 (ok, real, h) \<leftarrow> string_insert_byte h real insert_at b;
                 Some (ok, if ok then insert_at + 1 else insert_at, real, h) }
          else if is_two type then
            do { w \<leftarrow> as_u16 v; marshal_2_octets host h real insert_at w byte_order }
          else if type = DBUS_TYPE_BOOLEAN then
            do { w \<leftarrow> as_u32 v;
                 marshal_4_octets host h real insert_at (if w \<noteq> 0 then 1 else 0) byte_order }
          else if is_four type then
            do { w \<leftarrow> as_u32 v; marshal_4_octets host h real insert_at w byte_order }
          else if is_eight type then
            do { w \<leftarrow> as_u64 v; marshal_8_octets host h real insert_at w byte_order }
          else if is_string_like type then
            do { s \<leftarrow> as_str v; marshal_string host h real insert_at s byte_order }
          else if type = DBUS_TYPE_SIGNATURE then
            do { s \<leftarrow> as_str v; marshal_signature host h real insert_at s }
          else None }"

definition marshal_skip_basic :: "byte_order \<Rightarrow> real_string \<Rightarrow> byte \<Rightarrow> byte_order \<Rightarrow> nat \<Rightarrow> nat option" where
  "marshal_skip_basic host real type byte_order pos =
     (if type = DBUS_TYPE_BYTE then Some (pos + 1)
      else if is_two type then Some (align_value pos 2 + 2)
      else if type = DBUS_TYPE_BOOLEAN \<or> is_four type then Some (align_value pos 4 + 4)
      else if is_eight type then Some (align_value pos 8 + 8)
      else if is_string_like type then
        do { (len, pos) \<leftarrow> marshal_read_uint32 host real pos byte_order; Some (pos + (unat len + 1)) }
      else if type = DBUS_TYPE_SIGNATURE then
        do { len \<leftarrow> string_get_byte real pos; Some (pos + (unat len + 2)) }
      else None)"

definition marshal_skip_array :: "byte_order \<Rightarrow> real_string \<Rightarrow> byte \<Rightarrow> byte_order \<Rightarrow> nat \<Rightarrow> nat option" where
  "marshal_skip_array host real element_type byte_order pos =
     do { let i = align_value pos 4;
          (array_len, i) \<leftarrow> marshal_read_uint32 host real i byte_order;
          alignment \<leftarrow> type_get_alignment element_type;
          Some (align_value i alignment + unat array_len) }"

section \<open>Arrays of fixed-size values\<close>

text \<open>\<^verbatim>\<open>_dbus_swap_array\<close>: reversing the bytes of each element in place.\<close>

fun swap_elements :: "nat \<Rightarrow> nat \<Rightarrow> bytes \<Rightarrow> bytes option" where
  "swap_elements 0 alignment d = Some []"
| "swap_elements (Suc n) alignment d =
     do { check (alignment \<le> length d);
          e \<leftarrow> (if alignment = 8 then Some (store LITTLE_ENDIAN (UINT64_SWAP_LE_BE (load LITTLE_ENDIAN (take 8 d))))
               else if alignment = 4 then Some (store LITTLE_ENDIAN (UINT32_SWAP_LE_BE (load LITTLE_ENDIAN (take 4 d))))
               else if alignment = 2 then Some (store LITTLE_ENDIAN (UINT16_SWAP_LE_BE (load LITTLE_ENDIAN (take 2 d))))
               else None);
          rest \<leftarrow> swap_elements n alignment (drop alignment d);
          Some (e @ rest) }"

definition swap_array :: "byte_order \<Rightarrow> real_string \<Rightarrow> nat \<Rightarrow> nat \<Rightarrow> byte_order \<Rightarrow> nat \<Rightarrow> real_string option" where
  "swap_array host real array_start n_elements byte_order alignment =
     do { check (align_value array_start alignment = array_start);
          if byte_order \<noteq> host then
            do { data \<leftarrow> get_at real array_start (n_elements * alignment);
                 data \<leftarrow> swap_elements n_elements alignment data;
                 put_at real array_start data }
          else Some real }"

definition DBUS_MAXIMUM_ARRAY_LENGTH :: nat where
  "DBUS_MAXIMUM_ARRAY_LENGTH = 67108864"

definition marshal_fixed_multi ::
    "byte_order \<Rightarrow> heap \<Rightarrow> real_string \<Rightarrow> nat \<Rightarrow> bytes \<Rightarrow> nat \<Rightarrow> byte_order \<Rightarrow> nat \<Rightarrow> marshal_result" where
  "marshal_fixed_multi host h real insert_at v n_elements byte_order alignment =
     do { check (n_elements \<le> DBUS_MAXIMUM_ARRAY_LENGTH div alignment);
          let old_string_len = ds_len real;
          let len_in_bytes = n_elements * alignment;
          (ok, array_start, real, h) \<leftarrow> string_insert_alignment h real insert_at alignment;
          if \<not> ok then
            do { real \<leftarrow> string_delete real insert_at (ds_len real - old_string_len);
                 Some (False, insert_at, real, h) }
          else do {
            t \<leftarrow> string_init_const_len v len_in_bytes;
            (ok, real, h) \<leftarrow> string_copy h t 0 real array_start;
            if \<not> ok then
              do { real \<leftarrow> string_delete real insert_at (ds_len real - old_string_len);
                   Some (False, insert_at, real, h) }
            else do {
              real \<leftarrow> swap_array host real array_start n_elements byte_order alignment;
              Some (True, array_start + len_in_bytes, real, h) } } }"

definition marshal_1_octets_array :: "heap \<Rightarrow> real_string \<Rightarrow> nat \<Rightarrow> bytes \<Rightarrow> nat \<Rightarrow> marshal_result" where
  "marshal_1_octets_array h real insert_at v n_elements =
     do { value_str \<leftarrow> string_init_const_len v n_elements;
          (ok, real, h) \<leftarrow> string_copy_len h value_str 0 n_elements real insert_at;
          Some (ok, if ok then insert_at + n_elements else insert_at, real, h) }"

definition marshal_write_fixed_multi ::
    "byte_order \<Rightarrow> heap \<Rightarrow> real_string \<Rightarrow> nat \<Rightarrow> byte \<Rightarrow> bytes \<Rightarrow> nat \<Rightarrow> byte_order \<Rightarrow> marshal_result" where
  "marshal_write_fixed_multi host h real insert_at element_type v n_elements byte_order =
     do { check (dbus_type_is_fixed element_type);
          if element_type = DBUS_TYPE_BYTE then marshal_1_octets_array h real insert_at v n_elements
          else if is_two element_type then
            marshal_fixed_multi host h real insert_at v n_elements byte_order 2
          else if element_type = DBUS_TYPE_BOOLEAN \<or> is_four element_type then
            marshal_fixed_multi host h real insert_at v n_elements byte_order 4
          else if is_eight element_type then
            marshal_fixed_multi host h real insert_at v n_elements byte_order 8
          else None }"

section \<open>The wire format of a basic value\<close>

definition align_of :: "byte \<Rightarrow> nat" where
  "align_of t = (case type_get_alignment t of None \<Rightarrow> 1 | Some a \<Rightarrow> a)"

text \<open>The bytes of a value without the padding before it, and when the value fits its type.\<close>

fun encode :: "byte_order \<Rightarrow> byte \<Rightarrow> DBusBasicValue \<Rightarrow> bytes" where
  "encode b t (byt v) = [v]"
| "encode b t (u16 v) = store b v"
| "encode b t (u32 v) = store b (if t = DBUS_TYPE_BOOLEAN then if v \<noteq> 0 then 1 else 0 else v)"
| "encode b t (u64 v) = store b v"
| "encode b t (str s) =
     (if t = DBUS_TYPE_SIGNATURE then [of_nat (length s)]
      else store b (of_nat (length s) :: 32 word)) @ s @ [0]"

fun fits :: "byte \<Rightarrow> DBusBasicValue \<Rightarrow> bool" where
  "fits t (byt v) \<longleftrightarrow> t = DBUS_TYPE_BYTE"
| "fits t (u16 v) \<longleftrightarrow> is_two t"
| "fits t (u32 v) \<longleftrightarrow> t = DBUS_TYPE_BOOLEAN \<or> is_four t"
| "fits t (u64 v) \<longleftrightarrow> is_eight t"
| "fits t (str s) \<longleftrightarrow> 0 \<notin> set s \<and>
     (is_string_like t \<and> length s < STRING_MAX_LENGTH \<or> t = DBUS_TYPE_SIGNATURE \<and> length s \<le> 255)"

text \<open>Booleans are written as 0 or 1.\<close>

fun normal :: "byte \<Rightarrow> DBusBasicValue \<Rightarrow> DBusBasicValue" where
  "normal t (u32 v) = u32 (if t = DBUS_TYPE_BOOLEAN then if v \<noteq> 0 then 1 else 0 else v)"
| "normal t v = v"

definition padding :: "nat \<Rightarrow> nat \<Rightarrow> bytes" where
  "padding pos a = replicate (align_value pos a - pos) 0"

lemma align_value_1 [simp]: "align_value n 1 = n" "align_value n (Suc 0) = n"
  by (simp_all add: align_value_def)

lemma padding_1 [simp]: "padding pos 1 = []" "padding pos (Suc 0) = []"
  by (simp_all add: padding_def)

lemma length_padding: "0 < a \<Longrightarrow> pos + length (padding pos a) = align_value pos a"
  using align_value_bounds(1) [of a pos] by (simp add: padding_def)

lemma align_value_idem [simp]: "0 < a \<Longrightarrow> align_value (align_value n a) a = align_value n a"
proof -
  assume "0 < a"
  then obtain k where "align_value n a = a * k" using align_value_bounds(3) by (meson dvdE)
  moreover have "(a * k + a - 1) div a = k"
    by (rule div_nat_eqI) (use \<open>0 < a\<close> in \<open>simp_all add: algebra_simps\<close>)
  then have "align_value (a * k) a = a * k" by (simp add: align_value_def mult.commute)
  ultimately show ?thesis by simp
qed

definition splice :: "bytes \<Rightarrow> nat \<Rightarrow> bytes \<Rightarrow> bytes" where
  "splice C i xs = take i C @ xs @ drop i C"

text \<open>
  What the marshalling functions answer: the bytes were inserted and the position is after them,
  or an allocation failed or the string would be too long, and nothing changed.
\<close>

definition inserts :: "heap \<Rightarrow> marshal_result \<Rightarrow> bytes \<Rightarrow> nat \<Rightarrow> bytes \<Rightarrow> bool" where
  "inserts h r C i xs \<longleftrightarrow>
     (\<exists>ok pos real h'. r = Some (ok, pos, real, h') \<and> set h' \<subseteq> set h \<and>
        (if ok then rep real (splice C i xs) \<and> pos = i + length xs
         else pos = i \<and> rep real C \<and>
           (Fail \<in> set h \<or> STRING_MAX_LENGTH < length C + length xs)))"

lemma insertsI_ok:
  "rep real (splice C i xs) \<Longrightarrow> pos = i + length xs \<Longrightarrow> set h' \<subseteq> set h \<Longrightarrow>
   inserts h (Some (True, pos, real, h')) C i xs"
  by (auto simp: inserts_def)

lemma insertsI_fail:
  "rep real C \<Longrightarrow> set h' \<subseteq> set h \<Longrightarrow> Fail \<in> set h \<or> STRING_MAX_LENGTH < length C + length xs \<Longrightarrow>
   inserts h (Some (False, i, real, h')) C i xs"
  by (auto simp: inserts_def)

lemma outcomeE:
  assumes "outcome h r C C'"
  obtains (ok) real h' where "r = Some (True, real, h')" "rep real C'" "set h' \<subseteq> set h"
  | (fails) real h' where "r = Some (False, real, h')" "rep real C" "set h' \<subseteq> set h"
      "Fail \<in> set h \<or> STRING_MAX_LENGTH < length C'"
  using assms unfolding outcome_def by (metis (full_types))

lemma length_splice [simp]: "i \<le> length C \<Longrightarrow> length (splice C i xs) = length C + length xs"
  by (simp add: splice_def)

lemma marshal_octets_inserts:
  assumes "rep real C" "i \<le> length C" "octets \<noteq> []" "length octets \<le> 8"
  shows "inserts h (marshal_octets h real i octets) C i (padding i (length octets) @ octets)"
proof -
  have "outcome h (string_insert_aligned h real i octets) C (splice C i (padding i (length octets) @ octets))"
    using string_insert_aligned_outcome [OF assms, of h] by (simp add: splice_def padding_def)
  then show ?thesis
  proof (cases rule: outcomeE)
    case (ok real' h')
    with assms(1,2) rep_length [OF ok(2)] rep_length [OF assms(1)] show ?thesis
      by (auto simp: marshal_octets_def Let_def intro!: insertsI_ok)
  next
    case (fails real' h')
    with assms(2) rep_length [OF fails(2)] rep_length [OF assms(1)] show ?thesis
      by (auto simp: marshal_octets_def Let_def intro!: insertsI_fail)
  qed
qed

lemma store_swapped:
  "store host (if byte_order \<noteq> host then UINT16_SWAP_LE_BE v else v) = store byte_order v"
  "store host (if byte_order \<noteq> host then UINT32_SWAP_LE_BE w else w) = store byte_order w"
  "store host (swap_8_octets host x byte_order) = store byte_order x"
  by (cases host; cases byte_order;
      simp add: store_def swap16 swap32 swap64 le_bytes_reversed swap_8_octets_def)+

lemma store_ne [simp]:
  "store b (v :: 16 word) \<noteq> []" "store b (w :: 32 word) \<noteq> []" "store b (x :: 64 word) \<noteq> []"
  by (subst length_0_conv [symmetric], simp)+

lemma marshal_2_octets_inserts:
  "rep real C \<Longrightarrow> i \<le> length C \<Longrightarrow>
   inserts h (marshal_2_octets host h real i v b) C i (padding i 2 @ store b v)"
  using marshal_octets_inserts [of real C i "store b v" h]
  by (simp add: marshal_2_octets_def store_swapped Let_def)

lemma marshal_4_octets_inserts:
  "rep real C \<Longrightarrow> i \<le> length C \<Longrightarrow>
   inserts h (marshal_4_octets host h real i v b) C i (padding i 4 @ store b v)"
  using marshal_octets_inserts [of real C i "store b v" h]
  by (simp add: marshal_4_octets_def store_swapped Let_def)

lemma marshal_8_octets_inserts:
  "rep real C \<Longrightarrow> i \<le> length C \<Longrightarrow>
   inserts h (marshal_8_octets host h real i v b) C i (padding i 8 @ store b v)"
  using marshal_octets_inserts [of real C i "store b v" h]
  by (simp add: marshal_8_octets_def store_swapped Let_def)

text \<open>A constant string can be read.\<close>

lemma init_const_len_holds:
  "n \<le> length v \<Longrightarrow> n \<le> STRING_MAX_LENGTH \<Longrightarrow>
   \<exists>s. string_init_const_len v n = Some s \<and> holds s (take n v)"
  by (simp add: string_init_const_len_def holds_def ALLOCATION_PADDING_def)
    (metis append_Nil append_take_drop_id list.size(3))

lemma splice_delete:
  "i \<le> length C \<Longrightarrow> take i (splice C i xs) @ drop (i + length xs) (splice C i xs) = C"
  by (simp add: splice_def)

lemma splice_splice:
  "i \<le> length C \<Longrightarrow> splice (splice C i xs) (i + length xs) ys = splice C i (xs @ ys)"
  by (simp add: splice_def)

lemma insertsE:
  assumes "inserts h r C i xs"
  obtains (ok) real h' where "r = Some (True, i + length xs, real, h')" "rep real (splice C i xs)"
    "set h' \<subseteq> set h"
  | (fails) real h' where "r = Some (False, i, real, h')" "rep real C" "set h' \<subseteq> set h"
      "Fail \<in> set h \<or> STRING_MAX_LENGTH < length C + length xs"
  using assms unfolding inserts_def by (metis (full_types))

text \<open>
  The second half of \<^verbatim>\<open>marshal_len_followed_by_bytes\<close>: the length has been inserted, the data is
  copied behind it; when that fails the length is deleted again.
\<close>

lemma copy_after_length:
  assumes "rep real (splice C i xs)" "i \<le> length C" "holds src S" "set h' \<subseteq> set h"
  shows "inserts h
    (do { (ok, real, h) \<leftarrow> string_copy_len h' src 0 (length S) real (i + length xs);
          if \<not> ok then do { real \<leftarrow> string_delete real i (i + length xs - i);
                            Some (False, i, real, h) }
          else Some (True, i + length xs + length S, real, h) })
    C i (xs @ S)"
proof -
  have "outcome h' (string_copy_len h' src 0 (length S) real (i + length xs)) (splice C i xs)
      (splice (splice C i xs) (i + length xs) S)"
    using string_copy_len_outcome [OF assms(3,1), of "i + length xs" 0 "length S" h'] assms(2)
    by (simp add: splice_def)
  then show ?thesis
  proof (cases rule: outcomeE)
    case (ok real' h1)
    with assms(2,4) show ?thesis by (auto simp: splice_splice intro!: insertsI_ok)
  next
    case (fails real' h1)
    then obtain real2 where "string_delete real' i (length xs) = Some real2" "rep real2 C"
      using string_delete_rep [OF fails(2), of i "length xs"] assms(2) splice_delete by auto
    with fails assms(2,4) show ?thesis by (auto intro!: insertsI_fail)
  qed
qed

lemma marshal_string_inserts:
  assumes "rep real C" "i \<le> length C" "length s < STRING_MAX_LENGTH"
  shows "inserts h (marshal_string host h real i s b) C i
    (padding i 4 @ store b (of_nat (length s) :: 32 word) @ s @ [0])"
proof -
  let ?xs = "padding i 4 @ store b (of_nat (length s) :: 32 word)"
  obtain src where src: "string_init_const_len (s @ [0]) (length s + 1) = Some src" "holds src (s @ [0])"
    using init_const_len_holds [of "length s + 1" "s @ [0]"] assms(3) by auto
  have "inserts h (marshal_4_octets host h real i (of_nat (length s)) b) C i ?xs"
    using marshal_4_octets_inserts [OF assms(1,2)] .
  then show ?thesis
  proof (cases rule: insertsE)
    case (ok real' h')
    with copy_after_length [OF ok(2) assms(2) src(2) ok(3)] src(1) show ?thesis
      by (simp add: marshal_string_def marshal_len_followed_by_bytes_def cong: if_cong)
  next
    case (fails real' h')
    moreover from string_delete_rep [OF fails(2), of i 0] assms(2)
    obtain real2 where "string_delete real' i 0 = Some real2" "rep real2 C" by auto
    ultimately show ?thesis
      using src(1)
      by (auto simp: marshal_string_def marshal_len_followed_by_bytes_def intro!: insertsI_fail)
  qed
qed

lemma marshal_signature_inserts:
  assumes "rep real C" "i \<le> length C" "length s \<le> 255"
  shows "inserts h (marshal_signature host h real i s) C i ([of_nat (length s)] @ s @ [0])"
proof -
  let ?xs = "[of_nat (length s)] :: bytes"
  obtain src where src: "string_init_const_len (s @ [0]) (length s + 1) = Some src" "holds src (s @ [0])"
    using init_const_len_holds [of "length s + 1" "s @ [0]"] assms(3) by (auto simp: max_length)
  have "outcome h (string_insert_byte h real i (of_nat (length s))) C (splice C i ?xs)"
    using string_insert_byte_outcome [OF assms(1,2)] by (simp add: splice_def)
  then show ?thesis
  proof (cases rule: outcomeE)
    case (ok real' h')
    with copy_after_length [OF ok(2) assms(2) src(2) ok(3)] src(1) assms(3) show ?thesis
      by (simp add: marshal_signature_def marshal_len_followed_by_bytes_def cong: if_cong)
  next
    case (fails real' h')
    moreover from string_delete_rep [OF fails(2), of i 0] assms(2)
    obtain real2 where "string_delete real' i 0 = Some real2" "rep real2 C" by auto
    ultimately show ?thesis
      using src(1) assms(2,3)
      by (auto simp: marshal_signature_def marshal_len_followed_by_bytes_def intro!: insertsI_fail)
  qed
qed

lemma string_insert_byte_inserts:
  assumes "rep real C" "i \<le> length C"
  shows "inserts h (do { (ok, real, h) \<leftarrow> string_insert_byte h real i b;
    Some (ok, if ok then i + 1 else i, real, h) }) C i [b]"
proof -
  have "outcome h (string_insert_byte h real i b) C (splice C i [b])"
    using string_insert_byte_outcome [OF assms] by (simp add: splice_def)
  then show ?thesis
    by (cases rule: outcomeE) (use assms in \<open>auto intro!: insertsI_ok insertsI_fail\<close>)
qed

lemmas type_code_defs = dbus_type_is_basic_def dbus_type_is_valid_def TYPE_IS_CONTAINER_def

text \<open>
  Writing a basic value inserts the padding to its alignment and its bytes, in the byte order asked
  for on every host; when it fails, the buffer holds what it held before.
\<close>

lemma marshal_write_basic_inserts:
  assumes "rep real C" "i \<le> length C" "fits t v"
  shows "inserts h (marshal_write_basic host h real i t v b) C i
    (padding i (align_of t) @ encode b t v)"
proof (cases v)
  case (byt x)
  with assms string_insert_byte_inserts [OF assms(1,2)] show ?thesis
    by (simp add: marshal_write_basic_def type_code_defs align_of_def type_get_alignment_def)
next
  case (u16 x)
  with assms marshal_2_octets_inserts [OF assms(1,2)] show ?thesis
    by (auto simp: marshal_write_basic_def type_code_defs align_of_def type_get_alignment_def)
next
  case (u32 x)
  with assms marshal_4_octets_inserts [OF assms(1,2)] show ?thesis
    by (auto simp: marshal_write_basic_def type_code_defs align_of_def type_get_alignment_def)
next
  case (u64 x)
  with assms marshal_8_octets_inserts [OF assms(1,2)] show ?thesis
    by (auto simp: marshal_write_basic_def type_code_defs align_of_def type_get_alignment_def)
next
  case (str x)
  with assms marshal_string_inserts [OF assms(1,2)] marshal_signature_inserts [OF assms(1,2)] show ?thesis
    by (auto simp: marshal_write_basic_def type_code_defs align_of_def type_get_alignment_def)
qed

section \<open>Reading back\<close>

lemma get_at_padding:
  assumes "holds real (X @ padding (length X) a @ xs @ Y)" "0 < a" "length xs = n"
  shows "get_at real (align_value (length X) a) n = Some xs"
  by (rule get_at_holds [of _ "X @ padding (length X) a" xs Y])
    (use assms length_padding [of a "length X"] in simp_all)

lemma c_string_at_holds:
  assumes "holds real (X @ s @ 0 # Y)" "pos = length X" "0 \<notin> set s"
  shows "c_string_at real pos = s"
proof -
  obtain A R where "ds_block real = A @ (X @ s @ 0 # Y) @ R" "length A = ds_align_offset real"
    using assms(1) by (auto simp: holds_def)
  with assms(2,3) show ?thesis
    by (auto simp: c_string_at_def takeWhile_append)
qed

lemma swapped_load:
  "length data = 2 \<Longrightarrow> (if b \<noteq> host then UINT16_SWAP_LE_BE (load host data) else load host data) = load b data"
  "length data = 4 \<Longrightarrow> (if b \<noteq> host then UINT32_SWAP_LE_BE (load host data) else load host data) = load b data"
  "length data = 8 \<Longrightarrow> (if b \<noteq> host then UINT64_SWAP_LE_BE (load host data) else load host data) = load b data"
  by (cases host; cases b;
      simp add: load_def swap16 swap32 swap64 of_le_reversed le_bytes_of_le)+

lemma read_uint32_holds:
  assumes "holds real (X @ padding (length X) 4 @ store b (v :: 32 word) @ Y)"
  shows "marshal_read_uint32 host real (length X) b = Some (v, align_value (length X) 4 + 4)"
proof -
  have "align_value (length X) 4 + 4 \<le> ds_len real"
    using assms length_padding [of 4 "length X"] by (simp add: holds_def)
  with get_at_padding [OF assms, of 4] show ?thesis
    by (simp add: marshal_read_uint32_def unpack_uint32_eq load_store)
qed

text \<open>A value in the buffer is read back, up to the normal form of booleans, on every host.\<close>

lemma read_basic_holds:
  assumes "holds real (X @ padding (length X) (align_of t) @ encode b t v @ Y)" "fits t v"
  shows "marshal_read_basic host real (length X) t b =
    Some (normal t v, length X + length (padding (length X) (align_of t) @ encode b t v))"
proof (cases v)
  case (byt x)
  with assms string_get_byte_holds [of real _ "length X"] show ?thesis
    by (simp add: marshal_read_basic_def type_code_defs align_of_def type_get_alignment_def)
next
  case (u16 x)
  with assms(2) have a: "align_of t = 2" by (auto simp: align_of_def type_get_alignment_def)
  with u16 assms get_at_padding [of real X 2 "store b x" Y 2] length_padding [of 2 "length X"] show ?thesis
    by (auto simp: marshal_read_basic_def type_code_defs swapped_load load_store Let_def)
next
  case (u32 x)
  with assms(2) have a: "align_of t = 4" by (auto simp: align_of_def type_get_alignment_def)
  with u32 assms get_at_padding [of real X 4 "encode b t v" Y 4] length_padding [of 4 "length X"] show ?thesis
    by (auto simp: marshal_read_basic_def type_code_defs swapped_load load_store Let_def)
next
  case (u64 x)
  with assms(2) have a: "align_of t = 8" by (auto simp: align_of_def type_get_alignment_def)
  with u64 assms get_at_padding [of real X 8 "store b x" Y 8] length_padding [of 8 "length X"] show ?thesis
    by (auto simp: marshal_read_basic_def type_code_defs swapped_load load_store Let_def)
next
  case (str s)
  show ?thesis
  proof (cases "t = DBUS_TYPE_SIGNATURE")
    case True
    then have a: "align_of t = 1" by (simp add: align_of_def type_get_alignment_def)
    have "string_get_byte real (length X) = Some (of_nat (length s))"
      using assms(1) string_get_byte_holds [of real _ "length X"] str True a by simp
    moreover have "c_string_at real (length X + 1) = s"
      using assms str True a by (intro c_string_at_holds [of _ "X @ [of_nat (length s)]" s Y]) auto
    moreover have "unat (of_nat (length s) :: byte) = length s"
      using assms(2) str True by (simp add: unsigned_of_nat take_bit_nat_eq_self)
    ultimately show ?thesis
      using True str a by (simp add: marshal_read_basic_def type_code_defs)
  next
    case False
    with assms(2) str have t: "is_string_like t" "0 \<notin> set s" "length s < STRING_MAX_LENGTH" by auto
    then have a: "align_of t = 4" by (auto simp: align_of_def type_get_alignment_def)
    let ?l = "of_nat (length s) :: 32 word"
    have h: "holds real (X @ padding (length X) 4 @ store b ?l @ s @ 0 # Y)"
      using assms(1) str False a by simp
    have "c_string_at real (align_value (length X) 4 + 4) = s"
      using h t(2) length_padding [of 4 "length X"]
      by (intro c_string_at_holds [of _ "X @ padding (length X) 4 @ store b ?l" s Y]) auto
    moreover have "unat ?l = length s"
      using t(3) by (simp add: unsigned_of_nat take_bit_nat_eq_self max_length)
    ultimately show ?thesis
      using t(1) str False a read_uint32_holds [OF h] length_padding [of 4 "length X"]
      by (auto simp: marshal_read_basic_def type_code_defs)
  qed
qed

lemma skip_basic_read:
  "marshal_read_basic host real pos t b = Some (v, pos') \<Longrightarrow>
   marshal_skip_basic host real t b pos = Some pos'"
  by (auto simp: marshal_read_basic_def marshal_skip_basic_def Let_def split: if_splits Option.bind_splits)

text \<open>
  C22. A basic value written at a position is read back from that position on every host,
  booleans as 0 or 1, and reading and skipping both end where the writer said the value ends.
\<close>

theorem marshal_basic_roundtrip:
  assumes "rep real C" "i \<le> length C" "fits t v"
    and "marshal_write_basic host h real i t v b = Some (True, pos, real', h')"
  shows "marshal_read_basic host' real' i t b = Some (normal t v, pos) \<and>
    marshal_skip_basic host' real' t b i = Some pos"
proof -
  have "rep real' (splice C i (padding i (align_of t) @ encode b t v))"
    "pos = i + length (padding i (align_of t) @ encode b t v)"
    using marshal_write_basic_inserts [OF assms(1-3), of h host b] assms(4)
    by (auto simp: inserts_def)
  moreover have "length (take i C) = i" using assms(2) by simp
  ultimately have "marshal_read_basic host' real' i t b = Some (normal t v, pos)"
    using read_basic_holds [of real' "take i C" t b v "drop i C" host'] assms(3) rep_holds
    by (simp add: splice_def)
  then show ?thesis using skip_basic_read by blast
qed

lemma padding_1_4: "padding (Suc 0) 4 = [0, 0, 0]"
  by (simp add: padding_def align_value_def numeral_3_eq_3)

theorem marshal_basic_roundtrip_witness:
  "\<exists>pos real' h'.
     marshal_write_basic LITTLE_ENDIAN [] (buffer_of (bytes ''a'')) 1 DBUS_TYPE_UINT32 (u32 7) BIG_ENDIAN =
       Some (True, pos, real', h') \<and>
     marshal_read_basic BIG_ENDIAN real' 1 DBUS_TYPE_UINT32 BIG_ENDIAN = Some (u32 7, pos) \<and> pos = 8"
proof -
  have r: "rep (buffer_of (bytes ''a'')) (bytes ''a'')"
    by (rule rep_buffer_of) (simp add: max_length)
  have a: "padding (Suc 0) (align_of DBUS_TYPE_UINT32) = [0, 0, 0]"
    using padding_1_4 by (simp add: align_of_def type_get_alignment_def)
  from marshal_write_basic_inserts [OF r, of 1 DBUS_TYPE_UINT32 "u32 7" "[]" LITTLE_ENDIAN BIG_ENDIAN]
  obtain pos real' h' where w: "marshal_write_basic LITTLE_ENDIAN [] (buffer_of (bytes ''a'')) 1
      DBUS_TYPE_UINT32 (u32 7) BIG_ENDIAN = Some (True, pos, real', h')" "pos = 8"
    by (auto simp: inserts_def max_length a split: if_splits)
  with marshal_basic_roundtrip [OF r _ _ w(1), of BIG_ENDIAN] show ?thesis by simp
qed

text \<open>
  C21. Writing a basic value into a buffer inserts the NUL padding to its alignment and its wire
  format, the same on every host, and reports the position after it; on failure the buffer holds
  what it held before, also when the length had already been inserted.
\<close>

theorem marshal_write_basic_spec:
  assumes "rep real C" "i \<le> length C" "fits t v"
  shows "\<exists>ok pos real' h'. marshal_write_basic host h real i t v b = Some (ok, pos, real', h') \<and>
    (if ok
     then rep real' (take i C @ padding i (align_of t) @ encode b t v @ drop i C) \<and>
       pos = i + length (padding i (align_of t) @ encode b t v)
     else rep real' C \<and> (Fail \<in> set h \<or>
       STRING_MAX_LENGTH < length C + length (padding i (align_of t) @ encode b t v)))"
  using marshal_write_basic_inserts [OF assms, of h host b]
  unfolding inserts_def splice_def by (metis (full_types) append.assoc)

theorem marshal_write_basic_witness:
  "\<exists>ok pos real' h'.
     marshal_write_basic LITTLE_ENDIAN [] (buffer_of (bytes ''a'')) 1 DBUS_TYPE_STRING (str (bytes ''hi'')) BIG_ENDIAN =
       Some (ok, pos, real', h') \<and> ok \<and> rep real' (bytes ''a'' @ [0, 0, 0, 0, 0, 0, 2] @ bytes ''hi'' @ [0]) \<and> pos = 11"
proof -
  have r: "rep (buffer_of (bytes ''a'')) (bytes ''a'')"
    by (rule rep_buffer_of) (simp add: max_length)
  have a: "padding (Suc 0) (align_of DBUS_TYPE_STRING) = [0, 0, 0]"
    using padding_1_4 by (simp add: align_of_def type_get_alignment_def)
  have s: "store BIG_ENDIAN (2 :: 32 word) = [0, 0, 0, 2]" by code_simp
  from marshal_write_basic_spec [OF r, of 1 DBUS_TYPE_STRING "str (bytes ''hi'')" LITTLE_ENDIAN "[]" BIG_ENDIAN]
  show ?thesis by (auto simp: max_length a s split: if_splits)
qed

end
