(* ===== verification/TypeReader.thy ===== *)
theory TypeReader
  imports Marshal
begin

text \<open>
  Type readers, \<^verbatim>\<open>dbus/dbus-marshal-recursive.c\<close>: an iterator over a signature that steps over the
  marshalled values at the same time, or over the signature alone. The virtual methods of a
  reader class are a case distinction on the class. Reading past a string, recursing where it is
  not allowed and every failed assertion is \<open>None\<close>.
\<close>

section \<open>Definitions\<close>

datatype reader_class =
    body_reader_class | body_types_only_reader_class
  | struct_reader_class | struct_types_only_reader_class
  | dict_entry_reader_class | dict_entry_types_only_reader_class
  | array_reader_class | array_types_only_reader_class
  | variant_reader_class

fun types_only :: "reader_class \<Rightarrow> bool" where
  "types_only body_types_only_reader_class = True"
| "types_only struct_types_only_reader_class = True"
| "types_only dict_entry_types_only_reader_class = True"
| "types_only array_types_only_reader_class = True"
| "types_only _ = False"

text \<open>
  \<^verbatim>\<open>DBusTypeReader\<close>. The signature is the bytes of \<^verbatim>\<open>type_str\<close> before its NUL; a types-only
  reader has no \<^verbatim>\<open>value_str\<close>.
\<close>

record type_reader =
  tr_klass :: reader_class
  tr_byte_order :: byte_order
  tr_finished :: bool
  tr_array_len_offset :: nat
  tr_type_str :: bytes
  tr_type_pos :: nat
  tr_value_str :: "real_string option"
  tr_value_pos :: nat
  tr_start_pos :: nat

abbreviation INT_MAX :: nat where "INT_MAX \<equiv> 2147483647"

definition reader_init ::
    "reader_class \<Rightarrow> byte_order \<Rightarrow> bytes \<Rightarrow> nat \<Rightarrow> real_string option \<Rightarrow> nat \<Rightarrow> type_reader" where
  "reader_init klass byte_order type_str type_pos value_str value_pos =
     \<lparr>tr_klass = klass, tr_byte_order = byte_order, tr_finished = False, tr_array_len_offset = 0,
      tr_type_str = type_str, tr_type_pos = type_pos, tr_value_str = value_str,
      tr_value_pos = value_pos, tr_start_pos = 0\<rparr>"

definition type_reader_init :: "byte_order \<Rightarrow> bytes \<Rightarrow> nat \<Rightarrow> real_string \<Rightarrow> nat \<Rightarrow> type_reader" where
  "type_reader_init byte_order type_str type_pos value_str value_pos =
     reader_init body_reader_class byte_order type_str type_pos (Some value_str) value_pos"

definition type_reader_init_types_only :: "byte_order \<Rightarrow> bytes \<Rightarrow> nat \<Rightarrow> type_reader" where
  "type_reader_init_types_only host type_str type_pos =
     reader_init body_types_only_reader_class host type_str type_pos None INT_MAX"

definition element_type_get_alignment :: "bytes \<Rightarrow> nat \<Rightarrow> nat option" where
  "element_type_get_alignment type_str pos = type_get_alignment (first_type_in_signature type_str pos)"

definition base_reader_recurse :: "reader_class \<Rightarrow> type_reader \<Rightarrow> type_reader" where
  "base_reader_recurse klass parent =
     reader_init klass (tr_byte_order parent) (tr_type_str parent) (tr_type_pos parent)
       (tr_value_str parent) (tr_value_pos parent)"

definition struct_or_dict_entry_types_only_reader_recurse ::
    "reader_class \<Rightarrow> type_reader \<Rightarrow> type_reader option" where
  "struct_or_dict_entry_types_only_reader_recurse klass parent =
     (let sub = base_reader_recurse klass parent in
      do { check (byte_at (tr_type_str sub) (tr_type_pos sub) = STRUCT_BEGIN \<or>
                  byte_at (tr_type_str sub) (tr_type_pos sub) = DICT_ENTRY_BEGIN);
           Some (sub\<lparr>tr_type_pos := tr_type_pos sub + 1\<rparr>) })"

definition struct_or_dict_entry_reader_recurse ::
    "reader_class \<Rightarrow> type_reader \<Rightarrow> type_reader option" where
  "struct_or_dict_entry_reader_recurse klass parent =
     do { sub \<leftarrow> struct_or_dict_entry_types_only_reader_recurse klass parent;
          Some (sub\<lparr>tr_value_pos := align_value (tr_value_pos sub) 8\<rparr>) }"

definition array_types_only_reader_recurse :: "reader_class \<Rightarrow> type_reader \<Rightarrow> type_reader" where
  "array_types_only_reader_recurse klass parent =
     (let sub = base_reader_recurse klass parent in
      sub\<lparr>tr_type_pos := tr_type_pos sub + 1, tr_start_pos := INT_MAX, tr_array_len_offset := 7\<rparr>)"

text \<open>\<^verbatim>\<open>ARRAY_READER_LEN_POS\<close>, and the length of the array as a byte count.\<close>

definition ARRAY_READER_LEN_POS :: "type_reader \<Rightarrow> nat" where
  "ARRAY_READER_LEN_POS reader = tr_start_pos reader - tr_array_len_offset reader - 4"

definition array_reader_get_array_len :: "byte_order \<Rightarrow> type_reader \<Rightarrow> nat option" where
  "array_reader_get_array_len host reader =
     (let len_pos = ARRAY_READER_LEN_POS reader in
      do { check (tr_array_len_offset reader + 4 \<le> tr_start_pos reader \<and> align_value len_pos 4 = len_pos);
           value_str \<leftarrow> tr_value_str reader;
           check (len_pos + 4 \<le> ds_len value_str);
           data \<leftarrow> get_at value_str len_pos 4;
           check (tr_start_pos reader - len_pos - 4 < 8);
           Some (unat (unpack_uint32 host (tr_byte_order reader) data)) })"

definition array_reader_recurse :: "reader_class \<Rightarrow> type_reader \<Rightarrow> type_reader option" where
  "array_reader_recurse klass parent =
     (let sub = array_types_only_reader_recurse klass parent;
          len_pos = align_value (tr_value_pos sub) 4 in
      do { alignment \<leftarrow> element_type_get_alignment (tr_type_str sub) (tr_type_pos sub);
           let value_pos = align_value (len_pos + 4) alignment;
           check (value_pos - (len_pos + 4) < 8);
           Some (sub\<lparr>tr_value_pos := value_pos, tr_start_pos := value_pos,
             tr_array_len_offset := value_pos - (len_pos + 4)\<rparr>) })"

text \<open>
  The signature of a variant stands in the value: its length byte, the signature, a NUL. The
  bytes of \<^verbatim>\<open>value_str\<close> become the type string.
\<close>

definition variant_reader_recurse :: "reader_class \<Rightarrow> type_reader \<Rightarrow> type_reader option" where
  "variant_reader_recurse klass parent =
     (let sub = base_reader_recurse klass parent in
      do { value_str \<leftarrow> tr_value_str sub;
           sig_len \<leftarrow> string_get_byte value_str (tr_value_pos sub);
           type_str \<leftarrow> get_at value_str 0 (ds_len value_str);
           let type_pos = tr_value_pos sub + 1;
           contained_alignment \<leftarrow> type_get_alignment (first_type_in_signature type_str type_pos);
           Some (sub\<lparr>tr_type_str := type_str, tr_type_pos := type_pos,
             tr_value_pos := align_value (type_pos + unat sig_len + 1) contained_alignment\<rparr>) })"

definition array_reader_check_finished :: "byte_order \<Rightarrow> type_reader \<Rightarrow> bool option" where
  "array_reader_check_finished host reader =
     do { array_len \<leftarrow> array_reader_get_array_len host reader;
          let end_pos = tr_start_pos reader + array_len;
          check (tr_value_pos reader \<le> end_pos \<and> tr_start_pos reader \<le> tr_value_pos reader);
          Some (tr_value_pos reader = end_pos) }"

definition type_reader_get_current_type :: "byte_order \<Rightarrow> type_reader \<Rightarrow> byte option" where
  "type_reader_get_current_type host reader =
     do { finished \<leftarrow> (if tr_finished reader then Some True
                       else if tr_klass reader = array_reader_class
                       then array_reader_check_finished host reader else Some False);
          let t = (if finished then DBUS_TYPE_INVALID
                   else first_type_in_signature (tr_type_str reader) (tr_type_pos reader));
          check (t \<noteq> STRUCT_END \<and> t \<noteq> STRUCT_BEGIN \<and> t \<noteq> DICT_ENTRY_END \<and> t \<noteq> DICT_ENTRY_BEGIN);
          Some t }"

definition type_reader_get_element_type :: "byte_order \<Rightarrow> type_reader \<Rightarrow> byte option" where
  "type_reader_get_element_type host reader =
     do { t \<leftarrow> type_reader_get_current_type host reader;
          check (t = DBUS_TYPE_ARRAY);
          Some (first_type_in_signature (tr_type_str reader) (tr_type_pos reader + 1)) }"

definition type_reader_recurse :: "type_reader \<Rightarrow> type_reader option" where
  "type_reader_recurse reader =
     (let t = first_type_in_signature (tr_type_str reader) (tr_type_pos reader);
          types = types_only (tr_klass reader) in
      if t = DBUS_TYPE_STRUCT then
        (if types then struct_or_dict_entry_types_only_reader_recurse struct_types_only_reader_class reader
         else struct_or_dict_entry_reader_recurse struct_reader_class reader)
      else if t = DBUS_TYPE_DICT_ENTRY then
        (if types then struct_or_dict_entry_types_only_reader_recurse dict_entry_types_only_reader_class reader
         else struct_or_dict_entry_reader_recurse dict_entry_reader_class reader)
      else if t = DBUS_TYPE_ARRAY then
        (if types then Some (array_types_only_reader_recurse array_types_only_reader_class reader)
         else array_reader_recurse array_reader_class reader)
      else if t = DBUS_TYPE_VARIANT \<and> \<not> types then variant_reader_recurse variant_reader_class reader
      else None)"

text \<open>Stepping over an array or a basic value.\<close>

definition skip_array_value :: "byte_order \<Rightarrow> type_reader \<Rightarrow> type_reader option" where
  "skip_array_value host reader =
     do { value_str \<leftarrow> tr_value_str reader;
          pos \<leftarrow> marshal_skip_array host value_str
            (first_type_in_signature (tr_type_str reader) (tr_type_pos reader + 1))
            (tr_byte_order reader) (tr_value_pos reader);
          Some (reader\<lparr>tr_value_pos := pos\<rparr>) }"

definition skip_basic_value :: "byte_order \<Rightarrow> byte \<Rightarrow> type_reader \<Rightarrow> type_reader option" where
  "skip_basic_value host current_type reader =
     do { value_str \<leftarrow> tr_value_str reader;
          pos \<leftarrow> marshal_skip_basic host value_str current_type (tr_byte_order reader) (tr_value_pos reader);
          Some (reader\<lparr>tr_value_pos := pos\<rparr>) }"

definition skip_one_complete_type :: "type_reader \<Rightarrow> type_reader option" where
  "skip_one_complete_type reader =
     do { pos \<leftarrow> type_signature_next (tr_type_str reader) (tr_type_pos reader);
          Some (reader\<lparr>tr_type_pos := pos\<rparr>) }"

definition is_nested :: "byte \<Rightarrow> bool" where
  "is_nested t \<longleftrightarrow> t = DBUS_TYPE_DICT_ENTRY \<or> t = DBUS_TYPE_STRUCT \<or> t = DBUS_TYPE_VARIANT"

text \<open>
  Moving to the next value. The methods step over a nested value with the loop
  \<^verbatim>\<open>while (_dbus_type_reader_next (&sub));\<close>, which calls the methods again: the loop is their
  argument \<open>walk\<close>, and \<open>reader_walk\<close> ties the knot with a bound on nesting and iterations.
\<close>

type_synonym walk = "type_reader \<Rightarrow> type_reader option"

definition base_reader_next :: "walk \<Rightarrow> byte_order \<Rightarrow> type_reader \<Rightarrow> byte \<Rightarrow> type_reader option" where
  "base_reader_next walk host reader current_type =
     (let types = types_only (tr_klass reader) in
      if is_nested current_type then
        (if types \<and> current_type = DBUS_TYPE_VARIANT
         then Some (reader\<lparr>tr_type_pos := tr_type_pos reader + 1\<rparr>)
         else do { sub \<leftarrow> type_reader_recurse reader;
                   sub \<leftarrow> walk sub;
                   let reader = (if types then reader else reader\<lparr>tr_value_pos := tr_value_pos sub\<rparr>);
                   Some (reader\<lparr>tr_type_pos := (if current_type = DBUS_TYPE_VARIANT
                     then tr_type_pos reader + 1 else tr_type_pos sub)\<rparr>) })
      else if current_type = DBUS_TYPE_ARRAY then
        do { reader \<leftarrow> (if types then Some reader else skip_array_value host reader);
             skip_one_complete_type reader }
      else
        do { reader \<leftarrow> (if types then Some reader else skip_basic_value host current_type reader);
             Some (reader\<lparr>tr_type_pos := tr_type_pos reader + 1\<rparr>) })"

definition finish_at :: "byte \<Rightarrow> type_reader \<Rightarrow> type_reader" where
  "finish_at closing reader =
     (if byte_at (tr_type_str reader) (tr_type_pos reader) = closing
      then reader\<lparr>tr_type_pos := tr_type_pos reader + 1, tr_finished := True\<rparr> else reader)"

definition struct_reader_next :: "walk \<Rightarrow> byte_order \<Rightarrow> type_reader \<Rightarrow> byte \<Rightarrow> type_reader option" where
  "struct_reader_next walk host reader current_type =
     map_option (finish_at STRUCT_END) (base_reader_next walk host reader current_type)"

definition dict_entry_reader_next :: "walk \<Rightarrow> byte_order \<Rightarrow> type_reader \<Rightarrow> byte \<Rightarrow> type_reader option" where
  "dict_entry_reader_next walk host reader current_type =
     map_option (finish_at DICT_ENTRY_END) (base_reader_next walk host reader current_type)"

definition array_types_only_reader_next :: "type_reader \<Rightarrow> type_reader option" where
  "array_types_only_reader_next reader = Some (reader\<lparr>tr_finished := True\<rparr>)"

definition array_reader_next :: "walk \<Rightarrow> byte_order \<Rightarrow> type_reader \<Rightarrow> byte \<Rightarrow> type_reader option" where
  "array_reader_next walk host reader current_type =
     do { array_len \<leftarrow> array_reader_get_array_len host reader;
          let end_pos = tr_start_pos reader + array_len;
          check (tr_value_pos reader < end_pos \<and> tr_start_pos reader \<le> tr_value_pos reader);
          let t = first_type_in_signature (tr_type_str reader) (tr_type_pos reader);
          reader \<leftarrow>
            (if is_nested t then
               do { sub \<leftarrow> type_reader_recurse reader;
                    sub \<leftarrow> walk sub;
                    Some (reader\<lparr>tr_value_pos := tr_value_pos sub\<rparr>) }
             else if t = DBUS_TYPE_ARRAY then skip_array_value host reader
             else skip_basic_value host current_type reader);
          check (tr_value_pos reader \<le> end_pos);
          if tr_value_pos reader = end_pos then skip_one_complete_type reader else Some reader }"

definition reader_next :: "walk \<Rightarrow> byte_order \<Rightarrow> type_reader \<Rightarrow> (bool \<times> type_reader) option" where
  "reader_next walk host reader =
     do { t \<leftarrow> type_reader_get_current_type host reader;
          if t = DBUS_TYPE_INVALID then Some (False, reader)
          else do {
            reader \<leftarrow>
              (case tr_klass reader of
                 struct_reader_class \<Rightarrow> struct_reader_next walk host reader t
               | struct_types_only_reader_class \<Rightarrow> struct_reader_next walk host reader t
               | dict_entry_reader_class \<Rightarrow> dict_entry_reader_next walk host reader t
               | dict_entry_types_only_reader_class \<Rightarrow> dict_entry_reader_next walk host reader t
               | array_reader_class \<Rightarrow> array_reader_next walk host reader t
               | array_types_only_reader_class \<Rightarrow> array_types_only_reader_next reader
               | _ \<Rightarrow> base_reader_next walk host reader t);
            t \<leftarrow> type_reader_get_current_type host reader;
            Some (t \<noteq> DBUS_TYPE_INVALID, reader) } }"

primrec reader_walk :: "nat \<Rightarrow> byte_order \<Rightarrow> walk" where
  "reader_walk 0 host sub = None"
| "reader_walk (Suc n) host sub =
     do { (again, sub) \<leftarrow> reader_next (reader_walk n host) host sub;
          if again then reader_walk n host sub else Some sub }"

text \<open>
  Every iteration of a loop and every level of nesting uses up a byte of the signature or, below
  a variant, of the value, so their lengths bound both.
\<close>

definition reader_fuel :: "type_reader \<Rightarrow> nat" where
  "reader_fuel reader = length (tr_type_str reader) +
     (case tr_value_str reader of None \<Rightarrow> 0 | Some v \<Rightarrow> ds_len v)"

definition type_reader_next :: "byte_order \<Rightarrow> type_reader \<Rightarrow> (bool \<times> type_reader) option" where
  "type_reader_next host reader = reader_next (reader_walk (reader_fuel reader) host) host reader"

definition type_reader_has_next :: "byte_order \<Rightarrow> type_reader \<Rightarrow> bool option" where
  "type_reader_has_next host reader = map_option fst (type_reader_next host reader)"

section \<open>Reading\<close>

definition type_reader_read_basic :: "byte_order \<Rightarrow> type_reader \<Rightarrow> DBusBasicValue option" where
  "type_reader_read_basic host reader =
     do { check (\<not> types_only (tr_klass reader));
          t \<leftarrow> type_reader_get_current_type host reader;
          value_str \<leftarrow> tr_value_str reader;
          (v, pos) \<leftarrow> marshal_read_basic host value_str (tr_value_pos reader) t (tr_byte_order reader);
          Some v }"

definition type_reader_get_array_length :: "byte_order \<Rightarrow> type_reader \<Rightarrow> nat option" where
  "type_reader_get_array_length host reader =
     do { check (tr_klass reader = array_reader_class); array_reader_get_array_len host reader }"

text \<open>\<^verbatim>\<open>_dbus_type_reader_read_fixed_multi\<close>: the bytes of the remaining elements, and their number.\<close>

definition type_reader_read_fixed_multi :: "byte_order \<Rightarrow> type_reader \<Rightarrow> (bytes \<times> nat) option" where
  "type_reader_read_fixed_multi host reader =
     do { check (tr_klass reader = array_reader_class);
          let element_type = first_type_in_signature (tr_type_str reader) (tr_type_pos reader);
          check (element_type \<noteq> DBUS_TYPE_INVALID \<and> dbus_type_is_fixed element_type);
          alignment \<leftarrow> type_get_alignment element_type;
          check (tr_start_pos reader \<le> tr_value_pos reader);
          total_len \<leftarrow> array_reader_get_array_len host reader;
          let end_pos = tr_start_pos reader + total_len;
          check (tr_value_pos reader \<le> end_pos);
          let remaining_len = end_pos - tr_value_pos reader;
          value_str \<leftarrow> tr_value_str reader;
          check (end_pos \<le> ds_len value_str);
          data \<leftarrow> (if remaining_len = 0 then Some [] else get_at value_str (tr_value_pos reader) remaining_len);
          check (remaining_len mod alignment = 0);
          Some (data, remaining_len div alignment) }"

definition type_reader_get_signature :: "type_reader \<Rightarrow> (nat \<times> nat) option" where
  "type_reader_get_signature reader =
     do { len \<leftarrow> find_len_of_complete_type (tr_type_str reader) (tr_type_pos reader);
          Some (tr_type_pos reader, len) }"

section \<open>Types-only readers on grammatical signatures\<close>

text \<open>What a reader can stand at: a complete type or, below an array, a dict entry.\<close>

datatype node = Type dtype | Entry byte dtype

fun node_sig :: "node \<Rightarrow> bytes" where
  "node_sig (Type t) = sig_of t"
| "node_sig (Entry k v) = DICT_ENTRY_BEGIN # k # sig_of v @ [DICT_ENTRY_END]"

fun wf_node :: "nat \<Rightarrow> nat \<Rightarrow> node \<Rightarrow> bool" where
  "wf_node sd dd (Type t) \<longleftrightarrow> wf_type sd dd t"
| "wf_node sd dd (Entry k v) \<longleftrightarrow> wf_type sd dd (Dict k v)"

fun node_code :: "node \<Rightarrow> byte" where
  "node_code (Type (Simple c)) = c"
| "node_code (Type (Array t)) = DBUS_TYPE_ARRAY"
| "node_code (Type (Dict k v)) = DBUS_TYPE_ARRAY"
| "node_code (Type (Struct ts)) = DBUS_TYPE_STRUCT"
| "node_code (Entry k v) = DBUS_TYPE_DICT_ENTRY"

definition at_node :: "type_reader \<Rightarrow> node \<Rightarrow> bool" where
  "at_node r nd \<longleftrightarrow> types_only (tr_klass r) \<and> \<not> tr_finished r \<and>
     (\<exists>xs ys. tr_type_str r = xs @ node_sig nd @ ys \<and> tr_type_pos r = length xs)"

definition advance :: "nat \<Rightarrow> type_reader \<Rightarrow> type_reader" where
  "advance n r = r\<lparr>tr_type_pos := tr_type_pos r + n\<rparr>"

lemma advance_sel [simp]:
  "tr_klass (advance n r) = tr_klass r" "tr_type_str (advance n r) = tr_type_str r"
  "tr_type_pos (advance n r) = tr_type_pos r + n" "tr_finished (advance n r) = tr_finished r"
  "tr_value_str (advance n r) = tr_value_str r"
  by (simp_all add: advance_def)

lemma types_only_not_array [simp]: "types_only k \<Longrightarrow> k \<noteq> array_reader_class"
  by auto

lemma first_type_node:
  assumes "wf_node sd dd nd"
  shows "first_type_in_signature (xs @ node_sig nd @ ys) (length xs) = node_code nd"
proof -
  have "map_type_char_to_type (byte_at (node_sig nd @ ys) 0) = node_code nd"
    using assms by (cases nd rule: node_code.cases) auto
  then show ?thesis by (simp add: first_type_in_signature_def)
qed

lemma node_code_proper:
  "wf_node sd dd nd \<Longrightarrow>
   node_code nd \<notin> {0, STRUCT_BEGIN, STRUCT_END, DICT_ENTRY_BEGIN, DICT_ENTRY_END}"
  using simple_codes_not_special simple_codes_nonzero
  by (cases nd rule: node_code.cases) auto

lemma current_type_node:
  assumes "at_node r nd" "wf_node sd dd nd"
  shows "type_reader_get_current_type host r = Some (node_code nd)"
proof -
  from assms(1) obtain xs ys where "tr_type_str r = xs @ node_sig nd @ ys" "tr_type_pos r = length xs"
    "types_only (tr_klass r)" "\<not> tr_finished r"
    by (auto simp: at_node_def)
  with first_type_node [OF assms(2)] node_code_proper [OF assms(2)] show ?thesis
    by (auto simp: type_reader_get_current_type_def)
qed

text \<open>The readers that walk to a closing bracket.\<close>

abbreviation closers :: "(reader_class \<times> byte) set" where
  "closers \<equiv> {(struct_types_only_reader_class, STRUCT_END),
    (dict_entry_types_only_reader_class, DICT_ENTRY_END)}"

text \<open>The step over one node with a bound that covers it.\<close>

definition steps_over :: "byte_order \<Rightarrow> node \<Rightarrow> bool" where
  "steps_over host nd \<longleftrightarrow>
     (\<forall>r n. at_node r nd \<longrightarrow> length (node_sig nd) \<le> Suc n \<longrightarrow>
        base_reader_next (reader_walk n host) host r (node_code nd) =
          Some (advance (length (node_sig nd)) r))"

lemma steps_overD:
  "steps_over host nd \<Longrightarrow> at_node r nd \<Longrightarrow> length (node_sig nd) \<le> Suc n \<Longrightarrow>
   base_reader_next (reader_walk n host) host r (node_code nd) =
     Some (advance (length (node_sig nd)) r)"
  by (simp add: steps_over_def)

lemma reader_next_closer:
  assumes "steps_over host nd" "at_node r nd" "wf_node sd dd nd" "(tr_klass r, closing) \<in> closers"
    and "length (node_sig nd) \<le> Suc n"
  shows "reader_next (reader_walk n host) host r =
    (let r' = finish_at closing (advance (length (node_sig nd)) r) in
     do { t \<leftarrow> type_reader_get_current_type host r'; Some (t \<noteq> DBUS_TYPE_INVALID, r') })"
  using assms(4) current_type_node [OF assms(2,3), of host] node_code_proper [OF assms(3)]
    steps_overD [OF assms(1,2,5)]
  by (auto simp: reader_next_def struct_reader_next_def dict_entry_reader_next_def Let_def)

lemma current_type_finished [simp]:
  "tr_finished r \<Longrightarrow> type_reader_get_current_type host r = Some DBUS_TYPE_INVALID"
  by (simp add: type_reader_get_current_type_def)

text \<open>Walking over the members of a struct or dict entry leaves the reader after the bracket.\<close>

lemma finish_at_last:
  assumes "tr_type_str r = xs @ sig_of t @ closing # ys" "tr_type_pos r = length xs"
  shows "finish_at closing (advance (length (sig_of t)) r) =
    (advance (length (sig_of t) + 1) r)\<lparr>tr_finished := True\<rparr>"
proof -
  have "byte_at (tr_type_str r) (tr_type_pos r + length (sig_of t)) = closing"
    using assms byte_at_append0 [of "xs @ sig_of t" "closing # ys"] by simp
  then show ?thesis by (simp add: finish_at_def advance_def)
qed

lemma finish_at_inner:
  assumes "tr_type_str r = xs @ sig_of t @ sig_of u @ ys" "tr_type_pos r = length xs"
    and "wf_type sd dd u" "(k, closing) \<in> closers"
  shows "finish_at closing (advance (length (sig_of t)) r) = advance (length (sig_of t)) r"
proof -
  have "byte_at (tr_type_str r) (tr_type_pos r + length (sig_of t)) = hd (sig_of u @ ys)"
    using assms(1,2) byte_at_append0 [of "xs @ sig_of t" "sig_of u @ ys"]
    by (cases "sig_of u") auto
  with hd_sig_of [OF assms(3), of ys] assms(4) show ?thesis by (auto simp: finish_at_def)
qed

lemma sig_of_list_simps [simp]: "sig_of_list [] = []" "sig_of_list (t # ts) = sig_of t @ sig_of_list ts"
  by (simp_all add: sig_of_list_def)

lemma advance_advance: "advance m (advance n r) = advance (n + m) r"
  by (simp add: advance_def add.assoc)

lemma at_node_Type:
  "types_only (tr_klass r) \<Longrightarrow> \<not> tr_finished r \<Longrightarrow> tr_type_str r = xs @ sig_of t @ ys \<Longrightarrow>
   tr_type_pos r = length xs \<Longrightarrow> at_node r (Type t)"
  by (auto simp: at_node_def)

lemma sig_len: "Suc 0 \<le> length (sig_of t)"
  by (simp add: Suc_le_eq)

lemma reader_walk_closer:
  "list_all (\<lambda>t. steps_over host (Type t) \<and> wf_type sd dd t) ts \<Longrightarrow> ts \<noteq> [] \<Longrightarrow> \<not> tr_finished r \<Longrightarrow>
   tr_type_str r = xs @ sig_of_list ts @ closing # ys \<Longrightarrow> tr_type_pos r = length xs \<Longrightarrow>
   (tr_klass r, closing) \<in> closers \<Longrightarrow> length (sig_of_list ts) \<le> n \<Longrightarrow>
   reader_walk n host r = Some ((advance (length (sig_of_list ts) + 1) r)\<lparr>tr_finished := True\<rparr>)"
proof (induction ts arbitrary: r xs n)
  case (Cons t ts)
  let ?l = "length (sig_of t)"
  from Cons.prems(7) obtain m where n: "n = Suc m" by (cases n) auto
  have at: "at_node r (Type t)"
    using Cons.prems by (intro at_node_Type [of r xs t "sig_of_list ts @ closing # ys"]) auto
  have nxt: "reader_next (reader_walk m host) host r =
    (let r' = finish_at closing (advance ?l r) in
     do { t \<leftarrow> type_reader_get_current_type host r'; Some (t \<noteq> DBUS_TYPE_INVALID, r') })"
    using reader_next_closer [OF _ at _ Cons.prems(6), of host sd dd m] Cons.prems n by simp
  show ?case
  proof (cases ts)
    case Nil
    with Cons.prems have "finish_at closing (advance ?l r) = (advance (?l + 1) r)\<lparr>tr_finished := True\<rparr>"
      by (intro finish_at_last [of r xs t closing ys]) auto
    with nxt Nil n show ?thesis by simp
  next
    case (Cons u us)
    with Cons.prems have fin: "finish_at closing (advance ?l r) = advance ?l r"
      by (intro finish_at_inner [of r xs t u "sig_of_list us @ closing # ys" sd dd]) auto
    have "at_node (advance ?l r) (Type u)"
      using Cons.prems Cons
      by (intro at_node_Type [of _ "xs @ sig_of t" u "sig_of_list us @ closing # ys"]) auto
    moreover have u: "wf_type sd dd u" using Cons.prems(1) Cons by simp
    ultimately have cur: "type_reader_get_current_type host (advance ?l r) = Some (node_code (Type u))"
      using current_type_node [of _ "Type u" sd dd host] by simp
    have "reader_walk m host (advance ?l r) =
      Some ((advance (length (sig_of_list ts) + 1) (advance ?l r))\<lparr>tr_finished := True\<rparr>)"
      using Cons.prems Cons n sig_len [of t] by (intro Cons.IH [of _ "xs @ sig_of t"]) (auto simp: le_diff_conv)
    with nxt fin cur u node_code_proper [of sd dd "Type u"] n show ?thesis
      by (simp add: advance_advance add.assoc)
  qed
qed simp

lemma is_nested_simple: "c \<in> set simple_codes \<Longrightarrow> is_nested c \<longleftrightarrow> c = DBUS_TYPE_VARIANT"
  by (auto simp: is_nested_def simple_codes_def)

lemma internal_not_simple [simp]:
  "DBUS_TYPE_DICT_ENTRY \<notin> set simple_codes" "DBUS_TYPE_STRUCT \<notin> set simple_codes"
  by (simp_all add: simple_codes_def)

lemma base_next_plain:
  assumes "at_node r (Type t)" "wf_type sd dd t" "\<nexists>ts. t = Struct ts"
  shows "base_reader_next walk host r (node_code (Type t)) = Some (advance (length (sig_of t)) r)"
proof -
  from assms(1) obtain xs ys where r: "tr_type_str r = xs @ sig_of t @ ys" "tr_type_pos r = length xs"
    "types_only (tr_klass r)" by (auto simp: at_node_def)
  have "type_signature_next (tr_type_str r) (tr_type_pos r) = Some (tr_type_pos r + length (sig_of t))"
    using signature_next_sig_of [OF assms(2), of xs ys] r by simp
  with r assms(2,3) show ?thesis
    by (cases t) (auto simp: base_reader_next_def Let_def is_nested_simple skip_one_complete_type_def
        advance_def is_nested_def)
qed

lemma steps_over_plain: "wf_type sd dd t \<Longrightarrow> \<nexists>ts. t = Struct ts \<Longrightarrow> steps_over host (Type t)"
  using base_next_plain [of _ t] by (simp add: steps_over_def)

text \<open>Descending into a struct or dict entry, and into an array.\<close>

lemma recurse_struct:
  assumes "at_node r (Type (Struct ts))"
  shows "\<exists>sub xs ys. type_reader_recurse r = Some sub \<and> tr_klass sub = struct_types_only_reader_class \<and>
    \<not> tr_finished sub \<and> tr_type_str sub = tr_type_str r \<and> tr_type_pos sub = tr_type_pos r + 1 \<and>
    tr_type_str r = xs @ sig_of_list ts @ STRUCT_END # ys \<and> tr_type_pos r + 1 = length xs"
proof -
  from assms obtain xs ys where r: "tr_type_str r = xs @ STRUCT_BEGIN # sig_of_list ts @ STRUCT_END # ys"
    "tr_type_pos r = length xs" "types_only (tr_klass r)" by (auto simp: at_node_def sig_of_list_def)
  then show ?thesis
    by (intro exI [of _ "r\<lparr>tr_klass := struct_types_only_reader_class, tr_finished := False, tr_array_len_offset := 0,
        tr_type_pos := tr_type_pos r + 1, tr_start_pos := 0\<rparr>"] exI [of _ "xs @ [STRUCT_BEGIN]"] exI [of _ ys])
      (auto simp: type_reader_recurse_def first_type_in_signature_def Let_def base_reader_recurse_def reader_init_def
        struct_or_dict_entry_types_only_reader_recurse_def)
qed

lemma recurse_entry:
  assumes "at_node r (Entry k v)"
  shows "\<exists>sub xs ys. type_reader_recurse r = Some sub \<and> tr_klass sub = dict_entry_types_only_reader_class \<and>
    \<not> tr_finished sub \<and> tr_type_str sub = tr_type_str r \<and> tr_type_pos sub = tr_type_pos r + 1 \<and>
    tr_type_str r = xs @ sig_of_list [Simple k, v] @ DICT_ENTRY_END # ys \<and> tr_type_pos r + 1 = length xs"
proof -
  from assms obtain xs ys where r: "tr_type_str r = xs @ DICT_ENTRY_BEGIN # k # sig_of v @ DICT_ENTRY_END # ys"
    "tr_type_pos r = length xs" "types_only (tr_klass r)" by (auto simp: at_node_def)
  then show ?thesis
    by (intro exI [of _ "r\<lparr>tr_klass := dict_entry_types_only_reader_class, tr_finished := False, tr_array_len_offset := 0,
        tr_type_pos := tr_type_pos r + 1, tr_start_pos := 0\<rparr>"] exI [of _ "xs @ [DICT_ENTRY_BEGIN]"] exI [of _ ys])
      (auto simp: type_reader_recurse_def first_type_in_signature_def Let_def base_reader_recurse_def reader_init_def
        struct_or_dict_entry_types_only_reader_recurse_def)
qed

lemma recurse_array:
  assumes "at_node r (Type t)" "t = Array u \<and> nd = Type u \<or> t = Dict k v \<and> nd = Entry k v"
  shows "\<exists>sub. type_reader_recurse r = Some sub \<and> at_node sub nd"
proof -
  from assms obtain xs ys where r: "tr_type_str r = xs @ DBUS_TYPE_ARRAY # node_sig nd @ ys"
    "tr_type_pos r = length xs" "types_only (tr_klass r)" by (auto simp: at_node_def)
  let ?sub = "array_types_only_reader_recurse array_types_only_reader_class r"
  have "tr_type_str ?sub = (xs @ [DBUS_TYPE_ARRAY]) @ node_sig nd @ ys" "tr_type_pos ?sub = length (xs @ [DBUS_TYPE_ARRAY])"
    "types_only (tr_klass ?sub)" "\<not> tr_finished ?sub"
    using r by (simp_all add: array_types_only_reader_recurse_def base_reader_recurse_def reader_init_def Let_def)
  then have "at_node ?sub nd" unfolding at_node_def by blast
  with r show ?thesis
    by (simp add: type_reader_recurse_def first_type_in_signature_def Let_def)
qed

lemma steps_over_members:
  assumes "type_reader_recurse r = Some sub" "\<not> tr_finished sub" "(tr_klass sub, closing) \<in> closers"
    and "tr_type_str sub = tr_type_str r" "tr_type_pos sub = tr_type_pos r + 1"
    and "tr_type_str r = xs @ sig_of_list ts @ closing # ys" "tr_type_pos r + 1 = length xs" "ts \<noteq> []"
    and "list_all (\<lambda>t. steps_over host (Type t) \<and> wf_type sd dd t) ts" "length (sig_of_list ts) \<le> n"
    and "code = DBUS_TYPE_STRUCT \<or> code = DBUS_TYPE_DICT_ENTRY" "types_only (tr_klass r)"
  shows "base_reader_next (reader_walk n host) host r code =
    Some (advance (length (sig_of_list ts) + 2) r)"
proof -
  have "reader_walk n host sub =
    Some ((advance (length (sig_of_list ts) + 1) sub)\<lparr>tr_finished := True\<rparr>)"
    by (rule reader_walk_closer [OF assms(9,8,2) _ _ assms(3,10), of xs ys]) (use assms(4-7) in simp_all)
  with assms(1,5,11,12) show ?thesis
    by (auto simp: base_reader_next_def is_nested_def advance_def)
qed

lemma steps_over_Struct:
  assumes "list_all (\<lambda>t. steps_over host (Type t) \<and> wf_type sd dd t) ts" "ts \<noteq> []"
  shows "steps_over host (Type (Struct ts))"
  unfolding steps_over_def
proof (intro allI impI)
  fix r n assume at: "at_node r (Type (Struct ts))" and n: "length (node_sig (Type (Struct ts))) \<le> Suc n"
  from recurse_struct [OF at] obtain sub xs ys where "type_reader_recurse r = Some sub"
    "tr_klass sub = struct_types_only_reader_class" "\<not> tr_finished sub" "tr_type_str sub = tr_type_str r"
    "tr_type_pos sub = tr_type_pos r + 1" "tr_type_str r = xs @ sig_of_list ts @ STRUCT_END # ys"
    "tr_type_pos r + 1 = length xs" by blast
  with steps_over_members [of r sub STRUCT_END xs ts ys host sd dd n DBUS_TYPE_STRUCT] assms n at
  show "base_reader_next (reader_walk n host) host r (node_code (Type (Struct ts))) =
      Some (advance (length (node_sig (Type (Struct ts)))) r)"
    by (simp add: sig_of_list_def at_node_def)
qed

lemma steps_over_Entry:
  assumes "steps_over host (Type (Simple k))" "steps_over host (Type v)" "wf_type sd dd (Simple k)" "wf_type sd dd v"
  shows "steps_over host (Entry k v)"
  unfolding steps_over_def
proof (intro allI impI)
  fix r n assume at: "at_node r (Entry k v)" and n: "length (node_sig (Entry k v)) \<le> Suc n"
  from recurse_entry [OF at] obtain sub xs ys where "type_reader_recurse r = Some sub"
    "tr_klass sub = dict_entry_types_only_reader_class" "\<not> tr_finished sub" "tr_type_str sub = tr_type_str r"
    "tr_type_pos sub = tr_type_pos r + 1" "tr_type_str r = xs @ sig_of_list [Simple k, v] @ DICT_ENTRY_END # ys"
    "tr_type_pos r + 1 = length xs" by blast
  with steps_over_members [of r sub DICT_ENTRY_END xs "[Simple k, v]" ys host sd dd n DBUS_TYPE_DICT_ENTRY] assms n at
  show "base_reader_next (reader_walk n host) host r (node_code (Entry k v)) =
      Some (advance (length (node_sig (Entry k v))) r)"
    by (simp add: at_node_def)
qed

lemma steps_over_type: "wf_type sd dd t \<Longrightarrow> steps_over host (Type t)"
proof (induction t arbitrary: sd dd)
  case (Simple c)
  then show ?case by (intro steps_over_plain) simp_all
next
  case (Array t)
  from Array.prems show ?case by (rule steps_over_plain) simp
next
  case (Dict k v)
  from Dict.prems show ?case by (rule steps_over_plain) simp
next
  case (Struct ts)
  then have "list_all (\<lambda>t. steps_over host (Type t) \<and> wf_type (Suc sd) dd t) ts" "ts \<noteq> []"
    by (auto simp: list_all_iff)
  then show ?case by (rule steps_over_Struct)
qed

lemma steps_over_node: "wf_node sd dd nd \<Longrightarrow> steps_over host nd"
proof (cases nd)
  case (Entry k v)
  assume "wf_node sd dd nd"
  with Entry show ?thesis
    using steps_over_Entry [of host k v sd "Suc dd"] steps_over_type [of sd "Suc dd"] by simp
qed (auto intro: steps_over_type)

text \<open>
  A reader that will go through exactly these complete types: what a client of a types-only
  reader relies on.
\<close>

fun walks :: "byte_order \<Rightarrow> dtype list \<Rightarrow> type_reader \<Rightarrow> bool" where
  "walks host [] r \<longleftrightarrow> type_reader_get_current_type host r = Some DBUS_TYPE_INVALID"
| "walks host (t # ts) r \<longleftrightarrow> at_node r (Type t) \<and>
     (\<exists>r'. type_reader_next host r = Some (ts \<noteq> [], r') \<and> walks host ts r')"

lemma fuel_covers:
  "tr_type_str r = xs @ node_sig nd @ ys \<Longrightarrow> length (node_sig nd) \<le> Suc (reader_fuel r)"
  by (simp add: reader_fuel_def)

lemma walks_closer:
  "list_all (wf_type sd dd) ts \<Longrightarrow> ts \<noteq> [] \<Longrightarrow> \<not> tr_finished r \<Longrightarrow>
   tr_type_str r = xs @ sig_of_list ts @ closing # ys \<Longrightarrow> tr_type_pos r = length xs \<Longrightarrow>
   (tr_klass r, closing) \<in> closers \<Longrightarrow> walks host ts r"
proof (induction ts arbitrary: r xs)
  case (Cons t ts)
  let ?l = "length (sig_of t)"
  have at: "at_node r (Type t)"
    using Cons.prems by (intro at_node_Type [of r xs t "sig_of_list ts @ closing # ys"]) auto
  have nxt: "type_reader_next host r =
    (let r' = finish_at closing (advance ?l r) in
     do { t \<leftarrow> type_reader_get_current_type host r'; Some (t \<noteq> DBUS_TYPE_INVALID, r') })"
    using reader_next_closer [OF _ at _ Cons.prems(6), of host sd dd "reader_fuel r"]
      Cons.prems steps_over_type [of sd dd t host] fuel_covers [of r xs "Type t" "sig_of_list ts @ closing # ys"]
    by (simp add: type_reader_next_def)
  show ?case
  proof (cases ts)
    case Nil
    with Cons.prems have "finish_at closing (advance ?l r) = (advance (?l + 1) r)\<lparr>tr_finished := True\<rparr>"
      by (intro finish_at_last [of r xs t closing ys]) auto
    with nxt Nil at show ?thesis by simp
  next
    case (Cons u us)
    with Cons.prems have fin: "finish_at closing (advance ?l r) = advance ?l r"
      by (intro finish_at_inner [of r xs t u "sig_of_list us @ closing # ys" sd dd]) auto
    have w: "walks host ts (advance ?l r)"
      using Cons.prems Cons by (intro Cons.IH [of _ "xs @ sig_of t"]) auto
    moreover have u: "wf_type sd dd u" using Cons.prems(1) Cons by simp
    ultimately have "type_reader_get_current_type host (advance ?l r) = Some (node_code (Type u))"
      using current_type_node [of _ "Type u" sd dd host] Cons by simp
    with nxt fin w u node_code_proper [of sd dd "Type u"] Cons at show ?thesis by simp
  qed
qed simp

lemma walks_body:
  "list_all (wf_type sd dd) ts \<Longrightarrow> \<not> tr_finished r \<Longrightarrow> tr_klass r = body_types_only_reader_class \<Longrightarrow>
   tr_type_str r = xs @ sig_of_list ts @ ys \<Longrightarrow> tr_type_pos r = length xs \<Longrightarrow> byte_at ys 0 = 0 \<Longrightarrow>
   walks host ts r"
proof (induction ts arbitrary: r xs)
  case Nil
  then show ?case
    by (simp add: type_reader_get_current_type_def first_type_in_signature_def map_type_char_to_type_def)
next
  case (Cons t ts)
  let ?r = "advance (length (sig_of t)) r"
  have at: "at_node r (Type t)"
    using Cons.prems by (intro at_node_Type [of r xs t "sig_of_list ts @ ys"]) auto
  have w: "walks host ts ?r"
    using Cons.prems by (intro Cons.IH [of _ "xs @ sig_of t"]) auto
  have "type_reader_get_current_type host ?r =
    Some (case ts of [] \<Rightarrow> DBUS_TYPE_INVALID | u # us \<Rightarrow> node_code (Type u))"
    using w current_type_node [of ?r _ sd dd host] Cons.prems(1) by (auto split: list.splits)
  moreover have "base_reader_next (reader_walk (reader_fuel r) host) host r (node_code (Type t)) = Some ?r"
    using steps_overD [OF steps_over_type [of sd dd t host] at, of "reader_fuel r"] Cons.prems
      fuel_covers [of r xs "Type t" "sig_of_list ts @ ys"] by simp
  moreover have "type_reader_get_current_type host r = Some (node_code (Type t))"
    using current_type_node [OF at, of sd dd host] Cons.prems(1) by simp
  moreover have "node_code (Type t) \<noteq> 0" "\<forall>u us. ts = u # us \<longrightarrow> node_code (Type u) \<noteq> 0"
    using node_code_proper [of sd dd "Type t"] node_code_proper [of sd dd "Type (hd ts)"] Cons.prems(1)
    by auto
  ultimately have "type_reader_next host r = Some (ts \<noteq> [], ?r)"
    using Cons.prems by (auto simp: type_reader_next_def reader_next_def split: list.splits)
  with at w show ?case by simp
qed

lemma walks_init:
  assumes "list_all (wf_type sd dd) ts" "byte_at ys 0 = 0"
  shows "walks host ts (type_reader_init_types_only b (xs @ sig_of_list ts @ ys) (length xs))"
  by (rule walks_body [OF assms(1) _ _ _ _ assms(2), of _ xs])
    (simp_all add: type_reader_init_types_only_def reader_init_def)

lemma length_le_sig: "length ts \<le> length (sig_of_list ts)"
proof (induction ts)
  case (Cons t ts)
  with sig_len [of t] show ?case by simp
qed simp

text \<open>The members of a struct and of a dict entry.\<close>

lemma recurse_walks:
  "at_node r (Type (Struct ts)) \<Longrightarrow> wf_type sd dd (Struct ts) \<Longrightarrow>
   \<exists>sub. type_reader_recurse r = Some sub \<and> walks host ts sub \<and> length ts \<le> length (tr_type_str sub)"
  "at_node r (Entry k v) \<Longrightarrow> wf_node sd dd (Entry k v) \<Longrightarrow>
   \<exists>sub. type_reader_recurse r = Some sub \<and> walks host [Simple k, v] sub \<and>
     length [Simple k, v] \<le> length (tr_type_str sub)"
proof -
  assume "at_node r (Type (Struct ts))" and wf: "wf_type sd dd (Struct ts)"
  from recurse_struct [OF this(1)] obtain sub xs ys where "type_reader_recurse r = Some sub"
    "tr_klass sub = struct_types_only_reader_class" "\<not> tr_finished sub" "tr_type_str sub = tr_type_str r"
    "tr_type_pos sub = tr_type_pos r + 1" "tr_type_str r = xs @ sig_of_list ts @ STRUCT_END # ys"
    "tr_type_pos r + 1 = length xs" by blast
  with wf walks_closer [of "Suc sd" dd ts sub xs STRUCT_END ys host] length_le_sig [of ts]
  show "\<exists>sub. type_reader_recurse r = Some sub \<and> walks host ts sub \<and> length ts \<le> length (tr_type_str sub)"
    by auto
next
  assume "at_node r (Entry k v)" and wf: "wf_node sd dd (Entry k v)"
  from recurse_entry [OF this(1)] obtain sub xs ys where "type_reader_recurse r = Some sub"
    "tr_klass sub = dict_entry_types_only_reader_class" "\<not> tr_finished sub" "tr_type_str sub = tr_type_str r"
    "tr_type_pos sub = tr_type_pos r + 1" "tr_type_str r = xs @ sig_of_list [Simple k, v] @ DICT_ENTRY_END # ys"
    "tr_type_pos r + 1 = length xs" by blast
  with wf walks_closer [of sd "Suc dd" "[Simple k, v]" sub xs DICT_ENTRY_END ys host]
  show "\<exists>sub. type_reader_recurse r = Some sub \<and> walks host [Simple k, v] sub \<and>
      length [Simple k, v] \<le> length (tr_type_str sub)" by auto
qed

section \<open>Types-only readers and signature iterators\<close>

text \<open>The signatures a types-only reader reports while it is moved to its end.\<close>

primrec visit :: "nat \<Rightarrow> byte_order \<Rightarrow> type_reader \<Rightarrow> bytes list option" where
  "visit 0 host r = None"
| "visit (Suc n) host r =
     (case (type_reader_get_signature r, type_reader_next host r) of
        (Some (start, len), Some (again, r')) \<Rightarrow>
          let sg = substring (tr_type_str r) start len in
          (if again then map_option ((#) sg) (visit n host r') else Some [sg])
      | _ \<Rightarrow> None)"

lemma visit_walks:
  "walks host ts r \<Longrightarrow> list_all (wf_type sd dd) ts \<Longrightarrow> ts \<noteq> [] \<Longrightarrow> visit (length ts) host r = Some (map sig_of ts)"
proof (induction ts arbitrary: r)
  case (Cons t ts)
  from Cons.prems(1) obtain r' where at: "at_node r (Type t)"
    and nxt: "type_reader_next host r = Some (ts \<noteq> [], r')" "walks host ts r'" by auto
  from at obtain xs ys where r: "tr_type_str r = xs @ sig_of t @ ys" "tr_type_pos r = length xs"
    by (auto simp: at_node_def)
  have "type_reader_get_signature r = Some (length xs, length (sig_of t))"
    using find_len_sig_of [of sd dd t xs ys] Cons.prems(2) r by (simp add: type_reader_get_signature_def)
  with nxt r Cons.IH [OF nxt(2)] Cons.prems(2) show ?case
    by (cases "ts = []") (simp_all add: substring_def)
qed simp

text \<open>
  C27. On a grammatical signature the internal types-only reader and the public signature
  iterator report the same complete types in the same order, and both stop after the last.
\<close>

theorem type_reader_iterator_equivalent:
  assumes "list_all (wf_type 0 0) ts" "ts \<noteq> []"
  shows "visit (length ts) host (type_reader_init_types_only host (sig_of_list ts) 0) =
    iterate (length ts) (signature_iter_init (sig_of_list ts))"
proof -
  from assms(2) obtain t us where ts: "ts = t # us" by (cases ts) auto
  with assms(1) iterate_types [of 0 0 t us "[]"]
  have "iterate (length ts) (signature_iter_init (sig_of_list ts)) = Some (map sig_of ts)"
    by (simp add: signature_iter_init_def del: iterate.simps list.map)
  with visit_walks [OF walks_init [OF assms(1), of "[]" host host "[]"] assms] show ?thesis by simp
qed

theorem type_reader_iterator_witness:
  "visit (Suc (Suc 0)) BIG_ENDIAN (type_reader_init_types_only BIG_ENDIAN (bytes ''a{sv}(ii)'') 0) =
     iterate (Suc (Suc 0)) (signature_iter_init (bytes ''a{sv}(ii)''))"
  using type_reader_iterator_equivalent [of "[Dict DBUS_TYPE_STRING (Simple DBUS_TYPE_VARIANT),
      Struct [Simple DBUS_TYPE_INT32, Simple DBUS_TYPE_INT32]]" BIG_ENDIAN]
  by (simp add: simple_codes_def sig_of_list_def del: iterate.simps visit.simps)

end
