(* ===== verification/Names.thy ===== *)
theory Names
  imports Prelude
begin

text \<open>
  The validators of D-Bus names in \<^verbatim>\<open>dbus/dbus-marshal-validate.c\<close>: object paths, interface
  names, member names, error names and bus names. A validator scans one range of a
  \<^verbatim>\<open>DBusString\<close> with a pointer; here the bytes still to be scanned are a list, and the pointers
  \<^verbatim>\<open>last_slash\<close> and \<^verbatim>\<open>last_dot\<close>, which the code keeps on the side, are arguments of the loop.
  Each validator is proved to accept exactly the names of its grammar.
\<close>

section \<open>The code\<close>

abbreviation SLASH :: byte where "SLASH \<equiv> 47"
abbreviation DOT :: byte where "DOT \<equiv> 46"
abbreviation COLON :: byte where "COLON \<equiv> 58"
abbreviation DASH :: byte where "DASH \<equiv> 45"
abbreviation UNDERSCORE :: byte where "UNDERSCORE \<equiv> 95"

definition DBUS_MAXIMUM_NAME_LENGTH :: nat where
  "DBUS_MAXIMUM_NAME_LENGTH = 255"

definition VALID_INITIAL_NAME_CHARACTER :: "byte \<Rightarrow> bool" where
  "VALID_INITIAL_NAME_CHARACTER c \<longleftrightarrow>
     (65 \<le> c \<and> c \<le> 90) \<or> (97 \<le> c \<and> c \<le> 122) \<or> c = UNDERSCORE"

definition VALID_NAME_CHARACTER :: "byte \<Rightarrow> bool" where
  "VALID_NAME_CHARACTER c \<longleftrightarrow>
     (48 \<le> c \<and> c \<le> 57) \<or> (65 \<le> c \<and> c \<le> 90) \<or> (97 \<le> c \<and> c \<le> 122) \<or> c = UNDERSCORE"

definition VALID_INITIAL_BUS_NAME_CHARACTER :: "byte \<Rightarrow> bool" where
  "VALID_INITIAL_BUS_NAME_CHARACTER c \<longleftrightarrow>
     (65 \<le> c \<and> c \<le> 90) \<or> (97 \<le> c \<and> c \<le> 122) \<or> c = UNDERSCORE \<or> c = DASH"

definition VALID_BUS_NAME_CHARACTER :: "byte \<Rightarrow> bool" where
  "VALID_BUS_NAME_CHARACTER c \<longleftrightarrow>
     (48 \<le> c \<and> c \<le> 57) \<or> (65 \<le> c \<and> c \<le> 90) \<or> (97 \<le> c \<and> c \<le> 122) \<or>
     c = UNDERSCORE \<or> c = DASH"

text \<open>
  The loop of \<^verbatim>\<open>_dbus_validate_path\<close>: \<open>s\<close> and \<open>last_slash\<close> are the offsets of the two pointers
  from the start of the range, the list is the bytes from \<open>s\<close> to the end. \<open>None\<close> is the
  \<^verbatim>\<open>return FALSE\<close> of the loop, \<open>Some\<close> the last slash when the loop ends.
\<close>

fun validate_path_loop :: "bytes \<Rightarrow> nat \<Rightarrow> nat \<Rightarrow> nat option" where
  "validate_path_loop [] s last_slash = Some last_slash"
| "validate_path_loop (c # cs) s last_slash =
     (if c = SLASH
      then (if s - last_slash < 2 then None
            else validate_path_loop cs (s + 1) s)
      else if \<not> VALID_NAME_CHARACTER c then None
      else validate_path_loop cs (s + 1) last_slash)"

definition validate_path :: "bytes \<Rightarrow> nat \<Rightarrow> nat \<Rightarrow> bool" where
  "validate_path str start len =
     (if len > length str - start then False
      else if len = 0 then False
      else let p = substring str start len in
        if hd p \<noteq> SLASH then False
        else case validate_path_loop (tl p) 1 0 of
            None \<Rightarrow> False
          | Some last_slash \<Rightarrow> if len - last_slash < 2 \<and> len > 1 then False else True)"

text \<open>
  The loop of \<^verbatim>\<open>_dbus_validate_interface\<close>; the flag says that \<^verbatim>\<open>last_dot != NULL\<close>. A dot and the
  character after it are consumed together.
\<close>

fun validate_interface_loop :: "bytes \<Rightarrow> bool \<Rightarrow> bool option" where
  "validate_interface_loop [] last_dot = Some last_dot"
| "validate_interface_loop (c # cs) last_dot =
     (if c = DOT
      then (case cs of
              [] \<Rightarrow> None
            | d # ds \<Rightarrow>
                if \<not> VALID_INITIAL_NAME_CHARACTER d then None
                else validate_interface_loop ds True)
      else if \<not> VALID_NAME_CHARACTER c then None
      else validate_interface_loop cs last_dot)"

definition validate_interface :: "bytes \<Rightarrow> nat \<Rightarrow> nat \<Rightarrow> bool" where
  "validate_interface str start len =
     (if len > length str - start then False
      else if len > DBUS_MAXIMUM_NAME_LENGTH then False
      else if len = 0 then False
      else let iface = substring str start len in
        if hd iface = DOT then False
        else if \<not> VALID_INITIAL_NAME_CHARACTER (hd iface) then False
        else case validate_interface_loop (tl iface) False of
            None \<Rightarrow> False
          | Some last_dot \<Rightarrow> if \<not> last_dot then False else True)"

fun validate_member_loop :: "bytes \<Rightarrow> bool" where
  "validate_member_loop [] = True"
| "validate_member_loop (c # cs) =
     (if \<not> VALID_NAME_CHARACTER c then False else validate_member_loop cs)"

definition validate_member :: "bytes \<Rightarrow> nat \<Rightarrow> nat \<Rightarrow> bool" where
  "validate_member str start len =
     (if len > length str - start then False
      else if len > DBUS_MAXIMUM_NAME_LENGTH then False
      else if len = 0 then False
      else let member = substring str start len in
        if \<not> VALID_INITIAL_NAME_CHARACTER (hd member) then False
        else validate_member_loop (tl member))"

definition validate_error_name :: "bytes \<Rightarrow> nat \<Rightarrow> nat \<Rightarrow> bool" where
  "validate_error_name str start len = validate_interface str start len"

text \<open>The loop over a unique name, after its colon.\<close>

fun validate_unique_name_loop :: "bytes \<Rightarrow> bool" where
  "validate_unique_name_loop [] = True"
| "validate_unique_name_loop (c # cs) =
     (if c = DOT
      then (case cs of
              [] \<Rightarrow> False
            | d # ds \<Rightarrow>
                if \<not> VALID_BUS_NAME_CHARACTER d then False
                else validate_unique_name_loop ds)
      else if \<not> VALID_BUS_NAME_CHARACTER c then False
      else validate_unique_name_loop cs)"

text \<open>The loop over a well-known name.\<close>

fun validate_well_known_loop :: "bytes \<Rightarrow> bool \<Rightarrow> bool option" where
  "validate_well_known_loop [] last_dot = Some last_dot"
| "validate_well_known_loop (c # cs) last_dot =
     (if c = DOT
      then (case cs of
              [] \<Rightarrow> None
            | d # ds \<Rightarrow>
                if \<not> VALID_INITIAL_BUS_NAME_CHARACTER d then None
                else validate_well_known_loop ds True)
      else if \<not> VALID_BUS_NAME_CHARACTER c then None
      else validate_well_known_loop cs last_dot)"

definition validate_bus_name_full :: "bytes \<Rightarrow> nat \<Rightarrow> nat \<Rightarrow> bool \<Rightarrow> bool" where
  "validate_bus_name_full str start len is_namespace =
     (if len > length str - start then False
      else if len > DBUS_MAXIMUM_NAME_LENGTH then False
      else if len = 0 then False
      else let iface = substring str start len in
        if hd iface = COLON then validate_unique_name_loop (tl iface)
        else if hd iface = DOT then False
        else if \<not> VALID_INITIAL_BUS_NAME_CHARACTER (hd iface) then False
        else case validate_well_known_loop (tl iface) False of
            None \<Rightarrow> False
          | Some last_dot \<Rightarrow> if \<not> is_namespace \<and> \<not> last_dot then False else True)"

definition validate_bus_name :: "bytes \<Rightarrow> nat \<Rightarrow> nat \<Rightarrow> bool" where
  "validate_bus_name str start len = validate_bus_name_full str start len False"

definition validate_bus_namespace :: "bytes \<Rightarrow> nat \<Rightarrow> nat \<Rightarrow> bool" where
  "validate_bus_namespace str start len = validate_bus_name_full str start len True"

section \<open>Grammars\<close>

text \<open>
  An element of a dotted name: a non-empty word whose first character and whose other
  characters are drawn from two classes. A dotted name is a list of elements joined by dots.
\<close>

definition element :: "(byte \<Rightarrow> bool) \<Rightarrow> (byte \<Rightarrow> bool) \<Rightarrow> bytes \<Rightarrow> bool" where
  "element init rest e \<longleftrightarrow> (\<exists>c cs. e = c # cs \<and> init c \<and> list_all rest cs)"

definition dotted :: "bytes list \<Rightarrow> bytes" where
  "dotted es = concat (map (Cons DOT) es)"

fun join_dots :: "bytes list \<Rightarrow> bytes" where
  "join_dots [] = []"
| "join_dots (e # es) = e @ dotted es"

definition path_of :: "bytes list \<Rightarrow> bytes" where
  "path_of cs = (if cs = [] then [SLASH] else concat (map (Cons SLASH) cs))"

definition path_component :: "bytes \<Rightarrow> bool" where
  "path_component c \<longleftrightarrow> c \<noteq> [] \<and> list_all VALID_NAME_CHARACTER c"

lemma dotted_Nil [simp]: "dotted [] = []"
  by (simp add: dotted_def)

lemma dotted_Cons [simp]: "dotted (e # es) = DOT # e @ dotted es"
  by (simp add: dotted_def)

section \<open>A scanner of dotted names\<close>

text \<open>
  The three loops over dotted names (interfaces, well-known names, unique names) differ in
  their character classes and in what they return; they share the equations of this locale,
  which determine what they accept. \<open>ok r\<close> reads a loop's result, \<open>seen\<close> is the flag it
  carries.
\<close>

locale dotted_scanner =
  fixes scan :: "bytes \<Rightarrow> bool \<Rightarrow> bool option"
    and init rest :: "byte \<Rightarrow> bool"
  assumes scan_Nil: "scan [] seen = Some seen"
    and scan_Cons: "scan (c # cs) seen =
      (if c = DOT
       then (case cs of [] \<Rightarrow> None | d # ds \<Rightarrow> if \<not> init d then None else scan ds True)
       else if \<not> rest c then None else scan cs seen)"
    and rest_DOT: "\<not> rest DOT"
begin

lemma scan_rest: "list_all rest t \<Longrightarrow> scan (t @ cs) seen = scan cs seen"
  by (induction t) (auto simp: scan_Cons rest_DOT)

lemma scan_dotted:
  "list_all (element init rest) es \<Longrightarrow> scan (dotted es) seen = Some (seen \<or> es \<noteq> [])"
proof (induction es arbitrary: seen)
  case Nil
  then show ?case by (simp add: scan_Nil)
next
  case (Cons e es)
  then obtain c cs where "e = c # cs" "init c" "list_all rest cs"
    by (auto simp: element_def)
  with Cons show ?case by (simp add: scan_Cons scan_rest)
qed

lemma scan_complete:
  "list_all rest t \<Longrightarrow> list_all (element init rest) es \<Longrightarrow>
   scan (t @ dotted es) seen = Some (seen \<or> es \<noteq> [])"
  by (simp add: scan_rest scan_dotted)

lemma scan_sound:
  "scan cs seen = Some r \<Longrightarrow>
   \<exists>t es. cs = t @ dotted es \<and> list_all rest t \<and> list_all (element init rest) es \<and>
          r = (seen \<or> es \<noteq> [])"
proof (induction "length cs" arbitrary: cs seen rule: less_induct)
  case less
  show ?case
  proof (cases cs)
    case Nil
    with less.prems show ?thesis
      by (intro exI [of _ "[]"]) (simp add: scan_Nil)
  next
    case (Cons c cs')
    show ?thesis
    proof (cases "c = DOT")
      case True
      with less.prems Cons obtain d ds where ds: "cs' = d # ds" "init d" "scan ds True = Some r"
        by (auto simp: scan_Cons split: list.splits if_splits)
      from less.hyps [OF _ ds(3)] Cons ds(1) obtain t es
        where "ds = t @ dotted es" "list_all rest t" "list_all (element init rest) es" "r"
        by auto
      with True Cons ds show ?thesis
        by (intro exI [of _ "[]"] exI [of _ "(d # t) # es"]) (simp add: element_def)
    next
      case False
      with less.prems Cons have c: "rest c" "scan cs' seen = Some r"
        by (auto simp: scan_Cons split: if_splits)
      from less.hyps [OF _ c(2)] Cons obtain t es
        where "cs' = t @ dotted es" "list_all rest t" "list_all (element init rest) es"
          "r = (seen \<or> es \<noteq> [])"
        by auto
      with c Cons show ?thesis
        by (intro exI [of _ "c # t"] exI [of _ es]) simp
    qed
  qed
qed

text \<open>A name is scanned from its first character on: what a successful scan says of it.\<close>

lemma scan_name_iff:
  assumes "init c"
  shows "scan cs False = Some r \<longleftrightarrow>
    (\<exists>e es. c # cs = join_dots (e # es) \<and> list_all (element init rest) (e # es) \<and>
            r = (es \<noteq> []))" (is "?scan \<longleftrightarrow> ?split")
proof
  assume ?scan
  from scan_sound [OF this] obtain t es where
    "cs = t @ dotted es" "list_all rest t" "list_all (element init rest) es" "r = (es \<noteq> [])"
    by auto
  with assms show ?split
    by (intro exI [of _ "c # t"] exI [of _ es]) (simp add: element_def)
next
  assume ?split
  then obtain e es where *: "c # cs = join_dots (e # es)"
    "list_all (element init rest) (e # es)" "r = (es \<noteq> [])" by blast
  then obtain t where "e = c # t" "list_all rest t"
    by (auto simp: element_def)
  with * show ?scan by (simp add: scan_complete)
qed

text \<open>The code's test on a whole name: its first character, then the loop.\<close>

lemma name_iff:
  "(p \<noteq> [] \<and> init (hd p) \<and> scan (tl p) False = Some r) \<longleftrightarrow>
   (\<exists>es. es \<noteq> [] \<and> p = join_dots es \<and> list_all (element init rest) es \<and>
         r = (2 \<le> length es))" (is "?code \<longleftrightarrow> ?names")
proof
  assume ?code
  then obtain c cs where "p = c # cs" "init c" "scan cs False = Some r"
    by (cases p) auto
  with scan_name_iff [of c cs r] obtain e es where
    "p = join_dots (e # es)" "list_all (element init rest) (e # es)" "r = (es \<noteq> [])"
    by blast
  then show ?names
    by (intro exI [of _ "e # es"]) (auto simp: Suc_le_eq)
next
  assume ?names
  then obtain e es where es: "p = join_dots (e # es)" "list_all (element init rest) (e # es)"
    "r = (es \<noteq> [])"
    by (metis Suc_le_eq length_Cons length_greater_0_conv list.exhaust
        list.size(3) numeral_2_eq_2 One_nat_def add_diff_cancel_left' not_less_eq_eq)
  then obtain c t where "e = c # t" "init c"
    by (auto simp: element_def)
  with es scan_name_iff [of c "tl p" r] show ?code
    by (metis append_Cons join_dots.simps(2) list.distinct(1) list.sel(1,3))
qed

end

lemma name_character_DOT [simp]:
  "\<not> VALID_NAME_CHARACTER DOT" "\<not> VALID_BUS_NAME_CHARACTER DOT"
  "\<not> VALID_INITIAL_NAME_CHARACTER DOT" "\<not> VALID_INITIAL_BUS_NAME_CHARACTER DOT"
  by (simp_all add: VALID_NAME_CHARACTER_def VALID_BUS_NAME_CHARACTER_def
      VALID_INITIAL_NAME_CHARACTER_def VALID_INITIAL_BUS_NAME_CHARACTER_def)

lemma name_character_SLASH [simp]: "\<not> VALID_NAME_CHARACTER SLASH"
  by (simp add: VALID_NAME_CHARACTER_def)

lemma bus_name_character_COLON [simp]:
  "\<not> VALID_BUS_NAME_CHARACTER COLON" "\<not> VALID_INITIAL_BUS_NAME_CHARACTER COLON"
  by (simp_all add: VALID_BUS_NAME_CHARACTER_def VALID_INITIAL_BUS_NAME_CHARACTER_def)

interpretation iface: dotted_scanner validate_interface_loop
  VALID_INITIAL_NAME_CHARACTER VALID_NAME_CHARACTER
  by unfold_locales simp_all

interpretation well_known: dotted_scanner validate_well_known_loop
  VALID_INITIAL_BUS_NAME_CHARACTER VALID_BUS_NAME_CHARACTER
  by unfold_locales simp_all

interpretation unique: dotted_scanner
  "\<lambda>cs seen. if validate_unique_name_loop cs then Some (seen \<or> DOT \<in> set cs) else None"
  VALID_BUS_NAME_CHARACTER VALID_BUS_NAME_CHARACTER
  by unfold_locales (auto split: list.splits)

section \<open>Correctness\<close>

lemma substring_ne: "len \<noteq> 0 \<Longrightarrow> len \<le> length str - start \<Longrightarrow> substring str start len \<noteq> []"
  by (auto simp: substring_def)

lemma length_substring_le: "len \<le> length str - start \<Longrightarrow> length (substring str start len) = len"
  by (simp add: substring_def)

abbreviation name_range :: "bytes \<Rightarrow> nat \<Rightarrow> nat \<Rightarrow> bool" where
  "name_range str start len \<equiv> len \<le> length str - start \<and> len \<le> 255"

lemma join_dots_element_ne:
  "es \<noteq> [] \<Longrightarrow> list_all (element init rest) es \<Longrightarrow> join_dots es \<noteq> []"
  by (cases es) (auto simp: element_def)

lemma two_elements:
  "(\<exists>es. es \<noteq> [] \<and> p = join_dots es \<and> Q es \<and> True = (2 \<le> length es)) \<longleftrightarrow>
   (\<exists>es. p = join_dots es \<and> 2 \<le> length es \<and> Q es)"
  by (metis list.size(3) not_numeral_le_zero)

lemma substring_join_dots_ne:
  "list_all (element init rest) es \<Longrightarrow> 2 \<le> length es \<Longrightarrow> substring str start 0 \<noteq> join_dots es"
  using join_dots_element_ne [of es init rest] by (cases es) (auto simp: substring_def)

text \<open>
  C11. The interface name validator accepts exactly the ranges of at most 255 bytes that are two
  or more dot-separated elements, each non-empty and not starting with a digit.
\<close>

theorem validate_interface_iff:
  "validate_interface str start len \<longleftrightarrow>
     name_range str start len \<and>
     (\<exists>es. substring str start len = join_dots es \<and> 2 \<le> length es \<and>
        list_all (element VALID_INITIAL_NAME_CHARACTER VALID_NAME_CHARACTER) es)"
proof (cases "name_range str start len \<and> len \<noteq> 0")
  case True
  then have ne: "substring str start len \<noteq> []" by (simp add: substring_ne)
  have "validate_interface str start len \<longleftrightarrow>
      (substring str start len \<noteq> [] \<and> VALID_INITIAL_NAME_CHARACTER (hd (substring str start len)) \<and>
       validate_interface_loop (tl (substring str start len)) False = Some True)"
    using True ne by (auto simp: validate_interface_def DBUS_MAXIMUM_NAME_LENGTH_def Let_def
        split: option.splits)
  with True show ?thesis
    unfolding iface.name_iff two_elements by simp
next
  case False
  then show ?thesis
    by (auto simp: validate_interface_def DBUS_MAXIMUM_NAME_LENGTH_def
        dest: substring_join_dots_ne)
qed

theorem validate_error_name_iff:
  "validate_error_name str start len \<longleftrightarrow> validate_interface str start len"
  by (simp add: validate_error_name_def)

lemma validate_member_loop_eq: "validate_member_loop cs = list_all VALID_NAME_CHARACTER cs"
  by (induction cs) auto

theorem validate_member_iff:
  "validate_member str start len \<longleftrightarrow>
     name_range str start len \<and>
     element VALID_INITIAL_NAME_CHARACTER VALID_NAME_CHARACTER (substring str start len)"
proof (cases "name_range str start len \<and> len \<noteq> 0")
  case True
  then obtain c cs where "substring str start len = c # cs"
    using substring_ne by (metis list.exhaust)
  with True show ?thesis
    by (auto simp: validate_member_def DBUS_MAXIMUM_NAME_LENGTH_def element_def
        validate_member_loop_eq)
next
  case False
  then show ?thesis
    by (auto simp: validate_member_def DBUS_MAXIMUM_NAME_LENGTH_def element_def substring_def)
qed

text \<open>
  What the code accepts as a bus name. A well-known name needs two elements, one suffices for
  a namespace. A unique name is a colon, a possibly empty run of name characters, and any
  number of elements, which may start with a digit.
\<close>

definition unique_name :: "bytes \<Rightarrow> bool" where
  "unique_name p \<longleftrightarrow>
     (\<exists>t es. p = COLON # t @ dotted es \<and> list_all VALID_BUS_NAME_CHARACTER t \<and>
        list_all (element VALID_BUS_NAME_CHARACTER VALID_BUS_NAME_CHARACTER) es)"

definition well_known_name :: "bool \<Rightarrow> bytes \<Rightarrow> bool" where
  "well_known_name is_namespace p \<longleftrightarrow>
     (\<exists>es. p = join_dots es \<and> (if is_namespace then 1 else 2) \<le> length es \<and>
        list_all (element VALID_INITIAL_BUS_NAME_CHARACTER VALID_BUS_NAME_CHARACTER) es)"

lemma validate_unique_name_loop_iff:
  "validate_unique_name_loop cs \<longleftrightarrow> unique_name (COLON # cs)" (is "?code \<longleftrightarrow> ?spec")
proof
  assume ?code
  then show ?spec
    using unique.scan_sound [of cs False "DOT \<in> set cs"] by (auto simp: unique_name_def)
next
  assume ?spec
  then obtain t es where "cs = t @ dotted es" "list_all VALID_BUS_NAME_CHARACTER t"
    "list_all (element VALID_BUS_NAME_CHARACTER VALID_BUS_NAME_CHARACTER) es"
    by (auto simp: unique_name_def)
  then show ?code
    using unique.scan_complete [of t es False] by (auto split: if_splits)
qed

lemma well_known_name_ne:
  assumes "well_known_name ns p"
  shows "p \<noteq> [] \<and> VALID_INITIAL_BUS_NAME_CHARACTER (hd p)"
proof -
  from assms obtain es where es: "p = join_dots es" "(if ns then 1 else 2) \<le> length es"
    "list_all (element VALID_INITIAL_BUS_NAME_CHARACTER VALID_BUS_NAME_CHARACTER) es"
    by (auto simp: well_known_name_def)
  then show ?thesis
    by (cases es) (auto simp: element_def split: if_splits)
qed

lemma well_known_loop_iff:
  assumes "p \<noteq> []"
  shows "well_known_name ns p \<longleftrightarrow> VALID_INITIAL_BUS_NAME_CHARACTER (hd p) \<and>
    (\<exists>r. validate_well_known_loop (tl p) False = Some r \<and> (ns \<or> r))"
proof -
  have len: "(es \<noteq> [] \<and> (ns \<or> 2 \<le> length es)) = ((if ns then 1 else 2) \<le> length es)"
    for es :: "bytes list"
    by (cases es) auto
  have "(\<exists>r. (p \<noteq> [] \<and> VALID_INITIAL_BUS_NAME_CHARACTER (hd p) \<and>
      validate_well_known_loop (tl p) False = Some r) \<and> (ns \<or> r)) \<longleftrightarrow>
    (\<exists>es. p = join_dots es \<and> (es \<noteq> [] \<and> (ns \<or> 2 \<le> length es)) \<and>
      list_all (element VALID_INITIAL_BUS_NAME_CHARACTER VALID_BUS_NAME_CHARACTER) es)"
    unfolding well_known.name_iff by blast
  with assms show ?thesis unfolding well_known_name_def len by blast
qed

text \<open>
  C12. The bus name validator accepts exactly the unique names and the well-known names of at
  most 255 bytes; for a namespace a single element is enough.
\<close>

theorem validate_bus_name_full_iff:
  "validate_bus_name_full str start len is_namespace \<longleftrightarrow>
     name_range str start len \<and>
     (unique_name (substring str start len) \<or>
      well_known_name is_namespace (substring str start len))"
proof (cases "name_range str start len \<and> len \<noteq> 0")
  case True
  then obtain c cs where p: "substring str start len = c # cs"
    using substring_ne by (metis list.exhaust)
  have colon: "\<not> well_known_name is_namespace (COLON # cs)"
    using well_known_name_ne by fastforce
  have "c \<noteq> COLON \<Longrightarrow> \<not> unique_name (c # cs)"
    by (auto simp: unique_name_def)
  with True p colon show ?thesis
    by (auto simp: validate_bus_name_full_def DBUS_MAXIMUM_NAME_LENGTH_def
        validate_unique_name_loop_iff well_known_loop_iff [of "c # cs"] split: option.splits)
next
  case False
  then show ?thesis
    using well_known_name_ne [of is_namespace "[]"]
    by (auto simp: validate_bus_name_full_def DBUS_MAXIMUM_NAME_LENGTH_def substring_def
        unique_name_def)
qed

section \<open>Object paths\<close>

lemma path_loop_component:
  "list_all VALID_NAME_CHARACTER c \<Longrightarrow>
   validate_path_loop (c @ cs) s last_slash = validate_path_loop cs (s + length c) last_slash"
  by (induction c arbitrary: s) auto

lemma path_loop_complete:
  "list_all path_component cs \<Longrightarrow> s - last_slash \<ge> 2 \<Longrightarrow> last_slash \<le> s \<Longrightarrow>
   \<exists>l. validate_path_loop (concat (map (Cons SLASH) cs)) s last_slash = Some l \<and>
       2 \<le> s + length (concat (map (Cons SLASH) cs)) - l"
proof (induction cs arbitrary: s last_slash)
  case Nil
  then show ?case by simp
next
  case (Cons c cs)
  then have c: "list_all VALID_NAME_CHARACTER c" "c \<noteq> []" by (auto simp: path_component_def)
  from c(2) have "Suc s + length c - s \<ge> 2" by (cases c) auto
  with Cons.IH [of "Suc s + length c" s] Cons.prems(1) obtain l where
    "validate_path_loop (concat (map (Cons SLASH) cs)) (Suc s + length c) s = Some l"
    "2 \<le> Suc s + length c + length (concat (map (Cons SLASH) cs)) - l"
    by auto
  with c Cons.prems(2) show ?case
    by (auto simp: path_loop_component)
qed

lemma path_loop_sound:
  "validate_path_loop cs s last_slash = Some l \<Longrightarrow> last_slash < s \<Longrightarrow>
   2 \<le> s + length cs - l \<Longrightarrow>
   \<exists>t ps. cs = t @ concat (map (Cons SLASH) ps) \<and> list_all VALID_NAME_CHARACTER t \<and>
     list_all path_component ps \<and> (t = [] \<longrightarrow> 2 \<le> s - last_slash)"
proof (induction cs s last_slash rule: validate_path_loop.induct)
  case (1 s last_slash)
  then show ?case by (intro exI [of _ "[]"]) simp
next
  case (2 c cs s last_slash)
  show ?case
  proof (cases "c = SLASH")
    case True
    with 2 obtain t ps where *: "cs = t @ concat (map (Cons SLASH) ps)"
      "list_all VALID_NAME_CHARACTER t" "list_all path_component ps" "t = [] \<longrightarrow> 2 \<le> s + 1 - s"
      by (auto split: if_splits)
    then have "path_component t" by (auto simp: path_component_def)
    with * True "2.prems" show ?thesis
      by (intro exI [of _ "[]"] exI [of _ "t # ps"]) (auto split: if_splits)
  next
    case False
    with 2 obtain t ps where "cs = t @ concat (map (Cons SLASH) ps)"
      "list_all VALID_NAME_CHARACTER t" "list_all path_component ps" "VALID_NAME_CHARACTER c"
      by (auto split: if_splits)
    then show ?thesis
      by (intro exI [of _ "c # t"] exI [of _ ps]) auto
  qed
qed

lemma path_loop_not_short:
  "validate_path_loop cs s last_slash = Some l \<Longrightarrow> last_slash < s \<Longrightarrow> l < s + length cs"
  by (induction cs s last_slash rule: validate_path_loop.induct) (auto split: if_splits)

lemma validate_path_loop_iff:
  "(\<exists>l. validate_path_loop cs 1 0 = Some l \<and> \<not> (Suc (length cs) - l < 2 \<and> cs \<noteq> [])) \<longleftrightarrow>
   (\<exists>ps. list_all path_component ps \<and> SLASH # cs = path_of ps)" (is "?code \<longleftrightarrow> ?spec")
proof
  assume ?code
  then obtain l where l: "validate_path_loop cs 1 0 = Some l" "cs \<noteq> [] \<longrightarrow> 2 \<le> 1 + length cs - l"
    by auto
  show ?spec
  proof (cases "cs = []")
    case True
    then show ?thesis by (intro exI [of _ "[]"]) (simp add: path_of_def)
  next
    case False
    with path_loop_sound [OF l(1)] l(2) obtain t ps where
      "cs = t @ concat (map (Cons SLASH) ps)" "list_all VALID_NAME_CHARACTER t"
      "list_all path_component ps" "t \<noteq> []" by auto
    then show ?thesis
      by (intro exI [of _ "t # ps"]) (simp add: path_of_def path_component_def)
  qed
next
  assume ?spec
  then obtain ps where ps: "list_all path_component ps" "SLASH # cs = path_of ps" by blast
  show ?code
  proof (cases ps)
    case Nil
    with ps show ?thesis by (simp add: path_of_def)
  next
    case (Cons p ps')
    with ps have p: "cs = p @ concat (map (Cons SLASH) ps')" "list_all VALID_NAME_CHARACTER p"
      "p \<noteq> []" "list_all path_component ps'"
      by (auto simp: path_of_def path_component_def)
    then have "2 \<le> 1 + length p - 0" by (cases p) auto
    from path_loop_complete [OF p(4) this] p(1,2) show ?thesis
      by (auto simp: path_loop_component)
  qed
qed

text \<open>
  C10. The object path validator accepts a range of a string exactly when the range lies in the
  string and is the root path or a sequence of slash-separated non-empty components of letters,
  digits and underscores.
\<close>

theorem validate_path_iff:
  "validate_path str start len \<longleftrightarrow>
     len \<le> length str - start \<and>
     (\<exists>ps. list_all path_component ps \<and> substring str start len = path_of ps)"
proof (cases "len \<le> length str - start \<and> len \<noteq> 0")
  case True
  then obtain c cs where p: "substring str start len = c # cs"
    using substring_ne by (metis list.exhaust)
  with True have len: "len = Suc (length cs)"
    by (metis length_Cons length_substring_le)
  have "c \<noteq> SLASH \<Longrightarrow> \<forall>ps. c # cs \<noteq> path_of ps"
    by (auto simp: path_of_def neq_Nil_conv)
  with True p len validate_path_loop_iff [of cs] show ?thesis
    by (auto simp: validate_path_def split: option.splits)
next
  case False
  have "path_of ps \<noteq> []" for ps by (auto simp: path_of_def neq_Nil_conv)
  with False show ?thesis
    by (auto simp: validate_path_def substring_def) (metis)
qed

end
