(* ===== verification/Utf8.thy ===== *)
theory Utf8
  imports Prelude
begin

text \<open>
  The content validators of \<^verbatim>\<open>dbus/dbus-string.c\<close>: \<^verbatim>\<open>_dbus_string_validate_utf8\<close> with its
  macros \<^verbatim>\<open>UTF8_COMPUTE\<close>, \<^verbatim>\<open>UTF8_GET\<close>, \<^verbatim>\<open>UTF8_LENGTH\<close> and \<^verbatim>\<open>UNICODE_VALID\<close>,
  \<^verbatim>\<open>_dbus_string_validate_ascii\<close> and \<^verbatim>\<open>_dbus_string_validate_nul\<close>. The UTF-8 validator is
  proved to accept exactly the encodings of sequences of Unicode scalar values other than nul.
\<close>

section \<open>The code\<close>

text \<open>\<^verbatim>\<open>dbus_unichar_t\<close> is an unsigned 32-bit integer.\<close>

type_synonym unichar = "32 word"

definition UTF8_COMPUTE :: "byte \<Rightarrow> unichar \<times> nat" where
  "UTF8_COMPUTE c =
     (if c < 128 then (0x7f, 1)
      else if c AND 0xe0 = 0xc0 then (0x1f, 2)
      else if c AND 0xf0 = 0xe0 then (0x0f, 3)
      else if c AND 0xf8 = 0xf0 then (0x07, 4)
      else if c AND 0xfc = 0xf8 then (0x03, 5)
      else if c AND 0xfe = 0xfc then (0x01, 6)
      else (0, 0))"

definition UTF8_LENGTH :: "unichar \<Rightarrow> nat" where
  "UTF8_LENGTH c =
     (if c < 0x80 then 1 else if c < 0x800 then 2 else if c < 0x10000 then 3
      else if c < 0x200000 then 4 else if c < 0x4000000 then 5 else 6)"

text \<open>The loop of \<^verbatim>\<open>UTF8_GET\<close> over the continuation bytes; \<open>-1\<close> is its error value.\<close>

fun UTF8_GET_loop :: "unichar \<Rightarrow> bytes \<Rightarrow> unichar" where
  "UTF8_GET_loop result [] = result"
| "UTF8_GET_loop result (c # cs) =
     (if c AND 0xc0 \<noteq> 0x80 then -1
      else UTF8_GET_loop (push_bit 6 result OR (ucast c AND 0x3f)) cs)"

definition UTF8_GET :: "bytes \<Rightarrow> unichar \<Rightarrow> nat \<Rightarrow> unichar" where
  "UTF8_GET chars msk len = UTF8_GET_loop (ucast (hd chars) AND msk) (take (len - 1) (tl chars))"

definition UNICODE_VALID :: "unichar \<Rightarrow> bool" where
  "UNICODE_VALID c \<longleftrightarrow> c < 0x110000 \<and> c AND 0xFFFFF800 \<noteq> 0xD800"

text \<open>
  The loop of \<^verbatim>\<open>_dbus_string_validate_utf8\<close> over the bytes from \<^verbatim>\<open>p\<close> to \<^verbatim>\<open>end\<close>: a \<^verbatim>\<open>break\<close>
  leaves bytes behind, so the final test \<^verbatim>\<open>p != end\<close> fails.
\<close>

function validate_utf8_loop :: "bytes \<Rightarrow> bool" where
  "validate_utf8_loop p =
     (if p = [] then True
      else if hd p = 0 then False
      else if hd p < 128 then validate_utf8_loop (tl p)
      else let (msk, char_len) = UTF8_COMPUTE (hd p) in
        if char_len = 0 then False
        else if length p < char_len then False
        else let result = UTF8_GET p msk char_len in
          if UTF8_LENGTH result \<noteq> char_len then False
          else if \<not> UNICODE_VALID result then False
          else validate_utf8_loop (drop char_len p))"
  by pat_completeness auto
termination
  by (relation "measure length") (auto simp: length_greater_0_conv)

declare validate_utf8_loop.simps [simp del]

definition validate_utf8 :: "bytes \<Rightarrow> nat \<Rightarrow> nat \<Rightarrow> bool" where
  "validate_utf8 str start len =
     (if len > length str - start then False
      else validate_utf8_loop (substring str start len))"

fun validate_ascii_loop :: "bytes \<Rightarrow> bool" where
  "validate_ascii_loop [] = True"
| "validate_ascii_loop (c # cs) = (if \<not> (c \<noteq> 0 \<and> c AND 0x80 = 0) then False else validate_ascii_loop cs)"

fun validate_nul_loop :: "bytes \<Rightarrow> bool" where
  "validate_nul_loop [] = True"
| "validate_nul_loop (c # cs) = (if c \<noteq> 0 then False else validate_nul_loop cs)"

section \<open>UTF-8\<close>

text \<open>
  The encoding form of the Unicode standard (table 3-6), as a function on scalar values, and
  the texts a D-Bus string may hold: scalar values other than nul.
\<close>

definition utf8_encode :: "nat \<Rightarrow> bytes" where
  "utf8_encode n =
     (if n < 0x80 then [of_nat n]
      else if n < 0x800 then [of_nat (0xC0 + n div 64), of_nat (0x80 + n mod 64)]
      else if n < 0x10000 then
        [of_nat (0xE0 + n div 4096), of_nat (0x80 + n div 64 mod 64), of_nat (0x80 + n mod 64)]
      else
        [of_nat (0xF0 + n div 262144), of_nat (0x80 + n div 4096 mod 64),
         of_nat (0x80 + n div 64 mod 64), of_nat (0x80 + n mod 64)])"

definition text_scalar :: "nat \<Rightarrow> bool" where
  "text_scalar n \<longleftrightarrow> 0 < n \<and> n < 0x110000 \<and> \<not> (0xD800 \<le> n \<and> n < 0xE000)"

section \<open>Masks on bytes\<close>

lemma byte_masks:
  "(0xc0 :: byte) = NOT (mask 6)" "(0xe0 :: byte) = NOT (mask 5)" "(0xf0 :: byte) = NOT (mask 4)"
  "(0xf8 :: byte) = NOT (mask 3)" "(0xfc :: byte) = NOT (mask 2)" "(0xfe :: byte) = NOT (mask 1)"
  "(0x80 :: byte) = NOT (mask 7)"
  by (simp_all add: mask_eq_exp_minus_1)

lemma high_bits_eq:
  fixes c :: byte
  assumes "m = NOT (mask k)"
  shows "c AND m = v \<longleftrightarrow> 2 ^ k * (unat c div 2 ^ k) = unat v"
  by (simp only: assms word_and_not_mask word_eq_unat unat_push_drop)

lemmas lead_eqs = byte_masks [THEN high_bits_eq]

lemma lead_bytes:
  fixes c :: byte
  shows "c AND 0xc0 = 0x80 \<longleftrightarrow> 128 \<le> unat c \<and> unat c < 192"
    and "c AND 0xe0 = 0xc0 \<longleftrightarrow> 192 \<le> unat c \<and> unat c < 224"
    and "c AND 0xf0 = 0xe0 \<longleftrightarrow> 224 \<le> unat c \<and> unat c < 240"
    and "c AND 0xf8 = 0xf0 \<longleftrightarrow> 240 \<le> unat c \<and> unat c < 248"
    and "c AND 0xfc = 0xf8 \<longleftrightarrow> 248 \<le> unat c \<and> unat c < 252"
    and "c AND 0xfe = 0xfc \<longleftrightarrow> 252 \<le> unat c \<and> unat c < 254"
    and "c AND 0x80 = 0 \<longleftrightarrow> unat c < 128"
  unfolding lead_eqs
  using mult_div_eq_iff [of 64 "unat c" 2] mult_div_eq_iff [of 32 "unat c" 6]
    mult_div_eq_iff [of 16 "unat c" 14] mult_div_eq_iff [of 8 "unat c" 30]
    mult_div_eq_iff [of 4 "unat c" 62] mult_div_eq_iff [of 2 "unat c" 126]
    mult_div_eq_iff [of 128 "unat c" 0]
  by simp_all

lemma low_mask_byte:
  "unat ((ucast (c :: byte) :: unichar) AND 0x7f) = unat c mod 128"
  "unat ((ucast c :: unichar) AND 0x3f) = unat c mod 64"
  "unat ((ucast c :: unichar) AND 0x1f) = unat c mod 32"
  "unat ((ucast c :: unichar) AND 0x0f) = unat c mod 16"
  "unat ((ucast c :: unichar) AND 0x07) = unat c mod 8"
proof -
  have *: "unat ((ucast c :: unichar) AND mask k) = unat c mod 2 ^ k" for k
    by (simp only: take_bit_eq_mask [symmetric] unat_take_bit unat_ucast_byte)
  from * [of 7] * [of 6] * [of 5] * [of 4] * [of 3]
  show "unat ((ucast c :: unichar) AND 0x7f) = unat c mod 128"
    "unat ((ucast c :: unichar) AND 0x3f) = unat c mod 64"
    "unat ((ucast c :: unichar) AND 0x1f) = unat c mod 32"
    "unat ((ucast c :: unichar) AND 0x0f) = unat c mod 16"
    "unat ((ucast c :: unichar) AND 0x07) = unat c mod 8"
    by (simp_all add: mask_eq_exp_minus_1)
qed

section \<open>Decoding one character\<close>

lemma continuation_value:
  assumes "unat r < 2 ^ 26"
  shows "unat (push_bit 6 r OR ((ucast (c :: byte) :: unichar) AND 0x3f)) =
    64 * unat r + unat c mod 64"
proof -
  have m: "(0x3f :: unichar) = mask 6" by (simp add: mask_eq_exp_minus_1)
  have "take_bit 6 (ucast c AND (0x3f :: unichar)) = ucast c AND 0x3f"
    unfolding m take_bit_eq_mask [symmetric] by simp
  then have *: "push_bit 6 r OR (ucast c AND 0x3f) = push_bit 6 r + (ucast c AND (0x3f :: unichar))"
    by (rule push_bit_or_eq_add)
  have push: "unat (push_bit 6 r) = 64 * unat r"
    unfolding unsigned_push_bit_eq using assms
    by (simp add: push_bit_eq_mult take_bit_nat_eq_self)
  have "unat (push_bit 6 r) + unat (ucast c AND (0x3f :: unichar)) < 2 ^ LENGTH(32)"
    using assms by (simp add: push low_mask_byte)
  then show ?thesis
    unfolding * by (simp add: unat_word_ariths(1) push low_mask_byte)
qed

lemma UTF8_GET_loop_bad: "c AND 0xc0 \<noteq> 0x80 \<Longrightarrow> UTF8_GET_loop r (c # cs) = -1"
  by simp

lemma UNICODE_INVALID_minus1 [simp]: "\<not> UNICODE_VALID (-1)"
  by (simp add: UNICODE_VALID_def)

lemma UTF8_GET_valid:
  "UNICODE_VALID (UTF8_GET_loop r cs) \<Longrightarrow> list_all (\<lambda>c. c AND 0xc0 = 0x80) cs"
proof (induction cs arbitrary: r)
  case (Cons c cs)
  then show ?case by (cases "c AND 0xc0 = 0x80") auto
qed simp

lemma UNICODE_VALID_iff:
  "UNICODE_VALID c \<longleftrightarrow> unat c < 0x110000 \<and> \<not> (0xD800 \<le> unat c \<and> unat c < 0xE000)"
proof -
  have m: "(0xFFFFF800 :: unichar) = NOT (mask 11)"
    by (simp add: mask_eq_exp_minus_1)
  have "c AND 0xFFFFF800 = 0xD800 \<longleftrightarrow> 2048 * (unat c div 2048) = 2048 * 27"
    unfolding m word_and_not_mask word_eq_unat unat_push_drop by simp
  also have "\<dots> \<longleftrightarrow> 0xD800 \<le> unat c \<and> unat c < 0xE000"
    by (subst mult_div_eq_iff) simp_all
  finally show ?thesis
    by (simp add: UNICODE_VALID_def word_less_nat_alt)
qed

lemma UTF8_LENGTH_eq:
  "UTF8_LENGTH c = 2 \<longleftrightarrow> 0x80 \<le> unat c \<and> unat c < 0x800"
  "UTF8_LENGTH c = 3 \<longleftrightarrow> 0x800 \<le> unat c \<and> unat c < 0x10000"
  "UTF8_LENGTH c = 4 \<longleftrightarrow> 0x10000 \<le> unat c \<and> unat c < 0x200000"
  "UTF8_LENGTH c = 5 \<longleftrightarrow> 0x200000 \<le> unat c \<and> unat c < 0x4000000"
  "UTF8_LENGTH c = 6 \<longleftrightarrow> 0x4000000 \<le> unat c"
  by (auto simp: UTF8_LENGTH_def word_less_nat_alt)

text \<open>
  The payload of a lead byte or a continuation byte: what is left when its tag is taken off.
\<close>

text \<open>
  A byte is a tag plus a payload: \<open>64 * 2\<close> for a continuation byte, \<open>32 * 6\<close>, \<open>16 * 14\<close> and
  \<open>8 * 30\<close> for the lead bytes of two, three and four bytes.
\<close>

lemma tagged_mod: "a < m \<Longrightarrow> (m * q + a) mod m = a" for a :: nat
  by simp

lemma tagged:
  "a < 64 \<Longrightarrow> (128 + a) mod 64 = a" "a < 32 \<Longrightarrow> (192 + a) mod 32 = a"
  "a < 16 \<Longrightarrow> (224 + a) mod 16 = a" "a < 8 \<Longrightarrow> (240 + a) mod 8 = a" for a :: nat
  using tagged_mod [of a 64 2] tagged_mod [of a 32 6] tagged_mod [of a 16 14] tagged_mod [of a 8 30]
  by simp_all

lemma payload:
  fixes c :: byte
  shows "c AND 0xc0 = 0x80 \<longleftrightarrow> (\<exists>a < 64. unat c = 128 + a)"
    and "c AND 0xe0 = 0xc0 \<longleftrightarrow> (\<exists>a < 32. unat c = 192 + a)"
    and "c AND 0xf0 = 0xe0 \<longleftrightarrow> (\<exists>a < 16. unat c = 224 + a)"
    and "c AND 0xf8 = 0xf0 \<longleftrightarrow> (\<exists>a < 8. unat c = 240 + a)"
  unfolding lead_bytes
  by (auto intro: exI [of _ "unat c - 128"] exI [of _ "unat c - 192"] exI [of _ "unat c - 224"]
      exI [of _ "unat c - 240"])

lemma UTF8_GET_loop_step:
  assumes "unat c = 128 + a" "a < 64" "unat r < 2 ^ 26"
  shows "\<exists>r'. UTF8_GET_loop r (c # cs) = UTF8_GET_loop r' cs \<and> unat r' = 64 * unat r + a"
proof -
  from assms(1,2) have "c AND 0xc0 = 0x80" unfolding payload by blast
  moreover have "unat c mod 64 = a"
    by (simp only: assms tagged)
  ultimately show ?thesis
    using continuation_value [OF assms(3), of c]
    by (metis UTF8_GET_loop.simps(2))
qed

lemma lead_payload:
  fixes c :: byte
  shows "unat c = 192 + a \<Longrightarrow> a < 32 \<Longrightarrow> unat ((ucast c :: unichar) AND 0x1f) = a"
    and "unat c = 224 + a \<Longrightarrow> a < 16 \<Longrightarrow> unat ((ucast c :: unichar) AND 0x0f) = a"
    and "unat c = 240 + a \<Longrightarrow> a < 8 \<Longrightarrow> unat ((ucast c :: unichar) AND 0x07) = a"
  by (simp_all only: low_mask_byte tagged)

lemma value2:
  fixes c :: byte
  assumes "unat c = 192 + x" "x < 32" "unat d = 128 + y" "y < 64"
  shows "unat (UTF8_GET_loop (ucast c AND 0x1f) [d]) = 64 * x + y"
  using UTF8_GET_loop_step [OF assms(3,4), of "ucast c AND 0x1f" "[]"] lead_payload(1) [OF assms(1,2)] assms(2)
  by (auto simp del: UTF8_GET_loop.simps(2))

lemma value3:
  fixes c :: byte
  assumes "unat c = 224 + x" "x < 16" "unat d = 128 + y" "y < 64" "unat e = 128 + z" "z < 64"
  shows "unat (UTF8_GET_loop (ucast c AND 0x0f) [d, e]) = 64 * (64 * x + y) + z"
proof -
  obtain r where r: "UTF8_GET_loop (ucast c AND 0x0f) [d, e] = UTF8_GET_loop r [e]"
    "unat r = 64 * x + y"
    using UTF8_GET_loop_step [OF assms(3,4), of "ucast c AND 0x0f" "[e]"]
      lead_payload(2) [OF assms(1,2)] assms(2)
    by (auto simp del: UTF8_GET_loop.simps(2))
  then show ?thesis
    using UTF8_GET_loop_step [OF assms(5,6), of r "[]"] assms(2,4)
    by (auto simp del: UTF8_GET_loop.simps(2))
qed

lemma value4:
  fixes c :: byte
  assumes "unat c = 240 + w" "w < 8" "unat d = 128 + x" "x < 64" "unat e = 128 + y" "y < 64"
    "unat f = 128 + z" "z < 64"
  shows "unat (UTF8_GET_loop (ucast c AND 0x07) [d, e, f]) = 64 * (64 * (64 * w + x) + y) + z"
proof -
  obtain r where r: "UTF8_GET_loop (ucast c AND 0x07) [d, e, f] = UTF8_GET_loop r [e, f]"
    "unat r = 64 * w + x"
    using UTF8_GET_loop_step [OF assms(3,4), of "ucast c AND 0x07" "[e, f]"]
      lead_payload(3) [OF assms(1,2)] assms(2)
    by (auto simp del: UTF8_GET_loop.simps(2))
  obtain r' where r': "UTF8_GET_loop r [e, f] = UTF8_GET_loop r' [f]"
    "unat r' = 64 * (64 * w + x) + y"
    using UTF8_GET_loop_step [OF assms(5,6), of r "[f]"] assms(2,4) r
    by (auto simp del: UTF8_GET_loop.simps(2))
  then show ?thesis
    using UTF8_GET_loop_step [OF assms(7,8), of r' "[]"] assms(2,4,6) r
    by (auto simp del: UTF8_GET_loop.simps(2))
qed

text \<open>The encoder puts the same payloads into the same bytes.\<close>

lemma div_64_powers:
  "n div 4096 = n div 64 div 64" "n div 262144 = n div 64 div 64 div 64" for n :: nat
  by (simp_all flip: div_mult2_eq)

lemma byte_of_unat: "unat (c :: byte) = k \<Longrightarrow> c = of_nat k"
  by auto

lemma unat_of_nat_byte: "k < 256 \<Longrightarrow> unat (of_nat k :: byte) = k"
  by (simp add: unat_of_nat)

lemma digit_div: "y < 64 \<Longrightarrow> (64 * x + y) div 64 = x" "y < 64 \<Longrightarrow> (64 * x + y) mod 64 = y" for x :: nat
  by simp_all

lemma utf8_encode_digits2:
  "x < 32 \<Longrightarrow> y < 64 \<Longrightarrow> 0x80 \<le> 64 * x + y \<Longrightarrow>
     utf8_encode (64 * x + y) = [of_nat (192 + x), of_nat (128 + y)]"
  by (simp add: utf8_encode_def)

lemma utf8_encode_digits3:
  assumes "x < 16" "y < 64" "z < 64" "n = 64 * (64 * x + y) + z" "0x800 \<le> n"
  shows "utf8_encode n = [of_nat (224 + x), of_nat (128 + y), of_nat (128 + z)]"
proof -
  have "n < 0x10000" using assms(1-4) by simp
  moreover have "n mod 64 = z" "n div 64 mod 64 = y" "n div 64 div 64 = x"
    using assms(1-4) by (simp_all only: digit_div)
  moreover note assms(5)
  ultimately show ?thesis
    by (simp add: utf8_encode_def div_64_powers)
qed

lemma utf8_encode_digits4:
  assumes "w < 8" "x < 64" "y < 64" "z < 64" "n = 64 * (64 * (64 * w + x) + y) + z" "0x10000 \<le> n"
  shows "utf8_encode n = [of_nat (240 + w), of_nat (128 + x), of_nat (128 + y), of_nat (128 + z)]"
proof -
  have "n mod 64 = z" "n div 64 mod 64 = y" "n div 64 div 64 mod 64 = x" "n div 64 div 64 div 64 = w"
    using assms(1-5) by (simp_all only: digit_div)
  with assms(6) show ?thesis
    by (simp add: utf8_encode_def div_64_powers)
qed

lemma utf8_encode_cases:
  assumes "0x80 \<le> n" "n < (0x110000 :: nat)"
  obtains (two) x y where "n = 64 * x + y" "x < 32" "y < 64" "n < 0x800"
  | (three) x y z where "n = 64 * (64 * x + y) + z" "x < 16" "y < 64" "z < 64" "0x800 \<le> n"
      "n < 0x10000"
  | (four) w x y z where "n = 64 * (64 * (64 * w + x) + y) + z" "w < 8" "x < 64" "y < 64" "z < 64"
      "0x10000 \<le> n"
proof -
  have n: "n = 64 * (n div 64) + n mod 64"
    "n = 64 * (64 * (n div 64 div 64) + n div 64 mod 64) + n mod 64"
    "n = 64 * (64 * (64 * (n div 64 div 64 div 64) + n div 64 div 64 mod 64) + n div 64 mod 64) +
      n mod 64"
    by simp_all
  consider "n < 0x800" | "0x800 \<le> n" "n < 0x10000" | "0x10000 \<le> n" by linarith
  then show thesis
  proof cases
    case 1
    with two [OF n(1)] show thesis by simp
  next
    case 2
    then have "n div 64 div 64 < 16" by (simp flip: div_mult2_eq)
    with 2 three [OF n(2)] show thesis by simp
  next
    case 3
    from assms(2) have "n div 64 div 64 div 64 < 8" by (simp flip: div_mult2_eq)
    with 3 four [OF n(3)] show thesis by simp
  qed
qed

section \<open>Correctness\<close>

text \<open>The tests of the loop on the first character of \<open>p\<close>.\<close>

definition char_ok :: "bytes \<Rightarrow> nat \<Rightarrow> bool" where
  "char_ok p l \<longleftrightarrow>
     (\<exists>msk. UTF8_COMPUTE (hd p) = (msk, l) \<and> l \<noteq> 0 \<and> l \<le> length p \<and>
       UTF8_LENGTH (UTF8_GET p msk l) = l \<and> UNICODE_VALID (UTF8_GET p msk l))"

lemma UTF8_COMPUTE_eq:
  "UTF8_COMPUTE c =
     (if c < 128 then (0x7f, 1)
      else if 192 \<le> unat c \<and> unat c < 224 then (0x1f, 2)
      else if 224 \<le> unat c \<and> unat c < 240 then (0x0f, 3)
      else if 240 \<le> unat c \<and> unat c < 248 then (0x07, 4)
      else if 248 \<le> unat c \<and> unat c < 252 then (0x03, 5)
      else if 252 \<le> unat c \<and> unat c < 254 then (0x01, 6)
      else (0, 0))"
  by (simp only: UTF8_COMPUTE_def lead_bytes)

lemma char_ok_sound:
  assumes "char_ok p l" "128 \<le> hd p"
  shows "\<exists>n. text_scalar n \<and> 128 \<le> n \<and> take l p = utf8_encode n"
proof -
  from assms(1) obtain msk where c: "UTF8_COMPUTE (hd p) = (msk, l)" "l \<noteq> 0" "l \<le> length p"
    and len: "UTF8_LENGTH (UTF8_GET p msk l) = l" and valid: "UNICODE_VALID (UTF8_GET p msk l)"
    by (auto simp: char_ok_def)
  define n where "n = unat (UTF8_GET p msk l)"
  have found: ?thesis if "128 \<le> n" "take l p = utf8_encode n"
    using valid that by (intro exI [of _ n]) (auto simp: n_def text_scalar_def UNICODE_VALID_iff)
  have cont: "list_all (\<lambda>c. c AND 0xc0 = 0x80) (take (l - 1) (tl p))"
    using valid unfolding UTF8_GET_def by (rule UTF8_GET_valid)
  consider "l = 2" "msk = 0x1f" "hd p AND 0xe0 = 0xc0" | "l = 3" "msk = 0x0f" "hd p AND 0xf0 = 0xe0"
    | "l = 4" "msk = 0x07" "hd p AND 0xf8 = 0xf0" | "l = 5 \<or> l = 6"
    using c assms(2) by (auto simp: UTF8_COMPUTE_def not_less [symmetric] split: if_splits)
  then show ?thesis
  proof cases
    case 1
    with c(3) obtain b d q where p: "p = b # d # q" by (auto simp: numeral_eq_Suc Suc_le_length_iff)
    with 1 cont obtain x y where xy: "unat b = 192 + x" "x < 32" "unat d = 128 + y" "y < 64"
      by (auto simp: payload)
    then have v: "n = 64 * x + y"
      by (simp only: n_def p 1 UTF8_GET_def) (simp del: UTF8_GET_loop.simps add: value2)
    from len 1 have l: "0x80 \<le> n" by (simp only: n_def UTF8_LENGTH_eq)
    have "take l p = utf8_encode n"
      unfolding v utf8_encode_digits2 [OF xy(2,4) l [unfolded v]]
      using byte_of_unat [OF xy(1)] byte_of_unat [OF xy(3)] by (simp add: p 1)
    with l show ?thesis by (intro found) simp_all
  next
    case 2
    with c(3) obtain b d e q where p: "p = b # d # e # q"
      by (auto simp: numeral_eq_Suc Suc_le_length_iff)
    with 2 cont obtain x y z where xy: "unat b = 224 + x" "x < 16" "unat d = 128 + y" "y < 64"
      "unat e = 128 + z" "z < 64"
      by (auto simp: payload)
    then have v: "n = 64 * (64 * x + y) + z"
      by (simp only: n_def p 2 UTF8_GET_def) (simp del: UTF8_GET_loop.simps distrib_left_numeral add: value3)
    from len 2 have l: "0x800 \<le> n" by (simp only: n_def UTF8_LENGTH_eq)
    have "take l p = utf8_encode n"
      unfolding utf8_encode_digits3 [OF xy(2,4,6) v l]
      using byte_of_unat [OF xy(1)] byte_of_unat [OF xy(3)] byte_of_unat [OF xy(5)]
      by (simp add: p 2)
    with l show ?thesis by (intro found) simp_all
  next
    case 3
    with c(3) obtain b d e f q where p: "p = b # d # e # f # q"
      by (auto simp: numeral_eq_Suc Suc_le_length_iff)
    with 3 cont obtain w x y z where xy: "unat b = 240 + w" "w < 8" "unat d = 128 + x" "x < 64"
      "unat e = 128 + y" "y < 64" "unat f = 128 + z" "z < 64"
      by (auto simp: payload)
    then have v: "n = 64 * (64 * (64 * w + x) + y) + z"
      by (simp only: n_def p 3 UTF8_GET_def) (simp del: UTF8_GET_loop.simps distrib_left_numeral add: value4)
    from len 3 have l: "0x10000 \<le> n" by (simp only: n_def UTF8_LENGTH_eq)
    have "take l p = utf8_encode n"
      unfolding utf8_encode_digits4 [OF xy(2,4,6,8) v l]
      using byte_of_unat [OF xy(1)] byte_of_unat [OF xy(3)] byte_of_unat [OF xy(5)]
        byte_of_unat [OF xy(7)]
      by (simp add: p 3)
    with l show ?thesis by (intro found) simp_all
  next
    case 4
    with len have "0x200000 \<le> unat (UTF8_GET p msk l)" by (auto simp only: UTF8_LENGTH_eq)
    with valid show ?thesis by (simp add: UNICODE_VALID_iff)
  qed
qed

lemma char_okI:
  assumes "UTF8_COMPUTE (hd p) = (msk, l)" "l \<le> length p" "unat (UTF8_GET p msk l) = n"
    and "n < 0x110000" "\<not> (0xD800 \<le> n \<and> n < 0xE000)"
    and "l = 2 \<and> 0x80 \<le> n \<and> n < 0x800 \<or> l = 3 \<and> 0x800 \<le> n \<and> n < 0x10000 \<or>
      l = 4 \<and> 0x10000 \<le> n"
  shows "char_ok p l"
  unfolding char_ok_def using assms
  by (intro exI [of _ msk]) (auto simp: UTF8_LENGTH_eq UNICODE_VALID_iff)

lemma char_ok_complete:
  assumes "text_scalar n" "128 \<le> n"
  shows "char_ok (utf8_encode n @ q) (length (utf8_encode n)) \<and> 128 \<le> hd (utf8_encode n @ q)"
proof -
  have n: "0x80 \<le> n" "n < 0x110000" and valid: "\<not> (0xD800 \<le> n \<and> n < 0xE000)"
    using assms by (auto simp: text_scalar_def)
  show ?thesis
    using n
  proof (cases rule: utf8_encode_cases)
    case (two x y)
    then have e: "utf8_encode n = [of_nat (192 + x), of_nat (128 + y)]"
      using utf8_encode_digits2 [of x y] n(1) by simp
    have u: "unat (of_nat (192 + x) :: byte) = 192 + x" "unat (of_nat (128 + y) :: byte) = 128 + y"
      using two by (intro unat_of_nat_byte; simp)+
    have v: "unat (UTF8_GET (utf8_encode n @ q) 0x1f 2) = n"
      unfolding e UTF8_GET_def using value2 [OF u(1) two(2) u(2) two(3)] two(1)
      by (simp del: UTF8_GET_loop.simps of_nat_add)
    have "UTF8_COMPUTE (of_nat (192 + x)) = (0x1f, 2)" "128 \<le> (of_nat (192 + x) :: byte)"
      using two(2) by (simp_all only: UTF8_COMPUTE_eq u word_less_nat_alt word_le_nat_alt) simp_all
    moreover have len: "length (utf8_encode n) = 2" by (simp add: e)
    ultimately show ?thesis
      unfolding len using v n two(4) valid
      by (intro conjI char_okI [of _ "0x1f" 2 n]) (simp_all add: e del: of_nat_add)
  next
    case (three x y z)
    then have e: "utf8_encode n = [of_nat (224 + x), of_nat (128 + y), of_nat (128 + z)]"
      using utf8_encode_digits3 by blast
    have u: "unat (of_nat (224 + x) :: byte) = 224 + x" "unat (of_nat (128 + y) :: byte) = 128 + y"
      "unat (of_nat (128 + z) :: byte) = 128 + z"
      using three by (intro unat_of_nat_byte; simp)+
    have v: "unat (UTF8_GET (utf8_encode n @ q) 0x0f 3) = n"
      unfolding e UTF8_GET_def using value3 [OF u(1) three(2) u(2) three(3) u(3) three(4)] three(1)
      by (simp del: UTF8_GET_loop.simps of_nat_add distrib_left_numeral)
    have "UTF8_COMPUTE (of_nat (224 + x)) = (0x0f, 3)" "128 \<le> (of_nat (224 + x) :: byte)"
      using three(2) by (simp_all only: UTF8_COMPUTE_eq u word_less_nat_alt word_le_nat_alt) simp_all
    moreover have len: "length (utf8_encode n) = 3" by (simp add: e)
    ultimately show ?thesis
      unfolding len using v n three(5,6) valid
      by (intro conjI char_okI [of _ "0x0f" 3 n]) (simp_all add: e del: of_nat_add)
  next
    case (four w x y z)
    then have e: "utf8_encode n = [of_nat (240 + w), of_nat (128 + x), of_nat (128 + y), of_nat (128 + z)]"
      using utf8_encode_digits4 by blast
    have u: "unat (of_nat (240 + w) :: byte) = 240 + w" "unat (of_nat (128 + x) :: byte) = 128 + x"
      "unat (of_nat (128 + y) :: byte) = 128 + y" "unat (of_nat (128 + z) :: byte) = 128 + z"
      using four by (intro unat_of_nat_byte; simp)+
    have v: "unat (UTF8_GET (utf8_encode n @ q) 0x07 4) = n"
      unfolding e UTF8_GET_def
      using value4 [OF u(1) four(2) u(2) four(3) u(3) four(4) u(4) four(5)] four(1)
      by (simp del: UTF8_GET_loop.simps of_nat_add distrib_left_numeral)
    have "UTF8_COMPUTE (of_nat (240 + w)) = (0x07, 4)" "128 \<le> (of_nat (240 + w) :: byte)"
      using four(2) by (simp_all only: UTF8_COMPUTE_eq u word_less_nat_alt word_le_nat_alt) simp_all
    moreover have len: "length (utf8_encode n) = 4" by (simp add: e)
    ultimately show ?thesis
      unfolding len using v n four(6) valid
      by (intro conjI char_okI [of _ "0x07" 4 n]) (simp_all add: e del: of_nat_add)
  qed
qed

lemma validate_utf8_loop_step:
  assumes "p \<noteq> []" "128 \<le> hd p"
  shows "validate_utf8_loop p \<longleftrightarrow> (\<exists>l. char_ok p l \<and> validate_utf8_loop (drop l p))"
proof -
  have "hd p \<noteq> 0" "\<not> hd p < 128" using assms(2) by (auto simp: not_less)
  with assms(1) show ?thesis
    by (cases "UTF8_COMPUTE (hd p)")
      (auto simp: validate_utf8_loop.simps [of p] char_ok_def Let_def not_less)
qed

lemma utf8_encode_ascii: "n < 128 \<Longrightarrow> utf8_encode n = [of_nat n]"
  by (simp add: utf8_encode_def)

lemma utf8_encode_ne [simp]: "utf8_encode n \<noteq> []"
  by (simp add: utf8_encode_def)

lemma validate_utf8_loop_sound:
  "validate_utf8_loop p \<Longrightarrow> \<exists>ns. list_all text_scalar ns \<and> p = concat (map utf8_encode ns)"
proof (induction "length p" arbitrary: p rule: less_induct)
  case less
  show ?case
  proof (cases p)
    case Nil
    then show ?thesis by (intro exI [of _ "[]"]) simp
  next
    case (Cons c cs)
    show ?thesis
    proof (cases "c < 128")
      case True
      with less.prems Cons have c: "c \<noteq> 0" "validate_utf8_loop cs"
        by (auto simp: validate_utf8_loop.simps [of "c # cs"] split: if_splits)
      from less.hyps [OF _ c(2)] Cons obtain ns where
        ns: "list_all text_scalar ns" "cs = concat (map utf8_encode ns)" by auto
      from True c(1) have "text_scalar (unat c)" "unat c < 128"
        by (auto simp: text_scalar_def word_less_nat_alt unat_gt_0)
      with ns Cons show ?thesis
        by (intro exI [of _ "unat c # ns"]) (simp add: utf8_encode_ascii)
    next
      case False
      then have ge: "128 \<le> hd p" using Cons by simp
      with less.prems Cons validate_utf8_loop_step [of p] obtain l where
        l: "char_ok p l" "validate_utf8_loop (drop l p)" by auto
      from char_ok_sound [OF l(1) ge] obtain n where
        n: "text_scalar n" "take l p = utf8_encode n" by blast
      have "length (drop l p) < length p" using l(1) Cons by (auto simp: char_ok_def)
      from less.hyps [OF this l(2)] obtain ns where
        "list_all text_scalar ns" "drop l p = concat (map utf8_encode ns)" by blast
      with n show ?thesis
        using append_take_drop_id [of l p] by (intro exI [of _ "n # ns"]) simp
    qed
  qed
qed

lemma validate_utf8_loop_complete:
  "list_all text_scalar ns \<Longrightarrow> validate_utf8_loop (concat (map utf8_encode ns))"
proof (induction ns)
  case Nil
  then show ?case by (simp add: validate_utf8_loop.simps)
next
  case (Cons n ns)
  show ?case
  proof (cases "n < 128")
    case True
    with Cons have "0 < n" by (simp add: text_scalar_def)
    with True have u: "unat (of_nat n :: byte) = n" by (simp add: unat_of_nat_byte)
    with True \<open>0 < n\<close> have "(of_nat n :: byte) \<noteq> 0" "(of_nat n :: byte) < 128"
      by (auto simp: word_less_nat_alt word_eq_unat)
    with Cons True show ?thesis
      by (simp add: utf8_encode_ascii validate_utf8_loop.simps [of "of_nat n # _"])
  next
    case False
    with Cons char_ok_complete [of n "concat (map utf8_encode ns)"] show ?thesis
      by (subst validate_utf8_loop_step) auto
  qed
qed

text \<open>
  C13. The UTF-8 validator accepts exactly the ranges that are the concatenated encodings of
  Unicode scalar values other than NUL: no overlong form, no surrogate, nothing beyond 0x10FFFF.
\<close>

theorem validate_utf8_iff:
  "validate_utf8 str start len \<longleftrightarrow>
     len \<le> length str - start \<and>
     (\<exists>ns. list_all text_scalar ns \<and> substring str start len = concat (map utf8_encode ns))"
  using validate_utf8_loop_sound validate_utf8_loop_complete
  by (auto simp: validate_utf8_def not_less)

definition validate_ascii :: "bytes \<Rightarrow> nat \<Rightarrow> nat \<Rightarrow> bool" where
  "validate_ascii str start len =
     (if len > length str - start then False else validate_ascii_loop (substring str start len))"

definition validate_nul :: "bytes \<Rightarrow> nat \<Rightarrow> nat \<Rightarrow> bool" where
  "validate_nul str start len =
     (if len > length str - start then False else validate_nul_loop (substring str start len))"

lemma validate_ascii_loop_eq:
  "validate_ascii_loop cs = list_all (\<lambda>c. c \<noteq> 0 \<and> c < 128) cs"
  by (induction cs) (auto simp: lead_bytes word_less_nat_alt)

theorem validate_ascii_utf8:
  "validate_ascii str start len \<Longrightarrow> validate_utf8 str start len"
proof -
  have "list_all (\<lambda>c. c \<noteq> 0 \<and> c < 128) cs \<Longrightarrow> validate_utf8_loop cs" for cs
    by (induction cs) (simp_all add: validate_utf8_loop.simps [of "_ # _"] validate_utf8_loop.simps [of "[]"])
  then show "validate_ascii str start len \<Longrightarrow> validate_utf8 str start len"
    by (auto simp: validate_ascii_def validate_utf8_def validate_ascii_loop_eq split: if_splits)
qed

lemma validate_nul_loop_eq: "validate_nul_loop cs = list_all (\<lambda>c. c = 0) cs"
  by (induction cs) auto

end
