(* ===== verification/Body.thy ===== *)
theory Body
  imports TypeReader Names Utf8
begin

text \<open>
  Validation of a message body against its signature: \<^verbatim>\<open>validate_body_helper\<close> and
  \<^verbatim>\<open>_dbus_validate_body_with_reason\<close> of \<^verbatim>\<open>dbus/dbus-marshal-validate.c\<close>. Pointers are addresses,
  the memory gives the byte at an address or nothing where reading is not allowed; such a read, a
  failed assertion and an exhausted bound on the recursion are \<open>None\<close>.
\<close>

section \<open>Definitions\<close>

type_synonym memory = "nat \<Rightarrow> byte option"

fun load_bytes :: "memory \<Rightarrow> nat \<Rightarrow> nat \<Rightarrow> bytes option" where
  "load_bytes M p 0 = Some []"
| "load_bytes M p (Suc n) = do { b \<leftarrow> M p; bs \<leftarrow> load_bytes M (p + 1) n; Some (b # bs) }"

definition load_uint32 :: "memory \<Rightarrow> byte_order \<Rightarrow> byte_order \<Rightarrow> nat \<Rightarrow> 32 word option" where
  "load_uint32 M host byte_order p =
     do { data \<leftarrow> load_bytes M p 4; Some (unpack_uint32 host byte_order data) }"

text \<open>The loops over alignment padding: \<open>n\<close> bytes from \<open>p\<close> on are NUL.\<close>

fun padding_loop :: "memory \<Rightarrow> nat \<Rightarrow> nat \<Rightarrow> bool option" where
  "padding_loop M p 0 = Some True"
| "padding_loop M p (Suc n) = do { b \<leftarrow> M p; if b \<noteq> 0 then Some False else padding_loop M (p + 1) n }"

text \<open>
  What a validating step answers: a reason for rejection or a value, and the answers left for
  later allocations.
\<close>

type_synonym 'a verdict = "((DBusValidity + 'a) \<times> mem) option"

definition reject :: "DBusValidity \<Rightarrow> mem \<Rightarrow> 'a verdict" where
  "reject reason m = Some (Inl reason, m)"

definition accept :: "'a \<Rightarrow> mem \<Rightarrow> 'a verdict" where
  "accept x m = Some (Inr x, m)"

definition vbind :: "'a verdict \<Rightarrow> ('a \<Rightarrow> mem \<Rightarrow> 'b verdict) \<Rightarrow> 'b verdict" where
  "vbind r f = (case r of None \<Rightarrow> None | Some (Inl e, m) \<Rightarrow> Some (Inl e, m) | Some (Inr x, m) \<Rightarrow> f x m)"

text \<open>Skipping the padding between \<open>p\<close> and the aligned address \<open>a\<close>.\<close>

definition skip_padding :: "memory \<Rightarrow> nat \<Rightarrow> nat \<Rightarrow> mem \<Rightarrow> nat verdict" where
  "skip_padding M p a m =
     do { nul \<leftarrow> padding_loop M p (a - p);
          if nul then accept a m else reject DBUS_INVALID_ALIGNMENT_PADDING_NOT_NUL m }"

definition validate_fixed :: "memory \<Rightarrow> byte_order \<Rightarrow> byte_order \<Rightarrow> byte \<Rightarrow> nat \<Rightarrow> nat \<Rightarrow> mem \<Rightarrow> nat verdict" where
  "validate_fixed M host byte_order current_type p e m =
     do { alignment \<leftarrow> type_get_alignment current_type;
          let a = align_value p alignment;
          if a \<ge> e then reject DBUS_INVALID_NOT_ENOUGH_DATA m
          else vbind (skip_padding M p a m) (\<lambda>p m.
            do { bad \<leftarrow> (if current_type = DBUS_TYPE_BOOLEAN
                        then do { v \<leftarrow> load_uint32 M host byte_order p; Some (\<not> (v = 0 \<or> v = 1)) }
                        else Some False);
                 if bad then reject DBUS_INVALID_BOOLEAN_NOT_ZERO_OR_ONE m
                 else accept (p + alignment) m }) }"

text \<open>The length in front of an array, string or object path; \<open>p\<close> is left after it.\<close>

definition validate_length :: "memory \<Rightarrow> byte_order \<Rightarrow> byte_order \<Rightarrow> nat \<Rightarrow> nat \<Rightarrow> mem \<Rightarrow> (nat \<times> nat) verdict" where
  "validate_length M host byte_order p e m =
     (let a = align_value p 4 in
      if a + 4 > e then reject DBUS_INVALID_NOT_ENOUGH_DATA m
      else vbind (skip_padding M p a m) (\<lambda>p m.
        do { claimed_len \<leftarrow> load_uint32 M host byte_order p;
             check (p + 4 \<le> e);
             accept (unat claimed_len, p + 4) m }))"

text \<open>The end of a string or object path: its NUL.\<close>

definition validate_string_nul :: "memory \<Rightarrow> nat \<Rightarrow> nat \<Rightarrow> mem \<Rightarrow> nat verdict" where
  "validate_string_nul M p e m =
     (if p = e then reject DBUS_INVALID_NOT_ENOUGH_DATA m
      else do { b \<leftarrow> M p;
                if b \<noteq> 0 then reject DBUS_INVALID_STRING_MISSING_NUL m else accept (p + 1) m })"

definition validate_string_like ::
    "memory \<Rightarrow> byte_order \<Rightarrow> byte_order \<Rightarrow> byte \<Rightarrow> nat \<Rightarrow> nat \<Rightarrow> mem \<Rightarrow> nat verdict" where
  "validate_string_like M host byte_order current_type p e m =
     vbind (validate_length M host byte_order p e m) (\<lambda>(claimed_len, p) m.
       if claimed_len > e - p then reject DBUS_INVALID_LENGTH_OUT_OF_BOUNDS m
       else do { s \<leftarrow> load_bytes M p claimed_len;
                 if current_type = DBUS_TYPE_OBJECT_PATH \<and> \<not> validate_path s 0 (length s)
                 then reject DBUS_INVALID_BAD_PATH m
                 else if current_type = DBUS_TYPE_STRING \<and> \<not> validate_utf8 s 0 (length s)
                 then reject DBUS_INVALID_BAD_UTF8_IN_STRING m
                 else validate_string_nul M (p + claimed_len) e m })"

text \<open>
  The signature string at \<open>p\<close>, validated with \<^verbatim>\<open>_dbus_validate_signature_with_reason\<close>, which
  looks at the byte after it. The result is the signature and the position after its NUL.
\<close>

definition validate_signature_value :: "memory \<Rightarrow> nat \<Rightarrow> nat \<Rightarrow> mem \<Rightarrow> nat verdict" where
  "validate_signature_value M p e m =
     do { len \<leftarrow> M p;
          let claimed_len = unat len; let p = p + 1;
          if claimed_len + 1 > e - p then reject DBUS_INVALID_SIGNATURE_LENGTH_OUT_OF_BOUNDS m
          else do { s \<leftarrow> load_bytes M p (claimed_len + 1);
                    let (validity, m) = validate_signature_with_reason m s 0 claimed_len;
                    if validity \<noteq> DBUS_VALID then reject validity m
                    else do { check (p + claimed_len < e);
                              nul \<leftarrow> M (p + claimed_len);
                              if nul \<noteq> DBUS_TYPE_INVALID then reject DBUS_INVALID_SIGNATURE_MISSING_NUL m
                              else accept (p + claimed_len + 1) m } } }"

text \<open>The part of the variant case before the contained value: its signature and the aligned position.\<close>

definition validate_variant_signature :: "memory \<Rightarrow> nat \<Rightarrow> nat \<Rightarrow> mem \<Rightarrow> (bytes \<times> nat) verdict" where
  "validate_variant_signature M p e m =
     do { len \<leftarrow> M p;
          let claimed_len = unat len; let p = p + 1;
          if claimed_len + 1 > e - p then reject DBUS_INVALID_VARIANT_SIGNATURE_LENGTH_OUT_OF_BOUNDS m
          else do { s \<leftarrow> load_bytes M p (claimed_len + 1);
                    let (reason, m) = validate_signature_with_reason m s 0 claimed_len;
                    if reason \<noteq> DBUS_VALID then
                      reject (if reason = DBUS_VALIDITY_UNKNOWN_OOM_ERROR then reason
                              else DBUS_INVALID_VARIANT_SIGNATURE_BAD) m
                    else do { nul \<leftarrow> M (p + claimed_len);
                              if nul \<noteq> DBUS_TYPE_INVALID then reject DBUS_INVALID_VARIANT_SIGNATURE_MISSING_NUL m
                              else do {
                                let p = p + claimed_len + 1;
                                let contained_type = first_type_in_signature s 0;
                                if contained_type = DBUS_TYPE_INVALID
                                then reject DBUS_INVALID_VARIANT_SIGNATURE_EMPTY m
                                else do { contained_alignment \<leftarrow> type_get_alignment contained_type;
                                          let a = align_value p contained_alignment;
                                          if a > e then reject DBUS_INVALID_NOT_ENOUGH_DATA m
                                          else vbind (skip_padding M p a m) (\<lambda>p m. accept (s, p) m) } } } } }"

text \<open>The loop over an array of booleans, which has a fast path of its own.\<close>

function bool_array_loop :: "memory \<Rightarrow> byte_order \<Rightarrow> byte_order \<Rightarrow> nat \<Rightarrow> nat \<Rightarrow> mem \<Rightarrow> nat verdict" where
  "bool_array_loop M host byte_order p array_end m =
     (if p < array_end then
        (case load_uint32 M host byte_order p of
           None \<Rightarrow> None
         | Some v \<Rightarrow> if \<not> (v = 0 \<or> v = 1) then reject DBUS_INVALID_BOOLEAN_NOT_ZERO_OR_ONE m
                     else bool_array_loop M host byte_order (p + 4) array_end m)
      else accept p m)"
  by pat_completeness auto
termination
  by (relation "measure (\<lambda>(M, host, b, p, e, m). e - p)") auto

text \<open>The array case up to its elements: the length, the padding and the limits.\<close>

definition validate_array_start ::
    "memory \<Rightarrow> byte_order \<Rightarrow> byte_order \<Rightarrow> type_reader \<Rightarrow> nat \<Rightarrow> nat \<Rightarrow> mem \<Rightarrow> (nat \<times> nat) verdict" where
  "validate_array_start M host byte_order reader p e m =
     vbind (validate_length M host byte_order p e m) (\<lambda>(claimed_len, p) m.
       do { array_elem_type \<leftarrow> type_reader_get_element_type host reader;
            if \<not> dbus_type_is_valid array_elem_type then reject DBUS_INVALID_UNKNOWN_TYPECODE m
            else do { alignment \<leftarrow> type_get_alignment array_elem_type;
                      let a = align_value p alignment;
                      if a > e then reject DBUS_INVALID_NOT_ENOUGH_DATA m
                      else vbind (skip_padding M p a m) (\<lambda>p m.
                        if claimed_len > e - p then reject DBUS_INVALID_LENGTH_OUT_OF_BOUNDS m
                        else if claimed_len > DBUS_MAXIMUM_ARRAY_LENGTH
                        then reject DBUS_INVALID_ARRAY_LENGTH_EXCEEDS_MAXIMUM m
                        else accept (claimed_len, p) m) } })"

text \<open>
  The recursive calls of the helper, with the reader, whether to walk it to its end, the depth and
  the position.
\<close>

type_synonym helper = "type_reader \<Rightarrow> bool \<Rightarrow> nat \<Rightarrow> nat \<Rightarrow> mem \<Rightarrow> nat verdict"

text \<open>The loop over the elements of an array, with a bound on the iterations.\<close>

primrec array_loop :: "nat \<Rightarrow> (nat \<Rightarrow> mem \<Rightarrow> nat verdict) \<Rightarrow> nat \<Rightarrow> nat \<Rightarrow> mem \<Rightarrow> nat verdict" where
  "array_loop 0 elem p array_end m = (if p < array_end then None else accept p m)"
| "array_loop (Suc k) elem p array_end m =
     (if p < array_end then vbind (elem p m) (\<lambda>p m. array_loop k elem p array_end m)
      else accept p m)"

definition validate_array ::
    "helper \<Rightarrow> memory \<Rightarrow> byte_order \<Rightarrow> byte_order \<Rightarrow> type_reader \<Rightarrow> nat \<Rightarrow> nat \<Rightarrow> nat \<Rightarrow> mem \<Rightarrow> nat verdict" where
  "validate_array helper M host byte_order reader total_depth p e m =
     vbind (validate_array_start M host byte_order reader p e m) (\<lambda>(claimed_len, p) m.
       if claimed_len = 0 then accept p m
       else do { sub \<leftarrow> type_reader_recurse reader;
                 let array_end = p + claimed_len;
                 array_elem_type \<leftarrow> type_reader_get_element_type host reader;
                 vbind (if dbus_type_is_fixed array_elem_type then
                          if array_elem_type = DBUS_TYPE_BOOLEAN
                          then bool_array_loop M host byte_order p array_end m
                          else accept array_end m
                        else array_loop claimed_len (helper sub False (total_depth + 1)) p array_end m)
                   (\<lambda>p m. if p \<noteq> array_end then reject DBUS_INVALID_ARRAY_LENGTH_INCORRECT m
                          else accept p m) })"

definition validate_variant ::
    "helper \<Rightarrow> memory \<Rightarrow> byte_order \<Rightarrow> nat \<Rightarrow> nat \<Rightarrow> nat \<Rightarrow> mem \<Rightarrow> nat verdict" where
  "validate_variant helper M host total_depth p e m =
     vbind (validate_variant_signature M p e m) (\<lambda>(sig, p) m.
       let sub = type_reader_init_types_only host sig 0 in
       do { t \<leftarrow> type_reader_get_current_type host sub;
            check (t \<noteq> DBUS_TYPE_INVALID);
            vbind (helper sub False (total_depth + 1) p m) (\<lambda>p m.
              do { (again, sub) \<leftarrow> type_reader_next host sub;
                   if again then reject DBUS_INVALID_VARIANT_SIGNATURE_SPECIFIES_MULTIPLE_VALUES m
                   else do { t \<leftarrow> type_reader_get_current_type host sub;
                             check (t = DBUS_TYPE_INVALID);
                             accept p m } }) })"

definition validate_members ::
    "helper \<Rightarrow> memory \<Rightarrow> type_reader \<Rightarrow> nat \<Rightarrow> nat \<Rightarrow> nat \<Rightarrow> mem \<Rightarrow> nat verdict" where
  "validate_members helper M reader total_depth p e m =
     (let a = align_value p 8 in
      if a > e then reject DBUS_INVALID_NOT_ENOUGH_DATA m
      else vbind (skip_padding M p a m) (\<lambda>p m.
        do { sub \<leftarrow> type_reader_recurse reader; helper sub True (total_depth + 1) p m }))"

text \<open>The switch over the current type.\<close>

definition validate_value ::
    "helper \<Rightarrow> memory \<Rightarrow> byte_order \<Rightarrow> byte_order \<Rightarrow> nat \<Rightarrow> nat \<Rightarrow> type_reader \<Rightarrow> byte \<Rightarrow> nat \<Rightarrow> mem \<Rightarrow> nat verdict" where
  "validate_value helper M host byte_order total_depth e reader current_type p m =
     (if current_type = DBUS_TYPE_BYTE then accept (p + 1) m
      else if current_type = DBUS_TYPE_BOOLEAN \<or> is_two current_type \<or> is_four current_type \<or> is_eight current_type
      then validate_fixed M host byte_order current_type p e m
      else if current_type = DBUS_TYPE_ARRAY
      then validate_array helper M host byte_order reader total_depth p e m
      else if is_string_like current_type
      then validate_string_like M host byte_order current_type p e m
      else if current_type = DBUS_TYPE_SIGNATURE then validate_signature_value M p e m
      else if current_type = DBUS_TYPE_VARIANT then validate_variant helper M host total_depth p e m
      else if current_type = DBUS_TYPE_DICT_ENTRY \<or> current_type = DBUS_TYPE_STRUCT
      then validate_members helper M reader total_depth p e m
      else None)"

text \<open>The loop over the types of the reader, with a bound on the iterations.\<close>

primrec type_loop ::
    "nat \<Rightarrow> (type_reader \<Rightarrow> byte \<Rightarrow> nat \<Rightarrow> mem \<Rightarrow> nat verdict) \<Rightarrow> byte_order \<Rightarrow> nat \<Rightarrow> type_reader \<Rightarrow> bool \<Rightarrow>
     nat \<Rightarrow> mem \<Rightarrow> nat verdict" where
  "type_loop 0 val host e reader walk p m = None"
| "type_loop (Suc k) val host e reader walk p m =
     do { current_type \<leftarrow> type_reader_get_current_type host reader;
          if current_type = DBUS_TYPE_INVALID then accept p m
          else if p = e then reject DBUS_INVALID_NOT_ENOUGH_DATA m
          else vbind (val reader current_type p m) (\<lambda>p m.
            if p > e then reject DBUS_INVALID_NOT_ENOUGH_DATA m
            else if walk then
              do { (again, reader) \<leftarrow> type_reader_next host reader;
                   type_loop k val host e reader walk p m }
            else accept p m) }"

text \<open>
  The helper, with a bound on the recursion. Every nested call increments \<^verbatim>\<open>total_depth\<close>, which
  may not exceed 64, so the bound 66 is never reached from depth 0.
\<close>

primrec validate_body_helper ::
    "nat \<Rightarrow> memory \<Rightarrow> byte_order \<Rightarrow> byte_order \<Rightarrow> nat \<Rightarrow> helper" where
  "validate_body_helper 0 M host byte_order e reader walk total_depth p m = None"
| "validate_body_helper (Suc n) M host byte_order e reader walk total_depth p m =
     (if total_depth > DBUS_MAXIMUM_TYPE_RECURSION_DEPTH * 2
      then reject DBUS_INVALID_NESTED_TOO_DEEPLY m
      else type_loop (length (tr_type_str reader) + 1)
        (validate_value (validate_body_helper n M host byte_order e) M host byte_order total_depth e)
        host e reader walk p m)"

definition body_depth :: nat where "body_depth = 66"

text \<open>
  \<^verbatim>\<open>_dbus_validate_body_with_reason\<close> for the \<^verbatim>\<open>len\<close> bytes at address \<open>p\<close>; the result is the number
  of bytes left, which must be 0 unless the caller asks for it.
\<close>

definition validate_body_with_reason ::
    "memory \<Rightarrow> byte_order \<Rightarrow> bytes \<Rightarrow> nat \<Rightarrow> byte_order \<Rightarrow> bool \<Rightarrow> nat \<Rightarrow> nat \<Rightarrow> mem \<Rightarrow> nat verdict" where
  "validate_body_with_reason M host expected_signature expected_signature_start byte_order bytes_remaining p len m =
     (let e = p + len in
      vbind (validate_body_helper body_depth M host byte_order e
          (type_reader_init_types_only host expected_signature expected_signature_start) True 0 p m)
        (\<lambda>p m. if bytes_remaining then accept (e - p) m
               else if p < e then reject DBUS_INVALID_TOO_MUCH_DATA m
               else do { check (p = e); accept 0 m }))"

section \<open>Safety\<close>

text \<open>
  The boolean cases read four bytes where only the first is known to lie in the body. The region
  a validation may read is the body and three bytes after it.
\<close>

definition region :: "memory \<Rightarrow> nat \<Rightarrow> nat \<Rightarrow> bool" where
  "region M lo e \<longleftrightarrow> (\<forall>a. lo \<le> a \<longrightarrow> a < e + 3 \<longrightarrow> M a \<noteq> None)"

lemma region_read: "region M lo e \<Longrightarrow> lo \<le> a \<Longrightarrow> a < e + 3 \<Longrightarrow> \<exists>b. M a = Some b"
  by (auto simp: region_def)

lemma load_bytes_region:
  "region M lo e \<Longrightarrow> lo \<le> p \<Longrightarrow> p + n \<le> e + 3 \<Longrightarrow> \<exists>bs. load_bytes M p n = Some bs \<and> length bs = n"
proof (induction n arbitrary: p)
  case (Suc n)
  have "\<exists>b. M p = Some b" by (rule region_read [OF Suc.prems(1)]) (use Suc.prems in simp_all)
  moreover have "\<exists>bs. load_bytes M (p + 1) n = Some bs \<and> length bs = n"
    by (rule Suc.IH) (use Suc.prems in simp_all)
  ultimately show ?case by auto
qed simp

lemma load_uint32_region:
  "region M lo e \<Longrightarrow> lo \<le> p \<Longrightarrow> p < e \<Longrightarrow> \<exists>v. load_uint32 M host b p = Some v"
  using load_bytes_region [of M lo e p 4] by (auto simp: load_uint32_def)

lemma padding_loop_region:
  "region M lo e \<Longrightarrow> lo \<le> p \<Longrightarrow> p + n \<le> e + 3 \<Longrightarrow> \<exists>nul. padding_loop M p n = Some nul"
proof (induction n arbitrary: p)
  case (Suc n)
  have "\<exists>b. M p = Some b" by (rule region_read [OF Suc.prems(1)]) (use Suc.prems in simp_all)
  moreover have "\<exists>nul. padding_loop M (p + 1) n = Some nul"
    by (rule Suc.IH) (use Suc.prems in simp_all)
  ultimately show ?case by auto
qed (simp, blast)

text \<open>A step ends: it rejects, or accepts a value with the property.\<close>

definition ends :: "('a \<Rightarrow> bool) \<Rightarrow> 'a verdict \<Rightarrow> bool" where
  "ends P r \<longleftrightarrow> (\<exists>x m. r = Some (x, m) \<and> (\<forall>v. x = Inr v \<longrightarrow> P v))"

lemma ends_reject [simp, intro]: "ends P (reject e m)"
  by (simp add: ends_def reject_def)

lemma ends_accept [simp]: "ends P (accept v m) \<longleftrightarrow> P v"
  by (simp add: ends_def accept_def)

lemma ends_vbind:
  assumes "ends P r" "\<And>v m. P v \<Longrightarrow> ends Q (f v m)"
  shows "ends Q (vbind r f)"
proof -
  from assms(1) obtain x m where "r = Some (x, m)" "\<forall>v. x = Inr v \<longrightarrow> P v" by (auto simp: ends_def)
  then show ?thesis using assms(2) by (cases x) (auto simp: vbind_def ends_def)
qed

lemma ends_mono: "ends P r \<Longrightarrow> (\<And>v. P v \<Longrightarrow> Q v) \<Longrightarrow> ends Q r"
  by (auto simp: ends_def)

lemma skip_padding_ends:
  assumes "region M lo e" "lo \<le> p" "a \<le> e" "p \<le> a"
  shows "ends (\<lambda>q. q = a) (skip_padding M p a m)"
  using padding_loop_region [OF assms(1,2), of "a - p"] assms(3,4)
  by (auto simp: skip_padding_def)

lemma alignments: "type_get_alignment t = Some a \<Longrightarrow> a \<in> {1, 2, 4, 8}"
  by (auto simp: type_get_alignment_def split: if_splits)

lemma alignment_ge: "type_get_alignment t = Some a \<Longrightarrow> 0 < a \<and> p \<le> align_value p a"
  using alignments [of t a] align_value_bounds(1) [of a p] by auto

lemma validate_fixed_ends:
  assumes "region M lo e" "lo \<le> p" "type_get_alignment t = Some al"
  shows "ends (\<lambda>q. p < q) (validate_fixed M host b t p e m)"
proof -
  have al: "0 < al" "p \<le> align_value p al" using alignment_ge [OF assms(3)] by auto
  show ?thesis
  proof (cases "align_value p al \<ge> e")
    case False
    have "ends (\<lambda>q. p < q)
      (do { bad \<leftarrow> (if t = DBUS_TYPE_BOOLEAN
              then do { v \<leftarrow> load_uint32 M host b q; Some (\<not> (v = 0 \<or> v = 1)) } else Some False);
            if bad then reject DBUS_INVALID_BOOLEAN_NOT_ZERO_OR_ONE m'
            else accept (q + al) m' })" if "q = align_value p al" for q m'
      using load_uint32_region [OF assms(1), of q host b] False al assms(2) that by auto
    then have "ends (\<lambda>q. p < q) (vbind (skip_padding M p (align_value p al) m) (\<lambda>p m.
        do { bad \<leftarrow> (if t = DBUS_TYPE_BOOLEAN
              then do { v \<leftarrow> load_uint32 M host b p; Some (\<not> (v = 0 \<or> v = 1)) } else Some False);
            if bad then reject DBUS_INVALID_BOOLEAN_NOT_ZERO_OR_ONE m
            else accept (p + al) m }))"
      using False al assms(1,2) by (intro ends_vbind [OF skip_padding_ends]) auto
    with False assms(3) show ?thesis by (simp add: validate_fixed_def)
  qed (simp add: validate_fixed_def assms(3))
qed

lemma validate_length_ends:
  assumes "region M lo e" "lo \<le> p"
  shows "ends (\<lambda>(n, q). p < q \<and> q \<le> e) (validate_length M host b p e m)"
proof (cases "align_value p 4 + 4 > e")
  case False
  have a: "p \<le> align_value p 4" using align_value_bounds(1) [of 4 p] by simp
  have "ends (\<lambda>(n, q). p < q \<and> q \<le> e)
      (do { v \<leftarrow> load_uint32 M host b q; check (q + 4 \<le> e); accept (unat v, q + 4) m' })"
    if "q = align_value p 4" for q m'
    using load_uint32_region [OF assms(1), of q host b] False a assms(2) that by auto
  then show ?thesis
    using False a assms by (auto simp: validate_length_def intro!: ends_vbind [OF skip_padding_ends])
qed (simp add: validate_length_def)

lemma validate_string_nul_ends:
  assumes "region M lo e" "lo \<le> p" "p \<le> e"
  shows "ends (\<lambda>q. p < q) (validate_string_nul M p e m)"
proof (cases "p = e")
  case False
  with assms obtain b where "M p = Some b" using region_read [OF assms(1,2)] by force
  with False show ?thesis by (simp add: validate_string_nul_def)
qed (simp add: validate_string_nul_def)

lemma validate_string_like_ends:
  assumes "region M lo e" "lo \<le> p"
  shows "ends (\<lambda>q. p < q) (validate_string_like M host b t p e m)"
  unfolding validate_string_like_def
proof (rule ends_vbind [OF validate_length_ends [OF assms]], clarify)
  fix n q m' assume q: "p < q" "q \<le> e"
  show "ends (\<lambda>q. p < q)
      (if n > e - q then reject DBUS_INVALID_LENGTH_OUT_OF_BOUNDS m'
       else do { s \<leftarrow> load_bytes M q n;
                 if t = DBUS_TYPE_OBJECT_PATH \<and> \<not> validate_path s 0 (length s)
                 then reject DBUS_INVALID_BAD_PATH m'
                 else if t = DBUS_TYPE_STRING \<and> \<not> validate_utf8 s 0 (length s)
                 then reject DBUS_INVALID_BAD_UTF8_IN_STRING m'
                 else validate_string_nul M (q + n) e m' })"
  proof (cases "n > e - q")
    case False
    with q have "q + n \<le> e" by simp
    moreover from this obtain s where "load_bytes M q n = Some s"
      using load_bytes_region [OF assms(1), of q n] assms(2) q by force
    moreover have "ends (\<lambda>r. p < r) (validate_string_nul M (q + n) e m')"
      by (rule ends_mono [OF validate_string_nul_ends [OF assms(1)]]) (use q calculation assms(2) in simp_all)
    ultimately show ?thesis using False by simp
  qed simp
qed

text \<open>
  The recursion over contained values relies on the signatures of variants being grammatical when
  the signature validator accepts them. The validator decides the grammar except for dict entry
  brackets. \<open>unsound_variant_signature\<close>: the variant at \<open>p\<close> has a signature that the validator
  accepts although no list of types has it.
\<close>

definition unsound_variant_signature :: "memory \<Rightarrow> nat \<Rightarrow> nat \<Rightarrow> mem \<Rightarrow> bool" where
  "unsound_variant_signature M p e m \<longleftrightarrow>
     (\<exists>len s. M p = Some len \<and> unat len + 1 \<le> e - (p + 1) \<and>
        load_bytes M (p + 1) (unat len + 1) = Some s \<and>
        fst (validate_signature_with_reason m s 0 (unat len)) = DBUS_VALID \<and>
        \<not> (\<exists>ts. list_all (wf_type 0 0) ts \<and> take (unat len) s = sig_of_list ts))"

text \<open>
  The validation with a watch on the variants it comes to: the same steps, except that a variant
  with such a signature is answered with a code that the code never gives. So
  \<open>meets_unsound_variant\<close> says that the validation of the body gets to such a variant.
\<close>

abbreviation watch_mark :: DBusValidity where "watch_mark \<equiv> DBUS_INVALID_FOR_UNKNOWN_REASON"

definition watched_value ::
    "helper \<Rightarrow> memory \<Rightarrow> byte_order \<Rightarrow> byte_order \<Rightarrow> nat \<Rightarrow> nat \<Rightarrow> type_reader \<Rightarrow> byte \<Rightarrow> nat \<Rightarrow> mem \<Rightarrow> nat verdict" where
  "watched_value helper M host byte_order total_depth e reader current_type p m =
     (if current_type = DBUS_TYPE_VARIANT \<and> unsound_variant_signature M p e m then reject watch_mark m
      else validate_value helper M host byte_order total_depth e reader current_type p m)"

primrec watched_helper :: "nat \<Rightarrow> memory \<Rightarrow> byte_order \<Rightarrow> byte_order \<Rightarrow> nat \<Rightarrow> helper" where
  "watched_helper 0 M host byte_order e reader walk total_depth p m = None"
| "watched_helper (Suc n) M host byte_order e reader walk total_depth p m =
     (if total_depth > DBUS_MAXIMUM_TYPE_RECURSION_DEPTH * 2
      then reject DBUS_INVALID_NESTED_TOO_DEEPLY m
      else type_loop (length (tr_type_str reader) + 1)
        (watched_value (watched_helper n M host byte_order e) M host byte_order total_depth e)
        host e reader walk p m)"

definition meets_unsound_variant ::
    "memory \<Rightarrow> byte_order \<Rightarrow> bytes \<Rightarrow> nat \<Rightarrow> byte_order \<Rightarrow> nat \<Rightarrow> nat \<Rightarrow> mem \<Rightarrow> bool" where
  "meets_unsound_variant M host expected_signature expected_signature_start byte_order p len m \<longleftrightarrow>
     (\<exists>m'. watched_helper body_depth M host byte_order (p + len)
        (type_reader_init_types_only host expected_signature expected_signature_start) True 0 p m =
        Some (Inl watch_mark, m'))"

text \<open>Until it meets such a variant, the watched validation is the validation.\<close>

definition agrees :: "'a verdict \<Rightarrow> 'a verdict \<Rightarrow> bool" where
  "agrees r r' \<longleftrightarrow> r = r' \<or> (\<exists>m. r = Some (Inl watch_mark, m))"

lemma agrees_refl [simp, intro]: "agrees r r"
  by (simp add: agrees_def)

lemma agrees_mark [simp, intro]: "agrees (reject watch_mark m) r"
  by (simp add: agrees_def reject_def)

lemma agrees_vbind:
  "agrees r r' \<Longrightarrow> (\<And>x m. agrees (f x m) (f' x m)) \<Longrightarrow> agrees (vbind r f) (vbind r' f')"
  by (auto simp: agrees_def vbind_def split: option.splits sum.splits)

lemma agrees_bind: "(\<And>x. agrees (f x) (f' x)) \<Longrightarrow> agrees (do { x \<leftarrow> r; f x }) (do { x \<leftarrow> r; f' x })"
  by (cases r) simp_all

lemma agrees_array_loop:
  "(\<And>p m. agrees (elem p m) (elem' p m)) \<Longrightarrow>
   agrees (array_loop k elem p array_end m) (array_loop k elem' p array_end m)"
  by (induction k arbitrary: p m) (simp_all add: agrees_vbind)

lemma agrees_type_loop:
  assumes "\<And>r t p m. agrees (val r t p m) (val' r t p m)"
  shows "agrees (type_loop k val host e r walk p m) (type_loop k val' host e r walk p m)"
proof (induction k arbitrary: r walk p m)
  case (Suc k)
  show ?case
    by (auto intro!: agrees_bind agrees_vbind assms Suc split: prod.split)
qed simp

lemma agrees_validate_value:
  assumes "\<And>r walk d p m. agrees (H r walk d p m) (H' r walk d p m)"
  shows "agrees (validate_value H M host b d e r t p m) (validate_value H' M host b d e r t p m)"
  unfolding validate_value_def validate_array_def validate_variant_def validate_members_def
  by (auto simp: Let_def intro!: agrees_bind agrees_vbind agrees_array_loop assms split: prod.split)

lemma watched_agrees:
  "agrees (watched_helper n M host b e r walk d p m) (validate_body_helper n M host b e r walk d p m)"
  by (induction n arbitrary: r walk d p m)
    (auto simp: watched_value_def simp del: type_loop.simps intro!: agrees_type_loop agrees_validate_value)

text \<open>The code that marks such a variant is none of the code's own answers.\<close>

definition unmarked :: "'a verdict \<Rightarrow> bool" where
  "unmarked r \<longleftrightarrow> (\<forall>m. r \<noteq> Some (Inl watch_mark, m))"

lemma unmarked_simps [simp, intro]:
  "unmarked None" "unmarked (accept x m)" "e \<noteq> watch_mark \<Longrightarrow> unmarked (reject e m)"
  by (simp_all add: unmarked_def accept_def reject_def)

lemma unmarked_vbind: "unmarked r \<Longrightarrow> (\<And>x m. unmarked (f x m)) \<Longrightarrow> unmarked (vbind r f)"
  by (auto simp: unmarked_def vbind_def split: option.splits sum.splits)

lemma unmarked_bind: "(\<And>x. unmarked (f x)) \<Longrightarrow> unmarked (do { x \<leftarrow> r; f x })"
  by (cases r) simp_all

lemmas unmarked_intros = unmarked_bind unmarked_vbind

lemma unmarked_array_loop:
  "(\<And>p m. unmarked (elem p m)) \<Longrightarrow> unmarked (array_loop k elem p array_end m)"
  by (induction k arbitrary: p m) (simp_all add: unmarked_vbind)

lemma unmarked_type_loop:
  assumes "\<And>r t p m. unmarked (val r t p m)"
  shows "unmarked (type_loop k val host e r walk p m)"
proof (induction k arbitrary: r walk p m)
  case (Suc k)
  show ?case by (auto intro!: unmarked_intros assms Suc split: prod.split)
qed simp

lemma unmarked_bool_array_loop: "unmarked (bool_array_loop M host b p array_end m)"
proof (induction M host b p array_end m rule: bool_array_loop.induct)
  case (1 M host b p array_end m)
  then show ?case by (subst bool_array_loop.simps) (auto split: option.split)
qed

lemma unmarked_leaves:
  "unmarked (skip_padding M p a m)" "unmarked (validate_fixed M host b t p e m)"
  "unmarked (validate_length M host b p e m)" "unmarked (validate_string_nul M p e m)"
  "unmarked (validate_string_like M host b t p e m)"
proof -
  show pad: "unmarked (skip_padding M p a m)" for p a m
    by (auto simp: skip_padding_def intro!: unmarked_intros)
  show "unmarked (validate_fixed M host b t p e m)"
    by (auto simp: validate_fixed_def Let_def intro!: unmarked_intros pad)
  show len: "unmarked (validate_length M host b p e m)"
    by (auto simp: validate_length_def Let_def intro!: unmarked_intros pad)
  show nul: "unmarked (validate_string_nul M p e m)" for p m
    by (auto simp: validate_string_nul_def intro!: unmarked_intros)
  show "unmarked (validate_string_like M host b t p e m)"
    by (auto simp: validate_string_like_def intro!: unmarked_intros len nul)
qed

lemma push_count_unmarked: "push_count m n s = (Inl e, m') \<Longrightarrow> e \<noteq> watch_mark"
  by (auto simp: push_count_def split: prod.splits bool.splits)

lemma sig_step_unmarked:
  assumes "sig_step m c p1 s = (Inl e, m')"
  shows "e \<noteq> watch_mark"
proof -
  have "e \<noteq> watch_mark" if "sig_switch m c s = (Inl e, m')" for e m'
    using that by (auto simp: sig_switch_def Let_def push_count_unmarked split: if_splits prod.splits)
  moreover have "e \<noteq> watch_mark" if "sig_count m c s = (Inl e, m')" for m s e m'
    using that by (auto simp: sig_count_def push_count_unmarked split: if_splits prod.splits)
  moreover have "e \<noteq> watch_mark" if "sig_array c p1 s = Inl e" for s e
    using that by (auto simp: sig_array_def split: if_splits)
  moreover have "e \<noteq> watch_mark" if "sig_key c s = Inl e" for s e
    using that by (auto simp: sig_key_def split: if_splits)
  ultimately show ?thesis
    using assms by (auto simp: sig_step_def split: prod.splits sum.splits)
qed

lemma validate_signature_unmarked: "validate_signature_with_reason m sg pos len = (v, m') \<Longrightarrow> v \<noteq> watch_mark"
proof -
  have "fst (sig_loop m after cs s) \<noteq> watch_mark" for m after cs s
    by (induction m after cs s rule: sig_loop.induct)
      (auto simp: sig_finish_def dest: sig_step_unmarked split: prod.splits sum.splits)
  then show "validate_signature_with_reason m sg pos len = (v, m') \<Longrightarrow> v \<noteq> watch_mark"
    by (auto simp: validate_signature_with_reason_def dest: push_count_unmarked split: prod.splits sum.splits if_splits)
      (metis fst_conv)
qed

lemma unmarked_signatures:
  "unmarked (validate_signature_value M p e m)" "unmarked (validate_variant_signature M p e m)"
  by (auto simp: validate_signature_value_def validate_variant_signature_def Let_def
      intro!: unmarked_intros unmarked_leaves unmarked_simps(3) dest!: validate_signature_unmarked split: prod.split)

lemma validate_body_helper_unmarked: "unmarked (validate_body_helper n M host b e r walk d p m)"
proof (induction n arbitrary: r walk d p m)
  case (Suc n)
  have start: "unmarked (validate_array_start M host b r p e m)" for r p m
    by (auto simp: validate_array_start_def Let_def intro!: unmarked_intros unmarked_leaves)
  have "unmarked (validate_value (validate_body_helper n M host b e) M host b d e r t p m)" for r t p m
    unfolding validate_value_def validate_array_def validate_variant_def validate_members_def
    by (auto simp: Let_def intro!: unmarked_intros unmarked_leaves unmarked_signatures start
        unmarked_bool_array_loop unmarked_array_loop Suc split: prod.split simp del: bool_array_loop.simps)
  then show ?case by (auto simp del: type_loop.simps intro: unmarked_type_loop)
qed simp

text \<open>So a validation meets such a variant exactly when the watch changes its answer.\<close>

lemma meets_unsound_variant_iff:
  "meets_unsound_variant M host sig start b p len m \<longleftrightarrow>
     watched_helper body_depth M host b (p + len) (type_reader_init_types_only host sig start) True 0 p m \<noteq>
     validate_body_helper body_depth M host b (p + len) (type_reader_init_types_only host sig start) True 0 p m"
  using watched_agrees [of body_depth M host b "p + len" "type_reader_init_types_only host sig start" True 0 p m]
    validate_body_helper_unmarked [of body_depth M host b "p + len" "type_reader_init_types_only host sig start" True 0 p m]
  unfolding meets_unsound_variant_def agrees_def unmarked_def by metis

lemma load_bytes_last:
  "load_bytes M p (Suc n) = Some s \<Longrightarrow> M (p + n) = Some (s ! n) \<and> length s = Suc n"
proof (induction n arbitrary: p s)
  case (Suc n)
  from Suc.prems obtain b bs where "M p = Some b" "load_bytes M (p + 1) (Suc n) = Some bs" "s = b # bs"
    by (auto split: Option.bind_splits simp del: load_bytes.simps(2) simp: load_bytes.simps(2) [of M p "Suc n"])
  with Suc.IH [of "p + 1" bs] show ?case by simp
qed (auto split: Option.bind_splits)

lemma validate_signature_value_ends:
  assumes "region M lo e" "lo \<le> p" "p < e"
  shows "ends (\<lambda>q. p < q) (validate_signature_value M p e m)"
proof -
  obtain len where len: "M p = Some len" using region_read [OF assms(1,2)] assms(3) by force
  show ?thesis
  proof (cases "unat len + 1 > e - (p + 1)")
    case False
    then have "p + 1 + Suc (unat len) \<le> e + 3" by simp
    then obtain s where s: "load_bytes M (p + 1) (Suc (unat len)) = Some s"
      using load_bytes_region [OF assms(1), of "p + 1" "Suc (unat len)"] assms(2) by auto
    obtain v m' where "validate_signature_with_reason m s 0 (unat len) = (v, m')" by fastforce
    moreover have "Suc (p + unat len) < e" using False by simp
    ultimately show ?thesis using s len False load_bytes_last [OF s]
      by (simp add: validate_signature_value_def Let_def del: load_bytes.simps)
  qed (simp add: validate_signature_value_def len)
qed

lemma wf_node_alignment:
  "wf_node sd dd nd \<Longrightarrow> \<exists>a. type_get_alignment (node_code nd) = Some a"
  by (cases nd rule: node_code.cases) (auto simp: simple_codes_def type_get_alignment_def)

text \<open>After an accepted variant signature the reader stands at its types, at least one.\<close>

lemma validate_variant_signature_ends:
  assumes "region M lo e" "lo \<le> p" "p < e" "\<not> unsound_variant_signature M p e m"
  shows "ends (\<lambda>(s, q). p < q \<and> q \<le> e \<and>
      (\<exists>ts. ts \<noteq> [] \<and> list_all (wf_type 0 0) ts \<and> s = sig_of_list ts @ [0]))
    (validate_variant_signature M p e m)" (is "ends ?P _")
proof -
  obtain len where len: "M p = Some len" using region_read [OF assms(1,2)] assms(3) by force
  show ?thesis
  proof (cases "unat len + 1 > e - (p + 1)")
    case False
    let ?q = "p + 1 + unat len + 1"
    from False have q: "?q \<le> e" by simp
    then obtain s where s: "load_bytes M (p + 1) (Suc (unat len)) = Some s"
      using load_bytes_region [OF assms(1), of "p + 1" "Suc (unat len)"] assms(2) by auto
    note last = load_bytes_last [OF s]
    obtain v m' where v: "validate_signature_with_reason m s 0 (unat len) = (v, m')" by fastforce
    show ?thesis
    proof (cases "v = DBUS_VALID \<and> s ! unat len = 0")
      case True
      then obtain ts where ts: "list_all (wf_type 0 0) ts" "take (unat len) s = sig_of_list ts"
        using assms(4) False len s v by (auto simp: unsound_variant_signature_def simp del: load_bytes.simps)
      have s_eq: "s = sig_of_list ts @ [0]"
        using ts(2) last True by (metis take_Suc_conv_app_nth lessI order_refl take_all)
      show ?thesis
      proof (cases ts)
        case Nil
        then have "first_type_in_signature s 0 = 0"
          by (simp add: s_eq first_type_in_signature_def map_type_char_to_type_def)
        with s len v last True False show ?thesis
          by (simp add: validate_variant_signature_def del: load_bytes.simps)
      next
        case (Cons t us)
        with ts(1) have t: "first_type_in_signature s 0 = node_code (Type t)" "wf_node 0 0 (Type t)"
          using first_type_node [of 0 0 "Type t" "[]" "sig_of_list us @ [0]"] by (simp_all add: s_eq)
        then obtain a where a: "type_get_alignment (node_code (Type t)) = Some a"
          using wf_node_alignment by blast
        let ?a = "align_value ?q a"
        have "?q \<le> ?a" using alignment_ge [OF a] by blast
        then have "ends ?P (vbind (skip_padding M ?q ?a m') (\<lambda>p m. accept (s, p) m))" if "?a \<le> e"
          using that ts(1) s_eq Cons assms(2)
          by (intro ends_vbind [OF skip_padding_ends [OF assms(1)]]) auto
        with s len v last True False t a node_code_proper [OF t(2)] show ?thesis
          by (simp add: validate_variant_signature_def Let_def del: load_bytes.simps)
      qed
    next
      case invalid: False
      with s len v last False show ?thesis
        by (auto simp: validate_variant_signature_def Let_def simp del: load_bytes.simps)
    qed
  qed (simp add: validate_variant_signature_def len)
qed

lemma bool_array_loop_ends:
  assumes "region M lo e" "lo \<le> p" "array_end \<le> e"
  shows "ends (\<lambda>q. True) (bool_array_loop M host b p array_end m)"
  using assms
proof (induction M host b p array_end m rule: bool_array_loop.induct)
  case (1 M host b p array_end m)
  show ?case
  proof (cases "p < array_end")
    case True
    with "1.prems" obtain v where v: "load_uint32 M host b p = Some v"
      using load_uint32_region [of M lo e p host b] by force
    show ?thesis
    proof (cases "v = 0 \<or> v = 1")
      case ok: True
      with "1.IH" [OF True v] "1.prems" have "ends (\<lambda>q. True) (bool_array_loop M host b (p + 4) array_end m)"
        by simp
      with True v ok show ?thesis by (subst bool_array_loop.simps) simp
    next
      case bad: False
      with True v show ?thesis by (subst bool_array_loop.simps) simp
    qed
  next
    case False
    then show ?thesis by (subst bool_array_loop.simps) simp
  qed
qed

lemma array_loop_ends:
  assumes "\<And>p m. lo \<le> p \<Longrightarrow> p < array_end \<Longrightarrow> ends (\<lambda>q. p < q) (elem p m)"
  shows "lo \<le> p \<Longrightarrow> array_end - p \<le> k \<Longrightarrow> ends (\<lambda>q. array_end \<le> q) (array_loop k elem p array_end m)"
proof (induction k arbitrary: p m)
  case (Suc k)
  show ?case
  proof (cases "p < array_end")
    case True
    have "ends (\<lambda>q. array_end \<le> q) (array_loop k elem q array_end m')" if "p < q" for q m'
      by (rule Suc.IH) (use that Suc.prems in simp_all)
    with True assms [OF Suc.prems(1) True] show ?thesis by (auto intro: ends_vbind)
  qed simp
qed simp

text \<open>What the recursive calls do at depth \<open>d\<close>: they end, and an accepted value is not empty.\<close>

definition good :: "helper \<Rightarrow> byte_order \<Rightarrow> nat \<Rightarrow> nat \<Rightarrow> nat \<Rightarrow> bool" where
  "good H host lo e d \<longleftrightarrow>
     (\<forall>r nd sd dd p m. at_node r nd \<longrightarrow> wf_node sd dd nd \<longrightarrow> lo \<le> p \<longrightarrow> p \<le> e \<longrightarrow>
        ends (\<lambda>q. p < q \<and> q \<le> e) (H r False d p m)) \<and>
     (\<forall>r ts sd dd p m. walks host ts r \<longrightarrow> length ts \<le> length (tr_type_str r) \<longrightarrow> ts \<noteq> [] \<longrightarrow> list_all (wf_type sd dd) ts \<longrightarrow> lo \<le> p \<longrightarrow> p \<le> e \<longrightarrow>
        ends (\<lambda>q. p < q \<and> q \<le> e) (H r True d p m))"

lemma goodD:
  assumes "good H host lo e d"
  shows "at_node r nd \<Longrightarrow> wf_node sd dd nd \<Longrightarrow> lo \<le> p \<Longrightarrow> p \<le> e \<Longrightarrow>
      ends (\<lambda>q. p < q \<and> q \<le> e) (H r False d p m)"
    and "walks host ts r \<Longrightarrow> length ts \<le> length (tr_type_str r) \<Longrightarrow> ts \<noteq> [] \<Longrightarrow> list_all (wf_type sd dd) ts \<Longrightarrow> lo \<le> p \<Longrightarrow> p \<le> e \<Longrightarrow>
      ends (\<lambda>q. p < q \<and> q \<le> e) (H r True d p m)"
  using assms unfolding good_def by blast+

fun elem_node :: "dtype \<Rightarrow> node" where
  "elem_node (Array t) = Type t"
| "elem_node (Dict k v) = Entry k v"
| "elem_node t = Type t"

abbreviation is_array :: "dtype \<Rightarrow> bool" where
  "is_array t \<equiv> (\<exists>u. t = Array u) \<or> (\<exists>k v. t = Dict k v)"

lemma wf_elem_node: "is_array t \<Longrightarrow> wf_type sd dd t \<Longrightarrow> wf_node sd dd (elem_node t)"
  by (cases t) auto

lemma array_element:
  assumes "at_node r (Type t)" "is_array t" "wf_type sd dd t"
  shows "\<exists>sub. type_reader_recurse r = Some sub \<and> at_node sub (elem_node t)"
    and "type_reader_get_element_type host r = Some (node_code (elem_node t))"
proof -
  show "\<exists>sub. type_reader_recurse r = Some sub \<and> at_node sub (elem_node t)"
    using recurse_array [OF assms(1)] assms(2) by (cases t) auto
  from assms(1) obtain xs ys where r: "tr_type_str r = xs @ sig_of t @ ys" "tr_type_pos r = length xs"
    by (auto simp: at_node_def)
  have "sig_of t = DBUS_TYPE_ARRAY # node_sig (elem_node t)" using assms(2) by auto
  with r have "first_type_in_signature (tr_type_str r) (tr_type_pos r + 1) = node_code (elem_node t)"
    using first_type_node [OF wf_elem_node [OF assms(2,3)], of "xs @ [DBUS_TYPE_ARRAY]" ys] by simp
  moreover have "node_code (Type t) = DBUS_TYPE_ARRAY" using assms(2) by auto
  ultimately show "type_reader_get_element_type host r = Some (node_code (elem_node t))"
    using current_type_node [OF assms(1), of sd dd host] assms(3)
    by (simp add: type_reader_get_element_type_def)
qed

lemma node_code_valid: "wf_node sd dd nd \<Longrightarrow> dbus_type_is_valid (node_code nd)"
  by (cases nd rule: node_code.cases)
    (auto simp: dbus_type_is_valid_def simple_codes_def)

lemma validate_array_start_ends:
  assumes "region M lo e" "lo \<le> p" "at_node r (Type t)" "is_array t" "wf_type sd dd t"
  shows "ends (\<lambda>(n, q). p < q \<and> q + n \<le> e) (validate_array_start M host b r p e m)"
proof -
  let ?nd = "elem_node t"
  note wf = wf_elem_node [OF assms(4,5)]
  obtain al where al: "type_get_alignment (node_code ?nd) = Some al" using wf_node_alignment [OF wf] by blast
  have elem: "type_reader_get_element_type host r = Some (node_code ?nd)"
    by (rule array_element(2) [OF assms(3-5)])
  show ?thesis
    unfolding validate_array_start_def elem
  proof (rule ends_vbind [OF validate_length_ends [OF assms(1,2)]], clarify)
    fix n q m' assume q: "p < q" "q \<le> e"
    let ?a = "align_value q al"
    have ge: "q \<le> ?a" using alignment_ge [OF al] by blast
    then have "ends (\<lambda>(n, q). p < q \<and> q + n \<le> e) (vbind (skip_padding M q ?a m') (\<lambda>p m.
        if n > e - p then reject DBUS_INVALID_LENGTH_OUT_OF_BOUNDS m
        else if n > DBUS_MAXIMUM_ARRAY_LENGTH then reject DBUS_INVALID_ARRAY_LENGTH_EXCEEDS_MAXIMUM m
        else accept (n, p) m))" if "?a \<le> e"
      using that q assms(2) by (intro ends_vbind [OF skip_padding_ends [OF assms(1)]]) auto
    with al node_code_valid [OF wf] show "ends (\<lambda>(n, q). p < q \<and> q + n \<le> e)
       (do { t \<leftarrow> Some (node_code ?nd);
            if \<not> dbus_type_is_valid t then reject DBUS_INVALID_UNKNOWN_TYPECODE m'
            else do { alignment \<leftarrow> type_get_alignment t;
                      let a = align_value q alignment;
                      if a > e then reject DBUS_INVALID_NOT_ENOUGH_DATA m'
                      else vbind (skip_padding M q a m') (\<lambda>p m.
                        if n > e - p then reject DBUS_INVALID_LENGTH_OUT_OF_BOUNDS m
                        else if n > DBUS_MAXIMUM_ARRAY_LENGTH
                        then reject DBUS_INVALID_ARRAY_LENGTH_EXCEEDS_MAXIMUM m
                        else accept (n, p) m) } })"
      by (simp add: Let_def)
  qed
qed

lemma validate_array_ends:
  assumes "region M lo e" "lo \<le> p" "at_node r (Type t)" "is_array t" "wf_type sd dd t"
    and "good H host lo e (d + 1)"
  shows "ends (\<lambda>q. p < q) (validate_array H M host b r d p e m)"
proof -
  note wf = wf_elem_node [OF assms(4,5)]
  obtain sub where sub: "type_reader_recurse r = Some sub" "at_node sub (elem_node t)"
    using array_element(1) [OF assms(3-5)] by blast
  have elem: "type_reader_get_element_type host r = Some (node_code (elem_node t))"
    by (rule array_element(2) [OF assms(3-5)])
  show ?thesis
    unfolding validate_array_def
  proof (rule ends_vbind [OF validate_array_start_ends [OF assms(1-5)]], clarify)
    fix n q m' assume q: "p < q" "q + n \<le> e"
    have "ends (\<lambda>r. s < r) (H sub False (d + 1) s m)" if "lo \<le> s" "s < e" for s m
      by (rule ends_mono [OF goodD(1) [OF assms(6) sub(2) wf]]) (use that in simp_all)
    then have "ends (\<lambda>r. q + n \<le> r) (array_loop n (H sub False (d + 1)) q (q + n) m')"
      using q assms(2) by (intro array_loop_ends [of lo]) auto
    moreover have "ends (\<lambda>_. True) (bool_array_loop M host b q (q + n) m')"
      using q assms(2) by (intro bool_array_loop_ends [OF assms(1)]) auto
    ultimately have "ends (\<lambda>_. True)
       (if dbus_type_is_fixed (node_code (elem_node t)) then
          if node_code (elem_node t) = DBUS_TYPE_BOOLEAN then bool_array_loop M host b q (q + n) m'
          else accept (q + n) m'
        else array_loop n (H sub False (d + 1)) q (q + n) m')"
      by (auto intro: ends_mono)
    from ends_vbind [OF this, of "\<lambda>q. p < q"
        "\<lambda>p m. if p \<noteq> q + n then reject DBUS_INVALID_ARRAY_LENGTH_INCORRECT m else accept p m"] q sub(1) elem
    show "ends (\<lambda>q. p < q) (if n = 0 then accept q m'
       else do { sub \<leftarrow> type_reader_recurse r;
                 let array_end = q + n;
                 array_elem_type \<leftarrow> type_reader_get_element_type host r;
                 vbind (if dbus_type_is_fixed array_elem_type then
                          if array_elem_type = DBUS_TYPE_BOOLEAN
                          then bool_array_loop M host b q array_end m'
                          else accept array_end m'
                        else array_loop n (H sub False (d + 1)) q array_end m')
                   (\<lambda>p m. if p \<noteq> array_end then reject DBUS_INVALID_ARRAY_LENGTH_INCORRECT m
                          else accept p m) })"
      by (simp add: Let_def)
  qed
qed

lemma validate_variant_ends:
  assumes "region M lo e" "lo \<le> p" "p < e" "\<not> unsound_variant_signature M p e m" "good H host lo e (d + 1)"
  shows "ends (\<lambda>q. p < q) (validate_variant H M host d p e m)"
  unfolding validate_variant_def
proof (rule ends_vbind [OF validate_variant_signature_ends [OF assms(1-4)]], clarify)
  fix q ts m' assume q: "p < q" "q \<le> e" and "ts \<noteq> []" and wf: "list_all (wf_type 0 0) ts"
  let ?sub = "type_reader_init_types_only host (sig_of_list ts @ [0]) 0"
  have w: "walks host ts ?sub" using walks_init [OF wf, of "[0]" host host "[]"] by simp
  from \<open>ts \<noteq> []\<close> obtain t us where ts: "ts = t # us" by (cases ts) auto
  from w ts obtain sub' where at: "at_node ?sub (Type t)"
    and nxt: "type_reader_next host ?sub = Some (us \<noteq> [], sub')" "walks host us sub'" by auto
  have wft: "wf_node 0 0 (Type t)" using wf ts by simp
  have "ends (\<lambda>r. q < r \<and> r \<le> e) (H ?sub False (d + 1) q m')"
    using goodD(1) [OF assms(5) at wft] q assms(2) by simp
  then have "ends (\<lambda>q. p < q) (vbind (H ?sub False (d + 1) q m') (\<lambda>p m.
              do { (again, sub) \<leftarrow> type_reader_next host ?sub;
                   if again then reject DBUS_INVALID_VARIANT_SIGNATURE_SPECIFIES_MULTIPLE_VALUES m
                   else do { t \<leftarrow> type_reader_get_current_type host sub;
                             check (t = DBUS_TYPE_INVALID);
                             accept p m } }))"
    by (rule ends_vbind) (use nxt q in \<open>auto split: if_splits\<close>)
  with current_type_node [OF at wft, of host] node_code_proper [OF wft]
  show "ends (\<lambda>q. p < q) (let sub = ?sub in
       do { t \<leftarrow> type_reader_get_current_type host sub;
            check (t \<noteq> DBUS_TYPE_INVALID);
            vbind (H sub False (d + 1) q m') (\<lambda>p m.
              do { (again, sub) \<leftarrow> type_reader_next host sub;
                   if again then reject DBUS_INVALID_VARIANT_SIGNATURE_SPECIFIES_MULTIPLE_VALUES m
                   else do { t \<leftarrow> type_reader_get_current_type host sub;
                             check (t = DBUS_TYPE_INVALID);
                             accept p m } }) })"
    by (simp add: Let_def)
qed

lemma validate_members_ends:
  assumes "region M lo e" "lo \<le> p" "at_node r nd" "wf_node sd dd nd" "good H host lo e (d + 1)"
    and "node_code nd = DBUS_TYPE_STRUCT \<or> node_code nd = DBUS_TYPE_DICT_ENTRY"
  shows "ends (\<lambda>q. p < q) (validate_members H M r d p e m)"
proof -
  have "\<exists>sub ts sd dd. type_reader_recurse r = Some sub \<and> walks host ts sub \<and>
      length ts \<le> length (tr_type_str sub) \<and> ts \<noteq> [] \<and> list_all (wf_type sd dd) ts"
  proof (cases nd rule: node_code.cases)
    case (4 ts)
    with recurse_walks(1) [of r ts sd dd host] assms(3,4) show ?thesis by fastforce
  next
    case (5 k v)
    with assms(3,4) have "list_all (wf_type sd (Suc dd)) [Simple k, v]" "at_node r (Entry k v)" "wf_node sd dd (Entry k v)"
      by auto
    with recurse_walks(2) [of r k v sd dd host] show ?thesis by blast
  qed (use assms(4,6) in auto)
  then obtain sub ts sd dd where sub: "type_reader_recurse r = Some sub" "walks host ts sub"
    "length ts \<le> length (tr_type_str sub)" "ts \<noteq> []" "list_all (wf_type sd dd) ts" by blast
  let ?a = "align_value p 8"
  have ge: "p \<le> ?a" using align_value_bounds(1) [of 8 p] by simp
  have "ends (\<lambda>q. p < q) (do { sub \<leftarrow> type_reader_recurse r; H sub True (d + 1) q m' })"
    if "q = ?a" "?a \<le> e" for q m'
    using ends_mono [OF goodD(2) [OF assms(5) sub(2-5), of q m'], of "\<lambda>q. p < q"] that ge assms(2) sub(1) by simp
  then show ?thesis
    using ge assms(1,2) by (auto simp: validate_members_def Let_def intro!: ends_vbind [OF skip_padding_ends])
qed

lemma watched_value_ends:
  assumes "region M lo e" "lo \<le> p" "p < e" "at_node r nd" "wf_node sd dd nd" "good H host lo e (d + 1)"
  shows "ends (\<lambda>q. p < q) (watched_value H M host b d e r (node_code nd) p m)"
proof -
  consider (simple) c where "nd = Type (Simple c)" | (arr) t where "nd = Type t" "is_array t"
    | (members) "node_code nd = DBUS_TYPE_STRUCT \<or> node_code nd = DBUS_TYPE_DICT_ENTRY"
    by (cases nd rule: node_code.cases) auto
  then show ?thesis
  proof cases
    case simple
    obtain al where "type_get_alignment (node_code nd) = Some al" using wf_node_alignment [OF assms(5)] by blast
    moreover have "c \<in> set simple_codes" using assms(5) simple by simp
    ultimately show ?thesis
      using simple validate_fixed_ends [OF assms(1,2)] validate_string_like_ends [OF assms(1,2)]
        validate_signature_value_ends [OF assms(1-3)] validate_variant_ends [OF assms(1-3) _ assms(6)]
      by (auto simp: watched_value_def validate_value_def simple_codes_def)
  next
    case arr
    then have "node_code nd = DBUS_TYPE_ARRAY" by auto
    with validate_array_ends [OF assms(1,2) _ arr(2) _ assms(6)] arr(1) assms(4,5) show ?thesis
      by (simp add: watched_value_def validate_value_def)
  next
    case members
    with validate_members_ends [OF assms(1,2,4,5,6) members] show ?thesis
      by (auto simp: watched_value_def validate_value_def)
  qed
qed

text \<open>The loop over the types, when the step over one value is well-behaved.\<close>

definition value_ok :: "(type_reader \<Rightarrow> byte \<Rightarrow> nat \<Rightarrow> mem \<Rightarrow> nat verdict) \<Rightarrow> nat \<Rightarrow> nat \<Rightarrow> bool" where
  "value_ok val lo e \<longleftrightarrow>
     (\<forall>r nd sd dd p m. at_node r nd \<longrightarrow> wf_node sd dd nd \<longrightarrow> lo \<le> p \<longrightarrow> p < e \<longrightarrow>
        ends (\<lambda>q. p < q) (val r (node_code nd) p m))"

lemma type_loop_one:
  assumes "value_ok val lo e" "at_node r nd" "wf_node sd dd nd" "lo \<le> p" "p \<le> e"
  shows "ends (\<lambda>q. p < q \<and> q \<le> e) (type_loop (Suc k) val host e r False p m)"
proof -
  have "ends (\<lambda>q. p < q) (val r (node_code nd) p m)" if "p \<noteq> e"
    using assms that unfolding value_ok_def by (metis le_neq_implies_less)
  then show ?thesis
    using current_type_node [OF assms(2,3), of host] node_code_proper [OF assms(3)]
    by (auto intro!: ends_vbind)
qed

lemma type_loop_walk:
  assumes "value_ok val lo e"
  shows "walks host ts r \<Longrightarrow> list_all (wf_type sd dd) ts \<Longrightarrow> lo \<le> p \<Longrightarrow> p \<le> e \<Longrightarrow> length ts < k \<Longrightarrow>
    ends (\<lambda>q. p \<le> q \<and> q \<le> e \<and> (ts \<noteq> [] \<longrightarrow> p < q)) (type_loop k val host e r True p m)"
proof (induction ts arbitrary: r p m k)
  case Nil
  then show ?case by (cases k) auto
next
  case (Cons t ts)
  from Cons.prems(5) obtain j where k: "k = Suc j" by (cases k) auto
  from Cons.prems(1) obtain r' where at: "at_node r (Type t)"
    and nxt: "type_reader_next host r = Some (ts \<noteq> [], r')" "walks host ts r'" by auto
  have wf: "wf_node sd dd (Type t)" using Cons.prems(2) by simp
  have "ends (\<lambda>q. p < q) (val r (node_code (Type t)) p m)" if "p \<noteq> e"
    using assms at wf Cons.prems(3,4) that unfolding value_ok_def by (metis le_neq_implies_less)
  moreover have "ends (\<lambda>s. p \<le> s \<and> s \<le> e \<and> p < s) (type_loop j val host e r' True q m')"
    if "p < q" "q \<le> e" for q m'
    by (rule ends_mono [OF Cons.IH [OF nxt(2)]]) (use Cons.prems k that in auto)
  ultimately show ?case
    using current_type_node [OF at wf, of host] node_code_proper [OF wf] nxt(1) k
    by (auto intro!: ends_vbind simp: case_prod_beta)
qed

lemma helper_good:
  assumes "region M lo e"
  shows "d \<le> 65 \<Longrightarrow> 66 \<le> n + d \<Longrightarrow> good (watched_helper n M host b e) host lo e d"
proof (induction n arbitrary: d)
  case (Suc n)
  show ?case
  proof (cases "d \<le> 64")
    case True
    then have "good (watched_helper n M host b e) host lo e (d + 1)"
      using Suc.prems by (intro Suc.IH) simp_all
    then have ok: "value_ok (watched_value (watched_helper n M host b e) M host b d e) lo e"
      using watched_value_ends [OF assms] unfolding value_ok_def by blast
    have "ends (\<lambda>q. p < q \<and> q \<le> e) (watched_helper (Suc n) M host b e r False d p m)"
      if "at_node r nd" "wf_node sd dd nd" "lo \<le> p" "p \<le> e" for r nd sd dd p m
      using type_loop_one [OF ok that] True
      by (simp add: DBUS_MAXIMUM_TYPE_RECURSION_DEPTH_def del: type_loop.simps)
    moreover have "ends (\<lambda>q. p < q \<and> q \<le> e) (watched_helper (Suc n) M host b e r True d p m)"
      if "walks host ts r" "length ts \<le> length (tr_type_str r)" "ts \<noteq> []" "list_all (wf_type sd dd) ts"
        "lo \<le> p" "p \<le> e" for r ts sd dd p m
      using ends_mono [OF type_loop_walk [OF ok that(1,4,5,6)], of "Suc (length (tr_type_str r))" "\<lambda>q. p < q \<and> q \<le> e"]
        that True by (simp add: DBUS_MAXIMUM_TYPE_RECURSION_DEPTH_def del: type_loop.simps)
    ultimately show ?thesis unfolding good_def by blast
  next
    case False
    then show ?thesis by (simp add: good_def DBUS_MAXIMUM_TYPE_RECURSION_DEPTH_def)
  qed
qed simp

lemma validate_body_ends:
  assumes "list_all (wf_type 0 0) ts" "byte_at ys 0 = 0" "region M p (p + len)"
    and "\<not> meets_unsound_variant M host (xs @ sig_of_list ts @ ys) (length xs) b p len m"
  shows "ends (\<lambda>left. left \<le> len \<and> (left = 0 \<or> bytes_remaining))
    (validate_body_with_reason M host (xs @ sig_of_list ts @ ys) (length xs) b bytes_remaining p len m)"
proof -
  let ?e = "p + len" and ?r = "type_reader_init_types_only host (xs @ sig_of_list ts @ ys) (length xs)"
  have "good (watched_helper 65 M host b ?e) host p ?e 1"
    by (rule helper_good [OF assms(3)]) simp_all
  then have ok: "value_ok (watched_value (watched_helper 65 M host b ?e) M host b 0 ?e) p ?e"
    using watched_value_ends [OF assms(3)] unfolding value_ok_def by (metis add_0)
  have len: "length ts \<le> length (tr_type_str ?r)"
    using length_le_sig [of ts] by (simp add: type_reader_init_types_only_def reader_init_def)
  have "ends (\<lambda>q. p \<le> q \<and> q \<le> ?e \<and> (ts \<noteq> [] \<longrightarrow> p < q))
    (type_loop (Suc (length (tr_type_str ?r))) (watched_value (watched_helper 65 M host b ?e) M host b 0 ?e)
      host ?e ?r True p m)"
    by (rule type_loop_walk [OF ok walks_init [OF assms(1,2)] assms(1)]) (use len in simp_all)
  then have "ends (\<lambda>q. p \<le> q \<and> q \<le> ?e) (watched_helper body_depth M host b ?e ?r True 0 p m)"
    unfolding body_depth_def by (auto simp del: type_loop.simps simp: numeral_eq_Suc intro: ends_mono)
  then have "ends (\<lambda>q. p \<le> q \<and> q \<le> ?e) (validate_body_helper body_depth M host b ?e ?r True 0 p m)"
    using assms(4) by (simp add: meets_unsound_variant_iff)
  then show ?thesis
    unfolding validate_body_with_reason_def Let_def by (rule ends_vbind) auto
qed

text \<open>Data without dict entry brackets never meets such a variant.\<close>

lemma load_bytes_set: "load_bytes M p n = Some s \<Longrightarrow> x \<in> set s \<Longrightarrow> \<exists>a. M a = Some x"
  by (induction n arbitrary: p s) (auto split: Option.bind_splits)

lemma no_brackets_never_meets:
  assumes "\<And>a. M a \<noteq> Some DICT_ENTRY_BEGIN" "\<And>a. M a \<noteq> Some DICT_ENTRY_END"
  shows "\<not> meets_unsound_variant M host sig start b p len m"
proof -
  have "\<not> unsound_variant_signature M p e m" for p e m
  proof
    assume "unsound_variant_signature M p e m"
    then obtain n s where s: "load_bytes M (p + 1) (n + 1) = Some s"
      and v: "fst (validate_signature_with_reason m s 0 n) = DBUS_VALID"
      and no: "\<not> (\<exists>ts. list_all (wf_type 0 0) ts \<and> take n s = sig_of_list ts)"
      unfolding unsound_variant_signature_def by blast
    have "DICT_ENTRY_BEGIN \<notin> set (substring s 0 n)" "DICT_ENTRY_END \<notin> set (substring s 0 n)"
      using load_bytes_set [OF s] assms by (auto simp: substring_def dest: in_set_takeD)
    moreover have "fst (validate_signature_with_reason [] s 0 n) = DBUS_VALID"
      using validate_signature_oom [of m s 0 n] v by auto
    ultimately show False using validate_signature_sound no by (fastforce simp: substring_def)
  qed
  then have val: "watched_value H M host b d e = validate_value H M host b d e" for H d e
    by (simp add: fun_eq_iff watched_value_def)
  have "watched_helper n M host b e = validate_body_helper n M host b e" for n e
  proof (induction n)
    case (Suc n)
    show ?case by (intro ext) (simp only: watched_helper.simps validate_body_helper.simps Suc val)
  qed (simp add: fun_eq_iff)
  then show ?thesis by (simp add: meets_unsound_variant_iff)
qed

text \<open>
  C25. Validating a body against a grammatical signature always answers, unless it comes to a
  variant with a signature that the signature validator accepts although no list of types has it
  (which takes dict entry brackets): it neither loops nor fails an assertion, it reads only the
  body and at most three bytes after it, and an accepted body leaves no more bytes than it has,
  none unless the caller asks for the rest.
\<close>

theorem validate_body_safe:
  assumes "list_all (wf_type 0 0) ts" "byte_at ys 0 = 0"
    and "\<forall>a. p \<le> a \<and> a < p + len + 3 \<longrightarrow> M a \<noteq> None"
    and "\<not> meets_unsound_variant M host (xs @ sig_of_list ts @ ys) (length xs) b p len m"
  shows "\<exists>answer m'.
    validate_body_with_reason M host (xs @ sig_of_list ts @ ys) (length xs) b bytes_remaining p len m =
      Some (answer, m') \<and>
    (\<forall>left. answer = Inr left \<longrightarrow> left \<le> len \<and> (left = 0 \<or> bytes_remaining))"
  using validate_body_ends [OF assms(1,2) _ assms(4)] assms(3)
  unfolding region_def ends_def by blast

text \<open>A big-endian body for \<open>(bv)\<close>, its variant an unsigned integer, and the bytes after it.\<close>

definition memory_of :: "bytes \<Rightarrow> memory" where
  "memory_of bs a = (if a < length bs then Some (bs ! a) else None)"

lemma memory_of_set: "memory_of bs a = Some x \<Longrightarrow> x \<in> set bs"
  by (auto simp: memory_of_def split: if_splits)

definition sample_body :: bytes where
  "sample_body = [0, 0, 0, 1, 1] @ bytes ''u'' @ [0, 0, 0, 0, 7]"

theorem validate_body_safe_witness:
  "\<exists>answer m'.
    validate_body_with_reason (memory_of (sample_body @ bytes ''abc'')) LITTLE_ENDIAN (bytes ''u(bv)'') 1 BIG_ENDIAN False 0 11 [] =
      Some (answer, m') \<and>
    (\<forall>left. answer = Inr left \<longrightarrow> left \<le> 11 \<and> (left = 0 \<or> False))"
proof -
  let ?M = "memory_of (sample_body @ bytes ''abc'')"
  have "set (sample_body @ bytes ''abc'') \<inter> {DICT_ENTRY_BEGIN, DICT_ENTRY_END} = {}" by code_simp
  then have "?M a \<noteq> Some DICT_ENTRY_BEGIN" "?M a \<noteq> Some DICT_ENTRY_END" for a
    using memory_of_set [of "sample_body @ bytes ''abc''" a] by blast+
  from no_brackets_never_meets [of ?M, OF this]
  show ?thesis
    using validate_body_safe [of "[Struct [Simple DBUS_TYPE_BOOLEAN, Simple DBUS_TYPE_VARIANT]]" "[]" 0 11
      ?M LITTLE_ENDIAN "bytes ''u''" BIG_ENDIAN "[]" False]
    by (simp add: simple_codes_def memory_of_def sample_body_def)
qed

section \<open>Interleaved brackets in the data\<close>

text \<open>A body with one variant, whose signature is \<open>a{s(ii})\<close>, and 16 bytes of array.\<close>

definition interleaved_body :: bytes where
  "interleaved_body = [8] @ bytes ''a{s(ii})'' @ [0, 0, 0, 16, 0, 0, 0, 1, 0, 0, 0] @ bytes ''x'' @ replicate 11 0"

text \<open>
  The evaluation, from the innermost call outwards: the reader of the struct \<open>(ii\<close> meets the
  bracket that closes the dict entry.
\<close>

definition interleaved_memory :: memory where
  "interleaved_memory = memory_of (interleaved_body @ replicate 8 0)"

definition interleaved_reader :: "reader_class \<Rightarrow> nat \<Rightarrow> type_reader" where
  "interleaved_reader klass pos =
     reader_init klass LITTLE_ENDIAN (bytes ''a{s(ii})'' @ [0]) pos None INT_MAX"

lemmas type_loop_numeral = type_loop.simps(2) [of "pred_numeral k" for k, folded numeral_eq_Suc]

lemmas array_loop_numeral = array_loop.simps(2) [of "pred_numeral k" for k, folded numeral_eq_Suc]

lemma interleaved_leaves:
  "validate_variant_signature interleaved_memory 0 32 [] = Some (Inr (bytes ''a{s(ii})'' @ [0], 12), [])"
  "validate_length interleaved_memory LITTLE_ENDIAN LITTLE_ENDIAN 12 32 [] = Some (Inr (16, 16), [])"
  "validate_string_like interleaved_memory LITTLE_ENDIAN LITTLE_ENDIAN DBUS_TYPE_STRING 16 32 [] = Some (Inr 22, [])"
  "skip_padding interleaved_memory 22 24 [] = Some (Inr 24, [])"
  "skip_padding interleaved_memory 16 16 [] = Some (Inr 16, [])"
  "validate_fixed interleaved_memory LITTLE_ENDIAN LITTLE_ENDIAN DBUS_TYPE_INT32 24 32 [] = Some (Inr 28, [])"
  "validate_fixed interleaved_memory LITTLE_ENDIAN LITTLE_ENDIAN DBUS_TYPE_INT32 28 32 [] = Some (Inr 32, [])"
  by code_simp+

lemmas interleaved_reading = type_reader_get_current_type_def first_type_in_signature_def
  map_type_char_to_type_def byte_at_def type_reader_next_def reader_next_def struct_reader_next_def
  dict_entry_reader_next_def base_reader_next_def is_nested_def Let_def finish_at_def
  type_reader_recurse_def base_reader_recurse_def struct_or_dict_entry_types_only_reader_recurse_def
  array_types_only_reader_recurse_def type_reader_get_element_type_def reader_init_def

lemmas interleaved_steps = accept_def reject_def vbind_def DBUS_MAXIMUM_TYPE_RECURSION_DEPTH_def
  validate_value_def validate_members_def align_value_def type_loop_numeral array_loop_numeral

lemma interleaved_struct:
  "d \<le> 64 \<Longrightarrow> validate_body_helper (Suc n) interleaved_memory LITTLE_ENDIAN LITTLE_ENDIAN 32
     (interleaved_reader struct_types_only_reader_class 4) True d 24 [] = None"
proof -
  assume "d \<le> 64"
  let ?r = "interleaved_reader struct_types_only_reader_class 4"
  have "type_reader_get_current_type LITTLE_ENDIAN ?r = Some DBUS_TYPE_INT32"
    "type_reader_get_current_type LITTLE_ENDIAN (?r\<lparr>tr_type_pos := 5\<rparr>) = Some DBUS_TYPE_INT32"
    "type_reader_next LITTLE_ENDIAN ?r = Some (True, ?r\<lparr>tr_type_pos := 5\<rparr>)"
    "type_reader_next LITTLE_ENDIAN (?r\<lparr>tr_type_pos := 5\<rparr>) = None"
    "length (tr_type_str ?r) = 9"
    by (simp_all add: interleaved_reader_def interleaved_reading)
  with \<open>d \<le> 64\<close> show ?thesis using interleaved_leaves by (simp add: interleaved_steps)
qed

lemma interleaved_entry:
  "d \<le> 63 \<Longrightarrow> validate_body_helper (Suc (Suc n)) interleaved_memory LITTLE_ENDIAN LITTLE_ENDIAN 32
     (interleaved_reader dict_entry_types_only_reader_class 2) True d 16 [] = None"
proof -
  assume "d \<le> 63"
  let ?r = "interleaved_reader dict_entry_types_only_reader_class 2"
  have "type_reader_get_current_type LITTLE_ENDIAN ?r = Some DBUS_TYPE_STRING"
    "type_reader_next LITTLE_ENDIAN ?r = Some (True, ?r\<lparr>tr_type_pos := 3\<rparr>)"
    "type_reader_get_current_type LITTLE_ENDIAN (?r\<lparr>tr_type_pos := 3\<rparr>) = Some DBUS_TYPE_STRUCT"
    "type_reader_recurse (?r\<lparr>tr_type_pos := 3\<rparr>) = Some (interleaved_reader struct_types_only_reader_class 4)"
    "length (tr_type_str ?r) = 9"
    by (simp_all add: interleaved_reader_def interleaved_reading)
  with \<open>d \<le> 63\<close> show ?thesis using interleaved_leaves
    by (subst validate_body_helper.simps)
      (simp add: interleaved_steps interleaved_struct del: validate_body_helper.simps)
qed

lemma interleaved_element:
  "d \<le> 62 \<Longrightarrow> validate_body_helper (Suc (Suc (Suc n))) interleaved_memory LITTLE_ENDIAN LITTLE_ENDIAN 32
     ((interleaved_reader array_types_only_reader_class 1)\<lparr>tr_start_pos := INT_MAX, tr_array_len_offset := 7\<rparr>)
     False d 16 [] = None"
proof -
  assume "d \<le> 62"
  let ?r = "(interleaved_reader array_types_only_reader_class 1)\<lparr>tr_start_pos := INT_MAX, tr_array_len_offset := 7\<rparr>"
  have "type_reader_get_current_type LITTLE_ENDIAN ?r = Some DBUS_TYPE_DICT_ENTRY"
    "type_reader_recurse ?r = Some (interleaved_reader dict_entry_types_only_reader_class 2)"
    "length (tr_type_str ?r) = 9"
    by (simp_all add: interleaved_reader_def interleaved_reading)
  with \<open>d \<le> 62\<close> show ?thesis using interleaved_leaves
    by (subst validate_body_helper.simps)
      (simp add: interleaved_steps interleaved_entry del: validate_body_helper.simps)
qed

lemma interleaved_array:
  "d \<le> 61 \<Longrightarrow> validate_body_helper (Suc (Suc (Suc (Suc n)))) interleaved_memory LITTLE_ENDIAN LITTLE_ENDIAN 32
     (interleaved_reader body_types_only_reader_class 0) False d 12 [] = None"
proof -
  assume "d \<le> 61"
  let ?r = "interleaved_reader body_types_only_reader_class 0"
  let ?sub = "(interleaved_reader array_types_only_reader_class 1)\<lparr>tr_start_pos := INT_MAX, tr_array_len_offset := 7\<rparr>"
  have r: "type_reader_get_current_type LITTLE_ENDIAN ?r = Some DBUS_TYPE_ARRAY"
    "type_reader_get_element_type LITTLE_ENDIAN ?r = Some DBUS_TYPE_DICT_ENTRY"
    "type_reader_recurse ?r = Some ?sub"
    "length (tr_type_str ?r) = 9"
    by (simp_all add: interleaved_reader_def interleaved_reading)
  have "validate_array_start interleaved_memory LITTLE_ENDIAN LITTLE_ENDIAN ?r 12 32 [] = Some (Inr (16, 16), [])"
    using r interleaved_leaves by (simp add: validate_array_start_def interleaved_steps dbus_type_is_valid_def
        type_get_alignment_def DBUS_MAXIMUM_ARRAY_LENGTH_def)
  then have "validate_array (validate_body_helper (Suc (Suc (Suc n))) interleaved_memory LITTLE_ENDIAN LITTLE_ENDIAN 32)
      interleaved_memory LITTLE_ENDIAN LITTLE_ENDIAN ?r d 12 32 [] = None"
    using r \<open>d \<le> 61\<close> interleaved_element [of "Suc d" n]
    by (simp add: validate_array_def interleaved_steps dbus_type_is_fixed_def TYPE_IS_CONTAINER_def del: validate_body_helper.simps)
  with r \<open>d \<le> 61\<close> show ?thesis
    by (subst validate_body_helper.simps)
      (simp add: interleaved_steps del: validate_body_helper.simps)
qed

text \<open>
  C26. A body with a variant of signature a{s(ii}), which the signature validator accepts, makes
  the body validator fail an assertion instead of answering.
\<close>

theorem validate_body_aborts:
  "validate_body_with_reason (memory_of (interleaved_body @ replicate 8 0)) LITTLE_ENDIAN (bytes ''v'') 0 LITTLE_ENDIAN
     False 0 (length interleaved_body) [] = None"
proof -
  let ?r = "type_reader_init_types_only LITTLE_ENDIAN (bytes ''v'') 0"
  have "type_reader_get_current_type LITTLE_ENDIAN ?r = Some DBUS_TYPE_VARIANT" "length (tr_type_str ?r) = 1"
    by (simp_all add: type_reader_init_types_only_def interleaved_reading)
  moreover have sub: "type_reader_init_types_only LITTLE_ENDIAN (bytes ''a{s(ii})'' @ [0]) 0 =
      interleaved_reader body_types_only_reader_class 0"
    by (simp add: type_reader_init_types_only_def interleaved_reader_def)
  have "type_reader_get_current_type LITTLE_ENDIAN (interleaved_reader body_types_only_reader_class 0) = Some DBUS_TYPE_ARRAY"
    by (simp add: interleaved_reader_def interleaved_reading)
  then have "validate_variant (validate_body_helper (Suc (Suc (Suc (Suc 61)))) interleaved_memory LITTLE_ENDIAN LITTLE_ENDIAN 32)
      interleaved_memory LITTLE_ENDIAN 0 0 32 [] = None"
    unfolding validate_variant_def interleaved_leaves(1)
    using interleaved_array [of 1 61] sub by (simp add: interleaved_steps Let_def del: validate_body_helper.simps)
  ultimately have top: "validate_body_helper (Suc 65) interleaved_memory LITTLE_ENDIAN LITTLE_ENDIAN 32 ?r True 0 0 [] = None"
    by (subst validate_body_helper.simps) (simp add: interleaved_steps del: validate_body_helper.simps)
  have b: "body_depth = Suc 65" "0 + length interleaved_body = 32"
    by (simp_all add: body_depth_def interleaved_body_def)
  show ?thesis
    unfolding validate_body_with_reason_def interleaved_memory_def [symmetric] Let_def b top
    by (simp add: vbind_def)
qed

end
