(* ===== verification/StringOps.thy ===== *)
theory StringOps
  imports DString Signature
begin

text \<open>
  The operations of \<^verbatim>\<open>dbus/dbus-string.c\<close> above the buffer: searching, skipping, comparing,
  splitting off lines and words, and hexadecimal encoding. Functions that only read take the bytes
  of the string, functions that change it take the buffer; a C string argument is its bytes without
  the NUL.
\<close>

section \<open>Searching\<close>

text \<open>
  The inner loop of \<^verbatim>\<open>_dbus_string_find_to\<close>, over what follows \<^verbatim>\<open>i\<close> in the range and what follows
  the first byte of the C string: true when the loop stops at its NUL.
\<close>

fun match_loop :: "bytes \<Rightarrow> bytes \<Rightarrow> bool" where
  "match_loop cs [] = True"
| "match_loop [] (d # ds) = False"
| "match_loop (c # cs) (d # ds) = (if c \<noteq> d then False else match_loop cs ds)"

text \<open>The outer loop over the range, with the position relative to its start.\<close>

fun find_loop :: "bytes \<Rightarrow> byte \<Rightarrow> bytes \<Rightarrow> bool \<times> nat" where
  "find_loop [] d ds = (False, 0)"
| "find_loop (c # cs) d ds =
     (if c = d \<and> match_loop cs ds then (True, 0)
      else let (ok, found) = find_loop cs d ds in (ok, found + 1))"

definition string_find_to :: "bytes \<Rightarrow> nat \<Rightarrow> nat \<Rightarrow> bytes \<Rightarrow> (bool \<times> nat) option" where
  "string_find_to s start e sub =
     do { check (start \<le> length s \<and> e \<le> length s \<and> start \<le> e);
          case sub of
            [] \<Rightarrow> Some (True, start)
          | d # ds \<Rightarrow> (let (ok, found) = find_loop (substring s start (e - start)) d ds in
              Some (ok, start + found)) }"

definition string_find :: "bytes \<Rightarrow> nat \<Rightarrow> bytes \<Rightarrow> (bool \<times> nat) option" where
  "string_find s start sub = string_find_to s start (length s) sub"

abbreviation CR :: byte where "CR \<equiv> 13"
abbreviation LF :: byte where "LF \<equiv> 10"

text \<open>The loop of \<^verbatim>\<open>_dbus_string_find_eol\<close> over the rest of the string; the answer is relative to it.\<close>

fun find_eol_loop :: "bytes \<Rightarrow> bool \<times> nat \<times> nat" where
  "find_eol_loop [] = (False, 0, 0)"
| "find_eol_loop (c # cs) =
     (if c = CR then
        (case cs of d # ds \<Rightarrow> if d = LF then (True, 0, 2) else (True, 0, 1) | [] \<Rightarrow> (True, 0, 1))
      else if c = LF then (True, 0, 1)
      else let (ok, found, found_len) = find_eol_loop cs in (ok, found + 1, found_len))"

definition string_find_eol :: "bytes \<Rightarrow> nat \<Rightarrow> (bool \<times> nat \<times> nat) option" where
  "string_find_eol s start =
     do { check (start \<le> length s);
          let (ok, found, found_len) = find_eol_loop (drop start s);
          Some (ok, start + found, found_len) }"

definition IS_ASCII_BLANK :: "byte \<Rightarrow> bool" where
  "IS_ASCII_BLANK c \<longleftrightarrow> c = 32 \<or> c = 9"

definition IS_ASCII_WHITE :: "byte \<Rightarrow> bool" where
  "IS_ASCII_WHITE c \<longleftrightarrow> c = 32 \<or> c = 9 \<or> c = LF \<or> c = CR"

fun find_blank_loop :: "bytes \<Rightarrow> bool \<times> nat" where
  "find_blank_loop [] = (False, 0)"
| "find_blank_loop (c # cs) =
     (if c = 32 \<or> c = 9 then (True, 0) else let (ok, found) = find_blank_loop cs in (ok, found + 1))"

definition string_find_blank :: "bytes \<Rightarrow> nat \<Rightarrow> (bool \<times> nat) option" where
  "string_find_blank s start =
     do { check (start \<le> length s);
          let (ok, found) = find_blank_loop (drop start s);
          Some (ok, start + found) }"

fun skip_loop :: "(byte \<Rightarrow> bool) \<Rightarrow> bytes \<Rightarrow> nat" where
  "skip_loop P [] = 0"
| "skip_loop P (c # cs) = (if \<not> P c then 0 else skip_loop P cs + 1)"

text \<open>The assertion after the loop of \<^verbatim>\<open>_dbus_string_skip_blank\<close> asks for more than the loop ensures.\<close>

definition string_skip_blank :: "bytes \<Rightarrow> nat \<Rightarrow> nat option" where
  "string_skip_blank s start =
     do { check (start \<le> length s);
          let i = start + skip_loop IS_ASCII_BLANK (drop start s);
          check (i = length s \<or> \<not> IS_ASCII_WHITE (byte_at s i));
          Some i }"

definition string_skip_white :: "bytes \<Rightarrow> nat \<Rightarrow> nat option" where
  "string_skip_white s start =
     do { check (start \<le> length s);
          let i = start + skip_loop IS_ASCII_WHITE (drop start s);
          check (i = length s \<or> \<not> IS_ASCII_WHITE (byte_at s i));
          Some i }"

fun skip_white_reverse_loop :: "bytes \<Rightarrow> nat \<Rightarrow> nat" where
  "skip_white_reverse_loop s 0 = 0"
| "skip_white_reverse_loop s (Suc i) =
     (if \<not> IS_ASCII_WHITE (byte_at s i) then Suc i else skip_white_reverse_loop s i)"

definition string_skip_white_reverse :: "bytes \<Rightarrow> nat \<Rightarrow> nat option" where
  "string_skip_white_reverse s e = do { check (e \<le> length s); Some (skip_white_reverse_loop s e) }"

section \<open>Comparing\<close>

text \<open>Two loops: over both strings to a common end, and up to the NUL of a C string.\<close>

fun equal_loop :: "bytes \<Rightarrow> bytes \<Rightarrow> bool" where
  "equal_loop [] bs = True"
| "equal_loop (a # as) [] = False"
| "equal_loop (a # as) (b # bs) = (if a \<noteq> b then False else equal_loop as bs)"

definition string_equal :: "bytes \<Rightarrow> bytes \<Rightarrow> bool" where
  "string_equal a b = (if length a \<noteq> length b then False else equal_loop a b)"

definition string_equal_len :: "bytes \<Rightarrow> bytes \<Rightarrow> nat \<Rightarrow> bool" where
  "string_equal_len a b len =
     (if length a \<noteq> length b \<and> (length a < len \<or> length b < len) then False
      else equal_loop (take (min (length a) len) a) b)"

definition string_equal_substring :: "bytes \<Rightarrow> nat \<Rightarrow> nat \<Rightarrow> bytes \<Rightarrow> nat \<Rightarrow> bool option" where
  "string_equal_substring a a_start a_len b b_start =
     do { check (a_start \<le> length a \<and> a_len \<le> length a - a_start \<and> b_start \<le> length b);
          if a_len > length b - b_start then Some False
          else Some (equal_loop (substring a a_start a_len) (drop b_start b)) }"

fun equal_c_str_loop :: "bytes \<Rightarrow> bytes \<Rightarrow> bool" where
  "equal_c_str_loop [] [] = True"
| "equal_c_str_loop (a # as) (b # bs) = (if a \<noteq> b then False else equal_c_str_loop as bs)"
| "equal_c_str_loop _ _ = False"

definition string_equal_c_str :: "bytes \<Rightarrow> bytes \<Rightarrow> bool" where
  "string_equal_c_str a c_str = equal_c_str_loop a c_str"

fun starts_with_loop :: "bytes \<Rightarrow> bytes \<Rightarrow> bool" where
  "starts_with_loop (a # as) (b # bs) = (if a \<noteq> b then False else starts_with_loop as bs)"
| "starts_with_loop _ [] = True"
| "starts_with_loop [] (b # bs) = False"

definition string_starts_with_c_str :: "bytes \<Rightarrow> bytes \<Rightarrow> bool" where
  "string_starts_with_c_str a c_str = starts_with_loop a c_str"

section \<open>Lines and words\<close>

text \<open>The bytes of a string, for the functions that read.\<close>

definition contents :: "real_string \<Rightarrow> bytes" where
  "contents real = substring (ds_block real) (ds_align_offset real) (ds_len real)"

type_synonym outcome2 = "(bool \<times> real_string \<times> real_string \<times> heap) option"

definition string_split_on_byte :: "heap \<Rightarrow> real_string \<Rightarrow> byte \<Rightarrow> real_string \<Rightarrow> outcome2" where
  "string_split_on_byte h source b tail =
     do { (found, byte_position) \<leftarrow> string_find (contents source) 0 (if b = 0 then [] else [b]);
          if \<not> found then Some (False, source, tail, h)
          else do {
            let head_length = byte_position;
            let tail_length = ds_len source - head_length - 1;
            (ok, source, tail, h) \<leftarrow> string_move_len h source (byte_position + 1) tail_length tail 0;
            if \<not> ok then Some (False, source, tail, h)
            else do { (ok, source, h) \<leftarrow> string_set_length h source head_length;
                      Some (ok, source, tail, h) } } }"

definition string_pop_line :: "heap \<Rightarrow> real_string \<Rightarrow> real_string \<Rightarrow> outcome2" where
  "string_pop_line h source dest =
     do { (ok, dest, h) \<leftarrow> string_set_length h dest 0;
          (found, eol, eol_len) \<leftarrow> string_find_eol (contents source) 0;
          if \<not> found \<and> eol = 0 then Some (False, source, dest, h)
          else do {
            (ok, source, dest, h) \<leftarrow> string_move_len h source 0 (eol + eol_len) dest 0;
            if \<not> ok then Some (False, source, dest, h)
            else do { (ok, dest, h) \<leftarrow> string_set_length h dest eol;
                      check ok;
                      Some (True, source, dest, h) } } }"

definition string_chop_white :: "heap \<Rightarrow> real_string \<Rightarrow> (real_string \<times> heap) option" where
  "string_chop_white h real =
     do { i \<leftarrow> string_skip_white (contents real) 0;
          real \<leftarrow> (if i > 0 then string_delete real 0 i else Some real);
          i \<leftarrow> string_skip_white_reverse (contents real) (ds_len real);
          (ok, real, h) \<leftarrow> string_set_length h real i;
          Some (real, h) }"

section \<open>Hexadecimal\<close>

definition hexdigits :: bytes where
  "hexdigits = bytes ''0123456789abcdef''"

definition string_append_byte_as_hex :: "heap \<Rightarrow> real_string \<Rightarrow> byte \<Rightarrow> outcome" where
  "string_append_byte_as_hex h real b =
     do { (ok, real, h) \<leftarrow> string_append_byte h real (hexdigits ! unat (drop_bit 4 b));
          if \<not> ok then Some (False, real, h)
          else do {
            (ok, real, h) \<leftarrow> string_append_byte h real (hexdigits ! unat (b AND 0x0f));
            if \<not> ok then do { (ok, real, h) \<leftarrow> string_set_length h real (ds_len real - 1);
                              Some (False, real, h) }
            else Some (True, real, h) } }"

fun hex_encode_loop :: "heap \<Rightarrow> real_string \<Rightarrow> bytes \<Rightarrow> outcome" where
  "hex_encode_loop h result [] = Some (True, result, h)"
| "hex_encode_loop h result (c # cs) =
     do { (ok, result, h) \<leftarrow> string_append_byte_as_hex h result c;
          if \<not> ok then Some (False, result, h) else hex_encode_loop h result cs }"

definition string_hex_encode :: "heap \<Rightarrow> bytes \<Rightarrow> nat \<Rightarrow> real_string \<Rightarrow> nat \<Rightarrow> outcome" where
  "string_hex_encode h source start dest insert_at =
     do { check (start \<le> length source);
          (r, h) \<leftarrow> string_init h;
          case r of
            None \<Rightarrow> Some (False, dest, h)
          | Some result \<Rightarrow>
              do { (ok, result, h) \<leftarrow> hex_encode_loop h result (drop start source);
                   if \<not> ok then Some (False, dest, h)
                   else do { (ok, result, dest, h) \<leftarrow> string_move h result 0 dest insert_at;
                             Some (ok, dest, h) } } }"

text \<open>The \<^verbatim>\<open>switch\<close> on the digit; \<open>None\<close> is its default, which ends the loop.\<close>

definition hex_value :: "byte \<Rightarrow> byte option" where
  "hex_value c =
     (if 48 \<le> c \<and> c \<le> 57 then Some (c - 48)
      else if c = 97 \<or> c = 65 then Some 10 else if c = 98 \<or> c = 66 then Some 11
      else if c = 99 \<or> c = 67 then Some 12 else if c = 100 \<or> c = 68 then Some 13
      else if c = 101 \<or> c = 69 then Some 14 else if c = 102 \<or> c = 70 then Some 15
      else None)"

text \<open>The answer also carries how many digits were read.\<close>

fun hex_decode_loop :: "heap \<Rightarrow> real_string \<Rightarrow> bool \<Rightarrow> bytes \<Rightarrow> (bool \<times> nat \<times> real_string \<times> heap) option" where
  "hex_decode_loop h result high_bits [] = Some (True, 0, result, h)"
| "hex_decode_loop h result high_bits (c # cs) =
     (case hex_value c of
        None \<Rightarrow> Some (True, 0, result, h)
      | Some v \<Rightarrow>
          do { (ok, result, h) \<leftarrow>
                 (if high_bits then string_append_byte h result (push_bit 4 v)
                  else do { let len = ds_len result;
                            b \<leftarrow> string_get_byte result (len - 1);
                            result \<leftarrow> string_set_byte result (len - 1) (b OR v);
                            Some (True, result, h) });
               if \<not> ok then Some (False, 0, result, h)
               else do { (ok, n, result, h) \<leftarrow> hex_decode_loop h result (\<not> high_bits) cs;
                         Some (ok, n + 1, result, h) } })"

definition string_hex_decode ::
    "heap \<Rightarrow> bytes \<Rightarrow> nat \<Rightarrow> real_string \<Rightarrow> nat \<Rightarrow> (bool \<times> nat option \<times> real_string \<times> heap) option" where
  "string_hex_decode h source start dest insert_at =
     do { check (start \<le> length source);
          (r, h) \<leftarrow> string_init h;
          case r of
            None \<Rightarrow> Some (False, None, dest, h)
          | Some result \<Rightarrow>
              do { (ok, n, result, h) \<leftarrow> hex_decode_loop h result True (drop start source);
                   if \<not> ok then Some (False, None, dest, h)
                   else do { (ok, result, dest, h) \<leftarrow> string_move h result 0 dest insert_at;
                             if \<not> ok then Some (False, None, dest, h)
                             else Some (True, Some (start + n), dest, h) } } }"

definition tolower_byte :: "byte \<Rightarrow> byte" where
  "tolower_byte c = (if 65 \<le> c \<and> c \<le> 90 then c + (97 - 65) else c)"

definition toupper_byte :: "byte \<Rightarrow> byte" where
  "toupper_byte c = (if 97 \<le> c \<and> c \<le> 122 then c - (97 - 65) else c)"

text \<open>\<^verbatim>\<open>_dbus_string_tolower_ascii\<close> and \<^verbatim>\<open>_dbus_string_toupper_ascii\<close> change a range in place.\<close>

definition map_range :: "(byte \<Rightarrow> byte) \<Rightarrow> real_string \<Rightarrow> nat \<Rightarrow> nat \<Rightarrow> real_string option" where
  "map_range f real start len =
     do { string_preamble real; check (start \<le> ds_len real \<and> len \<le> ds_len real - start);
          xs \<leftarrow> get_at real start len; put_at real start (map f xs) }"

definition string_tolower_ascii :: "real_string \<Rightarrow> nat \<Rightarrow> nat \<Rightarrow> real_string option" where
  "string_tolower_ascii real start len = map_range tolower_byte real start len"

definition string_toupper_ascii :: "real_string \<Rightarrow> nat \<Rightarrow> nat \<Rightarrow> real_string option" where
  "string_toupper_ascii real start len = map_range toupper_byte real start len"

section \<open>Searching finds the first occurrence\<close>

text \<open>\<open>sub\<close> stands at position \<open>i\<close> of \<open>s\<close>.\<close>

definition occurs_at :: "bytes \<Rightarrow> bytes \<Rightarrow> nat \<Rightarrow> bool" where
  "occurs_at s sub i \<longleftrightarrow> (\<exists>zs. drop i s = sub @ zs)"

lemma match_loop_iff: "match_loop cs ds \<longleftrightarrow> (\<exists>zs. cs = ds @ zs)"
  by (induction cs ds rule: match_loop.induct) auto

lemma occurs_at_0: "occurs_at (c # cs) (d # ds) 0 \<longleftrightarrow> c = d \<and> match_loop cs ds"
  by (auto simp: occurs_at_def match_loop_iff)

lemma occurs_at_Suc [simp]: "occurs_at (c # cs) sub (Suc i) \<longleftrightarrow> occurs_at cs sub i"
  by (simp add: occurs_at_def)

definition first_occurrence :: "bytes \<Rightarrow> bytes \<Rightarrow> bool \<times> nat \<Rightarrow> bool" where
  "first_occurrence s sub r \<longleftrightarrow>
     (if fst r then occurs_at s sub (snd r) \<and> (\<forall>i < snd r. \<not> occurs_at s sub i)
      else snd r = length s \<and> (\<forall>i. \<not> occurs_at s sub i))"

lemma first_occurrence_Suc:
  "first_occurrence cs (d # ds) (ok, n) \<Longrightarrow> \<not> occurs_at (c # cs) (d # ds) 0 \<Longrightarrow>
   first_occurrence (c # cs) (d # ds) (ok, Suc n)"
  by (auto simp: first_occurrence_def less_Suc_eq_0_disj split: if_splits)
    (metis not0_implies_Suc occurs_at_Suc)

lemma find_loop_first: "first_occurrence cs (d # ds) (find_loop cs d ds)"
proof (induction cs)
  case Nil
  then show ?case by (simp add: first_occurrence_def occurs_at_def)
next
  case (Cons c cs)
  obtain ok n where r: "find_loop cs d ds = (ok, n)" by fastforce
  with Cons first_occurrence_Suc [of cs d ds ok n c] show ?case
    by (auto simp: occurs_at_0 first_occurrence_def)
qed

text \<open>
  The substring search answers the first position of the range at which the substring
  stands, and the end of the range when it stands nowhere.
\<close>

theorem string_find_to_first:
  assumes "start \<le> e" "e \<le> length s" "sub \<noteq> []"
  shows "\<exists>ok found. string_find_to s start e sub = Some (ok, start + found) \<and>
    (if ok then occurs_at (substring s start (e - start)) sub found \<and>
       (\<forall>i < found. \<not> occurs_at (substring s start (e - start)) sub i)
     else start + found = e \<and> (\<forall>i. \<not> occurs_at (substring s start (e - start)) sub i))"
proof -
  obtain d ds where sub: "sub = d # ds" using assms(3) by (cases sub) auto
  obtain ok n where r: "find_loop (substring s start (e - start)) d ds = (ok, n)" by fastforce
  with find_loop_first [of "substring s start (e - start)" d ds] assms sub show ?thesis
    by (auto simp: string_find_to_def first_occurrence_def split: if_splits)
qed

theorem string_find_to_witness:
  "\<exists>ok found. string_find_to (bytes ''abcbc'') 1 5 (bytes ''bc'') = Some (ok, 1 + found) \<and>
    (if ok then occurs_at (substring (bytes ''abcbc'') 1 (5 - 1)) (bytes ''bc'') found \<and>
       (\<forall>i < found. \<not> occurs_at (substring (bytes ''abcbc'') 1 (5 - 1)) (bytes ''bc'') i)
     else 1 + found = 5 \<and> (\<forall>i. \<not> occurs_at (substring (bytes ''abcbc'') 1 (5 - 1)) (bytes ''bc'') i))"
  by (rule string_find_to_first) simp_all

section \<open>Lines\<close>

text \<open>A line end at the start of a text, and its length.\<close>

fun eol_length :: "bytes \<Rightarrow> nat" where
  "eol_length (c # cs) =
     (if c = CR then (case cs of d # ds \<Rightarrow> if d = LF then 2 else 1 | [] \<Rightarrow> 1)
      else if c = LF then 1 else 0)"
| "eol_length [] = 0"

lemma find_eol_loop_eq:
  "find_eol_loop s =
     (let line = takeWhile (\<lambda>c. c \<noteq> CR \<and> c \<noteq> LF) s in
      (line \<noteq> s, length line, eol_length (drop (length line) s)))"
  by (induction s) (auto simp: Let_def split: list.splits)

definition line_of :: "bytes \<Rightarrow> bytes" where
  "line_of s = takeWhile (\<lambda>c. c \<noteq> CR \<and> c \<noteq> LF) s"

definition after_line :: "bytes \<Rightarrow> bytes" where
  "after_line s = drop (length (line_of s) + eol_length (drop (length (line_of s)) s)) s"

lemma eol_length_le: "eol_length s \<le> length s"
  by (cases s) (auto split: list.splits)

lemma eol_fits: "length (line_of s) + eol_length (drop (length (line_of s)) s) \<le> length s"
proof -
  have "length (line_of s) \<le> length s" by (simp add: line_of_def length_takeWhile_le)
  with eol_length_le [of "drop (length (line_of s)) s"] show ?thesis by simp
qed

lemma find_eol_spec:
  "string_find_eol s 0 = Some (line_of s \<noteq> s, length (line_of s), eol_length (drop (length (line_of s)) s))"
  by (simp add: string_find_eol_def find_eol_loop_eq Let_def line_of_def)

lemma rep_contents: "rep real C \<Longrightarrow> contents real = C"
  by (auto simp: rep_def contents_def substring_def)

lemma string_set_length_shorter:
  assumes "rep real C" "n \<le> length C"
  shows "\<exists>real'. string_set_length h real n = Some (True, real', h) \<and> rep real' (take n C)"
  using set_length_shorter [OF assms] assms(1) by (auto simp: string_set_length_def)

text \<open>
  The comment of \<^verbatim>\<open>_dbus_string_pop_line\<close> knows two line ends: a newline, and a carriage return with
  a newline. The code takes a carriage return of its own for a line end as well, so the two agree
  on text that has none.
\<close>

fun lone_CR :: "bytes \<Rightarrow> bool" where
  "lone_CR (c # cs) \<longleftrightarrow> c = CR \<and> (case cs of [] \<Rightarrow> True | d # ds \<Rightarrow> d \<noteq> LF) \<or> lone_CR cs"
| "lone_CR [] \<longleftrightarrow> False"

definition newline_split :: "bytes \<Rightarrow> bytes \<Rightarrow> bytes \<Rightarrow> bool" where
  "newline_split s line rest \<longleftrightarrow> LF \<notin> set line \<and>
     (s = line @ [CR, LF] @ rest \<or>
      s = line @ [LF] @ rest \<and> (line = [] \<or> last line \<noteq> CR) \<or>
      s = line \<and> rest = [])"

lemma line_of_newline: "\<not> lone_CR s \<Longrightarrow> newline_split s (line_of s) (after_line s)"
proof (induction s)
  case (Cons c s)
  consider "c = CR" | "c = LF" | "c \<noteq> CR" "c \<noteq> LF" by blast
  then show ?case
  proof cases
    case 1
    with Cons.prems obtain t where "s = LF # t" by (cases s) auto
    with 1 show ?thesis by (simp add: newline_split_def line_of_def after_line_def)
  next
    case 2
    then show ?thesis by (simp add: newline_split_def line_of_def after_line_def)
  next
    case 3
    then have "line_of (c # s) = c # line_of s" "after_line (c # s) = after_line s"
      by (simp_all add: line_of_def after_line_def)
    with 3 Cons show ?thesis by (auto simp: newline_split_def)
  qed
qed (simp add: newline_split_def line_of_def after_line_def)

text \<open>What popping a line answers: the first line goes to the destination, the rest stays.\<close>

text \<open>
  C23. Popping a line moves the first line without its line end to the destination and leaves
  the text after it; it fails only on an empty buffer or for lack of memory, and then keeps the
  source. A line end is CR LF, LF or a CR of its own. The comments of the code do not know the
  last one; on text without a lone CR the line is the one they describe, which ends before the
  first LF or CR LF and is the whole text when there is none.
\<close>

theorem string_pop_line_spec:
  assumes "rep source S" "rep dest D"
  shows "\<exists>ok source' dest' h'. string_pop_line h source dest = Some (ok, source', dest', h') \<and>
    (if ok then S \<noteq> [] \<and> rep source' (after_line S) \<and> rep dest' (line_of S) \<and>
       (\<not> lone_CR S \<longrightarrow> newline_split S (line_of S) (after_line S))
     else rep source' S \<and> rep dest' [] \<and> (S = [] \<or> Fail \<in> set h))"
proof -
  let ?n = "length (line_of S) + eol_length (drop (length (line_of S)) S)"
  obtain dest1 where 1: "string_set_length h dest 0 = Some (True, dest1, h)" "rep dest1 []"
    using string_set_length_shorter [OF assms(2), of 0 h] by auto
  have eol: "string_find_eol (contents source) 0 = Some (line_of S \<noteq> S, length (line_of S),
      eol_length (drop (length (line_of S)) S))"
    using find_eol_spec rep_contents [OF assms(1)] by simp
  show ?thesis
  proof (cases "line_of S = S \<and> length (line_of S) = 0")
    case True
    then have "S = []" by auto
    with True have eq: "string_pop_line h source dest = Some (False, source, dest1, h)"
      using 1(1) eol by (simp add: string_pop_line_def)
    from \<open>S = []\<close> 1(2) assms(1) show ?thesis unfolding eq ex_answer4 by simp
  next
    case False
    then have "S \<noteq> []" by (auto simp: line_of_def)
    with False have some: "line_of S = S \<longrightarrow> line_of S \<noteq> []" by auto
    have fit: "length (take ?n S) \<le> STRING_MAX_LENGTH"
      using rep_length [OF assms(1)] eol_fits [of S] by simp
    have "moves h (string_move_len h source 0 ?n dest1 0) S (after_line S) [] (take ?n S)"
      using string_move_len_moves [OF assms(1) 1(2), of 0 0 ?n h] eol_fits [of S]
      by (simp add: after_line_def substring_def)
    then show ?thesis
    proof (cases rule: movesE)
      case (ok source' dest' h')
      from string_set_length_shorter [OF ok(3), of "length (line_of S)" h'] eol_fits [of S]
      obtain dest2 where "string_set_length h' dest' (length (line_of S)) = Some (True, dest2, h')"
        "rep dest2 (take (length (line_of S)) (take ?n S))" by auto
      moreover have "take (length (line_of S)) (take ?n S) = line_of S"
        using eol_fits [of S] by (simp add: line_of_def min_def takeWhile_eq_take [symmetric])
      ultimately have 2: "string_set_length h' dest' (length (line_of S)) = Some (True, dest2, h')"
        "rep dest2 (line_of S)" by simp_all
      have eq: "string_pop_line h source dest = Some (True, source', dest2, h')"
        using 1(1) eol ok(1) some 2(1) by (auto simp: string_pop_line_def)
      from ok(2) 2(2) \<open>S \<noteq> []\<close> show ?thesis unfolding eq ex_answer4 by (simp add: line_of_newline)
    next
      case (fails source' dest' h')
      have eq: "string_pop_line h source dest = Some (False, source', dest', h')"
        using 1(1) eol fails(1) some by (auto simp: string_pop_line_def)
      have "Fail \<in> set h" using fails(5) fit by (meson not_le)
      with fails(2,3) show ?thesis unfolding eq ex_answer4 by simp
    qed
  qed
qed

theorem string_pop_line_witness:
  "\<exists>source' dest' h'. string_pop_line [] (buffer_of (bytes ''AUTH'' @ [CR, LF] @ bytes ''x'')) (buffer_of (bytes ''old'')) =
     Some (True, source', dest', h') \<and> rep source' (bytes ''x'') \<and> rep dest' (bytes ''AUTH'')"
proof -
  have "rep (buffer_of (bytes ''AUTH'' @ [CR, LF] @ bytes ''x'')) (bytes ''AUTH'' @ [CR, LF] @ bytes ''x'')"
    "rep (buffer_of (bytes ''old'')) (bytes ''old'')"
    by (rule rep_buffer_of, simp add: max_length)+
  from string_pop_line_spec [OF this, of "[]"] show ?thesis
    by (auto simp: line_of_def after_line_def split: if_splits)
qed

section \<open>Hexadecimal round trip\<close>

definition hex_of_byte :: "byte \<Rightarrow> bytes" where
  "hex_of_byte b = [hexdigits ! unat (drop_bit 4 b), hexdigits ! unat (b AND 0x0f)]"

definition hex_of :: "bytes \<Rightarrow> bytes" where
  "hex_of bs = concat (map hex_of_byte bs)"

lemma string_init_heap:
  "\<exists>r h'. string_init h = Some (r, h') \<and> set h' \<subseteq> set h \<and>
     (case r of None \<Rightarrow> Fail \<in> set h | Some real \<Rightarrow> rep real [])"
proof -
  obtain r h' where r: "string_init h = Some (r, h')"
    "case r of None \<Rightarrow> Fail \<in> set h | Some real \<Rightarrow> rep real []"
    using string_init_spec by blast
  have "set h' \<subseteq> set h"
    using r(1) heap_alloc_subset [of h 8]
    by (auto simp: string_init_def string_init_preallocated_def ALLOCATION_PADDING_def
        split: prod.splits option.splits Option.bind_splits)
  with r show ?thesis by blast
qed

lemma outcome_cases:
  assumes "outcome h r C C'"
  obtains (ok) real h' where "r = Some (True, real, h')" "rep real C'" "set h' \<subseteq> set h"
  | (fails) real h' where "r = Some (False, real, h')" "rep real C" "set h' \<subseteq> set h"
      "Fail \<in> set h \<or> STRING_MAX_LENGTH < length C'"
  using assms unfolding outcome_def by (metis (full_types))

lemma outcome_trans:
  assumes "outcome h1 r C C'" "set h1 \<subseteq> set h"
  shows "outcome h r C C'"
  using assms unfolding outcome_def by blast

lemma append_byte_as_hex_outcome:
  assumes "rep real C"
  shows "outcome h (string_append_byte_as_hex h real b) C (C @ hex_of_byte b)"
proof -
  let ?x = "hexdigits ! unat (drop_bit 4 b)" and ?y = "hexdigits ! unat (b AND 0x0f)"
  have "outcome h (string_append_byte h real ?x) C (C @ [?x])"
    by (rule string_append_byte_outcome [OF assms])
  then obtain ok real1 h1 where 1: "string_append_byte h real ?x = Some (ok, real1, h1)"
    "rep real1 (if ok then C @ [?x] else C)" "set h1 \<subseteq> set h"
    "ok \<or> Fail \<in> set h \<or> STRING_MAX_LENGTH < length C + 1"
    by (auto simp: outcome_def)
  show ?thesis
  proof (cases ok)
    case False
    with 1 show ?thesis
      by (auto simp: string_append_byte_as_hex_def hex_of_byte_def intro!: outcome_fail)
  next
    case True
    with 1(2) have r1: "rep real1 (C @ [?x])" by simp
    have "outcome h1 (string_append_byte h1 real1 ?y) (C @ [?x]) ((C @ [?x]) @ [?y])"
      by (rule string_append_byte_outcome [OF r1])
    then obtain ok2 real2 h2 where 2: "string_append_byte h1 real1 ?y = Some (ok2, real2, h2)"
      "rep real2 (if ok2 then C @ [?x, ?y] else C @ [?x])" "set h2 \<subseteq> set h1"
      "ok2 \<or> Fail \<in> set h1 \<or> STRING_MAX_LENGTH < length C + 2"
      by (auto simp: outcome_def)
    show ?thesis
    proof (cases ok2)
      case True
      with 1 2 \<open>ok\<close> show ?thesis
        by (auto simp: string_append_byte_as_hex_def hex_of_byte_def intro!: outcome_ok)
    next
      case False
      with 2(2) have r2: "rep real2 (C @ [?x])" by simp
      from string_set_length_shorter [OF r2, of "length C" h2] rep_length [OF r2]
      obtain real3 where "string_set_length h2 real2 (ds_len real2 - 1) = Some (True, real3, h2)"
        "rep real3 C" by auto
      with 1 2 \<open>ok\<close> False show ?thesis
        by (auto simp: string_append_byte_as_hex_def hex_of_byte_def intro!: outcome_fail)
    qed
  qed
qed

lemma hex_of_simps [simp]: "hex_of [] = []" "hex_of (b # bs) = hex_of_byte b @ hex_of bs"
  by (simp_all add: hex_of_def)

lemma length_hex_of [simp]: "length (hex_of bs) = 2 * length bs"
  by (induction bs) (simp_all add: hex_of_byte_def)

text \<open>The result of a failed loop is thrown away, so only its success is specified.\<close>

lemma hex_encode_loop_spec:
  "rep real C \<Longrightarrow>
   \<exists>ok real' h'. hex_encode_loop h real bs = Some (ok, real', h') \<and> set h' \<subseteq> set h \<and>
     (if ok then rep real' (C @ hex_of bs)
      else Fail \<in> set h \<or> STRING_MAX_LENGTH < length C + 2 * length bs)"
proof (induction bs arbitrary: real C h)
  case Nil
  then show ?case unfolding hex_encode_loop.simps ex_answer3 by simp
next
  case (Cons b bs)
  from append_byte_as_hex_outcome [OF Cons.prems, of h b] show ?case
  proof (cases rule: outcome_cases)
    case (ok real1 h1)
    from Cons.IH [OF ok(2), of h1] obtain ok2 real2 h2
      where "hex_encode_loop h1 real1 bs = Some (ok2, real2, h2)" "set h2 \<subseteq> set h1"
        "if ok2 then rep real2 ((C @ hex_of_byte b) @ hex_of bs)
         else Fail \<in> set h1 \<or> STRING_MAX_LENGTH < length (C @ hex_of_byte b) + 2 * length bs"
      by blast
    moreover from this ok have eq: "hex_encode_loop h real (b # bs) = Some (ok2, real2, h2)" by simp
    ultimately show ?thesis
      unfolding eq ex_answer3 using ok(3) by (cases ok2) (auto simp: hex_of_byte_def)
  next
    case (fails real1 h1)
    then have eq: "hex_encode_loop h real (b # bs) = Some (False, real1, h1)" by simp
    from fails show ?thesis unfolding eq ex_answer3 by (auto simp: hex_of_byte_def)
  qed
qed

lemma string_move_moves:
  assumes "rep source S" "rep dest C" "i \<le> length C"
  shows "moves h (string_move h source 0 dest i) S [] C (take i C @ S @ drop i C)"
  using string_move_len_moves [OF assms, of 0 "length S" h] rep_length [OF assms(1)]
  by (simp add: string_move_def substring_def)

lemma string_hex_encode_outcome:
  assumes "rep dest C" "i \<le> length C" "start \<le> length src"
  shows "outcome h (string_hex_encode h src start dest i) C
    (take i C @ hex_of (drop start src) @ drop i C)"
proof -
  let ?C' = "take i C @ hex_of (drop start src) @ drop i C"
  obtain r h1 where r: "string_init h = Some (r, h1)" "set h1 \<subseteq> set h"
    "case r of None \<Rightarrow> Fail \<in> set h | Some real \<Rightarrow> rep real []"
    using string_init_heap by blast
  show ?thesis
  proof (cases r)
    case None
    with r assms show ?thesis by (auto simp: string_hex_encode_def intro!: outcome_fail)
  next
    case (Some real)
    with r(3) have "rep real []" by simp
    from hex_encode_loop_spec [OF this, of h1 "drop start src"] obtain ok real2 h2
      where 2: "hex_encode_loop h1 real (drop start src) = Some (ok, real2, h2)" "set h2 \<subseteq> set h1"
        "if ok then rep real2 (hex_of (drop start src))
         else Fail \<in> set h1 \<or> STRING_MAX_LENGTH < 2 * length (drop start src)"
      by (simp only: append_Nil list.size add_0) blast
    show ?thesis
    proof (cases ok)
      case False
      with 2 r Some assms show ?thesis
        by (auto simp: string_hex_encode_def intro!: outcome_fail)
    next
      case True
      with 2(3) have "rep real2 (hex_of (drop start src))" by simp
      from string_move_moves [OF this assms(1,2), of h2] show ?thesis
      proof (cases rule: movesE)
        case (ok source' dest' h')
        with True 2(1,2) r Some assms(3) show ?thesis
          by (auto simp: string_hex_encode_def intro!: outcome_ok)
      next
        case (fails source' dest' h')
        have "string_hex_encode h src start dest i = Some (False, dest', h')"
          using True 2(1) r(1) Some assms(3) fails(1) by (simp add: string_hex_encode_def)
        moreover have "set h' \<subseteq> set h" "Fail \<in> set h \<or> STRING_MAX_LENGTH < length ?C'"
          using fails(4,5) 2(2) r(2) by blast+
        ultimately show ?thesis using fails(3) by (simp only: outcome_fail)
      qed
    qed
  qed
qed

text \<open>The digits and their values.\<close>

lemma hex_value_digit: "k < 16 \<Longrightarrow> hex_value (hexdigits ! k) = Some (of_nat k)"
proof -
  have "list_all (\<lambda>k. hex_value (hexdigits ! k) = Some (of_nat k)) [0..<16]" by code_simp
  then show "k < 16 \<Longrightarrow> ?thesis" by (simp add: list_all_iff)
qed

lemma nibble_high: "unat (drop_bit 4 (b :: byte)) < 16"
  using unat_word8_less [of b] by (simp add: unat_drop_bit div_less_iff_less_mult)

lemma nibble_low: "unat (b AND 0x0f :: byte) < 16"
proof -
  have "b AND 0x0f = take_bit 4 b" by (simp add: take_bit_eq_mask mask_eq_exp_minus_1)
  then show ?thesis by (simp add: unat_take_bit)
qed

lemma nibbles: "push_bit 4 (drop_bit 4 b) OR (b AND 0x0f) = (b :: byte)"
proof -
  have "b AND 0x0f = take_bit 4 b" by (simp add: take_bit_eq_mask mask_eq_exp_minus_1)
  moreover have "push_bit 4 (drop_bit 4 b) OR take_bit 4 b = b"
    by (auto intro!: bit_word_eqI simp: bit_simps not_le)
  ultimately show ?thesis by (simp only:)
qed

lemma hex_values:
  "hex_value (hexdigits ! unat (drop_bit 4 b)) = Some (drop_bit 4 b)"
  "hex_value (hexdigits ! unat (b AND 0x0f)) = Some (b AND 0x0f)"
  using hex_value_digit [OF nibble_high] hex_value_digit [OF nibble_low] by simp_all

text \<open>Setting the low bits of the byte appended last.\<close>

lemma set_low_bits:
  assumes "rep real (C @ [b])"
  shows "\<exists>real'. (do { let len = ds_len real; c \<leftarrow> string_get_byte real (len - 1);
    real \<leftarrow> string_set_byte real (len - 1) (c OR v); Some (True, real, h) }) = Some (True, real', h) \<and>
    rep real' (C @ [b OR v])"
proof -
  have len: "ds_len real - 1 = length C" using rep_length [OF assms] by simp
  have "string_get_byte real (length C) = Some b"
    using string_get_byte_holds [OF rep_holds [OF assms], of "length C"] by simp
  moreover obtain real' where "string_set_byte real (length C) (b OR v) = Some real'"
    "rep real' (C @ [b OR v])"
    using string_set_byte_rep [OF assms, of "length C" "b OR v"] by auto
  ultimately show ?thesis using len by (simp add: Let_def)
qed

definition no_digit :: "bytes \<Rightarrow> bool" where
  "no_digit s \<longleftrightarrow> (case s of [] \<Rightarrow> True | c # cs \<Rightarrow> hex_value c = None)"

text \<open>The loop reads pairs of digits and stops at the first character that is none.\<close>

lemma hex_decode_loop_spec:
  "rep real C \<Longrightarrow> no_digit rest \<Longrightarrow>
   \<exists>ok n real' h'. hex_decode_loop h real True (hex_of bs @ rest) = Some (ok, n, real', h') \<and>
     set h' \<subseteq> set h \<and>
     (if ok then n = 2 * length bs \<and> rep real' (C @ bs)
      else Fail \<in> set h \<or> STRING_MAX_LENGTH < length C + length bs)"
proof (induction bs arbitrary: real C h)
  case Nil
  then have eq: "hex_decode_loop h real True (hex_of [] @ rest) = Some (True, 0, real, h)"
    by (cases rest) (simp_all add: no_digit_def)
  from Nil show ?case unfolding eq ex_answer4 by simp
next
  case (Cons b bs)
  let ?v = "push_bit 4 (drop_bit 4 b)"
  from string_append_byte_outcome [OF Cons.prems(1), of h ?v] show ?case
  proof (cases rule: outcome_cases)
    case (ok real1 h1)
    from set_low_bits [OF ok(2), of "b AND 0x0f" h1] obtain real2
      where low: "(do { let len = ds_len real1; c \<leftarrow> string_get_byte real1 (len - 1);
        real \<leftarrow> string_set_byte real1 (len - 1) (c OR (b AND 0x0f)); Some (True, real, h1) }) =
        Some (True, real2, h1)"
        and "rep real2 (C @ [?v OR (b AND 0x0f)])" by blast
    then have r2: "rep real2 (C @ [b])" by (simp only: nibbles)
    from Cons.IH [OF r2 Cons.prems(2), of h1] obtain ok3 n3 real3 h3
      where 3: "hex_decode_loop h1 real2 True (hex_of bs @ rest) = Some (ok3, n3, real3, h3)"
        "set h3 \<subseteq> set h1"
        "if ok3 then n3 = 2 * length bs \<and> rep real3 ((C @ [b]) @ bs)
         else Fail \<in> set h1 \<or> STRING_MAX_LENGTH < length (C @ [b]) + length bs" by blast
    have eq: "hex_decode_loop h real True (hex_of (b # bs) @ rest) = Some (ok3, n3 + 1 + 1, real3, h3)"
      using ok(1) low 3(1) by (simp add: hex_of_byte_def hex_values)
    from 3 ok(3) show ?thesis unfolding eq ex_answer4 by (cases ok3) auto
  next
    case (fails real1 h1)
    then have eq: "hex_decode_loop h real True (hex_of (b # bs) @ rest) = Some (False, 0, real1, h1)"
      by (simp add: hex_of_byte_def hex_values)
    from fails show ?thesis unfolding eq ex_answer4 by auto
  qed
qed

text \<open>Decoding puts the bytes into the destination, or reports a lack of memory and leaves it.\<close>

definition decodes :: "heap \<Rightarrow> (bool \<times> nat option \<times> real_string \<times> heap) option \<Rightarrow> bytes \<Rightarrow> bytes \<Rightarrow> nat \<Rightarrow> bool" where
  "decodes h r C C' n \<longleftrightarrow>
     (\<exists>ok e dest h'. r = Some (ok, e, dest, h') \<and> set h' \<subseteq> set h \<and>
        (if ok then e = Some n \<and> rep dest C'
         else e = None \<and> rep dest C \<and> (Fail \<in> set h \<or> STRING_MAX_LENGTH < length C')))"

lemma decodes_ok: "set h' \<subseteq> set h \<Longrightarrow> rep dest C' \<Longrightarrow> decodes h (Some (True, Some n, dest, h')) C C' n"
  unfolding decodes_def ex_answer4 by simp

lemma decodes_fail:
  "set h' \<subseteq> set h \<Longrightarrow> rep dest C \<Longrightarrow> Fail \<in> set h \<or> STRING_MAX_LENGTH < length C' \<Longrightarrow>
   decodes h (Some (False, None, dest, h')) C C' n"
  unfolding decodes_def ex_answer4 by simp

lemma string_hex_decode_decodes:
  assumes "rep dest C" "i \<le> length C" "no_digit rest"
  shows "decodes h (string_hex_decode h (hex_of bs @ rest) 0 dest i) C
    (take i C @ bs @ drop i C) (2 * length bs)"
proof -
  obtain r h1 where r: "string_init h = Some (r, h1)" "set h1 \<subseteq> set h"
    "case r of None \<Rightarrow> Fail \<in> set h | Some real \<Rightarrow> rep real []"
    using string_init_heap by blast
  show ?thesis
  proof (cases r)
    case None
    with r assms show ?thesis by (auto simp: string_hex_decode_def intro!: decodes_fail)
  next
    case (Some real)
    with r(3) have "rep real []" by simp
    from hex_decode_loop_spec [OF this assms(3), of h1 bs] obtain ok n real2 h2
      where 2: "hex_decode_loop h1 real True (hex_of bs @ rest) = Some (ok, n, real2, h2)"
        "set h2 \<subseteq> set h1"
        "if ok then n = 2 * length bs \<and> rep real2 bs else Fail \<in> set h1 \<or> STRING_MAX_LENGTH < length bs"
      by (simp only: append_Nil list.size add_0) blast
    show ?thesis
    proof (cases ok)
      case False
      with 2 r Some assms show ?thesis by (auto simp: string_hex_decode_def intro!: decodes_fail)
    next
      case True
      with 2(3) have "rep real2 bs" and n: "n = 2 * length bs" by simp_all
      from string_move_moves [OF this(1) assms(1,2), of h2] show ?thesis
      proof (cases rule: movesE)
        case (ok source' dest' h')
        with True 2(1,2) n r Some show ?thesis
          by (auto simp: string_hex_decode_def intro!: decodes_ok)
      next
        case (fails source' dest' h')
        have eq: "string_hex_decode h (hex_of bs @ rest) 0 dest i = Some (False, None, dest', h')"
          using True 2(1) r(1) Some fails(1) by (simp add: string_hex_decode_def)
        have "set h' \<subseteq> set h" "Fail \<in> set h \<or> STRING_MAX_LENGTH < length (take i C @ bs @ drop i C)"
          using fails(4,5) 2(2) r(2) by blast+
        with fails(3) show ?thesis unfolding eq by (intro decodes_fail)
      qed
    qed
  qed
qed

text \<open>
  C24. Decoding hexadecimal text that was encoded from a byte sequence inserts that byte
  sequence and reports the length of the text, or fails for lack of memory and keeps the
  destination.
\<close>

theorem string_hex_roundtrip:
  assumes "string_hex_encode h bs 0 hex 0 = Some (True, hex', h1)" "rep hex []"
    and "rep dest C" "i \<le> length C"
  shows "decodes h2 (string_hex_decode h2 (contents hex') 0 dest i) C
    (take i C @ bs @ drop i C) (2 * length bs)"
proof -
  from string_hex_encode_outcome [OF assms(2), of 0 0 bs h] assms(1)
  have "rep hex' (hex_of bs)" by (auto simp: outcome_def)
  then have "contents hex' = hex_of bs @ []" by (simp add: rep_contents)
  then show ?thesis
    using string_hex_decode_decodes [OF assms(3,4), of "[]" h2 bs] by (simp only: no_digit_def list.case simp_thms)
qed

theorem string_hex_roundtrip_witness:
  "\<exists>hex' h1. string_hex_encode [] (bytes ''Az'') 0 (buffer_of []) 0 = Some (True, hex', h1) \<and>
    decodes [] (string_hex_decode [] (contents hex') 0 (buffer_of (bytes ''xy'')) 1) (bytes ''xy'') (bytes ''xAzy'') 4"
proof -
  have r: "rep (buffer_of []) []" "rep (buffer_of (bytes ''xy'')) (bytes ''xy'')"
    by (rule rep_buffer_of, simp add: max_length)+
  have "outcome [] (string_hex_encode [] (bytes ''Az'') 0 (buffer_of []) 0) [] (hex_of (bytes ''Az''))"
    using string_hex_encode_outcome [OF r(1), of 0 0 "bytes ''Az''" "[]"] by simp
  then obtain hex' h1 where 1: "string_hex_encode [] (bytes ''Az'') 0 (buffer_of []) 0 = Some (True, hex', h1)"
    by (cases rule: outcome_cases) (auto simp: max_length hex_of_byte_def)
  have "decodes [] (string_hex_decode [] (contents hex') 0 (buffer_of (bytes ''xy'')) 1) (bytes ''xy'')
      (take 1 (bytes ''xy'') @ bytes ''Az'' @ drop 1 (bytes ''xy'')) (2 * length (bytes ''Az''))"
    by (rule string_hex_roundtrip [OF 1 r]) simp
  with 1 show ?thesis by auto
qed

end
