(* ===== verification/DList.thy ===== *)
theory DList
  imports Prelude "HOL-Library.Monad_Syntax"
begin

text \<open>
  Doubly linked circular lists, \<^verbatim>\<open>dbus/dbus-list.c\<close>. A link is a node of an explicit heap, a
  \<^verbatim>\<open>DBusList*\<close> the address of a link or \<^verbatim>\<open>NULL\<close>, and a \<^verbatim>\<open>DBusList**\<close> a value that is passed in and
  returned changed. Following a null or dangling pointer is \<open>None\<close>, and so is a loop that does not
  end. Links come from an allocator that answers with an unused address or fails.
\<close>

section \<open>Definitions\<close>

record 'a link =
  l_prev :: "nat option"
  l_next :: "nat option"
  l_data :: 'a

record 'a list_heap =
  lh_links :: "nat \<rightharpoonup> 'a link"
  lh_fresh :: nat
  lh_mem :: mem

type_synonym list_ptr = "nat option"

definition get_link :: "'a list_heap \<Rightarrow> nat \<Rightarrow> 'a link option" where
  "get_link s p = lh_links s p"

definition put_link :: "'a list_heap \<Rightarrow> nat \<Rightarrow> 'a link \<Rightarrow> 'a list_heap" where
  "put_link s p l = s\<lparr>lh_links := (lh_links s)(p \<mapsto> l)\<rparr>"

text \<open>Assignments through a pointer; a bad pointer is \<open>None\<close>.\<close>

definition set_next :: "nat option \<Rightarrow> nat option \<Rightarrow> 'a list_heap \<Rightarrow> 'a list_heap option" where
  "set_next p q s = do { p \<leftarrow> p; l \<leftarrow> get_link s p; Some (put_link s p (l\<lparr>l_next := q\<rparr>)) }"

definition set_prev :: "nat option \<Rightarrow> nat option \<Rightarrow> 'a list_heap \<Rightarrow> 'a list_heap option" where
  "set_prev p q s = do { p \<leftarrow> p; l \<leftarrow> get_link s p; Some (put_link s p (l\<lparr>l_prev := q\<rparr>)) }"

definition get_next :: "'a list_heap \<Rightarrow> nat \<Rightarrow> nat option option" where
  "get_next s p = do { l \<leftarrow> get_link s p; Some (l_next l) }"

definition get_prev :: "'a list_heap \<Rightarrow> nat \<Rightarrow> nat option option" where
  "get_prev s p = do { l \<leftarrow> get_link s p; Some (l_prev l) }"

definition get_data :: "'a list_heap \<Rightarrow> nat \<Rightarrow> 'a option" where
  "get_data s p = do { l \<leftarrow> get_link s p; Some (l_data l) }"

text \<open>A new link is zeroed and gets its data; \<^verbatim>\<open>NULL\<close> when memory is exhausted.\<close>

definition alloc_link :: "'a \<Rightarrow> 'a list_heap \<Rightarrow> nat option \<times> 'a list_heap" where
  "alloc_link data s =
     (let (ok, m) = alloc (lh_mem s); s = s\<lparr>lh_mem := m\<rparr>; p = lh_fresh s in
      if \<not> ok then (None, s)
      else (Some p, (put_link s p \<lparr>l_prev = None, l_next = None, l_data = data\<rparr>)\<lparr>lh_fresh := p + 1\<rparr>))"

definition free_link :: "nat \<Rightarrow> 'a list_heap \<Rightarrow> 'a list_heap option" where
  "free_link p s = do { l \<leftarrow> get_link s p; Some (s\<lparr>lh_links := (lh_links s)(p := None)\<rparr>) }"

definition link_before :: "list_ptr \<Rightarrow> nat option \<Rightarrow> nat \<Rightarrow> 'a list_heap \<Rightarrow> (list_ptr \<times> 'a list_heap) option" where
  "link_before list before_this_link link s =
     (if list = None then
        do { s \<leftarrow> set_prev (Some link) (Some link) s;
             s \<leftarrow> set_next (Some link) (Some link) s;
             Some (Some link, s) }
      else
        do { s \<leftarrow> set_next (Some link) before_this_link s;
             b \<leftarrow> before_this_link;
             prev \<leftarrow> get_prev s b;
             s \<leftarrow> set_prev (Some link) prev s;
             s \<leftarrow> set_prev before_this_link (Some link) s;
             prev \<leftarrow> get_prev s link;
             s \<leftarrow> set_next prev (Some link) s;
             Some (if before_this_link = list then Some link else list, s) })"

definition link_after :: "list_ptr \<Rightarrow> nat \<Rightarrow> nat \<Rightarrow> 'a list_heap \<Rightarrow> (list_ptr \<times> 'a list_heap) option" where
  "link_after list after_this_link link s =
     (if list = None then
        do { s \<leftarrow> set_prev (Some link) (Some link) s;
             s \<leftarrow> set_next (Some link) (Some link) s;
             Some (Some link, s) }
      else
        do { s \<leftarrow> set_prev (Some link) (Some after_this_link) s;
             next \<leftarrow> get_next s after_this_link;
             s \<leftarrow> set_next (Some link) next s;
             s \<leftarrow> set_next (Some after_this_link) (Some link) s;
             next \<leftarrow> get_next s link;
             s \<leftarrow> set_prev next (Some link) s;
             Some (list, s) })"

text \<open>The macros \<^verbatim>\<open>_dbus_list_get_next_link\<close> and \<^verbatim>\<open>_dbus_list_get_prev_link\<close>: \<^verbatim>\<open>NULL\<close> at the ends.\<close>

definition list_get_next_link :: "list_ptr \<Rightarrow> nat \<Rightarrow> 'a list_heap \<Rightarrow> nat option option" where
  "list_get_next_link list link s =
     do { next \<leftarrow> get_next s link; Some (if next = list then None else next) }"

definition list_get_prev_link :: "list_ptr \<Rightarrow> nat \<Rightarrow> 'a list_heap \<Rightarrow> nat option option" where
  "list_get_prev_link list link s =
     (if Some link = list then Some None else get_prev s link)"

definition list_prepend_link :: "list_ptr \<Rightarrow> nat \<Rightarrow> 'a list_heap \<Rightarrow> (list_ptr \<times> 'a list_heap) option" where
  "list_prepend_link list link s = link_before list list link s"

definition list_append_link :: "list_ptr \<Rightarrow> nat \<Rightarrow> 'a list_heap \<Rightarrow> (list_ptr \<times> 'a list_heap) option" where
  "list_append_link list link s =
     do { (list, s) \<leftarrow> list_prepend_link list link s;
          p \<leftarrow> list;
          next \<leftarrow> get_next s p;
          Some (next, s) }"

definition list_prepend :: "list_ptr \<Rightarrow> 'a \<Rightarrow> 'a list_heap \<Rightarrow> (bool \<times> list_ptr \<times> 'a list_heap) option" where
  "list_prepend list data s =
     (case alloc_link data s of
        (None, s) \<Rightarrow> Some (False, list, s)
      | (Some link, s) \<Rightarrow> do { (list, s) \<leftarrow> link_before list list link s; Some (True, list, s) })"

definition list_append :: "list_ptr \<Rightarrow> 'a \<Rightarrow> 'a list_heap \<Rightarrow> (bool \<times> list_ptr \<times> 'a list_heap) option" where
  "list_append list data s =
     do { (ok, list, s) \<leftarrow> list_prepend list data s;
          if \<not> ok then Some (False, list, s)
          else do { p \<leftarrow> list; next \<leftarrow> get_next s p; Some (True, next, s) } }"

definition list_insert_after ::
    "list_ptr \<Rightarrow> nat option \<Rightarrow> 'a \<Rightarrow> 'a list_heap \<Rightarrow> (bool \<times> list_ptr \<times> 'a list_heap) option" where
  "list_insert_after list after_this_link data s =
     (case after_this_link of
        None \<Rightarrow> list_prepend list data s
      | Some a \<Rightarrow>
          (case alloc_link data s of
             (None, s) \<Rightarrow> Some (False, list, s)
           | (Some link, s) \<Rightarrow> do { (list, s) \<leftarrow> link_after list a link s; Some (True, list, s) }))"

definition list_insert_before_link ::
    "list_ptr \<Rightarrow> nat option \<Rightarrow> nat \<Rightarrow> 'a list_heap \<Rightarrow> (list_ptr \<times> 'a list_heap) option" where
  "list_insert_before_link list before_this_link link s =
     (if before_this_link = None then list_append_link list link s
      else link_before list before_this_link link s)"

definition list_insert_after_link ::
    "list_ptr \<Rightarrow> nat option \<Rightarrow> nat \<Rightarrow> 'a list_heap \<Rightarrow> (list_ptr \<times> 'a list_heap) option" where
  "list_insert_after_link list after_this_link link s =
     (case after_this_link of
        None \<Rightarrow> list_prepend_link list link s
      | Some a \<Rightarrow> link_after list a link s)"

definition list_unlink :: "list_ptr \<Rightarrow> nat \<Rightarrow> 'a list_heap \<Rightarrow> (list_ptr \<times> 'a list_heap) option" where
  "list_unlink list link s =
     do { next \<leftarrow> get_next s link;
          prev \<leftarrow> get_prev s link;
          (list, s) \<leftarrow>
            (if next = Some link then Some (None, s)
             else do { s \<leftarrow> set_next prev next s;
                       s \<leftarrow> set_prev next prev s;
                       Some (if list = Some link then next else list, s) });
          s \<leftarrow> set_next (Some link) None s;
          s \<leftarrow> set_prev (Some link) None s;
          Some (list, s) }"

definition list_remove_link :: "list_ptr \<Rightarrow> nat \<Rightarrow> 'a list_heap \<Rightarrow> (list_ptr \<times> 'a list_heap) option" where
  "list_remove_link list link s =
     do { (list, s) \<leftarrow> list_unlink list link s; s \<leftarrow> free_link link s; Some (list, s) }"

section \<open>Loops\<close>

text \<open>The search of \<^verbatim>\<open>_dbus_list_remove\<close> for the first link with the data.\<close>

partial_function (option) find_first_loop ::
    "list_ptr \<Rightarrow> 'a \<Rightarrow> nat option \<Rightarrow> 'a list_heap \<Rightarrow> nat option option" where
  "find_first_loop list data link s =
     (case link of
        None \<Rightarrow> Some None
      | Some p \<Rightarrow>
          do { d \<leftarrow> get_data s p;
               if d = data then Some (Some p)
               else do { link \<leftarrow> list_get_next_link list p s; find_first_loop list data link s } })"

definition list_remove :: "list_ptr \<Rightarrow> 'a \<Rightarrow> 'a list_heap \<Rightarrow> (bool \<times> list_ptr \<times> 'a list_heap) option" where
  "list_remove list data s =
     do { link \<leftarrow> find_first_loop list data list s;
          case link of
            None \<Rightarrow> Some (False, list, s)
          | Some p \<Rightarrow> do { (list, s) \<leftarrow> list_remove_link list p s; Some (True, list, s) } }"

definition list_get_first_link :: "list_ptr \<Rightarrow> nat option" where
  "list_get_first_link list = list"

definition list_get_last_link :: "list_ptr \<Rightarrow> 'a list_heap \<Rightarrow> nat option option" where
  "list_get_last_link list s = (case list of None \<Rightarrow> Some None | Some p \<Rightarrow> get_prev s p)"

definition list_get_first :: "list_ptr \<Rightarrow> 'a list_heap \<Rightarrow> 'a option option" where
  "list_get_first list s =
     (case list of None \<Rightarrow> Some None | Some p \<Rightarrow> do { d \<leftarrow> get_data s p; Some (Some d) })"

definition list_get_last :: "list_ptr \<Rightarrow> 'a list_heap \<Rightarrow> 'a option option" where
  "list_get_last list s =
     (case list of None \<Rightarrow> Some None
      | Some p \<Rightarrow> do { prev \<leftarrow> get_prev s p; q \<leftarrow> prev; d \<leftarrow> get_data s q; Some (Some d) })"

partial_function (option) find_last_loop ::
    "list_ptr \<Rightarrow> 'a \<Rightarrow> nat option \<Rightarrow> 'a list_heap \<Rightarrow> nat option option" where
  "find_last_loop list data link s =
     (case link of
        None \<Rightarrow> Some None
      | Some p \<Rightarrow>
          do { d \<leftarrow> get_data s p;
               if d = data then Some (Some p)
               else do { link \<leftarrow> list_get_prev_link list p s; find_last_loop list data link s } })"

definition list_find_last :: "list_ptr \<Rightarrow> 'a \<Rightarrow> 'a list_heap \<Rightarrow> nat option option" where
  "list_find_last list data s =
     do { link \<leftarrow> list_get_last_link list s; find_last_loop list data link s }"

definition list_remove_last :: "list_ptr \<Rightarrow> 'a \<Rightarrow> 'a list_heap \<Rightarrow> (bool \<times> list_ptr \<times> 'a list_heap) option" where
  "list_remove_last list data s =
     do { link \<leftarrow> list_find_last list data s;
          case link of
            None \<Rightarrow> Some (False, list, s)
          | Some p \<Rightarrow> do { (list, s) \<leftarrow> list_remove_link list p s; Some (True, list, s) } }"

text \<open>\<^verbatim>\<open>_dbus_list_clear\<close> reads the next link before it frees the current one.\<close>

partial_function (option) clear_loop :: "list_ptr \<Rightarrow> nat option \<Rightarrow> 'a list_heap \<Rightarrow> 'a list_heap option" where
  "clear_loop list link s =
     (case link of
        None \<Rightarrow> Some s
      | Some p \<Rightarrow>
          do { next \<leftarrow> list_get_next_link list p s;
               s \<leftarrow> free_link p s;
               clear_loop list next s })"

definition list_clear :: "list_ptr \<Rightarrow> 'a list_heap \<Rightarrow> (list_ptr \<times> 'a list_heap) option" where
  "list_clear list s = do { s \<leftarrow> clear_loop list list s; Some (None, s) }"

definition list_pop_first_link :: "list_ptr \<Rightarrow> 'a list_heap \<Rightarrow> (nat option \<times> list_ptr \<times> 'a list_heap) option" where
  "list_pop_first_link list s =
     (case list_get_first_link list of
        None \<Rightarrow> Some (None, list, s)
      | Some link \<Rightarrow> do { (list, s) \<leftarrow> list_unlink list link s; Some (Some link, list, s) })"

definition list_pop_first :: "list_ptr \<Rightarrow> 'a list_heap \<Rightarrow> ('a option \<times> list_ptr \<times> 'a list_heap) option" where
  "list_pop_first list s =
     (case list_get_first_link list of
        None \<Rightarrow> Some (None, list, s)
      | Some link \<Rightarrow>
          do { data \<leftarrow> get_data s link;
               (list, s) \<leftarrow> list_remove_link list link s;
               Some (Some data, list, s) })"

definition list_pop_last :: "list_ptr \<Rightarrow> 'a list_heap \<Rightarrow> ('a option \<times> list_ptr \<times> 'a list_heap) option" where
  "list_pop_last list s =
     do { link \<leftarrow> list_get_last_link list s;
          case link of
            None \<Rightarrow> Some (None, list, s)
          | Some link \<Rightarrow>
              do { data \<leftarrow> get_data s link;
                   (list, s) \<leftarrow> list_remove_link list link s;
                   Some (Some data, list, s) } }"

partial_function (option) copy_loop ::
    "list_ptr \<Rightarrow> nat option \<Rightarrow> list_ptr \<Rightarrow> 'a list_heap \<Rightarrow> (bool \<times> list_ptr \<times> 'a list_heap) option" where
  "copy_loop list link dest s =
     (case link of
        None \<Rightarrow> Some (True, dest, s)
      | Some p \<Rightarrow>
          do { d \<leftarrow> get_data s p;
               (ok, dest, s) \<leftarrow> list_append dest d s;
               if \<not> ok then do { (dest, s) \<leftarrow> list_clear dest s; Some (False, dest, s) }
               else do { link \<leftarrow> list_get_next_link list p s; copy_loop list link dest s } })"

definition list_copy :: "list_ptr \<Rightarrow> 'a list_heap \<Rightarrow> (bool \<times> list_ptr \<times> 'a list_heap) option" where
  "list_copy list s = copy_loop list list None s"

partial_function (option) length_loop :: "list_ptr \<Rightarrow> nat option \<Rightarrow> nat \<Rightarrow> 'a list_heap \<Rightarrow> nat option" where
  "length_loop list link n s =
     (case link of
        None \<Rightarrow> Some n
      | Some p \<Rightarrow> do { link \<leftarrow> list_get_next_link list p s; length_loop list link (n + 1) s })"

definition list_get_length :: "list_ptr \<Rightarrow> 'a list_heap \<Rightarrow> nat option" where
  "list_get_length list s = length_loop list list 0 s"

definition list_length_is_one :: "list_ptr \<Rightarrow> 'a list_heap \<Rightarrow> bool option" where
  "list_length_is_one list s =
     (case list of None \<Rightarrow> Some False | Some p \<Rightarrow> do { next \<leftarrow> get_next s p; Some (next = list) })"

section \<open>The list a heap represents\<close>

text \<open>
  A run of links: each points back to the one before it and on to the one after it, the first to
  \<open>b\<close> and the last to \<open>a\<close>.
\<close>

fun hd_or :: "'a \<Rightarrow> 'a list \<Rightarrow> 'a" where
  "hd_or a [] = a"
| "hd_or a (x # xs) = x"

fun last_or :: "'a \<Rightarrow> 'a list \<Rightarrow> 'a" where
  "last_or a [] = a"
| "last_or a (x # xs) = last_or x xs"

lemma hd_or_append [simp]: "hd_or a (xs @ ys) = hd_or (hd_or a ys) xs"
  by (cases xs) auto

lemma last_or_append [simp]: "last_or a (xs @ ys) = last_or (last_or a xs) ys"
  by (induction xs arbitrary: a) auto

fun chain :: "'a list_heap \<Rightarrow> nat \<Rightarrow> nat list \<Rightarrow> nat \<Rightarrow> bool" where
  "chain s b [] a \<longleftrightarrow> True"
| "chain s b (x # xs) a \<longleftrightarrow>
     (\<exists>l. lh_links s x = Some l \<and> l_prev l = Some b \<and> l_next l = Some (hd_or a xs)) \<and>
     chain s x xs a"

definition circ :: "'a list_heap \<Rightarrow> nat list \<Rightarrow> bool" where
  "circ s xs \<longleftrightarrow> distinct xs \<and> (case xs of [] \<Rightarrow> True | x # ys \<Rightarrow> chain s (last_or x ys) xs x)"

definition head_of :: "nat list \<Rightarrow> list_ptr" where
  "head_of xs = (case xs of [] \<Rightarrow> None | x # ys \<Rightarrow> Some x)"

text \<open>
  The list at the pointer has the links \<open>xs\<close>, in this order, and their data is \<open>ds\<close>. Addresses from
  \<open>lh_fresh\<close> on are unused.
\<close>

definition heap_ok :: "'a list_heap \<Rightarrow> bool" where
  "heap_ok s \<longleftrightarrow> (\<forall>p \<ge> lh_fresh s. lh_links s p = None)"

definition holds_list :: "'a list_heap \<Rightarrow> list_ptr \<Rightarrow> nat list \<Rightarrow> 'a list \<Rightarrow> bool" where
  "holds_list s list xs ds \<longleftrightarrow>
     heap_ok s \<and> circ s xs \<and> list = head_of xs \<and> map (get_data s) xs = map Some ds"

text \<open>What an operation may change: pointers of the links in \<open>A\<close>, never the data.\<close>

definition relinks :: "nat set \<Rightarrow> 'a list_heap \<Rightarrow> 'a list_heap \<Rightarrow> bool" where
  "relinks A s t \<longleftrightarrow> lh_fresh t = lh_fresh s \<and> lh_mem t = lh_mem s \<and>
     (\<forall>x. x \<notin> A \<longrightarrow> lh_links t x = lh_links s x) \<and> (\<forall>x. get_data t x = get_data s x)"

lemma put_link_links [simp]: "lh_links (put_link s p l) = (lh_links s)(p \<mapsto> l)"
  "lh_fresh (put_link s p l) = lh_fresh s" "lh_mem (put_link s p l) = lh_mem s"
  by (simp_all add: put_link_def)

lemmas link_defs = set_next_def set_prev_def get_next_def get_prev_def get_data_def get_link_def

lemma chain_append:
  "chain s b (xs @ ys) a \<longleftrightarrow>
     chain s b xs (hd_or a ys) \<and> chain s (last_or b xs) ys a"
  by (induction xs arbitrary: b) auto

lemma chain_frame:
  "(\<And>x. x \<in> set xs \<Longrightarrow> lh_links t x = lh_links s x) \<Longrightarrow> chain t b xs a \<longleftrightarrow> chain s b xs a"
  by (induction xs arbitrary: b) auto

lemma head_of_simps [simp]: "head_of [] = None" "head_of (x # xs) = Some x"
  by (simp_all add: head_of_def)

lemma circ_rotate: "circ s (xs @ ys) \<Longrightarrow> circ s (ys @ xs)"
  by (cases xs; cases ys) (auto simp: circ_def chain_append)

text \<open>Linking in front of the first link of a ring.\<close>

lemma link_before_ring:
  assumes "circ s (b # ys)" "link \<notin> set (b # ys)" "lh_links s link = Some l" "list \<noteq> None"
  shows "\<exists>t. link_before list (Some b) link s = Some (if Some b = list then Some link else list, t) \<and>
    circ t (link # b # ys) \<and> relinks (set (link # b # ys)) s t"
proof (cases ys rule: rev_cases)
  case Nil
  with assms obtain k where "lh_links s b = Some k" "l_prev k = Some b" "l_next k = Some b" "b \<noteq> link"
    by (auto simp: circ_def)
  with assms Nil show ?thesis
    by (auto simp: link_before_def link_defs relinks_def circ_def)
next
  case (snoc zs z)
  with assms have d: "distinct (link # b # zs @ [z])" by (auto simp: circ_def)
  from assms(1) snoc have c: "chain s z (b # zs @ [z]) b" by (simp add: circ_def)
  then obtain k kz where k: "lh_links s b = Some k" "l_prev k = Some z"
    "lh_links s z = Some kz" "l_next kz = Some b"
    by (auto simp: chain_append)
  let ?t = "put_link (put_link (put_link (put_link s link (l\<lparr>l_next := Some b\<rparr>)) link
    (l\<lparr>l_next := Some b, l_prev := Some z\<rparr>)) b (k\<lparr>l_prev := Some link\<rparr>)) z (kz\<lparr>l_next := Some link\<rparr>)"
  have "link_before list (Some b) link s = Some (if Some b = list then Some link else list, ?t)"
    using assms(3,4) k d by (auto simp: link_before_def link_defs)
  moreover have "chain ?t b zs z \<longleftrightarrow> chain s b zs z" by (rule chain_frame) (use d in auto)
  then have "circ ?t (link # b # ys)"
    using c d k snoc by (auto simp: circ_def chain_append)
  moreover have "relinks (set (link # b # ys)) s ?t"
    using k d snoc assms(3) by (auto simp: relinks_def link_defs)
  ultimately show ?thesis by blast
qed

text \<open>Linking behind the first link of a ring.\<close>

lemma link_after_ring:
  assumes "circ s (a # ys)" "link \<notin> set (a # ys)" "lh_links s link = Some l" "list \<noteq> None"
  shows "\<exists>t. link_after list a link s = Some (list, t) \<and>
    circ t (a # link # ys) \<and> relinks (set (a # link # ys)) s t"
proof (cases ys)
  case Nil
  with assms obtain k where "lh_links s a = Some k" "l_prev k = Some a" "l_next k = Some a" "a \<noteq> link"
    by (auto simp: circ_def)
  with assms Nil show ?thesis
    by (auto simp: link_after_def link_defs relinks_def circ_def)
next
  case (Cons y zs)
  with assms have d: "distinct (link # a # y # zs)" by (auto simp: circ_def)
  from assms(1) Cons have c: "chain s (last_or y zs) (a # y # zs) a" by (simp add: circ_def)
  then obtain k ky where k: "lh_links s a = Some k" "l_next k = Some y"
    "lh_links s y = Some ky" "l_prev ky = Some a" by auto
  let ?t = "put_link (put_link (put_link (put_link s link (l\<lparr>l_prev := Some a\<rparr>)) link
    (l\<lparr>l_prev := Some a, l_next := Some y\<rparr>)) a (k\<lparr>l_next := Some link\<rparr>)) y (ky\<lparr>l_prev := Some link\<rparr>)"
  have "link_after list a link s = Some (list, ?t)"
    using assms(3,4) k d by (auto simp: link_after_def link_defs)
  moreover have "chain ?t y zs a \<longleftrightarrow> chain s y zs a" by (rule chain_frame) (use d in auto)
  then have "circ ?t (a # link # ys)" using c d k Cons by (auto simp: circ_def)
  moreover have "relinks (set (a # link # ys)) s ?t"
    using k d Cons assms(3) by (auto simp: relinks_def link_defs)
  ultimately show ?thesis by blast
qed

text \<open>Taking the first link of a ring out; the link itself is left without neighbours.\<close>

lemma unlink_ring:
  assumes "circ s (x # ys)" "list \<noteq> None"
  shows "\<exists>t. list_unlink list x s =
      Some (if ys = [] then None else if list = Some x then head_of ys else list, t) \<and>
    circ t ys \<and> relinks (set (x # ys)) s t"
proof (cases ys rule: rev_cases)
  case Nil
  with assms obtain k where "lh_links s x = Some k" "l_prev k = Some x" "l_next k = Some x"
    by (auto simp: circ_def)
  with Nil show ?thesis by (auto simp: list_unlink_def link_defs relinks_def circ_def)
next
  case (snoc zs z)
  have d: "distinct (x # zs @ [z])" using assms(1) snoc by (auto simp: circ_def)
  from assms(1) snoc have c: "chain s z (x # zs @ [z]) x" by (simp add: circ_def)
  let ?y = "hd_or z zs"
  from c obtain k where k: "lh_links s x = Some k" "l_prev k = Some z" "l_next k = Some ?y" by auto
  obtain kz where kz: "lh_links s z = Some kz" "l_next kz = Some x" using c by (auto simp: chain_append)
  let ?s1 = "put_link s z (kz\<lparr>l_next := Some ?y\<rparr>)"
  obtain ky where ky: "lh_links ?s1 ?y = Some ky" "lh_links s ?y = Some (if zs = [] then kz else ky)"
    "zs = [] \<longrightarrow> ky = kz\<lparr>l_next := Some z\<rparr>"
    using c kz d by (cases zs) auto
  let ?t = "put_link (put_link (put_link ?s1 ?y (ky\<lparr>l_prev := Some z\<rparr>)) x (k\<lparr>l_next := None\<rparr>)) x
    (k\<lparr>l_next := None, l_prev := None\<rparr>)"
  have xy: "x \<noteq> ?y" "x \<noteq> z" using d by (cases zs; auto)+
  have "list_unlink list x s = Some (if list = Some x then Some ?y else list, ?t)"
    using k kz ky xy by (auto simp: list_unlink_def link_defs)
  moreover have "circ ?t ys"
  proof (cases zs)
    case Nil
    with snoc k kz ky xy d show ?thesis by (auto simp: circ_def)
  next
    case (Cons y ws)
    have "chain ?t y ws z \<longleftrightarrow> chain s y ws z" by (rule chain_frame) (use d Cons in auto)
    with c d kz ky xy snoc Cons show ?thesis by (auto simp: circ_def chain_append)
  qed
  moreover have "relinks (set (x # ys)) s ?t"
    using k kz ky xy d snoc by (cases zs) (auto simp: relinks_def link_defs)
  moreover have "head_of ys = Some ?y" using snoc by (cases zs) auto
  ultimately show ?thesis using snoc by auto
qed

text \<open>The same at any place of a list, by turning the ring.\<close>

lemma relinks_set: "relinks A s t \<Longrightarrow> A = B \<Longrightarrow> relinks B s t"
  by simp

lemma link_before_at:
  assumes "circ s (us @ b # vs)" "link \<notin> set (us @ b # vs)" "lh_links s link = Some l"
  shows "\<exists>t. link_before (head_of (us @ b # vs)) (Some b) link s = Some (head_of (us @ link # b # vs), t) \<and>
    circ t (us @ link # b # vs) \<and> relinks (set (us @ link # b # vs)) s t"
proof -
  let ?list = "head_of (us @ b # vs)"
  have "circ s (b # vs @ us)" using circ_rotate [OF assms(1)] by simp
  moreover have "?list \<noteq> None" by (cases us) auto
  ultimately obtain t where t: "link_before ?list (Some b) link s = Some (if Some b = ?list then Some link else ?list, t)"
    "circ t (link # b # vs @ us)" "relinks (set (link # b # vs @ us)) s t"
    using link_before_ring [of s b "vs @ us" link l ?list] assms(2,3) by auto
  have "circ t (us @ link # b # vs)" using circ_rotate [of t "link # b # vs" us] t(2) by simp
  moreover have "(if Some b = ?list then Some link else ?list) = head_of (us @ link # b # vs)"
    using assms(1) by (cases us) (auto simp: circ_def)
  moreover have "relinks (set (us @ link # b # vs)) s t" using t(3) by (rule relinks_set) auto
  ultimately show ?thesis using t(1) by simp
qed

lemma link_after_at:
  assumes "circ s (us @ a # vs)" "link \<notin> set (us @ a # vs)" "lh_links s link = Some l"
  shows "\<exists>t. link_after (head_of (us @ a # vs)) a link s = Some (head_of (us @ a # link # vs), t) \<and>
    circ t (us @ a # link # vs) \<and> relinks (set (us @ a # link # vs)) s t"
proof -
  let ?list = "head_of (us @ a # vs)"
  have "circ s (a # vs @ us)" using circ_rotate [OF assms(1)] by simp
  moreover have "?list \<noteq> None" by (cases us) auto
  ultimately obtain t where t: "link_after ?list a link s = Some (?list, t)"
    "circ t (a # link # vs @ us)" "relinks (set (a # link # vs @ us)) s t"
    using link_after_ring [of s a "vs @ us" link l ?list] assms(2,3) by auto
  have "circ t (us @ a # link # vs)" using circ_rotate [of t "a # link # vs" us] t(2) by simp
  moreover have "?list = head_of (us @ a # link # vs)" by (cases us) auto
  moreover have "relinks (set (us @ a # link # vs)) s t" using t(3) by (rule relinks_set) auto
  ultimately show ?thesis using t(1) by simp
qed

lemma unlink_at:
  assumes "circ s (us @ x # vs)"
  shows "\<exists>t. list_unlink (head_of (us @ x # vs)) x s = Some (head_of (us @ vs), t) \<and>
    circ t (us @ vs) \<and> relinks (set (us @ x # vs)) s t"
proof -
  let ?list = "head_of (us @ x # vs)"
  have "circ s (x # vs @ us)" using circ_rotate [OF assms] by simp
  moreover have "?list \<noteq> None" by (cases us) auto
  ultimately obtain t where t: "list_unlink ?list x s =
      Some (if vs @ us = [] then None else if ?list = Some x then head_of (vs @ us) else ?list, t)"
    "circ t (vs @ us)" "relinks (set (x # vs @ us)) s t"
    using unlink_ring [of s x "vs @ us" ?list] by blast
  moreover have "circ t (us @ vs)" by (rule circ_rotate [OF t(2)])
  moreover have "(if vs @ us = [] then None else if ?list = Some x then head_of (vs @ us) else ?list) = head_of (us @ vs)"
    using assms by (cases us) (auto simp: circ_def)
  moreover have "relinks (set (us @ x # vs)) s t" using t(3) by (rule relinks_set) auto
  ultimately show ?thesis by simp
qed

section \<open>The operations on represented lists\<close>

lemma relinks_heap_ok: "relinks A s t \<Longrightarrow> heap_ok s \<Longrightarrow> heap_ok t"
proof -
  assume r: "relinks A s t" and ok: "heap_ok s"
  have "lh_links t p = None" if "lh_fresh t \<le> p" for p
  proof -
    have "get_data t p = get_data s p" "lh_links s p = None"
      using r ok that by (auto simp: relinks_def heap_ok_def)
    then show ?thesis by (simp add: link_defs split: Option.bind_splits)
  qed
  then show ?thesis by (simp add: heap_ok_def)
qed

lemma relinks_data: "relinks A s t \<Longrightarrow> get_data t = get_data s"
  by (auto simp: relinks_def)

lemma holds_relinks:
  "heap_ok s \<Longrightarrow> relinks A s t \<Longrightarrow> circ t xs \<Longrightarrow> map (get_data s) xs = map Some ds \<Longrightarrow>
   holds_list t (head_of xs) xs ds"
  using relinks_heap_ok [of A s t] relinks_data [of A s t] by (simp add: holds_list_def)

text \<open>A list is not affected by changes elsewhere.\<close>

lemma holds_frame:
  assumes "holds_list s list xs ds" "heap_ok t" "\<And>x. x \<in> set xs \<Longrightarrow> lh_links t x = lh_links s x"
  shows "holds_list t list xs ds"
proof -
  have "circ t xs"
    using assms(1) chain_frame [of xs t s] assms(3) by (auto simp: holds_list_def circ_def split: list.splits)
  moreover have "map (get_data t) xs = map (get_data s) xs" using assms(3) by (simp add: link_defs)
  ultimately show ?thesis using assms(1,2) by (simp only: holds_list_def)
qed

lemma chain_dom: "chain s b xs a \<Longrightarrow> x \<in> set xs \<Longrightarrow> \<exists>l. lh_links s x = Some l"
  by (induction xs arbitrary: b) auto

lemma circ_dom: "circ s xs \<Longrightarrow> x \<in> set xs \<Longrightarrow> \<exists>l. lh_links s x = Some l"
  using chain_dom by (fastforce simp: circ_def split: list.splits)

lemma holds_fresh: "holds_list s list xs ds \<Longrightarrow> lh_fresh s \<notin> set xs"
  using circ_dom by (fastforce simp: holds_list_def heap_ok_def)

lemma alloc_link_cases:
  assumes "alloc_link d s = (r, t)" "heap_ok s"
  shows "heap_ok t \<and> set (lh_mem t) \<subseteq> set (lh_mem s) \<and>
    (case r of None \<Rightarrow> lh_links t = lh_links s \<and> False \<in> set (lh_mem s)
     | Some p \<Rightarrow> p = lh_fresh s \<and>
         lh_links t = (lh_links s)(p \<mapsto> \<lparr>l_prev = None, l_next = None, l_data = d\<rparr>))"
  using assms by (cases "lh_mem s") (auto simp: alloc_link_def heap_ok_def Let_def split: if_splits)

text \<open>
  What the operations that need a new link answer: the longer list, or the old one when memory is
  exhausted. Links outside the list and the new one are not touched.
\<close>

definition adds ::
    "'a list_heap \<Rightarrow> nat list \<Rightarrow> 'a list \<Rightarrow> (bool \<times> list_ptr \<times> 'a list_heap) option \<Rightarrow> nat list \<Rightarrow> 'a list \<Rightarrow> bool" where
  "adds s xs ds r xs' ds' \<longleftrightarrow>
     (\<exists>ok list' t. r = Some (ok, list', t) \<and> set (lh_mem t) \<subseteq> set (lh_mem s) \<and>
        (\<forall>x. x \<notin> set xs \<longrightarrow> x \<noteq> lh_fresh s \<longrightarrow> lh_links t x = lh_links s x) \<and>
        (if ok then holds_list t list' xs' ds'
         else list' = head_of xs \<and> holds_list t (head_of xs) xs ds \<and> False \<in> set (lh_mem s)))"

lemma adds_linked:
  assumes "holds_list s list xs ds" "alloc_link d s = (Some p, s1)" "r = Some (head_of xs', t)"
    and "circ t xs'" "relinks (set xs') s1 t" "set xs' = insert p (set xs)"
    and "map (get_data s1) xs' = map Some ds'"
  shows "adds s xs ds (do { (list, s) \<leftarrow> r; Some (True, list, s) }) xs' ds'"
proof -
  have 1: "heap_ok s1" "set (lh_mem s1) \<subseteq> set (lh_mem s)" "p = lh_fresh s"
    "lh_links s1 = (lh_links s)(p \<mapsto> \<lparr>l_prev = None, l_next = None, l_data = d\<rparr>)"
    using alloc_link_cases [OF assms(2)] assms(1) by (auto simp: holds_list_def)
  have "holds_list t (head_of xs') xs' ds'"
    using holds_relinks [OF 1(1) assms(5,4,7)] .
  with 1 assms(3,5,6) show ?thesis by (auto simp: adds_def relinks_def)
qed

lemma adds_failed:
  assumes "holds_list s list xs ds" "alloc_link d s = (None, t)"
  shows "adds s xs ds (Some (False, list, t)) xs' ds'"
proof -
  have t: "heap_ok t" "set (lh_mem t) \<subseteq> set (lh_mem s)" "lh_links t = lh_links s" "False \<in> set (lh_mem s)"
    using alloc_link_cases [OF assms(2)] assms(1) by (auto simp: holds_list_def)
  then have "holds_list t list xs ds" by (intro holds_frame [OF assms(1)]) auto
  with t assms(1) show ?thesis by (auto simp: adds_def holds_list_def)
qed

text \<open>The list after an allocation, and the new link.\<close>

lemma after_alloc:
  assumes "holds_list s list xs ds" "alloc_link d s = (Some p, s1)"
  shows "circ s1 xs" "p \<notin> set xs" "map (get_data s1) xs = map Some ds" "get_data s1 p = Some d"
    "\<exists>l. lh_links s1 p = Some l" "p = lh_fresh s" "distinct xs"
proof -
  have 1: "heap_ok s1" "p = lh_fresh s"
    "lh_links s1 = (lh_links s)(p \<mapsto> \<lparr>l_prev = None, l_next = None, l_data = d\<rparr>)"
    using alloc_link_cases [OF assms(2)] assms(1) by (auto simp: holds_list_def)
  moreover have p: "p \<notin> set xs" using holds_fresh [OF assms(1)] 1(2) by simp
  ultimately have "holds_list s1 list xs ds" by (intro holds_frame [OF assms(1)]) auto
  with 1 p show "circ s1 xs" "p \<notin> set xs" "map (get_data s1) xs = map Some ds" "get_data s1 p = Some d"
    "\<exists>l. lh_links s1 p = Some l" "p = lh_fresh s" "distinct xs"
    by (auto simp: holds_list_def link_defs circ_def)
qed

lemma link_only:
  assumes "lh_links s link = Some l"
  shows "\<exists>t. link_before None None link s = Some (Some link, t) \<and> circ t [link] \<and> relinks {link} s t"
  using assms by (auto simp: link_before_def link_defs circ_def relinks_def)

lemma list_prepend_adds:
  assumes "holds_list s list xs ds"
  shows "adds s xs ds (list_prepend list d s) (lh_fresh s # xs) (d # ds)"
proof (cases "alloc_link d s")
  case (Pair r s1)
  show ?thesis
  proof (cases r)
    case None
    with Pair adds_failed [OF assms] show ?thesis by (simp add: list_prepend_def)
  next
    case (Some p)
    note a = after_alloc [OF assms Pair [unfolded Some]]
    have list: "list = head_of xs" using assms by (simp add: holds_list_def)
    obtain l where l: "lh_links s1 p = Some l" using a(5) by blast
    obtain t where t: "link_before list list p s1 = Some (head_of (p # xs), t)" "circ t (p # xs)"
      "relinks (set (p # xs)) s1 t"
    proof (cases xs)
      case Nil
      with link_only [OF l] list that show ?thesis by auto
    next
      case (Cons x ys)
      with link_before_at [of s1 "[]" x ys p l] a l list that show ?thesis by auto
    qed
    have "adds s xs ds (do { (list, s) \<leftarrow> link_before list list p s1; Some (True, list, s) }) (p # xs) (d # ds)"
      by (rule adds_linked [OF assms Pair [unfolded Some] t]) (use a in simp_all)
    with Pair Some a(6) show ?thesis by (simp add: list_prepend_def)
  qed
qed

lemma circ_next:
  assumes "circ s (us @ x # vs)"
  shows "get_next s x = Some (Some (hd_or (hd_or x us) vs))"
  using assms by (cases us) (auto simp: circ_def chain_append link_defs)

lemma circ_prev:
  assumes "circ s (us @ x # vs)"
  shows "get_prev s x = Some (Some (last_or (last_or x vs) us))"
  using assms by (cases us) (auto simp: circ_def chain_append link_defs)

lemma list_append_adds:
  assumes "holds_list s list xs ds"
  shows "adds s xs ds (list_append list d s) (xs @ [lh_fresh s]) (ds @ [d])"
proof -
  let ?p = "lh_fresh s"
  from list_prepend_adds [OF assms, of d] obtain ok list1 t where 1: "list_prepend list d s = Some (ok, list1, t)"
    "set (lh_mem t) \<subseteq> set (lh_mem s)" "\<forall>x. x \<notin> set xs \<longrightarrow> x \<noteq> ?p \<longrightarrow> lh_links t x = lh_links s x"
    "if ok then holds_list t list1 (?p # xs) (d # ds)
     else list1 = head_of xs \<and> holds_list t (head_of xs) xs ds \<and> False \<in> set (lh_mem s)"
    unfolding adds_def by blast
  show ?thesis
  proof (cases ok)
    case True
    with 1(4) have h: "holds_list t list1 (?p # xs) (d # ds)" by simp
    then have c: "circ t (?p # xs)" and l1: "list1 = Some ?p" by (simp_all add: holds_list_def)
    have "get_next t ?p = Some (Some (hd_or ?p xs))" using circ_next [of t "[]" ?p xs] c by simp
    moreover have "head_of (xs @ [?p]) = Some (hd_or ?p xs)" by (cases xs) auto
    moreover have "circ t (xs @ [?p])" using circ_rotate [of t "[?p]" xs] c by simp
    then have "holds_list t (head_of (xs @ [?p])) (xs @ [?p]) (ds @ [d])"
      using h by (simp add: holds_list_def)
    ultimately show ?thesis using 1 l1 True by (auto simp: list_append_def adds_def)
  next
    case False
    with 1 show ?thesis by (auto simp: list_append_def adds_def)
  qed
qed

lemma list_insert_after_adds:
  assumes "holds_list s list (us @ a # vs) (ds @ e # es)" "length us = length ds"
  shows "adds s (us @ a # vs) (ds @ e # es) (list_insert_after list (Some a) d s)
    (us @ a # lh_fresh s # vs) (ds @ e # d # es)"
proof (cases "alloc_link d s")
  case (Pair r s1)
  show ?thesis
  proof (cases r)
    case None
    with Pair adds_failed [OF assms(1)] show ?thesis by (simp add: list_insert_after_def)
  next
    case (Some p)
    note a = after_alloc [OF assms(1) Pair [unfolded Some]]
    have list: "list = head_of (us @ a # vs)" using assms by (simp add: holds_list_def)
    obtain l where l: "lh_links s1 p = Some l" using a(5) by blast
    obtain t where t: "link_after list a p s1 = Some (head_of (us @ a # p # vs), t)" "circ t (us @ a # p # vs)"
      "relinks (set (us @ a # p # vs)) s1 t"
      using link_after_at [OF a(1,2) l] list by auto
    have "adds s (us @ a # vs) (ds @ e # es) (do { (list, s) \<leftarrow> link_after list a p s1; Some (True, list, s) })
      (us @ a # p # vs) (ds @ e # d # es)"
      by (rule adds_linked [OF assms(1) Pair [unfolded Some] t]) (use a(3,4) assms(2) in auto)
    with Pair Some a(6) show ?thesis by (simp add: list_insert_after_def)
  qed
qed

text \<open>Removing the link at a place.\<close>

lemma list_remove_link_at:
  assumes "holds_list s list (us @ x # vs) (ds @ e # es)" "length us = length ds"
  shows "\<exists>t. list_remove_link list x s = Some (head_of (us @ vs), t) \<and>
    holds_list t (head_of (us @ vs)) (us @ vs) (ds @ es) \<and> lh_links t x = None \<and> lh_mem t = lh_mem s \<and>
    (\<forall>y. y \<notin> set (us @ x # vs) \<longrightarrow> lh_links t y = lh_links s y)"
proof -
  from assms(1) have c: "circ s (us @ x # vs)" and list: "list = head_of (us @ x # vs)" and ok: "heap_ok s"
    by (simp_all add: holds_list_def)
  from unlink_at [OF c] obtain t where t: "list_unlink list x s = Some (head_of (us @ vs), t)" "circ t (us @ vs)"
    "relinks (set (us @ x # vs)) s t" unfolding list by blast
  have h: "holds_list t (head_of (us @ vs)) (us @ vs) (ds @ es)"
    by (rule holds_relinks [OF ok t(3,2)]) (use assms in \<open>auto simp: holds_list_def\<close>)
  obtain l where "lh_links s x = Some l" using circ_dom [OF c] by auto
  then have "get_data t x \<noteq> None" using relinks_data [OF t(3)] by (simp add: link_defs)
  then obtain l' where l': "lh_links t x = Some l'" by (auto simp: link_defs split: Option.bind_splits)
  let ?u = "t\<lparr>lh_links := (lh_links t)(x := None)\<rparr>"
  have "x \<notin> set (us @ vs)" using c by (auto simp: circ_def)
  then have "holds_list ?u (head_of (us @ vs)) (us @ vs) (ds @ es)"
    using h by (intro holds_frame [OF h]) (auto simp: holds_list_def heap_ok_def)
  moreover have "list_remove_link list x s = Some (head_of (us @ vs), ?u)"
    using t(1) l' by (simp add: list_remove_link_def free_link_def link_defs)
  ultimately show ?thesis using t(3) by (auto simp: relinks_def)
qed

text \<open>Moving along the list.\<close>

lemma next_link_at:
  assumes "holds_list s list (us @ x # vs) ds"
  shows "list_get_next_link list x s = Some (head_of vs)"
proof -
  have c: "circ s (us @ x # vs)" and list: "list = head_of (us @ x # vs)"
    using assms by (simp_all add: holds_list_def)
  have "distinct (us @ x # vs)" using c by (simp add: circ_def)
  with circ_next [OF c] list show ?thesis
    by (cases us; cases vs) (auto simp: list_get_next_link_def)
qed

lemma prev_link_at:
  assumes "holds_list s list (us @ x # vs) ds"
  shows "list_get_prev_link list x s = Some (head_of (rev us))"
proof -
  have c: "circ s (us @ x # vs)" and list: "list = head_of (us @ x # vs)"
    using assms by (simp_all add: holds_list_def)
  have "distinct (us @ x # vs)" using c by (simp add: circ_def)
  then have "us \<noteq> [] \<Longrightarrow> list \<noteq> Some x" using list by (cases us) auto
  with circ_prev [OF c] list show ?thesis
    by (cases us rule: rev_cases) (auto simp: list_get_prev_link_def)
qed

lemma data_at:
  assumes "holds_list s list (us @ x # vs) (ds @ e # es)" "length us = length ds"
  shows "get_data s x = Some e"
  using assms by (auto simp: holds_list_def)

lemma holds_length: "holds_list s list xs ds \<Longrightarrow> length xs = length ds"
  unfolding holds_list_def by (metis length_map)

lemma holds_head: "holds_list s list xs ds \<Longrightarrow> list = head_of xs"
  by (simp add: holds_list_def)

text \<open>A split of the data gives a split of the links.\<close>

lemma split_same:
  assumes "length xs = length (ds @ e # es)"
  obtains us x vs where "xs = us @ x # vs" "length us = length ds" "length vs = length es"
proof -
  have "xs = take (length ds) xs @ xs ! length ds # drop (Suc (length ds)) xs"
    by (rule id_take_nth_drop) (simp add: assms)
  then show ?thesis by (rule that) (simp_all add: assms)
qed

text \<open>Searching from a place on forwards, and from a place backwards.\<close>

lemma find_first_none:
  "holds_list s list (us @ vs) (ds @ es) \<Longrightarrow> length us = length ds \<Longrightarrow> d \<notin> set es \<Longrightarrow>
   find_first_loop list d (head_of vs) s = Some None"
proof (induction vs arbitrary: us ds es)
  case Nil
  then show ?case by (subst find_first_loop.simps) simp
next
  case (Cons x vs)
  then obtain e es' where es: "es = e # es'" using holds_length [OF Cons.prems(1)] by (cases es) auto
  have "get_data s x = Some e" using data_at [of s list us x vs ds e es'] Cons.prems es by simp
  moreover have "list_get_next_link list x s = Some (head_of vs)" using next_link_at Cons.prems(1) by blast
  moreover have "find_first_loop list d (head_of vs) s = Some None"
    using Cons.IH [of "us @ [x]" "ds @ [e]" es'] Cons.prems es by simp
  ultimately show ?case using es Cons.prems(3) by (subst find_first_loop.simps) auto
qed

lemma find_first_some:
  "holds_list s list (us @ vs @ x # ws) (ds @ es @ d # fs) \<Longrightarrow> length us = length ds \<Longrightarrow>
   length vs = length es \<Longrightarrow> d \<notin> set es \<Longrightarrow> find_first_loop list d (head_of (vs @ x # ws)) s = Some (Some x)"
proof (induction vs arbitrary: us ds es)
  case Nil
  with data_at [of s list us x ws ds d fs] show ?case by (subst find_first_loop.simps) simp
next
  case (Cons y vs)
  then obtain e es' where es: "es = e # es'" by (cases es) auto
  have "get_data s y = Some e" using data_at [of s list us y "vs @ x # ws" ds e "es' @ d # fs"] Cons.prems es by simp
  moreover have "list_get_next_link list y s = Some (head_of (vs @ x # ws))"
    using next_link_at [of s list us y "vs @ x # ws"] Cons.prems(1) by simp
  moreover have "find_first_loop list d (head_of (vs @ x # ws)) s = Some (Some x)"
    using Cons.IH [of "us @ [y]" "ds @ [e]" es'] Cons.prems es by simp
  ultimately show ?case using es Cons.prems(4) by (subst find_first_loop.simps) auto
qed

lemma find_last_none:
  "holds_list s list (us @ vs) (ds @ es) \<Longrightarrow> length us = length ds \<Longrightarrow> d \<notin> set ds \<Longrightarrow>
   find_last_loop list d (head_of (rev us)) s = Some None"
proof (induction us arbitrary: vs ds es rule: rev_induct)
  case Nil
  then show ?case by (subst find_last_loop.simps) simp
next
  case (snoc x us)
  then obtain ds' e where ds: "ds = ds' @ [e]" by (cases ds rule: rev_cases) auto
  have "get_data s x = Some e" using data_at [of s list us x vs ds' e es] snoc.prems ds by simp
  moreover have "list_get_prev_link list x s = Some (head_of (rev us))"
    using prev_link_at [of s list us x vs] snoc.prems(1) by simp
  moreover have "find_last_loop list d (head_of (rev us)) s = Some None"
    using snoc.IH [of "x # vs" ds' "e # es"] snoc.prems ds by simp
  ultimately show ?case using ds snoc.prems(3) by (subst find_last_loop.simps) auto
qed

lemma find_last_some:
  "holds_list s list ((us @ x # vs) @ ws) ((ds @ d # es) @ fs) \<Longrightarrow> length us = length ds \<Longrightarrow>
   length vs = length es \<Longrightarrow> d \<notin> set es \<Longrightarrow> find_last_loop list d (head_of (rev (us @ x # vs))) s = Some (Some x)"
proof (induction vs arbitrary: ws es fs rule: rev_induct)
  case Nil
  with data_at [of s list us x ws ds d fs] show ?case by (subst find_last_loop.simps) simp
next
  case (snoc y vs)
  then obtain es' e where es: "es = es' @ [e]" by (cases es rule: rev_cases) auto
  have "get_data s y = Some e"
    using data_at [of s list "us @ x # vs" y ws "ds @ d # es'" e fs] snoc.prems es by simp
  moreover have "list_get_prev_link list y s = Some (head_of (rev (us @ x # vs)))"
    using prev_link_at [of s list "us @ x # vs" y ws] snoc.prems(1) by simp
  moreover have "find_last_loop list d (head_of (rev (us @ x # vs))) s = Some (Some x)"
    using snoc.IH [of "y # ws" es' "e # fs"] snoc.prems es by simp
  ultimately show ?case using es snoc.prems(4) by (subst find_last_loop.simps) auto
qed

lemma length_loop_eq:
  "holds_list s list (us @ vs) ds \<Longrightarrow> length_loop list (head_of vs) n s = Some (n + length vs)"
proof (induction vs arbitrary: us n)
  case Nil
  then show ?case by (subst length_loop.simps) simp
next
  case (Cons x vs)
  have "list_get_next_link list x s = Some (head_of vs)" using next_link_at Cons.prems by blast
  with Cons.IH [of "us @ [x]" "n + 1"] Cons.prems show ?case by (subst length_loop.simps) simp
qed

lemma list_get_length_eq:
  assumes "holds_list s list xs ds"
  shows "list_get_length list s = Some (length ds)"
proof -
  have "list = head_of xs" "length xs = length ds"
    using assms by (auto simp: holds_list_def dest: map_eq_imp_length_eq)
  with length_loop_eq [of s list "[]" xs ds 0] assms show ?thesis by (simp add: list_get_length_def)
qed

section \<open>Removing and copying\<close>

text \<open>What the operations that take a link out answer.\<close>

definition removes ::
    "'a list_heap \<Rightarrow> nat list \<Rightarrow> list_ptr \<Rightarrow> 'a list_heap \<Rightarrow> 'a list \<Rightarrow> bool" where
  "removes s xs list t ds' \<longleftrightarrow>
     (\<exists>xs'. set xs' \<subseteq> set xs \<and> holds_list t list xs' ds') \<and> lh_mem t = lh_mem s \<and>
     (\<forall>y. y \<notin> set xs \<longrightarrow> lh_links t y = lh_links s y)"

lemma removes_link:
  assumes "holds_list s list (us @ x # vs) (ds @ e # es)" "length us = length ds"
  obtains list' t where "list_remove_link list x s = Some (list', t)" "removes s (us @ x # vs) list' t (ds @ es)"
proof -
  from list_remove_link_at [OF assms] obtain t where "list_remove_link list x s = Some (head_of (us @ vs), t)"
    "holds_list t (head_of (us @ vs)) (us @ vs) (ds @ es)" "lh_mem t = lh_mem s"
    "\<forall>y. y \<notin> set (us @ x # vs) \<longrightarrow> lh_links t y = lh_links s y" by blast
  moreover have "set (us @ vs) \<subseteq> set (us @ x # vs)" by auto
  ultimately show ?thesis using that unfolding removes_def by blast
qed

lemma removes_none: "holds_list s list xs ds \<Longrightarrow> removes s xs list s ds"
  by (auto simp: removes_def)

lemma list_remove_eq:
  assumes "holds_list s list xs ds"
  shows "\<exists>list' t. list_remove list d s = Some (d \<in> set ds, list', t) \<and> removes s xs list' t (remove1 d ds)"
proof (cases "d \<in> set ds")
  case True
  from split_list_first [OF this] obtain ds1 ds2 where ds: "ds = ds1 @ d # ds2" "d \<notin> set ds1" by blast
  with holds_length [OF assms] obtain us x vs where xs: "xs = us @ x # vs" "length us = length ds1"
    using split_same [of xs ds1 d ds2] by blast
  have "find_first_loop list d list s = Some (Some x)"
    using find_first_some [of s list "[]" us x vs "[]" ds1 d ds2] assms ds xs holds_head [OF assms] by simp
  moreover obtain list' t where "list_remove_link list x s = Some (list', t)" "removes s xs list' t (ds1 @ ds2)"
    using removes_link [of s list us x vs ds1 d ds2] assms ds xs by metis
  ultimately show ?thesis using ds True by (simp add: list_remove_def remove1_append)
next
  case False
  have "find_first_loop list d list s = Some None"
    using find_first_none [of s list "[]" xs "[]" ds d] assms False holds_head [OF assms] by simp
  with False removes_none [OF assms] show ?thesis by (simp add: list_remove_def remove1_idem)
qed

lemma last_link_eq:
  assumes "holds_list s list xs ds"
  shows "list_get_last_link list s = Some (head_of (rev xs))"
proof (cases xs)
  case Nil
  then show ?thesis using holds_head [OF assms] by (simp add: list_get_last_link_def)
next
  case (Cons x ys)
  have "circ s (x # ys)" using assms Cons by (simp add: holds_list_def)
  with circ_prev [of s "[]" x ys] holds_head [OF assms] Cons show ?thesis
    by (cases ys rule: rev_cases) (auto simp: list_get_last_link_def)
qed

lemma list_remove_last_eq:
  assumes "holds_list s list xs ds"
  shows "\<exists>list' t. list_remove_last list d s = Some (d \<in> set ds, list', t) \<and>
    removes s xs list' t (rev (remove1 d (rev ds)))"
proof (cases "d \<in> set ds")
  case True
  from split_list_last [OF this] obtain ds1 ds2 where ds: "ds = ds1 @ d # ds2" "d \<notin> set ds2" by blast
  with holds_length [OF assms] obtain us x vs where xs: "xs = us @ x # vs" "length us = length ds1" "length vs = length ds2"
    using split_same [of xs ds1 d ds2] by blast
  have "list_find_last list d s = Some (Some x)"
    using find_last_some [of s list us x vs "[]" ds1 d ds2 "[]"] assms ds xs last_link_eq [OF assms]
    by (simp add: list_find_last_def)
  moreover obtain list' t where "list_remove_link list x s = Some (list', t)" "removes s xs list' t (ds1 @ ds2)"
    using removes_link [of s list us x vs ds1 d ds2] assms ds xs by metis
  ultimately show ?thesis using ds True by (simp add: list_remove_last_def remove1_append)
next
  case False
  have "list_find_last list d s = Some None"
    using find_last_none [of s list xs "[]" ds "[]" d] assms False last_link_eq [OF assms] holds_length [OF assms]
    by (simp add: list_find_last_def)
  with False removes_none [OF assms] show ?thesis by (simp add: list_remove_last_def remove1_idem)
qed

lemma list_pop_first_eq:
  assumes "holds_list s list xs ds"
  shows "\<exists>list' t. list_pop_first list s = Some (case ds of [] \<Rightarrow> None | d # _ \<Rightarrow> Some d, list', t) \<and>
    removes s xs list' t (tl ds)"
proof (cases ds)
  case Nil
  with holds_length [OF assms] holds_head [OF assms] removes_none [OF assms] show ?thesis
    by (simp add: list_pop_first_def list_get_first_link_def)
next
  case (Cons d es)
  with holds_length [OF assms] obtain x vs where xs: "xs = x # vs" by (cases xs) auto
  obtain list' t where "list_remove_link list x s = Some (list', t)" "removes s xs list' t es"
    using removes_link [of s list "[]" x vs "[]" d es] assms xs Cons by auto
  moreover have "get_data s x = Some d" using data_at [of s list "[]" x vs "[]" d es] assms xs Cons by simp
  ultimately show ?thesis
    using xs Cons holds_head [OF assms] by (simp add: list_pop_first_def list_get_first_link_def)
qed

lemma list_pop_last_eq:
  assumes "holds_list s list xs (ds @ [d])"
  shows "\<exists>list' t. list_pop_last list s = Some (Some d, list', t) \<and> removes s xs list' t ds"
proof -
  from holds_length [OF assms] obtain us x where xs: "xs = us @ [x]" "length us = length ds"
    by (cases xs rule: rev_cases) auto
  obtain list' t where "list_remove_link list x s = Some (list', t)" "removes s xs list' t ds"
    using removes_link [of s list us x "[]" ds d "[]"] assms xs by auto
  moreover have "get_data s x = Some d" using data_at [of s list us x "[]" ds d "[]"] assms xs by simp
  ultimately show ?thesis using xs last_link_eq [OF assms] by (simp add: list_pop_last_def)
qed

text \<open>Clearing frees every link: the loop reads the pointer before the link goes.\<close>

lemma restrict_nothing [simp]: "m |` (- {}) = m" "m |` UNIV = m"
  by (auto simp: restrict_map_def)

lemma clear_loop_eq:
  "chain s b xs f \<Longrightarrow> distinct xs \<Longrightarrow> f \<notin> set (tl xs) \<Longrightarrow>
   clear_loop (Some f) (head_of xs) s = Some (s\<lparr>lh_links := (lh_links s) |` (- set xs)\<rparr>)"
proof (induction xs arbitrary: s b)
  case Nil
  then show ?case by (subst clear_loop.simps) simp
next
  case (Cons x ys)
  from Cons.prems(1) obtain l where l: "lh_links s x = Some l" "l_next l = Some (hd_or f ys)" and c: "chain s x ys f"
    by auto
  let ?t = "s\<lparr>lh_links := (lh_links s)(x := None)\<rparr>"
  have "list_get_next_link (Some f) x s = Some (head_of ys)"
    using l Cons.prems(3) by (cases ys) (auto simp: list_get_next_link_def link_defs)
  moreover have "free_link x s = Some ?t" using l by (simp add: free_link_def link_defs)
  moreover have "chain ?t x ys f \<longleftrightarrow> chain s x ys f" by (rule chain_frame) (use Cons.prems(2) in auto)
  then have "clear_loop (Some f) (head_of ys) ?t = Some (?t\<lparr>lh_links := (lh_links ?t) |` (- set ys)\<rparr>)"
    using Cons.prems c by (intro Cons.IH [of _ x]) (auto, cases ys, auto)
  moreover have "(lh_links ?t) |` (- set ys) = (lh_links s) |` (- set (x # ys))"
    by (auto simp: restrict_map_def fun_eq_iff)
  ultimately show ?case by (subst clear_loop.simps) simp
qed

lemma list_clear_eq:
  assumes "holds_list s list xs ds"
  shows "list_clear list s = Some (None, s\<lparr>lh_links := (lh_links s) |` (- set xs)\<rparr>)"
proof (cases xs)
  case Nil
  then show ?thesis
    using holds_head [OF assms] by (simp add: list_clear_def clear_loop.simps [of None None])
next
  case (Cons x ys)
  with assms have "chain s (last_or x ys) (x # ys) x" "distinct (x # ys)" by (auto simp: holds_list_def circ_def)
  with clear_loop_eq [of s "last_or x ys" "x # ys" x] holds_head [OF assms] Cons show ?thesis by (simp add: list_clear_def)
qed

lemma copy_loop_eq:
  "holds_list s list (us @ vs) (ds @ es) \<Longrightarrow> length us = length ds \<Longrightarrow> holds_list s dest ys fs \<Longrightarrow>
   set (us @ vs) \<inter> set ys = {} \<Longrightarrow>
   \<exists>ok dest' t. copy_loop list (head_of vs) dest s = Some (ok, dest', t) \<and> holds_list t list (us @ vs) (ds @ es) \<and>
     (if ok then \<exists>ys'. holds_list t dest' ys' (fs @ es) \<and> set (us @ vs) \<inter> set ys' = {}
      else dest' = None \<and> False \<in> set (lh_mem s))"
proof (induction vs arbitrary: us ds es dest ys fs s)
  case Nil
  then have "es = []" using holds_length by fastforce
  moreover have eq: "copy_loop list (head_of []) dest s = Some (True, dest, s)"
    by (subst copy_loop.simps) simp
  ultimately show ?case using Nil unfolding eq by auto
next
  case (Cons x vs)
  then obtain e es' where es: "es = e # es'" using holds_length [OF Cons.prems(1)] by (cases es) auto
  have d: "get_data s x = Some e" using data_at [of s list us x vs ds e es'] Cons.prems es by simp
  from list_append_adds [OF Cons.prems(3), of e] obtain ok dest1 s1 where
    1: "list_append dest e s = Some (ok, dest1, s1)" "set (lh_mem s1) \<subseteq> set (lh_mem s)"
      "\<forall>x. x \<notin> set ys \<longrightarrow> x \<noteq> lh_fresh s \<longrightarrow> lh_links s1 x = lh_links s x"
      "if ok then holds_list s1 dest1 (ys @ [lh_fresh s]) (fs @ [e])
       else dest1 = head_of ys \<and> holds_list s1 (head_of ys) ys fs \<and> False \<in> set (lh_mem s)"
    unfolding adds_def by blast
  have fresh: "lh_fresh s \<notin> set (us @ x # vs)" by (rule holds_fresh [OF Cons.prems(1)])
  have src: "holds_list s1 list (us @ x # vs) (ds @ es)"
    by (rule holds_frame [OF Cons.prems(1)])
      (use 1(3,4) fresh Cons.prems(4) in \<open>auto simp: holds_list_def split: if_splits\<close>)
  show ?case
  proof (cases ok)
    case True
    have nx: "list_get_next_link list x s1 = Some (head_of vs)" using next_link_at src by blast
    have "holds_list s1 list ((us @ [x]) @ vs) ((ds @ [e]) @ es')" "length (us @ [x]) = length (ds @ [e])"
      "holds_list s1 dest1 (ys @ [lh_fresh s]) (fs @ [e])" "set ((us @ [x]) @ vs) \<inter> set (ys @ [lh_fresh s]) = {}"
      using src es Cons.prems 1(4) True fresh by auto
    from Cons.IH [OF this, unfolded append.assoc append_Cons append_Nil, folded es] obtain ok2 dest2 t where 2: "copy_loop list (head_of vs) dest1 s1 = Some (ok2, dest2, t)"
      "holds_list t list (us @ x # vs) (ds @ es)"
      "if ok2 then \<exists>ys'. holds_list t dest2 ys' (fs @ es) \<and> set (us @ x # vs) \<inter> set ys' = {}
       else dest2 = None \<and> False \<in> set (lh_mem s1)"
      by blast
    have eq: "copy_loop list (head_of (x # vs)) dest s = Some (ok2, dest2, t)"
      using d 1(1) nx True 2(1) by (subst copy_loop.simps) simp
    show ?thesis unfolding eq ex_answer3 using 2(2,3) 1(2) by (cases ok2) auto
  next
    case False
    let ?t = "s1\<lparr>lh_links := (lh_links s1) |` (- set ys)\<rparr>"
    from False 1(4) have "holds_list s1 dest1 ys fs" by simp
    then have "list_clear dest1 s1 = Some (None, ?t)" by (rule list_clear_eq)
    then have eq: "copy_loop list (head_of (x # vs)) dest s = Some (False, None, ?t)"
      using d 1(1) False by (subst copy_loop.simps) simp
    have "holds_list ?t list (us @ x # vs) (ds @ es)"
      by (rule holds_frame [OF src])
        (use Cons.prems(4) src in \<open>auto simp: holds_list_def heap_ok_def restrict_map_def\<close>)
    then show ?thesis unfolding eq ex_answer3 using 1(4) False by simp
  qed
qed

section \<open>The interface of a queue\<close>

text \<open>Putting several elements in, and taking several out.\<close>

primrec push_all :: "('d \<Rightarrow> 's \<Rightarrow> (bool \<times> 's) option) \<Rightarrow> 'd list \<Rightarrow> 's \<Rightarrow> (bool \<times> 's) option" where
  "push_all push [] q = Some (True, q)"
| "push_all push (d # ds) q =
     do { (ok, q) \<leftarrow> push d q; if ok then push_all push ds q else Some (False, q) }"

primrec pop_all :: "('s \<Rightarrow> ('d option \<times> 's) option) \<Rightarrow> nat \<Rightarrow> 's \<Rightarrow> ('d option list \<times> 's) option" where
  "pop_all pop 0 q = Some ([], q)"
| "pop_all pop (Suc n) q =
     do { (d, q) \<leftarrow> pop q; (ds, q) \<leftarrow> pop_all pop n q; Some (d # ds, q) }"

locale queue =
  fixes inv :: "'s \<Rightarrow> 'd list \<Rightarrow> bool"
    and push :: "'d \<Rightarrow> 's \<Rightarrow> (bool \<times> 's) option"
    and pop :: "'s \<Rightarrow> ('d option \<times> 's) option"
  assumes push_inv: "inv q ds \<Longrightarrow> \<exists>q'. push d q = Some (True, q') \<and> inv q' (ds @ [d])"
    and pop_inv: "inv q ds \<Longrightarrow> \<exists>q'. pop q = Some (case ds of [] \<Rightarrow> None | d # _ \<Rightarrow> Some d, q') \<and> inv q' (tl ds)"
begin

lemma push_all_inv: "inv q ds \<Longrightarrow> \<exists>q'. push_all push es q = Some (True, q') \<and> inv q' (ds @ es)"
proof (induction es arbitrary: q ds)
  case (Cons e es)
  from push_inv [OF Cons.prems] obtain q1 where 1: "push e q = Some (True, q1)" "inv q1 (ds @ [e])" by blast
  from Cons.IH [OF 1(2)] 1(1) show ?case by auto
qed simp

lemma pop_all_inv: "inv q (ds @ es) \<Longrightarrow> \<exists>q'. pop_all pop (length ds) q = Some (map Some ds, q') \<and> inv q' es"
proof (induction ds arbitrary: q)
  case (Cons d ds)
  from pop_inv [OF Cons.prems] obtain q1 where 1: "pop q = Some (Some d, q1)" "inv q1 (ds @ es)" by auto
  from Cons.IH [OF 1(2)] 1(1) show ?case by auto
qed simp

text \<open>First in, first out.\<close>

lemma fifo:
  assumes "inv q ds"
  shows "\<exists>q1 q2. push_all push es q = Some (True, q1) \<and>
    pop_all pop (length ds + length es) q1 = Some (map Some (ds @ es), q2) \<and> inv q2 []"
proof -
  obtain q1 where 1: "push_all push es q = Some (True, q1)" "inv q1 ((ds @ es) @ [])"
    using push_all_inv [OF assms, of es] by auto
  from pop_all_inv [OF this(2)] 1(1) show ?thesis by simp
qed

end

text \<open>A list pointer and the heap, as the state of a queue, as long as memory lasts.\<close>

definition list_queue :: "list_ptr \<times> 'a list_heap \<Rightarrow> 'a list \<Rightarrow> bool" where
  "list_queue q ds \<longleftrightarrow> (\<exists>xs. holds_list (snd q) (fst q) xs ds) \<and> False \<notin> set (lh_mem (snd q))"

definition queue_push :: "'a \<Rightarrow> list_ptr \<times> 'a list_heap \<Rightarrow> (bool \<times> list_ptr \<times> 'a list_heap) option" where
  "queue_push d q = list_append (fst q) d (snd q)"

definition queue_pop :: "list_ptr \<times> 'a list_heap \<Rightarrow> ('a option \<times> list_ptr \<times> 'a list_heap) option" where
  "queue_pop q = list_pop_first (fst q) (snd q)"

interpretation dq: queue list_queue queue_push queue_pop
proof
  fix q :: "list_ptr \<times> 'a list_heap" and ds d
  assume q: "list_queue q ds"
  then obtain xs where h: "holds_list (snd q) (fst q) xs ds" and m: "False \<notin> set (lh_mem (snd q))"
    by (auto simp: list_queue_def)
  from list_append_adds [OF h, of d] m
  obtain list' t where "list_append (fst q) d (snd q) = Some (True, list', t)"
    "holds_list t list' (xs @ [lh_fresh (snd q)]) (ds @ [d])" "set (lh_mem t) \<subseteq> set (lh_mem (snd q))"
    by (auto simp: adds_def split: if_splits)
  then show "\<exists>q'. queue_push d q = Some (True, q') \<and> list_queue q' (ds @ [d])"
    using m by (auto simp: queue_push_def list_queue_def)
  from list_pop_first_eq [OF h] obtain list' t where
    "list_pop_first (fst q) (snd q) = Some (case ds of [] \<Rightarrow> None | d # _ \<Rightarrow> Some d, list', t)"
    "removes (snd q) xs list' t (tl ds)" by blast
  then show "\<exists>q'. queue_pop q = Some (case ds of [] \<Rightarrow> None | d # _ \<Rightarrow> Some d, q') \<and> list_queue q' (tl ds)"
    using m by (auto simp: queue_pop_def list_queue_def removes_def)
qed

section \<open>Properties\<close>

definition empty_heap :: "mem \<Rightarrow> 'a list_heap" where
  "empty_heap m = \<lparr>lh_links = Map.empty, lh_fresh = 0, lh_mem = m\<rparr>"

lemma holds_empty: "holds_list (empty_heap m) None [] []"
  by (simp add: holds_list_def empty_heap_def heap_ok_def circ_def)

text \<open>
  A list used as a queue, appended to at the end and popped from the front, gives the
  elements back in the order they were put in.
\<close>

theorem list_fifo:
  assumes "holds_list s list xs ds" "False \<notin> set (lh_mem s)"
  shows "\<exists>q1 list2 s2. push_all queue_push es (list, s) = Some (True, q1) \<and>
    pop_all queue_pop (length ds + length es) q1 = Some (map Some (ds @ es), list2, s2) \<and>
    holds_list s2 list2 [] []"
proof -
  have "list_queue (list, s) ds" using assms by (auto simp: list_queue_def)
  from dq.fifo [OF this, of es] obtain q1 list2 s2 where "push_all queue_push es (list, s) = Some (True, q1)"
    "pop_all queue_pop (length ds + length es) q1 = Some (map Some (ds @ es), list2, s2)" "list_queue (list2, s2) []"
    by auto
  moreover from this(3) have "holds_list s2 list2 [] []" using holds_length by (fastforce simp: list_queue_def)
  ultimately show ?thesis by blast
qed

theorem list_fifo_witness:
  "\<exists>q1 list2 s2. push_all queue_push [4, 9 :: nat] (None, empty_heap [True]) = Some (True, q1) \<and>
    pop_all queue_pop (length [] + length [4, 9 :: nat]) q1 = Some ([Some 4, Some 9], list2, s2) \<and>
    holds_list s2 list2 [] []"
  using list_fifo [OF holds_empty, of "[True]" "[4, 9 :: nat]"] by (simp add: empty_heap_def)

text \<open>
  Appending to a list puts the element at its end, or leaves the list as it was when memory
  is exhausted; every other list in the heap stays as it is.
\<close>

theorem list_append_spec:
  assumes "holds_list s list xs ds"
  shows "\<exists>ok list' t. list_append list d s = Some (ok, list', t) \<and>
    (if ok then holds_list t list' (xs @ [lh_fresh s]) (ds @ [d])
     else list' = list \<and> holds_list t list xs ds \<and> False \<in> set (lh_mem s)) \<and>
    (\<forall>list2 ys es. holds_list s list2 ys es \<and> set ys \<inter> set xs = {} \<longrightarrow> holds_list t list2 ys es)"
proof -
  from list_append_adds [OF assms, of d] obtain ok list' t where 1: "list_append list d s = Some (ok, list', t)"
    "\<forall>x. x \<notin> set xs \<longrightarrow> x \<noteq> lh_fresh s \<longrightarrow> lh_links t x = lh_links s x"
    "if ok then holds_list t list' (xs @ [lh_fresh s]) (ds @ [d])
     else list' = head_of xs \<and> holds_list t (head_of xs) xs ds \<and> False \<in> set (lh_mem s)"
    unfolding adds_def by blast
  have "heap_ok t" using 1(3) by (auto simp: holds_list_def split: if_splits)
  then have "holds_list t list2 ys es" if "holds_list s list2 ys es" "set ys \<inter> set xs = {}" for list2 ys es
    using that 1(2) holds_fresh [OF that(1)] by (intro holds_frame [OF that(1)]) auto
  with 1(3) holds_head [OF assms] show ?thesis unfolding 1(1) ex_answer3 by auto
qed

theorem list_append_witness:
  "\<exists>ok list' t. list_append None (5 :: nat) (empty_heap []) = Some (ok, list', t) \<and>
    (if ok then holds_list t list' ([] @ [lh_fresh (empty_heap [] :: nat list_heap)]) ([] @ [5])
     else list' = None \<and> holds_list t None [] [] \<and> False \<in> set (lh_mem (empty_heap [] :: nat list_heap))) \<and>
    (\<forall>list2 ys es. holds_list (empty_heap []) list2 ys es \<and> set ys \<inter> set [] = {} \<longrightarrow> holds_list t list2 ys es)"
  by (rule list_append_spec [OF holds_empty])

text \<open>
  C28. Removing an element ends, takes the first link with that data out of the ring, says
  whether there was one, and touches no link outside the list.
\<close>

theorem list_remove_spec:
  assumes "holds_list s list xs ds"
  shows "\<exists>list' t xs'. list_remove list d s = Some (d \<in> set ds, list', t) \<and>
    holds_list t list' xs' (remove1 d ds) \<and> set xs' \<subseteq> set xs \<and>
    (\<forall>y. y \<notin> set xs \<longrightarrow> lh_links t y = lh_links s y)"
  using list_remove_eq [OF assms, of d] unfolding removes_def by blast

theorem list_remove_witness:
  "\<exists>list t list' u xs'. list_append None (5 :: nat) (empty_heap []) = Some (True, list, t) \<and>
    list_remove list 5 t = Some (True, list', u) \<and> holds_list u list' xs' []"
proof -
  obtain list t where 1: "list_append None (5 :: nat) (empty_heap []) = Some (True, list, t)"
    "holds_list t list [0] [5]"
    using list_append_adds [OF holds_empty, of "[]" "5 :: nat"] by (auto simp: adds_def empty_heap_def split: if_splits)
  from list_remove_spec [OF 1(2), of 5] 1(1) show ?thesis by auto
qed

text \<open>
  Copying a list ends with a separate list of the same elements, or, when memory runs out
  half way, with an empty one whose links are freed; the source is unchanged either way.
\<close>

theorem list_copy_spec:
  assumes "holds_list s list xs ds"
  shows "\<exists>ok dest t. list_copy list s = Some (ok, dest, t) \<and> holds_list t list xs ds \<and>
    (if ok then \<exists>ys. holds_list t dest ys ds \<and> set xs \<inter> set ys = {}
     else dest = None \<and> False \<in> set (lh_mem s))"
proof -
  have "holds_list s None [] []" using assms by (simp add: holds_list_def circ_def)
  moreover have "list_copy list s = copy_loop list (head_of xs) None s"
    using holds_head [OF assms] by (simp add: list_copy_def)
  ultimately show ?thesis
    using copy_loop_eq [of s list "[]" xs "[]" ds None "[]" "[]"] assms
    by (simp only: append_Nil list.size list.set Int_empty_right simp_thms)
qed

theorem list_copy_witness:
  "\<exists>list t ok dest u. list_append None (5 :: nat) (empty_heap [True, False]) = Some (True, list, t) \<and>
    list_copy list t = Some (ok, dest, u) \<and> holds_list u list [0] [5]"
proof -
  have "list_append None (5 :: nat) (empty_heap [True, False]) \<noteq> None \<and>
    (\<forall>ok list t. list_append None (5 :: nat) (empty_heap [True, False]) = Some (ok, list, t) \<longrightarrow> ok)"
    by (simp add: list_append_def list_prepend_def alloc_link_def empty_heap_def link_before_def link_defs Let_def)
  with list_append_adds [OF holds_empty, of "[True, False]" "5 :: nat"]
  obtain list t where 1: "list_append None (5 :: nat) (empty_heap [True, False]) = Some (True, list, t)"
    "holds_list t list [0] [5]" by (auto simp: adds_def empty_heap_def split: if_splits)
  from list_copy_spec [OF 1(2)] 1(1) show ?thesis by auto
qed

end
