(* ===== verification/MemPool.thy ===== *)
theory MemPool
  imports Prelude DString
begin

text \<open>
  Memory pools, \<^verbatim>\<open>dbus/dbus-mempool.c\<close>: elements of one size are carved out of blocks that double in
  size, and freed elements are kept in a list for reuse. A block is identified by a number, an
  element by its block and its offset in it. The contents of elements are not modelled, and neither
  are the switches for tests (\<^verbatim>\<open>_dbus_disable_mem_pools\<close>, the fail-alloc counter).
\<close>

section \<open>Definitions\<close>

type_synonym element = "nat \<times> nat"

record mem_block =
  mb_id :: nat
  mb_size :: nat
  mb_used :: nat

record mem_pool =
  mp_element_size :: nat
  mp_block_size :: nat
  mp_free :: "element list"
  mp_blocks :: "mem_block list"
  mp_allocated :: nat

text \<open>The state of \<^verbatim>\<open>malloc\<close>: its answers, and the number of the next block.\<close>

type_synonym malloc = "mem \<times> nat"

abbreviation sizeof_pointer :: nat where "sizeof_pointer \<equiv> 8"

text \<open>Sizes and counts are of type \<^verbatim>\<open>int\<close>; an operation that would overflow one is \<open>None\<close>.\<close>

abbreviation DBUS_INT_MAX :: nat where "DBUS_INT_MAX \<equiv> 2147483647"

definition mem_pool_new :: "nat \<Rightarrow> malloc \<Rightarrow> (mem_pool option \<times> malloc) option" where
  "mem_pool_new element_size s =
     (let (ok, m) = alloc (fst s) in
      if \<not> ok then Some (None, (m, snd s))
      else
        let element_size = (if element_size < 8 then 8 else element_size);
            element_size = align_value element_size sizeof_pointer in
        do { _ \<leftarrow> check (element_size * 8 \<le> DBUS_INT_MAX);
             Some (Some \<lparr>mp_element_size = element_size, mp_block_size = element_size * 8, mp_free = [],
               mp_blocks = [], mp_allocated = 0\<rparr>, (m, snd s)) })"

text \<open>\<^verbatim>\<open>_DBUS_INT_MAX / 4\<close> bounds the doubling; a block has a header besides its elements.\<close>

definition grown_size :: "nat \<Rightarrow> nat" where
  "grown_size block_size = (if block_size \<le> DBUS_INT_MAX div 4 then block_size * 2 else block_size)"

abbreviation sizeof_header :: nat where "sizeof_header \<equiv> 24 - 4"

text \<open>Counting an element that is handed out.\<close>

definition count_allocated :: "mem_pool \<Rightarrow> mem_pool option" where
  "count_allocated pool =
     do { _ \<leftarrow> check (mp_allocated pool + 1 \<le> DBUS_INT_MAX);
          Some (pool\<lparr>mp_allocated := mp_allocated pool + 1\<rparr>) }"

text \<open>Carving an element out of the first block.\<close>

definition carve :: "mem_pool \<Rightarrow> mem_block \<Rightarrow> mem_block list \<Rightarrow> (element \<times> mem_pool) option" where
  "carve pool block blocks =
     do { pool \<leftarrow> count_allocated
            (pool\<lparr>mp_blocks := block\<lparr>mb_used := mb_used block + mp_element_size pool\<rparr> # blocks\<rparr>);
          Some ((mb_id block, mb_used block), pool) }"

definition mem_pool_alloc :: "mem_pool \<Rightarrow> malloc \<Rightarrow> (element option \<times> mem_pool \<times> malloc) option" where
  "mem_pool_alloc pool s =
     (case mp_free pool of
        x # free \<Rightarrow> do { pool \<leftarrow> count_allocated (pool\<lparr>mp_free := free\<rparr>); Some (Some x, pool, s) }
      | [] \<Rightarrow>
          if mp_blocks pool = [] \<or> mb_used (hd (mp_blocks pool)) = mp_block_size pool then
            let pool = pool\<lparr>mp_block_size := grown_size (mp_block_size pool)\<rparr> in
            do { _ \<leftarrow> check (sizeof_header + mp_block_size pool \<le> DBUS_INT_MAX);
                 let (ok, m) = alloc (fst s);
                 if \<not> ok then Some (None, pool, (m, snd s))
                 else do {
                   (x, pool) \<leftarrow> carve pool \<lparr>mb_id = snd s, mb_size = mp_block_size pool, mb_used = 0\<rparr> (mp_blocks pool);
                   Some (Some x, pool, (m, snd s + 1)) } }
          else do { (x, pool) \<leftarrow> carve pool (hd (mp_blocks pool)) (tl (mp_blocks pool)); Some (Some x, pool, s) })"

text \<open>The result says whether no element is left; \<open>None\<close> is the failed assertion.\<close>

definition mem_pool_dealloc :: "mem_pool \<Rightarrow> element \<Rightarrow> (bool \<times> mem_pool) option" where
  "mem_pool_dealloc pool x =
     (if mp_allocated pool = 0 then None
      else let pool = pool\<lparr>mp_free := x # mp_free pool, mp_allocated := mp_allocated pool - 1\<rparr> in
        Some (mp_allocated pool = 0, pool))"

section \<open>Invariant\<close>

text \<open>The elements carved out of a block so far.\<close>

definition carved :: "nat \<Rightarrow> mem_block \<Rightarrow> element set" where
  "carved es b = {(mb_id b, k * es) | k. k * es < mb_used b}"

text \<open>
  \<open>live\<close> are the elements handed out and not given back. The first block, which elements are carved
  from, has the size the pool has recorded.
\<close>

definition pool_inv :: "mem_pool \<Rightarrow> nat \<Rightarrow> element set \<Rightarrow> bool" where
  "pool_inv pool next_id live \<longleftrightarrow>
     0 < mp_element_size pool \<and> mp_element_size pool dvd mp_block_size pool \<and> 0 < mp_block_size pool \<and>
     sizeof_header + mp_block_size pool \<le> DBUS_INT_MAX \<and>
     distinct (map mb_id (mp_blocks pool)) \<and>
     (\<forall>b \<in> set (mp_blocks pool). mb_id b < next_id \<and> mb_used b \<le> mb_size b \<and> mp_element_size pool dvd mb_used b) \<and>
     (mp_blocks pool \<noteq> [] \<longrightarrow> mb_size (hd (mp_blocks pool)) = mp_block_size pool) \<and>
     distinct (mp_free pool) \<and> set (mp_free pool) \<inter> live = {} \<and> finite live \<and> card live = mp_allocated pool \<and>
     set (mp_free pool) \<union> live = (\<Union>b \<in> set (mp_blocks pool). carved (mp_element_size pool) b)"

text \<open>An element lies inside a block.\<close>

definition in_bounds :: "mem_pool \<Rightarrow> element \<Rightarrow> bool" where
  "in_bounds pool x \<longleftrightarrow>
     (\<exists>b \<in> set (mp_blocks pool). mb_id b = fst x \<and> snd x + mp_element_size pool \<le> mb_size b)"

lemma pool_invD:
  assumes "pool_inv pool n live"
  shows "0 < mp_element_size pool" "mp_element_size pool dvd mp_block_size pool" "0 < mp_block_size pool"
    "distinct (map mb_id (mp_blocks pool))" "distinct (mp_free pool)" "set (mp_free pool) \<inter> live = {}" "finite live"
    "card live = mp_allocated pool" "mp_blocks pool \<noteq> [] \<Longrightarrow> mb_size (hd (mp_blocks pool)) = mp_block_size pool"
    "set (mp_free pool) \<union> live = (\<Union>b \<in> set (mp_blocks pool). carved (mp_element_size pool) b)"
    "\<And>b. b \<in> set (mp_blocks pool) \<Longrightarrow> mb_id b < n \<and> mb_used b \<le> mb_size b \<and> mp_element_size pool dvd mb_used b"
    "sizeof_header + mp_block_size pool \<le> DBUS_INT_MAX"
  using assms unfolding pool_inv_def by blast+

lemma carved_bound:
  assumes "(i, o') \<in> carved es b" "es dvd mb_used b" "mb_used b \<le> mb_size b" "0 < es"
  shows "i = mb_id b \<and> o' + es \<le> mb_size b"
proof -
  from assms(1) obtain k where k: "i = mb_id b" "o' = k * es" "k * es < mb_used b" by (auto simp: carved_def)
  from assms(2) obtain u where u: "mb_used b = u * es" by (metis dvdE mult.commute)
  with k(3) assms(4) have "Suc k * es \<le> u * es" by (intro mult_le_mono1) simp
  with u k assms(3) show ?thesis by simp
qed

lemma carved_in_bounds:
  assumes "pool_inv pool n live" "x \<in> live"
  shows "in_bounds pool x"
proof -
  note d = pool_invD [OF assms(1)]
  from assms(2) d(10) obtain b where b: "b \<in> set (mp_blocks pool)" "x \<in> carved (mp_element_size pool) b" by blast
  then show ?thesis
    using carved_bound [of "fst x" "snd x" "mp_element_size pool" b] d(1) d(11) [OF b(1)]
    unfolding in_bounds_def by force
qed

lemma carved_next:
  assumes "es dvd mb_used b" "0 < es"
  shows "carved es (b\<lparr>mb_used := mb_used b + es\<rparr>) = insert (mb_id b, mb_used b) (carved es b)"
    and "(mb_id b, mb_used b) \<notin> carved es b"
proof -
  obtain u where u: "mb_used b = u * es" using assms(1) by (metis dvdE mult.commute)
  have "k * es < u * es + es \<longleftrightarrow> k * es < u * es \<or> k = u" for k
  proof -
    have "k * es < Suc u * es \<longleftrightarrow> k < Suc u" "k * es < u * es \<longleftrightarrow> k < u"
      using assms(2) by (simp_all only: mult_less_cancel2 simp_thms)
    then show ?thesis by (simp add: add.commute less_Suc_eq)
  qed
  then show "carved es (b\<lparr>mb_used := mb_used b + es\<rparr>) = insert (mb_id b, mb_used b) (carved es b)"
    unfolding carved_def u by auto
  show "(mb_id b, mb_used b) \<notin> carved es b" by (auto simp: carved_def)
qed

lemma alloc_carves:
  assumes "pool_inv pool n live" "mp_free pool = []" "mp_blocks pool = b # bs" "mb_used b \<noteq> mp_block_size pool"
    and "carve pool b bs = Some (x, pool')"
  shows "pool_inv pool' n (insert x live) \<and> x \<notin> live"
proof -
  let ?es = "mp_element_size pool" and ?b = "b\<lparr>mb_used := mb_used b + mp_element_size pool\<rparr>"
  note d = pool_invD [OF assms(1)]
  have b: "b \<in> set (mp_blocks pool)" using assms(3) by simp
  note db = d(11) [OF b]
  have x: "x = (mb_id b, mb_used b)" and p: "pool' = pool\<lparr>mp_blocks := ?b # bs, mp_allocated := mp_allocated pool + 1\<rparr>"
    using assms(5) by (auto simp: carve_def count_allocated_def split: bind_splits)
  have size: "mb_size b = mp_block_size pool" using d(9) assms(3) by simp
  have new: "x \<notin> carved ?es c" if "c \<in> set bs" for c
    using that d(4) assms(3) x by (force simp: carved_def)
  have all: "live = carved ?es b \<union> (\<Union>c \<in> set bs. carved ?es c)" using d(10) assms(2,3) by simp
  have "x \<notin> carved ?es b" using carved_next(2) [of ?es b] db d(1) x by simp
  with new all have x_new: "x \<notin> live" by blast
  obtain u v where "mb_used b = ?es * u" "mp_block_size pool = ?es * v" using db d(2) by (auto elim!: dvdE)
  with db size assms(4) d(1) have "mb_used b + ?es \<le> mb_size b"
    by (metis Suc_leI add.commute le_neq_implies_less mult_Suc_right mult_le_mono2 mult_less_cancel1)
  moreover have "?es dvd mb_used b + ?es" using db by simp
  moreover have "carved ?es ?b \<union> (\<Union>c \<in> set bs. carved ?es c) = insert x live"
    using all carved_next(1) [of ?es b] db d(1) x by simp
  ultimately have "pool_inv pool' n (insert x live)"
    unfolding pool_inv_def p using d(1-8) d(11,12) db size assms(2,3) x_new by simp
  with x_new show ?thesis by simp
qed

lemma grown_size_dvd: "es dvd n \<Longrightarrow> es dvd grown_size n" "0 < n \<Longrightarrow> 0 < grown_size n"
  "sizeof_header + n \<le> DBUS_INT_MAX \<Longrightarrow> sizeof_header + grown_size n \<le> DBUS_INT_MAX"
  by (auto simp: grown_size_def)

text \<open>An allocation that is answered keeps the invariant and hands out an element not in use.\<close>

lemma alloc_keeps:
  assumes "pool_inv pool n live" "mem_pool_alloc pool (m, n) = Some (Some x, pool', m', n')"
  shows "pool_inv pool' n' (insert x live) \<and> x \<notin> live"
proof -
  note d = pool_invD [OF assms(1)]
  show ?thesis
  proof (cases "mp_free pool")
    case (Cons y free)
    then have "x = y" "pool' = pool\<lparr>mp_free := free, mp_allocated := mp_allocated pool + 1\<rparr>" "n' = n"
      using assms(2) by (auto simp: mem_pool_alloc_def count_allocated_def split: bind_splits)
    then show ?thesis using assms(1) Cons unfolding pool_inv_def by auto
  next
    case Nil
    show ?thesis
    proof (cases "mp_blocks pool = [] \<or> mb_used (hd (mp_blocks pool)) = mp_block_size pool")
      case True
      let ?pool = "pool\<lparr>mp_block_size := grown_size (mp_block_size pool)\<rparr>"
      let ?b = "\<lparr>mb_id = n, mb_size = grown_size (mp_block_size pool), mb_used = 0\<rparr>"
      let ?pool2 = "?pool\<lparr>mp_blocks := ?b # mp_blocks pool\<rparr>"
      have c: "carve ?pool ?b (mp_blocks pool) = Some (x, pool')" "n' = n + 1"
        using assms(2) Nil True by (auto simp: mem_pool_alloc_def Let_def split: prod.splits if_splits bind_splits)
      have "carved (mp_element_size pool) ?b = {}" by (simp add: carved_def)
      moreover have "n \<notin> mb_id ` set (mp_blocks pool)" using d(11) by force
      ultimately have "pool_inv ?pool2 (n + 1) live"
        using d grown_size_dvd unfolding pool_inv_def by (auto simp: less_Suc_eq)
      moreover have "carve ?pool2 ?b (mp_blocks pool) = Some (x, pool')" using c(1) by (simp add: carve_def)
      moreover have "mb_used ?b \<noteq> mp_block_size ?pool2" using grown_size_dvd(2) [OF d(3)] by simp
      ultimately show ?thesis using alloc_carves [of ?pool2 "n + 1" live ?b "mp_blocks pool"] Nil c(2) by simp
    next
      case False
      then obtain b bs where "mp_blocks pool = b # bs" by (cases "mp_blocks pool") auto
      with False Nil assms alloc_carves [OF assms(1) Nil] show ?thesis
        by (auto simp: mem_pool_alloc_def split: prod.splits bind_splits)
    qed
  qed
qed

text \<open>No size overflows, and the count does not while it can count.\<close>

lemma pool_alloc_answers:
  assumes "pool_inv pool n live" "mp_allocated pool < DBUS_INT_MAX"
  shows "\<exists>r. mem_pool_alloc pool (m, n) = Some r"
  using assms(2) grown_size_dvd(3) [OF pool_invD(12) [OF assms(1)]]
  by (auto simp: mem_pool_alloc_def carve_def count_allocated_def check_def Let_def split: list.split prod.split)

lemma dealloc_keeps:
  assumes "pool_inv pool n live" "x \<in> live"
  shows "\<exists>pool'. mem_pool_dealloc pool x = Some (live - {x} = {}, pool') \<and> pool_inv pool' n (live - {x})"
proof -
  note d = pool_invD [OF assms(1)]
  let ?pool = "pool\<lparr>mp_free := x # mp_free pool, mp_allocated := mp_allocated pool - 1\<rparr>"
  have "0 < card live" using d(7) assms(2) by (auto simp: card_gt_0_iff)
  moreover have c: "card (live - {x}) = card live - 1" using d(7) assms(2) by simp
  moreover have "live - {x} = {} \<longleftrightarrow> card (live - {x}) = 0" using d(7) by (simp only: card_0_eq finite_Diff)
  ultimately have "mem_pool_dealloc pool x = Some (live - {x} = {}, ?pool)"
    using d(8) unfolding mem_pool_dealloc_def Let_def by (simp only: c) simp
  moreover have "set (x # mp_free pool) \<union> (live - {x}) = set (mp_free pool) \<union> live" using assms(2) by auto
  then have "pool_inv ?pool n (live - {x})"
    unfolding pool_inv_def using d c assms(2) by auto
  ultimately show ?thesis by blast
qed

section \<open>Runs of a pool\<close>

text \<open>
  The states a pool goes through while its clients allocate, with success, and give back what they
  were given.
\<close>

inductive pool_run :: "nat \<Rightarrow> mem_pool \<Rightarrow> malloc \<Rightarrow> element set \<Rightarrow> bool" for sz where
  new: "mem_pool_new sz (m, n) = Some (Some pool, s) \<Longrightarrow> pool_run sz pool s {}"
| alloc: "pool_run sz pool s live \<Longrightarrow> mem_pool_alloc pool s = Some (Some x, pool', s') \<Longrightarrow>
    pool_run sz pool' s' (insert x live)"
| dealloc: "pool_run sz pool s live \<Longrightarrow> x \<in> live \<Longrightarrow> mem_pool_dealloc pool x = Some (none_left, pool') \<Longrightarrow>
    pool_run sz pool' s (live - {x})"

lemma aligned_eight: "sz \<le> 268435448 \<Longrightarrow> align_value sz 8 \<le> 268435448"
  by (simp add: align_value_def)

lemma new_inv:
  assumes "mem_pool_new sz (m, n) = Some (Some pool, s)"
  shows "pool_inv pool (snd s) {}"
proof -
  let ?e = "align_value (if sz < 8 then 8 else sz) 8"
  have pos: "0 < ?e" using align_value_bounds(1) [of 8 "if sz < 8 then 8 else sz"] by (simp split: if_splits)
  have "8 dvd ?e" by (simp add: align_value_def)
  then obtain k where k: "?e = 8 * k" by (rule dvdE)
  have new: "?e * 8 \<le> DBUS_INT_MAX" "pool = \<lparr>mp_element_size = ?e, mp_block_size = ?e * 8, mp_free = [],
      mp_blocks = [], mp_allocated = 0\<rparr>"
    using assms by (auto simp: mem_pool_new_def Let_def check_def split: prod.splits if_splits)
  have "sizeof_header + ?e * 8 \<le> DBUS_INT_MAX" using new(1) unfolding k by presburger
  with pos show ?thesis unfolding new(2) by (simp add: pool_inv_def)
qed

lemma run_inv: "pool_run sz pool s live \<Longrightarrow> pool_inv pool (snd s) live"
proof (induction rule: pool_run.induct)
  case (new m n pool s)
  then show ?case by (rule new_inv)
next
  case (alloc pool s live x pool' s')
  then show ?case using alloc_keeps [of pool "snd s" live "fst s" x pool' "fst s'" "snd s'"] by simp
next
  case (dealloc pool s live x none_left pool')
  then show ?case using dealloc_keeps by fastforce
qed

text \<open>
  C29. As long as no block allocation fails, all elements a pool has handed out lie inside its
  blocks, a new element is never one that is in use, and giving an element back reports the pool
  empty exactly when it was the last. No int overflows while fewer than 2147483647 elements are
  in use, and the creation of a pool overflows none for element sizes up to 268435448 (above it,
  element_size * 8 does).
\<close>

theorem pool_run_safe:
  assumes "pool_run sz pool s live"
  shows "(\<forall>x \<in> live. in_bounds pool x) \<and>
    (\<forall>x pool' s'. mem_pool_alloc pool s = Some (Some x, pool', s') \<longrightarrow> x \<notin> live \<and> in_bounds pool' x) \<and>
    (\<forall>x \<in> live. \<exists>pool'. mem_pool_dealloc pool x = Some (live = {x}, pool')) \<and>
    (card live < DBUS_INT_MAX \<longrightarrow> mem_pool_alloc pool s \<noteq> None) \<and>
    (\<forall>size s. size \<le> 268435448 \<longrightarrow> mem_pool_new size s \<noteq> None)"
proof (intro conjI allI impI ballI)
  note inv = run_inv [OF assms]
  show "in_bounds pool x" if "x \<in> live" for x by (rule carved_in_bounds [OF inv that])
  fix x pool' s'
  assume a: "mem_pool_alloc pool s = Some (Some x, pool', s')"
  from alloc_keeps [of pool "snd s" live "fst s" x pool' "fst s'" "snd s'"] inv a
  have "pool_inv pool' (snd s') (insert x live) \<and> x \<notin> live" by simp
  then show "x \<notin> live" "in_bounds pool' x" using carved_in_bounds [of pool' "snd s'" "insert x live" x] by simp_all
next
  fix x assume x: "x \<in> live"
  then have "live - {x} = {} \<longleftrightarrow> live = {x}" by auto
  with dealloc_keeps [OF run_inv [OF assms] x] show "\<exists>pool'. mem_pool_dealloc pool x = Some (live = {x}, pool')" by auto
next
  assume "card live < DBUS_INT_MAX"
  then show "mem_pool_alloc pool s \<noteq> None"
    using pool_alloc_answers [OF run_inv [OF assms], of "fst s"] pool_invD(8) [OF run_inv [OF assms]] by auto
next
  fix size :: nat and s :: malloc
  assume "size \<le> 268435448"
  then have "align_value (if size < 8 then 8 else size) 8 \<le> 268435448" by (intro aligned_eight) simp
  then have "align_value (if size < 8 then 8 else size) 8 * 8 \<le> DBUS_INT_MAX" by linarith
  then show "mem_pool_new size s \<noteq> None"
    by (cases "size < 8") (simp_all add: mem_pool_new_def Let_def check_def split: prod.split)
qed

text \<open>An element given back, and handed out again.\<close>

theorem pool_run_witness:
  "\<exists>pool s pool' s'. pool_run 24 pool s {(0, 24)} \<and> mem_pool_alloc pool s = Some (Some (0, 0), pool', s') \<and>
     in_bounds pool' (0, 0)"
proof -
  let ?pool = "\<lambda>used free n. \<lparr>mp_element_size = 24, mp_block_size = (if n = 0 then 192 else 384), mp_free = free,
    mp_blocks = (if n = 0 then [] else [\<lparr>mb_id = 0, mb_size = 384, mb_used = used\<rparr>]), mp_allocated = n - length free\<rparr>"
  have "pool_run 24 (?pool 0 [] 0) ([], 0) {}"
    by (rule pool_run.new [of 24 "[]" 0]) (simp add: mem_pool_new_def Let_def align_value_def check_def)
  then have "pool_run 24 (?pool 24 [] 1) ([], 1) {(0, 0)}"
    by (rule pool_run.alloc [where x = "(0, 0)" and live = "{}", simplified])
      (simp add: mem_pool_alloc_def carve_def count_allocated_def grown_size_def check_def Let_def)
  then have "pool_run 24 (?pool 48 [] 2) ([], 1) {(0, 24), (0, 0)}"
    by (rule pool_run.alloc)
      (simp add: mem_pool_alloc_def carve_def count_allocated_def grown_size_def check_def Let_def)
  then have "pool_run 24 (?pool 48 [(0, 0)] 2) ([], 1) ({(0, 24), (0, 0)} - {(0, 0)})"
    by (rule pool_run.dealloc [where none_left = False]) (simp_all add: mem_pool_dealloc_def Let_def)
  then have r: "pool_run 24 (?pool 48 [(0, 0)] 2) ([], 1) {(0, 24)}" by (simp add: insert_Diff_if)
  moreover have "\<exists>pool' s'. mem_pool_alloc (?pool 48 [(0, 0)] 2) ([], 1) = Some (Some (0, 0), pool', s')"
    by (simp add: mem_pool_alloc_def count_allocated_def check_def)
  ultimately show ?thesis using pool_run_safe [OF r] by blast
qed

section \<open>A failed block allocation\<close>

text \<open>
  C30. When the first block of a pool is full, no freed element is left, block sizes still
  double (up to a quarter of the largest int) and the allocation of a further block fails, the
  next allocation returns an element beyond the end of the full block: the block size was
  already doubled.
\<close>

theorem alloc_after_failure_out_of_bounds:
  assumes "pool_run sz pool s live" "mp_free pool = []" "mp_blocks pool = b # bs" "mb_used b = mp_block_size pool"
    and "mp_block_size pool \<le> DBUS_INT_MAX div 4" "card live < DBUS_INT_MAX" "\<not> fst (alloc (fst s))"
  shows "\<exists>pool1 s1 x pool2. mem_pool_alloc pool s = Some (None, pool1, s1) \<and>
    mem_pool_alloc pool1 s1 = Some (Some x, pool2, s1) \<and>
    fst x = mb_id b \<and> mb_size b \<le> snd x \<and> \<not> in_bounds pool2 x"
proof -
  note inv = run_inv [OF assms(1)]
  note d = pool_invD [OF inv]
  let ?pool1 = "pool\<lparr>mp_block_size := mp_block_size pool * 2\<rparr>" and ?s1 = "(snd (alloc (fst s)), snd s)"
  let ?b = "b\<lparr>mb_used := mb_used b + mp_element_size pool\<rparr>"
  let ?pool2 = "?pool1\<lparr>mp_blocks := ?b # bs, mp_allocated := mp_allocated pool + 1\<rparr>"
  have size: "mb_size b = mp_block_size pool" using d(9) assms(3) by simp
  have grown: "grown_size (mp_block_size pool) = mp_block_size pool * 2" using assms(5) by (simp add: grown_size_def)
  have failed: "mem_pool_alloc pool s = Some (None, ?pool1, ?s1)"
    using assms(2,3,4,7) grown grown_size_dvd(3) [OF d(12)]
    by (cases "alloc (fst s)") (simp add: mem_pool_alloc_def Let_def check_def)
  have next_one: "mem_pool_alloc ?pool1 ?s1 = Some (Some (mb_id b, mb_used b), ?pool2, ?s1)"
    using assms(2-4,6) d(3,8) by (simp add: mem_pool_alloc_def carve_def count_allocated_def check_def)
  have "\<forall>c\<in>set bs. mb_id c \<noteq> mb_id b" using d(4) assms(3)
    by (metis distinct.simps(2) image_eqI list.set_map list.simps(9))
  then have "\<not> in_bounds ?pool2 (mb_id b, mb_used b)"
    using d(1) assms(4) size by (auto simp: in_bounds_def)
  with failed next_one show ?thesis using size assms(4) by (intro exI conjI) (rule failed, rule next_one, simp_all)
qed

text \<open>Sixteen elements fill the first block.\<close>

fun alloc_many :: "nat \<Rightarrow> mem_pool \<Rightarrow> malloc \<Rightarrow> element set \<Rightarrow> (mem_pool \<times> malloc \<times> element set) option" where
  "alloc_many 0 pool s live = Some (pool, s, live)"
| "alloc_many (Suc n) pool s live =
     do { (x, pool, s) \<leftarrow> mem_pool_alloc pool s; x \<leftarrow> x; alloc_many n pool s (insert x live) }"

lemma alloc_many_run:
  "alloc_many n pool s live = Some (pool', s', live') \<Longrightarrow> pool_run sz pool s live \<Longrightarrow> pool_run sz pool' s' live'"
proof (induction n arbitrary: pool s live)
  case (Suc n)
  then obtain x pool1 s1 where "mem_pool_alloc pool s = Some (Some x, pool1, s1)"
    and rest: "alloc_many n pool1 s1 (insert x live) = Some (pool', s', live')"
    by (auto split: bind_splits)
  with Suc.prems(2) have "pool_run sz pool1 s1 (insert x live)" by (intro pool_run.alloc)
  with rest show ?case by (rule Suc.IH)
qed simp

lemmas alloc_many_numeral = alloc_many.simps(2) [of "pred_numeral k" for k, folded numeral_eq_Suc]

theorem alloc_after_failure_witness:
  "\<exists>pool s x pool1 s1 pool2. mem_pool_alloc pool s = Some (None, pool1, s1) \<and>
     mem_pool_alloc pool1 s1 = Some (Some x, pool2, s1) \<and> 128 \<le> snd x \<and> \<not> in_bounds pool2 x"
proof -
  let ?pool = "\<lparr>mp_element_size = 8, mp_block_size = 64, mp_free = [], mp_blocks = [], mp_allocated = 0\<rparr>"
  let ?b = "\<lparr>mb_id = 0, mb_size = 128, mb_used = 128\<rparr>"
  let ?full = "\<lparr>mp_element_size = 8, mp_block_size = 128, mp_free = [], mp_blocks = [?b], mp_allocated = 16\<rparr>"
  let ?live = "fold insert (map (\<lambda>i. (0 :: nat, 8 * i)) [0..<16]) {}"
  have "pool_run 8 ?pool ([True, False], 0) {}"
    by (rule pool_run.new [of 8 "[True, True, False]" 0]) (simp add: mem_pool_new_def Let_def align_value_def check_def)
  moreover have "alloc_many 16 ?pool ([True, False], 0) {} = Some (?full, ([False], 1), ?live)"
    by (simp add: alloc_many_numeral mem_pool_alloc_def carve_def count_allocated_def check_def Let_def grown_size_def upt_rec)
  ultimately have r: "pool_run 8 ?full ([False], 1) ?live" using alloc_many_run by blast
  from pool_invD(8) [OF run_inv [OF r]] have "card ?live = 16" by (simp del: fold_simps upt.simps)
  then have "card ?live < DBUS_INT_MAX" by linarith
  from alloc_after_failure_out_of_bounds [OF r _ _ _ _ this, of ?b "[]"]
  show ?thesis by (fastforce simp del: fold_simps upt.simps)
qed

end
