(* ===== verification/Services.thy ===== *)
theory Services
  imports Names "HOL-Library.Monad_Syntax" "HOL-Library.Multiset"
begin

text \<open>
  Ownership of bus names, \<^verbatim>\<open>bus/services.c\<close>, with the transactions and the per-connection list of
  owned services of \<^verbatim>\<open>bus/connection.c\<close> it works on. Services and owners are reference counted
  objects of an explicit store, so that a dangling pointer shows: following one, like a failed
  assertion, is \<open>None\<close>. The lists (\<^verbatim>\<open>owners\<close>, \<^verbatim>\<open>services_owned\<close>, \<^verbatim>\<open>cancel_hooks\<close>) are HOL lists;
  connections, which outlive what is modelled here, are numbers.

  Every call that may run out of memory consumes one answer of the allocator; the sending of a
  signal and the two calls into \<^verbatim>\<open>bus/activation.c\<close> consume one each, whatever they do inside. What
  the SELinux, AppArmor and configured policies answer, and the limit on names per connection,
  are arguments.
\<close>

section \<open>State\<close>

type_synonym connection = nat
type_synonym owner_ptr = nat
type_synonym service_ptr = nat

record bus_owner =
  ow_refcount :: nat
  ow_service :: service_ptr
  ow_conn :: connection
  ow_allow_replacement :: bool
  ow_do_not_queue :: bool

record bus_service =
  sv_refcount :: nat
  sv_name :: bytes
  sv_owners :: "owner_ptr list"

text \<open>Messages a transaction will send.\<close>

datatype signal =
    NameOwnerChanged bytes "connection option" "connection option"
  | NameLost connection bytes
  | NameAcquired connection bytes

text \<open>
  The hooks run when a transaction is cancelled: \<^verbatim>\<open>OwnershipCancelData\<close> with its service and owner,
  and \<^verbatim>\<open>OwnershipRestoreData\<close> with its service, owner, \<^verbatim>\<open>before_owner\<close> and whether it has a
  \<^verbatim>\<open>hash_entry\<close>. The two preallocated links are there in every hook: it is not installed otherwise.
\<close>

datatype hook =
    CancelOwnership (hook_service: service_ptr) (hook_owner: owner_ptr)
  | RestoreOwnership (hook_service: service_ptr) (hook_owner: owner_ptr) "owner_ptr option" bool

text \<open>
  The registry (\<^verbatim>\<open>service_hash\<close> and the objects of its pools), \<^verbatim>\<open>services_owned\<close> and
  \<^verbatim>\<open>n_services_owned\<close> of every connection, and the transaction under way.
\<close>

record bus =
  bs_owners :: "owner_ptr \<rightharpoonup> bus_owner"
  bs_services :: "service_ptr \<rightharpoonup> bus_service"
  bs_hash :: "bytes \<rightharpoonup> service_ptr"
  bs_owned :: "connection \<Rightarrow> service_ptr list"
  bs_n_owned :: "connection \<Rightarrow> int"
  bs_fresh :: nat
  bs_mem :: mem
  bs_signals :: "signal list"
  bs_hooks :: "hook list"

text \<open>\<open>SEND_FAILED\<close> is whatever error a failed send leaves; \<open>UNSET\<close> is failure with no error set.\<close>

datatype bus_error = INVALID_ARGS | ACCESS_DENIED | LIMITS_EXCEEDED | NO_MEMORY | SEND_FAILED | UNSET

text \<open>What is asked of the security modules and the configuration; \<open>None\<close> is consent.\<close>

record guards =
  allows_selinux :: "connection \<Rightarrow> bytes \<Rightarrow> bus_error option"
  allows_apparmor :: "connection \<Rightarrow> bytes \<Rightarrow> bus_error option"
  can_own :: "connection \<Rightarrow> bytes \<Rightarrow> bool"
  max_services :: int

abbreviation ALLOW_REPLACEMENT :: "32 word" where "ALLOW_REPLACEMENT \<equiv> 0x1"
abbreviation REPLACE_EXISTING :: "32 word" where "REPLACE_EXISTING \<equiv> 0x2"
abbreviation DO_NOT_QUEUE :: "32 word" where "DO_NOT_QUEUE \<equiv> 0x4"

definition has_flag :: "32 word \<Rightarrow> 32 word \<Rightarrow> bool" where
  "has_flag flags f \<longleftrightarrow> flags AND f \<noteq> 0"

datatype request_reply = REPLY_PRIMARY_OWNER | REPLY_IN_QUEUE | REPLY_EXISTS | REPLY_ALREADY_OWNER
datatype release_reply = REPLY_RELEASED | REPLY_NON_EXISTENT | REPLY_NOT_OWNER

section \<open>Objects\<close>

definition try_alloc :: "bus \<Rightarrow> bool \<times> bus" where
  "try_alloc s = (let (ok, m) = alloc (bs_mem s) in (ok, s\<lparr>bs_mem := m\<rparr>))"

text \<open>Queueing a signal in the transaction (\<^verbatim>\<open>bus_driver_send_service_*\<close>).\<close>

definition send_signal :: "signal \<Rightarrow> bus \<Rightarrow> bool \<times> bus" where
  "send_signal g s =
     (let (ok, s) = try_alloc s in
      (ok, if ok then s\<lparr>bs_signals := bs_signals s @ [g]\<rparr> else s))"

definition set_service :: "service_ptr \<Rightarrow> bus_service \<Rightarrow> bus \<Rightarrow> bus" where
  "set_service p v s = s\<lparr>bs_services := (bs_services s)(p \<mapsto> v)\<rparr>"

definition set_owner :: "owner_ptr \<Rightarrow> bus_owner \<Rightarrow> bus \<Rightarrow> bus" where
  "set_owner w x s = s\<lparr>bs_owners := (bs_owners s)(w \<mapsto> x)\<rparr>"

definition set_owners :: "service_ptr \<Rightarrow> owner_ptr list \<Rightarrow> bus \<Rightarrow> bus option" where
  "set_owners p ws s = do { v \<leftarrow> bs_services s p; Some (set_service p (v\<lparr>sv_owners := ws\<rparr>) s) }"

text \<open>\<^verbatim>\<open>_dbus_list_remove_last\<close>, and \<^verbatim>\<open>_dbus_list_insert_after_link\<close> with the first link.\<close>

definition remove_last :: "'a \<Rightarrow> 'a list \<Rightarrow> 'a list" where
  "remove_last x xs = rev (remove1 x (rev xs))"

fun insert_second :: "'a \<Rightarrow> 'a list \<Rightarrow> 'a list" where
  "insert_second x [] = [x]"
| "insert_second x (y # ys) = y # x # ys"

definition bus_registry_lookup :: "bytes \<Rightarrow> bus \<Rightarrow> service_ptr option" where
  "bus_registry_lookup service_name s = bs_hash s service_name"

text \<open>\<^verbatim>\<open>_bus_service_find_owner_link\<close>: the owner in the link found, if any.\<close>

fun find_owner_loop :: "(owner_ptr \<rightharpoonup> bus_owner) \<Rightarrow> owner_ptr list \<Rightarrow> connection \<Rightarrow> owner_ptr option option" where
  "find_owner_loop W [] conn = Some None"
| "find_owner_loop W (w # ws) conn =
     do { x \<leftarrow> W w; if ow_conn x = conn then Some (Some w) else find_owner_loop W ws conn }"

definition bus_service_find_owner_link :: "service_ptr \<Rightarrow> connection \<Rightarrow> bus \<Rightarrow> owner_ptr option option" where
  "bus_service_find_owner_link p conn s =
     do { v \<leftarrow> bs_services s p; find_owner_loop (bs_owners s) (sv_owners v) conn }"

definition bus_owner_set_flags :: "owner_ptr \<Rightarrow> 32 word \<Rightarrow> bus \<Rightarrow> bus option" where
  "bus_owner_set_flags w flags s =
     do { x \<leftarrow> bs_owners s w;
          Some (set_owner w (x\<lparr>ow_allow_replacement := has_flag flags ALLOW_REPLACEMENT,
            ow_do_not_queue := has_flag flags DO_NOT_QUEUE\<rparr>) s) }"

definition bus_connection_add_owned_service_link :: "connection \<Rightarrow> service_ptr \<Rightarrow> bus \<Rightarrow> bus" where
  "bus_connection_add_owned_service_link conn p s =
     s\<lparr>bs_owned := (bs_owned s)(conn := bs_owned s conn @ [p]),
       bs_n_owned := (bs_n_owned s)(conn := bs_n_owned s conn + 1)\<rparr>"

definition bus_connection_add_owned_service :: "connection \<Rightarrow> service_ptr \<Rightarrow> bus \<Rightarrow> bool \<times> bus" where
  "bus_connection_add_owned_service conn p s =
     (let (ok, s) = try_alloc s in
      (ok, if ok then bus_connection_add_owned_service_link conn p s else s))"

definition bus_connection_remove_owned_service :: "connection \<Rightarrow> service_ptr \<Rightarrow> bus \<Rightarrow> bus option" where
  "bus_connection_remove_owned_service conn p s =
     (if bs_n_owned s conn - 1 < 0 then None
      else Some (s\<lparr>bs_owned := (bs_owned s)(conn := remove_last p (bs_owned s conn)),
             bs_n_owned := (bs_n_owned s)(conn := bs_n_owned s conn - 1)\<rparr>))"

definition bus_owner_new ::
    "service_ptr \<Rightarrow> connection \<Rightarrow> 32 word \<Rightarrow> bus \<Rightarrow> (owner_ptr option \<times> bus) option" where
  "bus_owner_new p conn flags s =
     (let (ok, s) = try_alloc s in
      if \<not> ok then Some (None, s)
      else
        let (ok, s) = bus_connection_add_owned_service conn p s in
        if \<not> ok then Some (None, s)
        else
          let w = bs_fresh s;
              s = set_owner w \<lparr>ow_refcount = 1, ow_service = p, ow_conn = conn,
                    ow_allow_replacement = False, ow_do_not_queue = False\<rparr> (s\<lparr>bs_fresh := w + 1\<rparr>)
          in do { s \<leftarrow> bus_owner_set_flags w flags s; Some (Some w, s) })"

definition bus_owner_ref :: "owner_ptr \<Rightarrow> bus \<Rightarrow> bus option" where
  "bus_owner_ref w s =
     do { x \<leftarrow> bs_owners s w;
          if ow_refcount x = 0 then None
          else Some (set_owner w (x\<lparr>ow_refcount := ow_refcount x + 1\<rparr>) s) }"

definition bus_owner_unref :: "owner_ptr \<Rightarrow> bus \<Rightarrow> bus option" where
  "bus_owner_unref w s =
     do { x \<leftarrow> bs_owners s w;
          if ow_refcount x = 0 then None
          else if ow_refcount x = 1 then
            do { s \<leftarrow> bus_connection_remove_owned_service (ow_conn x) (ow_service x) s;
                 _ \<leftarrow> bs_services s (ow_service x);
                 Some (s\<lparr>bs_owners := (bs_owners s)(w := None)\<rparr>) }
          else Some (set_owner w (x\<lparr>ow_refcount := ow_refcount x - 1\<rparr>) s) }"

definition bus_service_ref :: "service_ptr \<Rightarrow> bus \<Rightarrow> bus option" where
  "bus_service_ref p s =
     do { v \<leftarrow> bs_services s p;
          if sv_refcount v = 0 then None
          else Some (set_service p (v\<lparr>sv_refcount := sv_refcount v + 1\<rparr>) s) }"

definition bus_service_unref :: "service_ptr \<Rightarrow> bus \<Rightarrow> bus option" where
  "bus_service_unref p s =
     do { v \<leftarrow> bs_services s p;
          if sv_refcount v = 0 then None
          else if sv_refcount v = 1 then
            if sv_owners v \<noteq> [] then None else Some (s\<lparr>bs_services := (bs_services s)(p := None)\<rparr>)
          else Some (set_service p (v\<lparr>sv_refcount := sv_refcount v - 1\<rparr>) s) }"

definition bus_service_get_primary_owner :: "service_ptr \<Rightarrow> bus \<Rightarrow> owner_ptr option option" where
  "bus_service_get_primary_owner p s =
     do { v \<leftarrow> bs_services s p; Some (case sv_owners v of [] \<Rightarrow> None | w # _ \<Rightarrow> Some w) }"

definition bus_service_get_primary_owners_connection :: "service_ptr \<Rightarrow> bus \<Rightarrow> connection option option" where
  "bus_service_get_primary_owners_connection p s =
     do { w \<leftarrow> bus_service_get_primary_owner p s;
          case w of None \<Rightarrow> Some None | Some w \<Rightarrow> do { x \<leftarrow> bs_owners s w; Some (Some (ow_conn x)) } }"

definition bus_service_get_allow_replacement :: "service_ptr \<Rightarrow> bus \<Rightarrow> bool option" where
  "bus_service_get_allow_replacement p s =
     do { w \<leftarrow> bus_service_get_primary_owner p s; w \<leftarrow> w; x \<leftarrow> bs_owners s w; Some (ow_allow_replacement x) }"

definition bus_service_has_owner :: "service_ptr \<Rightarrow> connection \<Rightarrow> bus \<Rightarrow> bool option" where
  "bus_service_has_owner p conn s = do { w \<leftarrow> bus_service_find_owner_link p conn s; Some (w \<noteq> None) }"

section \<open>Undoing\<close>

definition bus_service_unlink_owner :: "service_ptr \<Rightarrow> owner_ptr \<Rightarrow> bus \<Rightarrow> bus option" where
  "bus_service_unlink_owner p w s =
     do { v \<leftarrow> bs_services s p; s \<leftarrow> set_owners p (remove_last w (sv_owners v)) s; bus_owner_unref w s }"

definition bus_service_unlink :: "service_ptr \<Rightarrow> bus \<Rightarrow> bus option" where
  "bus_service_unlink p s =
     do { v \<leftarrow> bs_services s p;
          if sv_owners v \<noteq> [] then None
          else bus_service_unref p (s\<lparr>bs_hash := (bs_hash s)(sv_name v := None)\<rparr>) }"

definition bus_service_relink :: "service_ptr \<Rightarrow> bus \<Rightarrow> bus option" where
  "bus_service_relink p s =
     do { v \<leftarrow> bs_services s p;
          if sv_owners v \<noteq> [] then None
          else bus_service_ref p (s\<lparr>bs_hash := (bs_hash s)(sv_name v \<mapsto> p)\<rparr>) }"

text \<open>The end of \<^verbatim>\<open>cancel_ownership\<close> and of \<^verbatim>\<open>bus_service_remove_owner\<close>.\<close>

definition unlink_if_unowned :: "service_ptr \<Rightarrow> bus \<Rightarrow> bus option" where
  "unlink_if_unowned p s =
     do { v \<leftarrow> bs_services s p; if sv_owners v = [] then bus_service_unlink p s else Some s }"

definition cancel_ownership :: "service_ptr \<Rightarrow> owner_ptr \<Rightarrow> bus \<Rightarrow> bus option" where
  "cancel_ownership p w s = do { s \<leftarrow> bus_service_unlink_owner p w s; unlink_if_unowned p s }"

fun insert_before :: "'a \<Rightarrow> 'a option \<Rightarrow> 'a list \<Rightarrow> 'a list" where
  "insert_before x b [] = [x]"
| "insert_before x b (y # ys) = (if Some y = b then x # y # ys else y # insert_before x b ys)"

text \<open>\<open>hash_entry\<close> tells whether \<^verbatim>\<open>d->hash_entry\<close> is set; the code asserts it in one branch and denies it in the other.\<close>

definition restore_ownership :: "service_ptr \<Rightarrow> owner_ptr \<Rightarrow> owner_ptr option \<Rightarrow> bool \<Rightarrow> bus \<Rightarrow> bus option" where
  "restore_ownership p w before_owner hash_entry s =
     do { v \<leftarrow> bs_services s p;
          s \<leftarrow> (if sv_owners v = [] then if \<not> hash_entry then None else bus_service_relink p s
               else if hash_entry then None else Some s);
          v \<leftarrow> bs_services s p;
          s \<leftarrow> set_owners p (insert_before w before_owner (sv_owners v)) s;
          x \<leftarrow> bs_owners s w;
          Some (bus_connection_add_owned_service_link (ow_conn x) p s) }"

text \<open>\<^verbatim>\<open>free_ownership_cancel_data\<close> and \<^verbatim>\<open>free_ownership_restore_data\<close> drop the same references.\<close>

definition free_ownership_data :: "service_ptr \<Rightarrow> owner_ptr \<Rightarrow> bus \<Rightarrow> bus option" where
  "free_ownership_data p w s = do { s \<leftarrow> bus_owner_unref w s; bus_service_unref p s }"

section \<open>Transactions\<close>

definition bus_transaction_add_cancel_hook :: "hook \<Rightarrow> bus \<Rightarrow> bool \<times> bus" where
  "bus_transaction_add_cancel_hook h s =
     (let (ok, s) = try_alloc s in
      if \<not> ok then (False, s)
      else
        let (ok, s) = try_alloc s in
        (ok, if ok then s\<lparr>bs_hooks := h # bs_hooks s\<rparr> else s))"

definition cancel_hook_cancel :: "hook \<Rightarrow> bus \<Rightarrow> bus option" where
  "cancel_hook_cancel h s =
     (case h of CancelOwnership p w \<Rightarrow> cancel_ownership p w s
      | RestoreOwnership p w b e \<Rightarrow> restore_ownership p w b e s)"

fun run_hooks :: "hook list \<Rightarrow> bus \<Rightarrow> bus option" where
  "run_hooks [] s = Some s"
| "run_hooks (h # hs) s = do { s \<leftarrow> cancel_hook_cancel h s; run_hooks hs s }"

definition cancel_hook_free :: "hook \<Rightarrow> bus \<Rightarrow> bus option" where
  "cancel_hook_free h s = free_ownership_data (hook_service h) (hook_owner h) s"

fun free_hooks :: "hook list \<Rightarrow> bus \<Rightarrow> bus option" where
  "free_hooks [] s = Some (s\<lparr>bs_hooks := []\<rparr>)"
| "free_hooks (h # hs) s = do { s \<leftarrow> cancel_hook_free h s; free_hooks hs s }"

definition transaction_free :: "bus \<Rightarrow> bus option" where
  "transaction_free s = free_hooks (bs_hooks s) s"

text \<open>The messages of a cancelled transaction are dropped, those of an executed one leave.\<close>

definition bus_transaction_cancel_and_free :: "bus \<Rightarrow> bus option" where
  "bus_transaction_cancel_and_free s =
     do { s \<leftarrow> run_hooks (bs_hooks s) (s\<lparr>bs_signals := []\<rparr>); transaction_free s }"

definition bus_transaction_execute_and_free :: "bus \<Rightarrow> (signal list \<times> bus) option" where
  "bus_transaction_execute_and_free s =
     do { s' \<leftarrow> transaction_free (s\<lparr>bs_signals := []\<rparr>); Some (bs_signals s, s') }"

definition add_cancel_ownership_to_transaction ::
    "service_ptr \<Rightarrow> owner_ptr \<Rightarrow> bus \<Rightarrow> (bool \<times> bus) option" where
  "add_cancel_ownership_to_transaction p w s =
     (let (ok, s) = try_alloc s in
      if \<not> ok then Some (False, s)
      else
        let (ok, s) = bus_transaction_add_cancel_hook (CancelOwnership p w) s in
        if \<not> ok then Some (False, s)
        else do { s \<leftarrow> bus_service_ref p s; s \<leftarrow> bus_owner_ref w s; Some (True, s) })"

text \<open>The owner after the given one in the list of owners.\<close>

fun owner_after :: "owner_ptr \<Rightarrow> owner_ptr list \<Rightarrow> owner_ptr option" where
  "owner_after w [] = None"
| "owner_after w (y # ys) =
     (if y = w then (case ys of [] \<Rightarrow> None | z # _ \<Rightarrow> Some z) else owner_after w ys)"

definition add_restore_ownership_to_transaction ::
    "service_ptr \<Rightarrow> owner_ptr \<Rightarrow> bus \<Rightarrow> (bool \<times> bus) option" where
  "add_restore_ownership_to_transaction p w s =
     (let (ok, s) = try_alloc s in
      if \<not> ok then Some (False, s)
      else
        let (service_link, s) = try_alloc s;
            (owner_link, s) = try_alloc s;
            (hash_entry, s) = try_alloc s
        in do {
          s \<leftarrow> bus_service_ref p s;
          s \<leftarrow> bus_owner_ref w s;
          v \<leftarrow> bs_services s p;
          let (ok, s) =
            (if service_link \<and> owner_link \<and> hash_entry
             then bus_transaction_add_cancel_hook (RestoreOwnership p w (owner_after w (sv_owners v)) hash_entry) s
             else (False, s));
          if ok then Some (True, s)
          else do { s \<leftarrow> free_ownership_data p w s; Some (False, s) } })"

section \<open>Changing owners\<close>

text \<open>
  The results are \<open>None\<close> for success and the error set otherwise.
\<close>

definition bus_service_add_owner ::
    "service_ptr \<Rightarrow> connection \<Rightarrow> 32 word \<Rightarrow> bus \<Rightarrow> (bus_error option \<times> bus) option" where
  "bus_service_add_owner p conn flags s =
     do {
       v \<leftarrow> bs_services s p;
       let (ok, s) = (if sv_owners v = [] then send_signal (NameAcquired conn (sv_name v)) s else (True, s));
       if \<not> ok then Some (Some SEND_FAILED, s)
       else do {
         link \<leftarrow> bus_service_find_owner_link p conn s;
         case link of
           None \<Rightarrow> do {
             (w, s) \<leftarrow> bus_owner_new p conn flags s;
             case w of
               None \<Rightarrow> Some (Some NO_MEMORY, s)
             | Some w \<Rightarrow> do {
                 s \<leftarrow> bus_owner_set_flags w flags s;
                 let (ok, s) = try_alloc s;
                 if \<not> ok then do { s \<leftarrow> bus_owner_unref w s; Some (Some NO_MEMORY, s) }
                 else do {
                   s \<leftarrow> set_owners p
                     (if \<not> has_flag flags REPLACE_EXISTING \<or> sv_owners v = [] then sv_owners v @ [w]
                      else insert_second w (sv_owners v)) s;
                   (ok, s) \<leftarrow> add_cancel_ownership_to_transaction p w s;
                   if \<not> ok then do { s \<leftarrow> bus_service_unlink_owner p w s; Some (Some NO_MEMORY, s) }
                   else Some (None, s) } } }
         | Some w \<Rightarrow> do {
             s \<leftarrow> (if has_flag flags REPLACE_EXISTING then
                     if remove1 w (sv_owners v) = [] then None
                     else set_owners p (insert_second w (remove1 w (sv_owners v))) s
                   else Some s);
             s \<leftarrow> bus_owner_set_flags w flags s;
             Some (None, s) } } }"

text \<open>Telling everyone, and the second owner in the queue, that it becomes the primary one.\<close>

definition announce_next_owner :: "bytes \<Rightarrow> connection \<Rightarrow> owner_ptr \<Rightarrow> bus \<Rightarrow> (bool \<times> bus) option" where
  "announce_next_owner name conn w s =
     do { y \<leftarrow> bs_owners s w;
          let (ok, s) = send_signal (NameOwnerChanged name (Some conn) (Some (ow_conn y))) s;
          Some (if ok then send_signal (NameAcquired (ow_conn y) name) s else (False, s)) }"

definition bus_service_swap_owner :: "service_ptr \<Rightarrow> connection \<Rightarrow> bus \<Rightarrow> (bus_error option \<times> bus) option" where
  "bus_service_swap_owner p conn s =
     do {
       v \<leftarrow> bs_services s p;
       primary_owner \<leftarrow> bus_service_get_primary_owners_connection p s;
       if primary_owner \<noteq> Some conn then None
       else
         let (ok, s) = send_signal (NameLost conn (sv_name v)) s in
         if \<not> ok then Some (Some SEND_FAILED, s)
         else do {
           (ok, s) \<leftarrow>
             (case sv_owners v of w # u # ws \<Rightarrow> announce_next_owner (sv_name v) conn u s | _ \<Rightarrow> None);
           if \<not> ok then Some (Some SEND_FAILED, s)
           else do {
             (ok, s) \<leftarrow> add_restore_ownership_to_transaction p (hd (sv_owners v)) s;
             if \<not> ok then Some (Some NO_MEMORY, s)
             else do {
               s \<leftarrow> set_owners p (insert_second (hd (sv_owners v)) (tl (sv_owners v))) s;
               Some (None, s) } } } }"

definition bus_service_remove_owner :: "service_ptr \<Rightarrow> connection \<Rightarrow> bus \<Rightarrow> (bus_error option \<times> bus) option" where
  "bus_service_remove_owner p conn s =
     do {
       v \<leftarrow> bs_services s p;
       primary_owner \<leftarrow> bus_service_get_primary_owners_connection p s;
       if primary_owner \<noteq> Some conn then do {
         link \<leftarrow> bus_service_find_owner_link p conn s;
         w \<leftarrow> link;
         s \<leftarrow> set_owners p (remove1 w (sv_owners v)) s;
         s \<leftarrow> bus_owner_unref w s;
         Some (None, s) }
       else
         let (ok, s) = send_signal (NameLost conn (sv_name v)) s in
         if \<not> ok then Some (Some SEND_FAILED, s)
         else do {
           (ok, s) \<leftarrow>
             (case sv_owners v of
                [] \<Rightarrow> None
              | [w] \<Rightarrow> Some (send_signal (NameOwnerChanged (sv_name v) (Some conn) None) s)
              | w # u # ws \<Rightarrow> announce_next_owner (sv_name v) conn u s);
           if \<not> ok then Some (Some SEND_FAILED, s)
           else do {
             (ok, s) \<leftarrow> add_restore_ownership_to_transaction p (hd (sv_owners v)) s;
             if \<not> ok then Some (Some NO_MEMORY, s)
             else do {
               s \<leftarrow> bus_service_unlink_owner p (hd (sv_owners v)) s;
               s \<leftarrow> unlink_if_unowned p s;
               Some (None, s) } } } }"

section \<open>Requests\<close>

text \<open>
  \<^verbatim>\<open>bus_registry_ensure\<close>: the service, or the error. The sends of \<^verbatim>\<open>NameOwnerChanged\<close> and of
  activation replies come first.
\<close>

definition bus_registry_ensure ::
    "bytes \<Rightarrow> connection \<Rightarrow> 32 word \<Rightarrow> bus \<Rightarrow> ((bus_error + service_ptr) \<times> bus) option" where
  "bus_registry_ensure service_name conn flags s =
     (case bs_hash s service_name of
        Some p \<Rightarrow> Some (Inr p, s)
      | None \<Rightarrow>
          let (ok, s) = try_alloc s in
          if \<not> ok then Some (Inl NO_MEMORY, s)
          else
            let (ok, s) = try_alloc s in
            if \<not> ok then Some (Inl NO_MEMORY, s)
            else
              let p = bs_fresh s;
                  s = set_service p \<lparr>sv_refcount = 1, sv_name = service_name, sv_owners = []\<rparr>
                        (s\<lparr>bs_fresh := p + 1\<rparr>);
                  (ok, s) = send_signal (NameOwnerChanged service_name None (Some conn)) s
              in
              if \<not> ok then do { s \<leftarrow> bus_service_unref p s; Some (Inl SEND_FAILED, s) }
              else
                let (ok, s) = try_alloc s in
                if \<not> ok then do { s \<leftarrow> bus_service_unref p s; Some (Inl SEND_FAILED, s) }
                else do {
                  (r, s) \<leftarrow> bus_service_add_owner p conn flags s;
                  case r of
                    Some e \<Rightarrow> do { s \<leftarrow> bus_service_unref p s; Some (Inl e, s) }
                  | None \<Rightarrow>
                      let (ok, s) = try_alloc s in
                      if \<not> ok then Some (Inl NO_MEMORY, s)
                      else do {
                        v \<leftarrow> bs_services s p;
                        Some (Inr p, s\<lparr>bs_hash := (bs_hash s)(sv_name v \<mapsto> p)\<rparr>) } })"

text \<open>The checks on the name that requesting and releasing it share, in their order.\<close>

definition name_reserved :: "bytes \<Rightarrow> bool" where
  "name_reserved service_name \<longleftrightarrow>
     \<not> validate_bus_name service_name 0 (length service_name) \<or>
     service_name ! 0 = of_char CHR '':'' \<or>
     service_name = bytes ''org.freedesktop.DBus''"

definition acquire_refused :: "guards \<Rightarrow> connection \<Rightarrow> bytes \<Rightarrow> bus \<Rightarrow> bus_error option" where
  "acquire_refused g conn service_name s =
     (if name_reserved service_name then Some INVALID_ARGS
      else case allows_selinux g conn service_name of
        Some e \<Rightarrow> Some (if e = NO_MEMORY then NO_MEMORY else ACCESS_DENIED)
      | None \<Rightarrow>
          case allows_apparmor g conn service_name of
            Some e \<Rightarrow> Some e
          | None \<Rightarrow>
              if \<not> can_own g conn service_name then Some ACCESS_DENIED
              else if bs_n_owned s conn \<ge> max_services g then Some LIMITS_EXCEEDED
              else None)"

text \<open>The primary owner gives way to the newcomer behind it, leaving the queue if it does not want to wait.\<close>

definition hand_over_result ::
    "service_ptr \<Rightarrow> connection \<Rightarrow> bus_error option \<times> bus \<Rightarrow> ((bus_error + request_reply) \<times> bus) option" where
  "hand_over_result p conn rs =
     (case rs of
        (Some e, s) \<Rightarrow> Some (Inl e, s)
      | (None, s) \<Rightarrow> do {
          owner \<leftarrow> bus_service_get_primary_owners_connection p s;
          if owner \<noteq> Some conn then None else Some (Inr REPLY_PRIMARY_OWNER, s) })"

definition hand_over ::
    "service_ptr \<Rightarrow> owner_ptr \<Rightarrow> connection \<Rightarrow> connection \<Rightarrow> bus \<Rightarrow> ((bus_error + request_reply) \<times> bus) option" where
  "hand_over p primary_owner old_owner_conn conn s =
     do {
       x \<leftarrow> bs_owners s primary_owner;
       rs \<leftarrow> (if ow_do_not_queue x then bus_service_remove_owner p old_owner_conn s
             else bus_service_swap_owner p old_owner_conn s);
       hand_over_result p conn rs }"

text \<open>What is done when another connection is the primary owner.\<close>

definition acquire_contended ::
    "service_ptr \<Rightarrow> owner_ptr \<Rightarrow> connection \<Rightarrow> connection \<Rightarrow> 32 word \<Rightarrow> bus \<Rightarrow>
     ((bus_error + request_reply) \<times> bus) option" where
  "acquire_contended p primary_owner old_owner_conn conn flags s =
     do {
       allow \<leftarrow> bus_service_get_allow_replacement p s;
       if has_flag flags DO_NOT_QUEUE \<and> \<not> allow \<or>
          has_flag flags DO_NOT_QUEUE \<and> \<not> has_flag flags REPLACE_EXISTING then do {
         link \<leftarrow> bus_service_find_owner_link p conn s;
         s \<leftarrow> (case link of
                None \<Rightarrow> Some s
              | Some w \<Rightarrow> do {
                  v \<leftarrow> bs_services s p;
                  s \<leftarrow> set_owners p (remove1 w (sv_owners v)) s;
                  bus_owner_unref w s });
         Some (Inr REPLY_EXISTS, s) }
       else if \<not> has_flag flags DO_NOT_QUEUE \<and> (\<not> has_flag flags REPLACE_EXISTING \<or> \<not> allow) then do {
         (r, s) \<leftarrow> bus_service_add_owner p conn flags s;
         Some (case r of Some e \<Rightarrow> Inl e | None \<Rightarrow> Inr REPLY_IN_QUEUE, s) }
       else do {
         (r, s) \<leftarrow> bus_service_add_owner p conn flags s;
         case r of
           Some e \<Rightarrow> Some (Inl e, s)
         | None \<Rightarrow> hand_over p primary_owner old_owner_conn conn s } }"

definition acquire_owned ::
    "service_ptr \<Rightarrow> connection option \<Rightarrow> connection \<Rightarrow> 32 word \<Rightarrow> bus \<Rightarrow>
     ((bus_error + request_reply) \<times> bus) option" where
  "acquire_owned p old_owner_conn conn flags s =
     do {
       primary_owner \<leftarrow> bus_service_get_primary_owner p s;
       case primary_owner of
         None \<Rightarrow> Some (Inl UNSET, s)
       | Some w \<Rightarrow>
           case old_owner_conn of
             None \<Rightarrow> do {
               x \<leftarrow> bs_owners s w;
               if ow_conn x \<noteq> conn then None else Some (Inr REPLY_PRIMARY_OWNER, s) }
           | Some old_owner_conn \<Rightarrow>
               if old_owner_conn = conn
               then do { s \<leftarrow> bus_owner_set_flags w flags s; Some (Inr REPLY_ALREADY_OWNER, s) }
               else acquire_contended p w old_owner_conn conn flags s }"

definition bus_registry_acquire_service ::
    "guards \<Rightarrow> connection \<Rightarrow> bytes \<Rightarrow> 32 word \<Rightarrow> bus \<Rightarrow> ((bus_error + request_reply) \<times> bus) option" where
  "bus_registry_acquire_service g conn service_name flags s =
     (case acquire_refused g conn service_name s of
        Some e \<Rightarrow> Some (Inl e, s)
      | None \<Rightarrow> do {
          old_owner_conn \<leftarrow>
            (case bus_registry_lookup service_name s of
               None \<Rightarrow> Some None
             | Some p \<Rightarrow> bus_service_get_primary_owners_connection p s);
          (p, s) \<leftarrow>
            (case bus_registry_lookup service_name s of
               None \<Rightarrow> bus_registry_ensure service_name conn flags s
             | Some p \<Rightarrow> Some (Inr p, s));
          case p of
            Inl e \<Rightarrow> Some (Inl e, s)
          | Inr p \<Rightarrow> do {
              (r, s) \<leftarrow> acquire_owned p old_owner_conn conn flags s;
              case r of
                Inl e \<Rightarrow> Some (Inl e, s)
              | Inr reply \<Rightarrow>
                  let (ok, s) = try_alloc s in
                  Some (if ok then Inr reply else Inl NO_MEMORY, s) } })"

definition bus_registry_release_service ::
    "connection \<Rightarrow> bytes \<Rightarrow> bus \<Rightarrow> ((bus_error + release_reply) \<times> bus) option" where
  "bus_registry_release_service conn service_name s =
     (if name_reserved service_name then Some (Inl INVALID_ARGS, s)
      else case bus_registry_lookup service_name s of
        None \<Rightarrow> Some (Inr REPLY_NON_EXISTENT, s)
      | Some p \<Rightarrow> do {
          has \<leftarrow> bus_service_has_owner p conn s;
          if \<not> has then Some (Inr REPLY_NOT_OWNER, s)
          else do {
            (r, s) \<leftarrow> bus_service_remove_owner p conn s;
            case r of
              Some e \<Rightarrow> Some (Inl e, s)
            | None \<Rightarrow> do {
                v \<leftarrow> bs_services s p;
                has \<leftarrow> bus_service_has_owner p conn s;
                if has then None else Some (Inr REPLY_RELEASED, s) } } })"

text \<open>
  The loop of \<^verbatim>\<open>bus_connection_disconnected\<close> that drops what a lost connection owns, trying again when
  memory runs out. A failed attempt leaves the list of services, and so the service tried, as it is.
  A send that fails is taken to have run out of memory: at any other error the source aborts.
\<close>

partial_function (option) drop_services :: "connection \<Rightarrow> bus \<Rightarrow> bus option" where
  "drop_services conn s =
     (if bs_owned s conn = [] then Some s
      else do {
        (r, s) \<leftarrow> bus_service_remove_owner (last (bs_owned s conn)) conn s;
        case r of
          Some e \<Rightarrow> do { s \<leftarrow> bus_transaction_cancel_and_free s; drop_services conn s }
        | None \<Rightarrow> do { (sent, s) \<leftarrow> bus_transaction_execute_and_free s; drop_services conn s } })"

end
