(* ===== verification/Ownership.thy ===== *)
theory Ownership
  imports Services
begin

text \<open>
  Correctness of the ownership of bus names: the invariant of the registry and of its reference
  counts, which every request keeps whatever allocations fail, and the queue of owners a name has,
  which the requests change as the documented \<^verbatim>\<open>RequestName\<close> and \<^verbatim>\<open>ReleaseName\<close> do.
\<close>

section \<open>Invariant\<close>

text \<open>
  \<open>S\<close> and \<open>W\<close> are the references to services and owners held outside the hash table and the lists
  of owners: by the hooks of the transaction and by the code that is running.
\<close>

definition services_ok :: "service_ptr multiset \<Rightarrow> bus \<Rightarrow> bool" where
  "services_ok S s \<longleftrightarrow>
     (\<forall>p\<in>#S. bs_services s p \<noteq> None) \<and>
     (\<forall>n p. bs_hash s n = Some p \<longrightarrow> (\<exists>v. bs_services s p = Some v \<and> sv_name v = n)) \<and>
     (\<forall>p v. bs_services s p = Some v \<longrightarrow>
        p < bs_fresh s \<and> 0 < sv_refcount v \<and>
        sv_refcount v = of_bool (bs_hash s (sv_name v) = Some p) + count S p)"

definition listed :: "bus \<Rightarrow> service_ptr \<Rightarrow> owner_ptr \<Rightarrow> bool" where
  "listed s p w \<longleftrightarrow> (\<exists>v. bs_services s p = Some v \<and> w \<in> set (sv_owners v))"

definition conn_of :: "bus \<Rightarrow> owner_ptr \<Rightarrow> connection" where
  "conn_of s w = (case bs_owners s w of Some x \<Rightarrow> ow_conn x | None \<Rightarrow> 0)"

definition owners_ok :: "owner_ptr multiset \<Rightarrow> bus \<Rightarrow> bool" where
  "owners_ok W s \<longleftrightarrow>
     (\<forall>w\<in>#W. bs_owners s w \<noteq> None) \<and>
     (\<forall>w x. bs_owners s w = Some x \<longrightarrow>
        w < bs_fresh s \<and> bs_services s (ow_service x) \<noteq> None \<and> 0 < ow_refcount x \<and>
        ow_refcount x = of_bool (listed s (ow_service x) w) + count W w)"

definition lists_ok :: "bus \<Rightarrow> bool" where
  "lists_ok s \<longleftrightarrow>
     (\<forall>p v. bs_services s p = Some v \<longrightarrow>
        distinct (sv_owners v) \<and> inj_on (conn_of s) (set (sv_owners v)) \<and>
        (\<forall>w\<in>set (sv_owners v). \<exists>x. bs_owners s w = Some x \<and> ow_service x = p))"

text \<open>Every owner object is counted once in its connection's list of services.\<close>

definition held_by :: "bus \<Rightarrow> connection \<Rightarrow> service_ptr \<Rightarrow> owner_ptr set" where
  "held_by s c p = {w. \<exists>x. bs_owners s w = Some x \<and> ow_conn x = c \<and> ow_service x = p}"

definition owned_ok :: "bus \<Rightarrow> bool" where
  "owned_ok s \<longleftrightarrow>
     finite (dom (bs_owners s)) \<and>
     (\<forall>c. bs_n_owned s c = int (length (bs_owned s c)) \<and>
        (\<forall>p. count (mset (bs_owned s c)) p = card (held_by s c p)))"

definition counted :: "service_ptr multiset \<Rightarrow> owner_ptr multiset \<Rightarrow> bus \<Rightarrow> bool" where
  "counted S W s \<longleftrightarrow> services_ok S s \<and> owners_ok W s \<and> lists_ok s \<and> owned_ok s"

lemmas counted_defs = counted_def services_ok_def owners_ok_def lists_ok_def owned_ok_def
  listed_def held_by_def

text \<open>A service is in the hash table exactly while it has owners.\<close>

definition linked :: "bus \<Rightarrow> bool" where
  "linked s \<longleftrightarrow> (\<forall>p v. bs_services s p = Some v \<longrightarrow> (sv_owners v \<noteq> [] \<longleftrightarrow> bs_hash s (sv_name v) = Some p))"

text \<open>A hook holds a reference to its owner and one to its owner's service.\<close>

definition hooks_ok :: "bus \<Rightarrow> bool" where
  "hooks_ok s \<longleftrightarrow>
     (\<forall>h\<in>set (bs_hooks s). \<exists>x. bs_owners s (hook_owner h) = Some x \<and> ow_service x = hook_service h)"

abbreviation hook_services :: "bus \<Rightarrow> service_ptr multiset" where
  "hook_services s \<equiv> image_mset hook_service (mset (bs_hooks s))"

abbreviation hook_owners :: "bus \<Rightarrow> owner_ptr multiset" where
  "hook_owners s \<equiv> image_mset hook_owner (mset (bs_hooks s))"

section \<open>What a step leaves alone\<close>

text \<open>A step on the service \<open>p\<close> touches no other service and no owner of another service.\<close>

definition keeps :: "service_ptr \<Rightarrow> bus \<Rightarrow> bus \<Rightarrow> bool" where
  "keeps p s s' \<longleftrightarrow>
     (\<forall>q. q \<noteq> p \<longrightarrow> bs_services s' q = bs_services s q) \<and>
     (\<forall>w x. bs_owners s w = Some x \<longrightarrow> ow_service x \<noteq> p \<longrightarrow> bs_owners s' w = Some x)"

lemma keeps_refl [simp]: "keeps p s s"
  by (simp add: keeps_def)

lemma keeps_trans: "keeps p s s' \<Longrightarrow> keeps p s' s'' \<Longrightarrow> keeps p s s''"
  by (simp add: keeps_def)

text \<open>The allocator, the messages and the hooks are not part of the invariant of the objects.\<close>

lemma conn_of_other [simp]:
  "conn_of (s\<lparr>bs_mem := m\<rparr>) = conn_of s"
  "conn_of (s\<lparr>bs_signals := g\<rparr>) = conn_of s"
  "conn_of (s\<lparr>bs_hooks := h\<rparr>) = conn_of s"
  by (simp_all add: conn_of_def fun_eq_iff)

lemma counted_other [simp]:
  "counted S W (s\<lparr>bs_mem := m\<rparr>) = counted S W s"
  "counted S W (s\<lparr>bs_signals := g\<rparr>) = counted S W s"
  "counted S W (s\<lparr>bs_hooks := h\<rparr>) = counted S W s"
  by (simp_all add: counted_defs)

lemma linked_other [simp]:
  "linked (s\<lparr>bs_mem := m\<rparr>) = linked s"
  "linked (s\<lparr>bs_signals := g\<rparr>) = linked s"
  "linked (s\<lparr>bs_hooks := h\<rparr>) = linked s"
  by (simp_all add: linked_def)

lemma keeps_other [simp]:
  "keeps p s (s'\<lparr>bs_mem := m\<rparr>) = keeps p s s'"
  "keeps p s (s'\<lparr>bs_signals := g\<rparr>) = keeps p s s'"
  "keeps p s (s'\<lparr>bs_hooks := h\<rparr>) = keeps p s s'"
  by (simp_all add: keeps_def)

section \<open>Reference counting\<close>

lemma owned_service_link_simps [simp]:
  "bs_owners (bus_connection_add_owned_service_link c p s) = bs_owners s"
  "bs_services (bus_connection_add_owned_service_link c p s) = bs_services s"
  "bs_hash (bus_connection_add_owned_service_link c p s) = bs_hash s"
  "bs_fresh (bus_connection_add_owned_service_link c p s) = bs_fresh s"
  "bs_hooks (bus_connection_add_owned_service_link c p s) = bs_hooks s"
  "bs_mem (bus_connection_add_owned_service_link c p s) = bs_mem s"
  by (simp_all add: bus_connection_add_owned_service_link_def)

lemma set_owner_simps [simp]:
  "bs_owners (set_owner w x s) = (bs_owners s)(w \<mapsto> x)"
  "bs_services (set_owner w x s) = bs_services s"
  "bs_hash (set_owner w x s) = bs_hash s"
  "bs_owned (set_owner w x s) = bs_owned s"
  "bs_n_owned (set_owner w x s) = bs_n_owned s"
  "bs_fresh (set_owner w x s) = bs_fresh s"
  "bs_hooks (set_owner w x s) = bs_hooks s"
  by (simp_all add: set_owner_def)

lemma set_service_simps [simp]:
  "bs_services (set_service p v s) = (bs_services s)(p \<mapsto> v)"
  "bs_owners (set_service p v s) = bs_owners s"
  "bs_hash (set_service p v s) = bs_hash s"
  "bs_owned (set_service p v s) = bs_owned s"
  "bs_n_owned (set_service p v s) = bs_n_owned s"
  "bs_fresh (set_service p v s) = bs_fresh s"
  "bs_hooks (set_service p v s) = bs_hooks s"
  by (simp_all add: set_service_def)

lemma listed_set_owner [simp]: "listed (set_owner w x s) = listed s"
  by (simp add: listed_def fun_eq_iff)

lemma held_by_update:
  "bs_owners s w = Some x \<Longrightarrow> ow_conn y = ow_conn x \<Longrightarrow> ow_service y = ow_service x \<Longrightarrow>
   held_by (set_owner w y s) = held_by s"
  by (auto simp: held_by_def fun_eq_iff)

lemma counted_ownerD:
  assumes "counted S W s" "bs_owners s w = Some x"
  shows "w < bs_fresh s" "bs_services s (ow_service x) \<noteq> None" "0 < ow_refcount x"
    "ow_refcount x = of_bool (listed s (ow_service x) w) + count W w"
  using assms unfolding counted_def owners_ok_def by blast+

lemma counted_serviceD:
  assumes "counted S W s" "bs_services s p = Some v"
  shows "p < bs_fresh s" "0 < sv_refcount v"
    "sv_refcount v = of_bool (bs_hash s (sv_name v) = Some p) + count S p"
    "distinct (sv_owners v)" "inj_on (conn_of s) (set (sv_owners v))"
    "\<forall>w\<in>set (sv_owners v). \<exists>x. bs_owners s w = Some x \<and> ow_service x = p"
  using assms unfolding counted_def services_ok_def lists_ok_def by blast+

lemma mem_count_eq: "x \<in># M \<Longrightarrow> count M x = count N x \<Longrightarrow> x \<in># N"
  by (metis count_eq_zero_iff)

lemma mem_count_moved:
  assumes "x \<in># M" "count M x + of_bool a = count N x + of_bool b"
  shows "x \<in># N \<or> b"
proof (cases b)
  case False
  then have "count N x = count M x + of_bool a" using assms(2) by (simp only: of_bool_eq add_0_right)
  then have "0 < count N x" using assms(1) by (simp only: count_greater_zero_iff [symmetric] trans_less_add1)
  then show ?thesis by simp
qed simp

lemma mem_count_pos: "x \<in># M \<Longrightarrow> 0 < count M x"
  by simp

lemma services_ok_cong:
  "bs_services s' = bs_services s \<Longrightarrow> bs_hash s' = bs_hash s \<Longrightarrow> bs_fresh s' = bs_fresh s \<Longrightarrow>
   services_ok S s' = services_ok S s"
  unfolding services_ok_def by simp

lemma counted_held: "counted S W s \<Longrightarrow> w \<in># W \<Longrightarrow> \<exists>x. bs_owners s w = Some x"
  by (simp add: counted_def owners_ok_def)

lemma counted_set_owner:
  assumes ok: "counted S W s" and x: "bs_owners s w = Some x"
    and y: "ow_conn y = ow_conn x" "ow_service y = ow_service x"
      "ow_refcount y = of_bool (listed s (ow_service x) w) + count W' w" "0 < ow_refcount y"
    and W': "\<And>u. u \<noteq> w \<Longrightarrow> count W' u = count W u"
  shows "counted S W' (set_owner w y s)"
proof -
  let ?s = "set_owner w y s"
  have c: "conn_of ?s = conn_of s"
    using x y(1) by (auto simp: conn_of_def fun_eq_iff)
  have "bs_owners ?s u \<noteq> None" if "u \<in># W'" for u
    using mem_count_eq [OF that W'] counted_held [OF ok, of u] by (cases "u = w") auto
  moreover have "u < bs_fresh ?s \<and> bs_services ?s (ow_service z) \<noteq> None \<and> 0 < ow_refcount z \<and>
      ow_refcount z = of_bool (listed ?s (ow_service z) u) + count W' u" if "bs_owners ?s u = Some z" for u z
  proof (cases "u = w")
    case True
    with that y counted_ownerD(1,2) [OF ok x] show ?thesis by simp
  next
    case False
    with that counted_ownerD [OF ok, of u z] W' [of u] show ?thesis by simp
  qed
  ultimately have "owners_ok W' ?s" unfolding owners_ok_def by blast
  moreover have "lists_ok ?s" unfolding lists_ok_def c
  proof (intro allI impI conjI ballI)
    fix p v assume v: "bs_services ?s p = Some v"
    then show "distinct (sv_owners v)" "inj_on (conn_of s) (set (sv_owners v))"
      using counted_serviceD [OF ok, of p v] by simp_all
    fix u assume "u \<in> set (sv_owners v)"
    then show "\<exists>z. bs_owners ?s u = Some z \<and> ow_service z = p"
      using counted_serviceD(6) [OF ok, of p v] v x y(2) by auto
  qed
  moreover have "owned_ok ?s"
    using ok held_by_update [OF x y(1,2)] by (simp add: counted_def owned_ok_def)
  moreover have "services_ok S ?s"
    using ok services_ok_cong [of ?s s] by (simp add: counted_def)
  ultimately show ?thesis by (simp add: counted_def)
qed

lemma bus_owner_ref_spec:
  assumes "counted S W s" "bs_owners s w = Some x"
  shows "returns (bus_owner_ref w s) (\<lambda>s'. counted S (add_mset w W) s' \<and>
    s' = set_owner w (x\<lparr>ow_refcount := ow_refcount x + 1\<rparr>) s)"
  using counted_ownerD [OF assms] assms
  by (auto simp: bus_owner_ref_def intro!: counted_set_owner [OF assms])

lemma bus_owner_set_flags_counted:
  assumes "counted S W s" "bs_owners s w = Some x"
  shows "returns (bus_owner_set_flags w flags s) (\<lambda>s'. counted S W s' \<and>
    s' = set_owner w (x\<lparr>ow_allow_replacement := has_flag flags ALLOW_REPLACEMENT,
            ow_do_not_queue := has_flag flags DO_NOT_QUEUE\<rparr>) s)"
  using counted_ownerD [OF assms] assms
  by (auto simp: bus_owner_set_flags_def intro!: counted_set_owner [OF assms])

lemma mset_remove_last [simp]: "mset (remove_last x xs) = mset xs - {#x#}"
  by (simp add: remove_last_def)

lemma set_remove_last: "distinct xs \<Longrightarrow> set (remove_last x xs) = set xs - {x}"
  by (simp add: remove_last_def set_remove1_eq)

lemma length_remove_last: "x \<in> set xs \<Longrightarrow> length (remove_last x xs) = length xs - 1"
  by (simp add: remove_last_def length_remove1)

text \<open>Freeing an owner that nothing refers to any more.\<close>

lemma counted_free_owner:
  assumes ok: "counted S (add_mset w W) s" and x: "bs_owners s w = Some x" "ow_refcount x = 1"
    and s': "bs_services s' = bs_services s" "bs_hash s' = bs_hash s" "bs_fresh s' = bs_fresh s"
      "bs_owners s' = (bs_owners s)(w := None)"
      "bs_owned s' = (bs_owned s)(ow_conn x := remove_last (ow_service x) (bs_owned s (ow_conn x)))"
      "bs_n_owned s' = (bs_n_owned s)(ow_conn x := bs_n_owned s (ow_conn x) - 1)"
    and held: "held_by s (ow_conn x) (ow_service x) \<noteq> {} \<Longrightarrow> ow_service x \<in> set (bs_owned s (ow_conn x))"
  shows "counted S W s'"
proof -
  let ?c = "ow_conn x" and ?p = "ow_service x"
  from counted_ownerD(4) [OF ok x(1)] x(2) have nl: "\<not> listed s ?p w" and nW: "count W w = 0"
    by (simp_all split: if_splits)
  have l: "listed s' = listed s" by (simp add: listed_def fun_eq_iff s')
  have nin: "w \<notin> set (sv_owners v)" if "bs_services s p = Some v" for p v
    using counted_serviceD(6) [OF ok that] nl x(1) that by (auto simp: listed_def)
  have c: "conn_of s' u = conn_of s u" if "u \<noteq> w" for u
    using that by (simp add: conn_of_def s')
  have "services_ok S s'"
    using ok services_ok_cong [OF s'(1-3)] by (simp add: counted_def)
  moreover have "owners_ok W s'" unfolding owners_ok_def
  proof (intro conjI ballI allI impI)
    fix u assume "u \<in># W"
    with nW counted_held [OF ok, of u] show "bs_owners s' u \<noteq> None"
      by (auto simp: s' count_eq_zero_iff)
  next
    fix u z assume "bs_owners s' u = Some z"
    then have u: "u \<noteq> w" "bs_owners s u = Some z" by (auto simp: s' split: if_splits)
    from counted_ownerD [OF ok u(2)] u(1)
    show "u < bs_fresh s'" "bs_services s' (ow_service z) \<noteq> None" "0 < ow_refcount z"
      "ow_refcount z = of_bool (listed s' (ow_service z) u) + count W u"
      by (simp_all add: s' l)
  qed
  moreover have "lists_ok s'" unfolding lists_ok_def
  proof (intro allI impI conjI ballI)
    fix p v assume v: "bs_services s' p = Some v"
    then have v': "bs_services s p = Some v" by (simp add: s')
    show "distinct (sv_owners v)" using counted_serviceD(4) [OF ok v'] .
    show "inj_on (conn_of s') (set (sv_owners v))"
      using counted_serviceD(5) [OF ok v'] nin [OF v'] c by (metis inj_on_cong)
    fix u assume "u \<in> set (sv_owners v)"
    then show "\<exists>z. bs_owners s' u = Some z \<and> ow_service z = p"
      using counted_serviceD(6) [OF ok v'] nin [OF v'] by (auto simp: s')
  qed
  moreover have "owned_ok s'"
  proof -
    have o: "owned_ok s" using ok by (simp add: counted_def)
    have w: "w \<in> held_by s ?c ?p" using x(1) by (simp add: held_by_def)
    have h: "held_by s' c p = (if c = ?c \<and> p = ?p then held_by s c p - {w} else held_by s c p)" for c p
      using x(1) by (auto simp: held_by_def s')
    have f: "finite (held_by s c p)" for c p
      using o by (rule_tac finite_subset [of _ "dom (bs_owners s)"]) (auto simp: owned_ok_def held_by_def)
    have mem: "?p \<in> set (bs_owned s ?c)" using held w by blast
    show ?thesis unfolding owned_ok_def
    proof (intro conjI allI)
      show "finite (dom (bs_owners s'))" using o by (simp add: owned_ok_def s')
      fix c
      show "bs_n_owned s' c = int (length (bs_owned s' c))"
        using o length_pos_if_in_set [OF mem]
        by (simp add: owned_ok_def s' length_remove_last [OF mem] of_nat_diff Suc_le_eq)
      fix p
      show "count (mset (bs_owned s' c)) p = card (held_by s' c p)"
        using o w f by (simp add: owned_ok_def s' h)
    qed
  qed
  ultimately show ?thesis by (simp add: counted_def)
qed

lemma owned_mem:
  assumes "counted S W s" "bs_owners s w = Some x"
  shows "ow_service x \<in> set (bs_owned s (ow_conn x))"
proof -
  have "finite (held_by s (ow_conn x) (ow_service x))"
    using assms(1) by (rule_tac finite_subset [of _ "dom (bs_owners s)"])
      (auto simp: counted_def owned_ok_def held_by_def)
  then have "0 < card (held_by s (ow_conn x) (ow_service x))"
    using assms(2) by (auto simp: card_gt_0_iff held_by_def)
  then show ?thesis
    using assms(1) by (metis counted_def owned_ok_def count_greater_zero_iff set_mset_mset)
qed

text \<open>Dropping a reference to an owner. One still referred to keeps all but its count.\<close>

lemma bus_owner_unref_spec:
  assumes ok: "counted S (add_mset w W) s"
  shows "returns (bus_owner_unref w s) (\<lambda>s'. counted S W s' \<and>
    bs_services s' = bs_services s \<and> bs_hash s' = bs_hash s \<and> bs_hooks s' = bs_hooks s \<and>
    (\<forall>u. u \<noteq> w \<longrightarrow> bs_owners s' u = bs_owners s u) \<and>
    (\<forall>x. bs_owners s w = Some x \<longrightarrow> listed s (ow_service x) w \<or> w \<in># W \<longrightarrow>
       bs_owners s' w = Some (x\<lparr>ow_refcount := ow_refcount x - 1\<rparr>)))"
proof -
  obtain x where x: "bs_owners s w = Some x" using counted_held [OF ok] by auto
  note D = counted_ownerD [OF ok x]
  have n: "bs_n_owned s (ow_conn x) = int (length (bs_owned s (ow_conn x)))"
    using ok by (simp add: counted_def owned_ok_def)
  have pos: "0 < length (bs_owned s (ow_conn x))"
    using owned_mem [OF ok x] by (cases "bs_owned s (ow_conn x)") auto
  show ?thesis
  proof (cases "ow_refcount x = 1")
    case True
    let ?s = "s\<lparr>bs_owned := (bs_owned s)(ow_conn x := remove_last (ow_service x) (bs_owned s (ow_conn x))),
      bs_n_owned := (bs_n_owned s)(ow_conn x := bs_n_owned s (ow_conn x) - 1),
      bs_owners := (bs_owners s)(w := None)\<rparr>"
    have "counted S W ?s"
      by (rule counted_free_owner [OF ok x True]) (simp_all add: owned_mem [OF ok x])
    moreover have "bus_owner_unref w s = Some ?s"
      using D(2) n pos
      by (auto simp: bus_owner_unref_def x True bus_connection_remove_owned_service_def)
    moreover have "\<not> (listed s (ow_service x) w \<or> w \<in># W)"
      using D(4) True by (auto simp: not_in_iff split: if_splits)
    ultimately show ?thesis using x by simp
  next
    case False
    let ?s = "set_owner w (x\<lparr>ow_refcount := ow_refcount x - 1\<rparr>) s"
    have "counted S W ?s"
      using D False by (intro counted_set_owner [OF ok x]) auto
    moreover have "bus_owner_unref w s = Some ?s"
      using D(3) False by (simp add: bus_owner_unref_def x)
    ultimately show ?thesis using x by simp
  qed
qed

text \<open>Services: their counts, their lists and the hash table.\<close>

lemma counted_service_held: "counted S W s \<Longrightarrow> p \<in># S \<Longrightarrow> \<exists>v. bs_services s p = Some v"
  by (simp add: counted_def services_ok_def)

lemma counted_hashD: "counted S W s \<Longrightarrow> bs_hash s n = Some p \<Longrightarrow> \<exists>v. bs_services s p = Some v \<and> sv_name v = n"
  by (simp add: counted_def services_ok_def)

lemma counted_fresh:
  assumes "counted S W s"
  shows "bs_services s (bs_fresh s) = None" "bs_owners s (bs_fresh s) = None"
    "bs_fresh s \<notin># S" "bs_fresh s \<notin># W"
proof -
  show a: "bs_services s (bs_fresh s) = None"
    using counted_serviceD(1) [OF assms, of "bs_fresh s"] by (metis less_irrefl not_Some_eq)
  show b: "bs_owners s (bs_fresh s) = None"
    using counted_ownerD(1) [OF assms, of "bs_fresh s"] by (metis less_irrefl not_Some_eq)
  show "bs_fresh s \<notin># S" "bs_fresh s \<notin># W"
    using a b counted_service_held [OF assms, of "bs_fresh s"] counted_held [OF assms, of "bs_fresh s"] by auto
qed

lemma services_okI:
  assumes "\<And>p. p \<in># S \<Longrightarrow> bs_services s p \<noteq> None"
    and "\<And>n p. bs_hash s n = Some p \<Longrightarrow> \<exists>v. bs_services s p = Some v \<and> sv_name v = n"
    and "\<And>p v. bs_services s p = Some v \<Longrightarrow> p < bs_fresh s \<and> 0 < sv_refcount v \<and>
        sv_refcount v = of_bool (bs_hash s (sv_name v) = Some p) + count S p"
  shows "services_ok S s"
  using assms unfolding services_ok_def by blast

lemma owners_okI:
  assumes "\<And>w. w \<in># W \<Longrightarrow> bs_owners s w \<noteq> None"
    and "\<And>w x. bs_owners s w = Some x \<Longrightarrow> w < bs_fresh s \<and> bs_services s (ow_service x) \<noteq> None \<and>
        0 < ow_refcount x \<and> ow_refcount x = of_bool (listed s (ow_service x) w) + count W w"
  shows "owners_ok W s"
  using assms unfolding owners_ok_def by blast

lemma lists_okI:
  assumes "\<And>p v. bs_services s p = Some v \<Longrightarrow> distinct (sv_owners v) \<and> inj_on (conn_of s) (set (sv_owners v)) \<and>
        (\<forall>w\<in>set (sv_owners v). \<exists>x. bs_owners s w = Some x \<and> ow_service x = p)"
  shows "lists_ok s"
  using assms unfolding lists_ok_def by blast

lemma owned_ok_cong:
  "bs_owners s' = bs_owners s \<Longrightarrow> bs_owned s' = bs_owned s \<Longrightarrow> bs_n_owned s' = bs_n_owned s \<Longrightarrow>
   owned_ok s' = owned_ok s"
  unfolding owned_ok_def held_by_def by simp

lemma conn_of_services [simp]:
  "conn_of (set_service p v s) = conn_of s"
  "conn_of (s\<lparr>bs_services := X\<rparr>) = conn_of s"
  "conn_of (s\<lparr>bs_hash := H\<rparr>) = conn_of s"
  "conn_of (s\<lparr>bs_fresh := n\<rparr>) = conn_of s"
  by (simp_all add: conn_of_def fun_eq_iff)

lemma counted_set_service:
  assumes ok: "counted S W s" and v: "bs_services s p = Some v"
    and v': "sv_name v' = sv_name v" "0 < sv_refcount v'"
      "sv_refcount v' = of_bool (bs_hash s (sv_name v) = Some p) + count S' p"
    and S': "\<And>q. q \<noteq> p \<Longrightarrow> count S' q = count S q"
    and ws: "distinct (sv_owners v')" "inj_on (conn_of s) (set (sv_owners v'))"
      "\<And>w. w \<in> set (sv_owners v') \<Longrightarrow> \<exists>x. bs_owners s w = Some x \<and> ow_service x = p"
    and W': "\<And>w. count W' w + of_bool (w \<in> set (sv_owners v')) = count W w + of_bool (w \<in> set (sv_owners v))"
  shows "counted S' W' (set_service p v' s)"
proof -
  let ?s = "set_service p v' s"
  have "services_ok S' ?s"
  proof (rule services_okI)
    fix q assume "q \<in># S'"
    then show "bs_services ?s q \<noteq> None"
      using mem_count_eq [OF _ S', of q] counted_service_held [OF ok, of q] by (cases "q = p") simp_all
  next
    fix n q assume "bs_hash ?s n = Some q"
    then show "\<exists>u. bs_services ?s q = Some u \<and> sv_name u = n"
      using counted_hashD [OF ok, of n q] v v'(1) by auto
  next
    fix q u assume "bs_services ?s q = Some u"
    then have "q = p \<and> u = v' \<or> q \<noteq> p \<and> bs_services s q = Some u" by (simp split: if_splits)
    then show "q < bs_fresh ?s \<and> 0 < sv_refcount u \<and>
        sv_refcount u = of_bool (bs_hash ?s (sv_name u) = Some q) + count S' q"
      unfolding set_service_simps
      using counted_serviceD(1) [OF ok v] v' counted_serviceD(1-3) [OF ok, of q u] S' [of q] by metis
  qed
  moreover have "owners_ok W' ?s"
  proof (rule owners_okI)
    fix w assume "w \<in># W'"
    then have "w \<in># W \<or> w \<in> set (sv_owners v)"
      using mem_count_moved [OF _ W'] by blast
    then show "bs_owners ?s w \<noteq> None"
      using counted_held [OF ok, of w] counted_serviceD(6) [OF ok v] by auto
  next
    fix w x assume "bs_owners ?s w = Some x"
    then have x: "bs_owners s w = Some x" by simp
    note D = counted_ownerD [OF ok x]
    have "count W' w + of_bool (listed ?s (ow_service x) w) = count W w + of_bool (listed s (ow_service x) w)"
    proof (cases "ow_service x = p")
      case True
      then show ?thesis using W' [of w] v by (simp add: listed_def)
    next
      case False
      then have "w \<notin> set (sv_owners v)" "w \<notin> set (sv_owners v')"
        using ws(3) [of w] counted_serviceD(6) [OF ok v] x by auto
      then show ?thesis using W' [of w] False by (simp add: listed_def)
    qed
    then have "ow_refcount x = of_bool (listed ?s (ow_service x) w) + count W' w"
      using D(4) by linarith
    moreover have "w < bs_fresh ?s" "bs_services ?s (ow_service x) \<noteq> None" using D(1,2) by simp_all
    ultimately show "w < bs_fresh ?s \<and> bs_services ?s (ow_service x) \<noteq> None \<and> 0 < ow_refcount x \<and>
        ow_refcount x = of_bool (listed ?s (ow_service x) w) + count W' w"
      using D(3) by blast
  qed
  moreover have "lists_ok ?s"
  proof (rule lists_okI)
    fix q u assume "bs_services ?s q = Some u"
    then show "distinct (sv_owners u) \<and> inj_on (conn_of ?s) (set (sv_owners u)) \<and>
        (\<forall>w\<in>set (sv_owners u). \<exists>x. bs_owners ?s w = Some x \<and> ow_service x = q)"
      using counted_serviceD(4-6) [OF ok, of q u] ws by (cases "q = p") simp_all
  qed
  moreover have "owned_ok ?s"
    using ok owned_ok_cong [of ?s s] by (simp add: counted_def)
  ultimately show ?thesis by (simp add: counted_def)
qed

lemma bus_service_ref_spec:
  assumes ok: "counted S W s" and v: "bs_services s p = Some v"
  shows "returns (bus_service_ref p s) (\<lambda>s'. counted (add_mset p S) W s' \<and>
    s' = set_service p (v\<lparr>sv_refcount := sv_refcount v + 1\<rparr>) s)"
proof -
  note D = counted_serviceD [OF ok v]
  have "counted (add_mset p S) W (set_service p (v\<lparr>sv_refcount := sv_refcount v + 1\<rparr>) s)"
    using D(3,4,5) D(6) by (intro counted_set_service [OF ok v]) simp_all
  then show ?thesis using D(2) by (simp add: bus_service_ref_def v)
qed

lemma counted_free_service:
  assumes ok: "counted (add_mset p S) W s" and v: "bs_services s p = Some v" "sv_refcount v = 1"
    and free: "sv_owners v = []" "\<forall>w\<in>#W. \<forall>x. bs_owners s w = Some x \<longrightarrow> ow_service x \<noteq> p"
  shows "counted S W (s\<lparr>bs_services := (bs_services s)(p := None)\<rparr>)"
proof -
  let ?s = "s\<lparr>bs_services := (bs_services s)(p := None)\<rparr>"
  from counted_serviceD(3) [OF ok v(1)] v(2)
  have nh: "bs_hash s n \<noteq> Some p" and nS: "count S p = 0" for n
    using counted_hashD [OF ok, of n p] v(1) by (auto split: if_splits)
  have nx: "ow_service x \<noteq> p" if "bs_owners s w = Some x" for w x
    using counted_ownerD(3,4) [OF ok that] free v(1) that
    by (auto simp: listed_def split: if_splits)
  have "services_ok S ?s"
  proof (rule services_okI)
    fix q assume "q \<in># S"
    with nS counted_service_held [OF ok, of q] show "bs_services ?s q \<noteq> None"
      by (auto simp: count_eq_zero_iff)
  next
    fix n q assume "bs_hash ?s n = Some q"
    with nh [of n] counted_hashD [OF ok, of n q] show "\<exists>u. bs_services ?s q = Some u \<and> sv_name u = n"
      by auto
  next
    fix q u assume "bs_services ?s q = Some u"
    with counted_serviceD(1-3) [OF ok, of q u]
    show "q < bs_fresh ?s \<and> 0 < sv_refcount u \<and>
        sv_refcount u = of_bool (bs_hash ?s (sv_name u) = Some q) + count S q"
      by (cases "q = p") simp_all
  qed
  moreover have "owners_ok W ?s"
  proof (rule owners_okI)
    fix w assume "w \<in># W"
    with counted_held [OF ok, of w] show "bs_owners ?s w \<noteq> None" by simp
  next
    fix w x assume "bs_owners ?s w = Some x"
    with counted_ownerD [OF ok, of w x] nx [of w x]
    show "w < bs_fresh ?s \<and> bs_services ?s (ow_service x) \<noteq> None \<and> 0 < ow_refcount x \<and>
        ow_refcount x = of_bool (listed ?s (ow_service x) w) + count W w"
      by (simp add: listed_def)
  qed
  moreover have "lists_ok ?s"
    using counted_serviceD(4-6) [OF ok] by (intro lists_okI) (simp split: if_splits)
  moreover have "owned_ok ?s"
    using ok owned_ok_cong [of ?s s] by (simp add: counted_def)
  ultimately show ?thesis by (simp add: counted_def)
qed

lemma bus_service_unref_spec:
  assumes ok: "counted (add_mset p S) W s" and v: "bs_services s p = Some v"
    and free: "p \<notin># S \<Longrightarrow> bs_hash s (sv_name v) \<noteq> Some p \<Longrightarrow>
      sv_owners v = [] \<and> (\<forall>w\<in>#W. \<forall>x. bs_owners s w = Some x \<longrightarrow> ow_service x \<noteq> p)"
  shows "returns (bus_service_unref p s) (\<lambda>s'. counted S W s' \<and>
    bs_owners s' = bs_owners s \<and> bs_hash s' = bs_hash s \<and> bs_hooks s' = bs_hooks s \<and>
    (\<forall>q. q \<noteq> p \<longrightarrow> bs_services s' q = bs_services s q) \<and>
    (if p \<in># S \<or> bs_hash s (sv_name v) = Some p
     then bs_services s' p = Some (v\<lparr>sv_refcount := sv_refcount v - 1\<rparr>) else bs_services s' p = None))"
proof (cases "p \<in># S \<or> bs_hash s (sv_name v) = Some p")
  case True
  let ?s = "set_service p (v\<lparr>sv_refcount := sv_refcount v - 1\<rparr>) s"
  have r: "1 < sv_refcount v"
    using counted_serviceD(3) [OF ok v] True mem_count_pos [of p S] by (auto simp del: count_greater_zero_iff)
  have "counted S W ?s"
    using counted_serviceD [OF ok v] r by (intro counted_set_service [OF ok v]) auto
  moreover have "bus_service_unref p s = Some ?s" using r by (simp add: bus_service_unref_def v)
  ultimately show ?thesis using True by simp
next
  case False
  then have r: "sv_refcount v = 1" using counted_serviceD(3) [OF ok v] by (simp add: not_in_iff)
  with False free show ?thesis
    using counted_free_service [OF ok v r] by (simp add: bus_service_unref_def v)
qed

text \<open>The hash table.\<close>

lemma ok_hash [simp]:
  "owners_ok W (s\<lparr>bs_hash := H\<rparr>) = owners_ok W s"
  "lists_ok (s\<lparr>bs_hash := H\<rparr>) = lists_ok s"
  "owned_ok (s\<lparr>bs_hash := H\<rparr>) = owned_ok s"
  unfolding owners_ok_def lists_ok_def listed_def owned_ok_def held_by_def by simp_all

lemma counted_unhash:
  assumes ok: "counted S W s" and v: "bs_services s p = Some v" "bs_hash s (sv_name v) = Some p"
  shows "counted (add_mset p S) W (s\<lparr>bs_hash := (bs_hash s)(sv_name v := None)\<rparr>)"
proof -
  let ?s = "s\<lparr>bs_hash := (bs_hash s)(sv_name v := None)\<rparr>"
  have "services_ok (add_mset p S) ?s"
  proof (rule services_okI)
    fix q assume "q \<in># add_mset p S"
    then show "bs_services ?s q \<noteq> None" using v(1) counted_service_held [OF ok, of q] by auto
  next
    fix n q assume "bs_hash ?s n = Some q"
    then show "\<exists>u. bs_services ?s q = Some u \<and> sv_name u = n"
      using counted_hashD [OF ok, of n q] by (simp split: if_splits)
  next
    fix q u assume u: "bs_services ?s q = Some u"
    then have u': "bs_services s q = Some u" by simp
    note D = counted_serviceD(1-3) [OF ok u']
    show "q < bs_fresh ?s \<and> 0 < sv_refcount u \<and>
        sv_refcount u = of_bool (bs_hash ?s (sv_name u) = Some q) + count (add_mset p S) q"
    proof (cases "q = p")
      case True
      then show ?thesis using D u' v by simp
    next
      case False
      have "sv_name u \<noteq> sv_name v \<or> bs_hash s (sv_name u) \<noteq> Some q" using False v(2) by auto
      then have "(bs_hash ?s (sv_name u) = Some q) = (bs_hash s (sv_name u) = Some q)"
        using False v(2) by auto
      then show ?thesis using D False by simp
    qed
  qed
  moreover have "owners_ok W ?s" "lists_ok ?s" "owned_ok ?s"
    using ok by (simp_all add: counted_def)
  ultimately show ?thesis by (simp add: counted_def)
qed

lemma counted_hash:
  assumes ok: "counted (add_mset p S) W s" and v: "bs_services s p = Some v" "bs_hash s (sv_name v) = None"
  shows "counted S W (s\<lparr>bs_hash := (bs_hash s)(sv_name v \<mapsto> p)\<rparr>)"
proof -
  let ?s = "s\<lparr>bs_hash := (bs_hash s)(sv_name v \<mapsto> p)\<rparr>"
  have "services_ok S ?s"
  proof (rule services_okI)
    fix q assume "q \<in># S"
    then show "bs_services ?s q \<noteq> None" using counted_service_held [OF ok, of q] by auto
  next
    fix n q assume "bs_hash ?s n = Some q"
    then show "\<exists>u. bs_services ?s q = Some u \<and> sv_name u = n"
      using counted_hashD [OF ok, of n q] v(1) by (auto split: if_splits)
  next
    fix q u assume u: "bs_services ?s q = Some u"
    then have u': "bs_services s q = Some u" by simp
    note D = counted_serviceD(1-3) [OF ok u']
    show "q < bs_fresh ?s \<and> 0 < sv_refcount u \<and>
        sv_refcount u = of_bool (bs_hash ?s (sv_name u) = Some q) + count S q"
      using D u' v by (cases "q = p") (simp_all split: if_splits)
  qed
  moreover have "owners_ok W ?s" "lists_ok ?s" "owned_ok ?s"
    using ok by (simp_all add: counted_def)
  ultimately show ?thesis by (simp add: counted_def)
qed

text \<open>New objects.\<close>

lemma counted_new_service:
  assumes ok: "counted S W s"
  shows "counted (add_mset (bs_fresh s) S) W
    (set_service (bs_fresh s) \<lparr>sv_refcount = 1, sv_name = n, sv_owners = []\<rparr> (s\<lparr>bs_fresh := bs_fresh s + 1\<rparr>))"
    (is "counted _ _ ?s")
proof -
  let ?p = "bs_fresh s"
  note F = counted_fresh [OF ok]
  have l: "listed ?s = listed s" using F(1) by (auto simp: listed_def fun_eq_iff)
  have nh: "bs_hash s m \<noteq> Some ?p" for m using counted_hashD [OF ok, of m ?p] F(1) by auto
  have "services_ok (add_mset ?p S) ?s"
  proof (rule services_okI)
    fix q assume "q \<in># add_mset ?p S"
    then show "bs_services ?s q \<noteq> None" using counted_service_held [OF ok, of q] by auto
  next
    fix m q assume "bs_hash ?s m = Some q"
    then show "\<exists>u. bs_services ?s q = Some u \<and> sv_name u = m"
      using counted_hashD [OF ok, of m q] nh [of m] by auto
  next
    fix q u assume u: "bs_services ?s q = Some u"
    show "q < bs_fresh ?s \<and> 0 < sv_refcount u \<and>
        sv_refcount u = of_bool (bs_hash ?s (sv_name u) = Some q) + count (add_mset ?p S) q"
    proof (cases "q = ?p")
      case True
      then show ?thesis using u nh F(3) by (auto simp: not_in_iff)
    next
      case False
      then show ?thesis using u counted_serviceD(1-3) [OF ok, of q u] by simp
    qed
  qed
  moreover have "owners_ok W ?s"
  proof (rule owners_okI)
    fix w assume "w \<in># W"
    then show "bs_owners ?s w \<noteq> None" using counted_held [OF ok, of w] by auto
  next
    fix w x assume "bs_owners ?s w = Some x"
    then show "w < bs_fresh ?s \<and> bs_services ?s (ow_service x) \<noteq> None \<and> 0 < ow_refcount x \<and>
        ow_refcount x = of_bool (listed ?s (ow_service x) w) + count W w"
      unfolding l using counted_ownerD [OF ok, of w x] by simp
  qed
  moreover have "lists_ok ?s"
    using counted_serviceD(4-6) [OF ok] by (intro lists_okI) (auto split: if_splits)
  moreover have "owned_ok ?s"
    using ok owned_ok_cong [of ?s s] by (simp add: counted_def)
  ultimately show ?thesis by (simp add: counted_def)
qed

lemma counted_new_owner:
  assumes ok: "counted S W s" and v: "bs_services s p = Some v" and x: "ow_service x = p" "ow_refcount x = 1"
  shows "counted S (add_mset (bs_fresh s) W)
    (set_owner (bs_fresh s) x
      (bus_connection_add_owned_service_link (ow_conn x) p s\<lparr>bs_fresh := bs_fresh s + 1\<rparr>))"
    (is "counted _ _ ?s")
proof -
  let ?w = "bs_fresh s"
  note F = counted_fresh [OF ok]
  have s: "bs_services ?s = bs_services s" "bs_hash ?s = bs_hash s" "bs_fresh ?s = bs_fresh s + 1"
    "bs_owners ?s = (bs_owners s)(?w \<mapsto> x)"
    by (simp_all add: bus_connection_add_owned_service_link_def)
  have l: "listed ?s = listed s" unfolding listed_def s ..
  have nl: "?w \<notin> set (sv_owners u)" if "bs_services s q = Some u" for q u
    using counted_serviceD(6) [OF ok that] F(2) by auto
  have "services_ok S ?s"
  proof (rule services_okI, unfold s)
    fix q u assume "bs_services s q = Some u"
    from counted_serviceD(1-3) [OF ok this]
    show "q < bs_fresh s + 1 \<and> 0 < sv_refcount u \<and>
        sv_refcount u = of_bool (bs_hash s (sv_name u) = Some q) + count S q" by linarith
  qed (use counted_service_held [OF ok] counted_hashD [OF ok] in auto)
  moreover have "owners_ok (add_mset ?w W) ?s"
  proof (rule owners_okI)
    fix w assume "w \<in># add_mset ?w W"
    then show "bs_owners ?s w \<noteq> None" using counted_held [OF ok, of w] by (auto simp: s)
  next
    fix w y assume y: "bs_owners ?s w = Some y"
    show "w < bs_fresh ?s \<and> bs_services ?s (ow_service y) \<noteq> None \<and> 0 < ow_refcount y \<and>
        ow_refcount y = of_bool (listed ?s (ow_service y) w) + count (add_mset ?w W) w"
    proof (cases "w = ?w")
      case True
      then show ?thesis using y v x nl [OF v] F(4) unfolding l by (simp add: s listed_def not_in_iff)
    next
      case False
      then show ?thesis unfolding l using y counted_ownerD [OF ok, of w y] by simp
    qed
  qed
  moreover have "lists_ok ?s"
  proof (rule lists_okI)
    fix q u assume "bs_services ?s q = Some u"
    then have u: "bs_services s q = Some u" by (simp add: s)
    have "conn_of ?s w = conn_of s w" if "w \<in> set (sv_owners u)" for w
      using that nl [OF u] by (auto simp: conn_of_def s)
    then have "inj_on (conn_of ?s) (set (sv_owners u))"
      using counted_serviceD(5) [OF ok u] by (metis inj_on_cong)
    moreover have "\<exists>y. bs_owners ?s w = Some y \<and> ow_service y = q" if "w \<in> set (sv_owners u)" for w
      using that nl [OF u] counted_serviceD(6) [OF ok u] by (auto simp: s)
    ultimately show "distinct (sv_owners u) \<and> inj_on (conn_of ?s) (set (sv_owners u)) \<and>
        (\<forall>w\<in>set (sv_owners u). \<exists>x. bs_owners ?s w = Some x \<and> ow_service x = q)"
      using counted_serviceD(4) [OF ok u] by blast
  qed
  moreover have "owned_ok ?s"
  proof -
    have o: "owned_ok s" using ok by (simp add: counted_def)
    have h: "held_by ?s c q = (if c = ow_conn x \<and> q = p then insert ?w (held_by s c q) else held_by s c q)" for c q
      using F(2) x(1) by (auto simp: held_by_def s)
    have f: "finite (held_by s c q)" and n: "?w \<notin> held_by s c q" for c q
      using o F(2) by (auto simp: owned_ok_def held_by_def intro: finite_subset [of _ "dom (bs_owners s)"])
    show ?thesis
      using o f n unfolding owned_ok_def h
      by (simp add: bus_connection_add_owned_service_link_def)
  qed
  ultimately show ?thesis by (simp add: counted_def)
qed

section \<open>Steps that allocate\<close>

lemma returns_try_alloc:
  "(\<And>ok m. returns (f ok (s\<lparr>bs_mem := m\<rparr>)) P) \<Longrightarrow> returns (let (ok, s) = try_alloc s in f ok s) P"
  by (simp add: try_alloc_def split: prod.splits)

lemma send_signal_cases:
  obtains ok m g where "send_signal h s = (ok, s\<lparr>bs_mem := m, bs_signals := g\<rparr>)"
proof -
  obtain ok m where "alloc (bs_mem s) = (ok, m)" by fastforce
  then have "send_signal h s =
      (ok, s\<lparr>bs_mem := m, bs_signals := if ok then bs_signals s @ [h] else bs_signals s\<rparr>)"
    by (simp add: send_signal_def try_alloc_def)
  then show ?thesis by (rule that)
qed

lemma returns_send:
  "(\<And>ok m g. returns (f ok (s\<lparr>bs_mem := m, bs_signals := g\<rparr>)) P) \<Longrightarrow>
   returns (let (ok, s) = send_signal h s in f ok s) P"
  by (cases rule: send_signal_cases [of h s]) simp

lemma returns_add_owned_service:
  "(\<And>m. returns (f False (s\<lparr>bs_mem := m\<rparr>)) P) \<Longrightarrow>
   (\<And>m. returns (f True (bus_connection_add_owned_service_link c p (s\<lparr>bs_mem := m\<rparr>))) P) \<Longrightarrow>
   returns (let (ok, s) = bus_connection_add_owned_service c p s in f ok s) P"
  by (cases "alloc (bs_mem s)") (simp add: bus_connection_add_owned_service_def try_alloc_def)

lemma returns_add_cancel_hook:
  "(\<And>m. returns (f False (s\<lparr>bs_mem := m\<rparr>)) P) \<Longrightarrow>
   (\<And>m. returns (f True (s\<lparr>bs_mem := m, bs_hooks := h # bs_hooks s\<rparr>)) P) \<Longrightarrow>
   returns (let (ok, s) = bus_transaction_add_cancel_hook h s in f ok s) P"
  by (cases "alloc (bs_mem s)"; cases "alloc (snd (alloc (bs_mem s)))")
    (simp add: bus_transaction_add_cancel_hook_def try_alloc_def split: if_splits)

lemma returns_if: "(b \<Longrightarrow> returns m P) \<Longrightarrow> (\<not> b \<Longrightarrow> returns m' P) \<Longrightarrow> returns (if b then m else m') P"
  by simp

lemmas returns_rules = returns_try_alloc returns_send returns_add_owned_service returns_add_cancel_hook returns_if

text \<open>The parts of the state that a step may leave as they are.\<close>

definition same_objects :: "bus \<Rightarrow> bus \<Rightarrow> bool" where
  "same_objects s s' \<longleftrightarrow> bs_services s' = bs_services s \<and> bs_hash s' = bs_hash s \<and> bs_hooks s' = bs_hooks s \<and>
     (\<forall>w x. bs_owners s w = Some x \<longrightarrow> bs_owners s' w = Some x)"

definition fresh_owner :: "service_ptr \<Rightarrow> connection \<Rightarrow> 32 word \<Rightarrow> nat \<Rightarrow> bus_owner" where
  "fresh_owner p conn flags n = \<lparr>ow_refcount = n, ow_service = p, ow_conn = conn,
     ow_allow_replacement = has_flag flags ALLOW_REPLACEMENT, ow_do_not_queue = has_flag flags DO_NOT_QUEUE\<rparr>"

lemma fresh_owner_simps [simp]:
  "ow_refcount (fresh_owner p conn flags n) = n"
  "ow_service (fresh_owner p conn flags n) = p"
  "ow_conn (fresh_owner p conn flags n) = conn"
  "ow_allow_replacement (fresh_owner p conn flags n) = has_flag flags ALLOW_REPLACEMENT"
  "ow_do_not_queue (fresh_owner p conn flags n) = has_flag flags DO_NOT_QUEUE"
  by (simp_all add: fresh_owner_def)

lemma bus_owner_new_spec:
  assumes ok: "counted S W s" and v: "bs_services s p = Some v"
  shows "returns (bus_owner_new p conn flags s) (\<lambda>(r, s').
    bs_services s' = bs_services s \<and> bs_hash s' = bs_hash s \<and> bs_hooks s' = bs_hooks s \<and>
    (case r of
       None \<Rightarrow> counted S W s' \<and> bs_owners s' = bs_owners s
     | Some w \<Rightarrow> counted S (add_mset w W) s' \<and> w = bs_fresh s \<and>
         bs_owners s' = (bs_owners s)(w \<mapsto> fresh_owner p conn flags 1)))"
proof -
  have *: "returns (bus_owner_new p conn flags s) (\<lambda>(r, s'). P r s')"
    if none: "\<And>m. P None (s\<lparr>bs_mem := m\<rparr>)"
      and some: "\<And>m. P (Some (bs_fresh s)) (set_owner (bs_fresh s) (fresh_owner p conn flags 1)
        (bus_connection_add_owned_service_link conn p (s\<lparr>bs_mem := m\<rparr>)\<lparr>bs_fresh := bs_fresh s + 1\<rparr>))" for P
    using none some unfolding bus_owner_new_def
    by (intro returns_rules) (auto simp: Let_def bus_owner_set_flags_def set_owner_def fresh_owner_def)
  have "counted S (add_mset (bs_fresh s) W) (set_owner (bs_fresh s) (fresh_owner p conn flags 1)
      (bus_connection_add_owned_service_link conn p (s\<lparr>bs_mem := m\<rparr>)\<lparr>bs_fresh := bs_fresh s + 1\<rparr>))" for m
    using counted_new_owner [of S W "s\<lparr>bs_mem := m\<rparr>" p v "fresh_owner p conn flags 1"] ok v by simp
  then show ?thesis by (intro *) (use ok in simp_all)
qed

text \<open>
  References held by the code and by the hooks, and the hooks' own condition: what holds between the
  operations of a transaction.
\<close>

definition bus_ok :: "service_ptr multiset \<Rightarrow> owner_ptr multiset \<Rightarrow> bus \<Rightarrow> bool" where
  "bus_ok S W s \<longleftrightarrow> counted (S + hook_services s) (W + hook_owners s) s \<and> hooks_ok s"

lemma hooks_ok_other [simp]:
  "hooks_ok (s\<lparr>bs_mem := m\<rparr>) = hooks_ok s"
  "hooks_ok (s\<lparr>bs_signals := g\<rparr>) = hooks_ok s"
  "hooks_ok (s\<lparr>bs_hash := H\<rparr>) = hooks_ok s"
  "hooks_ok (set_service p v s) = hooks_ok s"
  by (simp_all add: hooks_ok_def)

lemma bus_ok_other [simp]:
  "bus_ok S W (s\<lparr>bs_mem := m\<rparr>) = bus_ok S W s"
  "bus_ok S W (s\<lparr>bs_signals := g\<rparr>) = bus_ok S W s"
  by (simp_all add: bus_ok_def hooks_ok_def)

lemma bus_ok_counted: "bus_ok S W s \<Longrightarrow> counted (S + hook_services s) (W + hook_owners s) s"
  by (simp add: bus_ok_def)

text \<open>Owners whose service and place do not change stay good for the hooks.\<close>

lemma hooks_ok_cong:
  assumes "hooks_ok s" "bs_hooks s' = bs_hooks s"
    and "\<And>w x. bs_owners s w = Some x \<Longrightarrow> w \<in># hook_owners s \<Longrightarrow>
      \<exists>y. bs_owners s' w = Some y \<and> ow_service y = ow_service x"
  shows "hooks_ok s'"
  using assms unfolding hooks_ok_def by fastforce

lemma add_cancel_ownership_spec:
  assumes ok: "bus_ok S W s" and v: "bs_services s p = Some v" and x: "bs_owners s w = Some x" "ow_service x = p"
  shows "returns (add_cancel_ownership_to_transaction p w s) (\<lambda>(ok, s'). bus_ok S W s' \<and> bs_hash s' = bs_hash s \<and>
    (if ok then bs_services s' = (bs_services s)(p \<mapsto> v\<lparr>sv_refcount := sv_refcount v + 1\<rparr>) \<and>
        bs_owners s' = (bs_owners s)(w \<mapsto> x\<lparr>ow_refcount := ow_refcount x + 1\<rparr>) \<and>
        bs_hooks s' = CancelOwnership p w # bs_hooks s
     else bs_services s' = bs_services s \<and> bs_owners s' = bs_owners s \<and> bs_hooks s' = bs_hooks s))"
proof -
  let ?S = "S + hook_services s" and ?W = "W + hook_owners s"
  have c: "counted ?S ?W (s\<lparr>bs_mem := m, bs_hooks := h\<rparr>)" for m h using ok by (simp add: bus_ok_def)
  have "returns (do { s \<leftarrow> bus_service_ref p (s\<lparr>bs_mem := m, bs_hooks := CancelOwnership p w # bs_hooks s\<rparr>);
      s \<leftarrow> bus_owner_ref w s; Some (True, s) })
    (\<lambda>(ok, s'). ok \<and> bus_ok S W s' \<and> bs_hash s' = bs_hash s \<and>
        bs_services s' = (bs_services s)(p \<mapsto> v\<lparr>sv_refcount := sv_refcount v + 1\<rparr>) \<and>
        bs_owners s' = (bs_owners s)(w \<mapsto> x\<lparr>ow_refcount := ow_refcount x + 1\<rparr>) \<and>
        bs_hooks s' = CancelOwnership p w # bs_hooks s)" for m
  proof (rule returns_bindI [OF bus_service_ref_spec [OF c, where p = p and v = v]])
    show "bs_services (s\<lparr>bs_mem := m, bs_hooks := CancelOwnership p w # bs_hooks s\<rparr>) p = Some v" using v by simp
    fix s1
    assume 1: "counted (add_mset p ?S) ?W s1 \<and> s1 = set_service p (v\<lparr>sv_refcount := sv_refcount v + 1\<rparr>)
      (s\<lparr>bs_mem := m, bs_hooks := CancelOwnership p w # bs_hooks s\<rparr>)"
    then have "returns (bus_owner_ref w s1) (\<lambda>s'. counted (add_mset p ?S) (add_mset w ?W) s' \<and>
        s' = set_owner w (x\<lparr>ow_refcount := ow_refcount x + 1\<rparr>) s1)"
      using x by (intro bus_owner_ref_spec) auto
    then show "returns (do { s \<leftarrow> bus_owner_ref w s1; Some (True, s) })
      (\<lambda>(ok, s'). ok \<and> bus_ok S W s' \<and> bs_hash s' = bs_hash s \<and>
        bs_services s' = (bs_services s)(p \<mapsto> v\<lparr>sv_refcount := sv_refcount v + 1\<rparr>) \<and>
        bs_owners s' = (bs_owners s)(w \<mapsto> x\<lparr>ow_refcount := ow_refcount x + 1\<rparr>) \<and>
        bs_hooks s' = CancelOwnership p w # bs_hooks s)"
      by (rule returns_bindI) (use 1 ok x in \<open>auto simp: bus_ok_def hooks_ok_def\<close>)
  qed
  note core = this
  show ?thesis
    unfolding add_cancel_ownership_to_transaction_def
    by (intro returns_rules) (use ok in \<open>auto intro!: returns_mono [OF core]\<close>)
qed

lemma bus_owner_unref_ok:
  assumes ok: "bus_ok S (add_mset w W) s"
  shows "returns (bus_owner_unref w s) (\<lambda>s'. bus_ok S W s' \<and>
    bs_services s' = bs_services s \<and> bs_hash s' = bs_hash s \<and> bs_hooks s' = bs_hooks s \<and>
    (\<forall>u. u \<noteq> w \<longrightarrow> bs_owners s' u = bs_owners s u) \<and>
    (\<forall>x. bs_owners s w = Some x \<longrightarrow> listed s (ow_service x) w \<or> w \<in># W + hook_owners s \<longrightarrow>
       bs_owners s' w = Some (x\<lparr>ow_refcount := ow_refcount x - 1\<rparr>)))"
proof -
  have c: "counted (S + hook_services s) (add_mset w (W + hook_owners s)) s"
    using ok by (simp add: bus_ok_def)
  show ?thesis
  proof (rule returns_mono [OF bus_owner_unref_spec [OF c]])
    fix s'
    assume *: "counted (S + hook_services s) (W + hook_owners s) s' \<and>
      bs_services s' = bs_services s \<and> bs_hash s' = bs_hash s \<and> bs_hooks s' = bs_hooks s \<and>
      (\<forall>u. u \<noteq> w \<longrightarrow> bs_owners s' u = bs_owners s u) \<and>
      (\<forall>x. bs_owners s w = Some x \<longrightarrow> listed s (ow_service x) w \<or> w \<in># W + hook_owners s \<longrightarrow>
         bs_owners s' w = Some (x\<lparr>ow_refcount := ow_refcount x - 1\<rparr>))"
    have "hooks_ok s'"
    proof (rule hooks_ok_cong)
      show "hooks_ok s" using ok by (simp add: bus_ok_def)
      show "bs_hooks s' = bs_hooks s" using * by blast
      fix u x assume "bs_owners s u = Some x" "u \<in># hook_owners s"
      then show "\<exists>y. bs_owners s' u = Some y \<and> ow_service y = ow_service x"
        using * by (cases "u = w") auto
    qed
    with * show "bus_ok S W s' \<and> bs_services s' = bs_services s \<and> bs_hash s' = bs_hash s \<and>
      bs_hooks s' = bs_hooks s \<and> (\<forall>u. u \<noteq> w \<longrightarrow> bs_owners s' u = bs_owners s u) \<and>
      (\<forall>x. bs_owners s w = Some x \<longrightarrow> listed s (ow_service x) w \<or> w \<in># W + hook_owners s \<longrightarrow>
         bs_owners s' w = Some (x\<lparr>ow_refcount := ow_refcount x - 1\<rparr>))"
      by (simp add: bus_ok_def)
  qed
qed

text \<open>Changing the list of owners of a service.\<close>

lemma set_owners_ok:
  assumes ok: "bus_ok S W s" and v: "bs_services s p = Some v"
    and ws: "distinct ws" "inj_on (conn_of s) (set ws)"
      "\<And>w. w \<in> set ws \<Longrightarrow> \<exists>x. bs_owners s w = Some x \<and> ow_service x = p"
    and W': "\<And>w. count W' w + of_bool (w \<in> set ws) = count W w + of_bool (w \<in> set (sv_owners v))"
  shows "returns (set_owners p ws s) (\<lambda>s'. bus_ok S W' s' \<and> s' = set_service p (v\<lparr>sv_owners := ws\<rparr>) s)"
proof -
  have "counted (S + hook_services s) (W' + hook_owners s) (set_service p (v\<lparr>sv_owners := ws\<rparr>) s)"
    using counted_serviceD(2,3) [OF bus_ok_counted [OF ok] v] ws W'
    by (intro counted_set_service [OF bus_ok_counted [OF ok] v]) simp_all
  then show ?thesis using ok by (simp add: set_owners_def v bus_ok_def hooks_ok_def)
qed

text \<open>Taking an owner out of the list and dropping the list's reference, as three operations do.\<close>

lemma drop_owner_ok:
  assumes ok: "bus_ok S W s" and v: "bs_services s p = Some v" and w: "w \<in> set (sv_owners v)"
    and ws: "distinct ws" "set ws = set (sv_owners v) - {w}"
  shows "returns (do { s \<leftarrow> set_owners p ws s; bus_owner_unref w s }) (\<lambda>s'. bus_ok S W s' \<and>
    bs_services s' = (bs_services s)(p \<mapsto> v\<lparr>sv_owners := ws\<rparr>) \<and>
    bs_hash s' = bs_hash s \<and> bs_hooks s' = bs_hooks s \<and>
    (\<forall>u. u \<noteq> w \<longrightarrow> bs_owners s' u = bs_owners s u) \<and>
    (\<forall>x. bs_owners s w = Some x \<longrightarrow> w \<in># W + hook_owners s \<longrightarrow>
       bs_owners s' w = Some (x\<lparr>ow_refcount := ow_refcount x - 1\<rparr>)))"
proof -
  note D = counted_serviceD [OF bus_ok_counted [OF ok] v]
  have "returns (set_owners p ws s) (\<lambda>s'. bus_ok S (add_mset w W) s' \<and>
      s' = set_service p (v\<lparr>sv_owners := ws\<rparr>) s)"
  proof (rule set_owners_ok [OF ok v ws(1)])
    show "inj_on (conn_of s) (set ws)" using D(5) ws(2) by (auto intro: inj_on_subset)
    show "\<exists>x. bs_owners s u = Some x \<and> ow_service x = p" if "u \<in> set ws" for u
      using D(6) ws(2) that by auto
    show "count (add_mset w W) u + of_bool (u \<in> set ws) = count W u + of_bool (u \<in> set (sv_owners v))" for u
      using w ws(2) by auto
  qed
  then show ?thesis
  proof (rule returns_bindI)
    fix s1 assume 1: "bus_ok S (add_mset w W) s1 \<and> s1 = set_service p (v\<lparr>sv_owners := ws\<rparr>) s"
    then have "bus_ok S (add_mset w W) s1" ..
    from bus_owner_unref_ok [OF this] 1
    show "returns (bus_owner_unref w s1) (\<lambda>s'. bus_ok S W s' \<and>
      bs_services s' = (bs_services s)(p \<mapsto> v\<lparr>sv_owners := ws\<rparr>) \<and>
      bs_hash s' = bs_hash s \<and> bs_hooks s' = bs_hooks s \<and>
      (\<forall>u. u \<noteq> w \<longrightarrow> bs_owners s' u = bs_owners s u) \<and>
      (\<forall>x. bs_owners s w = Some x \<longrightarrow> w \<in># W + hook_owners s \<longrightarrow>
         bs_owners s' w = Some (x\<lparr>ow_refcount := ow_refcount x - 1\<rparr>)))"
      by (elim returns_mono) simp
  qed
qed

lemma unlink_owner_ok:
  assumes ok: "bus_ok S W s" and v: "bs_services s p = Some v" and w: "w \<in> set (sv_owners v)"
  shows "returns (bus_service_unlink_owner p w s) (\<lambda>s'. bus_ok S W s' \<and>
    bs_services s' = (bs_services s)(p \<mapsto> v\<lparr>sv_owners := remove_last w (sv_owners v)\<rparr>) \<and>
    bs_hash s' = bs_hash s \<and> bs_hooks s' = bs_hooks s \<and>
    (\<forall>u. u \<noteq> w \<longrightarrow> bs_owners s' u = bs_owners s u) \<and>
    (\<forall>x. bs_owners s w = Some x \<longrightarrow> w \<in># W + hook_owners s \<longrightarrow>
       bs_owners s' w = Some (x\<lparr>ow_refcount := ow_refcount x - 1\<rparr>)))"
proof -
  have "distinct (sv_owners v)" using counted_serviceD(4) [OF bus_ok_counted [OF ok] v] .
  then show ?thesis
    unfolding bus_service_unlink_owner_def v Option.bind.bind_lunit
    by (intro drop_owner_ok [OF ok v w]) (simp_all add: set_remove_last remove_last_def)
qed

section \<open>The queue of owners\<close>

type_synonym queue_entry = "connection \<times> bool \<times> bool"

text \<open>
  A name's queue: per owner its connection, whether it allows to be replaced, and whether it wants
  to stay in the queue when replaced. The first entry is the primary owner.
\<close>

definition entry :: "bus \<Rightarrow> owner_ptr \<Rightarrow> queue_entry" where
  "entry s w = (case bs_owners s w of
     Some x \<Rightarrow> (ow_conn x, ow_allow_replacement x, ow_do_not_queue x) | None \<Rightarrow> (0, False, False))"

definition queue_of :: "bus \<Rightarrow> service_ptr \<Rightarrow> queue_entry list" where
  "queue_of s p = (case bs_services s p of Some v \<Rightarrow> map (entry s) (sv_owners v) | None \<Rightarrow> [])"

definition flag_entry :: "connection \<Rightarrow> 32 word \<Rightarrow> queue_entry" where
  "flag_entry conn flags = (conn, has_flag flags ALLOW_REPLACEMENT, has_flag flags DO_NOT_QUEUE)"

text \<open>Queueing a connection behind the primary owner when it wants to replace it, at the end otherwise.\<close>

definition enqueue :: "bool \<Rightarrow> queue_entry \<Rightarrow> queue_entry list \<Rightarrow> queue_entry list" where
  "enqueue replace e q =
     (if fst e \<in> fst ` set q then
        if replace then insert_second e (filter (\<lambda>x. fst x \<noteq> fst e) q)
        else map (\<lambda>x. if fst x = fst e then e else x) q
      else if replace \<and> q \<noteq> [] then insert_second e q else q @ [e])"

lemma fst_entry [simp]: "fst (entry s w) = conn_of s w"
  by (simp add: entry_def conn_of_def split: option.split)

lemma entry_cong: "bs_owners s' w = bs_owners s w \<Longrightarrow> entry s' w = entry s w"
  by (simp add: entry_def)

lemma fst_flag_entry [simp]: "fst (flag_entry conn flags) = conn"
  by (simp add: flag_entry_def)

lemma entry_other [simp]:
  "entry (s\<lparr>bs_mem := m\<rparr>) = entry s"
  "entry (s\<lparr>bs_signals := g\<rparr>) = entry s"
  "entry (s\<lparr>bs_hash := H\<rparr>) = entry s"
  "entry (set_service p v s) = entry s"
  by (simp_all add: entry_def fun_eq_iff)

lemma queue_of_other [simp]:
  "queue_of (s\<lparr>bs_mem := m\<rparr>) = queue_of s"
  "queue_of (s\<lparr>bs_signals := g\<rparr>) = queue_of s"
  "queue_of (s\<lparr>bs_hash := H\<rparr>) = queue_of s"
  by (simp_all add: queue_of_def fun_eq_iff split: option.split)

lemma queue_of_Some: "bs_services s p = Some v \<Longrightarrow> queue_of s p = map (entry s) (sv_owners v)"
  by (simp add: queue_of_def)

lemma map_insert_second: "map f (insert_second x xs) = insert_second (f x) (map f xs)"
  by (cases xs) simp_all

lemma set_insert_second [simp]: "set (insert_second x xs) = insert x (set xs)"
  by (cases xs) auto

lemma distinct_insert_second [simp]: "distinct (insert_second x xs) \<longleftrightarrow> x \<notin> set xs \<and> distinct xs"
  by (cases xs) auto

lemma hd_insert_second [simp]: "xs \<noteq> [] \<Longrightarrow> hd (insert_second x xs) = hd xs"
  by (cases xs) auto

lemma insert_second_not_Nil [simp]: "insert_second x xs \<noteq> []"
  by (cases xs) auto

lemma find_owner_loop_eq:
  "\<forall>w\<in>set ws. \<exists>x. bs_owners s w = Some x \<Longrightarrow>
   find_owner_loop (bs_owners s) ws conn = Some (List.find (\<lambda>w. conn_of s w = conn) ws)"
  by (induction ws) (auto simp: conn_of_def)

lemma find_owner_link_eq:
  assumes "bus_ok S W s" "bs_services s p = Some v"
  shows "bus_service_find_owner_link p conn s = Some (List.find (\<lambda>w. conn_of s w = conn) (sv_owners v))"
  using counted_serviceD(6) [OF bus_ok_counted [OF assms(1)] assms(2)] assms(2)
  by (auto simp: bus_service_find_owner_link_def intro!: find_owner_loop_eq)

lemma find_NoneD: "List.find P xs = None \<Longrightarrow> \<forall>x\<in>set xs. \<not> P x"
  by (simp add: find_None_iff)

lemma find_SomeD: "List.find P xs = Some x \<Longrightarrow> x \<in> set xs \<and> P x"
  by (auto simp: find_Some_iff)

text \<open>Removing the one owner with a connection, seen on the queue.\<close>

lemma map_entry_remove:
  assumes "distinct ws" "inj_on (conn_of s) (set ws)" "w \<in> set ws"
  shows "map (entry s) (remove1 w ws) = filter (\<lambda>x. fst x \<noteq> conn_of s w) (map (entry s) ws)"
proof -
  have "filter (\<lambda>u. conn_of s u \<noteq> conn_of s w) ws = filter (\<lambda>u. u \<noteq> w) ws"
    using assms(2,3) by (auto intro!: filter_cong dest: inj_onD)
  then show ?thesis using assms(1)
    by (simp add: filter_map o_def distinct_remove1_removeAll removeAll_filter_not_eq) (metis (mono_tags, lifting) filter_cong)
qed

lemma bus_ok_serviceD:
  assumes "bus_ok S W s" "bs_services s p = Some v"
  shows "distinct (sv_owners v)" "inj_on (conn_of s) (set (sv_owners v))"
    "\<And>w. w \<in> set (sv_owners v) \<Longrightarrow> \<exists>x. bs_owners s w = Some x \<and> ow_service x = p"
  using counted_serviceD(4-6) [OF bus_ok_counted [OF assms(1)] assms(2)] by blast+

lemma conn_of_Some: "bs_owners s w = Some x \<Longrightarrow> conn_of s w = ow_conn x"
  by (simp add: conn_of_def)

text \<open>What \<open>bus_service_add_owner\<close> leaves when it succeeds and when it fails.\<close>

definition add_owner_post ::
    "service_ptr multiset \<Rightarrow> owner_ptr multiset \<Rightarrow> service_ptr \<Rightarrow> bus_service \<Rightarrow> connection \<Rightarrow> 32 word \<Rightarrow> bus \<Rightarrow>
     bus_error option \<Rightarrow> bus \<Rightarrow> bool" where
  "add_owner_post S W p v conn flags s r s' \<longleftrightarrow>
     bus_ok S W s' \<and> keeps p s s' \<and> bs_hash s' = bs_hash s \<and>
     (\<exists>v'. bs_services s' p = Some v' \<and> sv_name v' = sv_name v \<and>
       (if bs_hooks s' = bs_hooks s then sv_owners v = [] \<longrightarrow> r \<noteq> None
        else r = None \<and> (\<exists>w\<in>set (sv_owners v'). bs_hooks s' = CancelOwnership p w # bs_hooks s)) \<and>
       (sv_owners v \<noteq> [] \<longrightarrow> sv_owners v' \<noteq> [] \<and> hd (sv_owners v') = hd (sv_owners v)) \<and>
       (r \<noteq> None \<longrightarrow> sv_owners v' = sv_owners v \<and> queue_of s' p = queue_of s p) \<and>
       (r = None \<longrightarrow>
          queue_of s' p = enqueue (has_flag flags REPLACE_EXISTING) (flag_entry conn flags) (queue_of s p)))"

lemma add_owner_post_other [simp]:
  "add_owner_post S W p v conn flags (s\<lparr>bs_mem := m\<rparr>) = add_owner_post S W p v conn flags s"
  "add_owner_post S W p v conn flags (s\<lparr>bs_signals := g\<rparr>) = add_owner_post S W p v conn flags s"
  by (simp_all add: add_owner_post_def keeps_def fun_eq_iff)

text \<open>A failure that changed no object that counts.\<close>

lemma add_owner_post_failI:
  assumes "bus_ok S W s'" "bs_services s' = bs_services s" "bs_services s p = Some v" "bs_hash s' = bs_hash s"
    and "bs_hooks s' = bs_hooks s"
    and "\<And>w x. bs_owners s w = Some x \<Longrightarrow> bs_owners s' w = Some x"
    and "\<And>w. w \<in> set (sv_owners v) \<Longrightarrow> \<exists>x. bs_owners s w = Some x"
  shows "add_owner_post S W p v conn flags s (Some e) s'"
proof -
  have "entry s' w = entry s w" if "w \<in> set (sv_owners v)" for w
    using assms(6,7) that by (fastforce simp: entry_def)
  then show ?thesis
    using assms by (simp add: add_owner_post_def keeps_def queue_of_def)
qed

text \<open>The branch for a connection that is in the queue already.\<close>

lemma add_owner_again:
  assumes ok: "bus_ok S W s" and v: "bs_services s p = Some v"
    and w: "w \<in> set (sv_owners v)" "conn_of s w = conn"
    and primary: "sv_owners v \<noteq> [] \<Longrightarrow> conn_of s (hd (sv_owners v)) \<noteq> conn"
  shows "returns (do { s \<leftarrow> (if has_flag flags REPLACE_EXISTING then
                     if remove1 w (sv_owners v) = [] then None
                     else set_owners p (insert_second w (remove1 w (sv_owners v))) s
                   else Some s);
             s \<leftarrow> bus_owner_set_flags w flags s;
             Some (None, s) }) (\<lambda>(r, s'). r = None \<and> add_owner_post S W p v conn flags s r s')"
proof -
  let ?repl = "has_flag flags REPLACE_EXISTING"
  let ?ws = "if ?repl then insert_second w (remove1 w (sv_owners v)) else sv_owners v"
  note D = bus_ok_serviceD [OF ok v]
  obtain x where x: "bs_owners s w = Some x" "ow_service x = p" using D(3) [OF w(1)] by blast
  obtain u us where us: "sv_owners v = u # us" "u \<noteq> w"
    using w primary by (cases "sv_owners v") auto
  then have ws: "set ?ws = set (sv_owners v)" "distinct ?ws" "hd ?ws = u" "?ws \<noteq> []"
    using w D(1) by auto
  define f where "f = flag_entry conn flags"
  have new: "map (\<lambda>y. if y = w then f else entry s y) ?ws = enqueue ?repl f (queue_of s p)"
  proof -
    have mem: "fst f \<in> fst ` set (queue_of s p)"
      using w v by (auto simp: f_def queue_of_def intro: image_eqI [where x = "entry s w"])
    have eq: "(fst (entry s y) = fst f) = (y = w)" if "y \<in> set (sv_owners v)" for y
      using that w D(2) by (auto simp: f_def dest: inj_onD)
    show ?thesis
    proof (cases ?repl)
      case True
      have "map (\<lambda>y. if y = w then f else entry s y) (remove1 w (sv_owners v)) = map (entry s) (remove1 w (sv_owners v))"
        using D(1) by auto
      also have "\<dots> = filter (\<lambda>y. fst y \<noteq> fst f) (queue_of s p)"
        using map_entry_remove [OF D(1,2) w(1)] w(2) by (simp add: queue_of_Some [OF v] f_def)
      finally show ?thesis using True mem by (simp add: enqueue_def map_insert_second)
    next
      case False
      then show ?thesis using mem eq by (auto simp: enqueue_def queue_of_Some [OF v])
    qed
  qed
  have 1: "returns (if ?repl then if remove1 w (sv_owners v) = [] then None
      else set_owners p (insert_second w (remove1 w (sv_owners v))) s else Some s)
    (\<lambda>s'. bus_ok S W s' \<and> s' = set_service p (v\<lparr>sv_owners := ?ws\<rparr>) s)"
  proof (cases ?repl)
    case True
    have "remove1 w (sv_owners v) \<noteq> []" using us by simp
    moreover have "returns (set_owners p ?ws s) (\<lambda>s'. bus_ok S W s' \<and> s' = set_service p (v\<lparr>sv_owners := ?ws\<rparr>) s)"
      by (rule set_owners_ok [OF ok v ws(2)], unfold ws(1)) (use D(2,3) in auto)
    ultimately show ?thesis using True by simp
  next
    case False
    have "set_service p v s = s" using v by (simp add: set_service_def fun_upd_idem)
    with False ok show ?thesis by simp
  qed
  then show ?thesis
  proof (rule returns_bindI)
    fix s1 assume s1: "bus_ok S W s1 \<and> s1 = set_service p (v\<lparr>sv_owners := ?ws\<rparr>) s"
    let ?x = "x\<lparr>ow_allow_replacement := has_flag flags ALLOW_REPLACEMENT, ow_do_not_queue := has_flag flags DO_NOT_QUEUE\<rparr>"
    have x1: "bs_owners s1 w = Some x" using s1 x by simp
    have "returns (bus_owner_set_flags w flags s1) (\<lambda>s'. counted (S + hook_services s1) (W + hook_owners s1) s' \<and>
        s' = set_owner w ?x s1)"
      using s1 by (intro bus_owner_set_flags_counted bus_ok_counted x1) blast
    then show "returns (do { s \<leftarrow> bus_owner_set_flags w flags s1; Some (None, s) })
      (\<lambda>(r, s'). r = None \<and> add_owner_post S W p v conn flags s r s')"
    proof (rule returns_bindI)
      fix s2 assume s2: "counted (S + hook_services s1) (W + hook_owners s1) s2 \<and> s2 = set_owner w ?x s1"
      from s1 have e1: "s1 = set_service p (v\<lparr>sv_owners := ?ws\<rparr>) s" and o1: "bus_ok S W s1" by blast+
      from s2 have e2: "s2 = set_owner w ?x s1" and c2: "counted (S + hook_services s1) (W + hook_owners s1) s2"
        by blast+
      have h2: "bs_hooks s2 = bs_hooks s1" by (simp add: e2)
      have "hooks_ok s1" using o1 by (simp add: bus_ok_def)
      then have "hooks_ok s2"
      proof (rule hooks_ok_cong [OF _ h2])
        fix u z assume "bs_owners s1 u = Some z"
        then show "\<exists>y. bs_owners s2 u = Some y \<and> ow_service y = ow_service z"
          using x1 by (cases "u = w") (simp_all add: e2)
      qed
      then have "bus_ok S W s2" using c2 unfolding bus_ok_def h2 by blast
      moreover have "keeps p s s2" unfolding e1 e2 using x by (simp add: keeps_def)
      moreover have "entry s2 y = (if y = w then f else entry s y)" for y
        unfolding e1 e2 using x w(2) by (simp add: entry_def f_def flag_entry_def conn_of_Some)
      then have "queue_of s2 p = map (\<lambda>y. if y = w then f else entry s y) ?ws"
        by (simp add: queue_of_def e1 e2)
      then have "queue_of s2 p = enqueue ?repl f (queue_of s p)" unfolding new .
      ultimately have "add_owner_post S W p v conn flags s None s2"
        using ws us by (simp add: add_owner_post_def f_def e1 e2)
      then show "returns (Some (None, s2)) (\<lambda>(r, s'). r = None \<and> add_owner_post S W p v conn flags s r s')"
        by simp
    qed
  qed
qed

text \<open>The branch for a connection that is not in the queue.\<close>

definition placed :: "32 word \<Rightarrow> owner_ptr \<Rightarrow> owner_ptr list \<Rightarrow> owner_ptr list" where
  "placed flags w ws =
     (if \<not> has_flag flags REPLACE_EXISTING \<or> ws = [] then ws @ [w] else insert_second w ws)"

lemma placed_simps [simp]:
  "set (placed flags w ws) = insert w (set ws)"
  "distinct (placed flags w ws) \<longleftrightarrow> w \<notin> set ws \<and> distinct ws"
  "placed flags w ws \<noteq> []"
  "ws \<noteq> [] \<Longrightarrow> hd (placed flags w ws) = hd ws"
  by (auto simp: placed_def)

lemma remove_last_placed: "w \<notin> set ws \<Longrightarrow> remove_last w (placed flags w ws) = ws"
  by (cases ws) (auto simp: placed_def remove_last_def remove1_append remove1_idem)

lemma set_flags_fresh_owner:
  "bs_owners s w = Some (fresh_owner p conn flags n) \<Longrightarrow> bus_owner_set_flags w flags s = Some s"
  by (simp add: bus_owner_set_flags_def set_owner_def fun_upd_idem fresh_owner_def)

lemma entry_fresh_owner: "bs_owners s w = Some (fresh_owner p conn flags n) \<Longrightarrow> entry s w = flag_entry conn flags"
  by (simp add: entry_def flag_entry_def)

text \<open>From the state in which the new owner exists, referred to by the running code only.\<close>

lemma add_owner_link:
  assumes ok: "bus_ok S (add_mset w W) s1" and v: "bs_services s1 p = Some v"
    and x: "bs_owners s1 w = Some (fresh_owner p conn flags 1)"
    and nin: "w \<notin> set (sv_owners v)" and conn: "conn \<notin> conn_of s1 ` set (sv_owners v)"
  shows "returns (do {
           s \<leftarrow> set_owners p (placed flags w (sv_owners v)) s1;
           (ok, s) \<leftarrow> add_cancel_ownership_to_transaction p w s;
           if \<not> ok then do { s \<leftarrow> bus_service_unlink_owner p w s; Some (Some NO_MEMORY, s) }
           else Some (None, s) })
    (\<lambda>(r, s'). bus_ok S W s' \<and> bs_hash s' = bs_hash s1 \<and> (\<forall>u. u \<noteq> w \<longrightarrow> bs_owners s' u = bs_owners s1 u) \<and>
      (if r = None then bs_owners s' w = Some (fresh_owner p conn flags 2) \<and>
         bs_services s' = (bs_services s1)(p \<mapsto> v\<lparr>sv_owners := placed flags w (sv_owners v), sv_refcount := sv_refcount v + 1\<rparr>) \<and>
         bs_hooks s' = CancelOwnership p w # bs_hooks s1
       else bs_services s' = bs_services s1 \<and> bs_hooks s' = bs_hooks s1))"
    (is "returns _ ?Post")
proof -
  let ?ws = "placed flags w (sv_owners v)" and ?x = "fresh_owner p conn flags 1"
  note D = bus_ok_serviceD [OF ok v]
  have w: "conn_of s1 w = conn" using x by (simp add: conn_of_def)
  have "returns (set_owners p ?ws s1) (\<lambda>s'. bus_ok S W s' \<and> s' = set_service p (v\<lparr>sv_owners := ?ws\<rparr>) s1)"
  proof (rule set_owners_ok [OF ok v])
    show "distinct ?ws" using D(1) nin by simp
    show "inj_on (conn_of s1) (set ?ws)" using D(2) nin conn w by (auto simp: inj_on_insert)
    show "\<exists>x. bs_owners s1 u = Some x \<and> ow_service x = p" if "u \<in> set ?ws" for u
      using that D(3) x by auto
    show "count W u + of_bool (u \<in> set ?ws) = count (add_mset w W) u + of_bool (u \<in> set (sv_owners v))" for u
      using nin by auto
  qed
  then show ?thesis
  proof (rule returns_bindI)
    fix s2 assume "bus_ok S W s2 \<and> s2 = set_service p (v\<lparr>sv_owners := ?ws\<rparr>) s1"
    then have o2: "bus_ok S W s2" and e2: "s2 = set_service p (v\<lparr>sv_owners := ?ws\<rparr>) s1" by blast+
    have v2: "bs_services s2 p = Some (v\<lparr>sv_owners := ?ws\<rparr>)" and x2: "bs_owners s2 w = Some ?x" by (simp_all add: e2 x)
    from add_cancel_ownership_spec [OF o2 v2 x2 fresh_owner_simps(2)]
    have "returns (add_cancel_ownership_to_transaction p w s2) (\<lambda>(ok, s'). bus_ok S W s' \<and> bs_hash s' = bs_hash s2 \<and>
      (if ok then bs_services s' = (bs_services s2)(p \<mapsto> v\<lparr>sv_owners := ?ws, sv_refcount := sv_refcount v + 1\<rparr>) \<and>
          bs_owners s' = (bs_owners s2)(w \<mapsto> fresh_owner p conn flags 2) \<and>
          bs_hooks s' = CancelOwnership p w # bs_hooks s2
       else bs_services s' = bs_services s2 \<and> bs_owners s' = bs_owners s2 \<and> bs_hooks s' = bs_hooks s2))"
      by (elim returns_mono) (auto simp: fresh_owner_def split: if_splits)
    then show "returns (do { (ok, s) \<leftarrow> add_cancel_ownership_to_transaction p w s2;
           if \<not> ok then do { s \<leftarrow> bus_service_unlink_owner p w s; Some (Some NO_MEMORY, s) }
           else Some (None, s) }) ?Post"
    proof (rule returns_bindI)
      fix r
      assume r: "case r of (ok, s') \<Rightarrow> bus_ok S W s' \<and> bs_hash s' = bs_hash s2 \<and>
        (if ok then bs_services s' = (bs_services s2)(p \<mapsto> v\<lparr>sv_owners := ?ws, sv_refcount := sv_refcount v + 1\<rparr>) \<and>
            bs_owners s' = (bs_owners s2)(w \<mapsto> fresh_owner p conn flags 2) \<and>
            bs_hooks s' = CancelOwnership p w # bs_hooks s2
         else bs_services s' = bs_services s2 \<and> bs_owners s' = bs_owners s2 \<and> bs_hooks s' = bs_hooks s2)"
      obtain ok s3 where r3: "r = (ok, s3)" by fastforce
      show "returns (case r of (ok, s) \<Rightarrow>
          if \<not> ok then do { s \<leftarrow> bus_service_unlink_owner p w s; Some (Some NO_MEMORY, s) } else Some (None, s)) ?Post"
      proof (cases ok)
        case True
        then show ?thesis using r by (simp add: r3 e2)
      next
        case False
        with r have 3: "bus_ok S W s3" "bs_hash s3 = bs_hash s2" "bs_services s3 = bs_services s2"
          "bs_owners s3 = bs_owners s2" "bs_hooks s3 = bs_hooks s2" by (simp_all add: r3)
        have v3: "bs_services s3 p = Some (v\<lparr>sv_owners := ?ws\<rparr>)" using 3 v2 by simp
        have "returns (bus_service_unlink_owner p w s3) (\<lambda>s'. bus_ok S W s' \<and> bs_services s' = bs_services s1 \<and>
            bs_hooks s' = bs_hooks s1 \<and> bs_hash s' = bs_hash s1 \<and> (\<forall>u. u \<noteq> w \<longrightarrow> bs_owners s' u = bs_owners s1 u))"
          by (rule returns_mono [OF unlink_owner_ok [OF 3(1) v3, of w]])
            (auto simp: 3 e2 remove_last_placed [OF nin] fun_upd_idem v)
        then have "returns (do { s \<leftarrow> bus_service_unlink_owner p w s3; Some (Some NO_MEMORY, s) }) ?Post"
          by (rule returns_bindI) simp
        then show ?thesis using False by (simp add: r3)
      qed
    qed
  qed
qed

lemma add_owner_fresh:
  assumes ok: "bus_ok S W s" and v: "bs_services s p = Some v"
    and conn: "conn \<notin> conn_of s ` set (sv_owners v)"
  shows "returns (do {
             (w, s) \<leftarrow> bus_owner_new p conn flags s;
             case w of
               None \<Rightarrow> Some (Some NO_MEMORY, s)
             | Some w \<Rightarrow> do {
                 s \<leftarrow> bus_owner_set_flags w flags s;
                 let (ok, s) = try_alloc s;
                 if \<not> ok then do { s \<leftarrow> bus_owner_unref w s; Some (Some NO_MEMORY, s) }
                 else do {
                   s \<leftarrow> set_owners p (placed flags w (sv_owners v)) s;
                   (ok, s) \<leftarrow> add_cancel_ownership_to_transaction p w s;
                   if \<not> ok then do { s \<leftarrow> bus_service_unlink_owner p w s; Some (Some NO_MEMORY, s) }
                   else Some (None, s) } } })
    (\<lambda>(r, s'). add_owner_post S W p v conn flags s r s')"
    (is "returns _ ?Post")
proof -
  note c = bus_ok_counted [OF ok]
  note D = bus_ok_serviceD [OF ok v]
  show ?thesis
  proof (rule returns_bindI [OF bus_owner_new_spec [OF c v]], clarify)
    fix r s1
    assume s1: "bs_services s1 = bs_services s" "bs_hash s1 = bs_hash s" "bs_hooks s1 = bs_hooks s"
      and r: "case r of None \<Rightarrow> counted (S + hook_services s) (W + hook_owners s) s1 \<and> bs_owners s1 = bs_owners s
        | Some w \<Rightarrow> counted (S + hook_services s) (add_mset w (W + hook_owners s)) s1 \<and> w = bs_fresh s \<and>
          bs_owners s1 = (bs_owners s)(w \<mapsto> fresh_owner p conn flags 1)"
    show "returns (case r of None \<Rightarrow> Some (Some NO_MEMORY, s1)
             | Some w \<Rightarrow> do {
                 s \<leftarrow> bus_owner_set_flags w flags s1;
                 let (ok, s) = try_alloc s;
                 if \<not> ok then do { s \<leftarrow> bus_owner_unref w s; Some (Some NO_MEMORY, s) }
                 else do {
                   s \<leftarrow> set_owners p (placed flags w (sv_owners v)) s;
                   (ok, s) \<leftarrow> add_cancel_ownership_to_transaction p w s;
                   if \<not> ok then do { s \<leftarrow> bus_service_unlink_owner p w s; Some (Some NO_MEMORY, s) }
                   else Some (None, s) } }) ?Post"
    proof (cases r)
      case None
      have "hooks_ok s1" using ok r None s1 by (simp add: bus_ok_def hooks_ok_def)
      then have "bus_ok S W s1" using r None s1 by (simp add: bus_ok_def)
      then have "add_owner_post S W p v conn flags s (Some NO_MEMORY) s1"
        using r None s1 v D(3) by (intro add_owner_post_failI) auto
      then show ?thesis by (simp add: None)
    next
      case (Some w)
      with r have w: "w = bs_fresh s" and o1: "bs_owners s1 = (bs_owners s)(w \<mapsto> fresh_owner p conn flags 1)"
        and c1: "counted (S + hook_services s) (add_mset w (W + hook_owners s)) s1" by auto
      have wn: "bs_owners s w = None" "w \<notin># hook_owners s" using counted_fresh [OF c] by (simp_all add: w)
      have nin: "w \<notin> set (sv_owners v)" using D(3) [of w] wn(1) by auto
      have conn1: "conn_of s1 u = conn_of s u" if "u \<noteq> w" for u using that by (simp add: conn_of_def o1)
      have "hooks_ok s1" using ok wn s1 by (auto simp: bus_ok_def hooks_ok_def o1)
      then have ok1: "bus_ok S (add_mset w W) (s1\<lparr>bs_mem := m\<rparr>)" for m using c1 s1 by (simp add: bus_ok_def)
      have x1: "bs_owners (s1\<lparr>bs_mem := m\<rparr>) w = Some (fresh_owner p conn flags 1)" for m by (simp add: o1)
      have v1: "bs_services (s1\<lparr>bs_mem := m\<rparr>) p = Some v" for m by (simp add: s1 v)
      have unref: "returns (do { s \<leftarrow> bus_owner_unref w (s1\<lparr>bs_mem := m\<rparr>); Some (Some NO_MEMORY, s) }) ?Post" for m
      proof (rule returns_bindI [OF bus_owner_unref_ok [OF ok1]])
        fix s2
        assume "bus_ok S W s2 \<and> bs_services s2 = bs_services (s1\<lparr>bs_mem := m\<rparr>) \<and> bs_hash s2 = bs_hash (s1\<lparr>bs_mem := m\<rparr>) \<and>
          bs_hooks s2 = bs_hooks (s1\<lparr>bs_mem := m\<rparr>) \<and>
          (\<forall>u. u \<noteq> w \<longrightarrow> bs_owners s2 u = bs_owners (s1\<lparr>bs_mem := m\<rparr>) u) \<and>
          (\<forall>x. bs_owners (s1\<lparr>bs_mem := m\<rparr>) w = Some x \<longrightarrow>
             listed (s1\<lparr>bs_mem := m\<rparr>) (ow_service x) w \<or> w \<in># W + hook_owners (s1\<lparr>bs_mem := m\<rparr>) \<longrightarrow>
             bs_owners s2 w = Some (x\<lparr>ow_refcount := ow_refcount x - 1\<rparr>))"
        then have 2: "bus_ok S W s2" "bs_services s2 = bs_services s" "bs_hash s2 = bs_hash s" "bs_hooks s2 = bs_hooks s"
          "\<And>u. u \<noteq> w \<Longrightarrow> bs_owners s2 u = bs_owners s u" by (simp_all add: s1 o1)
        have "add_owner_post S W p v conn flags s (Some NO_MEMORY) s2"
        proof (rule add_owner_post_failI [OF 2(1,2) v 2(3,4)])
          fix u x assume "bs_owners s u = Some x"
          then show "bs_owners s2 u = Some x" using 2(5) [of u] wn(1) by (cases "u = w") auto
        qed (use D(3) in blast)
        then show "returns (Some (Some NO_MEMORY, s2)) ?Post" by simp
      qed
      have conn': "conn \<notin> conn_of (s1\<lparr>bs_mem := m\<rparr>) ` set (sv_owners v)" for m
        using conn nin conn1 by (metis (no_types, lifting) conn_of_other(1) image_cong)
      have link: "returns (do {
                   s \<leftarrow> set_owners p (placed flags w (sv_owners v)) (s1\<lparr>bs_mem := m\<rparr>);
                   (ok, s) \<leftarrow> add_cancel_ownership_to_transaction p w s;
                   if \<not> ok then do { s \<leftarrow> bus_service_unlink_owner p w s; Some (Some NO_MEMORY, s) }
                   else Some (None, s) }) ?Post" for m
      proof (rule returns_mono [OF add_owner_link [OF ok1 v1 x1 nin conn']], clarify)
        fix e :: "bus_error option" and s2
        assume 2: "bus_ok S W s2" "bs_hash s2 = bs_hash (s1\<lparr>bs_mem := m\<rparr>)"
          "\<forall>u. u \<noteq> w \<longrightarrow> bs_owners s2 u = bs_owners (s1\<lparr>bs_mem := m\<rparr>) u"
          and e: "if e = None then bs_owners s2 w = Some (fresh_owner p conn flags 2) \<and>
             bs_services s2 = (bs_services (s1\<lparr>bs_mem := m\<rparr>))(p \<mapsto> v\<lparr>sv_owners := placed flags w (sv_owners v),
               sv_refcount := sv_refcount v + 1\<rparr>) \<and>
             bs_hooks s2 = CancelOwnership p w # bs_hooks (s1\<lparr>bs_mem := m\<rparr>)
           else bs_services s2 = bs_services (s1\<lparr>bs_mem := m\<rparr>) \<and> bs_hooks s2 = bs_hooks (s1\<lparr>bs_mem := m\<rparr>)"
        have o2: "bs_owners s2 u = bs_owners s u" if "u \<noteq> w" for u using that 2(3) by (simp add: o1)
        show "add_owner_post S W p v conn flags s e s2"
        proof (cases e)
          case (Some e')
          show ?thesis unfolding Some
          proof (rule add_owner_post_failI [OF 2(1) _ v])
            show "bs_services s2 = bs_services s" "bs_hash s2 = bs_hash s" "bs_hooks s2 = bs_hooks s" using e 2(2) by (simp_all add: Some s1)
            fix u x assume "bs_owners s u = Some x"
            then show "bs_owners s2 u = Some x" using o2 [of u] wn(1) by (cases "u = w") auto
          qed (use D(3) in blast)
        next
          case None
          have ent: "entry s2 u = entry s u" if "u \<in> set (sv_owners v)" for u
            using o2 that nin by (metis entry_cong)
          have q: "map (entry s2) (placed flags w (sv_owners v)) =
              enqueue (has_flag flags REPLACE_EXISTING) (flag_entry conn flags) (map (entry s) (sv_owners v))"
            using e None ent conn
            by (auto simp: enqueue_def placed_def map_insert_second entry_fresh_owner image_image cong: map_cong)
          have "bs_owners s2 u = Some x" if "bs_owners s u = Some x" for u x
            using o2 [of u] wn(1) that by (cases "u = w") auto
          then have "keeps p s s2" using e None by (simp add: keeps_def s1)
          then show ?thesis
            using e 2 None q nin by (simp add: add_owner_post_def queue_of_def s1 v)
        qed
      qed
      show ?thesis
        unfolding Some option.case set_flags_fresh_owner [OF x1 [of "bs_mem s1", simplified]] Option.bind.bind_lunit
        by (intro returns_try_alloc returns_if unref link)
    qed
  qed
qed

lemma bus_service_add_owner_ok:
  assumes ok: "bus_ok S W s" and v: "bs_services s p = Some v"
    and primary: "sv_owners v \<noteq> [] \<Longrightarrow> conn_of s (hd (sv_owners v)) \<noteq> conn"
  shows "returns (bus_service_add_owner p conn flags s) (\<lambda>(r, s'). add_owner_post S W p v conn flags s r s')"
proof -
  let ?F = "\<lambda>s. do {
         link \<leftarrow> bus_service_find_owner_link p conn s;
         case link of
           None \<Rightarrow> do {
             (w, s) \<leftarrow> bus_owner_new p conn flags s;
             case w of
               None \<Rightarrow> Some (Some NO_MEMORY, s)
             | Some w \<Rightarrow> do {
                 s \<leftarrow> bus_owner_set_flags w flags s;
                 let (ok, s) = try_alloc s;
                 if \<not> ok then do { s \<leftarrow> bus_owner_unref w s; Some (Some NO_MEMORY, s) }
                 else do {
                   s \<leftarrow> set_owners p (placed flags w (sv_owners v)) s;
                   (ok, s) \<leftarrow> add_cancel_ownership_to_transaction p w s;
                   if \<not> ok then do { s \<leftarrow> bus_service_unlink_owner p w s; Some (Some NO_MEMORY, s) }
                   else Some (None, s) } } }
         | Some w \<Rightarrow> do {
             s \<leftarrow> (if has_flag flags REPLACE_EXISTING then
                     if remove1 w (sv_owners v) = [] then None
                     else set_owners p (insert_second w (remove1 w (sv_owners v))) s
                   else Some s);
             s \<leftarrow> bus_owner_set_flags w flags s;
             Some (None, s) } }"
  have F: "returns (?F s0) (\<lambda>(r, s'). add_owner_post S W p v conn flags s0 r s')"
    if ok0: "bus_ok S W s0" and v0: "bs_services s0 p = Some v" and c0: "conn_of s0 = conn_of s" for s0
  proof (cases "List.find (\<lambda>w. conn_of s0 w = conn) (sv_owners v)")
    case None
    then have "conn \<notin> conn_of s0 ` set (sv_owners v)" by (auto dest: find_NoneD)
    then show ?thesis
      unfolding find_owner_link_eq [OF ok0 v0] None Option.bind.bind_lunit option.case
      by (rule add_owner_fresh [OF ok0 v0])
  next
    case (Some w)
    note w = find_SomeD [OF Some]
    have "returns (do { s \<leftarrow> (if has_flag flags REPLACE_EXISTING then
                     if remove1 w (sv_owners v) = [] then None
                     else set_owners p (insert_second w (remove1 w (sv_owners v))) s0
                   else Some s0);
             s \<leftarrow> bus_owner_set_flags w flags s;
             Some (None, s) }) (\<lambda>(r, s'). r = None \<and> add_owner_post S W p v conn flags s0 r s')"
      using w primary by (intro add_owner_again [OF ok0 v0]) (auto simp: c0)
    then show ?thesis
      unfolding find_owner_link_eq [OF ok0 v0] Some Option.bind.bind_lunit option.case
      by (rule returns_mono) auto
  qed
  have sent: "returns (?F (s\<lparr>bs_mem := m, bs_signals := g\<rparr>)) (\<lambda>(r, s'). add_owner_post S W p v conn flags s r s')" for m g
    using F [of "s\<lparr>bs_mem := m, bs_signals := g\<rparr>"] ok v by simp
  have failed: "returns (Some (Some SEND_FAILED, s\<lparr>bs_mem := m, bs_signals := g\<rparr>))
      (\<lambda>(r, s'). add_owner_post S W p v conn flags s r s')" for m g
    using ok v bus_ok_serviceD(3) [OF ok v] by (auto intro!: add_owner_post_failI)
  show ?thesis
  proof (cases "sv_owners v = []")
    case True
    show ?thesis
      unfolding bus_service_add_owner_def v Option.bind.bind_lunit placed_def [symmetric] if_P [OF True]
      by (intro returns_send returns_if sent failed)
  next
    case False
    show ?thesis
      unfolding bus_service_add_owner_def v Option.bind.bind_lunit placed_def [symmetric] if_not_P [OF False]
        Let_def prod.case not_True_eq_False if_False
      by (rule F [OF ok v refl, unfolded Let_def])
  qed
qed

section \<open>Giving up ownership\<close>

lemma bus_service_ref_ok:
  assumes ok: "bus_ok S W s" and v: "bs_services s p = Some v"
  shows "returns (bus_service_ref p s) (\<lambda>s'. bus_ok (add_mset p S) W s' \<and>
    s' = set_service p (v\<lparr>sv_refcount := sv_refcount v + 1\<rparr>) s)"
  using ok by (intro returns_mono [OF bus_service_ref_spec [OF bus_ok_counted [OF ok] v]]) (auto simp: bus_ok_def)

lemma bus_owner_ref_ok:
  assumes ok: "bus_ok S W s" and x: "bs_owners s w = Some x"
  shows "returns (bus_owner_ref w s) (\<lambda>s'. bus_ok S (add_mset w W) s' \<and>
    s' = set_owner w (x\<lparr>ow_refcount := ow_refcount x + 1\<rparr>) s)"
proof (rule returns_mono [OF bus_owner_ref_spec [OF bus_ok_counted [OF ok] x]])
  fix s'
  assume "counted (S + hook_services s) (add_mset w (W + hook_owners s)) s' \<and>
    s' = set_owner w (x\<lparr>ow_refcount := ow_refcount x + 1\<rparr>) s"
  then have s': "s' = set_owner w (x\<lparr>ow_refcount := ow_refcount x + 1\<rparr>) s"
    and c: "counted (S + hook_services s) (add_mset w (W + hook_owners s)) s'" by blast+
  have "hooks_ok s" using ok by (simp add: bus_ok_def)
  then have "hooks_ok s'" unfolding s'
  proof (rule hooks_ok_cong)
    fix u z assume "bs_owners s u = Some z"
    then show "\<exists>y. bs_owners (set_owner w (x\<lparr>ow_refcount := ow_refcount x + 1\<rparr>) s) u = Some y \<and>
        ow_service y = ow_service z"
      using x by (cases "u = w") simp_all
  qed simp
  then show "bus_ok S (add_mset w W) s' \<and> s' = set_owner w (x\<lparr>ow_refcount := ow_refcount x + 1\<rparr>) s"
    using c by (simp add: bus_ok_def s')
qed

text \<open>A service in the hash table, or one referred to elsewhere, is not freed.\<close>

lemma bus_service_unref_ok:
  assumes ok: "bus_ok (add_mset p S) W s" and v: "bs_services s p = Some v"
    and used: "p \<in># S + hook_services s \<or> bs_hash s (sv_name v) = Some p"
  shows "returns (bus_service_unref p s) (\<lambda>s'. bus_ok S W s' \<and>
    bs_owners s' = bs_owners s \<and> bs_hash s' = bs_hash s \<and> bs_hooks s' = bs_hooks s \<and>
    bs_services s' = (bs_services s)(p \<mapsto> v\<lparr>sv_refcount := sv_refcount v - 1\<rparr>))"
proof -
  have c: "counted (add_mset p (S + hook_services s)) (W + hook_owners s) s" using ok by (simp add: bus_ok_def)
  have "returns (bus_service_unref p s) (\<lambda>s'. counted (S + hook_services s) (W + hook_owners s) s' \<and>
    bs_owners s' = bs_owners s \<and> bs_hash s' = bs_hash s \<and> bs_hooks s' = bs_hooks s \<and>
    (\<forall>q. q \<noteq> p \<longrightarrow> bs_services s' q = bs_services s q) \<and>
    bs_services s' p = Some (v\<lparr>sv_refcount := sv_refcount v - 1\<rparr>))"
    using bus_service_unref_spec [OF c v] used by (auto elim!: returns_mono)
  then show ?thesis
    using ok by (elim returns_mono) (auto simp: bus_ok_def hooks_ok_def fun_eq_iff)
qed

lemma free_ownership_data_ok:
  assumes ok: "bus_ok (add_mset p S) (add_mset w W) s" and v: "bs_services s p = Some v"
    and w: "w \<in> set (sv_owners v)" "bs_owners s w = Some x" and hash: "bs_hash s (sv_name v) = Some p"
  shows "returns (free_ownership_data p w s) (\<lambda>s'. bus_ok S W s' \<and>
    bs_hash s' = bs_hash s \<and> bs_hooks s' = bs_hooks s \<and>
    bs_services s' = (bs_services s)(p \<mapsto> v\<lparr>sv_refcount := sv_refcount v - 1\<rparr>) \<and>
    bs_owners s' = (bs_owners s)(w \<mapsto> x\<lparr>ow_refcount := ow_refcount x - 1\<rparr>))"
proof -
  have l: "listed s (ow_service x) w" using bus_ok_serviceD(3) [OF ok v w(1)] v w by (auto simp: listed_def)
  show ?thesis unfolding free_ownership_data_def
  proof (rule returns_bindI [OF bus_owner_unref_ok [OF ok]])
    fix s1
    assume 1: "bus_ok (add_mset p S) W s1 \<and> bs_services s1 = bs_services s \<and> bs_hash s1 = bs_hash s \<and>
      bs_hooks s1 = bs_hooks s \<and> (\<forall>u. u \<noteq> w \<longrightarrow> bs_owners s1 u = bs_owners s u) \<and>
      (\<forall>x. bs_owners s w = Some x \<longrightarrow> listed s (ow_service x) w \<or> w \<in># W + hook_owners s \<longrightarrow>
         bs_owners s1 w = Some (x\<lparr>ow_refcount := ow_refcount x - 1\<rparr>))"
    then have o: "bs_owners s1 = (bs_owners s)(w \<mapsto> x\<lparr>ow_refcount := ow_refcount x - 1\<rparr>)"
      using w(2) l by (auto simp: fun_eq_iff)
    have "returns (bus_service_unref p s1) (\<lambda>s'. bus_ok S W s' \<and>
      bs_owners s' = bs_owners s1 \<and> bs_hash s' = bs_hash s1 \<and> bs_hooks s' = bs_hooks s1 \<and>
      bs_services s' = (bs_services s1)(p \<mapsto> v\<lparr>sv_refcount := sv_refcount v - 1\<rparr>))"
      using 1 v hash by (intro bus_service_unref_ok) auto
    then show "returns (bus_service_unref p s1) (\<lambda>s'. bus_ok S W s' \<and>
      bs_hash s' = bs_hash s \<and> bs_hooks s' = bs_hooks s \<and>
      bs_services s' = (bs_services s)(p \<mapsto> v\<lparr>sv_refcount := sv_refcount v - 1\<rparr>) \<and>
      bs_owners s' = (bs_owners s)(w \<mapsto> x\<lparr>ow_refcount := ow_refcount x - 1\<rparr>))"
      using 1 o by (elim returns_mono) simp
  qed
qed

lemma add_restore_ownership_spec:
  assumes ok: "bus_ok S W s" and v: "bs_services s p = Some v"
    and w: "w \<in> set (sv_owners v)" and x: "bs_owners s w = Some x" and hash: "bs_hash s (sv_name v) = Some p"
  shows "returns (add_restore_ownership_to_transaction p w s) (\<lambda>(ok, s'). bus_ok S W s' \<and> bs_hash s' = bs_hash s \<and>
    (if ok then bs_services s' = (bs_services s)(p \<mapsto> v\<lparr>sv_refcount := sv_refcount v + 1\<rparr>) \<and>
        bs_owners s' = (bs_owners s)(w \<mapsto> x\<lparr>ow_refcount := ow_refcount x + 1\<rparr>) \<and>
        bs_hooks s' = RestoreOwnership p w (owner_after w (sv_owners v)) True # bs_hooks s
     else bs_services s' = bs_services s \<and> bs_owners s' = bs_owners s \<and> bs_hooks s' = bs_hooks s))"
    (is "returns _ ?Post")
proof -
  have xs: "ow_service x = p" using bus_ok_serviceD(3) [OF ok v w] x by auto
  let ?v = "v\<lparr>sv_refcount := sv_refcount v + 1\<rparr>" and ?x = "x\<lparr>ow_refcount := ow_refcount x + 1\<rparr>"
  let ?h = "RestoreOwnership p w (owner_after w (sv_owners v)) True"
  have main: "returns (do {
          s \<leftarrow> bus_service_ref p (s\<lparr>bs_mem := m\<rparr>);
          s \<leftarrow> bus_owner_ref w s;
          v \<leftarrow> bs_services s p;
          let (ok, s) =
            (if links then bus_transaction_add_cancel_hook (RestoreOwnership p w (owner_after w (sv_owners v)) e) s
             else (False, s));
          if ok then Some (True, s)
          else do { s \<leftarrow> free_ownership_data p w s; Some (False, s) } }) ?Post" if "links \<Longrightarrow> e" for m links e
  proof (rule returns_bindI [OF bus_service_ref_ok [where p = p and v = v]])
    show "bus_ok S W (s\<lparr>bs_mem := m\<rparr>)" "bs_services (s\<lparr>bs_mem := m\<rparr>) p = Some v" using ok v by simp_all
    fix s1 assume "bus_ok (add_mset p S) W s1 \<and> s1 = set_service p ?v (s\<lparr>bs_mem := m\<rparr>)"
    then have ok1: "bus_ok (add_mset p S) W s1" and e1: "s1 = set_service p ?v (s\<lparr>bs_mem := m\<rparr>)" by blast+
    show "returns (do { s \<leftarrow> bus_owner_ref w s1;
          v \<leftarrow> bs_services s p;
          let (ok, s) =
            (if links then bus_transaction_add_cancel_hook (RestoreOwnership p w (owner_after w (sv_owners v)) e) s
             else (False, s));
          if ok then Some (True, s)
          else do { s \<leftarrow> free_ownership_data p w s; Some (False, s) } }) ?Post"
    proof (rule returns_bindI [OF bus_owner_ref_ok [OF ok1, of w x]])
      show "bs_owners s1 w = Some x" using x by (simp add: e1)
      fix s2 assume "bus_ok (add_mset p S) (add_mset w W) s2 \<and> s2 = set_owner w ?x s1"
      then have ok2: "bus_ok (add_mset p S) (add_mset w W) s2" and e2: "s2 = set_owner w ?x s1" by blast+
      have v2: "bs_services s2 p = Some ?v" by (simp add: e1 e2)
      have undo: "returns (do { s \<leftarrow> free_ownership_data p w (s2\<lparr>bs_mem := m\<rparr>); Some (False, s) }) ?Post" for m
        using ok2 w hash x v
        by (intro returns_bindI [OF free_ownership_data_ok [where v = ?v and x = ?x and S = S and W = W]])
          (auto simp: e1 e2 fun_upd_idem)
      from undo [of "bs_mem s2"]
      have undo': "returns (do { s \<leftarrow> free_ownership_data p w s2; Some (False, s) }) ?Post" by simp
      have set_up: "?Post (True, s2\<lparr>bs_mem := m, bs_hooks := ?h # bs_hooks s2\<rparr>)" for m
        using ok2 x xs by (auto simp: bus_ok_def hooks_ok_def e1 e2)
      have ov: "sv_owners ?v = sv_owners v" by simp
      show "returns (do { v \<leftarrow> bs_services s2 p;
          let (ok, s) =
            (if links then bus_transaction_add_cancel_hook (RestoreOwnership p w (owner_after w (sv_owners v)) e) s2
             else (False, s2));
          if ok then Some (True, s)
          else do { s \<leftarrow> free_ownership_data p w s; Some (False, s) } }) ?Post"
      proof (cases links)
        case True
        show ?thesis unfolding v2 Option.bind.bind_lunit ov if_P [OF True]
          using that [OF True] by (intro returns_add_cancel_hook) (simp_all only: if_False if_True undo returns_simps set_up)
      next
        case False
        show ?thesis unfolding v2 Option.bind.bind_lunit if_not_P [OF False] Let_def prod.case if_False
          by (rule undo')
      qed
    qed
  qed
  show ?thesis
    unfolding add_restore_ownership_to_transaction_def
    by (intro returns_try_alloc returns_if) (use ok main in simp_all)
qed

lemma unlink_if_unowned_ok:
  assumes ok: "bus_ok S W s" and v: "bs_services s p = Some v"
    and hash: "bs_hash s (sv_name v) = Some p" and used: "p \<in># S + hook_services s"
  shows "returns (unlink_if_unowned p s) (\<lambda>s'. bus_ok S W s' \<and> bs_owners s' = bs_owners s \<and> bs_hooks s' = bs_hooks s \<and>
    (\<forall>q. q \<noteq> p \<longrightarrow> bs_services s' q = bs_services s q) \<and>
    bs_hash s' = (if sv_owners v = [] then (bs_hash s)(sv_name v := None) else bs_hash s) \<and>
    (\<exists>v'. bs_services s' p = Some v' \<and> sv_name v' = sv_name v \<and> sv_owners v' = sv_owners v))"
proof (cases "sv_owners v = []")
  case True
  let ?s = "s\<lparr>bs_hash := (bs_hash s)(sv_name v := None)\<rparr>"
  have "counted (add_mset p (S + hook_services s)) (W + hook_owners s) ?s"
    by (rule counted_unhash [OF bus_ok_counted [OF ok] v hash])
  then have "bus_ok (add_mset p S) W ?s" using ok by (simp add: bus_ok_def)
  from bus_service_unref_ok [OF this, of v] v used
  have "returns (bus_service_unref p ?s) (\<lambda>s'. bus_ok S W s' \<and>
    bs_owners s' = bs_owners s \<and> bs_hash s' = (bs_hash s)(sv_name v := None) \<and> bs_hooks s' = bs_hooks s \<and>
    bs_services s' = (bs_services s)(p \<mapsto> v\<lparr>sv_refcount := sv_refcount v - 1\<rparr>))"
    by (auto elim: returns_mono)
  then have "returns (bus_service_unref p ?s) (\<lambda>s'. bus_ok S W s' \<and> bs_owners s' = bs_owners s \<and> bs_hooks s' = bs_hooks s \<and>
    (\<forall>q. q \<noteq> p \<longrightarrow> bs_services s' q = bs_services s q) \<and>
    bs_hash s' = (if sv_owners v = [] then (bs_hash s)(sv_name v := None) else bs_hash s) \<and>
    (\<exists>v'. bs_services s' p = Some v' \<and> sv_name v' = sv_name v \<and> sv_owners v' = sv_owners v))"
    by (rule returns_mono) (use True in auto)
  then show ?thesis using True by (simp add: unlink_if_unowned_def bus_service_unlink_def v)
next
  case False
  then show ?thesis using ok v by (simp add: unlink_if_unowned_def v)
qed

text \<open>The queue after removing an owner, from the objects.\<close>

lemma queue_of_removed:
  assumes ok: "bus_ok S W s" and v: "bs_services s p = Some v" and w: "w \<in> set (sv_owners v)"
    and v': "bs_services s' p = Some v'" "sv_owners v' = remove1 w (sv_owners v)"
    and others: "\<And>u. u \<noteq> w \<Longrightarrow> bs_owners s' u = bs_owners s u"
  shows "queue_of s' p = filter (\<lambda>e. fst e \<noteq> conn_of s w) (queue_of s p)"
proof -
  note D = bus_ok_serviceD [OF ok v]
  have "map (entry s') (remove1 w (sv_owners v)) = map (entry s) (remove1 w (sv_owners v))"
    using others D(1) by (intro map_cong) (auto intro: entry_cong)
  then show ?thesis
    using v' map_entry_remove [OF D(1,2) w] by (simp add: queue_of_Some [OF v] queue_of_Some [OF v'(1)])
qed

definition remove_owner_post ::
    "service_ptr multiset \<Rightarrow> owner_ptr multiset \<Rightarrow> service_ptr \<Rightarrow> bus_service \<Rightarrow> connection \<Rightarrow> bus \<Rightarrow>
     bus_error option \<Rightarrow> bus \<Rightarrow> bool" where
  "remove_owner_post S W p v conn s r s' \<longleftrightarrow>
     bus_ok S W s' \<and> keeps p s s' \<and>
     (\<exists>v'. bs_services s' p = Some v' \<and> sv_name v' = sv_name v \<and>
       (r \<noteq> None \<longrightarrow> sv_owners v' = sv_owners v \<and> queue_of s' p = queue_of s p \<and> bs_hash s' = bs_hash s \<and>
          bs_hooks s' = bs_hooks s) \<and>
       (r = None \<longrightarrow> queue_of s' p = filter (\<lambda>e. fst e \<noteq> conn) (queue_of s p) \<and>
          bs_hooks s' =
            (if conn_of s (hd (sv_owners v)) = conn
             then RestoreOwnership p (hd (sv_owners v)) (owner_after (hd (sv_owners v)) (sv_owners v)) True # bs_hooks s
             else bs_hooks s) \<and>
          bs_hash s' = (if sv_owners v' = [] then (bs_hash s)(sv_name v := None) else bs_hash s)))"

lemma remove_owner_post_same:
  assumes "bus_ok S W s'" "bs_services s' = bs_services s" "bs_services s p = Some v" "bs_hash s' = bs_hash s"
    "bs_owners s' = bs_owners s" "bs_hooks s' = bs_hooks s"
  shows "remove_owner_post S W p v conn s (Some e) s'"
proof -
  have "entry s' = entry s" using assms(5) by (simp add: entry_def fun_eq_iff)
  then show ?thesis using assms by (simp add: remove_owner_post_def keeps_def queue_of_def)
qed

lemma keeps_drop:
  assumes ok: "bus_ok S W s" and v: "bs_services s p = Some v" "w \<in> set (sv_owners v)"
    and s': "\<And>u. u \<noteq> w \<Longrightarrow> bs_owners s' u = bs_owners s u" "\<And>q. q \<noteq> p \<Longrightarrow> bs_services s' q = bs_services s q"
  shows "keeps p s s'"
  unfolding keeps_def
proof (intro conjI allI impI)
  fix u x assume "bs_owners s u = Some x" "ow_service x \<noteq> p"
  then show "bs_owners s' u = Some x"
    using bus_ok_serviceD(3) [OF ok v] s'(1) [of u] by (cases "u = w") auto
qed (use s'(2) in blast)

text \<open>A queued owner that is not the primary one is dropped without ceremony.\<close>

lemma remove_queued_ok:
  assumes ok: "bus_ok S W s" and v: "bs_services s p = Some v"
    and w: "w \<in> set (sv_owners v)" "w \<noteq> hd (sv_owners v)"
  shows "returns (do { s \<leftarrow> set_owners p (remove1 w (sv_owners v)) s; bus_owner_unref w s })
    (\<lambda>s'. remove_owner_post S W p v (conn_of s w) s None s')"
proof -
  have ne: "remove1 w (sv_owners v) \<noteq> []" using w by (cases "sv_owners v") auto
  have "distinct (remove1 w (sv_owners v))" "set (remove1 w (sv_owners v)) = set (sv_owners v) - {w}"
    using bus_ok_serviceD(1) [OF ok v] by (simp_all add: set_remove1_eq)
  from drop_owner_ok [OF ok v w(1) this] show ?thesis
  proof (elim returns_mono)
    fix s'
    assume *: "bus_ok S W s' \<and>
      bs_services s' = (bs_services s)(p \<mapsto> v\<lparr>sv_owners := remove1 w (sv_owners v)\<rparr>) \<and>
      bs_hash s' = bs_hash s \<and> bs_hooks s' = bs_hooks s \<and>
      (\<forall>u. u \<noteq> w \<longrightarrow> bs_owners s' u = bs_owners s u) \<and>
      (\<forall>x. bs_owners s w = Some x \<longrightarrow> w \<in># W + hook_owners s \<longrightarrow>
         bs_owners s' w = Some (x\<lparr>ow_refcount := ow_refcount x - 1\<rparr>))"
    have "queue_of s' p = filter (\<lambda>e. fst e \<noteq> conn_of s w) (queue_of s p)"
      by (rule queue_of_removed [OF ok v w(1)]) (use * in auto)
    moreover have "keeps p s s'" by (rule keeps_drop [OF ok v w(1)]) (use * in auto)
    moreover have "hd (sv_owners v) \<in> set (sv_owners v)" using w(1) by (cases "sv_owners v") auto
    then have "conn_of s (hd (sv_owners v)) \<noteq> conn_of s w"
      using bus_ok_serviceD(2) [OF ok v] w by (auto dest: inj_onD)
    ultimately show "remove_owner_post S W p v (conn_of s w) s None s'"
      using * ne by (simp add: remove_owner_post_def)
  qed
qed

text \<open>The primary owner is dropped once a hook that would restore it holds it and its service.\<close>

lemma remove_primary_ok:
  assumes ok: "bus_ok S W s" and v: "bs_services s p = Some v" and ws: "sv_owners v = w # ws"
    and hash: "bs_hash s (sv_name v) = Some p"
  shows "returns (do {
             (ok, s) \<leftarrow> add_restore_ownership_to_transaction p w s;
             if \<not> ok then Some (Some NO_MEMORY, s)
             else do {
               s \<leftarrow> bus_service_unlink_owner p w s;
               s \<leftarrow> unlink_if_unowned p s;
               Some (None, s) } })
    (\<lambda>(r, s'). remove_owner_post S W p v (conn_of s w) s r s')"
proof -
  have w: "w \<in> set (sv_owners v)" by (simp add: ws)
  obtain x where x: "bs_owners s w = Some x" using bus_ok_serviceD(3) [OF ok v w] by blast
  show ?thesis
  proof (rule returns_bindI [OF add_restore_ownership_spec [OF ok v w x hash]], clarify)
    fix b s1
    assume 1: "bus_ok S W s1" "bs_hash s1 = bs_hash s"
      and b: "if b then bs_services s1 = (bs_services s)(p \<mapsto> v\<lparr>sv_refcount := sv_refcount v + 1\<rparr>) \<and>
        bs_owners s1 = (bs_owners s)(w \<mapsto> x\<lparr>ow_refcount := ow_refcount x + 1\<rparr>) \<and>
        bs_hooks s1 = RestoreOwnership p w (owner_after w (sv_owners v)) True # bs_hooks s
       else bs_services s1 = bs_services s \<and> bs_owners s1 = bs_owners s \<and> bs_hooks s1 = bs_hooks s"
    show "returns (if \<not> b then Some (Some NO_MEMORY, s1)
        else do { s \<leftarrow> bus_service_unlink_owner p w s1; s \<leftarrow> unlink_if_unowned p s; Some (None, s) })
      (\<lambda>(r, s'). remove_owner_post S W p v (conn_of s w) s r s')"
    proof (cases b)
      case False
      then show ?thesis using 1 b v by (simp add: remove_owner_post_same)
    next
      case True
      let ?v1 = "v\<lparr>sv_refcount := sv_refcount v + 1\<rparr>"
      have v1: "bs_services s1 p = Some ?v1" and h1: "p \<in># S + hook_services s1" using b True by simp_all
      have w1: "w \<in> set (sv_owners ?v1)" using w by simp
      have rl: "remove_last w (sv_owners v) = remove1 w (sv_owners v)"
        using bus_ok_serviceD(1) [OF ok v]
        by (simp add: remove_last_def distinct_remove1_removeAll removeAll_filter_not_eq rev_filter [symmetric])
      have "returns (do { s \<leftarrow> bus_service_unlink_owner p w s1; s \<leftarrow> unlink_if_unowned p s; Some (None, s) })
        (\<lambda>(r, s'). remove_owner_post S W p v (conn_of s w) s r s')"
      proof (rule returns_bindI [OF unlink_owner_ok [OF 1(1) v1 w1]])
        fix s2
        assume 2: "bus_ok S W s2 \<and>
          bs_services s2 = (bs_services s1)(p \<mapsto> ?v1\<lparr>sv_owners := remove_last w (sv_owners ?v1)\<rparr>) \<and>
          bs_hash s2 = bs_hash s1 \<and> bs_hooks s2 = bs_hooks s1 \<and>
          (\<forall>u. u \<noteq> w \<longrightarrow> bs_owners s2 u = bs_owners s1 u) \<and>
          (\<forall>x. bs_owners s1 w = Some x \<longrightarrow> w \<in># W + hook_owners s1 \<longrightarrow>
             bs_owners s2 w = Some (x\<lparr>ow_refcount := ow_refcount x - 1\<rparr>))"
        let ?v2 = "?v1\<lparr>sv_owners := remove1 w (sv_owners v)\<rparr>"
        have v2: "bs_services s2 p = Some ?v2" using 2 by (simp add: rl)
        have hash2: "bs_hash s2 (sv_name ?v2) = Some p" using 2 1(2) hash by simp
        have used: "p \<in># S + hook_services s2" using 2 h1 by simp
        from 2 have ok2: "bus_ok S W s2" ..
        show "returns (do { s \<leftarrow> unlink_if_unowned p s2; Some (None, s) })
          (\<lambda>(r, s'). remove_owner_post S W p v (conn_of s w) s r s')"
        proof (rule returns_bindI [OF unlink_if_unowned_ok [OF ok2 v2 hash2 used]], clarify)
          fix s3 v3
          assume 3: "bus_ok S W s3" "bs_owners s3 = bs_owners s2" "\<forall>q. q \<noteq> p \<longrightarrow> bs_services s3 q = bs_services s2 q"
            "bs_hooks s3 = bs_hooks s2"
            "bs_hash s3 = (if sv_owners ?v2 = [] then (bs_hash s2)(sv_name ?v2 := None) else bs_hash s2)"
            "bs_services s3 p = Some v3" "sv_name v3 = sv_name ?v2" "sv_owners v3 = sv_owners ?v2"
          have o3: "bs_owners s3 u = bs_owners s u" if "u \<noteq> w" for u using that 2 3(2) b True by simp
          have "queue_of s3 p = filter (\<lambda>e. fst e \<noteq> conn_of s w) (queue_of s p)"
            using 3(6,8) by (intro queue_of_removed [OF ok v w _ _ o3]) simp_all
          moreover have "keeps p s s3"
            by (rule keeps_drop [OF ok v w o3]) (use 3(3) 2 b True in simp_all)
          moreover have "bs_hooks s3 = RestoreOwnership p w (owner_after w (sv_owners v)) True # bs_hooks s"
            using 3(4) 2 b True by simp
          moreover have "hd (sv_owners v) = w" by (simp add: ws)
          ultimately have "remove_owner_post S W p v (conn_of s w) s None s3"
            using 3(1,5-8) 2 1(2) by (simp add: remove_owner_post_def)
          then show "returns (Some (None, s3)) (\<lambda>(r, s'). remove_owner_post S W p v (conn_of s w) s r s')" by simp
        qed
      qed
      then show ?thesis using True by simp
    qed
  qed
qed

lemma remove_owner_post_other [simp]:
  "remove_owner_post S W p v conn (s\<lparr>bs_mem := m\<rparr>) = remove_owner_post S W p v conn s"
  "remove_owner_post S W p v conn (s\<lparr>bs_signals := g\<rparr>) = remove_owner_post S W p v conn s"
  by (simp_all add: remove_owner_post_def keeps_def fun_eq_iff)

lemma primary_owners_connection_eq:
  assumes ok: "bus_ok S W s" and v: "bs_services s p = Some v"
  shows "bus_service_get_primary_owners_connection p s =
    Some (if sv_owners v = [] then None else Some (conn_of s (hd (sv_owners v))))"
  using bus_ok_serviceD(3) [OF ok v, of "hd (sv_owners v)"]
  by (cases "sv_owners v")
    (auto simp: bus_service_get_primary_owners_connection_def bus_service_get_primary_owner_def v conn_of_def)

text \<open>Queueing the signals of a change of the primary owner touches nothing else.\<close>

definition only_sent :: "bus \<Rightarrow> bool \<times> bus \<Rightarrow> bool" where
  "only_sent s r \<longleftrightarrow> (\<exists>ok m g. r = (ok, s\<lparr>bs_mem := m, bs_signals := g\<rparr>))"

lemma only_sent_signal: "only_sent s (send_signal h s)"
  unfolding only_sent_def by (rule send_signal_cases [of h s]) blast

lemma only_sent_trans: "only_sent s (ok, s1) \<Longrightarrow> only_sent s1 r \<Longrightarrow> only_sent s r"
  unfolding only_sent_def by force

lemma only_sent_announce:
  assumes "\<exists>y. bs_owners s w = Some y"
  shows "returns (announce_next_owner n conn w s) (only_sent s)"
proof -
  from assms obtain y where y: "bs_owners s w = Some y" by blast
  obtain ok s1 where s1: "send_signal (NameOwnerChanged n (Some conn) (Some (ow_conn y))) s = (ok, s1)"
    by fastforce
  have "only_sent s (ok, s1)" using only_sent_signal [of s] s1 by metis
  then show ?thesis
    by (cases ok) (auto simp: announce_next_owner_def y s1 intro: only_sent_trans only_sent_signal)
qed

text \<open>
  Continuing after signals: it is enough to continue from every state that differs in the allocator
  and the messages, and to stop there with an error.
\<close>

lemma returns_only_sent:
  assumes "only_sent s r"
    and "\<And>m g. returns (f (s\<lparr>bs_mem := m, bs_signals := g\<rparr>)) P"
    and "\<And>m g. P (Some SEND_FAILED, s\<lparr>bs_mem := m, bs_signals := g\<rparr>)"
  shows "returns (let (ok, s) = r in if \<not> ok then Some (Some SEND_FAILED, s) else f s) P"
  using assms unfolding only_sent_def by auto

lemma bus_service_remove_owner_ok:
  assumes ok: "bus_ok S W s" and v: "bs_services s p = Some v"
    and hash: "bs_hash s (sv_name v) = Some p" and conn: "conn \<in> conn_of s ` set (sv_owners v)"
  shows "returns (bus_service_remove_owner p conn s) (\<lambda>(r, s'). remove_owner_post S W p v conn s r s')"
proof -
  have ne: "sv_owners v \<noteq> []" using conn by auto
  note D = bus_ok_serviceD [OF ok v]
  show ?thesis
  proof (cases "conn_of s (hd (sv_owners v)) = conn")
    case False
    then have np: "Some (conn_of s (hd (sv_owners v))) \<noteq> Some conn" by simp
    obtain w where w: "List.find (\<lambda>w. conn_of s w = conn) (sv_owners v) = Some w"
      using conn by (cases "List.find (\<lambda>w. conn_of s w = conn) (sv_owners v)") (auto dest: find_NoneD)
    note wD = find_SomeD [OF w]
    have "returns (do { s \<leftarrow> set_owners p (remove1 w (sv_owners v)) s; s \<leftarrow> bus_owner_unref w s; Some (None, s) })
      (\<lambda>(r, s'). remove_owner_post S W p v conn s r s')"
      using remove_queued_ok [OF ok v, of w] wD False by (auto simp: returns_bind split: if_splits)
    then show ?thesis
      unfolding bus_service_remove_owner_def v Option.bind.bind_lunit primary_owners_connection_eq [OF ok v]
        if_not_P [OF ne] if_P [OF np] find_owner_link_eq [OF ok v] w .
  next
    case True
    then have pr: "\<not> Some (conn_of s (hd (sv_owners v))) \<noteq> Some conn" by simp
    let ?P = "\<lambda>(r, s'). remove_owner_post S W p v conn s r s'"
    let ?G = "\<lambda>s. do {
             (ok, s) \<leftarrow> add_restore_ownership_to_transaction p (hd (sv_owners v)) s;
             if \<not> ok then Some (Some NO_MEMORY, s)
             else do {
               s \<leftarrow> bus_service_unlink_owner p (hd (sv_owners v)) s;
               s \<leftarrow> unlink_if_unowned p s;
               Some (None, s) } }"
    have sent: "returns (?G (s\<lparr>bs_mem := m, bs_signals := g\<rparr>)) ?P" for m g
      using remove_primary_ok [of S W "s\<lparr>bs_mem := m, bs_signals := g\<rparr>" p v "hd (sv_owners v)" "tl (sv_owners v)"] ok v hash ne True
      by simp
    have failed: "?P (Some SEND_FAILED, s\<lparr>bs_mem := m, bs_signals := g\<rparr>)" for m g
      using ok v by (simp add: remove_owner_post_same)
    have mid: "returns (case sv_owners v of [] \<Rightarrow> None
              | [w] \<Rightarrow> Some (send_signal (NameOwnerChanged (sv_name v) (Some conn) None) s1)
              | w # u # ws \<Rightarrow> announce_next_owner (sv_name v) conn u s1) (only_sent s1)"
      if "bs_owners s1 = bs_owners s" for s1
      using ne D(3) that by (fastforce simp: only_sent_signal intro!: only_sent_announce split: list.split)
    show ?thesis
      unfolding bus_service_remove_owner_def v Option.bind.bind_lunit primary_owners_connection_eq [OF ok v]
        if_not_P [OF ne] if_not_P [OF pr]
    proof (rule returns_only_sent [where P = ?P, OF only_sent_signal], rule returns_bindI [OF mid], simp)
      fix m g r assume r: "only_sent (s\<lparr>bs_mem := m, bs_signals := g\<rparr>) r"
      from returns_only_sent [OF r, of ?G ?P] sent failed
      show "returns (case r of (ok, s) \<Rightarrow> if \<not> ok then Some (Some SEND_FAILED, s) else ?G s) ?P"
        by simp
    qed (rule failed)
  qed
qed

definition swap_owner_post ::
    "service_ptr multiset \<Rightarrow> owner_ptr multiset \<Rightarrow> service_ptr \<Rightarrow> bus_service \<Rightarrow> bus \<Rightarrow> bus_error option \<Rightarrow> bus \<Rightarrow> bool" where
  "swap_owner_post S W p v s r s' \<longleftrightarrow>
     bus_ok S W s' \<and> keeps p s s' \<and> bs_hash s' = bs_hash s \<and>
     (\<exists>v'. bs_services s' p = Some v' \<and> sv_name v' = sv_name v \<and> sv_owners v' \<noteq> [] \<and>
       (r \<noteq> None \<longrightarrow> sv_owners v' = sv_owners v \<and> bs_hooks s' = bs_hooks s) \<and>
       (r = None \<longrightarrow> bs_hooks s' =
          RestoreOwnership p (hd (sv_owners v)) (owner_after (hd (sv_owners v)) (sv_owners v)) True # bs_hooks s) \<and>
       queue_of s' p =
         (if r = None then insert_second (hd (queue_of s p)) (tl (queue_of s p)) else queue_of s p))"

lemma swap_owner_post_other [simp]:
  "swap_owner_post S W p v (s\<lparr>bs_mem := m\<rparr>) = swap_owner_post S W p v s"
  "swap_owner_post S W p v (s\<lparr>bs_signals := g\<rparr>) = swap_owner_post S W p v s"
  by (simp_all add: swap_owner_post_def keeps_def fun_eq_iff)

lemma swap_owner_post_same:
  assumes "bus_ok S W s'" "bs_services s' = bs_services s" "bs_services s p = Some v" "bs_hash s' = bs_hash s"
    "bs_owners s' = bs_owners s" "sv_owners v \<noteq> []" "bs_hooks s' = bs_hooks s"
  shows "swap_owner_post S W p v s (Some e) s'"
proof -
  have "entry s' = entry s" using assms(5) by (simp add: entry_def fun_eq_iff)
  then show ?thesis using assms by (simp add: swap_owner_post_def keeps_def queue_of_def)
qed

lemma swap_primary_ok:
  assumes ok: "bus_ok S W s" and v: "bs_services s p = Some v" and ws: "sv_owners v = w # ws"
    and hash: "bs_hash s (sv_name v) = Some p"
  shows "returns (do {
             (ok, s) \<leftarrow> add_restore_ownership_to_transaction p w s;
             if \<not> ok then Some (Some NO_MEMORY, s)
             else do {
               s \<leftarrow> set_owners p (insert_second w ws) s;
               Some (None, s) } })
    (\<lambda>(r, s'). swap_owner_post S W p v s r s')"
proof -
  have w: "w \<in> set (sv_owners v)" by (simp add: ws)
  obtain x where x: "bs_owners s w = Some x" using bus_ok_serviceD(3) [OF ok v w] by blast
  show ?thesis
  proof (rule returns_bindI [OF add_restore_ownership_spec [OF ok v w x hash]], clarify)
    fix b s1
    assume 1: "bus_ok S W s1" "bs_hash s1 = bs_hash s"
      and b: "if b then bs_services s1 = (bs_services s)(p \<mapsto> v\<lparr>sv_refcount := sv_refcount v + 1\<rparr>) \<and>
        bs_owners s1 = (bs_owners s)(w \<mapsto> x\<lparr>ow_refcount := ow_refcount x + 1\<rparr>) \<and>
        bs_hooks s1 = RestoreOwnership p w (owner_after w (sv_owners v)) True # bs_hooks s
       else bs_services s1 = bs_services s \<and> bs_owners s1 = bs_owners s \<and> bs_hooks s1 = bs_hooks s"
    show "returns (if \<not> b then Some (Some NO_MEMORY, s1)
        else do { s \<leftarrow> set_owners p (insert_second w ws) s1; Some (None, s) })
      (\<lambda>(r, s'). swap_owner_post S W p v s r s')"
    proof (cases b)
      case False
      then show ?thesis using 1 b v ws by (simp add: swap_owner_post_same)
    next
      case True
      let ?v1 = "v\<lparr>sv_refcount := sv_refcount v + 1\<rparr>"
      have v1: "bs_services s1 p = Some ?v1" using b True by simp
      note D = bus_ok_serviceD [OF 1(1) v1]
      have set_ws: "set (insert_second w ws) = set (sv_owners ?v1)" by (simp add: ws)
      have ent: "entry s1 = entry s" using b True x by (auto simp: entry_def fun_eq_iff)
      have "returns (set_owners p (insert_second w ws) s1) (\<lambda>s'. bus_ok S W s' \<and>
          s' = set_service p (?v1\<lparr>sv_owners := insert_second w ws\<rparr>) s1)"
      proof (rule set_owners_ok [OF 1(1) v1], unfold set_ws)
        show "distinct (insert_second w ws)" using D(1) ws by simp
      qed (use D in auto)
      then have "returns (do { s \<leftarrow> set_owners p (insert_second w ws) s1; Some (None, s) })
        (\<lambda>(r, s'). swap_owner_post S W p v s r s')"
      proof (rule returns_bindI)
        fix s2
        assume 2: "bus_ok S W s2 \<and> s2 = set_service p (?v1\<lparr>sv_owners := insert_second w ws\<rparr>) s1"
        then have e2: "s2 = set_service p (?v1\<lparr>sv_owners := insert_second w ws\<rparr>) s1" by blast
        have "keeps p s s2" using b True x bus_ok_serviceD(3) [OF ok v w] by (auto simp: e2 keeps_def)
        then have "swap_owner_post S W p v s None s2"
          using 2 1(2) b True by (simp add: swap_owner_post_def e2 queue_of_def ent v ws map_insert_second)
        then show "returns (Some (None, s2)) (\<lambda>(r, s'). swap_owner_post S W p v s r s')" by simp
      qed
      then show ?thesis using True by simp
    qed
  qed
qed

lemma bus_service_swap_owner_ok:
  assumes ok: "bus_ok S W s" and v: "bs_services s p = Some v" and ws: "sv_owners v = w # u # ws"
    and hash: "bs_hash s (sv_name v) = Some p" and conn: "conn_of s w = conn"
  shows "returns (bus_service_swap_owner p conn s) (\<lambda>(r, s'). swap_owner_post S W p v s r s')"
proof -
  have ne: "sv_owners v \<noteq> []" by (simp add: ws)
  have c: "(if w # u # ws = [] then None else Some (conn_of s w)) = Some conn" using conn by simp
  have pr: "\<not> Some conn \<noteq> Some conn" by simp
  let ?P = "\<lambda>(r, s'). swap_owner_post S W p v s r s'"
  let ?G = "\<lambda>s. do {
             (ok, s) \<leftarrow> add_restore_ownership_to_transaction p w s;
             if \<not> ok then Some (Some NO_MEMORY, s)
             else do {
               s \<leftarrow> set_owners p (insert_second w (u # ws)) s;
               Some (None, s) } }"
  have sent: "returns (?G (s\<lparr>bs_mem := m, bs_signals := g\<rparr>)) ?P" for m g
    using swap_primary_ok [of S W "s\<lparr>bs_mem := m, bs_signals := g\<rparr>" p v w "u # ws"] ok v hash ws by simp
  have failed: "?P (Some SEND_FAILED, s\<lparr>bs_mem := m, bs_signals := g\<rparr>)" for m g
    using ok v ne by (simp add: swap_owner_post_same)
  have mid: "returns (announce_next_owner (sv_name v) conn u s1) (only_sent s1)" if "bs_owners s1 = bs_owners s" for s1
    using bus_ok_serviceD(3) [OF ok v, of u] that by (intro only_sent_announce) (auto simp: ws)
  show ?thesis
    unfolding bus_service_swap_owner_def v Option.bind.bind_lunit primary_owners_connection_eq [OF ok v]
      ws list.case list.sel c if_not_P [OF pr]
  proof (rule returns_only_sent [where P = ?P, OF only_sent_signal], rule returns_bindI [OF mid], simp)
    fix m g r assume r: "only_sent (s\<lparr>bs_mem := m, bs_signals := g\<rparr>) r"
    from returns_only_sent [OF r, of ?G ?P] sent failed
    show "returns (case r of (ok, s) \<Rightarrow> if \<not> ok then Some (Some SEND_FAILED, s) else ?G s) ?P"
      by simp
  qed (rule failed)
qed

end
