(* ===== verification/NameQueue.thy ===== *)
theory NameQueue
  imports Ownership
begin

text \<open>
  What the operations of \<^verbatim>\<open>bus/services.c\<close> promise of names: requesting and releasing a name change
  the queue of its owners as \<open>request_name\<close> and \<open>release_name\<close> say, leave the other names alone and
  keep the registry in order, whatever allocations fail; and what follows for a bus that serves
  requests.
\<close>

section \<open>Names\<close>

text \<open>The registry between two requests: nothing is referred to but by hooks, the table and the lists.\<close>

definition registry_ok :: "bus \<Rightarrow> bool" where
  "registry_ok s \<longleftrightarrow> bus_ok {#} {#} s \<and> linked s"

definition names_queue :: "bus \<Rightarrow> bytes \<Rightarrow> queue_entry list" where
  "names_queue s n = (case bs_hash s n of None \<Rightarrow> [] | Some p \<Rightarrow> queue_of s p)"

lemma registry_ok_other [simp]:
  "registry_ok (s\<lparr>bs_mem := m\<rparr>) = registry_ok s"
  "registry_ok (s\<lparr>bs_signals := g\<rparr>) = registry_ok s"
  by (simp_all add: registry_ok_def)

lemma names_queue_other [simp]:
  "names_queue (s\<lparr>bs_mem := m\<rparr>) = names_queue s"
  "names_queue (s\<lparr>bs_signals := g\<rparr>) = names_queue s"
  by (simp_all add: names_queue_def fun_eq_iff split: option.split)

lemma hash_service:
  assumes "registry_ok s" "bs_hash s n = Some p"
  obtains v where "bs_services s p = Some v" "sv_name v = n" "sv_owners v \<noteq> []"
proof -
  from assms obtain v where v: "bs_services s p = Some v" "sv_name v = n"
    using counted_hashD [OF bus_ok_counted, of "{#}" "{#}" s n p] by (auto simp: registry_ok_def)
  with assms have "sv_owners v \<noteq> []" by (auto simp: registry_ok_def linked_def)
  with v show ?thesis by (rule that)
qed

lemma names_queue_kept:
  assumes ok: "registry_ok s" and keeps: "keeps p s s'" and n: "bs_hash s' n = bs_hash s n" "bs_hash s n \<noteq> Some p"
  shows "names_queue s' n = names_queue s n"
proof (cases "bs_hash s n")
  case None
  then show ?thesis using n by (simp add: names_queue_def)
next
  case (Some q)
  then obtain v where v: "bs_services s q = Some v" by (rule hash_service [OF ok])
  have q: "q \<noteq> p" using Some n by simp
  have "bus_ok {#} {#} s" using ok by (simp add: registry_ok_def)
  then have "entry s' w = entry s w" if w: "w \<in> set (sv_owners v)" for w
  proof -
    obtain x where x: "bs_owners s w = Some x" "ow_service x = q"
      using bus_ok_serviceD(3) [OF \<open>bus_ok {#} {#} s\<close> v w] by blast
    then have "bs_owners s' w = Some x" using keeps q by (simp add: keeps_def)
    with x show ?thesis by (simp add: entry_def)
  qed
  then show ?thesis using Some n q keeps v by (simp add: names_queue_def queue_of_def keeps_def)
qed

text \<open>
  A step on the service of one name that ends with its queue in the table exactly when it is not
  empty leaves the registry in order and the other names alone.
\<close>

lemma registry_step:
  assumes ok: "registry_ok s" and bus: "bus_ok {#} {#} s'" and keeps: "keeps p s s'"
    and before: "bs_hash s n = Some p \<or> bs_hash s n = None" "\<And>m. bs_hash s m = Some p \<Longrightarrow> m = n"
    and v': "bs_services s' p = Some v'" "sv_name v' = n"
    and hash: "bs_hash s' = (bs_hash s)(n := if sv_owners v' = [] then None else Some p)"
  shows "registry_ok s' \<and> names_queue s' n = queue_of s' p \<and> (\<forall>m. m \<noteq> n \<longrightarrow> names_queue s' m = names_queue s m)"
proof -
  have "linked s'" unfolding linked_def
  proof (intro allI impI)
    fix q v assume v: "bs_services s' q = Some v"
    show "sv_owners v \<noteq> [] \<longleftrightarrow> bs_hash s' (sv_name v) = Some q"
    proof (cases "q = p")
      case True
      then show ?thesis using v v' hash by simp
    next
      case False
      then have q: "bs_services s q = Some v" using v keeps by (simp add: keeps_def)
      then have "sv_owners v \<noteq> [] \<longleftrightarrow> bs_hash s (sv_name v) = Some q"
        using ok by (simp add: registry_ok_def linked_def)
      moreover have "bs_hash s' (sv_name v) = Some q \<longleftrightarrow> bs_hash s (sv_name v) = Some q"
        using hash before(1) False by auto
      ultimately show ?thesis by simp
    qed
  qed
  moreover have "names_queue s' n = queue_of s' p"
    using hash v' by (simp add: names_queue_def queue_of_def)
  moreover have "names_queue s' m = names_queue s m" if "m \<noteq> n" for m
    using that hash before(2) by (intro names_queue_kept [OF ok keeps]) auto
  ultimately show ?thesis using bus by (simp add: registry_ok_def)
qed

section \<open>The promise of \<open>RequestName\<close> and \<open>ReleaseName\<close>\<close>

definition without :: "connection \<Rightarrow> queue_entry list \<Rightarrow> queue_entry list" where
  "without conn q = filter (\<lambda>e. fst e \<noteq> conn) q"

fun request_name :: "connection \<Rightarrow> 32 word \<Rightarrow> queue_entry list \<Rightarrow> request_reply \<times> queue_entry list" where
  "request_name conn flags [] = (REPLY_PRIMARY_OWNER, [flag_entry conn flags])"
| "request_name conn flags ((c, allow, leaves) # q) =
     (let me = flag_entry conn flags;
          replace = has_flag flags REPLACE_EXISTING \<and> allow
      in
      if c = conn then (REPLY_ALREADY_OWNER, me # q)
      else if replace then
        (REPLY_PRIMARY_OWNER, me # (if leaves then [] else [(c, allow, leaves)]) @ without conn q)
      else if has_flag flags DO_NOT_QUEUE then (REPLY_EXISTS, (c, allow, leaves) # without conn q)
      else (REPLY_IN_QUEUE, enqueue (has_flag flags REPLACE_EXISTING) me ((c, allow, leaves) # q)))"

definition release_name :: "connection \<Rightarrow> queue_entry list \<Rightarrow> release_reply \<times> queue_entry list" where
  "release_name conn q =
     (if q = [] then REPLY_NON_EXISTENT
      else if conn \<in> fst ` set q then REPLY_RELEASED else REPLY_NOT_OWNER, without conn q)"

text \<open>The connections in a queue.\<close>

lemma without_idle: "conn \<notin> fst ` set q \<Longrightarrow> without conn q = q"
  by (auto simp: without_def filter_id_conv)

definition conns :: "queue_entry list \<Rightarrow> connection set" where
  "conns q = fst ` set q"

lemma conns_simps [simp]:
  "conns [] = {}"
  "conns (e # q) = insert (fst e) (conns q)"
  "conns (q @ r) = conns q \<union> conns r"
  by (simp_all add: conns_def image_Un)

lemma conns_without [simp]: "conns (without c q) = conns q - {c}"
  by (induction q) (auto simp: without_def)

lemma conns_insert_second [simp]: "conns (insert_second e q) = insert (fst e) (conns q)"
  by (cases q) auto

lemma conns_map_own: "conns (map (\<lambda>x. if fst x = fst e then e else x) q) = conns q"
  by (induction q) auto

lemma conns_enqueue [simp]: "conns (enqueue r e q) = insert (fst e) (conns q)"
  using conns_without [of "fst e" q]
  by (auto simp: enqueue_def conns_map_own without_def simp flip: conns_def)

lemma request_name_conns: "request_name conn flags q = (reply, q') \<Longrightarrow> conns q' \<subseteq> insert conn (conns q)"
  by (cases "(conn, flags, q)" rule: request_name.cases) (auto simp: Let_def split: if_splits)

text \<open>
  The same operation as \<^verbatim>\<open>doc/dbus-specification.xml\<close> describes it: replace the primary owner, or else
  update the flags of a caller that waits already, or else append it; then whoever is not the primary
  owner and does not want to queue is removed. The code differs in one case: a caller that asks to
  replace the owner, cannot and is ready to wait gets the second place.
\<close>

definition wants_out :: "queue_entry \<Rightarrow> bool" where
  "wants_out e = snd (snd e)"

definition waiting_ok :: "queue_entry list \<Rightarrow> bool" where
  "waiting_ok q = list_all (\<lambda>e. \<not> wants_out e) (tl q)"

definition replaces :: "32 word \<Rightarrow> queue_entry list \<Rightarrow> bool" where
  "replaces flags q \<longleftrightarrow> has_flag flags REPLACE_EXISTING \<and> fst (snd (hd q))"

definition documented_request :: "connection \<Rightarrow> 32 word \<Rightarrow> queue_entry list \<Rightarrow> queue_entry list" where
  "documented_request conn flags q =
     (let me = flag_entry conn flags in
      if q = [] then [me]
      else if fst (hd q) = conn then me # tl q
      else
        let q' = (if replaces flags q then me # hd q # without conn (tl q)
                  else if conn \<in> conns (tl q) then map (\<lambda>e. if fst e = conn then me else e) q
                  else q @ [me])
        in hd q' # filter (\<lambda>e. \<not> wants_out e) (tl q'))"

definition jumps_queue :: "connection \<Rightarrow> 32 word \<Rightarrow> queue_entry list \<Rightarrow> bool" where
  "jumps_queue conn flags q \<longleftrightarrow> q \<noteq> [] \<and> fst (hd q) \<noteq> conn \<and> \<not> replaces flags q \<and>
     has_flag flags REPLACE_EXISTING \<and> \<not> has_flag flags DO_NOT_QUEUE"

lemma wants_out_flags: "wants_out (flag_entry conn flags) = has_flag flags DO_NOT_QUEUE"
  by (simp add: wants_out_def flag_entry_def)

lemma filter_waiting:
  "list_all (\<lambda>e. \<not> wants_out e) q \<Longrightarrow> filter (\<lambda>e. \<not> wants_out e) q = q"
  "list_all (\<lambda>e. \<not> wants_out e) q \<Longrightarrow> filter (\<lambda>e. \<not> wants_out e) (without conn q) = without conn q"
  "list_all (\<lambda>e. \<not> wants_out e) q \<Longrightarrow> wants_out me \<Longrightarrow>
     filter (\<lambda>e. \<not> wants_out e) (map (\<lambda>e. if fst e = conn then me else e) q) = without conn q"
  "list_all (\<lambda>e. \<not> wants_out e) q \<Longrightarrow> \<not> wants_out me \<Longrightarrow>
     filter (\<lambda>e. \<not> wants_out e) (map (\<lambda>e. if fst e = conn then me else e) q) = map (\<lambda>e. if fst e = conn then me else e) q"
  by (induction q) (auto simp: without_def)

lemma request_name_documented:
  assumes "waiting_ok q"
  shows "snd (request_name conn flags q) =
      (if jumps_queue conn flags q then hd q # flag_entry conn flags # without conn (tl q)
       else documented_request conn flags q)"
proof (cases q)
  case Nil
  then show ?thesis by (simp add: documented_request_def jumps_queue_def)
next
  case (Cons e r)
  obtain c allow leaves where e: "e = (c, allow, leaves)" by (cases e)
  have r: "list_all (\<lambda>e. \<not> wants_out e) r" using assms by (simp add: waiting_ok_def Cons)
  have idle: "conn \<notin> conns r \<Longrightarrow> without conn r = r" by (simp add: without_idle conns_def)
  show ?thesis
    using filter_waiting [OF r] idle wants_out_flags [of conn flags]
    by (cases "conn \<in> conns r")
      (auto simp: Cons e Let_def documented_request_def jumps_queue_def replaces_def enqueue_def wants_out_def
        conns_def [symmetric] without_def)
qed

lemma waiting_kept:
  assumes "waiting_ok q"
  shows "waiting_ok (snd (request_name conn flags q))" "waiting_ok (snd (release_name conn q))"
proof -
  have tl: "e \<in> set xs" if "e \<in> set (tl xs)" for e :: queue_entry and xs
    using that by (cases xs) auto
  show "waiting_ok (snd (request_name conn flags q))"
    using assms unfolding request_name_documented [OF assms]
    by (cases q) (auto simp: waiting_ok_def documented_request_def jumps_queue_def Let_def list_all_iff
        wants_out_flags without_def)
  show "waiting_ok (snd (release_name conn q))"
    using assms by (cases q) (auto simp: waiting_ok_def release_name_def without_def list_all_iff dest: tl)
qed

section \<open>What a cancelled request leaves\<close>

text \<open>
  Cancelling a transaction is safe while it has nothing to restore: \<open>undoable\<close>. What a request leaves
  then is \<open>cancellable\<close>: no hook, or the one of the owner it queued, whose service is in the table or
  is the new one that did not get into it.
\<close>

fun cancels_ownership :: "hook \<Rightarrow> bool" where
  "cancels_ownership (CancelOwnership p w) = True"
| "cancels_ownership (RestoreOwnership p w b e) = False"

definition undoable :: "bus \<Rightarrow> bool" where
  "undoable s = list_all cancels_ownership (bs_hooks s)"

definition linked_but :: "service_ptr \<Rightarrow> bus \<Rightarrow> bool" where
  "linked_but p s \<longleftrightarrow>
     (\<forall>q v. q \<noteq> p \<longrightarrow> bs_services s q = Some v \<longrightarrow> (sv_owners v \<noteq> [] \<longleftrightarrow> bs_hash s (sv_name v) = Some q))"

definition cancellable :: "bytes \<Rightarrow> bus \<Rightarrow> bus \<Rightarrow> bool" where
  "cancellable n s s' \<longleftrightarrow>
     bs_hooks s' = bs_hooks s \<and> registry_ok s' \<or>
     (\<exists>p w v. bs_hooks s' = CancelOwnership p w # bs_hooks s \<and>
        bs_services s' p = Some v \<and> sv_name v = n \<and> w \<in> set (sv_owners v) \<and>
        (registry_ok s' \<or>
         bus_ok {#p#} {#} s' \<and> sv_owners v = [w] \<and> bs_hash s' n = None \<and> linked_but p s'))"

lemma undoable_other [simp]:
  "undoable (s\<lparr>bs_mem := m\<rparr>) = undoable s"
  "undoable (s\<lparr>bs_signals := g\<rparr>) = undoable s"
  by (simp_all add: undoable_def)

lemma cancellable_other [simp]:
  "cancellable n (s\<lparr>bs_mem := m\<rparr>) = cancellable n s"
  "cancellable n (s\<lparr>bs_signals := g\<rparr>) = cancellable n s"
  "cancellable n s (s'\<lparr>bs_mem := m\<rparr>) = cancellable n s s'"
  by (simp_all add: cancellable_def linked_but_def fun_eq_iff)

lemma cancellable_same: "registry_ok s' \<Longrightarrow> bs_hooks s' = bs_hooks s \<Longrightarrow> cancellable n s s'"
  by (simp add: cancellable_def)

lemma cancellable_hooked:
  assumes "registry_ok s'" "bs_services s' p = Some v'" "sv_name v' = n"
    and "bs_hooks s' = bs_hooks s \<or> (\<exists>w\<in>set (sv_owners v'). bs_hooks s' = CancelOwnership p w # bs_hooks s)"
  shows "cancellable n s s'"
  using assms unfolding cancellable_def by blast

section \<open>Releasing and requesting\<close>

lemma registry_bus_ok: "registry_ok s \<Longrightarrow> bus_ok {#} {#} s"
  by (simp add: registry_ok_def)

lemma hash_unique: "registry_ok s \<Longrightarrow> bs_hash s n = Some p \<Longrightarrow> bs_hash s m = Some p \<Longrightarrow> m = n"
  by (metis hash_service option.inject)

lemma names_queue_Some: "bs_hash s n = Some p \<Longrightarrow> names_queue s n = queue_of s p"
  by (simp add: names_queue_def)

lemma has_owner_eq:
  assumes "bus_ok S W s" "bs_services s p = Some v"
  shows "bus_service_has_owner p conn s = Some (conn \<in> fst ` set (queue_of s p))"
proof -
  have "(List.find (\<lambda>w. conn_of s w = conn) (sv_owners v) \<noteq> None) = (conn \<in> fst ` set (queue_of s p))"
    by (auto simp: find_None_iff queue_of_Some [OF assms(2)] image_image)
  then show ?thesis by (simp add: bus_service_has_owner_def find_owner_link_eq [OF assms])
qed

text \<open>Releasing a name.\<close>

definition release_post :: "connection \<Rightarrow> bytes \<Rightarrow> bus \<Rightarrow> (bus_error + release_reply) \<Rightarrow> bus \<Rightarrow> bool" where
  "release_post conn n s r s' \<longleftrightarrow>
     registry_ok s' \<and> (\<forall>m. m \<noteq> n \<longrightarrow> names_queue s' m = names_queue s m) \<and>
     (undoable s' \<longrightarrow> bs_hooks s' = bs_hooks s) \<and>
     (case r of
        Inl e \<Rightarrow> names_queue s' n = names_queue s n \<and> bs_hooks s' = bs_hooks s
      | Inr reply \<Rightarrow> (reply, names_queue s' n) = release_name conn (names_queue s n))"

lemma release_service_ok:
  assumes ok: "registry_ok s"
  shows "returns (bus_registry_release_service conn n s) (\<lambda>(r, s'). release_post conn n s r s')"
proof (cases "name_reserved n")
  case True
  then show ?thesis using ok by (simp add: bus_registry_release_service_def release_post_def)
next
  case False
  note nr = False
  show ?thesis
  proof (cases "bs_hash s n")
    case None
    then show ?thesis using ok nr
      by (simp add: bus_registry_release_service_def bus_registry_lookup_def release_post_def release_name_def
          names_queue_def without_def)
  next
    case (Some p)
    then obtain v where v: "bs_services s p = Some v" "sv_name v = n" "sv_owners v \<noteq> []" by (rule hash_service [OF ok])
    note b = registry_bus_ok [OF ok]
    have q: "names_queue s n = queue_of s p" "queue_of s p \<noteq> []"
      using Some v by (simp_all add: names_queue_Some queue_of_Some)
    show ?thesis
    proof (cases "conn \<in> fst ` set (queue_of s p)")
      case False
      then show ?thesis using ok nr Some q
        by (simp add: bus_registry_release_service_def bus_registry_lookup_def has_owner_eq [OF b v(1)]
            release_post_def release_name_def without_idle)
    next
      case True
      have hash: "bs_hash s (sv_name v) = Some p" and conn: "conn \<in> conn_of s ` set (sv_owners v)"
        using True Some v by (auto simp: queue_of_Some image_image)
      let ?G = "\<lambda>(r, s). case r of Some e \<Rightarrow> Some (Inl e, s)
            | None \<Rightarrow> do {
                v \<leftarrow> bs_services s p;
                has \<leftarrow> bus_service_has_owner p conn s;
                if has then None else Some (Inr REPLY_RELEASED, s) }"
      have "returns (do { r \<leftarrow> bus_service_remove_owner p conn s; ?G r }) (\<lambda>(r, s'). release_post conn n s r s')"
      proof (rule returns_bind_pairI [OF bus_service_remove_owner_ok [OF b v(1) hash conn]])
        fix r s1 assume "remove_owner_post {#} {#} p v conn s r s1"
        then obtain v1 where r1: "bus_ok {#} {#} s1" "keeps p s s1" "bs_services s1 p = Some v1" "sv_name v1 = n"
          and err: "r \<noteq> None \<Longrightarrow> sv_owners v1 = sv_owners v \<and> queue_of s1 p = queue_of s p \<and> bs_hash s1 = bs_hash s \<and>
            bs_hooks s1 = bs_hooks s"
          and hooks: "undoable s1 \<Longrightarrow> bs_hooks s1 = bs_hooks s"
          and none: "r = None \<Longrightarrow> queue_of s1 p = without conn (queue_of s p) \<and>
            bs_hash s1 = (if sv_owners v1 = [] then (bs_hash s)(n := None) else bs_hash s)"
          using v(2) by (cases r) (auto simp: remove_owner_post_def without_def undoable_def split: if_splits)
        have "bs_hash s1 = (bs_hash s)(n := if sv_owners v1 = [] then None else Some p)"
          using err none v Some by (cases r) (auto simp: fun_upd_idem)
        from registry_step [OF ok r1(1,2) disjI1 [OF Some] hash_unique [OF ok Some] r1(3,4) this]
        have st: "registry_ok s1" "names_queue s1 n = queue_of s1 p" "\<forall>m. m \<noteq> n \<longrightarrow> names_queue s1 m = names_queue s m"
          by blast+
        show "returns (?G (r, s1)) (\<lambda>(r, s'). release_post conn n s r s')"
        proof (cases r)
          case None
          have "conn \<notin> fst ` set (queue_of s1 p)" using none None by (auto simp: without_def)
          then show ?thesis using None none st q True r1(3) hooks
            by (simp add: has_owner_eq [OF r1(1,3)] release_post_def release_name_def)
        next
          case (Some e)
          then show ?thesis using err st q by (simp add: release_post_def)
        qed
      qed
      then show ?thesis
        using nr Some True by (simp add: bus_registry_release_service_def bus_registry_lookup_def has_owner_eq [OF b v(1)])
    qed
  qed
qed

text \<open>Requesting a name.\<close>

definition acquire_post :: "connection \<Rightarrow> bytes \<Rightarrow> 32 word \<Rightarrow> bus \<Rightarrow> (bus_error + request_reply) \<Rightarrow> bus \<Rightarrow> bool" where
  "acquire_post conn n flags s r s' \<longleftrightarrow>
     (\<forall>m. m \<noteq> n \<longrightarrow> names_queue s' m = names_queue s m) \<and>
     conns (names_queue s' n) \<subseteq> insert conn (conns (names_queue s n)) \<and>
     (undoable s' \<longrightarrow> cancellable n s s') \<and>
     (case r of
        Inl e \<Rightarrow> \<exists>S. bus_ok S {#} s'
      | Inr reply \<Rightarrow> registry_ok s' \<and> (reply, names_queue s' n) = request_name conn flags (names_queue s n))"

lemma acquire_post_other [simp]:
  "acquire_post conn n flags (s\<lparr>bs_mem := m\<rparr>) = acquire_post conn n flags s"
  "acquire_post conn n flags (s\<lparr>bs_signals := g\<rparr>) = acquire_post conn n flags s"
  by (simp_all add: acquire_post_def fun_eq_iff split: sum.split)

lemma acquire_post_Inl:
  "registry_ok s' \<Longrightarrow> \<forall>m. m \<noteq> n \<longrightarrow> names_queue s' m = names_queue s m \<Longrightarrow>
   conns (names_queue s' n) \<subseteq> insert conn (conns (names_queue s n)) \<Longrightarrow>
   (undoable s' \<Longrightarrow> cancellable n s s') \<Longrightarrow> acquire_post conn n flags s (Inl e) s'"
  using registry_bus_ok by (auto simp: acquire_post_def)

lemma acquire_post_Inr:
  "registry_ok s' \<Longrightarrow> \<forall>m. m \<noteq> n \<longrightarrow> names_queue s' m = names_queue s m \<Longrightarrow>
   request_name conn flags (names_queue s n) = (reply, names_queue s' n) \<Longrightarrow>
   (undoable s' \<Longrightarrow> cancellable n s s') \<Longrightarrow> acquire_post conn n flags s (Inr reply) s'"
  using request_name_conns [of conn flags "names_queue s n" reply "names_queue s' n"] by (simp add: acquire_post_def)

text \<open>A step on a service that stays in the table.\<close>

lemma registry_step_owned:
  assumes "registry_ok s" "bs_hash s n = Some p" "bus_ok {#} {#} s'" "keeps p s s'" "bs_hash s' = bs_hash s"
    "bs_services s' p = Some v'" "sv_name v' = n" "sv_owners v' \<noteq> []"
  shows "registry_ok s'" "names_queue s' n = queue_of s' p" "\<forall>m. m \<noteq> n \<longrightarrow> names_queue s' m = names_queue s m"
proof -
  have "bs_hash s' = (bs_hash s)(n := if sv_owners v' = [] then None else Some p)"
    using assms(2,5,8) by (simp add: fun_upd_idem)
  from registry_step [OF assms(1,3,4) disjI1 [OF assms(2)] hash_unique [OF assms(1,2)] assms(6,7) this]
  show "registry_ok s'" "names_queue s' n = queue_of s' p" "\<forall>m. m \<noteq> n \<longrightarrow> names_queue s' m = names_queue s m"
    by blast+
qed

lemma distinct_queue:
  assumes "bus_ok S W s"
  shows "distinct (map fst (queue_of s p))"
proof (cases "bs_services s p")
  case (Some v)
  then show ?thesis
    using bus_ok_serviceD(1,2) [OF assms Some] by (simp add: queue_of_def o_def distinct_map)
qed (simp add: queue_of_def)

lemma filter_primary_enqueued:
  assumes "distinct (map fst ((c, allow, leaves) # q))" "c \<noteq> conn"
  shows "enqueue True (flag_entry conn flags) ((c, allow, leaves) # q) =
      (c, allow, leaves) # flag_entry conn flags # without conn q"
    and "without c (flag_entry conn flags # without conn q) = flag_entry conn flags # without conn q"
proof -
  have "conn \<notin> fst ` set q \<Longrightarrow> filter (\<lambda>e. fst e \<noteq> conn) q = q" by (auto simp: filter_id_conv)
  then show "enqueue True (flag_entry conn flags) ((c, allow, leaves) # q) =
      (c, allow, leaves) # flag_entry conn flags # without conn q"
    using assms(2) by (auto simp: enqueue_def without_def)
  show "without c (flag_entry conn flags # without conn q) = flag_entry conn flags # without conn q"
    using assms by (auto simp: without_def intro!: filter_cong)
qed

text \<open>The last branch: the newcomer is second and the primary owner gives way.\<close>

definition handed :: "service_ptr \<Rightarrow> bytes \<Rightarrow> owner_ptr list \<Rightarrow> bus \<Rightarrow> (bus_error + request_reply) \<Rightarrow> bus \<Rightarrow> bool" where
  "handed p n ws s r s' \<longleftrightarrow>
     (case r of
        Inl e \<Rightarrow> bs_hooks s' = bs_hooks s \<and> names_queue s' n = names_queue s n \<and>
          (\<exists>v'. bs_services s' p = Some v' \<and> sv_name v' = n \<and> sv_owners v' = ws)
      | Inr reply \<Rightarrow> \<not> undoable s')"

lemma hand_over_result_ok:
  assumes ok: "registry_ok s" and hash: "bs_hash s n = Some p"
    and 2: "bus_ok {#} {#} s2" "keeps p s s2" "bs_services s2 p = Some v2" "sv_name v2 = n"
      "bs_hash s2 = (bs_hash s)(n := if sv_owners v2 = [] then None else Some p)"
    and q: "r = None \<Longrightarrow> queue_of s2 p = me # q" "fst me = conn"
    and err: "r \<noteq> None \<Longrightarrow> sv_owners v2 = ws \<and> bs_hooks s2 = bs_hooks s \<and> queue_of s2 p = queue_of s p"
    and none: "r = None \<Longrightarrow> \<not> undoable s2"
  shows "returns (hand_over_result p conn (r, s2)) (\<lambda>(r, s').
    registry_ok s' \<and> handed p n ws s r s' \<and> (\<forall>m. m \<noteq> n \<longrightarrow> names_queue s' m = names_queue s m) \<and>
    (\<forall>reply. r = Inr reply \<longrightarrow> reply = REPLY_PRIMARY_OWNER \<and> names_queue s' n = me # q))"
proof -
  from registry_step [OF ok 2(1,2) disjI1 [OF hash] hash_unique [OF ok hash] 2(3-5)]
  have st: "registry_ok s2" "names_queue s2 n = queue_of s2 p" "\<forall>m. m \<noteq> n \<longrightarrow> names_queue s2 m = names_queue s m"
    by blast+
  show ?thesis
  proof (cases r)
    case None
    have "bus_service_get_primary_owners_connection p s2 = Some (Some conn)"
      using q(1) [OF None] q(2) fst_entry [of s2 "hd (sv_owners v2)"]
      by (cases "sv_owners v2") (auto simp: primary_owners_connection_eq [OF 2(1,3)] queue_of_Some [OF 2(3)])
    then show ?thesis using None st q(1) none by (simp add: hand_over_result_def handed_def)
  qed (use st 2 err hash in \<open>simp add: hand_over_result_def handed_def names_queue_Some\<close>)
qed

lemma hand_over_ok:
  assumes ok: "registry_ok s" and hash: "bs_hash s n = Some p" and v: "bs_services s p = Some v" "sv_name v = n"
    and ws: "sv_owners v = w # u # us"
    and q: "queue_of s p = (c, allow, leaves) # me # q" "without c (me # q) = me # q" "fst me = conn"
  shows "returns (hand_over p w c conn s) (\<lambda>(r, s').
    registry_ok s' \<and> handed p n (sv_owners v) s r s' \<and> (\<forall>m. m \<noteq> n \<longrightarrow> names_queue s' m = names_queue s m) \<and>
    (\<forall>reply. r = Inr reply \<longrightarrow> reply = REPLY_PRIMARY_OWNER \<and>
       names_queue s' n = me # (if leaves then [] else [(c, allow, leaves)]) @ q))" (is "returns _ ?Post")
proof -
  note b = registry_bus_ok [OF ok]
  have e: "entry s w = (c, allow, leaves)" using q(1) by (simp add: queue_of_Some [OF v(1)] ws)
  then have cw: "conn_of s w = c" using fst_entry [of s w] by simp
  obtain x where x: "bs_owners s w = Some x" using bus_ok_serviceD(3) [OF b v(1), of w] ws by auto
  have xl: "ow_do_not_queue x = leaves" using e x by (simp add: entry_def)
  have hash': "bs_hash s (sv_name v) = Some p" using hash v(2) by simp
  show ?thesis
  proof (cases leaves)
    case True
    have "c \<in> conn_of s ` set (sv_owners v)" using ws cw by auto
    from bus_service_remove_owner_ok [OF b v(1) hash' this]
    have "returns (do { rs \<leftarrow> bus_service_remove_owner p c s; hand_over_result p conn rs }) ?Post"
    proof (rule returns_bind_pairI)
      fix r s2 assume "remove_owner_post {#} {#} p v c s r s2"
      then obtain v2 where 2: "bus_ok {#} {#} s2" "keeps p s s2" "bs_services s2 p = Some v2" "sv_name v2 = n"
        and err: "r \<noteq> None \<Longrightarrow> sv_owners v2 = sv_owners v \<and> bs_hash s2 = bs_hash s \<and> bs_hooks s2 = bs_hooks s \<and>
          queue_of s2 p = queue_of s p"
        and none: "r = None \<Longrightarrow> queue_of s2 p = without c (queue_of s p) \<and> \<not> undoable s2 \<and>
          bs_hash s2 = (if sv_owners v2 = [] then (bs_hash s)(n := None) else bs_hash s)"
        using v(2) ws cw by (auto simp: remove_owner_post_def without_def undoable_def)
      have "bs_hash s2 = (bs_hash s)(n := if sv_owners v2 = [] then None else Some p)"
        using err none ws hash by (cases r) (auto simp: fun_upd_idem)
      moreover have "queue_of s2 p = me # (if leaves then [] else [(c, allow, leaves)]) @ q" if "r = None"
        using none [OF that] q(1,2) True by (simp add: without_def)
      ultimately show "returns (hand_over_result p conn (r, s2)) ?Post"
        by (intro hand_over_result_ok [OF ok hash 2]) (use q(3) err none in auto)
    qed
    then show ?thesis using x xl True by (simp add: hand_over_def)
  next
    case False
    from bus_service_swap_owner_ok [OF b v(1) ws hash' cw]
    have "returns (do { rs \<leftarrow> bus_service_swap_owner p c s; hand_over_result p conn rs }) ?Post"
    proof (rule returns_bind_pairI)
      fix r s2 assume "swap_owner_post {#} {#} p v s r s2"
      then obtain v2 where 2: "bus_ok {#} {#} s2" "keeps p s s2" "bs_services s2 p = Some v2" "sv_name v2 = n"
        and h2: "bs_hash s2 = bs_hash s" "sv_owners v2 \<noteq> []"
        and err: "r \<noteq> None \<Longrightarrow> sv_owners v2 = sv_owners v \<and> bs_hooks s2 = bs_hooks s \<and> queue_of s2 p = queue_of s p"
        and q2: "r = None \<Longrightarrow> queue_of s2 p = insert_second (hd (queue_of s p)) (tl (queue_of s p)) \<and> \<not> undoable s2"
        using v(2) by (auto simp: swap_owner_post_def undoable_def)
      have "bs_hash s2 = (bs_hash s)(n := if sv_owners v2 = [] then None else Some p)"
        using h2 hash by (simp add: fun_upd_idem)
      moreover have "queue_of s2 p = me # (if leaves then [] else [(c, allow, leaves)]) @ q" if "r = None"
        using q2 [OF that] q(1) False by simp
      ultimately show "returns (hand_over_result p conn (r, s2)) ?Post"
        by (intro hand_over_result_ok [OF ok hash 2]) (use q(3) err q2 in auto)
    qed
    then show ?thesis using x xl False by (simp add: hand_over_def)
  qed
qed

lemma acquire_replace_ok:
  assumes ok: "registry_ok s" and hash: "bs_hash s n = Some p" and v: "bs_services s p = Some v" "sv_name v = n"
    and ws: "sv_owners v = w # ws" and e: "entry s w = (c, allow, leaves)" and c: "c \<noteq> conn"
    and flags: "has_flag flags REPLACE_EXISTING" "allow"
  shows "returns (do {
         (r, s) \<leftarrow> bus_service_add_owner p conn flags s;
         case r of Some e \<Rightarrow> Some (Inl e, s) | None \<Rightarrow> hand_over p w c conn s })
    (\<lambda>(r, s'). acquire_post conn n flags s r s')"
proof -
  note b = registry_bus_ok [OF ok]
  let ?me = "flag_entry conn flags" and ?q = "map (entry s) ws"
  have cw: "conn_of s w = c" using fst_entry [of s w] e by simp
  have q: "queue_of s p = (c, allow, leaves) # ?q" by (simp add: queue_of_Some [OF v(1)] ws e)
  have d: "distinct (map fst ((c, allow, leaves) # ?q))" using distinct_queue [OF b, of p] by (simp only: q)
  have "sv_owners v \<noteq> [] \<Longrightarrow> conn_of s (hd (sv_owners v)) \<noteq> conn" using ws cw c by simp
  from bus_service_add_owner_ok [OF b v(1) this] show ?thesis
  proof (rule returns_bind_pairI)
    fix r s1 assume "add_owner_post {#} {#} p v conn flags s r s1"
    then obtain v1 where 1: "bus_ok {#} {#} s1" "keeps p s s1" "bs_hash s1 = bs_hash s"
        "bs_services s1 p = Some v1" "sv_name v1 = n"
      and ws1: "sv_owners v1 \<noteq> []" "hd (sv_owners v1) = w"
      and none: "r = None \<Longrightarrow> queue_of s1 p = enqueue True ?me (queue_of s p)"
      and err: "r \<noteq> None \<Longrightarrow> queue_of s1 p = queue_of s p"
      and hooked: "bs_hooks s1 = bs_hooks s \<or> (\<exists>u\<in>set (sv_owners v1). bs_hooks s1 = CancelOwnership p u # bs_hooks s)"
      using v(2) ws flags by (auto simp: add_owner_post_def split: if_splits)
    note st1 = registry_step_owned [OF ok hash 1 ws1(1)]
    have hash1: "bs_hash s1 n = Some p" using 1(3) hash by simp
    show "returns (case (r, s1) of (r, s) \<Rightarrow>
        case r of Some e \<Rightarrow> Some (Inl e, s) | None \<Rightarrow> hand_over p w c conn s)
      (\<lambda>(r, s'). acquire_post conn n flags s r s')"
    proof (cases r)
      case (Some e')
      have "acquire_post conn n flags s (Inl e') s1"
        using st1 err Some cancellable_hooked [OF st1(1) 1(4,5) hooked] by (intro acquire_post_Inl) (auto simp: names_queue_Some [OF hash])
      then show ?thesis using Some by simp
    next
      case None
      have q1: "queue_of s1 p = (c, allow, leaves) # ?me # without conn ?q"
        using none [OF None] filter_primary_enqueued(1) [OF d c] by (simp add: q)
      obtain u us where us: "sv_owners v1 = w # u # us"
        using q1 ws1 by (cases "sv_owners v1"; cases "tl (sv_owners v1)") (auto simp: queue_of_Some [OF 1(4)])
      from hand_over_ok [OF st1(1) hash1 1(4,5) us q1 filter_primary_enqueued(2) [OF d c] fst_flag_entry]
      have "returns (hand_over p w c conn s1) (\<lambda>(r, s'). acquire_post conn n flags s r s')"
      proof (rule returns_mono, clarify)
        fix r :: "bus_error + request_reply" and s2
        assume 2: "registry_ok s2" "handed p n (sv_owners v1) s1 r s2" "\<forall>m. m \<noteq> n \<longrightarrow> names_queue s2 m = names_queue s1 m"
          "\<forall>reply. r = Inr reply \<longrightarrow> reply = REPLY_PRIMARY_OWNER \<and>
             names_queue s2 n = ?me # (if leaves then [] else [(c, allow, leaves)]) @ without conn ?q"
        show "acquire_post conn n flags s r s2"
        proof (cases r)
          case (Inl e')
          then obtain v2 where v2: "bs_hooks s2 = bs_hooks s1" "names_queue s2 n = queue_of s1 p"
            "bs_services s2 p = Some v2" "sv_name v2 = n" "sv_owners v2 = sv_owners v1"
            using 2(2) st1(2) by (auto simp: handed_def)
          have "conns (names_queue s2 n) \<subseteq> insert conn (conns (names_queue s n))"
            by (auto simp: v2(2) none [OF None] names_queue_Some [OF hash])
          moreover have "cancellable n s s2"
            using cancellable_hooked [OF 2(1) v2(3,4)] hooked v2 by simp
          ultimately show ?thesis using 2(1,3) st1(3) Inl by (simp add: acquire_post_Inl)
        next
          case (Inr reply)
          then show ?thesis using 2 st1(3) flags c q
            by (intro ssubst [OF Inr, of "\<lambda>r. acquire_post conn n flags s r s2"] acquire_post_Inr)
              (auto simp: names_queue_Some [OF hash] Let_def handed_def)
        qed
      qed
      then show ?thesis using None by simp
    qed
  qed
qed

lemma acquire_contended_ok:
  assumes ok: "registry_ok s" and hash: "bs_hash s n = Some p" and v: "bs_services s p = Some v" "sv_name v = n"
    and ws: "sv_owners v = w # ws" and cw: "conn_of s w = c" "c \<noteq> conn"
  shows "returns (acquire_contended p w c conn flags s) (\<lambda>(r, s'). acquire_post conn n flags s r s')"
proof -
  note b = registry_bus_ok [OF ok]
  obtain allow leaves where e: "entry s w = (c, allow, leaves)"
    using cw(1) fst_entry [of s w] by (cases "entry s w") auto
  let ?q = "map (entry s) ws"
  have q: "queue_of s p = (c, allow, leaves) # ?q" by (simp add: queue_of_Some [OF v(1)] ws e)
  have nq: "names_queue s n = (c, allow, leaves) # ?q" by (simp add: names_queue_Some [OF hash] q)
  obtain x where "bs_owners s w = Some x" using bus_ok_serviceD(3) [OF b v(1), of w] ws by auto
  with e have al: "bus_service_get_allow_replacement p s = Some allow"
    by (simp add: bus_service_get_allow_replacement_def bus_service_get_primary_owner_def v ws entry_def)
  let ?dnq = "has_flag flags DO_NOT_QUEUE" and ?repl = "has_flag flags REPLACE_EXISTING"
  let ?X = "do { link \<leftarrow> bus_service_find_owner_link p conn s;
         s \<leftarrow> (case link of None \<Rightarrow> Some s
              | Some w \<Rightarrow> do { v \<leftarrow> bs_services s p;
                  s \<leftarrow> set_owners p (remove1 w (sv_owners v)) s; bus_owner_unref w s });
         Some (Inr REPLY_EXISTS, s) }"
  let ?Q = "do { (r, s) \<leftarrow> bus_service_add_owner p conn flags s;
         Some (case r of Some e \<Rightarrow> Inl e | None \<Rightarrow> Inr REPLY_IN_QUEUE, s) }"
  let ?R = "do { (r, s) \<leftarrow> bus_service_add_owner p conn flags s;
         case r of Some e \<Rightarrow> Some (Inl e, s) | None \<Rightarrow> hand_over p w c conn s }"
  have exists: "returns ?X (\<lambda>(r, s'). acquire_post conn n flags s r s')" if f: "?dnq" "\<not> allow \<or> \<not> ?repl"
  proof (cases "List.find (\<lambda>w. conn_of s w = conn) (sv_owners v)")
    case None
    from find_NoneD [OF this] have "conn \<notin> fst ` set ?q" by (auto simp: ws image_image)
    then show ?thesis using None f cw(2) ok
      by (auto simp: find_owner_link_eq [OF b v(1)] nq Let_def without_idle intro!: acquire_post_Inr cancellable_same)
  next
    case (Some u)
    note u = find_SomeD [OF Some]
    then have "u \<noteq> hd (sv_owners v)" using ws cw by auto
    from remove_queued_ok [OF b v(1) _ this] u
    have "returns (do { s \<leftarrow> set_owners p (remove1 u (sv_owners v)) s; bus_owner_unref u s })
      (\<lambda>s'. remove_owner_post {#} {#} p v conn s None s')" by simp
    then have "returns (do { s \<leftarrow> set_owners p (remove1 u (sv_owners v)) s; bus_owner_unref u s })
      (\<lambda>s'. acquire_post conn n flags s (Inr REPLY_EXISTS) s')"
    proof (rule returns_mono)
      fix s1 assume "remove_owner_post {#} {#} p v conn s None s1"
      then obtain v1 where 1: "bus_ok {#} {#} s1" "keeps p s s1" "bs_services s1 p = Some v1" "sv_name v1 = n"
        and q1: "queue_of s1 p = without conn (queue_of s p)" and k1: "bs_hooks s1 = bs_hooks s"
        and h1: "bs_hash s1 = (if sv_owners v1 = [] then (bs_hash s)(n := None) else bs_hash s)"
        using v(2) ws cw by (auto simp: remove_owner_post_def without_def)
      have q1': "queue_of s1 p = (c, allow, leaves) # without conn ?q" using q1 cw(2) by (simp add: q without_def)
      then have ne: "sv_owners v1 \<noteq> []" by (auto simp: queue_of_Some [OF 1(3)])
      then have h: "bs_hash s1 = bs_hash s" using h1 by simp
      note st = registry_step_owned [OF ok hash 1(1,2) h 1(3,4) ne]
      show "acquire_post conn n flags s (Inr REPLY_EXISTS) s1"
        using st f cw(2) q1' by (intro acquire_post_Inr cancellable_same) (auto simp: nq Let_def k1)
    qed
    then show ?thesis by (simp add: find_owner_link_eq [OF b v(1)] Some v(1) returns_bind)
  qed
  have queue: "returns ?Q (\<lambda>(r, s'). acquire_post conn n flags s r s')" if f: "\<not> ?dnq" "\<not> ?repl \<or> \<not> allow"
  proof -
    have "sv_owners v \<noteq> [] \<Longrightarrow> conn_of s (hd (sv_owners v)) \<noteq> conn" using ws cw by simp
    from bus_service_add_owner_ok [OF b v(1) this] show ?thesis
    proof (rule returns_bind_pairI)
      fix r s1 assume "add_owner_post {#} {#} p v conn flags s r s1"
      then obtain v1 where 1: "bus_ok {#} {#} s1" "keeps p s s1" "bs_hash s1 = bs_hash s"
          "bs_services s1 p = Some v1" "sv_name v1 = n" "sv_owners v1 \<noteq> []"
        and none: "r = None \<Longrightarrow> queue_of s1 p = enqueue ?repl (flag_entry conn flags) (queue_of s p)"
        and err: "r \<noteq> None \<Longrightarrow> queue_of s1 p = queue_of s p"
        and hooked: "bs_hooks s1 = bs_hooks s \<or> (\<exists>u\<in>set (sv_owners v1). bs_hooks s1 = CancelOwnership p u # bs_hooks s)"
        using v(2) ws by (auto simp: add_owner_post_def split: if_splits)
      note st = registry_step_owned [OF ok hash 1]
      note canc = cancellable_hooked [OF st(1) 1(4,5) hooked]
      show "returns (case (r, s1) of (r, s) \<Rightarrow> Some (case r of Some e \<Rightarrow> Inl e | None \<Rightarrow> Inr REPLY_IN_QUEUE, s))
        (\<lambda>(r, s'). acquire_post conn n flags s r s')"
        using st none err f cw(2) q nq canc
        by (cases r) (auto intro!: acquire_post_Inl acquire_post_Inr simp: Let_def)
    qed
  qed
  have replace: "returns ?R (\<lambda>(r, s'). acquire_post conn n flags s r s')" if "?repl" "allow"
    by (rule acquire_replace_ok [OF ok hash v ws e cw(2) that])
  show ?thesis
    unfolding acquire_contended_def al Option.bind.bind_lunit
    by (intro returns_if exists queue replace) auto
qed

lemma acquire_owned_ok:
  assumes ok: "registry_ok s" and hash: "bs_hash s n = Some p" and v: "bs_services s p = Some v" "sv_name v = n"
    and ws: "sv_owners v = w # ws"
  shows "returns (acquire_owned p (Some (conn_of s w)) conn flags s) (\<lambda>(r, s'). acquire_post conn n flags s r s')"
proof (cases "conn_of s w = conn")
  case False
  then show ?thesis
    using acquire_contended_ok [OF ok hash v ws refl False]
    by (simp add: acquire_owned_def bus_service_get_primary_owner_def v ws)
next
  case True
  note b = registry_bus_ok [OF ok]
  obtain x where x: "bs_owners s w = Some x" using bus_ok_serviceD(3) [OF b v(1), of w] ws by auto
  let ?x = "x\<lparr>ow_allow_replacement := has_flag flags ALLOW_REPLACEMENT, ow_do_not_queue := has_flag flags DO_NOT_QUEUE\<rparr>"
  have "returns (bus_owner_set_flags w flags s) (\<lambda>s'. acquire_post conn n flags s (Inr REPLY_ALREADY_OWNER) s')"
  proof (rule returns_mono [OF bus_owner_set_flags_counted [OF bus_ok_counted [OF b] x]])
    fix s1
    assume "counted ({#} + hook_services s) ({#} + hook_owners s) s1 \<and> s1 = set_owner w ?x s"
    then have "counted ({#} + hook_services s) ({#} + hook_owners s) s1" and e1: "s1 = set_owner w ?x s"
      by blast+
    then have c1: "counted (hook_services s) (hook_owners s) s1" by simp
    have "hooks_ok s" using b by (simp add: bus_ok_def)
    then have "hooks_ok s1" unfolding e1
    proof (rule hooks_ok_cong)
      fix u z assume "bs_owners s u = Some z"
      then show "\<exists>y. bs_owners (set_owner w ?x s) u = Some y \<and> ow_service y = ow_service z"
        using x by (cases "u = w") simp_all
    qed simp
    then have b1: "bus_ok {#} {#} s1" using c1 by (simp add: bus_ok_def e1)
    have k: "keeps p s s1" using x bus_ok_serviceD(3) [OF b v(1), of w] ws by (auto simp: keeps_def e1)
    have v1: "bs_services s1 p = Some v" "sv_owners v \<noteq> []" using v ws by (simp_all add: e1)
    note st = registry_step_owned [OF ok hash b1 k _ v1(1) v(2) v1(2)]
    have ew: "entry s1 w = flag_entry conn flags" using x True by (simp add: e1 entry_def flag_entry_def conn_of_def)
    have "entry s1 u = entry s u" if "u \<in> set ws" for u
      using that bus_ok_serviceD(1) [OF b v(1)] ws by (auto simp: e1 entry_def)
    then have "queue_of s1 p = flag_entry conn flags # map (entry s) ws"
      by (simp add: queue_of_Some [OF v1(1)] ws ew)
    then show "acquire_post conn n flags s (Inr REPLY_ALREADY_OWNER) s1"
      using st True fst_entry [of s w]
      by (intro acquire_post_Inr; cases "entry s w")
        (simp_all add: e1 names_queue_Some [OF hash] queue_of_Some [OF v(1)] ws Let_def cancellable_same)
  qed
  then show ?thesis
    using True by (simp add: acquire_owned_def bus_service_get_primary_owner_def v ws returns_bind)
qed

text \<open>A name nobody owns: the new service.\<close>

definition ensure_post :: "connection \<Rightarrow> bytes \<Rightarrow> 32 word \<Rightarrow> bus \<Rightarrow> (bus_error + service_ptr) \<Rightarrow> bus \<Rightarrow> bool" where
  "ensure_post conn n flags s r s' \<longleftrightarrow>
     (\<forall>m. m \<noteq> n \<longrightarrow> names_queue s' m = names_queue s m) \<and> cancellable n s s' \<and>
     (case r of
        Inl e \<Rightarrow> (\<exists>S. bus_ok S {#} s') \<and> names_queue s' n = []
      | Inr p \<Rightarrow> registry_ok s' \<and> bs_hash s' n = Some p \<and> queue_of s' p = [flag_entry conn flags])"

lemma fresh_service:
  assumes "registry_ok s"
  shows "bs_services s (bs_fresh s) = None" "bs_hash s m \<noteq> Some (bs_fresh s)"
proof -
  show *: "bs_services s (bs_fresh s) = None"
    by (rule counted_fresh(1) [OF bus_ok_counted [OF registry_bus_ok [OF assms]]])
  show "bs_hash s m \<noteq> Some (bs_fresh s)"
  proof
    assume "bs_hash s m = Some (bs_fresh s)"
    then obtain v where "bs_services s (bs_fresh s) = Some v" by (rule hash_service [OF assms])
    with * show False by simp
  qed
qed

lemma names_queue_new:
  assumes "registry_ok s" "keeps p s s'" "bs_hash s' = bs_hash s" "p = bs_fresh s"
  shows "names_queue s' m = names_queue s m"
  using names_queue_kept [OF assms(1,2)] assms(3,4) fresh_service(2) [OF assms(1)] by simp

text \<open>The registry is in order but for a new service, which is not in the table.\<close>

lemma linked_but_new:
  assumes "registry_ok s" "keeps p s s'" "bs_hash s' = bs_hash s"
  shows "linked_but p s'"
  using assms by (simp add: linked_but_def keeps_def registry_ok_def linked_def)

lemma ensure_undo_ok:
  assumes ok: "registry_ok s" and p: "p = bs_fresh s" and n: "bs_hash s n = None"
    and 2: "bus_ok {#p#} {#} s2" "keeps p s s2" "bs_hash s2 = bs_hash s" "bs_services s2 p = Some u" "sv_owners u = []"
      "bs_hooks s2 = bs_hooks s"
  shows "returns (do { s \<leftarrow> bus_service_unref p s2; Some (Inl e, s) }) (\<lambda>(r, s'). ensure_post conn n flags s r s')"
proof -
  have c: "counted (add_mset p (hook_services s2)) (hook_owners s2) s2" using 2(1) by (simp add: bus_ok_def)
  have "\<forall>w\<in>#hook_owners s2. \<forall>x. bs_owners s2 w = Some x \<longrightarrow> ow_service x \<noteq> p" if "p \<notin># hook_services s2"
    using 2(1) that by (fastforce simp: bus_ok_def hooks_ok_def)
  with bus_service_unref_spec [OF c 2(4)] 2(5)
  have "returns (bus_service_unref p s2) (\<lambda>s'. counted (hook_services s2) (hook_owners s2) s' \<and>
      bs_owners s' = bs_owners s2 \<and> bs_hash s' = bs_hash s2 \<and> bs_hooks s' = bs_hooks s2 \<and>
      (\<forall>q. q \<noteq> p \<longrightarrow> bs_services s' q = bs_services s2 q) \<and>
      (\<forall>v. bs_services s' p = Some v \<longrightarrow> sv_owners v = []))"
    by (auto elim!: returns_mono split: if_splits)
  then show ?thesis
  proof (rule returns_bindI)
    fix s'
    assume s': "counted (hook_services s2) (hook_owners s2) s' \<and>
      bs_owners s' = bs_owners s2 \<and> bs_hash s' = bs_hash s2 \<and> bs_hooks s' = bs_hooks s2 \<and>
      (\<forall>q. q \<noteq> p \<longrightarrow> bs_services s' q = bs_services s2 q) \<and>
      (\<forall>v. bs_services s' p = Some v \<longrightarrow> sv_owners v = [])"
    then have b: "bus_ok {#} {#} s'" using 2(1) by (simp add: bus_ok_def hooks_ok_def)
    have k: "keeps p s s'" using s' 2(2) by (simp add: keeps_def)
    have h: "bs_hash s' = bs_hash s" using s' 2(3) by simp
    have q: "names_queue s' m = names_queue s m" for m by (rule names_queue_new [OF ok k h p])
    have "bs_hash s' m \<noteq> Some p" for m using fresh_service(2) [OF ok] by (simp add: h p)
    then have "linked s'" using linked_but_new [OF ok k h] s' unfolding linked_def linked_but_def by metis
    then have "cancellable n s s'" using b s' 2(6) by (simp add: cancellable_same registry_ok_def)
    with b q show "returns (Some (Inl e, s')) (\<lambda>(r, s'). ensure_post conn n flags s r s')"
      using n by (auto simp: ensure_post_def names_queue_def)
  qed
qed

lemma ensure_insert_ok:
  assumes ok: "registry_ok s" and p: "p = bs_fresh s" and n: "bs_hash s n = None"
    and 2: "bus_ok {#p#} {#} s2" "keeps p s s2" "bs_hash s2 = bs_hash s" "bs_services s2 p = Some v2" "sv_name v2 = n"
      "queue_of s2 p = [flag_entry conn flags]" "\<exists>w\<in>set (sv_owners v2). bs_hooks s2 = CancelOwnership p w # bs_hooks s"
  shows "returns (let (ok, s) = try_alloc s2 in
            if \<not> ok then Some (Inl NO_MEMORY, s)
            else do { v \<leftarrow> bs_services s p; Some (Inr p, s\<lparr>bs_hash := (bs_hash s)(sv_name v \<mapsto> p)\<rparr>) })
    (\<lambda>(r, s'). ensure_post conn n flags s r s')"
proof (intro returns_try_alloc returns_if)
  fix ok m
  obtain w where w: "sv_owners v2 = [w]" "bs_hooks s2 = CancelOwnership p w # bs_hooks s"
    using 2(6,7) by (cases "sv_owners v2") (auto simp: queue_of_Some [OF 2(4)])
  have "cancellable n s s2"
    using linked_but_new [OF ok 2(2,3)] 2(1,3-5) w n unfolding cancellable_def by auto
  moreover have "names_queue s2 x = names_queue s x" for x by (rule names_queue_new [OF ok 2(2,3) p])
  ultimately have "ensure_post conn n flags s (Inl NO_MEMORY) (s2\<lparr>bs_mem := m\<rparr>)"
    using 2(1) n by (auto simp: ensure_post_def names_queue_def)
  then show "returns (Some (Inl NO_MEMORY, s2\<lparr>bs_mem := m\<rparr>)) (\<lambda>(r, s'). ensure_post conn n flags s r s')" by simp
  let ?s = "s2\<lparr>bs_mem := m, bs_hash := (bs_hash s2)(n \<mapsto> p)\<rparr>"
  have "counted (add_mset p (hook_services s2)) (hook_owners s2) (s2\<lparr>bs_mem := m\<rparr>)"
    using 2(1) by (simp add: bus_ok_def)
  from counted_hash [OF this, of v2] 2(3-5) n
  have "counted (hook_services s2) (hook_owners s2) ?s" by simp
  then have b: "bus_ok {#} {#} ?s" using 2(1) by (simp add: bus_ok_def)
  have k: "keeps p s ?s" using 2(2) by (simp add: keeps_def)
  have "sv_owners v2 \<noteq> []" using 2(6) by (auto simp: queue_of_Some [OF 2(4)])
  then have h: "bs_hash ?s = (bs_hash s)(n := if sv_owners v2 = [] then None else Some p)" using 2(3) by simp
  have u: "x = n" if "bs_hash s x = Some p" for x using that fresh_service(2) [OF ok] by (simp add: p)
  have v: "bs_services ?s p = Some v2" using 2(4) by simp
  from registry_step [OF ok b k disjI2 [OF n] u v 2(5) h]
  have st: "registry_ok ?s" "names_queue ?s n = queue_of ?s p" "\<forall>m. m \<noteq> n \<longrightarrow> names_queue ?s m = names_queue s m"
    by blast+
  then have "cancellable n s ?s" using cancellable_hooked [OF st(1) v 2(5)] w by simp
  with st have "ensure_post conn n flags s (Inr p) ?s" using 2(6) by (simp add: ensure_post_def)
  then show "returns (do { v \<leftarrow> bs_services (s2\<lparr>bs_mem := m\<rparr>) p;
      Some (Inr p, s2\<lparr>bs_mem := m, bs_hash := (bs_hash (s2\<lparr>bs_mem := m\<rparr>))(sv_name v \<mapsto> p)\<rparr>) })
    (\<lambda>(r, s'). ensure_post conn n flags s r s')"
    using 2(4,5) by simp
qed

lemma registry_ensure_ok:
  assumes ok: "registry_ok s" and n: "bs_hash s n = None"
  shows "returns (bus_registry_ensure n conn flags s) (\<lambda>(r, s'). ensure_post conn n flags s r s')"
proof -
  let ?p = "bs_fresh s" and ?v = "\<lparr>sv_refcount = 1, sv_name = n, sv_owners = []\<rparr>"
  let ?s1 = "\<lambda>m. set_service ?p ?v (s\<lparr>bs_mem := m, bs_fresh := ?p + 1\<rparr>)"
  note c = bus_ok_counted [OF registry_bus_ok [OF ok]]
  have b1: "bus_ok {#?p#} {#} (?s1 m)" for m
    using counted_new_service [of "hook_services s" "hook_owners s" "s\<lparr>bs_mem := m\<rparr>" n] c registry_bus_ok [OF ok]
    by (simp add: bus_ok_def hooks_ok_def)
  have fail: "ensure_post conn n flags s (Inl NO_MEMORY) (s\<lparr>bs_mem := m\<rparr>)" for m
    using registry_bus_ok [OF ok] ok n by (auto simp: ensure_post_def names_queue_def cancellable_same)
  have undo: "returns (do { s \<leftarrow> bus_service_unref ?p (?s1 m\<lparr>bs_mem := m', bs_signals := g\<rparr>); Some (Inl e, s) })
      (\<lambda>(r, s'). ensure_post conn n flags s r s')" for m m' g e
    by (rule ensure_undo_ok [OF ok refl n, where u = ?v]) (use b1 in \<open>simp_all add: keeps_def\<close>)
  have own: "returns (do {
                  (r, s) \<leftarrow> bus_service_add_owner ?p conn flags (?s1 m\<lparr>bs_mem := m', bs_signals := g\<rparr>);
                  case r of
                    Some e \<Rightarrow> do { s \<leftarrow> bus_service_unref ?p s; Some (Inl e, s) }
                  | None \<Rightarrow>
                      let (ok, s) = try_alloc s in
                      if \<not> ok then Some (Inl NO_MEMORY, s)
                      else do { v \<leftarrow> bs_services s ?p; Some (Inr ?p, s\<lparr>bs_hash := (bs_hash s)(sv_name v \<mapsto> ?p)\<rparr>) } })
      (\<lambda>(r, s'). ensure_post conn n flags s r s')" for m m' g
  proof (rule returns_bind_pairI [OF bus_service_add_owner_ok [where v = ?v]])
    show "bus_ok {#?p#} {#} (?s1 m\<lparr>bs_mem := m', bs_signals := g\<rparr>)" using b1 by simp
    fix r s2 assume "add_owner_post {#?p#} {#} ?p ?v conn flags (?s1 m\<lparr>bs_mem := m', bs_signals := g\<rparr>) r s2"
    then obtain v2 where 2: "bus_ok {#?p#} {#} s2" "keeps ?p (?s1 m) s2" "bs_hash s2 = bs_hash s"
        "bs_services s2 ?p = Some v2" "sv_name v2 = n"
      and err: "r \<noteq> None \<Longrightarrow> sv_owners v2 = [] \<and> bs_hooks s2 = bs_hooks s"
      and none: "r = None \<Longrightarrow>
        queue_of s2 ?p = enqueue (has_flag flags REPLACE_EXISTING) (flag_entry conn flags) (queue_of (?s1 m) ?p) \<and>
        (\<exists>w\<in>set (sv_owners v2). bs_hooks s2 = CancelOwnership ?p w # bs_hooks s)"
      by (auto simp: add_owner_post_def split: if_splits)
    have k: "keeps ?p s s2" by (rule keeps_trans [OF _ 2(2)]) (simp add: keeps_def)
    show "returns (case (r, s2) of (r, s) \<Rightarrow> case r of
                    Some e \<Rightarrow> do { s \<leftarrow> bus_service_unref ?p s; Some (Inl e, s) }
                  | None \<Rightarrow>
                      let (ok, s) = try_alloc s in
                      if \<not> ok then Some (Inl NO_MEMORY, s)
                      else do { v \<leftarrow> bs_services s ?p; Some (Inr ?p, s\<lparr>bs_hash := (bs_hash s)(sv_name v \<mapsto> ?p)\<rparr>) })
        (\<lambda>(r, s'). ensure_post conn n flags s r s')"
    proof (cases r)
      case None
      have "queue_of s2 ?p = [flag_entry conn flags]"
        using none [OF None] by (simp add: queue_of_def enqueue_def)
      from ensure_insert_ok [OF ok refl n 2(1) k 2(3-5) this] none None show ?thesis by simp
    next
      case (Some e)
      from ensure_undo_ok [OF ok refl n 2(1) k 2(3,4)] err Some show ?thesis by simp
    qed
  qed simp_all
  have fresh_mem: "bs_fresh (x\<lparr>bs_mem := m\<rparr>) = bs_fresh x" for x m by simp
  have swap: "x\<lparr>bs_signals := g, bs_mem := m\<rparr> = x\<lparr>bs_mem := m, bs_signals := g\<rparr>" for x :: bus and g m by simp
  show ?thesis
    unfolding bus_registry_ensure_def n option.case Let_def
    by (intro returns_rules [unfolded Let_def]; (unfold fresh_mem)?)
      (use fail undo own [unfolded Let_def] in \<open>simp_all add: swap\<close>)
qed

lemma acquire_service_ok:
  assumes ok: "registry_ok s"
  shows "returns (bus_registry_acquire_service g conn n flags s) (\<lambda>(r, s').
    acquire_post conn n flags s r s' \<and> (acquire_refused g conn n s \<noteq> None \<longrightarrow> s' = s))"
proof (cases "acquire_refused g conn n s")
  case (Some e)
  then show ?thesis using ok
    by (simp add: bus_registry_acquire_service_def acquire_post_Inl cancellable_same subset_insertI)
next
  case None
  note nr = None
  let ?P = "\<lambda>(r, s'). acquire_post conn n flags s r s'"
  have last: "returns (case (r, s1) of (r, s) \<Rightarrow> case r of Inl e \<Rightarrow> Some (Inl e, s)
      | Inr reply \<Rightarrow> let (ok, s) = try_alloc s in Some (if ok then Inr reply else Inl NO_MEMORY, s)) ?P"
    if "acquire_post conn n flags s r s1" for r s1
  proof (cases r)
    case (Inr reply)
    have "acquire_post conn n flags s (Inr reply) (s1\<lparr>bs_mem := m\<rparr>)"
      "acquire_post conn n flags s (Inl NO_MEMORY) (s1\<lparr>bs_mem := m\<rparr>)" for m
      using that Inr registry_bus_ok by (auto simp: acquire_post_def)
    then show ?thesis using Inr by (simp add: try_alloc_def split: prod.split)
  qed (use that in simp)
  have "returns (do {
          old_owner_conn \<leftarrow>
            (case bus_registry_lookup n s of
               None \<Rightarrow> Some None
             | Some p \<Rightarrow> bus_service_get_primary_owners_connection p s);
          (p, s) \<leftarrow>
            (case bus_registry_lookup n s of
               None \<Rightarrow> bus_registry_ensure n conn flags s
             | Some p \<Rightarrow> Some (Inr p, s));
          case p of
            Inl e \<Rightarrow> Some (Inl e, s)
          | Inr p \<Rightarrow> do {
              (r, s) \<leftarrow> acquire_owned p old_owner_conn conn flags s;
              case r of
                Inl e \<Rightarrow> Some (Inl e, s)
              | Inr reply \<Rightarrow>
                  let (ok, s) = try_alloc s in
                  Some (if ok then Inr reply else Inl NO_MEMORY, s) } }) ?P"
  proof (cases "bs_hash s n")
    case (Some p)
    then obtain v where v: "bs_services s p = Some v" "sv_name v = n" "sv_owners v \<noteq> []" by (rule hash_service [OF ok])
    then obtain w ws where ws: "sv_owners v = w # ws" by (cases "sv_owners v") auto
    have pr: "bus_service_get_primary_owners_connection p s = Some (Some (conn_of s w))"
      by (simp add: primary_owners_connection_eq [OF registry_bus_ok [OF ok] v(1)] ws)
    have "returns (do { (r, s) \<leftarrow> acquire_owned p (Some (conn_of s w)) conn flags s;
              case r of
                Inl e \<Rightarrow> Some (Inl e, s)
              | Inr reply \<Rightarrow>
                  let (ok, s) = try_alloc s in
                  Some (if ok then Inr reply else Inl NO_MEMORY, s) }) ?P"
      by (rule returns_bind_pairI [OF acquire_owned_ok [OF ok Some v(1,2) ws]]) (rule last)
    then show ?thesis by (simp add: bus_registry_lookup_def Some pr)
  next
    case None
    have nq: "names_queue s n = []" by (simp add: names_queue_def None)
    have "returns (do { (p, s) \<leftarrow> bus_registry_ensure n conn flags s;
          case p of
            Inl e \<Rightarrow> Some (Inl e, s)
          | Inr p \<Rightarrow> do {
              (r, s) \<leftarrow> acquire_owned p None conn flags s;
              case r of
                Inl e \<Rightarrow> Some (Inl e, s)
              | Inr reply \<Rightarrow>
                  let (ok, s) = try_alloc s in
                  Some (if ok then Inr reply else Inl NO_MEMORY, s) } }) ?P"
    proof (rule returns_bind_pairI [OF registry_ensure_ok [OF ok None]])
      fix r s1 assume e: "ensure_post conn n flags s r s1"
      show "returns (case (r, s1) of (p, s) \<Rightarrow> case p of
            Inl e \<Rightarrow> Some (Inl e, s)
          | Inr p \<Rightarrow> do {
              (r, s) \<leftarrow> acquire_owned p None conn flags s;
              case r of
                Inl e \<Rightarrow> Some (Inl e, s)
              | Inr reply \<Rightarrow>
                  let (ok, s) = try_alloc s in
                  Some (if ok then Inr reply else Inl NO_MEMORY, s) }) ?P"
      proof (cases r)
        case (Inl e')
        then show ?thesis using e by (simp add: ensure_post_def acquire_post_def nq)
      next
        case (Inr p)
        then have r1: "registry_ok s1" "bs_hash s1 n = Some p" "queue_of s1 p = [flag_entry conn flags]"
          and others: "\<forall>m. m \<noteq> n \<longrightarrow> names_queue s1 m = names_queue s m" "cancellable n s s1"
          using e by (simp_all add: ensure_post_def)
        from hash_service [OF r1(1,2)] obtain v1 where v1: "bs_services s1 p = Some v1" "sv_owners v1 \<noteq> []" by blast
        then obtain w where w: "sv_owners v1 = [w]" "entry s1 w = flag_entry conn flags"
          using r1(3) by (cases "sv_owners v1") (auto simp: queue_of_Some)
        then obtain x where x: "bs_owners s1 w = Some x" "ow_conn x = conn"
          using bus_ok_serviceD(3) [OF registry_bus_ok [OF r1(1)] v1(1), of w] by (auto simp: entry_def flag_entry_def)
        have "acquire_owned p None conn flags s1 = Some (Inr REPLY_PRIMARY_OWNER, s1)"
          by (simp add: acquire_owned_def bus_service_get_primary_owner_def v1 w x)
        moreover have "acquire_post conn n flags s (Inr REPLY_PRIMARY_OWNER) s1"
          using r1 others by (intro acquire_post_Inr) (simp_all add: nq names_queue_Some)
        ultimately show ?thesis
          using last [of "Inr REPLY_PRIMARY_OWNER" s1] Inr by (simp only: prod.case sum.case Option.bind.bind_lunit)
      qed
    qed
    then show ?thesis by (simp add: bus_registry_lookup_def None)
  qed
  then show ?thesis
    using nr by (simp add: bus_registry_acquire_service_def)
qed

section \<open>The end of a transaction\<close>

definition held_for :: "hook list \<Rightarrow> bus \<Rightarrow> bool" where
  "held_for hs s \<longleftrightarrow>
     counted (image_mset hook_service (mset hs)) (image_mset hook_owner (mset hs)) s \<and> linked s \<and>
     (\<forall>h\<in>set hs. \<exists>x. bs_owners s (hook_owner h) = Some x \<and> ow_service x = hook_service h)"

text \<open>Counts are not part of the queues.\<close>

lemma names_queue_counts:
  assumes c: "counted S W s" and h: "bs_hash s' = bs_hash s"
    and v: "\<And>p v. bs_services s p = Some v \<Longrightarrow> bs_hash s (sv_name v) = Some p \<Longrightarrow>
        \<exists>v'. bs_services s' p = Some v' \<and> sv_owners v' = sv_owners v"
    and x: "\<And>p w x. bs_owners s w = Some x \<Longrightarrow> listed s (ow_service x) w \<Longrightarrow> entry s' w = entry s w"
  shows "names_queue s' = names_queue s"
proof
  fix n
  show "names_queue s' n = names_queue s n"
  proof (cases "bs_hash s n")
    case (Some p)
    then obtain v where p: "bs_services s p = Some v" "sv_name v = n" using counted_hashD [OF c] by blast
    then obtain v' where v': "bs_services s' p = Some v'" "sv_owners v' = sv_owners v" using v Some by blast
    have "entry s' w = entry s w" if "w \<in> set (sv_owners v)" for w
      using counted_serviceD(6) [OF c p(1)] that p(1) x [of w] by (auto simp: listed_def)
    then show ?thesis using Some v' p by (simp add: names_queue_def queue_of_def h)
  qed (simp add: names_queue_def h)
qed

lemma cancel_hook_free_ok:
  assumes ok: "held_for (h # hs) s"
  shows "returns (cancel_hook_free h s) (\<lambda>s'. held_for hs s' \<and> names_queue s' = names_queue s)"
proof -
  let ?p = "hook_service h" and ?w = "hook_owner h"
  let ?S = "image_mset hook_service (mset hs)" and ?W = "image_mset hook_owner (mset hs)"
  have c: "counted (add_mset ?p ?S) (add_mset ?w ?W) s" and l: "linked s" using ok by (simp_all add: held_for_def)
  show ?thesis unfolding cancel_hook_free_def free_ownership_data_def
  proof (rule returns_bindI [OF bus_owner_unref_spec [OF c]])
    fix s1
    assume 1: "counted (add_mset ?p ?S) ?W s1 \<and>
      bs_services s1 = bs_services s \<and> bs_hash s1 = bs_hash s \<and> bs_hooks s1 = bs_hooks s \<and>
      (\<forall>u. u \<noteq> ?w \<longrightarrow> bs_owners s1 u = bs_owners s u) \<and>
      (\<forall>x. bs_owners s ?w = Some x \<longrightarrow> listed s (ow_service x) ?w \<or> ?w \<in># ?W \<longrightarrow>
         bs_owners s1 ?w = Some (x\<lparr>ow_refcount := ow_refcount x - 1\<rparr>))"
    then have c1: "counted (add_mset ?p ?S) ?W s1" ..
    obtain v where v: "bs_services s1 ?p = Some v" using counted_service_held [OF c1, of ?p] by auto
    have l1: "linked s1" using l 1 by (simp add: linked_def)
    have held1: "\<exists>x. bs_owners s1 (hook_owner k) = Some x \<and> ow_service x = hook_service k" if k: "k \<in> set hs" for k
    proof -
      obtain x where x: "bs_owners s (hook_owner k) = Some x" "ow_service x = hook_service k"
        using ok k by (auto simp: held_for_def)
      show ?thesis
      proof (cases "hook_owner k = ?w")
        case True
        have "?w \<in># ?W" using k by (simp add: image_iff) (metis True)
        then show ?thesis using 1 x True by auto
      qed (use 1 x in simp)
    qed
    have e1: "entry s1 u = entry s u" if "bs_owners s u = Some x" "listed s (ow_service x) u" for u x
      using 1 that by (cases "u = ?w") (simp_all add: entry_def)
    have q1: "names_queue s1 = names_queue s"
      by (rule names_queue_counts [OF c]) (use 1 e1 in auto)
    have free: "sv_owners v = [] \<and> (\<forall>u\<in>#?W. \<forall>x. bs_owners s1 u = Some x \<longrightarrow> ow_service x \<noteq> ?p)"
      if "?p \<notin># ?S" "bs_hash s1 (sv_name v) \<noteq> Some ?p"
      using l1 v that held1 by (fastforce simp: linked_def)
    show "returns (bus_service_unref ?p s1) (\<lambda>s'. held_for hs s' \<and> names_queue s' = names_queue s)"
    proof (rule returns_mono [OF bus_service_unref_spec [OF c1 v free]], assumption, assumption)
      fix s2
      assume 2: "counted ?S ?W s2 \<and> bs_owners s2 = bs_owners s1 \<and> bs_hash s2 = bs_hash s1 \<and> bs_hooks s2 = bs_hooks s1 \<and>
        (\<forall>q. q \<noteq> ?p \<longrightarrow> bs_services s2 q = bs_services s1 q) \<and>
        (if ?p \<in># ?S \<or> bs_hash s1 (sv_name v) = Some ?p
         then bs_services s2 ?p = Some (v\<lparr>sv_refcount := sv_refcount v - 1\<rparr>) else bs_services s2 ?p = None)"
      have v2: "\<exists>u'. bs_services s1 q = Some u' \<and> sv_owners u' = sv_owners u \<and> sv_name u' = sv_name u"
        if "bs_services s2 q = Some u" for q u
        using 2 v that by (cases "q = ?p") (auto split: if_splits)
      have "linked s2" using l1 2 v2 unfolding linked_def by metis
      moreover have "names_queue s2 = names_queue s1"
      proof (rule names_queue_counts [OF c1])
        fix q u assume "bs_services s1 q = Some u" "bs_hash s1 (sv_name u) = Some q"
        then show "\<exists>u'. bs_services s2 q = Some u' \<and> sv_owners u' = sv_owners u"
          using 2 v by (cases "q = ?p") auto
      qed (use 2 in \<open>simp_all add: entry_def\<close>)
      ultimately show "held_for hs s2 \<and> names_queue s2 = names_queue s"
        using 2 held1 q1 by (simp add: held_for_def)
    qed
  qed
qed

lemma free_hooks_ok:
  "held_for hs s \<Longrightarrow> returns (free_hooks hs s)
    (\<lambda>s'. held_for [] s' \<and> bs_hooks s' = [] \<and> names_queue s' = names_queue s)"
proof (induction hs arbitrary: s)
  case Nil
  have "names_queue (s\<lparr>bs_hooks := []\<rparr>) = names_queue s"
    by (simp add: names_queue_def queue_of_def entry_def fun_eq_iff split: option.split)
  with Nil show ?case by (simp add: held_for_def)
next
  case (Cons h hs)
  have "returns (do { s \<leftarrow> cancel_hook_free h s; free_hooks hs s })
    (\<lambda>s'. held_for [] s' \<and> bs_hooks s' = [] \<and> names_queue s' = names_queue s)"
  proof (rule returns_bindI [OF cancel_hook_free_ok [OF Cons.prems]])
    fix s1 assume "held_for hs s1 \<and> names_queue s1 = names_queue s"
    with Cons.IH [of s1] show "returns (free_hooks hs s1)
        (\<lambda>s'. held_for [] s' \<and> bs_hooks s' = [] \<and> names_queue s' = names_queue s)"
      by (auto elim: returns_mono)
  qed
  then show ?case by simp
qed

lemma transaction_free_ok:
  assumes "registry_ok s"
  shows "returns (transaction_free s) (\<lambda>s'. registry_ok s' \<and> bs_hooks s' = [] \<and> names_queue s' = names_queue s)"
proof -
  have "held_for (bs_hooks s) s"
    using assms by (simp add: registry_ok_def bus_ok_def held_for_def hooks_ok_def)
  from free_hooks_ok [OF this] show ?thesis
    unfolding transaction_free_def by (auto simp: held_for_def registry_ok_def bus_ok_def hooks_ok_def elim!: returns_mono)
qed

lemma execute_ok:
  assumes "registry_ok s"
  shows "returns (bus_transaction_execute_and_free s) (\<lambda>(sent, s'). sent = bs_signals s \<and> registry_ok s' \<and>
    bs_hooks s' = [] \<and> names_queue s' = names_queue s)"
  using transaction_free_ok [of "s\<lparr>bs_signals := []\<rparr>"] assms
  by (auto simp: bus_transaction_execute_and_free_def returns_bind elim!: returns_mono)

section \<open>Undoing a request\<close>

text \<open>The hook of an owner that was queued takes it out again.\<close>

lemma cancel_queued_ok:
  assumes ok: "registry_ok s" and h: "CancelOwnership p w \<in> set (bs_hooks s)"
    and v: "bs_services s p = Some v" "sv_name v = n" "w \<in> set (sv_owners v)"
  shows "returns (cancel_ownership p w s) (\<lambda>s'. registry_ok s' \<and> bs_hooks s' = bs_hooks s \<and>
    names_queue s' n = without (conn_of s w) (names_queue s n) \<and>
    (\<forall>m. m \<noteq> n \<longrightarrow> names_queue s' m = names_queue s m))" (is "returns _ ?Post")
proof -
  note b = registry_bus_ok [OF ok]
  have ne: "sv_owners v \<noteq> []" using v(3) by auto
  then have hash: "bs_hash s n = Some p" using ok v(1,2) by (auto simp: registry_ok_def linked_def)
  have rl: "remove_last w (sv_owners v) = remove1 w (sv_owners v)"
    using bus_ok_serviceD(1) [OF b v(1)]
    by (simp add: remove_last_def distinct_remove1_removeAll removeAll_filter_not_eq rev_filter [symmetric])
  show ?thesis
    unfolding cancel_ownership_def
  proof (rule returns_bindI [OF unlink_owner_ok [OF b v(1,3)]], elim conjE)
    fix s1
    assume 1: "bus_ok {#} {#} s1"
      "bs_services s1 = (bs_services s)(p \<mapsto> v\<lparr>sv_owners := remove_last w (sv_owners v)\<rparr>)"
      "bs_hash s1 = bs_hash s" "bs_hooks s1 = bs_hooks s" "\<forall>u. u \<noteq> w \<longrightarrow> bs_owners s1 u = bs_owners s u"
    let ?v1 = "v\<lparr>sv_owners := remove1 w (sv_owners v)\<rparr>"
    have v1: "bs_services s1 p = Some ?v1" "bs_hash s1 (sv_name ?v1) = Some p"
      using 1(2,3) hash v(2) by (simp_all add: rl)
    have used: "p \<in># {#} + hook_services s1" using h 1(4) by force
    show "returns (unlink_if_unowned p s1) ?Post"
    proof (rule returns_mono [OF unlink_if_unowned_ok [OF 1(1) v1 used]], elim conjE exE)
      fix s2 v2
      assume 2: "bus_ok {#} {#} s2" "bs_owners s2 = bs_owners s1" "bs_hooks s2 = bs_hooks s1"
        "\<forall>q. q \<noteq> p \<longrightarrow> bs_services s2 q = bs_services s1 q"
        "bs_hash s2 = (if sv_owners ?v1 = [] then (bs_hash s1)(sv_name ?v1 := None) else bs_hash s1)"
        "bs_services s2 p = Some v2" "sv_name v2 = sv_name ?v1" "sv_owners v2 = sv_owners ?v1"
      have o: "bs_owners s2 u = bs_owners s u" if "u \<noteq> w" for u using that 1(5) 2(2) by simp
      have k: "keeps p s s2" by (rule keeps_drop [OF b v(1,3) o]) (use 1(2) 2(4) in simp_all)
      have "queue_of s2 p = without (conn_of s w) (queue_of s p)"
        unfolding without_def using 2(8) by (intro queue_of_removed [OF b v(1,3) 2(6) _ o]) simp_all
      moreover have "bs_hash s2 = (bs_hash s)(n := if sv_owners v2 = [] then None else Some p)"
        using 2(5,8) 1(3) v(2) hash by (auto simp: fun_upd_idem)
      from registry_step [OF ok 2(1) k disjI1 [OF hash] hash_unique [OF ok hash] 2(6) _ this] 2(7) v(2)
      have "registry_ok s2 \<and> names_queue s2 n = queue_of s2 p \<and> (\<forall>m. m \<noteq> n \<longrightarrow> names_queue s2 m = names_queue s m)"
        by simp
      ultimately show "?Post s2" using 2(3) 1(4) by (simp add: names_queue_Some [OF hash])
    qed
  qed
qed

text \<open>So does it for a new service that did not get into the table, and this frees the service.\<close>

lemma cancel_new_ok:
  assumes ok: "bus_ok {#p#} {#} s" and link: "linked_but p s" and h: "CancelOwnership p w \<in> set (bs_hooks s)"
    and v: "bs_services s p = Some v" "sv_name v = n" "sv_owners v = [w]" and n: "bs_hash s n = None"
  shows "returns (cancel_ownership p w s) (\<lambda>s'. registry_ok s' \<and> bs_hooks s' = bs_hooks s \<and> names_queue s' = names_queue s)"
    (is "returns _ ?Post")
proof -
  have w: "w \<in> set (sv_owners v)" by (simp add: v)
  have rl: "remove_last w (sv_owners v) = []" by (simp add: v remove_last_def)
  have np: "bs_hash s m \<noteq> Some p" for m
    using counted_hashD [OF bus_ok_counted [OF ok], of m p] v n by auto
  show ?thesis
    unfolding cancel_ownership_def
  proof (rule returns_bindI [OF unlink_owner_ok [OF ok v(1) w]], elim conjE)
    fix s1
    assume 1: "bus_ok {#p#} {#} s1"
      "bs_services s1 = (bs_services s)(p \<mapsto> v\<lparr>sv_owners := remove_last w (sv_owners v)\<rparr>)"
      "bs_hash s1 = bs_hash s" "bs_hooks s1 = bs_hooks s" "\<forall>u. u \<noteq> w \<longrightarrow> bs_owners s1 u = bs_owners s u"
      "\<forall>x. bs_owners s w = Some x \<longrightarrow> w \<in># {#} + hook_owners s \<longrightarrow>
         bs_owners s1 w = Some (x\<lparr>ow_refcount := ow_refcount x - 1\<rparr>)"
    let ?v1 = "v\<lparr>sv_owners := []\<rparr>"
    have v1: "bs_services s1 p = Some ?v1" using 1(2) by (simp add: rl)
    have same: "s1\<lparr>bs_hash := (bs_hash s1)(n := None)\<rparr> = s1" using 1(3) n by (simp add: fun_upd_idem)
    have used: "p \<in># {#} + hook_services s1" using h 1(4) by force
    have "returns (bus_service_unref p s1) ?Post"
    proof (rule returns_mono [OF bus_service_unref_ok [OF _ v1 disjI1 [OF used]]], use 1(1) in simp, elim conjE)
      fix s2
      assume 2: "bus_ok {#} {#} s2" "bs_owners s2 = bs_owners s1" "bs_hash s2 = bs_hash s1" "bs_hooks s2 = bs_hooks s1"
        "bs_services s2 = (bs_services s1)(p \<mapsto> ?v1\<lparr>sv_refcount := sv_refcount ?v1 - 1\<rparr>)"
      have "linked s2"
        using link np 1(2,3) 2(3,5) by (auto simp: linked_def linked_but_def split: if_splits)
      moreover have "names_queue s2 = names_queue s"
      proof (rule names_queue_counts [OF bus_ok_counted [OF ok]])
        fix q u x assume x: "bs_owners s u = Some x" "listed s (ow_service x) u"
        have "w \<in># {#} + hook_owners s" using h by force
        then show "entry s2 u = entry s u"
          using x(1) 1(5,6) 2(2) by (cases "u = w") (simp_all add: entry_def)
      next
        fix q u assume "bs_services s q = Some u" "bs_hash s (sv_name u) = Some q"
        then show "\<exists>u'. bs_services s2 q = Some u' \<and> sv_owners u' = sv_owners u"
          using np [of "sv_name u"] 1(2) 2(5) by (cases "q = p") auto
      qed (use 1 2 in simp)
      ultimately show "?Post s2" using 2 1(4) by (simp add: registry_ok_def)
    qed
    then show "returns (unlink_if_unowned p s1) ?Post"
      by (simp add: unlink_if_unowned_def bus_service_unlink_def v1 v(2) same)
  qed
qed

lemma cancel_ok:
  assumes c: "cancellable n s s1" and nh: "bs_hooks s = []"
  shows "returns (bus_transaction_cancel_and_free s1) (\<lambda>s'. registry_ok s' \<and> bs_hooks s' = [] \<and>
    conns (names_queue s' n) \<subseteq> conns (names_queue s1 n) \<and> (\<forall>m. m \<noteq> n \<longrightarrow> names_queue s' m = names_queue s1 m))"
    (is "returns _ ?Post")
proof -
  let ?s = "s1\<lparr>bs_signals := []\<rparr>"
  have free: "returns (transaction_free s2) ?Post"
    if "registry_ok s2" "conns (names_queue s2 n) \<subseteq> conns (names_queue s1 n)"
      "\<forall>m. m \<noteq> n \<longrightarrow> names_queue s2 m = names_queue s1 m" for s2
    using returns_mono [OF transaction_free_ok [OF that(1)], of ?Post] that by auto
  show ?thesis
  proof (cases "bs_hooks s1 = []")
    case True
    then have "registry_ok s1" using c nh by (auto simp: cancellable_def)
    then show ?thesis using True free [of ?s] by (simp add: bus_transaction_cancel_and_free_def)
  next
    case False
    then obtain p w v where h: "bs_hooks s1 = [CancelOwnership p w]"
      and v: "bs_services s1 p = Some v" "sv_name v = n" "w \<in> set (sv_owners v)"
      and r: "registry_ok s1 \<or> bus_ok {#p#} {#} s1 \<and> sv_owners v = [w] \<and> bs_hash s1 n = None \<and> linked_but p s1"
      using c nh by (auto simp: cancellable_def)
    have "returns (cancel_ownership p w ?s) (\<lambda>s2. registry_ok s2 \<and>
      conns (names_queue s2 n) \<subseteq> conns (names_queue s1 n) \<and> (\<forall>m. m \<noteq> n \<longrightarrow> names_queue s2 m = names_queue s1 m))"
    proof (cases "registry_ok s1")
      case True
      with h v show ?thesis by (intro returns_mono [OF cancel_queued_ok [of ?s p w v n]]) auto
    next
      case new: False
      with h v r show ?thesis
        by (intro returns_mono [OF cancel_new_ok [of p ?s w v n]]) (auto simp: linked_but_def)
    qed
    from returns_bindI [OF this, of transaction_free ?Post] free
    show ?thesis by (simp add: bus_transaction_cancel_and_free_def h cancel_hook_cancel_def)
  qed
qed

section \<open>A bus that serves requests\<close>

definition bus_start :: "mem \<Rightarrow> bus" where
  "bus_start m = \<lparr>bs_owners = Map.empty, bs_services = Map.empty, bs_hash = Map.empty, bs_owned = (\<lambda>_. []),
     bs_n_owned = (\<lambda>_. 0), bs_fresh = 0, bs_mem = m, bs_signals = [], bs_hooks = []\<rparr>"

lemma registry_ok_start: "registry_ok (bus_start m)"
  by (simp add: registry_ok_def bus_ok_def counted_defs linked_def hooks_ok_def bus_start_def)

lemma acquired:
  assumes "registry_ok s" "bus_registry_acquire_service g conn n flags s = Some (Inr reply, s1)"
  shows "registry_ok s1" "\<forall>m. m \<noteq> n \<longrightarrow> names_queue s1 m = names_queue s m"
    "(reply, names_queue s1 n) = request_name conn flags (names_queue s n)" "acquire_refused g conn n s = None"
proof -
  show "registry_ok s1" "\<forall>m. m \<noteq> n \<longrightarrow> names_queue s1 m = names_queue s m"
    "(reply, names_queue s1 n) = request_name conn flags (names_queue s n)"
    using acquire_service_ok [OF assms(1), of g conn n flags] assms(2) by (simp_all add: acquire_post_def)
  show "acquire_refused g conn n s = None"
    using assms(2) by (cases "acquire_refused g conn n s") (simp_all add: bus_registry_acquire_service_def)
qed

lemma released:
  assumes "registry_ok s" "bus_registry_release_service conn n s = Some (Inr reply, s1)"
  shows "registry_ok s1" "\<forall>m. m \<noteq> n \<longrightarrow> names_queue s1 m = names_queue s m"
    "(reply, names_queue s1 n) = release_name conn (names_queue s n)"
  using release_service_ok [OF assms(1), of conn n] assms(2) by (auto simp: release_post_def)

lemma executed:
  assumes "registry_ok s" "bus_transaction_execute_and_free s = Some (sent, s')"
  shows "registry_ok s'" "bs_hooks s' = []" "names_queue s' = names_queue s"
  using execute_ok [OF assms(1)] assms(2) by auto

text \<open>What a connection's counter counts: the names it owns or is queued for.\<close>

definition names_of :: "bus \<Rightarrow> connection \<Rightarrow> bytes set" where
  "names_of s c = {n. c \<in> fst ` set (names_queue s n)}"

lemma n_owned_counts_names:
  assumes ok: "registry_ok s" and nh: "bs_hooks s = []"
  shows "finite (names_of s c)" "bs_n_owned s c = int (card (names_of s c))"
proof -
  note b = registry_bus_ok [OF ok]
  have c0: "counted {#} {#} s" using bus_ok_counted [OF b] nh by simp
  have o: "owned_ok s" using c0 by (simp add: counted_def)
  define A where "A = {w. \<exists>x. bs_owners s w = Some x \<and> ow_conn x = c}"
  define sv where "sv = (\<lambda>w. case bs_owners s w of Some x \<Rightarrow> ow_service x | None \<Rightarrow> 0)"
  have fin: "finite A"
    using o by (rule_tac finite_subset [of _ "dom (bs_owners s)"]) (auto simp: owned_ok_def A_def)
  have "mset (bs_owned s c) = image_mset sv (mset_set A)"
  proof (rule multiset_eqI)
    fix p
    have *: "sv -` {p} \<inter> A = held_by s c p" by (auto simp: A_def sv_def held_by_def)
    have "count (image_mset sv (mset_set A)) p = (\<Sum>w\<in>sv -` {p} \<inter> A. count (mset_set A) w)"
      using fin by (simp add: count_image_mset)
    also have "\<dots> = (\<Sum>w\<in>sv -` {p} \<inter> A. 1)" using fin by (intro sum.cong) auto
    finally show "count (mset (bs_owned s c)) p = count (image_mset sv (mset_set A)) p"
      using o by (simp add: owned_ok_def *)
  qed
  then have "length (bs_owned s c) = card A" by (metis size_mset size_image_mset size_mset_set)
  then have n: "bs_n_owned s c = int (card A)" using o by (simp add: owned_ok_def)
  define nm where "nm = (\<lambda>w. case bs_services s (sv w) of Some v \<Rightarrow> sv_name v | None \<Rightarrow> [])"
  have A: "\<exists>v. bs_services s (sv w) = Some v \<and> w \<in> set (sv_owners v) \<and> bs_hash s (nm w) = Some (sv w) \<and> conn_of s w = c"
    if w: "w \<in> A" for w
  proof -
    obtain x where x: "bs_owners s w = Some x" "ow_conn x = c" using w by (auto simp: A_def)
    then have "listed s (sv w) w" using counted_ownerD(3,4) [OF c0 x(1)] by (auto simp: sv_def split: if_splits)
    then obtain v where v: "bs_services s (sv w) = Some v" "w \<in> set (sv_owners v)" by (auto simp: listed_def)
    then have "bs_hash s (sv_name v) = Some (sv w)" using ok by (force simp: registry_ok_def linked_def)
    then show ?thesis using v x by (simp add: nm_def conn_of_def)
  qed
  have "bij_betw nm A (names_of s c)" unfolding bij_betw_def
  proof
    show "inj_on nm A"
    proof (rule inj_onI)
      fix u w assume uw: "u \<in> A" "w \<in> A" "nm u = nm w"
      obtain v where v: "bs_services s (sv u) = Some v" "u \<in> set (sv_owners v)" "bs_hash s (nm u) = Some (sv u)" "conn_of s u = c"
        using A [OF uw(1)] by blast
      then have "w \<in> set (sv_owners v)" "conn_of s w = c" using A [OF uw(2)] uw(3) by auto
      then show "u = w" using bus_ok_serviceD(2) [OF b v(1)] v by (auto dest: inj_onD)
    qed
    show "nm ` A = names_of s c"
    proof
      show "nm ` A \<subseteq> names_of s c"
        using A by (fastforce simp: names_of_def names_queue_def queue_of_def image_image)
      show "names_of s c \<subseteq> nm ` A"
      proof
        fix n assume "n \<in> names_of s c"
        then have nq: "c \<in> fst ` set (names_queue s n)" by (simp add: names_of_def)
        then obtain p where p: "bs_hash s n = Some p" by (cases "bs_hash s n") (auto simp: names_queue_def)
        then obtain v where v: "bs_services s p = Some v" "sv_name v = n" by (rule hash_service [OF ok])
        obtain w where w: "w \<in> set (sv_owners v)" "conn_of s w = c"
          using nq by (auto simp: names_queue_def p queue_of_def v image_image)
        then obtain x where "bs_owners s w = Some x" "ow_service x = p" using bus_ok_serviceD(3) [OF b v(1)] by blast
        then have "w \<in> A" "nm w = n" using w v by (auto simp: A_def nm_def sv_def conn_of_def)
        then show "n \<in> nm ` A" by blast
      qed
    qed
  qed
  then show "finite (names_of s c)" "bs_n_owned s c = int (card (names_of s c))"
    using fin n by (auto simp: bij_betw_finite bij_betw_same_card)
qed

lemma names_of_conns: "names_of s c = {n. c \<in> conns (names_queue s n)}"
  by (simp add: names_of_def conns_def)

section \<open>When no allocation fails\<close>

text \<open>An operation that succeeds with memory left for ever leaves memory for ever.\<close>

lemma try_alloc_Nil: "bs_mem s = [] \<Longrightarrow> try_alloc s = (True, s)"
  by (simp add: try_alloc_def)

lemma send_signal_Nil: "bs_mem s = [] \<Longrightarrow> send_signal h s = (True, s\<lparr>bs_signals := bs_signals s @ [h]\<rparr>)"
  by (simp add: send_signal_def try_alloc_Nil)

lemma add_cancel_hook_Nil:
  "bs_mem s = [] \<Longrightarrow> bus_transaction_add_cancel_hook h s = (True, s\<lparr>bs_hooks := h # bs_hooks s\<rparr>)"
  by (simp add: bus_transaction_add_cancel_hook_def try_alloc_Nil)

lemma mem_kept:
  "bus_owner_ref w s = Some s' \<Longrightarrow> bs_mem s' = bs_mem s"
  "bus_owner_unref w s = Some s' \<Longrightarrow> bs_mem s' = bs_mem s"
  "bus_service_ref p s = Some s' \<Longrightarrow> bs_mem s' = bs_mem s"
  "bus_service_unref p s = Some s' \<Longrightarrow> bs_mem s' = bs_mem s"
  "set_owners p ws s = Some s' \<Longrightarrow> bs_mem s' = bs_mem s"
  by (auto simp: bus_owner_ref_def bus_owner_unref_def bus_service_ref_def bus_service_unref_def set_owners_def
      set_owner_def set_service_def bus_connection_remove_owned_service_def bind_eq_Some_conv split: if_splits)

lemma mem_kept_unlink:
  "bus_service_unlink_owner p w s = Some s' \<Longrightarrow> bs_mem s' = bs_mem s"
  "unlink_if_unowned p s = Some s' \<Longrightarrow> bs_mem s' = bs_mem s"
  by (auto simp: bus_service_unlink_owner_def unlink_if_unowned_def bus_service_unlink_def bind_eq_Some_conv
      dest!: mem_kept split: if_splits)

lemma mem_kept_free: "free_hooks hs s = Some s' \<Longrightarrow> bs_mem s' = bs_mem s"
  by (induction hs arbitrary: s)
    (auto simp: cancel_hook_free_def free_ownership_data_def bind_eq_Some_conv dest!: mem_kept)

lemma add_restore_Nil:
  "add_restore_ownership_to_transaction p w s = Some (ok, s') \<Longrightarrow> bs_mem s = [] \<Longrightarrow> ok \<and> bs_mem s' = []"
  by (auto simp: add_restore_ownership_to_transaction_def try_alloc_Nil add_cancel_hook_Nil bind_eq_Some_conv
      dest!: mem_kept)

lemma remove_owner_Nil:
  "bus_service_remove_owner p c s = Some (r, s') \<Longrightarrow> bs_mem s = [] \<Longrightarrow> r = None \<and> bs_mem s' = []"
  by (auto simp: bus_service_remove_owner_def announce_next_owner_def send_signal_Nil bind_eq_Some_conv
      dest!: mem_kept mem_kept_unlink add_restore_Nil split: if_splits list.splits)

lemma release_service_Nil:
  "bus_registry_release_service c n s = Some (r, s') \<Longrightarrow> bs_mem s = [] \<Longrightarrow> \<not> name_reserved n \<Longrightarrow>
   (\<exists>reply. r = Inr reply) \<and> bs_mem s' = []"
  by (auto simp: bus_registry_release_service_def bind_eq_Some_conv dest!: remove_owner_Nil split: if_splits option.splits)

section \<open>Losing a connection\<close>

lemma cancel_idle:
  "bs_hooks s = [] \<Longrightarrow> bus_transaction_cancel_and_free s = Some (s\<lparr>bs_signals := [], bs_hooks := []\<rparr>)"
  by (simp add: bus_transaction_cancel_and_free_def transaction_free_def)

lemma registry_ok_no_hooks: "bs_hooks s = [] \<Longrightarrow> registry_ok (s\<lparr>bs_hooks := []\<rparr>) = registry_ok s"
  by (simp add: registry_ok_def bus_ok_def hooks_ok_def)

text \<open>Allocations use up answers of the allocator, a failed one at least one.\<close>

lemma try_alloc_length:
  "try_alloc s = (ok, s') \<Longrightarrow>
   length (bs_mem s') \<le> length (bs_mem s) \<and> (\<not> ok \<longrightarrow> length (bs_mem s') < length (bs_mem s))"
  by (cases "bs_mem s") (auto simp: try_alloc_def)

lemma send_signal_length:
  "send_signal h s = (ok, s') \<Longrightarrow>
   length (bs_mem s') \<le> length (bs_mem s) \<and> (\<not> ok \<longrightarrow> length (bs_mem s') < length (bs_mem s))"
  by (auto simp: send_signal_def split: prod.split_asm if_split_asm dest!: try_alloc_length)

lemma add_cancel_hook_length:
  "bus_transaction_add_cancel_hook h s = (ok, s') \<Longrightarrow>
   length (bs_mem s') \<le> length (bs_mem s) \<and> (\<not> ok \<longrightarrow> length (bs_mem s') < length (bs_mem s))"
  by (auto simp: bus_transaction_add_cancel_hook_def split: prod.split_asm if_split_asm dest!: try_alloc_length)

lemma announce_length:
  assumes "announce_next_owner n c w s = Some (ok, s')"
  shows "length (bs_mem s') \<le> length (bs_mem s) \<and> (\<not> ok \<longrightarrow> length (bs_mem s') < length (bs_mem s))"
proof -
  obtain y where y: "bs_owners s w = Some y" using assms by (auto simp: announce_next_owner_def bind_eq_Some_conv)
  obtain ok1 s1 where 1: "send_signal (NameOwnerChanged n (Some c) (Some (ow_conn y))) s = (ok1, s1)" by fastforce
  obtain ok2 s2 where 2: "send_signal (NameAcquired (ow_conn y) n) s1 = (ok2, s2)" by fastforce
  show ?thesis
    using assms send_signal_length [OF 1] send_signal_length [OF 2]
    by (cases ok1) (auto simp: announce_next_owner_def y 1 2)
qed

lemma add_restore_length:
  assumes "add_restore_ownership_to_transaction p w s = Some (ok, s')"
  shows "length (bs_mem s') \<le> length (bs_mem s) \<and> (\<not> ok \<longrightarrow> length (bs_mem s') < length (bs_mem s))"
proof -
  obtain ok1 s1 where 1: "try_alloc s = (ok1, s1)" by fastforce
  obtain sl s2 where 2: "try_alloc s1 = (sl, s2)" by fastforce
  obtain ol s3 where 3: "try_alloc s2 = (ol, s3)" by fastforce
  obtain he s4 where 4: "try_alloc s3 = (he, s4)" by fastforce
  note L = try_alloc_length [OF 1] try_alloc_length [OF 2] try_alloc_length [OF 3] try_alloc_length [OF 4]
  show ?thesis
  proof (cases ok1)
    case True
    then obtain s5 s6 v where 5: "bus_service_ref p s4 = Some s5" "bus_owner_ref w s5 = Some s6" "bs_services s6 p = Some v"
      using assms by (auto simp: add_restore_ownership_to_transaction_def 1 2 3 4 bind_eq_Some_conv)
    have m6: "bs_mem s6 = bs_mem s4" using mem_kept 5 by simp
    let ?h = "RestoreOwnership p w (owner_after w (sv_owners v)) True"
    obtain ok7 s7 where 7: "bus_transaction_add_cancel_hook ?h s6 = (ok7, s7)" by fastforce
    show ?thesis
      using assms L m6 add_cancel_hook_length [OF 7] True
      by (cases "sl \<and> ol \<and> he"; cases ok7)
        (auto simp: add_restore_ownership_to_transaction_def free_ownership_data_def 1 2 3 4 5 7 bind_eq_Some_conv
          dest!: mem_kept)
  qed (use assms L in \<open>auto simp: add_restore_ownership_to_transaction_def 1\<close>)
qed

lemma remove_owner_length:
  assumes "bus_service_remove_owner p c s = Some (r, s')"
  shows "length (bs_mem s') \<le> length (bs_mem s) \<and> (r \<noteq> None \<longrightarrow> length (bs_mem s') < length (bs_mem s))"
  using assms
  by (auto simp: bus_service_remove_owner_def bind_eq_Some_conv
      split: prod.split_asm if_split_asm list.split_asm
      dest!: send_signal_length announce_length add_restore_length mem_kept mem_kept_unlink)

text \<open>Every entry of the list of services leads to a name the connection is queued for.\<close>

lemma owned_service:
  assumes ok: "registry_ok s" and nh: "bs_hooks s = []" and p: "p \<in> set (bs_owned s c)"
  obtains v where "bs_services s p = Some v" "bs_hash s (sv_name v) = Some p" "c \<in> conn_of s ` set (sv_owners v)"
proof -
  have c0: "counted {#} {#} s" using bus_ok_counted [OF registry_bus_ok [OF ok]] nh by simp
  have "count (mset (bs_owned s c)) p = card (held_by s c p)" using c0 by (simp add: counted_def owned_ok_def)
  moreover have "0 < count (mset (bs_owned s c)) p" using p by simp
  ultimately have "card (held_by s c p) \<noteq> 0" by (simp only: less_irrefl not_gr_zero)
  then obtain w where "w \<in> held_by s c p" by (cases "held_by s c p = {}") auto
  then obtain x where x: "bs_owners s w = Some x" "ow_conn x = c" "ow_service x = p" by (auto simp: held_by_def)
  then have "listed s p w" using counted_ownerD(3,4) [OF c0 x(1)] by (auto split: if_splits)
  then obtain v where v: "bs_services s p = Some v" "w \<in> set (sv_owners v)" by (auto simp: listed_def)
  show ?thesis
  proof (rule that [OF v(1)])
    show "bs_hash s (sv_name v) = Some p" using ok v by (force simp: registry_ok_def linked_def)
    show "c \<in> conn_of s ` set (sv_owners v)" using v(2) x by (auto simp: conn_of_def intro: rev_image_eqI)
  qed
qed

lemma without_twice [simp]: "without c (without c q) = without c q"
  by (simp add: without_def)

lemma remove_step:
  assumes ok: "registry_ok s" and v: "bs_services s p = Some v" and h: "bs_hash s (sv_name v) = Some p"
    and post: "remove_owner_post {#} {#} p v conn s r s1"
  shows "registry_ok s1" "\<forall>m. m \<noteq> sv_name v \<longrightarrow> names_queue s1 m = names_queue s m"
    "names_queue s1 (sv_name v) =
      (if r = None then without conn (names_queue s (sv_name v)) else names_queue s (sv_name v))"
    "r \<noteq> None \<Longrightarrow> bs_hooks s1 = bs_hooks s"
proof -
  obtain v1 where 1: "bus_ok {#} {#} s1" "keeps p s s1" "bs_services s1 p = Some v1" "sv_name v1 = sv_name v"
    and err: "r \<noteq> None \<Longrightarrow> sv_owners v1 = sv_owners v \<and> queue_of s1 p = queue_of s p \<and> bs_hash s1 = bs_hash s \<and>
      bs_hooks s1 = bs_hooks s"
    and none: "r = None \<Longrightarrow> queue_of s1 p = without conn (queue_of s p) \<and>
      bs_hash s1 = (if sv_owners v1 = [] then (bs_hash s)(sv_name v := None) else bs_hash s)"
    using post by (auto simp: remove_owner_post_def without_def)
  obtain v' where "bs_services s p = Some v'" "sv_owners v' \<noteq> []" by (rule hash_service [OF ok h])
  then have ne: "sv_owners v \<noteq> []" using v by simp
  have "bs_hash s1 = (bs_hash s)(sv_name v := if sv_owners v1 = [] then None else Some p)"
    using err none h ne by (cases r) (auto simp: fun_upd_idem)
  from registry_step [OF ok 1(1,2) disjI1 [OF h] hash_unique [OF ok h] 1(3,4) this]
  have st: "registry_ok s1" "names_queue s1 (sv_name v) = queue_of s1 p"
    "\<forall>m. m \<noteq> sv_name v \<longrightarrow> names_queue s1 m = names_queue s m" by blast+
  then show "registry_ok s1" "\<forall>m. m \<noteq> sv_name v \<longrightarrow> names_queue s1 m = names_queue s m" by blast+
  show "names_queue s1 (sv_name v) =
      (if r = None then without conn (names_queue s (sv_name v)) else names_queue s (sv_name v))"
    using err none by (auto simp: st(2) names_queue_Some [OF h])
  show "r \<noteq> None \<Longrightarrow> bs_hooks s1 = bs_hooks s" using err by blast
qed

lemma execute_length:
  "bus_transaction_execute_and_free s = Some (sent, s') \<Longrightarrow> bs_mem s' = bs_mem s"
  by (auto simp: bus_transaction_execute_and_free_def transaction_free_def bind_eq_Some_conv dest!: mem_kept_free)

text \<open>One round of the loop gets closer to the end, and drops nobody but the connection.\<close>

definition dropped :: "connection \<Rightarrow> bus \<Rightarrow> bus \<Rightarrow> bool" where
  "dropped conn s s' \<longleftrightarrow> registry_ok s' \<and> bs_hooks s' = [] \<and>
     (\<forall>m. names_queue s' m = names_queue s m \<or> names_queue s' m = without conn (names_queue s m))"

lemma without_shorter: "conn \<in> conns q \<Longrightarrow> conn \<notin> conns (without conn q)"
  by simp

lemma drop_round:
  assumes ok: "registry_ok s" and nh: "bs_hooks s = []" and ne: "bs_owned s conn \<noteq> []"
  obtains s' where "drop_services conn s = drop_services conn s'" "dropped conn s s'"
    "nat (bs_n_owned s' conn) + length (bs_mem s') < nat (bs_n_owned s conn) + length (bs_mem s)"
proof -
  let ?p = "last (bs_owned s conn)"
  obtain v where v: "bs_services s ?p = Some v" and h: "bs_hash s (sv_name v) = Some ?p"
    and c: "conn \<in> conn_of s ` set (sv_owners v)"
    by (rule owned_service [OF ok nh]) (use ne in auto)
  obtain r s1 where rs: "bus_service_remove_owner ?p conn s = Some (r, s1)"
    and post: "remove_owner_post {#} {#} ?p v conn s r s1"
    by (rule returnsE [OF bus_service_remove_owner_ok [OF registry_bus_ok [OF ok] v h c]]) auto
  note st = remove_step [OF ok v h post]
  note len = remove_owner_length [OF rs]
  note n0 = n_owned_counts_names [OF ok nh, of conn]
  have cq: "conn \<in> conns (names_queue s (sv_name v))"
    using c by (simp add: names_queue_Some [OF h] queue_of_Some [OF v] conns_def image_image)
  show ?thesis
  proof (cases r)
    case (Some e)
    have h1: "bs_hooks s1 = []" using st(4) Some nh by simp
    let ?s = "s1\<lparr>bs_signals := [], bs_hooks := []\<rparr>"
    have ok2: "registry_ok ?s" using st(1) h1 by (simp add: registry_ok_no_hooks)
    have q: "names_queue ?s = names_queue s"
    proof
      fix m
      have "names_queue ?s m = names_queue s1 m" by (simp add: names_queue_def queue_of_def entry_def split: option.split)
      also have "\<dots> = names_queue s m" using st(2,3) Some by (cases "m = sv_name v") simp_all
      finally show "names_queue ?s m = names_queue s m" .
    qed
    have "bs_n_owned ?s conn = bs_n_owned s conn"
      using n_owned_counts_names(2) [OF ok2, of conn] n0(2) by (simp add: names_of_def q del: bus.update_convs)
    then show ?thesis
      using that [of ?s] ne len ok2 q Some
      by (simp add: drop_services.simps [of conn s] rs cancel_idle [OF h1] dropped_def)
  next
    case None
    obtain sent s2 where 2: "bus_transaction_execute_and_free s1 = Some (sent, s2)"
      by (rule returnsE [OF execute_ok [OF st(1)]]) auto
    note ex = executed [OF st(1) 2]
    have "conn \<in> conns (names_queue s1 m) \<longleftrightarrow> conn \<in> conns (names_queue s m) \<and> m \<noteq> sv_name v" for m
      using st(2,3) None by (cases "m = sv_name v") simp_all
    then have "names_of s2 conn = names_of s conn - {sv_name v}"
      by (auto simp: names_of_conns ex(3))
    moreover have "sv_name v \<in> names_of s conn" using cq by (simp add: names_of_conns)
    ultimately have "card (names_of s2 conn) < card (names_of s conn)"
      by (intro psubset_card_mono [OF n0(1)]) auto
    then have "nat (bs_n_owned s2 conn) < nat (bs_n_owned s conn)"
      using n_owned_counts_names(2) [OF ex(1,2), of conn] n0(2) by simp
    moreover have "names_queue s2 m = names_queue s m \<or> names_queue s2 m = without conn (names_queue s m)" for m
      using st(2,3) None by (cases "m = sv_name v") (simp_all add: ex(3))
    ultimately have d: "dropped conn s s2" and less: "nat (bs_n_owned s2 conn) < nat (bs_n_owned s conn)"
      using ex by (simp_all add: dropped_def)
    have "length (bs_mem s2) \<le> length (bs_mem s)" using len execute_length [OF 2] by simp
    with less have l: "nat (bs_n_owned s2 conn) + length (bs_mem s2) < nat (bs_n_owned s conn) + length (bs_mem s)"
      by linarith
    have "drop_services conn s = drop_services conn s2"
      using ne None by (simp add: drop_services.simps [of conn s] rs 2)
    then show ?thesis by (rule that [OF _ d l])
  qed
qed

lemma drop_services_ok:
  assumes "registry_ok s" "bs_hooks s = []"
  shows "\<exists>s'. drop_services conn s = Some s' \<and> registry_ok s' \<and> bs_hooks s' = [] \<and>
    (\<forall>m. names_queue s' m = without conn (names_queue s m))"
  using assms
proof (induction s rule: measure_induct_rule [where f = "\<lambda>s. nat (bs_n_owned s conn) + length (bs_mem s)"])
  case (less s)
  show ?case
  proof (cases "bs_owned s conn = []")
    case True
    have c0: "counted {#} {#} s" using bus_ok_counted [OF registry_bus_ok [OF less.prems(1)]] less.prems(2) by simp
    then have "bs_n_owned s conn = 0" using True by (simp add: counted_def owned_ok_def)
    then have "names_of s conn = {}" using n_owned_counts_names [OF less.prems, of conn] by simp
    then have "without conn (names_queue s m) = names_queue s m" for m
      by (intro without_idle) (auto simp: names_of_def)
    then show ?thesis using True less.prems by (simp add: drop_services.simps)
  next
    case False
    obtain s1 where s1: "drop_services conn s = drop_services conn s1" "dropped conn s s1"
      "nat (bs_n_owned s1 conn) + length (bs_mem s1) < nat (bs_n_owned s conn) + length (bs_mem s)"
      by (rule drop_round [OF less.prems False])
    have "registry_ok s1" "bs_hooks s1 = []" using s1(2) by (simp_all add: dropped_def)
    from less.IH [OF s1(3) this] obtain s' where s': "drop_services conn s1 = Some s'" "registry_ok s'" "bs_hooks s' = []"
      "\<forall>m. names_queue s' m = without conn (names_queue s1 m)" by blast
    have "without conn (names_queue s1 m) = without conn (names_queue s m)" for m
      using s1(2) unfolding dropped_def by (metis without_twice)
    then show ?thesis using s1(1) s' by simp
  qed
qed

section \<open>A bus that goes on serving\<close>

text \<open>
  Requests and releases served to the end, ones that fail or cannot be answered and are cancelled,
  and connections that are lost; the allocator may fail at other times than before. A transaction
  with something to restore, one that took a name from its primary owner, is executed: cancelling
  it goes wrong.
\<close>

inductive serves :: "guards \<Rightarrow> bus \<Rightarrow> bool" for g where
  start: "serves g (bus_start m)"
| memory: "serves g s \<Longrightarrow> serves g (s\<lparr>bs_mem := m\<rparr>)"
| request: "serves g s \<Longrightarrow> bus_registry_acquire_service g conn n flags s = Some (Inr reply, s1) \<Longrightarrow>
    bus_transaction_execute_and_free s1 = Some (sent, s2) \<Longrightarrow> serves g s2"
| request_cancelled: "serves g s \<Longrightarrow> bus_registry_acquire_service g conn n flags s = Some (r, s1) \<Longrightarrow>
    undoable s1 \<Longrightarrow> bus_transaction_cancel_and_free s1 = Some s2 \<Longrightarrow> serves g s2"
| release: "serves g s \<Longrightarrow> bus_registry_release_service conn n s = Some (Inr reply', s1) \<Longrightarrow>
    bus_transaction_execute_and_free s1 = Some (sent, s2) \<Longrightarrow> serves g s2"
| release_cancelled: "serves g s \<Longrightarrow> bus_registry_release_service conn n s = Some (r', s1) \<Longrightarrow>
    undoable s1 \<Longrightarrow> bus_transaction_cancel_and_free s1 = Some s2 \<Longrightarrow> serves g s2"
| lost: "serves g s \<Longrightarrow> drop_services conn s = Some s2 \<Longrightarrow> serves g s2"

lemma acquire_any:
  assumes "registry_ok s" "bus_registry_acquire_service g conn n flags s = Some (r, s1)"
  shows "undoable s1 \<Longrightarrow> cancellable n s s1" "\<forall>m. m \<noteq> n \<longrightarrow> names_queue s1 m = names_queue s m"
    "conns (names_queue s1 n) \<subseteq> insert conn (conns (names_queue s n))"
    "acquire_refused g conn n s \<noteq> None \<Longrightarrow> s1 = s"
  using acquire_service_ok [OF assms(1), of g conn n flags] assms(2) by (auto simp: acquire_post_def)

lemma release_any:
  assumes "registry_ok s" "bus_registry_release_service conn n s = Some (r, s1)"
  shows "undoable s1 \<Longrightarrow> cancellable n s s1" "\<forall>m. m \<noteq> n \<longrightarrow> names_queue s1 m = names_queue s m"
    "conns (names_queue s1 n) \<subseteq> conns (names_queue s n)"
  using release_service_ok [OF assms(1), of conn n] assms(2)
  by (auto simp: release_post_def release_name_def cancellable_same split: sum.splits)

lemma cancelled:
  assumes "cancellable n s s1" "bs_hooks s = []" "bus_transaction_cancel_and_free s1 = Some s2"
  shows "registry_ok s2" "bs_hooks s2 = []" "conns (names_queue s2 n) \<subseteq> conns (names_queue s1 n)"
    "\<forall>m. m \<noteq> n \<longrightarrow> names_queue s2 m = names_queue s1 m"
  using cancel_ok [OF assms(1,2)] assms(3) by auto

lemma lost_connection:
  assumes "registry_ok s" "bs_hooks s = []" "drop_services conn s = Some s2"
  shows "registry_ok s2" "bs_hooks s2 = []" "names_queue s2 m = without conn (names_queue s m)"
  using drop_services_ok [OF assms(1,2), of conn] assms(3) by auto

lemma serves_ok: "serves g s \<Longrightarrow> registry_ok s \<and> bs_hooks s = []"
proof (induction rule: serves.induct)
  case (start m)
  then show ?case by (simp add: registry_ok_start) (simp add: bus_start_def)
next
  case (request_cancelled s conn n flags r s1 s2)
  then show ?case using cancelled [OF acquire_any(1)] by blast
next
  case (release_cancelled s conn n r' s1 s2)
  then show ?case using cancelled [OF release_any(1)] by blast
next
  case (lost s conn s2)
  then show ?case using lost_connection by blast
qed (auto dest: acquired(1) released(1) executed)

text \<open>No connection gets beyond the limit on names.\<close>

lemma names_of_grows:
  assumes ok: "registry_ok s" "bs_hooks s = []" and allowed: "acquire_refused g conn n s = None"
    and q: "conns (names_queue s2 n) \<subseteq> insert conn (conns (names_queue s n))"
      "\<forall>m. m \<noteq> n \<longrightarrow> names_queue s2 m = names_queue s m"
    and le: "int (card (names_of s c)) \<le> max 0 (max_services g)"
  shows "int (card (names_of s2 c)) \<le> max 0 (max_services g)"
proof -
  have sub: "names_of s2 c \<subseteq> (if c = conn then insert n (names_of s c) else names_of s c)"
  proof
    fix m assume "m \<in> names_of s2 c"
    then show "m \<in> (if c = conn then insert n (names_of s c) else names_of s c)"
      using q by (cases "m = n") (auto simp: names_of_conns)
  qed
  note fin = n_owned_counts_names [OF ok, of c]
  show ?thesis
  proof (cases "c = conn")
    case True
    have "bs_n_owned s conn < max_services g"
      using allowed by (auto simp: acquire_refused_def split: if_splits option.splits)
    then have "int (card (names_of s c)) + 1 \<le> max_services g" using fin(2) True by simp
    moreover have "card (names_of s2 c) \<le> card (insert n (names_of s c))"
      using sub True fin(1) by (intro card_mono) simp_all
    moreover have "card (insert n (names_of s c)) \<le> card (names_of s c) + 1"
      using fin(1) by (simp add: card_insert_if)
    ultimately show ?thesis by linarith
  next
    case False
    then have "card (names_of s2 c) \<le> card (names_of s c)" using sub fin(1) by (simp add: card_mono)
    then show ?thesis using le by linarith
  qed
qed

lemma names_of_shrinks:
  assumes ok: "registry_ok s" "bs_hooks s = []"
    and q: "\<forall>m. conns (names_queue s2 m) \<subseteq> conns (names_queue s m)"
    and le: "int (card (names_of s c)) \<le> max 0 (max_services g)"
  shows "int (card (names_of s2 c)) \<le> max 0 (max_services g)"
proof -
  have "names_of s2 c \<subseteq> names_of s c" using q by (auto simp: names_of_conns)
  then have "card (names_of s2 c) \<le> card (names_of s c)"
    using n_owned_counts_names(1) [OF ok] by (simp add: card_mono)
  then show ?thesis using le by linarith
qed

lemma serves_names_bound:
  "serves g s \<Longrightarrow> int (card (names_of s c)) \<le> max 0 (max_services g)"
proof (induction rule: serves.induct)
  case (start m)
  then show ?case by (simp add: names_of_def names_queue_def bus_start_def)
next
  case (memory s m)
  then show ?case by (simp add: names_of_def)
next
  case (request s conn n flags reply s1 sent s2)
  have ok: "registry_ok s" "bs_hooks s = []" using serves_ok [OF request.hyps(1)] by simp_all
  note acq = acquired [OF ok(1) request.hyps(2)]
  show ?case
    using names_of_grows [OF ok acq(4) _ _ request.IH, of s2] acquire_any(2,3) [OF ok(1) request.hyps(2)]
      executed(3) [OF acq(1) request.hyps(3)] by simp
next
  case (request_cancelled s conn n flags r s1 s2)
  have ok: "registry_ok s" "bs_hooks s = []" using serves_ok [OF request_cancelled.hyps(1)] by simp_all
  note acq = acquire_any [OF ok(1) request_cancelled.hyps(2)]
  note c = cancelled [OF acq(1) [OF request_cancelled.hyps(3)] ok(2) request_cancelled.hyps(4)]
  show ?case
  proof (cases "acquire_refused g conn n s")
    case None
    have "conns (names_queue s2 n) \<subseteq> insert conn (conns (names_queue s n))" using acq(3) c(3) by blast
    with None show ?thesis using acq(2) c(4) by (intro names_of_grows [OF ok _ _ _ request_cancelled.IH]) auto
  next
    case (Some e)
    then have "s1 = s" using acq(4) by simp
    then have "conns (names_queue s2 m) \<subseteq> conns (names_queue s m)" for m using c(3,4) by (cases "m = n") auto
    then show ?thesis by (intro names_of_shrinks [OF ok _ request_cancelled.IH]) blast
  qed
next
  case (release s conn n reply s1 sent s2)
  have ok: "registry_ok s" "bs_hooks s = []" using serves_ok [OF release.hyps(1)] by simp_all
  note rel = release_any(2,3) [OF ok(1) release.hyps(2)]
  have "names_queue s2 = names_queue s1"
    using executed(3) [OF released(1) [OF ok(1) release.hyps(2)] release.hyps(3)] .
  then have "conns (names_queue s2 m) \<subseteq> conns (names_queue s m)" for m using rel by (cases "m = n") auto
  then show ?case by (intro names_of_shrinks [OF ok _ release.IH]) blast
next
  case (release_cancelled s conn n r s1 s2)
  have ok: "registry_ok s" "bs_hooks s = []" using serves_ok [OF release_cancelled.hyps(1)] by simp_all
  note rel = release_any [OF ok(1) release_cancelled.hyps(2)]
  note c = cancelled [OF rel(1) [OF release_cancelled.hyps(3)] ok(2) release_cancelled.hyps(4)]
  have "conns (names_queue s2 m) \<subseteq> conns (names_queue s m)" for m using rel(2,3) c(3,4) by (cases "m = n") auto
  then show ?case by (intro names_of_shrinks [OF ok _ release_cancelled.IH]) blast
next
  case (lost s conn s2)
  have ok: "registry_ok s" "bs_hooks s = []" using serves_ok [OF lost.hyps(1)] by simp_all
  have "conns (names_queue s2 m) \<subseteq> conns (names_queue s m)" for m
    by (auto simp: lost_connection(3) [OF ok lost.hyps(2)])
  then show ?case by (intro names_of_shrinks [OF ok _ lost.IH]) blast
qed

text \<open>Serving a release to the end, and several in turn.\<close>

definition serve_release :: "connection \<Rightarrow> bytes \<Rightarrow> bus \<Rightarrow> bus option" where
  "serve_release conn n s =
     do { (r, s) \<leftarrow> bus_registry_release_service conn n s;
          case r of
            Inl e \<Rightarrow> None
          | Inr reply \<Rightarrow> do { (sent, s) \<leftarrow> bus_transaction_execute_and_free s; Some s } }"

fun release_in_turn :: "connection list \<Rightarrow> bytes \<Rightarrow> bus \<Rightarrow> bus option" where
  "release_in_turn [] n s = Some s"
| "release_in_turn (c # cs) n s = do { s \<leftarrow> serve_release c n s; release_in_turn cs n s }"

lemma serve_release_ok:
  assumes s: "serves g s" "bs_mem s = []" "\<not> name_reserved n"
  shows "returns (serve_release conn n s) (\<lambda>s'. serves g s' \<and> bs_mem s' = [] \<and>
    names_queue s' n = without conn (names_queue s n) \<and> (\<forall>m. m \<noteq> n \<longrightarrow> names_queue s' m = names_queue s m))"
proof -
  have ok: "registry_ok s" using serves_ok [OF s(1)] ..
  obtain r s1 where 1: "bus_registry_release_service conn n s = Some (r, s1)"
    by (rule returnsE [OF release_service_ok [OF ok, of conn n]]) auto
  from release_service_Nil [OF 1 s(2,3)] obtain reply where r: "r = Inr reply" "bs_mem s1 = []" by blast
  note rel = released [OF ok 1 [unfolded r(1)]]
  obtain sent s2 where 2: "bus_transaction_execute_and_free s1 = Some (sent, s2)"
    by (rule returnsE [OF execute_ok [OF rel(1)]]) auto
  have "bs_mem s2 = []"
    using 2 r(2) by (auto simp: bus_transaction_execute_and_free_def transaction_free_def bind_eq_Some_conv
        dest!: mem_kept_free)
  moreover have "serves g s2" by (rule serves.release [OF s(1) 1 [unfolded r(1)] 2])
  moreover have "names_queue s2 n = without conn (names_queue s n)"
    "\<forall>m. m \<noteq> n \<longrightarrow> names_queue s2 m = names_queue s m"
    using rel(2,3) executed(3) [OF rel(1) 2] by (simp_all add: release_name_def)
  ultimately show ?thesis by (simp add: serve_release_def 1 2 r(1))
qed

text \<open>Only names that may be requested have owners.\<close>

lemma serves_not_reserved: "serves g s \<Longrightarrow> names_queue s n \<noteq> [] \<Longrightarrow> \<not> name_reserved n"
proof -
  have none: "q = [] \<longleftrightarrow> conns q = {}" for q by (simp add: conns_def)
  show "serves g s \<Longrightarrow> names_queue s n \<noteq> [] \<Longrightarrow> \<not> name_reserved n"
  proof (induction rule: serves.induct)
    case (start m)
    then show ?case by (simp add: names_queue_def bus_start_def)
  next
    case (request s conn m flags reply s1 sent s2)
    have ok: "registry_ok s" using serves_ok [OF request.hyps(1)] ..
    note acq = acquired [OF ok request.hyps(2)]
    show ?case
    proof (cases "n = m")
      case True
      then show ?thesis using acq(4) by (auto simp: acquire_refused_def split: if_splits)
    next
      case False
      then show ?thesis
        using request.IH request.prems acq(2) executed(3) [OF acq(1) request.hyps(3)] by simp
    qed
  next
    case (request_cancelled s conn m flags r s1 s2)
    have ok: "registry_ok s" "bs_hooks s = []" using serves_ok [OF request_cancelled.hyps(1)] by simp_all
    note acq = acquire_any [OF ok(1) request_cancelled.hyps(2)]
    note c = cancelled [OF acq(1) [OF request_cancelled.hyps(3)] ok(2) request_cancelled.hyps(4)]
    have "names_queue s n \<noteq> []" if "name_reserved m \<or> n \<noteq> m"
    proof (cases "n = m")
      case True
      with that have "s1 = s" using acq(4) by (simp add: acquire_refused_def)
      then show ?thesis using request_cancelled.prems c(3) True none by auto
    next
      case False
      then show ?thesis using request_cancelled.prems acq(2) c(4) by simp
    qed
    then show ?case using request_cancelled.IH by blast
  next
    case (release s conn m reply s1 sent s2)
    have ok: "registry_ok s" using serves_ok [OF release.hyps(1)] ..
    note rel = released [OF ok release.hyps(2)]
    have "names_queue s n \<noteq> []"
      using release.prems rel(2,3) executed(3) [OF rel(1) release.hyps(3)]
      by (cases "n = m") (auto simp: release_name_def without_def)
    then show ?case by (rule release.IH)
  next
    case (release_cancelled s conn m r s1 s2)
    have ok: "registry_ok s" "bs_hooks s = []" using serves_ok [OF release_cancelled.hyps(1)] by simp_all
    note rel = release_any [OF ok(1) release_cancelled.hyps(2)]
    note c = cancelled [OF rel(1) [OF release_cancelled.hyps(3)] ok(2) release_cancelled.hyps(4)]
    have "names_queue s n \<noteq> []"
      using release_cancelled.prems rel(2,3) c(3,4) none by (cases "n = m") auto
    then show ?case by (rule release_cancelled.IH)
  next
    case (lost s conn s2)
    have ok: "registry_ok s" "bs_hooks s = []" using serves_ok [OF lost.hyps(1)] by simp_all
    have "names_queue s n \<noteq> []"
      using lost.prems lost_connection(3) [OF ok lost.hyps(2), of n] by (auto simp: without_def)
    then show ?case by (rule lost.IH)
  qed simp
qed

lemma serves_distinct: "serves g s \<Longrightarrow> distinct (map fst (names_queue s n))"
  using distinct_queue [OF registry_bus_ok] serves_ok by (auto simp: names_queue_def split: option.split)

lemma release_in_turn_ok:
  "serves g s \<Longrightarrow> bs_mem s = [] \<Longrightarrow> names_queue s n = q @ e # r \<Longrightarrow>
   returns (release_in_turn (map fst q) n s) (\<lambda>s'. serves g s' \<and> names_queue s' n = e # r)"
proof (induction q arbitrary: s)
  case (Cons a q)
  have nr: "\<not> name_reserved n" using serves_not_reserved [OF Cons.prems(1), of n] Cons.prems(3) by simp
  have "distinct (map fst (a # q @ e # r))" using serves_distinct [OF Cons.prems(1), of n] Cons.prems(3) by simp
  moreover have "fst a \<notin> fst ` set l \<Longrightarrow> filter (\<lambda>e. fst e \<noteq> fst a) l = l" for l :: "queue_entry list"
    using without_idle [of "fst a" l] by (simp add: without_def)
  ultimately have w: "without (fst a) (names_queue s n) = q @ e # r"
    using Cons.prems(3) by (simp add: without_def)
  have "returns (do { s \<leftarrow> serve_release (fst a) n s; release_in_turn (map fst q) n s })
    (\<lambda>s'. serves g s' \<and> names_queue s' n = e # r)"
  proof (rule returns_bindI [OF serve_release_ok [OF Cons.prems(1,2) nr]])
    fix s1
    assume "serves g s1 \<and> bs_mem s1 = [] \<and> names_queue s1 n = without (fst a) (names_queue s n) \<and>
      (\<forall>m. m \<noteq> n \<longrightarrow> names_queue s1 m = names_queue s m)"
    then show "returns (release_in_turn (map fst q) n s1) (\<lambda>s'. serves g s' \<and> names_queue s' n = e # r)"
      using Cons.IH [of s1] w by simp
  qed
  then show ?case by simp
qed simp

text \<open>Every request and release runs to the end, and so does its transaction unless it would have to restore.\<close>

lemma request_completes:
  assumes "registry_ok s" "bs_hooks s = []"
  shows "\<exists>r s1. bus_registry_acquire_service g conn n flags s = Some (r, s1) \<and>
    (case r of Inl e \<Rightarrow> True | Inr reply \<Rightarrow> \<exists>sent s2. bus_transaction_execute_and_free s1 = Some (sent, s2)) \<and>
    (undoable s1 \<longrightarrow> (\<exists>s2. bus_transaction_cancel_and_free s1 = Some s2))"
proof (rule returnsE [OF acquire_service_ok [OF assms(1), of g conn n flags]], clarify)
  fix r s1
  assume 1: "bus_registry_acquire_service g conn n flags s = Some (r, s1)"
  have "\<exists>s2. bus_transaction_cancel_and_free s1 = Some s2" if "undoable s1"
    using cancel_ok [OF acquire_any(1) [OF assms(1) 1 that] assms(2)] by (auto simp: returns_def)
  moreover have "\<exists>sent s2. bus_transaction_execute_and_free s1 = Some (sent, s2)" if "r = Inr reply" for reply
    using execute_ok [OF acquired(1) [OF assms(1) 1 [unfolded that]]] by (auto simp: returns_def)
  ultimately show ?thesis using 1 by (auto split: sum.split)
qed

lemma release_completes:
  assumes "registry_ok s" "bs_hooks s = []"
  shows "\<exists>r s1. bus_registry_release_service conn n s = Some (r, s1) \<and>
    (case r of Inl e \<Rightarrow> undoable s1 | Inr reply \<Rightarrow> \<exists>sent s2. bus_transaction_execute_and_free s1 = Some (sent, s2)) \<and>
    (undoable s1 \<longrightarrow> (\<exists>s2. bus_transaction_cancel_and_free s1 = Some s2))"
proof (rule returnsE [OF release_service_ok [OF assms(1), of conn n]], clarify)
  fix r s1
  assume 1: "bus_registry_release_service conn n s = Some (r, s1)" and post: "release_post conn n s r s1"
  have "\<exists>s2. bus_transaction_cancel_and_free s1 = Some s2" if "undoable s1"
    using cancel_ok [OF release_any(1) [OF assms(1) 1 that] assms(2)] by (auto simp: returns_def)
  moreover have "\<exists>sent s2. bus_transaction_execute_and_free s1 = Some (sent, s2)" if "r = Inr reply" for reply
    using execute_ok [OF released(1) [OF assms(1) 1 [unfolded that]]] by (auto simp: returns_def)
  moreover have "undoable s1" if "r = Inl e" for e using post that assms(2) by (simp add: release_post_def undoable_def)
  ultimately show ?thesis using 1 by (auto split: sum.split)
qed

section \<open>Undoing a release\<close>

text \<open>The hook that would restore the primary owner, and what it does.\<close>

lemma released_by_owner:
  assumes ok: "registry_ok s" "bs_hooks s = []" and q: "names_queue s n = (c, allow, leaves) # q"
    and rel: "bus_registry_release_service c n s = Some (Inr REPLY_RELEASED, s1)"
  obtains p v w b where "bus_ok {#} {#} s1" "bs_services s1 p = Some v" "sv_name v = n" "queue_of s1 p = q"
    "bs_hooks s1 = [RestoreOwnership p w b True]"
proof -
  note b = registry_bus_ok [OF ok(1)]
  have nr: "\<not> name_reserved n" using rel by (auto simp: bus_registry_release_service_def)
  obtain p where p: "bs_hash s n = Some p" using q by (cases "bs_hash s n") (simp_all add: names_queue_def)
  then obtain v where v: "bs_services s p = Some v" "sv_name v = n" by (rule hash_service [OF ok(1)])
  have qp: "queue_of s p = (c, allow, leaves) # q" using q by (simp add: names_queue_Some [OF p])
  obtain w ws where ws: "sv_owners v = w # ws" "entry s w = (c, allow, leaves)"
    using qp by (cases "sv_owners v") (auto simp: queue_of_Some [OF v(1)])
  have cw: "conn_of s w = c" using ws(2) fst_entry [of s w] by simp
  have "fst (c, allow, leaves) \<notin> fst ` set q"
    using distinct_queue [OF b, of p] by (simp add: qp)
  then have wq: "without c ((c, allow, leaves) # q) = q" using without_idle [of c q] by (simp add: without_def)
  obtain r s2 where 2: "bus_service_remove_owner p c s = Some (r, s2)" "remove_owner_post {#} {#} p v c s r s2"
    by (rule returnsE [OF bus_service_remove_owner_ok [OF b v(1), of c]]) (use p v(2) cw ws(1) in auto)
  have "r = None \<and> s2 = s1"
    using rel 2(1) nr p qp
    by (auto simp: bus_registry_release_service_def bus_registry_lookup_def has_owner_eq [OF b v(1)]
        bind_eq_Some_conv split: option.splits if_splits)
  with 2(2) ok(2) v(2) ws(1) cw wq qp that show ?thesis
    by (auto simp: remove_owner_post_def without_def)
qed

lemma restore_queued_fails:
  assumes "bs_services s p = Some v" "queue_of s p \<noteq> []" "bs_hooks s = [RestoreOwnership p w b True]"
  shows "bus_transaction_cancel_and_free s = None"
  using assms
  by (auto simp: bus_transaction_cancel_and_free_def cancel_hook_cancel_def restore_ownership_def queue_of_def)

lemma restore_only_dangles:
  assumes ok: "bus_ok {#} {#} s" and v: "bs_services s p = Some v" "queue_of s p = []"
    and h: "bs_hooks s = [RestoreOwnership p w b True]" and n: "bs_hash s (sv_name v) = None"
  shows "\<exists>s2 v2. bus_transaction_cancel_and_free s = Some s2 \<and> bs_hash s2 (sv_name v) = Some p \<and>
    bs_services s2 p = Some v2 \<and> sv_owners v2 = [w] \<and> bs_owners s2 w = None"
proof -
  have c: "counted {#p#} {#w#} s" using bus_ok_counted [OF ok] h by simp
  have ov: "sv_owners v = []" using v by (simp add: queue_of_Some)
  obtain x where x: "bs_owners s w = Some x" "ow_service x = p" using ok h by (auto simp: bus_ok_def hooks_ok_def)
  have "ow_refcount x = 1" using c x v ov by (auto simp: counted_def owners_ok_def listed_def)
  moreover have "sv_refcount v = 1" using c v n by (auto simp: counted_def services_ok_def)
  moreover have "0 \<le> bs_n_owned s (ow_conn x)" using c by (simp add: counted_def owned_ok_def)
  ultimately show ?thesis using v x h ov n
    by (simp add: bus_transaction_cancel_and_free_def cancel_hook_cancel_def restore_ownership_def bus_service_relink_def
        bus_service_ref_def set_owners_def transaction_free_def cancel_hook_free_def free_ownership_data_def
        bus_owner_unref_def bus_service_unref_def bus_connection_add_owned_service_link_def
        bus_connection_remove_owned_service_def set_service_def)
qed

section \<open>Properties\<close>

text \<open>A bus on which every connection may own names, up to eight of them.\<close>

definition open_guards :: guards where
  "open_guards = \<lparr>allows_selinux = (\<lambda>_ _. None), allows_apparmor = (\<lambda>_ _. None), can_own = (\<lambda>_ _. True), max_services = 8\<rparr>"

text \<open>Requests served one after the other.\<close>

fun acquire_all :: "(connection \<times> 32 word) list \<Rightarrow> bytes \<Rightarrow> bus \<Rightarrow> bus option" where
  "acquire_all [] n s = Some s"
| "acquire_all ((c, flags) # cs) n s =
     do { (r, s) \<leftarrow> bus_registry_acquire_service open_guards c n flags s;
          case r of
            Inl e \<Rightarrow> None
          | Inr reply \<Rightarrow> do { (sent, s) \<leftarrow> bus_transaction_execute_and_free s; acquire_all cs n s } }"

lemma acquire_all_serves: "acquire_all cs n s = Some s' \<Longrightarrow> serves open_guards s \<Longrightarrow> serves open_guards s'"
proof (induction cs arbitrary: s)
  case (Cons a cs)
  obtain c flags where a: "a = (c, flags)" by fastforce
  obtain r s1 where 1: "bus_registry_acquire_service open_guards c n flags s = Some (r, s1)"
    using Cons.prems(1) by (auto simp: a bind_eq_Some_conv)
  obtain reply where r: "r = Inr reply" using Cons.prems(1) by (cases r) (simp_all add: a 1)
  obtain sent s2 where "bus_transaction_execute_and_free s1 = Some (sent, s2)"
    and rest: "acquire_all cs n s2 = Some s'"
    using Cons.prems(1) by (auto simp: a 1 r bind_eq_Some_conv)
  with 1 r have "bus_registry_acquire_service open_guards c n flags s = Some (Inr reply, s1)"
    "bus_transaction_execute_and_free s1 = Some (sent, s2)" by simp_all
  then have "serves open_guards s2" by (rule serves.request [OF Cons.prems(2)])
  with rest show ?case by (rule Cons.IH)
qed simp

text \<open>A request that runs out of memory after it was queued, and is cancelled.\<close>

definition failed_request :: "bus option" where
  "failed_request =
     do { s \<leftarrow> acquire_all [(1, 0), (2, 0)] (bytes ''a.b'') (bus_start []);
          (r, s1) \<leftarrow> bus_registry_acquire_service open_guards 3 (bytes ''a.b'') 0 (s\<lparr>bs_mem := replicate 6 True @ [False]\<rparr>);
          if r = Inl NO_MEMORY \<and> undoable s1 \<and> bs_hooks s1 \<noteq> [] then bus_transaction_cancel_and_free s1 else None }"

lemma failed_request_serves: "failed_request = Some s \<Longrightarrow> serves open_guards s"
  by (auto simp: failed_request_def bind_eq_Some_conv split: if_splits simp del: acquire_all.simps bytes_Cons
      intro: serves.request_cancelled [OF serves.memory [OF acquire_all_serves [OF _ serves.start]]])

lemma two_owners_queue:
  "\<exists>s. serves open_guards s \<and> bs_mem s = [] \<and> names_queue s (bytes ''a.b'') = [(1, False, False)] @ (2, False, False) # []"
proof -
  have "map_option (\<lambda>s. (bs_mem s, names_queue s (bytes ''a.b''))) (acquire_all [(1, 0), (2, 0)] (bytes ''a.b'') (bus_start [])) =
      Some ([], [(1, False, False), (2, False, False)])" by code_simp
  then show ?thesis using acquire_all_serves [OF _ serves.start] by fastforce
qed

text \<open>
  C31. Requesting a name neither stops nor touches another name, whatever allocations fail. When
  it succeeds the registry is in order and the reply and the queue are those of request_name.
  When nobody waits in the queue who asked not to (which requests and releases keep so), the new
  queue is the one doc/dbus-specification.xml describes, except for a caller that asks to
  replace the owner, cannot and is ready to wait: the code puts it second, whether or not it was
  queued, where the specification appends it or only updates its flags.
\<close>

theorem acquire_service_refines:
  assumes "registry_ok s"
  shows "\<exists>r s'. bus_registry_acquire_service g conn n flags s = Some (r, s') \<and>
    (\<forall>m. m \<noteq> n \<longrightarrow> names_queue s' m = names_queue s m) \<and>
    (case r of
       Inl e \<Rightarrow> acquire_refused g conn n s \<noteq> None \<longrightarrow> s' = s
     | Inr reply \<Rightarrow> registry_ok s' \<and> (reply, names_queue s' n) = request_name conn flags (names_queue s n) \<and>
         (waiting_ok (names_queue s n) \<longrightarrow> waiting_ok (names_queue s' n) \<and>
            names_queue s' n =
              (if jumps_queue conn flags (names_queue s n)
               then hd (names_queue s n) # flag_entry conn flags # without conn (tl (names_queue s n))
               else documented_request conn flags (names_queue s n))))"
proof (rule returnsE [OF acquire_service_ok [OF assms, of g conn n flags]], clarify)
  fix r s'
  assume 1: "bus_registry_acquire_service g conn n flags s = Some (r, s')" "acquire_post conn n flags s r s'"
    "acquire_refused g conn n s \<noteq> None \<longrightarrow> s' = s"
  show ?thesis
  proof (cases r)
    case (Inr reply)
    then have "names_queue s' n = snd (request_name conn flags (names_queue s n))"
      using 1(2) by (simp add: acquire_post_def flip: prod.inject) (metis snd_conv)
    then show ?thesis
      using 1 Inr waiting_kept(1) [of "names_queue s n" conn flags] request_name_documented [of "names_queue s n" conn flags]
      by (simp add: acquire_post_def)
  qed (use 1 in \<open>simp add: acquire_post_def\<close>)
qed

lemma acquire_service_refines_witness:
  "\<exists>s r s'. names_queue s (bytes ''a.b'') = [(1, False, False), (2, False, False)] \<and>
     bus_registry_acquire_service open_guards 3 (bytes ''a.b'') REPLACE_EXISTING s = Some (r, s') \<and>
     (\<forall>reply. r = Inr reply \<longrightarrow> names_queue s' (bytes ''a.b'') = [(1, False, False), (3, False, False), (2, False, False)])"
proof -
  obtain s where s: "serves open_guards s" "names_queue s (bytes ''a.b'') = [(1, False, False)] @ (2, False, False) # []"
    using two_owners_queue by blast
  have ok: "registry_ok s" using serves_ok [OF s(1)] ..
  have q: "waiting_ok (names_queue s (bytes ''a.b''))"
    "jumps_queue 3 REPLACE_EXISTING (names_queue s (bytes ''a.b''))"
    "hd (names_queue s (bytes ''a.b'')) # flag_entry 3 REPLACE_EXISTING # without 3 (tl (names_queue s (bytes ''a.b''))) =
       [(1, False, False), (3, False, False), (2, False, False)]"
    unfolding s(2)
    by (simp_all add: waiting_ok_def wants_out_def jumps_queue_def replaces_def has_flag_def flag_entry_def without_def)
  obtain r s' where "bus_registry_acquire_service open_guards 3 (bytes ''a.b'') REPLACE_EXISTING s = Some (r, s')"
    "\<forall>reply. r = Inr reply \<longrightarrow> names_queue s' (bytes ''a.b'') = [(1, False, False), (3, False, False), (2, False, False)]"
    using acquire_service_refines [OF ok, of open_guards 3 "bytes ''a.b''" REPLACE_EXISTING] q by fastforce
  then show ?thesis using s(2) by auto
qed

text \<open>
  C32. Releasing a name neither stops nor touches another name, keeps the registry in order and
  leaves the queue of the name as it is on failure; on success the reply and the queue are those
  of the abstract release_name, so that the next in the queue is the owner.
\<close>

theorem release_service_refines:
  assumes "registry_ok s"
  shows "\<exists>r s'. bus_registry_release_service conn n s = Some (r, s') \<and> registry_ok s' \<and>
    (\<forall>m. m \<noteq> n \<longrightarrow> names_queue s' m = names_queue s m) \<and>
    (case r of
       Inl e \<Rightarrow> names_queue s' n = names_queue s n
     | Inr reply \<Rightarrow> (reply, names_queue s' n) = release_name conn (names_queue s n))"
proof (rule returnsE [OF release_service_ok [OF assms, of conn n]], clarify)
  fix r s'
  assume "bus_registry_release_service conn n s = Some (r, s')" "release_post conn n s r s'"
  then show ?thesis by (cases r) (simp_all add: release_post_def)
qed

lemma release_service_refines_witness:
  "registry_ok (bus_start []) \<and>
   (\<exists>r s'. bus_registry_release_service 1 (bytes ''a.b'') (bus_start []) = Some (r, s') \<and> registry_ok s')"
  using release_service_refines [OF registry_ok_start, of 1 "bytes ''a.b''" "[]"] registry_ok_start by fastforce

text \<open>
  C33. Over any sequence of requests and releases that are executed, that fail, or that are
  cancelled while nothing has to be restored, and of lost connections, with any failing
  allocations: the reference counts and lists stay in order, the counter of a connection is the
  number of names it owns or waits for, and never exceeds the configured limit. In every such
  state each request, each release and the loss of a connection run to the end, and so do
  executing what succeeded and cancelling what has nothing to restore, which every failed
  release is. Cancelling a transaction that took a name from its primary owner is not covered:
  it goes wrong, as shown for releases.
\<close>

theorem serves_in_bounds:
  assumes "serves g s"
  shows "registry_ok s \<and> bs_n_owned s c = int (card (names_of s c)) \<and> bs_n_owned s c \<le> max 0 (max_services g) \<and>
    (\<exists>r s1. bus_registry_acquire_service g conn n flags s = Some (r, s1) \<and>
       (case r of Inl e \<Rightarrow> True | Inr reply \<Rightarrow> \<exists>sent s2. bus_transaction_execute_and_free s1 = Some (sent, s2)) \<and>
       (undoable s1 \<longrightarrow> (\<exists>s2. bus_transaction_cancel_and_free s1 = Some s2))) \<and>
    (\<exists>r s1. bus_registry_release_service conn n s = Some (r, s1) \<and>
       (case r of Inl e \<Rightarrow> undoable s1 | Inr reply \<Rightarrow> \<exists>sent s2. bus_transaction_execute_and_free s1 = Some (sent, s2)) \<and>
       (undoable s1 \<longrightarrow> (\<exists>s2. bus_transaction_cancel_and_free s1 = Some s2))) \<and>
    (\<exists>s2. drop_services conn s = Some s2)"
  using serves_ok [OF assms] n_owned_counts_names(2) [of s c] serves_names_bound [OF assms, of c]
    request_completes [of s g conn n flags] release_completes [of s conn n] drop_services_ok [of s conn]
  by auto

lemma serves_in_bounds_witness:
  "\<exists>s. serves open_guards s \<and> failed_request = Some s \<and>
     names_queue s (bytes ''a.b'') = [(1, False, False), (2, False, False)] \<and>
     registry_ok s \<and> bs_n_owned s 3 = int (card (names_of s 3)) \<and> bs_n_owned s 2 \<le> 8 \<and>
     (\<exists>s2. drop_services 1 s = Some s2)"
proof -
  have "map_option (\<lambda>s. names_queue s (bytes ''a.b'')) failed_request = Some [(1, False, False), (2, False, False)]"
    by code_simp
  then obtain s where s: "failed_request = Some s" "names_queue s (bytes ''a.b'') = [(1, False, False), (2, False, False)]"
    by auto
  note r = failed_request_serves [OF s(1)]
  show ?thesis
    using serves_in_bounds [OF r, of 3 1 "[]" 0] serves_in_bounds [OF r, of 2 1 "[]" 0] s r
    by (auto simp: open_guards_def)
qed

text \<open>
  C34. A connection that waits for a name becomes its owner: with no allocation failing, the
  releases of those before it in the queue all succeed and leave it first.
\<close>

theorem queued_becomes_owner:
  assumes "serves g s" "bs_mem s = []" "names_queue s n = q @ e # r"
  shows "\<exists>s'. release_in_turn (map fst q) n s = Some s' \<and> serves g s' \<and> names_queue s' n = e # r"
  using release_in_turn_ok [OF assms] by (auto simp: returns_def)

lemma queued_becomes_owner_witness:
  "\<exists>s s'. serves open_guards s \<and> bs_mem s = [] \<and>
     names_queue s (bytes ''a.b'') = [(1, False, False)] @ (2, False, False) # [] \<and>
     release_in_turn [1] (bytes ''a.b'') s = Some s' \<and> names_queue s' (bytes ''a.b'') = [(2, False, False)]"
proof -
  obtain s where s: "serves open_guards s" "bs_mem s = []"
      "names_queue s (bytes ''a.b'') = [(1, False, False)] @ (2, False, False) # []"
    using two_owners_queue by blast
  from queued_becomes_owner [OF s] s show ?thesis by auto
qed

text \<open>
  C35. Losing a connection ends: whatever allocations fail on the way, the loop that drops its
  services stops, and it leaves every name without that connection and otherwise as it was.
\<close>

theorem drop_services_terminates:
  assumes "serves g s"
  shows "\<exists>s'. drop_services conn s = Some s' \<and> registry_ok s' \<and>
    (\<forall>n. names_queue s' n = without conn (names_queue s n))"
  using drop_services_ok serves_ok [OF assms] by blast

lemma drop_services_terminates_witness:
  "\<exists>s s'. serves open_guards s \<and> names_queue s (bytes ''a.b'') = [(1, False, False), (2, False, False)] \<and>
     drop_services 1 s = Some s' \<and> names_queue s' (bytes ''a.b'') = [(2, False, False)]"
proof -
  obtain s where s: "serves open_guards s" "names_queue s (bytes ''a.b'') = [(1, False, False)] @ (2, False, False) # []"
    using two_owners_queue by blast
  from drop_services_terminates [OF s(1), of 1] s show ?thesis by (auto simp: without_def)
qed

text \<open>
  C38. When the primary owner of a name has released it, cancelling the transaction goes wrong,
  in every state of the registry between transactions: if others were queued, undoing the
  release fails an assertion; if not, the name is back with an owner that has been freed.
\<close>

theorem cancel_release_unsafe:
  assumes "registry_ok s" "bs_hooks s = []" "names_queue s n = (c, allow, leaves) # q"
    and "bus_registry_release_service c n s = Some (Inr REPLY_RELEASED, s1)"
  shows "if q = []
    then \<exists>s2 p v w. bus_transaction_cancel_and_free s1 = Some s2 \<and> bs_hash s2 n = Some p \<and>
           bs_services s2 p = Some v \<and> sv_owners v = [w] \<and> bs_owners s2 w = None
    else bus_transaction_cancel_and_free s1 = None"
proof (rule released_by_owner [OF assms])
  fix p v w b
  assume 1: "bus_ok {#} {#} s1" "bs_services s1 p = Some v" "sv_name v = n" "queue_of s1 p = q"
    "bs_hooks s1 = [RestoreOwnership p w b True]"
  show ?thesis
  proof (cases "q = []")
    case True
    have ok1: "registry_ok s1" using released(1) [OF assms(1,4)] .
    have "names_queue s1 n = []"
      using released(3) [OF assms(1,4)] assms(3) True by (simp add: release_name_def without_def)
    then have "bs_hash s1 n = None"
      by (metis hash_service [OF ok1] map_is_Nil_conv names_queue_Some not_None_eq queue_of_Some)
    then show ?thesis using restore_only_dangles [OF 1(1,2)] 1(3-5) True by auto
  next
    case False
    then show ?thesis using restore_queued_fails [OF 1(2) _ 1(5)] 1(4) by simp
  qed
qed

lemma cancel_release_unsafe_witness:
  "\<exists>s s1. names_queue s (bytes ''a.b'') = [(1, False, False), (2, False, False)] \<and>
     bus_registry_release_service 1 (bytes ''a.b'') s = Some (Inr REPLY_RELEASED, s1) \<and>
     bus_transaction_cancel_and_free s1 = None"
proof -
  have "map_option (\<lambda>s. (names_queue s (bytes ''a.b''), map_option fst (bus_registry_release_service 1 (bytes ''a.b'') s)))
      (acquire_all [(1, 0), (2, 0)] (bytes ''a.b'') (bus_start [])) =
    Some ([(1, False, False), (2, False, False)], Some (Inr REPLY_RELEASED))" by code_simp
  then obtain s s1 where 1: "acquire_all [(1, 0), (2, 0)] (bytes ''a.b'') (bus_start []) = Some s"
    "names_queue s (bytes ''a.b'') = [(1, False, False), (2, False, False)]"
    "bus_registry_release_service 1 (bytes ''a.b'') s = Some (Inr REPLY_RELEASED, s1)" by auto
  have ok: "registry_ok s" "bs_hooks s = []" using serves_ok [OF acquire_all_serves [OF 1(1) serves.start]] by simp_all
  from cancel_release_unsafe [OF ok 1(2,3)] 1 show ?thesis by auto
qed

end
