(* ===== verification/DHash.thy ===== *)
theory DHash
  imports Prelude "HOL-Library.Monad_Syntax"
begin

text \<open>
  Hash tables, \<^verbatim>\<open>dbus/dbus-hash.c\<close>: chained buckets that grow by four when they fill up, with
  string keys compared by content or integer keys compared as words, entries from a memory pool,
  and iterators that survive the removal of entries.

  Entries are objects of a store; the chain of a bucket is the list of its entries, the entry after
  another in the list being its \<^verbatim>\<open>next\<close>. A pointer to a bucket is the number of the bucket array,
  counted up at every rebuild, with an index, so that a pointer into an array that was replaced
  shows. \<open>None\<close> is a failed assertion, a bad pointer or an integer overflow. Values are addresses
  with 0 for \<open>NULL\<close>; what the free functions are called with is logged. Every allocation consumes
  one answer.
\<close>

section \<open>State\<close>

text \<open>A string key is an address with the text there, which may not change while it is in a table.\<close>

datatype hash_key = StringKey nat string | DirectKey "64 word"

datatype hash_type = DBUS_HASH_STRING | DBUS_HASH_INT | DBUS_HASH_UINTPTR

record hash_entry =
  he_key :: hash_key
  he_value :: nat

type_synonym bucket_ptr = "nat \<times> nat"

record hash_table =
  ht_refcount :: int
  ht_array :: nat
  ht_buckets :: "nat list list"
  ht_n_buckets :: int
  ht_n_entries :: int
  ht_hi_rebuild_size :: int
  ht_lo_rebuild_size :: int
  ht_down_shift :: int
  ht_mask :: int
  ht_key_type :: hash_type
  ht_free_key_function :: bool
  ht_free_value_function :: bool
  ht_entries :: "nat \<rightharpoonup> hash_entry"
  ht_fresh :: nat
  ht_mem :: mem
  ht_freed_keys :: "hash_key list"
  ht_freed_values :: "nat list"

abbreviation (input) REBUILD_MULTIPLIER :: int where "REBUILD_MULTIPLIER \<equiv> 3"
abbreviation (input) DBUS_SMALL_HASH_TABLE :: int where "DBUS_SMALL_HASH_TABLE \<equiv> 4"
abbreviation (input) INT_MAX :: int where "INT_MAX \<equiv> 2147483647"

text \<open>Arithmetic on an \<open>int\<close>, whose overflow is undefined.\<close>

definition int32 :: "int \<Rightarrow> int option" where
  "int32 i = (if - INT_MAX - 1 \<le> i \<and> i \<le> INT_MAX then Some i else None)"

text \<open>
  \<^verbatim>\<open>RANDOM_INDEX\<close>, on pointers of 64 bits: an arithmetic shift of a signed product, which for keys
  that are pointers is taken to wrap around.
\<close>

definition RANDOM_INDEX :: "hash_table \<Rightarrow> 64 word \<Rightarrow> 32 word" where
  "RANDOM_INDEX t i = ucast (signed_drop_bit (nat (ht_down_shift t)) (i * 1103515245) AND of_int (ht_mask t))"

text \<open>Characters are signed, as on x86.\<close>

fun string_hash_loop :: "string \<Rightarrow> 32 word \<Rightarrow> 32 word" where
  "string_hash_loop [] h = h"
| "string_hash_loop (c # cs) h = string_hash_loop cs (push_bit 5 h - h + scast (of_char c :: byte))"

fun string_hash :: "string \<Rightarrow> 32 word" where
  "string_hash [] = 0"
| "string_hash (c # cs) = string_hash_loop cs (scast (of_char c :: byte))"

text \<open>The index of a key, as the find functions compute it.\<close>

fun key_index :: "hash_table \<Rightarrow> hash_key \<Rightarrow> nat option" where
  "key_index t (StringKey a s) =
     (if ht_key_type t = DBUS_HASH_STRING then Some (unat (string_hash s AND of_int (ht_mask t))) else None)"
| "key_index t (DirectKey w) =
     (if ht_key_type t = DBUS_HASH_STRING then None else Some (unat (RANDOM_INDEX t w AND of_int (ht_mask t))))"

text \<open>\<^verbatim>\<open>strcmp\<close> for strings, equality of pointers otherwise.\<close>

fun same_key :: "hash_key \<Rightarrow> hash_key \<Rightarrow> bool" where
  "same_key (StringKey a s) (StringKey b r) \<longleftrightarrow> s = r"
| "same_key (DirectKey v) (DirectKey w) \<longleftrightarrow> v = w"
| "same_key _ _ \<longleftrightarrow> False"

section \<open>Entries\<close>

definition hash_alloc :: "hash_table \<Rightarrow> bool \<times> hash_table" where
  "hash_alloc t = (let (ok, m) = alloc (ht_mem t) in (ok, t\<lparr>ht_mem := m\<rparr>))"

text \<open>A fresh element of the pool is zeroed.\<close>

definition alloc_entry :: "hash_table \<Rightarrow> nat option \<times> hash_table" where
  "alloc_entry t =
     (let (ok, t) = hash_alloc t in
      if \<not> ok then (None, t)
      else (Some (ht_fresh t),
        t\<lparr>ht_entries := (ht_entries t)(ht_fresh t \<mapsto> \<lparr>he_key = DirectKey 0, he_value = 0\<rparr>), ht_fresh := ht_fresh t + 1\<rparr>))"

definition free_key :: "hash_key \<Rightarrow> hash_table \<Rightarrow> hash_table" where
  "free_key k t = (if ht_free_key_function t then t\<lparr>ht_freed_keys := ht_freed_keys t @ [k]\<rparr> else t)"

definition free_value :: "nat \<Rightarrow> hash_table \<Rightarrow> hash_table" where
  "free_value v t = (if ht_free_value_function t then t\<lparr>ht_freed_values := ht_freed_values t @ [v]\<rparr> else t)"

definition free_entry_data :: "nat \<Rightarrow> hash_table \<Rightarrow> hash_table option" where
  "free_entry_data e t = do { x \<leftarrow> ht_entries t e; Some (free_value (he_value x) (free_key (he_key x) t)) }"

definition mem_pool_release :: "nat \<Rightarrow> hash_table \<Rightarrow> hash_table option" where
  "mem_pool_release e t = do { _ \<leftarrow> ht_entries t e; Some (t\<lparr>ht_entries := (ht_entries t)(e := None)\<rparr>) }"

definition free_entry :: "nat \<Rightarrow> hash_table \<Rightarrow> hash_table option" where
  "free_entry e t = do { t \<leftarrow> free_entry_data e t; mem_pool_release e t }"

text \<open>The chain behind a pointer to a bucket.\<close>

definition bucket_chain :: "bucket_ptr \<Rightarrow> hash_table \<Rightarrow> nat list option" where
  "bucket_chain b t =
     (if fst b = ht_array t \<and> snd b < length (ht_buckets t) then Some (ht_buckets t ! snd b) else None)"

definition set_chain :: "nat \<Rightarrow> nat list \<Rightarrow> hash_table \<Rightarrow> hash_table" where
  "set_chain i c t = t\<lparr>ht_buckets := (ht_buckets t)[i := c]\<rparr>"

text \<open>Walking past the end of the chain follows \<open>NULL\<close>.\<close>

definition remove_entry :: "bucket_ptr \<Rightarrow> nat \<Rightarrow> hash_table \<Rightarrow> hash_table option" where
  "remove_entry b e t =
     do { c \<leftarrow> bucket_chain b t;
          if c = [] \<or> e \<notin> set c then None
          else do {
            let t = set_chain (snd b) (remove1 e c) t;
            n \<leftarrow> int32 (ht_n_entries t - 1);
            free_entry e (t\<lparr>ht_n_entries := n\<rparr>) } }"

section \<open>Rebuilding\<close>

text \<open>Entries move to the front of their new bucket, in the order of the old buckets and chains.\<close>

fun rehash_loop :: "hash_table \<Rightarrow> nat list \<Rightarrow> nat list list \<Rightarrow> nat list list option" where
  "rehash_loop t [] bs = Some bs"
| "rehash_loop t (e # es) bs =
     do { x \<leftarrow> ht_entries t e;
          i \<leftarrow> (case he_key x of
                StringKey a s \<Rightarrow> key_index t (he_key x)
              | DirectKey w \<Rightarrow> if ht_key_type t = DBUS_HASH_STRING then None else Some (unat (RANDOM_INDEX t w)));
          if i < length bs then rehash_loop t es (bs[i := e # bs ! i]) else None }"

text \<open>The fields of the table for its new size.\<close>

definition resize_fields :: "bool \<Rightarrow> int \<Rightarrow> hash_table \<Rightarrow> hash_table option" where
  "resize_fields growing new_buckets t =
     (let t = t\<lparr>ht_n_buckets := new_buckets\<rparr> in
      if growing then do {
        hi \<leftarrow> int32 (ht_hi_rebuild_size t * 4);
        mask \<leftarrow> int32 (ht_mask t * 4 + 3);
        Some (t\<lparr>ht_lo_rebuild_size := ht_hi_rebuild_size t, ht_hi_rebuild_size := hi,
          ht_down_shift := ht_down_shift t - 2, ht_mask := mask\<rparr>) }
      else
        Some (t\<lparr>ht_hi_rebuild_size := ht_lo_rebuild_size t, ht_lo_rebuild_size := ht_lo_rebuild_size t div 4,
          ht_down_shift := ht_down_shift t + 2, ht_mask := ht_mask t div 4\<rparr>))"

definition rebuild_table :: "hash_table \<Rightarrow> hash_table option" where
  "rebuild_table t =
     (let growing = ht_n_entries t \<ge> ht_hi_rebuild_size t;
          new_buckets = (if growing then ht_n_buckets t * 4 else ht_n_buckets t div 4)
      in
      if growing \<and> \<not> (ht_n_buckets t < INT_MAX div 4 \<and> ht_down_shift t \<ge> 0) then Some t
      else if \<not> growing \<and> new_buckets < DBUS_SMALL_HASH_TABLE then Some t
      else
        let (ok, t) = hash_alloc t in
        if \<not> ok then Some t
        else do {
          t \<leftarrow> resize_fields growing new_buckets t;
          if ht_lo_rebuild_size t \<ge> 0 \<and> ht_hi_rebuild_size t > ht_lo_rebuild_size t \<and>
             ht_mask t \<noteq> 0 \<and> ht_mask t < ht_n_buckets t
          then do {
            bs \<leftarrow> rehash_loop t (concat (ht_buckets t)) (replicate (nat new_buckets) []);
            Some (t\<lparr>ht_buckets := bs, ht_array := ht_array t + 1\<rparr>) }
          else None })"

section \<open>Finding and adding\<close>

definition add_allocated_entry :: "nat \<Rightarrow> nat \<Rightarrow> hash_key \<Rightarrow> hash_table \<Rightarrow> (bucket_ptr \<times> hash_table) option" where
  "add_allocated_entry e idx key t =
     do { x \<leftarrow> ht_entries t e;
          let t = t\<lparr>ht_entries := (ht_entries t)(e \<mapsto> x\<lparr>he_key := key\<rparr>)\<rparr>;
          let b = (ht_array t, idx);
          c \<leftarrow> bucket_chain b t;
          let t = set_chain idx (e # c) t;
          n \<leftarrow> int32 (ht_n_entries t + 1);
          let t = t\<lparr>ht_n_entries := n\<rparr>;
          t \<leftarrow> (if ht_n_entries t \<ge> ht_hi_rebuild_size t \<or> ht_n_entries t < ht_lo_rebuild_size t
               then rebuild_table t else Some t);
          Some (b, t) }"

text \<open>The results are the entry and the bucket it was put into, both \<open>None\<close> when memory is exhausted.\<close>

definition add_entry ::
    "nat \<Rightarrow> hash_key \<Rightarrow> nat option \<Rightarrow> hash_table \<Rightarrow> (nat option \<times> bucket_ptr option \<times> hash_table) option" where
  "add_entry idx key preallocated t =
     (let (entry, t) = (case preallocated of None \<Rightarrow> alloc_entry t | Some e \<Rightarrow> (Some e, t)) in
      case entry of
        None \<Rightarrow> Some (None, None, t)
      | Some e \<Rightarrow> do { (b, t) \<leftarrow> add_allocated_entry e idx key t; Some (Some e, Some b, t) })"

text \<open>The first entry of a chain with a key.\<close>

fun search_chain :: "(nat \<rightharpoonup> hash_entry) \<Rightarrow> hash_key \<Rightarrow> nat list \<Rightarrow> nat option option" where
  "search_chain E key [] = Some None"
| "search_chain E key (e # es) =
     do { x \<leftarrow> E e; if same_key key (he_key x) then Some (Some e) else search_chain E key es }"

definition free_preallocated_entry :: "nat \<Rightarrow> hash_table \<Rightarrow> hash_table option" where
  "free_preallocated_entry e t = mem_pool_release e t"

definition find_generic_function ::
    "hash_key \<Rightarrow> nat \<Rightarrow> bool \<Rightarrow> nat option \<Rightarrow> hash_table \<Rightarrow> (nat option \<times> bucket_ptr option \<times> hash_table) option" where
  "find_generic_function key idx create_if_not_found preallocated t =
     do { c \<leftarrow> bucket_chain (ht_array t, idx) t;
          entry \<leftarrow> search_chain (ht_entries t) key c;
          case entry of
            Some e \<Rightarrow> do {
              t \<leftarrow> (case preallocated of None \<Rightarrow> Some t | Some p \<Rightarrow> free_preallocated_entry p t);
              Some (Some e, Some (ht_array t, idx), t) }
          | None \<Rightarrow>
              if create_if_not_found then add_entry idx key preallocated t
              else do {
                t \<leftarrow> (case preallocated of None \<Rightarrow> Some t | Some p \<Rightarrow> free_preallocated_entry p t);
                Some (None, None, t) } }"

definition find_function ::
    "hash_key \<Rightarrow> bool \<Rightarrow> nat option \<Rightarrow> hash_table \<Rightarrow> (nat option \<times> bucket_ptr option \<times> hash_table) option" where
  "find_function key create_if_not_found preallocated t =
     do { idx \<leftarrow> key_index t key; find_generic_function key idx create_if_not_found preallocated t }"

section \<open>The table\<close>

definition hash_table_new :: "hash_type \<Rightarrow> bool \<Rightarrow> bool \<Rightarrow> mem \<Rightarrow> hash_table option \<times> mem" where
  "hash_table_new type key_free value_free m =
     (let (ok, m) = alloc m in
      if \<not> ok then (None, m)
      else
        let (ok, m) = alloc m in
        if \<not> ok then (None, m)
        else (Some \<lparr>ht_refcount = 1, ht_array = 0, ht_buckets = replicate (nat DBUS_SMALL_HASH_TABLE) [],
          ht_n_buckets = DBUS_SMALL_HASH_TABLE, ht_n_entries = 0,
          ht_hi_rebuild_size = DBUS_SMALL_HASH_TABLE * REBUILD_MULTIPLIER, ht_lo_rebuild_size = 0,
          ht_down_shift = 28, ht_mask = 3, ht_key_type = type,
          ht_free_key_function = key_free, ht_free_value_function = value_free,
          ht_entries = Map.empty, ht_fresh = 0, ht_mem = m, ht_freed_keys = [], ht_freed_values = []\<rparr>, m))"

definition hash_table_ref :: "hash_table \<Rightarrow> hash_table option" where
  "hash_table_ref t = do { n \<leftarrow> int32 (ht_refcount t + 1); Some (t\<lparr>ht_refcount := n\<rparr>) }"

fun free_all_data :: "nat list \<Rightarrow> hash_table \<Rightarrow> hash_table option" where
  "free_all_data [] t = Some t"
| "free_all_data (e # es) t = do { t \<leftarrow> free_entry_data e t; free_all_data es t }"

text \<open>The last reference frees the data, and the pool with all entries.\<close>

definition hash_table_unref :: "hash_table \<Rightarrow> hash_table option" where
  "hash_table_unref t =
     do { n \<leftarrow> int32 (ht_refcount t - 1);
          let t = t\<lparr>ht_refcount := n\<rparr>;
          if n = 0 then do {
            t \<leftarrow> free_all_data (concat (ht_buckets t)) t;
            Some (t\<lparr>ht_entries := Map.empty, ht_buckets := []\<rparr>) }
          else Some t }"

definition hash_table_lookup :: "hash_key \<Rightarrow> hash_table \<Rightarrow> nat option" where
  "hash_table_lookup key t =
     do { (entry, b, t) \<leftarrow> find_function key False None t;
          case entry of None \<Rightarrow> Some 0 | Some e \<Rightarrow> do { x \<leftarrow> ht_entries t e; Some (he_value x) } }"

definition hash_table_lookup_string :: "nat \<Rightarrow> string \<Rightarrow> hash_table \<Rightarrow> nat option" where
  "hash_table_lookup_string a s t =
     (if ht_key_type t = DBUS_HASH_STRING then hash_table_lookup (StringKey a s) t else None)"

definition hash_table_lookup_int :: "32 word \<Rightarrow> hash_table \<Rightarrow> nat option" where
  "hash_table_lookup_int i t =
     (if ht_key_type t = DBUS_HASH_INT then hash_table_lookup (DirectKey (scast i)) t else None)"

definition hash_table_lookup_uintptr :: "64 word \<Rightarrow> hash_table \<Rightarrow> nat option" where
  "hash_table_lookup_uintptr w t =
     (if ht_key_type t = DBUS_HASH_UINTPTR then hash_table_lookup (DirectKey w) t else None)"

definition hash_table_remove :: "hash_key \<Rightarrow> hash_table \<Rightarrow> (bool \<times> hash_table) option" where
  "hash_table_remove key t =
     do { (entry, b, t) \<leftarrow> find_function key False None t;
          case entry of
            None \<Rightarrow> Some (False, t)
          | Some e \<Rightarrow> do { b \<leftarrow> b; t \<leftarrow> remove_entry b e t; Some (True, t) } }"

definition hash_table_remove_string :: "nat \<Rightarrow> string \<Rightarrow> hash_table \<Rightarrow> (bool \<times> hash_table) option" where
  "hash_table_remove_string a s t =
     (if ht_key_type t = DBUS_HASH_STRING then hash_table_remove (StringKey a s) t else None)"

definition hash_table_remove_int :: "32 word \<Rightarrow> hash_table \<Rightarrow> (bool \<times> hash_table) option" where
  "hash_table_remove_int i t =
     (if ht_key_type t = DBUS_HASH_INT then hash_table_remove (DirectKey (scast i)) t else None)"

definition hash_table_remove_uintptr :: "64 word \<Rightarrow> hash_table \<Rightarrow> (bool \<times> hash_table) option" where
  "hash_table_remove_uintptr w t =
     (if ht_key_type t = DBUS_HASH_UINTPTR then hash_table_remove (DirectKey w) t else None)"

text \<open>The end of the three insertions: what the entry held is freed unless it is what it shall hold.\<close>

definition store_entry :: "nat \<Rightarrow> hash_key \<Rightarrow> nat \<Rightarrow> hash_table \<Rightarrow> hash_table option" where
  "store_entry e key v t =
     do { x \<leftarrow> ht_entries t e;
          let t = (if he_key x \<noteq> key then free_key (he_key x) t else t);
          let t = (if he_value x \<noteq> v then free_value (he_value x) t else t);
          Some (t\<lparr>ht_entries := (ht_entries t)(e \<mapsto> \<lparr>he_key = key, he_value = v\<rparr>)\<rparr>) }"

definition hash_table_preallocate_entry :: "hash_table \<Rightarrow> nat option \<times> hash_table" where
  "hash_table_preallocate_entry t = alloc_entry t"

definition hash_table_insert_string_preallocated ::
    "nat \<Rightarrow> nat \<Rightarrow> string \<Rightarrow> nat \<Rightarrow> hash_table \<Rightarrow> hash_table option" where
  "hash_table_insert_string_preallocated preallocated a s v t =
     (if ht_key_type t \<noteq> DBUS_HASH_STRING then None
      else do {
        (entry, b, t) \<leftarrow> find_function (StringKey a s) True (Some preallocated) t;
        e \<leftarrow> entry;
        store_entry e (StringKey a s) v t })"

definition hash_table_insert_string :: "nat \<Rightarrow> string \<Rightarrow> nat \<Rightarrow> hash_table \<Rightarrow> (bool \<times> hash_table) option" where
  "hash_table_insert_string a s v t =
     (if ht_key_type t \<noteq> DBUS_HASH_STRING then None
      else
        let (preallocated, t) = hash_table_preallocate_entry t in
        case preallocated of
          None \<Rightarrow> Some (False, t)
        | Some p \<Rightarrow> do { t \<leftarrow> hash_table_insert_string_preallocated p a s v t; Some (True, t) })"

definition insert_direct :: "64 word \<Rightarrow> nat \<Rightarrow> hash_table \<Rightarrow> (bool \<times> hash_table) option" where
  "insert_direct w v t =
     do { (entry, b, t) \<leftarrow> find_function (DirectKey w) True None t;
          case entry of
            None \<Rightarrow> Some (False, t)
          | Some e \<Rightarrow> do { t \<leftarrow> store_entry e (DirectKey w) v t; Some (True, t) } }"

definition hash_table_insert_int :: "32 word \<Rightarrow> nat \<Rightarrow> hash_table \<Rightarrow> (bool \<times> hash_table) option" where
  "hash_table_insert_int i v t = (if ht_key_type t = DBUS_HASH_INT then insert_direct (scast i) v t else None)"

definition hash_table_insert_uintptr :: "64 word \<Rightarrow> nat \<Rightarrow> hash_table \<Rightarrow> (bool \<times> hash_table) option" where
  "hash_table_insert_uintptr w v t = (if ht_key_type t = DBUS_HASH_UINTPTR then insert_direct w v t else None)"

definition hash_table_get_n_entries :: "hash_table \<Rightarrow> int" where
  "hash_table_get_n_entries t = ht_n_entries t"

section \<open>Iterators\<close>

text \<open>Whether the iterator still has its table, and its other fields.\<close>

record hash_iter =
  hi_table :: bool
  hi_bucket :: "bucket_ptr option"
  hi_entry :: "nat option"
  hi_next_entry :: "nat option"
  hi_next_bucket :: nat
  hi_n_entries_on_init :: int

definition hash_iter_init :: "hash_table \<Rightarrow> hash_iter" where
  "hash_iter_init t = \<lparr>hi_table = True, hi_bucket = None, hi_entry = None, hi_next_entry = None,
     hi_next_bucket = 0, hi_n_entries_on_init = ht_n_entries t\<rparr>"

text \<open>The \<^verbatim>\<open>next\<close> field of an entry that is in a chain.\<close>

definition entry_next :: "hash_table \<Rightarrow> nat \<Rightarrow> nat option option" where
  "entry_next t e =
     do { c \<leftarrow> List.find (\<lambda>c. e \<in> set c) (ht_buckets t);
          Some (case dropWhile (\<lambda>x. x \<noteq> e) c of _ # y # _ \<Rightarrow> Some y | _ \<Rightarrow> None) }"

text \<open>The loop that looks for a bucket that is not empty, over the buckets left.\<close>

fun next_bucket_loop :: "nat \<Rightarrow> nat list list \<Rightarrow> hash_iter \<Rightarrow> hash_iter" where
  "next_bucket_loop a [] it = it"
| "next_bucket_loop a (c # cs) it =
     (let it = it\<lparr>hi_bucket := Some (a, hi_next_bucket it),
                hi_next_entry := (case c of [] \<Rightarrow> None | e # _ \<Rightarrow> Some e),
                hi_next_bucket := hi_next_bucket it + 1\<rparr> in
      if c = [] then next_bucket_loop a cs it else it)"

definition hash_iter_next :: "hash_table \<Rightarrow> hash_iter \<Rightarrow> (bool \<times> hash_iter) option" where
  "hash_iter_next t it =
     (if \<not> hi_table it \<or> hi_n_entries_on_init it < ht_n_entries t then None
      else
        let it = (if hi_next_entry it = None
                  then next_bucket_loop (ht_array t) (drop (hi_next_bucket it) (ht_buckets t)) it else it)
        in
        case hi_next_entry it of
          None \<Rightarrow> Some (False, it\<lparr>hi_entry := None, hi_table := False, hi_bucket := None\<rparr>)
        | Some e \<Rightarrow>
            if hi_bucket it = None then None
            else do { n \<leftarrow> entry_next t e; Some (True, it\<lparr>hi_entry := Some e, hi_next_entry := n\<rparr>) })"

definition hash_iter_remove_entry :: "hash_table \<Rightarrow> hash_iter \<Rightarrow> (hash_table \<times> hash_iter) option" where
  "hash_iter_remove_entry t it =
     (if \<not> hi_table it then None
      else do {
        e \<leftarrow> hi_entry it;
        b \<leftarrow> hi_bucket it;
        t \<leftarrow> remove_entry b e t;
        Some (t, it\<lparr>hi_entry := None\<rparr>) })"

definition iter_entry :: "hash_table \<Rightarrow> hash_iter \<Rightarrow> hash_entry option" where
  "iter_entry t it = (if hi_table it then do { e \<leftarrow> hi_entry it; ht_entries t e } else None)"

definition hash_iter_get_value :: "hash_table \<Rightarrow> hash_iter \<Rightarrow> nat option" where
  "hash_iter_get_value t it = do { x \<leftarrow> iter_entry t it; Some (he_value x) }"

definition hash_iter_set_value :: "hash_table \<Rightarrow> hash_iter \<Rightarrow> nat \<Rightarrow> hash_table option" where
  "hash_iter_set_value t it v =
     do { x \<leftarrow> iter_entry t it;
          e \<leftarrow> hi_entry it;
          let t = (if v \<noteq> he_value x then free_value (he_value x) t else t);
          Some (t\<lparr>ht_entries := (ht_entries t)(e \<mapsto> x\<lparr>he_value := v\<rparr>)\<rparr>) }"

definition hash_iter_get_key :: "hash_table \<Rightarrow> hash_iter \<Rightarrow> hash_key option" where
  "hash_iter_get_key t it = do { x \<leftarrow> iter_entry t it; Some (he_key x) }"

text \<open>
  The index of the bucket is computed by subtracting from its address that of the bucket array,
  which is defined only while both are of the same array.
\<close>

definition hash_iter_lookup ::
    "hash_key \<Rightarrow> bool \<Rightarrow> hash_table \<Rightarrow> (hash_iter option \<times> hash_table) option" where
  "hash_iter_lookup key create_if_not_found t =
     do { (entry, bucket, t) \<leftarrow> find_function key create_if_not_found None t;
          case entry of
            None \<Rightarrow> Some (None, t)
          | Some e \<Rightarrow> do {
              b \<leftarrow> bucket;
              n \<leftarrow> entry_next t e;
              if fst b \<noteq> ht_array t then None
              else Some (Some \<lparr>hi_table = True, hi_bucket = Some b, hi_entry = Some e, hi_next_entry = n,
                hi_next_bucket = snd b + 1, hi_n_entries_on_init = ht_n_entries t\<rparr>, t) } }"

text \<open>
  A walk over a table that removes the entries a caller chooses; the chosen ones are all of them in
  \<^verbatim>\<open>_dbus_hash_table_remove_all\<close>. The result lists the entries visited.
\<close>

partial_function (option) hash_sweep ::
    "(hash_entry \<Rightarrow> bool) \<Rightarrow> hash_table \<Rightarrow> hash_iter \<Rightarrow> (hash_entry list \<times> hash_table) option" where
  "hash_sweep P t it =
     do { (more_left, it) \<leftarrow> hash_iter_next t it;
          if \<not> more_left then Some ([], t)
          else do {
            x \<leftarrow> iter_entry t it;
            (t, it) \<leftarrow> (if P x then hash_iter_remove_entry t it else Some (t, it));
            (xs, t) \<leftarrow> hash_sweep P t it;
            Some (x # xs, t) } }"

definition hash_table_remove_all :: "hash_table \<Rightarrow> hash_table option" where
  "hash_table_remove_all t =
     do { (xs, t) \<leftarrow> hash_sweep (\<lambda>_. True) t (hash_iter_init t); Some t }"

end
