(* ===== verification/HashMap.thy ===== *)
theory HashMap
  imports DHash "HOL-Library.Multiset"
begin

text \<open>
  The hash table as a map: the invariant of the table, what every operation does to the map it
  stands for, and the walk of an iterator.
\<close>

section \<open>Invariant\<close>

text \<open>The part of a key that is compared.\<close>

fun key_class :: "hash_key \<Rightarrow> string + 64 word" where
  "key_class (StringKey a s) = Inl s"
| "key_class (DirectKey w) = Inr w"

lemma same_key_iff: "same_key k l \<longleftrightarrow> key_class k = key_class l"
  by (cases k; cases l) simp_all

fun key_ok :: "hash_type \<Rightarrow> hash_key \<Rightarrow> bool" where
  "key_ok T (StringKey a s) \<longleftrightarrow> T = DBUS_HASH_STRING"
| "key_ok T (DirectKey w) \<longleftrightarrow> T \<noteq> DBUS_HASH_STRING"

definition chained :: "hash_table \<Rightarrow> nat list" where
  "chained t = concat (ht_buckets t)"

definition entry_pair :: "(nat \<rightharpoonup> hash_entry) \<Rightarrow> nat \<Rightarrow> (string + 64 word) \<times> nat" where
  "entry_pair E e = (key_class (he_key (the (E e))), he_value (the (E e)))"

definition table_map :: "hash_table \<Rightarrow> (string + 64 word) \<rightharpoonup> nat" where
  "table_map t = map_of (map (entry_pair (ht_entries t)) (chained t))"

text \<open>
  The sizes after \<open>k\<close> enlargements. The last size is the one whose next enlargement would overflow
  \<^verbatim>\<open>hi_rebuild_size\<close>. A table shrunk to its first size keeps a third bound, which has no effect.
\<close>

definition geometry :: "nat \<Rightarrow> hash_table \<Rightarrow> bool" where
  "geometry k t \<longleftrightarrow>
     k \<le> 13 \<and> ht_n_buckets t = 4 ^ Suc k \<and> ht_mask t = 4 ^ Suc k - 1 \<and> ht_down_shift t = 28 - 2 * int k \<and>
     ht_hi_rebuild_size t = 12 * 4 ^ k \<and> (ht_lo_rebuild_size t = 3 * 4 ^ k \<or> k = 0 \<and> ht_lo_rebuild_size t = 0)"

text \<open>Every entry lies in the bucket of its key.\<close>

definition placed :: "hash_table \<Rightarrow> (nat \<rightharpoonup> hash_entry) \<Rightarrow> nat list list \<Rightarrow> bool" where
  "placed t E bs \<longleftrightarrow> (\<forall>i < length bs. \<forall>e \<in> set (bs ! i). \<exists>x. E e = Some x \<and> key_index t (he_key x) = Some i)"

definition hash_ok :: "hash_table \<Rightarrow> bool" where
  "hash_ok t \<longleftrightarrow>
     (\<exists>k. geometry k t) \<and> int (length (ht_buckets t)) = ht_n_buckets t \<and> placed t (ht_entries t) (ht_buckets t) \<and>
     distinct (map (fst \<circ> entry_pair (ht_entries t)) (chained t)) \<and>
     ht_n_entries t = int (length (chained t)) \<and> ht_n_entries t \<le> 2147483647 \<and> (\<forall>e. e \<in> dom (ht_entries t) \<longrightarrow> e < ht_fresh t)"

section \<open>Indices\<close>

lemma four_power: "(4::int) ^ Suc k = 2 ^ (2 * k + 2)"
  by (simp add: power_mult power_add)

lemma geometry_bounds:
  assumes "geometry k t"
  shows "0 < ht_mask t" "ht_mask t < ht_n_buckets t" "ht_n_buckets t \<le> 268435456" "0 \<le> ht_down_shift t"
    "0 \<le> ht_lo_rebuild_size t" "ht_lo_rebuild_size t < ht_hi_rebuild_size t"
proof -
  have "(4::int) ^ k \<le> 4 ^ 13" using assms by (intro power_increasing) (simp_all add: geometry_def)
  then have "(4::int) ^ k \<le> 67108864" by simp
  moreover have "1 \<le> (4::int) ^ k" by simp
  moreover obtain "ht_n_buckets t = 4 * 4 ^ k" "ht_mask t = 4 * 4 ^ k - 1" "ht_hi_rebuild_size t = 12 * 4 ^ k"
    "ht_lo_rebuild_size t = 3 * 4 ^ k \<or> ht_lo_rebuild_size t = 0" "ht_down_shift t = 28 - 2 * int k" "k \<le> 13"
    using assms by (auto simp: geometry_def)
  ultimately show "0 < ht_mask t" "ht_mask t < ht_n_buckets t" "ht_n_buckets t \<le> 268435456" "0 \<le> ht_down_shift t"
    "0 \<le> ht_lo_rebuild_size t" "ht_lo_rebuild_size t < ht_hi_rebuild_size t" by linarith+
qed

lemma unat_and_mask: "0 \<le> m \<Longrightarrow> m < 4294967296 \<Longrightarrow> unat (w AND of_int m :: 32 word) \<le> nat m"
proof -
  assume m: "0 \<le> m" "m < 4294967296"
  have "w AND of_int m \<le> of_int m" by (rule word_and_le1)
  then have "unat (w AND of_int m) \<le> unat (of_int m :: 32 word)" by (simp add: word_le_nat_alt)
  also have "\<dots> = nat m" using m by (simp add: unsigned_of_int take_bit_int_eq_self)
  finally show ?thesis .
qed

lemma key_index_Some:
  assumes "geometry k t" "key_ok (ht_key_type t) key"
  obtains i where "key_index t key = Some i" "int i < ht_n_buckets t"
proof -
  have m: "0 \<le> ht_mask t" "ht_mask t < 4294967296" "ht_mask t < ht_n_buckets t"
    using geometry_bounds [OF assms(1)] by linarith+
  have "int (unat (w AND of_int (ht_mask t) :: 32 word)) < ht_n_buckets t" for w
    using unat_and_mask [OF m(1,2), of w] m(1,3) by linarith
  then show ?thesis using assms(2) that by (cases key) auto
qed

lemma key_index_ok: "key_index t key = Some i \<Longrightarrow> key_ok (ht_key_type t) key"
  by (cases key) (auto split: if_splits)

text \<open>Masking once more makes no difference.\<close>

lemma RANDOM_INDEX_mask:
  "RANDOM_INDEX t w AND of_int (ht_mask t) = RANDOM_INDEX t w"
  unfolding RANDOM_INDEX_def by (rule bit_word_eqI) (auto simp: bit_simps bit_ucast_iff)

lemma rehash_index:
  "(case key of
      StringKey a s \<Rightarrow> key_index t key
    | DirectKey w \<Rightarrow> if ht_key_type t = DBUS_HASH_STRING then None else Some (unat (RANDOM_INDEX t w))) = key_index t key"
  by (cases key) (simp_all add: RANDOM_INDEX_mask)

text \<open>What the index depends on.\<close>

lemma key_index_cong:
  "ht_mask t = ht_mask u \<Longrightarrow> ht_down_shift t = ht_down_shift u \<Longrightarrow> ht_key_type t = ht_key_type u \<Longrightarrow>
   key_index t key = key_index u key"
  by (cases key) (simp_all add: RANDOM_INDEX_def)

lemma placed_cong:
  "ht_mask t = ht_mask u \<Longrightarrow> ht_down_shift t = ht_down_shift u \<Longrightarrow> ht_key_type t = ht_key_type u \<Longrightarrow>
   placed t E bs = placed u E bs"
  by (simp add: placed_def key_index_cong [of t u])

section \<open>Chains\<close>

lemma mset_concat_push:
  "i < length bs \<Longrightarrow> mset (concat (bs[i := e # bs ! i])) = add_mset e (mset (concat bs))"
proof (induction bs arbitrary: i)
  case (Cons b bs)
  then show ?case by (cases i) auto
qed simp

lemma concat_remove1:
  "i < length bs \<Longrightarrow> e \<in> set (bs ! i) \<Longrightarrow> distinct (concat bs) \<Longrightarrow>
   concat (bs[i := remove1 e (bs ! i)]) = filter (\<lambda>x. x \<noteq> e) (concat bs)"
proof (induction bs arbitrary: i)
  case (Cons b bs)
  have id: "filter (\<lambda>x. x \<noteq> e) xs = xs" if "e \<notin> set xs" for xs using that by (induction xs) auto
  show ?case
  proof (cases i)
    case 0
    then have b: "e \<in> set b" "distinct b" "e \<notin> set (concat bs)"
      using Cons.prems unfolding concat.simps distinct_append by auto
    have "remove1 e b = filter (\<lambda>x. x \<noteq> e) b"
      by (simp only: distinct_remove1_removeAll [OF b(2)] removeAll_filter_not_eq) (metis)
    then show ?thesis using 0 by (simp add: id [OF b(3)] del: set_concat)
  next
    case (Suc j)
    with Cons.prems have j: "j < length bs" "e \<in> set (bs ! j)" "distinct (concat bs)" by simp_all
    have "e \<in> set (concat bs)" using j(1,2) by (metis UN_I nth_mem set_concat)
    then have "e \<notin> set b" using Cons.prems(3) unfolding concat.simps distinct_append by blast
    then show ?thesis using Suc Cons.IH [OF j] by (simp add: id)
  qed
qed simp

lemma in_chain_concat: "i < length bs \<Longrightarrow> e \<in> set (bs ! i) \<Longrightarrow> e \<in> set (concat bs)"
  by auto

lemma in_concat_chain: "e \<in> set (concat bs) \<Longrightarrow> \<exists>i < length bs. e \<in> set (bs ! i)"
  by (metis UN_E in_set_conv_nth set_concat)

lemma placed_entry:
  "placed t E bs \<Longrightarrow> e \<in> set (concat bs) \<Longrightarrow> \<exists>x i. E e = Some x \<and> key_index t (he_key x) = Some i \<and>
    i < length bs \<and> e \<in> set (bs ! i)"
  using in_concat_chain unfolding placed_def by metis

lemma placedD:
  "placed t E bs \<Longrightarrow> i < length bs \<Longrightarrow> e \<in> set (bs ! i) \<Longrightarrow> \<exists>x. E e = Some x \<and> key_index t (he_key x) = Some i"
  unfolding placed_def by blast

text \<open>The entries of the map.\<close>

lemma hash_ok_geometry: "hash_ok t \<Longrightarrow> \<exists>k. geometry k t \<and> length (ht_buckets t) = 4 ^ Suc k"
  by (auto simp: hash_ok_def geometry_def) (metis of_nat_numeral of_nat_power of_nat_eq_iff power_Suc)

lemma hash_ok_placed: "hash_ok t \<Longrightarrow> placed t (ht_entries t) (ht_buckets t)"
  by (simp add: hash_ok_def)

lemma hash_ok_distinct: "hash_ok t \<Longrightarrow> distinct (chained t)"
  by (auto simp: hash_ok_def distinct_map)

lemma table_map_Some:
  assumes "hash_ok t"
  shows "table_map t c = Some v \<longleftrightarrow> (\<exists>e \<in> set (chained t). entry_pair (ht_entries t) e = (c, v))"
proof -
  have "distinct (map fst (map (entry_pair (ht_entries t)) (chained t)))"
    using assms by (simp add: hash_ok_def)
  from map_of_eq_Some_iff [OF this] show ?thesis unfolding table_map_def by (auto simp: image_iff eq_commute)
qed

lemma table_map_None:
  "table_map t c = None \<longleftrightarrow> (\<forall>e \<in> set (chained t). fst (entry_pair (ht_entries t) e) \<noteq> c)"
  by (auto simp: table_map_def map_of_eq_None_iff image_iff)

lemma same_class:
  assumes "hash_ok t" "e \<in> set (chained t)" "f \<in> set (chained t)"
    "fst (entry_pair (ht_entries t) e) = fst (entry_pair (ht_entries t) f)"
  shows "e = f"
  using assms by (auto simp: hash_ok_def distinct_map inj_on_def)

text \<open>Tables whose pairs are the same stand for the same map.\<close>

lemma option_eqI: "(\<And>v. a = Some v \<longleftrightarrow> b = Some v) \<Longrightarrow> a = b"
  by (cases a; cases b) auto

lemma table_map_eqI:
  assumes "hash_ok t" "\<And>c v. (\<exists>e \<in> set (chained t). entry_pair (ht_entries t) e = (c, v)) \<longleftrightarrow> m c = Some v"
  shows "table_map t = m"
  by (rule ext, rule option_eqI) (simp only: table_map_Some [OF assms(1)] assms(2))

section \<open>Rebuilding\<close>

lemma placed_push:
  assumes "placed t E bs" "E e = Some x" "key_index t (he_key x) = Some i" "i < length bs"
  shows "placed t E (bs[i := e # bs ! i])"
  using assms by (auto simp: placed_def nth_list_update)

lemma rehash_loop_ok:
  assumes "\<forall>e \<in> set es. \<exists>x i. ht_entries t e = Some x \<and> key_index t (he_key x) = Some i \<and> i < length bs"
    "placed t (ht_entries t) bs"
  shows "returns (rehash_loop t es bs) (\<lambda>bs'. length bs' = length bs \<and> placed t (ht_entries t) bs' \<and>
    mset (concat bs') = mset es + mset (concat bs))"
  using assms
proof (induction es arbitrary: bs)
  case (Cons e es)
  obtain x i where e: "ht_entries t e = Some x" "key_index t (he_key x) = Some i" "i < length bs"
    using Cons.prems(1) by auto
  let ?bs = "bs[i := e # bs ! i]"
  have "placed t (ht_entries t) ?bs" by (rule placed_push [OF Cons.prems(2) e])
  with Cons.prems(1) have "returns (rehash_loop t es ?bs) (\<lambda>bs'. length bs' = length ?bs \<and>
      placed t (ht_entries t) bs' \<and> mset (concat bs') = mset es + mset (concat ?bs))"
    by (intro Cons.IH) simp_all
  then show ?case using e by (simp add: rehash_index mset_concat_push del: mset_concat)
qed simp

text \<open>Fields no operation on entries touches; of the answers of the allocator it uses up some.\<close>

definition same_frame :: "hash_table \<Rightarrow> hash_table \<Rightarrow> bool" where
  "same_frame t t' \<longleftrightarrow> ht_refcount t' = ht_refcount t \<and> ht_key_type t' = ht_key_type t \<and>
     ht_free_key_function t' = ht_free_key_function t \<and> ht_free_value_function t' = ht_free_value_function t \<and>
     set (ht_mem t') \<subseteq> set (ht_mem t)"

lemma alloc_answers: "alloc m = (b, m') \<Longrightarrow> set m' \<subseteq> set m"
  by (cases m) auto

definition same_content :: "hash_table \<Rightarrow> hash_table \<Rightarrow> bool" where
  "same_content t t' \<longleftrightarrow> same_frame t t' \<and> ht_entries t' = ht_entries t \<and> ht_fresh t' = ht_fresh t \<and>
     mset (chained t') = mset (chained t) \<and> ht_n_entries t' = ht_n_entries t \<and>
     ht_freed_keys t' = ht_freed_keys t \<and> ht_freed_values t' = ht_freed_values t"

lemma same_frame_refl [simp]: "same_frame t t"
  by (simp add: same_frame_def)

lemma same_frame_trans: "same_frame t u \<Longrightarrow> same_frame u v \<Longrightarrow> same_frame t v"
  by (auto simp: same_frame_def)

lemma same_content_refl [simp]: "same_content t t"
  by (simp add: same_content_def)

lemma hash_ok_same_content:
  assumes "hash_ok t" "same_content t t'" "geometry k t'" "int (length (ht_buckets t')) = ht_n_buckets t'"
    "placed t' (ht_entries t') (ht_buckets t')"
  shows "hash_ok t'"
proof -
  let ?f = "fst \<circ> entry_pair (ht_entries t)"
  have m: "mset (chained t') = mset (chained t)" using assms(2) by (simp add: same_content_def)
  then have "mset (map ?f (chained t')) = mset (map ?f (chained t))" by (simp only: mset_map)
  then have d: "distinct (map ?f (chained t'))"
    using assms(1) by (auto simp only: hash_ok_def dest: mset_eq_imp_distinct_iff)
  have l: "length (chained t') = length (chained t)" using m by (rule mset_eq_length)
  have eq: "ht_entries t' = ht_entries t" "ht_fresh t' = ht_fresh t" "ht_n_entries t' = ht_n_entries t"
    using assms(2) by (simp_all add: same_content_def)
  have n: "ht_n_entries t = int (length (chained t))" and b: "ht_n_entries t \<le> 2147483647" and f: "\<forall>e. e \<in> dom (ht_entries t) \<longrightarrow> e < ht_fresh t"
    using assms(1) by (simp_all add: hash_ok_def)
  have g: "\<exists>k. geometry k t'" using assms(3) by (rule exI)
  have p: "placed t' (ht_entries t) (ht_buckets t')" using assms(5) by (simp only: eq)
  show ?thesis unfolding hash_ok_def eq l by (rule conjI [OF g conjI [OF assms(4) conjI [OF p conjI [OF d conjI [OF n conjI [OF b f]]]]]])
qed

lemma same_content_map:
  assumes "hash_ok t" "hash_ok t'" "same_content t t'"
  shows "table_map t' = table_map t"
proof (rule table_map_eqI [OF assms(2)])
  have "mset (chained t') = mset (chained t)" using assms(3) by (simp add: same_content_def)
  then have "set (chained t') = set (chained t)" by (rule mset_eq_setD)
  moreover have "ht_entries t' = ht_entries t" using assms(3) by (simp add: same_content_def)
  ultimately show "(\<exists>e \<in> set (chained t'). entry_pair (ht_entries t') e = (c, v)) \<longleftrightarrow> table_map t c = Some v" for c v
    by (simp only: table_map_Some [OF assms(1)])
qed

lemma placed_updates [simp]:
  "placed (t\<lparr>ht_mem := m\<rparr>) = placed t"
  "placed (t\<lparr>ht_buckets := bs'\<rparr>) = placed t"
  "placed (t\<lparr>ht_array := a\<rparr>) = placed t"
  "placed (t\<lparr>ht_entries := E'\<rparr>) = placed t"
  "placed (t\<lparr>ht_fresh := n\<rparr>) = placed t"
  "placed (t\<lparr>ht_n_entries := i\<rparr>) = placed t"
  "placed (t\<lparr>ht_freed_keys := ks\<rparr>) = placed t"
  "placed (t\<lparr>ht_freed_values := vs\<rparr>) = placed t"
  by (intro ext placed_cong; simp)+

lemma chained_mem [simp]: "chained (t\<lparr>ht_mem := m\<rparr>) = chained t"
  by (simp add: chained_def)

lemma geometry_mem [simp]: "geometry k (t\<lparr>ht_mem := m\<rparr>) = geometry k t"
  by (simp add: geometry_def)

lemma hash_ok_mem [simp]: "hash_ok (t\<lparr>ht_mem := m\<rparr>) = hash_ok t"
  by (simp only: hash_ok_def placed_updates chained_mem geometry_mem) simp

lemma resize_grow:
  assumes "geometry k t" "k < 13"
  shows "returns (resize_fields True (ht_n_buckets t * 4) t)
    (\<lambda>t'. geometry (Suc k) t' \<and> same_content t t' \<and> ht_buckets t' = ht_buckets t \<and> ht_n_buckets t' = ht_n_buckets t * 4)"
proof -
  have "(4::int) ^ k \<le> 4 ^ 12" using assms by (intro power_increasing) simp_all
  then have "(4::int) ^ k \<le> 16777216" by simp
  moreover have "0 \<le> (4::int) ^ k" by simp
  moreover from this have "- 134217728 \<le> 3 * (4::int) ^ k" by linarith
  ultimately show ?thesis using assms
    by (simp add: resize_fields_def geometry_def int32_def same_content_def same_frame_def chained_def Let_def)
qed

lemma resize_shrink:
  assumes "geometry k t" "0 < k"
  shows "returns (resize_fields False (ht_n_buckets t div 4) t)
    (\<lambda>t'. geometry (k - 1) t' \<and> same_content t t' \<and> ht_buckets t' = ht_buckets t \<and> ht_n_buckets t' = ht_n_buckets t div 4)"
proof -
  obtain j where j: "k = Suc j" using assms(2) by (cases k) simp_all
  have d: "(4 * a - 1) div 4 = a - 1" for a :: int by presburger
  have "ht_mask t div 4 = 4 ^ Suc j - 1"
    using assms(1) d [of "4 ^ Suc j"] by (simp add: geometry_def j)
  then show ?thesis using assms(1)
    by (simp add: resize_fields_def geometry_def same_content_def same_frame_def chained_def j)
qed

lemma rehash_ok:
  assumes ok: "hash_ok t" and j: "geometry j u" and tu: "same_content t u" and b: "ht_buckets u = ht_buckets t"
  shows "returns (rehash_loop u (concat (ht_buckets u)) (replicate (nat (ht_n_buckets u)) []))
    (\<lambda>bs. hash_ok (u\<lparr>ht_buckets := bs, ht_array := ht_array u + 1\<rparr>) \<and>
      same_content t (u\<lparr>ht_buckets := bs, ht_array := ht_array u + 1\<rparr>))"
proof -
  let ?bs = "replicate (nat (ht_n_buckets u)) []"
  have es: "\<forall>e \<in> set (concat (ht_buckets u)). \<exists>x i. ht_entries u e = Some x \<and> key_index u (he_key x) = Some i \<and>
      i < length ?bs"
  proof
    fix e assume "e \<in> set (concat (ht_buckets u))"
    then have "e \<in> set (concat (ht_buckets t))" by (simp only: b)
    from placed_entry [OF hash_ok_placed [OF ok] this]
    obtain x i where x: "ht_entries t e = Some x" "key_index t (he_key x) = Some i" by blast
    from key_index_ok [OF x(2)] have "key_ok (ht_key_type u) (he_key x)"
      using tu by (simp add: same_content_def same_frame_def)
    from key_index_Some [OF j this] obtain l where "key_index u (he_key x) = Some l" "int l < ht_n_buckets u" .
    moreover have "ht_entries u e = Some x" using x(1) tu by (simp add: same_content_def)
    ultimately show "\<exists>x i. ht_entries u e = Some x \<and> key_index u (he_key x) = Some i \<and> i < length ?bs"
      by auto
  qed
  have c0: "concat (replicate l []) = []" for l :: nat by (induction l) simp_all
  have "placed u (ht_entries u) ?bs" by (simp add: placed_def)
  from rehash_loop_ok [OF es this] show ?thesis
  proof (rule returns_mono)
    fix bs assume 1: "length bs = length ?bs \<and> placed u (ht_entries u) bs \<and>
      mset (concat bs) = mset (concat (ht_buckets u)) + mset (concat ?bs)"
    let ?u = "u\<lparr>ht_buckets := bs, ht_array := ht_array u + 1\<rparr>"
    have l: "int (length bs) = ht_n_buckets ?u" using 1 geometry_bounds(1,2) [OF j] by simp
    have "mset (chained ?u) = mset (chained u)" using 1 c0 by (simp add: chained_def del: mset_concat)
    then have s: "same_content t ?u" using tu by (simp add: same_content_def same_frame_def)
    have "placed ?u (ht_entries ?u) (ht_buckets ?u)" using 1 by simp
    with j l have "hash_ok ?u" by (intro hash_ok_same_content [OF ok s, of j]) (simp_all add: geometry_def)
    with s show "hash_ok ?u \<and> same_content t ?u" by simp
  qed
qed

lemma rebuild_table_ok:
  assumes ok: "hash_ok t" and n: "ht_n_entries t < 805306368"
  shows "returns (rebuild_table t) (\<lambda>t'. hash_ok t' \<and> same_content t t')"
proof -
  obtain k where k: "geometry k t" using ok by (auto simp: hash_ok_def)
  obtain b m where m: "alloc (ht_mem t) = (b, m)" by fastforce
  let ?t = "t\<lparr>ht_mem := m\<rparr>"
  define g where "g = (ht_n_entries t \<ge> ht_hi_rebuild_size t)"
  define nb where "nb = (if g then ht_n_buckets t * 4 else ht_n_buckets t div 4)"
  define rest where "rest u = (if ht_lo_rebuild_size u \<ge> 0 \<and> ht_hi_rebuild_size u > ht_lo_rebuild_size u \<and>
      ht_mask u \<noteq> 0 \<and> ht_mask u < ht_n_buckets u
    then do {
      bs \<leftarrow> rehash_loop u (concat (ht_buckets u)) (replicate (nat nb) []);
      Some (u\<lparr>ht_buckets := bs, ht_array := ht_array u + 1\<rparr>) }
    else None)" for u
  have st: "same_content t ?t" using alloc_answers [OF m] by (simp add: same_content_def same_frame_def)
  have eq: "rebuild_table t =
      (if g \<and> \<not> (ht_n_buckets t < INT_MAX div 4 \<and> ht_down_shift t \<ge> 0) then Some t
       else if \<not> g \<and> nb < DBUS_SMALL_HASH_TABLE then Some t
       else if \<not> b then Some ?t else do { u \<leftarrow> resize_fields g nb ?t; rest u })"
    unfolding rebuild_table_def hash_alloc_def rest_def g_def nb_def m Let_def split by simp
  have rest: "returns (do { u \<leftarrow> resize_fields g nb ?t; rest u }) (\<lambda>t'. hash_ok t' \<and> same_content t t')"
    if r: "returns (resize_fields g nb ?t) (\<lambda>u. geometry j u \<and> same_content ?t u \<and> ht_buckets u = ht_buckets ?t \<and>
      ht_n_buckets u = nb)" for j
  proof (rule returns_bindI [OF r])
    fix u assume u: "geometry j u \<and> same_content ?t u \<and> ht_buckets u = ht_buckets ?t \<and> ht_n_buckets u = nb"
    then have tu: "same_content t u" using st by (auto simp: same_content_def same_frame_def)
    have "rest u = do { bs \<leftarrow> rehash_loop u (concat (ht_buckets u)) (replicate (nat nb) []);
        Some (u\<lparr>ht_buckets := bs, ht_array := ht_array u + 1\<rparr>) }"
      unfolding rest_def using geometry_bounds [of j u] u by (intro if_P) linarith
    with rehash_ok [OF ok _ tu, of j] u show "returns (rest u) (\<lambda>t'. hash_ok t' \<and> same_content t t')"
      by (simp add: returns_bind)
  qed
  show ?thesis
  proof (cases "g \<or> k \<noteq> 0")
    case True
    have "\<exists>j. returns (resize_fields g nb ?t) (\<lambda>u. geometry j u \<and> same_content ?t u \<and> ht_buckets u = ht_buckets ?t \<and>
      ht_n_buckets u = nb)"
    proof (cases g)
      case True
      have "\<not> 12 * (4::int) ^ 13 \<le> ht_n_entries t" using n by simp
      then have "k \<noteq> 13" using True k by (auto simp: geometry_def g_def)
      then have "k < 13" using k by (simp add: geometry_def)
      then show ?thesis using resize_grow [of k ?t] k True by (auto simp: nb_def)
    next
      case False
      then show ?thesis using resize_shrink [of k ?t] k True by (auto simp: nb_def)
    qed
    with rest have "returns (do { u \<leftarrow> resize_fields g nb ?t; rest u }) (\<lambda>t'. hash_ok t' \<and> same_content t t')" by blast
    then show ?thesis using ok st unfolding eq by (simp only: returns_simps split: if_split) simp
  next
    case False
    then show ?thesis using ok k unfolding eq by (simp add: nb_def geometry_def)
  qed
qed

section \<open>Finding\<close>

lemma search_chain_eq:
  "\<forall>e \<in> set c. \<exists>x. E e = Some x \<Longrightarrow>
   search_chain E key c = Some (List.find (\<lambda>e. fst (entry_pair E e) = key_class key) c)"
  by (induction c) (auto simp: same_key_iff entry_pair_def)

lemma key_index_class: "key_class k = key_class l \<Longrightarrow> key_index t k = key_index t l"
  by (cases k; cases l) simp_all

lemma search_ok:
  assumes ok: "hash_ok t" and key: "key_ok (ht_key_type t) key"
  obtains i where "key_index t key = Some i" "i < length (ht_buckets t)"
    "search_chain (ht_entries t) key (ht_buckets t ! i) = Some None \<and> table_map t (key_class key) = None \<or>
     (\<exists>e x. search_chain (ht_entries t) key (ht_buckets t ! i) = Some (Some e) \<and> e \<in> set (ht_buckets t ! i) \<and>
       ht_entries t e = Some x \<and> key_class (he_key x) = key_class key \<and>
       table_map t (key_class key) = Some (he_value x))"
proof -
  obtain k where k: "geometry k t" using ok by (auto simp: hash_ok_def)
  from key_index_Some [OF k key] obtain i where i: "key_index t key = Some i" "int i < ht_n_buckets t" .
  have il: "i < length (ht_buckets t)" using i(2) ok by (auto simp: hash_ok_def)
  let ?E = "ht_entries t" and ?c = "ht_buckets t ! i"
  have dom: "\<forall>e \<in> set ?c. \<exists>x. ?E e = Some x" using hash_ok_placed [OF ok] il by (auto simp: placed_def)
  note eq = search_chain_eq [OF dom, of key]
  show ?thesis
  proof (cases "List.find (\<lambda>e. fst (entry_pair ?E e) = key_class key) ?c")
    case None
    have "fst (entry_pair ?E e) \<noteq> key_class key" if e: "e \<in> set (chained t)" for e
    proof
      assume c: "fst (entry_pair ?E e) = key_class key"
      from placed_entry [OF hash_ok_placed [OF ok] e [unfolded chained_def]] obtain x j
        where x: "?E e = Some x" "key_index t (he_key x) = Some j" "e \<in> set (ht_buckets t ! j)" by blast
      then have "j = i" using key_index_class [of "he_key x" key t] c i(1) by (simp add: entry_pair_def)
      with x None c show False by (auto simp: find_None_iff)
    qed
    then have "table_map t (key_class key) = None" by (simp add: table_map_None)
    then show ?thesis using that [OF i(1) il] None eq by simp
  next
    case (Some e)
    then have e: "fst (entry_pair ?E e) = key_class key" "e \<in> set ?c" by (auto simp: find_Some_iff)
    obtain x where x: "?E e = Some x" using dom e(2) by blast
    have "e \<in> set (chained t)" unfolding chained_def by (rule in_chain_concat [OF il e(2)])
    then have "table_map t (key_class key) = Some (he_value x)"
      using e(1) x by (auto simp: table_map_Some [OF ok] entry_pair_def intro!: bexI [of _ e])
    then show ?thesis using that [OF i(1) il] Some eq e x by (simp add: entry_pair_def)
  qed
qed

lemma bucket_chain_current: "i < length (ht_buckets t) \<Longrightarrow> bucket_chain (ht_array t, i) t = Some (ht_buckets t ! i)"
  by (simp add: bucket_chain_def)

lemma lookup_ok:
  assumes "hash_ok t" "key_ok (ht_key_type t) key"
  shows "hash_table_lookup key t = Some (case table_map t (key_class key) of None \<Rightarrow> 0 | Some v \<Rightarrow> v)"
  by (rule search_ok [OF assms])
    (auto simp: hash_table_lookup_def find_function_def find_generic_function_def bucket_chain_current)

section \<open>Removing\<close>

text \<open>What the free functions were called with in between.\<close>

definition logged :: "hash_key list \<Rightarrow> nat list \<Rightarrow> hash_table \<Rightarrow> hash_table \<Rightarrow> bool" where
  "logged ks vs t t' \<longleftrightarrow>
     ht_freed_keys t' = ht_freed_keys t @ (if ht_free_key_function t then ks else []) \<and>
     ht_freed_values t' = ht_freed_values t @ (if ht_free_value_function t then vs else [])"

lemma logged_Nil [simp]: "logged [] [] t t' \<longleftrightarrow> ht_freed_keys t' = ht_freed_keys t \<and> ht_freed_values t' = ht_freed_values t"
  by (simp add: logged_def)

lemma logged_append:
  "logged ks vs t u \<Longrightarrow> logged ls ws u v \<Longrightarrow> same_frame t u \<Longrightarrow> logged (ks @ ls) (vs @ ws) t v"
  by (simp add: logged_def same_frame_def)

text \<open>Entry \<open>e\<close>, in bucket \<open>i\<close> with content \<open>x\<close>, is gone.\<close>

definition entry_removed :: "nat \<Rightarrow> nat \<Rightarrow> hash_entry \<Rightarrow> hash_table \<Rightarrow> hash_table \<Rightarrow> bool" where
  "entry_removed i e x t t' \<longleftrightarrow>
     same_frame t t' \<and> ht_buckets t' = (ht_buckets t)[i := remove1 e (ht_buckets t ! i)] \<and>
     ht_entries t' = (ht_entries t)(e := None) \<and> ht_fresh t' = ht_fresh t \<and> ht_array t' = ht_array t \<and>
     ht_n_entries t' = ht_n_entries t - 1 \<and> ht_n_buckets t' = ht_n_buckets t \<and> ht_mask t' = ht_mask t \<and>
     ht_down_shift t' = ht_down_shift t \<and> ht_hi_rebuild_size t' = ht_hi_rebuild_size t \<and>
     ht_lo_rebuild_size t' = ht_lo_rebuild_size t \<and> logged [he_key x] [he_value x] t t'"

lemma remove_entry_eq:
  assumes ok: "hash_ok t" and i: "i < length (ht_buckets t)" and e: "e \<in> set (ht_buckets t ! i)"
    and x: "ht_entries t e = Some x"
  shows "returns (remove_entry (ht_array t, i) e t) (entry_removed i e x t)"
proof -
  have "e \<in> set (chained t)" unfolding chained_def by (rule in_chain_concat [OF i e])
  then have "0 < length (chained t)" by auto
  then have n: "int32 (ht_n_entries t - 1) = Some (ht_n_entries t - 1)"
    using ok by (simp add: hash_ok_def int32_def)
  have "ht_buckets t ! i \<noteq> []" using e by auto
  then show ?thesis using i e x n
    by (simp add: remove_entry_def bucket_chain_current set_chain_def free_entry_def free_entry_data_def
        mem_pool_release_def free_key_def free_value_def entry_removed_def same_frame_def logged_def Let_def)
qed

lemma entry_removed_ok:
  assumes ok: "hash_ok t" and i: "i < length (ht_buckets t)" and e: "e \<in> set (ht_buckets t ! i)"
    and x: "ht_entries t e = Some x" and r: "entry_removed i e x t t'"
  shows "hash_ok t'" "chained t' = filter (\<lambda>f. f \<noteq> e) (chained t)"
    "table_map t' = (table_map t)(key_class (he_key x) := None)"
proof -
  let ?E = "ht_entries t"
  have d: "distinct (concat (ht_buckets t))" using hash_ok_distinct [OF ok] by (simp only: chained_def)
  show c: "chained t' = filter (\<lambda>f. f \<noteq> e) (chained t)"
    using concat_remove1 [OF i e d] r by (simp add: chained_def entry_removed_def)
  have p: "entry_pair (ht_entries t') f = entry_pair ?E f" if "f \<in> set (chained t')" for f
    using that r c by (simp add: entry_pair_def entry_removed_def)
  have ec: "e \<in> set (chained t)" unfolding chained_def by (rule in_chain_concat [OF i e])
  moreover have "filter (\<lambda>f. f \<noteq> e) (chained t) = remove1 e (chained t)"
    using d by (simp only: chained_def distinct_remove1_removeAll removeAll_filter_not_eq) metis
  moreover have "0 < length (chained t)" using ec by auto
  ultimately have "length (chained t) = Suc (length (filter (\<lambda>f. f \<noteq> e) (chained t)))"
    by (simp add: length_remove1)
  then have n: "ht_n_entries t' = int (length (chained t'))" "ht_n_entries t' \<le> 2147483647"
    using ok r c by (simp_all add: hash_ok_def entry_removed_def)
  have pe: "map (fst \<circ> entry_pair (ht_entries t')) (chained t') = map (fst \<circ> entry_pair ?E) (chained t')"
    using p by simp
  have dm: "distinct (map (fst \<circ> entry_pair (ht_entries t')) (chained t'))"
    unfolding pe unfolding c using ok by (intro distinct_map_filter) (simp add: hash_ok_def)
  have k: "\<exists>k. geometry k t'" using ok r by (simp add: hash_ok_def geometry_def entry_removed_def)
  have pl: "placed t' (ht_entries t') (ht_buckets t')"
    unfolding placed_def
  proof (intro allI impI ballI)
    fix j f assume j: "j < length (ht_buckets t')" "f \<in> set (ht_buckets t' ! j)"
    have b: "ht_buckets t' = (ht_buckets t)[i := remove1 e (ht_buckets t ! i)]" using r by (simp add: entry_removed_def)
    have jl: "j < length (ht_buckets t)" using j(1) by (simp add: b)
    have "set (ht_buckets t' ! j) \<subseteq> set (ht_buckets t ! j)"
      using jl unfolding b by (cases "j = i") (simp_all add: set_remove1_subset)
    then have jf: "j < length (ht_buckets t)" "f \<in> set (ht_buckets t ! j)" using jl j(2) by blast+
    have "f \<in> set (chained t')" unfolding chained_def by (rule in_chain_concat [OF j])
    then have "f \<noteq> e" using c by simp
    moreover obtain y where "?E f = Some y" "key_index t (he_key y) = Some j"
      using hash_ok_placed [OF ok] jf by (auto simp: placed_def)
    moreover have "key_index t' = key_index t"
      using r by (intro ext key_index_cong) (simp_all add: entry_removed_def same_frame_def)
    ultimately show "\<exists>y. ht_entries t' f = Some y \<and> key_index t' (he_key y) = Some j"
      using r by (simp add: entry_removed_def)
  qed
  show ok': "hash_ok t'"
    using k n dm pl ok r unfolding hash_ok_def by (simp add: entry_removed_def)
  show "table_map t' = (table_map t)(key_class (he_key x) := None)"
  proof (rule table_map_eqI [OF ok'])
    fix c' v
    have "(\<exists>f \<in> set (chained t'). entry_pair (ht_entries t') f = (c', v)) \<longleftrightarrow>
        (\<exists>f \<in> set (chained t). f \<noteq> e \<and> entry_pair ?E f = (c', v))" using p c by auto
    also have "\<dots> \<longleftrightarrow> ((table_map t)(key_class (he_key x) := None)) c' = Some v"
    proof (cases "c' = key_class (he_key x)")
      case True
      have "f = e" if "f \<in> set (chained t)" "entry_pair ?E f = (c', v)" for f
        using same_class [OF ok that(1) ec] that(2) x True by (simp add: entry_pair_def)
      then show ?thesis using True by auto
    next
      case False
      then have "entry_pair ?E e \<noteq> (c', v)" using x by (simp add: entry_pair_def)
      then show ?thesis using False table_map_Some [OF ok, of c' v] by auto
    qed
    finally show "(\<exists>f \<in> set (chained t'). entry_pair (ht_entries t') f = (c', v)) \<longleftrightarrow>
        ((table_map t)(key_class (he_key x) := None)) c' = Some v" .
  qed
qed

lemma remove_ok:
  assumes ok: "hash_ok t" and key: "key_ok (ht_key_type t) key"
  shows "returns (hash_table_remove key t) (\<lambda>(b, t'). hash_ok t' \<and> same_frame t t' \<and>
    b = (key_class key \<in> dom (table_map t)) \<and> table_map t' = (table_map t)(key_class key := None) \<and>
    (case table_map t (key_class key) of
       None \<Rightarrow> t' = t
     | Some v \<Rightarrow> \<exists>k. key_class k = key_class key \<and> logged [k] [v] t t'))"
proof (rule search_ok [OF ok key])
  fix i
  assume i: "key_index t key = Some i" "i < length (ht_buckets t)"
    and or: "search_chain (ht_entries t) key (ht_buckets t ! i) = Some None \<and> table_map t (key_class key) = None \<or>
     (\<exists>e x. search_chain (ht_entries t) key (ht_buckets t ! i) = Some (Some e) \<and> e \<in> set (ht_buckets t ! i) \<and>
       ht_entries t e = Some x \<and> key_class (he_key x) = key_class key \<and>
       table_map t (key_class key) = Some (he_value x))"
  note defs = hash_table_remove_def find_function_def find_generic_function_def bucket_chain_current
  from or show ?thesis
  proof (elim disjE exE conjE)
    assume "search_chain (ht_entries t) key (ht_buckets t ! i) = Some None" "table_map t (key_class key) = None"
    then show ?thesis using i ok by (auto simp: defs)
  next
    fix e x
    assume e: "search_chain (ht_entries t) key (ht_buckets t ! i) = Some (Some e)" "e \<in> set (ht_buckets t ! i)"
      "ht_entries t e = Some x" "key_class (he_key x) = key_class key" "table_map t (key_class key) = Some (he_value x)"
    obtain t' where t': "remove_entry (ht_array t, i) e t = Some t'" "entry_removed i e x t t'"
      by (rule returnsE [OF remove_entry_eq [OF ok i(2) e(2,3)]])
    note r = entry_removed_ok [OF ok i(2) e(2,3) t'(2)]
    have "same_frame t t'" "logged [he_key x] [he_value x] t t'" using t'(2) by (simp_all add: entry_removed_def)
    then show ?thesis using r(1,3) i e t'(1) by (auto simp: defs simp del: logged_Nil)
  qed
qed

section \<open>Inserting\<close>

text \<open>Tables with the same buckets and bounds.\<close>

definition same_shape :: "hash_table \<Rightarrow> hash_table \<Rightarrow> bool" where
  "same_shape t u \<longleftrightarrow> ht_buckets u = ht_buckets t \<and> ht_n_buckets u = ht_n_buckets t \<and>
     ht_n_entries u = ht_n_entries t \<and> ht_hi_rebuild_size u = ht_hi_rebuild_size t \<and>
     ht_lo_rebuild_size u = ht_lo_rebuild_size t \<and> ht_down_shift u = ht_down_shift t \<and>
     ht_mask u = ht_mask t \<and> ht_key_type u = ht_key_type t"

lemma same_shape_refl [simp]: "same_shape t t"
  by (simp add: same_shape_def)

lemma hash_ok_same_shape:
  assumes ok: "hash_ok t" and u: "same_shape t u" and f: "\<forall>e. e \<in> dom (ht_entries u) \<longrightarrow> e < ht_fresh u"
    and E: "\<forall>e \<in> set (chained t). \<exists>y z. ht_entries t e = Some y \<and> ht_entries u e = Some z \<and>
      key_class (he_key z) = key_class (he_key y)"
  shows "hash_ok u"
proof -
  have c: "chained u = chained t" using u by (simp add: same_shape_def chained_def)
  have k: "\<exists>k. geometry k u" using ok u by (simp add: hash_ok_def geometry_def same_shape_def)
  have "map (fst \<circ> entry_pair (ht_entries u)) (chained u) = map (fst \<circ> entry_pair (ht_entries t)) (chained t)"
    using E by (auto simp: c entry_pair_def)
  then have d: "distinct (map (fst \<circ> entry_pair (ht_entries u)) (chained u))"
    using ok by (simp only: hash_ok_def)
  have ki: "key_index u = key_index t"
    using u by (intro ext key_index_cong) (simp_all add: same_shape_def)
  have p: "placed u (ht_entries u) (ht_buckets u)"
    unfolding placed_def ki
  proof (intro allI impI ballI)
    fix i e assume "i < length (ht_buckets u)" "e \<in> set (ht_buckets u ! i)"
    then have i: "i < length (ht_buckets t)" "e \<in> set (ht_buckets t ! i)" using u by (simp_all add: same_shape_def)
    have "e \<in> set (chained t)" unfolding chained_def by (rule in_chain_concat [OF i])
    then obtain y z where yz: "ht_entries t e = Some y" "ht_entries u e = Some z" "key_class (he_key z) = key_class (he_key y)"
      using E by blast
    have "key_index t (he_key y) = Some i" using placedD [OF hash_ok_placed [OF ok] i] yz(1) by simp
    then show "\<exists>z. ht_entries u e = Some z \<and> key_index t (he_key z) = Some i"
      using yz key_index_class by metis
  qed
  show ?thesis using k p d f c ok u unfolding hash_ok_def by (simp add: same_shape_def)
qed

lemma hash_ok_dom: "hash_ok t \<Longrightarrow> e \<in> set (chained t) \<Longrightarrow> \<exists>x. ht_entries t e = Some x"
  using placed_entry [OF hash_ok_placed] unfolding chained_def by blast

lemma hash_ok_fresh: "hash_ok t \<Longrightarrow> ht_entries t e = Some x \<Longrightarrow> e < ht_fresh t"
  by (auto simp: hash_ok_def)

text \<open>Entries outside the chains do not matter.\<close>

lemma other_entries:
  assumes ok: "hash_ok t" and u: "same_shape t u" and f: "\<forall>e. e \<in> dom (ht_entries u) \<longrightarrow> e < ht_fresh u"
    and E: "\<forall>e \<in> set (chained t). ht_entries u e = ht_entries t e"
  shows "hash_ok u" "table_map u = table_map t"
proof -
  have c: "chained u = chained t" using u by (simp add: same_shape_def chained_def)
  show "hash_ok u" using hash_ok_dom [OF ok] E by (intro hash_ok_same_shape [OF ok u f]) fastforce
  have "map (entry_pair (ht_entries u)) (chained t) = map (entry_pair (ht_entries t)) (chained t)"
    using E by (simp add: entry_pair_def)
  then show "table_map u = table_map t" by (simp only: table_map_def c)
qed

lemma store_entry_ok:
  assumes ok: "hash_ok t" and e: "e \<in> set (chained t)" and x: "ht_entries t e = Some x"
    and c: "key_class (he_key x) = key_class key"
  shows "returns (store_entry e key v t) (\<lambda>t'. hash_ok t' \<and> same_frame t t' \<and>
    table_map t' = (table_map t)(key_class key \<mapsto> v) \<and> ht_n_entries t' = ht_n_entries t \<and>
    logged (if he_key x \<noteq> key then [he_key x] else []) (if he_value x \<noteq> v then [he_value x] else []) t t')"
proof -
  define u where "u = (let t = (if he_key x \<noteq> key then free_key (he_key x) t else t);
      t = (if he_value x \<noteq> v then free_value (he_value x) t else t) in
    t\<lparr>ht_entries := (ht_entries t)(e \<mapsto> \<lparr>he_key = key, he_value = v\<rparr>)\<rparr>)"
  have eq: "store_entry e key v t = Some u" by (simp add: store_entry_def x u_def Let_def)
  have s: "same_shape t u" "same_frame t u" "ht_fresh u = ht_fresh t"
    and E: "ht_entries u = (ht_entries t)(e \<mapsto> \<lparr>he_key = key, he_value = v\<rparr>)"
    and l: "logged (if he_key x \<noteq> key then [he_key x] else []) (if he_value x \<noteq> v then [he_value x] else []) t u"
    by (simp_all add: u_def Let_def free_key_def free_value_def same_shape_def same_frame_def logged_def)
  have Ef: "ht_entries u f = (if f = e then Some \<lparr>he_key = key, he_value = v\<rparr> else ht_entries t f)" for f
    by (simp add: E)
  have "f < ht_fresh u" if "ht_entries u f = Some y" for f y
    unfolding s(3) by (cases "f = e") (use that x hash_ok_fresh [OF ok, of f] in \<open>simp_all add: Ef\<close>)
  then have fr: "\<forall>f. f \<in> dom (ht_entries u) \<longrightarrow> f < ht_fresh u" by blast
  have "\<exists>y z. ht_entries t f = Some y \<and> ht_entries u f = Some z \<and> key_class (he_key z) = key_class (he_key y)"
    if f: "f \<in> set (chained t)" for f
    by (rule exE [OF hash_ok_dom [OF ok f]], cases "f = e") (use x c in \<open>simp_all add: Ef\<close>)
  then have ok': "hash_ok u" by (intro hash_ok_same_shape [OF ok s(1) fr]) blast
  have ch: "chained u = chained t" using s(1) by (simp add: same_shape_def chained_def)
  have "table_map u = (table_map t)(key_class key \<mapsto> v)"
  proof (rule table_map_eqI [OF ok'])
    fix c' w
    show "(\<exists>f \<in> set (chained u). entry_pair (ht_entries u) f = (c', w)) \<longleftrightarrow>
        ((table_map t)(key_class key \<mapsto> v)) c' = Some w"
    proof (cases "c' = key_class key")
      case True
      have "f = e" if "f \<in> set (chained t)" "entry_pair (ht_entries u) f = (c', w)" for f
      proof (rule ccontr)
        assume "f \<noteq> e"
        then have "fst (entry_pair (ht_entries t) f) = fst (entry_pair (ht_entries t) e)"
          using that(2) True x c E by (simp add: entry_pair_def)
        with same_class [OF ok that(1) e] \<open>f \<noteq> e\<close> show False by blast
      qed
      then have "(\<exists>f \<in> set (chained u). entry_pair (ht_entries u) f = (c', w)) \<longleftrightarrow>
          entry_pair (ht_entries u) e = (c', w)" using e unfolding ch by blast
      also have "\<dots> \<longleftrightarrow> v = w" using True by (simp add: entry_pair_def Ef)
      finally show ?thesis using True by simp
    next
      case False
      then have "entry_pair (ht_entries t) e \<noteq> (c', w)" "entry_pair (ht_entries u) e \<noteq> (c', w)"
        using x c E by (simp_all add: entry_pair_def)
      moreover have "entry_pair (ht_entries u) f = entry_pair (ht_entries t) f" if "f \<noteq> e" for f
        using that E by (simp add: entry_pair_def)
      ultimately show ?thesis using False table_map_Some [OF ok, of c' w] unfolding ch by (metis fun_upd_other)
    qed
  qed
  then show ?thesis using eq ok' s l by (simp add: same_shape_def)
qed

text \<open>A new entry at the front of its bucket, before the table is rebuilt.\<close>

lemma push_entry_ok:
  assumes ok: "hash_ok t" and e: "e \<notin> set (chained t)" and i: "key_index t key = Some i" "i < length (ht_buckets t)"
    and new: "table_map t (key_class key) = None" and n: "ht_n_entries t < 2147483647" and x: "he_key x = key"
    and fr: "e < ht_fresh t"
  shows "hash_ok (t\<lparr>ht_entries := (ht_entries t)(e \<mapsto> x), ht_buckets := (ht_buckets t)[i := e # ht_buckets t ! i],
      ht_n_entries := ht_n_entries t + 1\<rparr>)" (is "hash_ok ?u")
    and "mset (chained (t\<lparr>ht_buckets := (ht_buckets t)[i := e # ht_buckets t ! i]\<rparr>)) = add_mset e (mset (chained t))"
proof -
  show m: "mset (chained (t\<lparr>ht_buckets := (ht_buckets t)[i := e # ht_buckets t ! i]\<rparr>)) = add_mset e (mset (chained t))"
    using mset_concat_push [OF i(2)] by (simp add: chained_def del: mset_concat)
  then have m: "mset (chained ?u) = mset (e # chained t)" by (simp add: chained_def del: mset_concat)
  have Eu: "entry_pair (ht_entries ?u) f = entry_pair (ht_entries t) f" if "f \<in> set (chained t)" for f
    using that e by (auto simp: entry_pair_def)
  have "fst (entry_pair (ht_entries ?u) e) = key_class key" using x by (simp add: entry_pair_def)
  then have "map (fst \<circ> entry_pair (ht_entries ?u)) (e # chained t) =
      key_class key # map (fst \<circ> entry_pair (ht_entries t)) (chained t)" using Eu by simp
  moreover have "key_class key \<notin> set (map (fst \<circ> entry_pair (ht_entries t)) (chained t))"
    using new by (auto simp: table_map_None)
  moreover have "distinct (map (fst \<circ> entry_pair (ht_entries t)) (chained t))" using ok by (simp only: hash_ok_def)
  ultimately have "distinct (map (fst \<circ> entry_pair (ht_entries ?u)) (e # chained t))" by (simp only: distinct.simps) simp
  moreover have "mset (map (fst \<circ> entry_pair (ht_entries ?u)) (chained ?u)) =
      mset (map (fst \<circ> entry_pair (ht_entries ?u)) (e # chained t))" by (simp only: mset_map m)
  ultimately have d: "distinct (map (fst \<circ> entry_pair (ht_entries ?u)) (chained ?u))"
    by (metis mset_eq_imp_distinct_iff)
  have l: "length (chained ?u) = Suc (length (chained t))" using mset_eq_length [OF m] by simp
  have ki: "key_index ?u = key_index t" by (intro ext key_index_cong) simp_all
  have p: "placed ?u (ht_entries ?u) (ht_buckets ?u)"
    unfolding placed_def ki
  proof (intro allI impI ballI)
    fix j f assume "j < length (ht_buckets ?u)" "f \<in> set (ht_buckets ?u ! j)"
    then have j: "j < length (ht_buckets t)" "f = e \<and> j = i \<or> f \<in> set (ht_buckets t ! j)"
      using i(2) by (auto simp: nth_list_update split: if_splits)
    show "\<exists>y. ht_entries ?u f = Some y \<and> key_index t (he_key y) = Some j"
    proof (cases "f \<in> set (ht_buckets t ! j)")
      case True
      have "f \<in> set (chained t)" unfolding chained_def by (rule in_chain_concat [OF j(1) True])
      then have "f \<noteq> e" using e by blast
      then show ?thesis using placedD [OF hash_ok_placed [OF ok] j(1) True] by simp
    next
      case False
      then show ?thesis using j(2) i(1) x by simp
    qed
  qed
  have k: "\<exists>k. geometry k ?u" using ok by (simp add: hash_ok_def geometry_def)
  have "f < ht_fresh ?u" if "ht_entries ?u f = Some y" for f y
    using that fr hash_ok_fresh [OF ok, of f] by (simp split: if_splits)
  then have f: "\<forall>f. f \<in> dom (ht_entries ?u) \<longrightarrow> f < ht_fresh ?u" by blast
  have b: "int (length (ht_buckets ?u)) = ht_n_buckets ?u" using ok by (simp add: hash_ok_def)
  have "ht_n_entries ?u = int (length (chained ?u))" "ht_n_entries ?u \<le> 2147483647"
    using ok n l by (simp_all add: hash_ok_def)
  with k b p d f show "hash_ok ?u" unfolding hash_ok_def by blast
qed

lemma add_allocated_entry_ok:
  assumes ok: "hash_ok t" and e: "e \<notin> set (chained t)" and i: "key_index t key = Some i" "i < length (ht_buckets t)"
    and new: "table_map t (key_class key) = None" and n: "ht_n_entries t < 805306367" and x: "ht_entries t e = Some x"
  shows "returns (add_allocated_entry e i key t) (\<lambda>(b, t'). b = (ht_array t, i) \<and> hash_ok t' \<and> same_frame t t' \<and>
    e \<in> set (chained t') \<and> ht_entries t' = (ht_entries t)(e \<mapsto> x\<lparr>he_key := key\<rparr>) \<and>
    (\<forall>c. c \<noteq> key_class key \<longrightarrow> table_map t' c = table_map t c) \<and>
    ht_n_entries t' = ht_n_entries t + 1 \<and> logged [] [] t t')"
proof -
  let ?x = "x\<lparr>he_key := key\<rparr>"
  let ?u = "t\<lparr>ht_entries := (ht_entries t)(e \<mapsto> ?x), ht_buckets := (ht_buckets t)[i := e # ht_buckets t ! i],
      ht_n_entries := ht_n_entries t + 1\<rparr>"
  have n': "ht_n_entries t < 2147483647" using n by simp
  have fr: "e < ht_fresh t" by (rule hash_ok_fresh [OF ok x])
  have u: "hash_ok ?u" by (rule push_entry_ok(1) [OF ok e i new n' _ fr]) simp
  have m: "mset (chained ?u) = add_mset e (mset (chained t))"
    using push_entry_ok(2) [OF ok e i new n' _ fr, of ?x] by (simp add: chained_def del: mset_concat)
  have pair: "entry_pair (ht_entries ?u) f = entry_pair (ht_entries t) f" if "f \<in> set (chained t)" for f
    using that e by (auto simp: entry_pair_def)
  have map_u: "table_map ?u c = table_map t c" if "c \<noteq> key_class key" for c
  proof (rule option_eqI)
    have "set (chained ?u) = insert e (set (chained t))" using m by (metis set_mset_mset set_mset_add_mset_insert)
    moreover have "entry_pair (ht_entries ?u) e \<noteq> (c, v)" for v using that by (simp add: entry_pair_def)
    ultimately show "table_map ?u c = Some v \<longleftrightarrow> table_map t c = Some v" for v
      unfolding table_map_Some [OF u] table_map_Some [OF ok] using pair by auto
  qed
  let ?r = "if ht_n_entries ?u \<ge> ht_hi_rebuild_size ?u \<or> ht_n_entries ?u < ht_lo_rebuild_size ?u
            then rebuild_table ?u else Some ?u"
  have "int32 (ht_n_entries t + 1) = Some (ht_n_entries t + 1)" using n ok by (simp add: int32_def hash_ok_def)
  then have eq: "add_allocated_entry e i key t = do { t' \<leftarrow> ?r; Some ((ht_array t, i), t') }"
    using x i(2) by (simp add: add_allocated_entry_def bucket_chain_def set_chain_def Let_def)
  have r: "returns ?r (\<lambda>t'. hash_ok t' \<and> same_content ?u t')"
    using rebuild_table_ok [OF u] u n by simp
  have "b = (ht_array t, i) \<and> hash_ok t' \<and> same_frame t t' \<and>
      e \<in> set (chained t') \<and> ht_entries t' = (ht_entries t)(e \<mapsto> ?x) \<and>
      (\<forall>c. c \<noteq> key_class key \<longrightarrow> table_map t' c = table_map t c) \<and>
      ht_n_entries t' = ht_n_entries t + 1 \<and> logged [] [] t t'"
    if t': "hash_ok t'" "same_content ?u t'" and b: "b = (ht_array t, i)" for b t'
  proof -
    have "mset (chained t') = add_mset e (mset (chained t))" using t'(2) m by (simp add: same_content_def)
    then have "e \<in> set (chained t')" by (metis set_mset_mset union_single_eq_member)
    moreover have "table_map t' c = table_map t c" if "c \<noteq> key_class key" for c
      using same_content_map [OF u t'] map_u [OF that] by simp
    ultimately show ?thesis using t' b by (simp add: same_content_def same_frame_def)
  qed
  then show ?thesis unfolding eq returns_bind using r by (auto elim!: returns_mono)
qed

text \<open>The address a key stands for, \<open>NULL\<close> when it stands for none.\<close>

definition value_or_null :: "nat option \<Rightarrow> nat" where
  "value_or_null v = (case v of None \<Rightarrow> 0 | Some v \<Rightarrow> v)"

definition found_entry :: "hash_key \<Rightarrow> hash_table \<Rightarrow> nat \<Rightarrow> hash_table \<Rightarrow> bool" where
  "found_entry key t e t' \<longleftrightarrow>
     hash_ok t' \<and> same_frame t t' \<and> logged [] [] t t' \<and> e \<in> set (chained t') \<and>
     (\<forall>c. c \<noteq> key_class key \<longrightarrow> table_map t' c = table_map t c) \<and>
     (\<exists>x. ht_entries t' e = Some x \<and> key_class (he_key x) = key_class key \<and>
       he_value x = value_or_null (table_map t (key_class key)) \<and>
       (table_map t (key_class key) = None \<longrightarrow> he_key x = key))"

text \<open>
  A successful insertion: the old value is handed to its free function, \<open>NULL\<close> when there was none,
  and an old key when it is another one.
\<close>

definition inserted :: "hash_key \<Rightarrow> nat \<Rightarrow> hash_table \<Rightarrow> hash_table \<Rightarrow> bool" where
  "inserted key v t t' \<longleftrightarrow>
     hash_ok t' \<and> same_frame t t' \<and> table_map t' = (table_map t)(key_class key \<mapsto> v) \<and>
     (\<exists>ks. (\<forall>k \<in> set ks. key_class k = key_class key \<and> k \<noteq> key) \<and>
       (table_map t (key_class key) = None \<longrightarrow> ks = []) \<and>
       logged ks (if value_or_null (table_map t (key_class key)) \<noteq> v then [value_or_null (table_map t (key_class key))] else []) t t')"

lemma insertedI:
  "hash_ok t' \<Longrightarrow> same_frame t t' \<Longrightarrow> table_map t' = (table_map t)(key_class key \<mapsto> v) \<Longrightarrow>
   \<forall>k \<in> set ks. key_class k = key_class key \<and> k \<noteq> key \<Longrightarrow> table_map t (key_class key) = None \<longrightarrow> ks = [] \<Longrightarrow>
   logged ks (if value_or_null (table_map t (key_class key)) \<noteq> v then [value_or_null (table_map t (key_class key))] else []) t t' \<Longrightarrow>
   inserted key v t t'"
  unfolding inserted_def by (intro conjI exI [of _ ks])

text \<open>A failed one changes nothing but the answers left.\<close>

definition not_inserted :: "hash_table \<Rightarrow> hash_table \<Rightarrow> bool" where
  "not_inserted t t' \<longleftrightarrow> False \<in> set (ht_mem t) \<and> t' = t\<lparr>ht_mem := tl (ht_mem t)\<rparr>"

lemma found_entry_trans:
  assumes "found_entry key u e t'" "table_map u = table_map t" "same_frame t u" "logged [] [] t u"
  shows "found_entry key t e t'"
  using assms same_frame_trans [OF assms(3), of t'] by (simp add: found_entry_def)

lemma store_found:
  assumes "found_entry key t e u"
  shows "returns (store_entry e key v u) (inserted key v t)"
proof -
  obtain x where u: "hash_ok u" "e \<in> set (chained u)" "ht_entries u e = Some x" "key_class (he_key x) = key_class key"
    and x: "he_value x = value_or_null (table_map t (key_class key))" "table_map t (key_class key) = None \<longrightarrow> he_key x = key"
    and rest: "same_frame t u" "logged [] [] t u" "\<forall>c. c \<noteq> key_class key \<longrightarrow> table_map u c = table_map t c"
    using assms by (auto simp: found_entry_def)
  let ?ks = "if he_key x \<noteq> key then [he_key x] else []"
  from store_entry_ok [OF u, of v] show ?thesis
  proof (rule returns_mono)
    fix t'
    assume a: "hash_ok t' \<and> same_frame u t' \<and> table_map t' = (table_map u)(key_class key \<mapsto> v) \<and>
      ht_n_entries t' = ht_n_entries u \<and> logged ?ks (if he_value x \<noteq> v then [he_value x] else []) u t'"
    have m: "table_map t' = (table_map t)(key_class key \<mapsto> v)" using a rest(3) by (auto simp: fun_eq_iff)
    have f: "same_frame t t'" using a rest(1) same_frame_trans by blast
    have l: "logged ?ks (if he_value x \<noteq> v then [he_value x] else []) t t'"
      using logged_append [OF rest(2) conjunct2 [OF conjunct2 [OF conjunct2 [OF conjunct2 [OF a]]]] rest(1)] by simp
    have k: "\<forall>k \<in> set ?ks. key_class k = key_class key \<and> k \<noteq> key" "table_map t (key_class key) = None \<longrightarrow> ?ks = []"
      using x(2) u(4) by simp_all
    show "inserted key v t t'" by (rule insertedI [OF conjunct1 [OF a] f m k l [unfolded x(1)]])
  qed
qed

text \<open>Looking for an entry and adding one for a new key, from an entry \<open>p\<close> of the pool.\<close>

lemma add_new_ok:
  assumes ok: "hash_ok t" and i: "key_index t key = Some i" "i < length (ht_buckets t)"
    and new: "table_map t (key_class key) = None" and n: "ht_n_entries t < 805306367"
    and p: "p \<notin> set (chained t)" "ht_entries t p = Some \<lparr>he_key = DirectKey 0, he_value = 0\<rparr>"
  shows "returns (add_allocated_entry p i key t) (\<lambda>(b, t'). found_entry key t p t')"
  using add_allocated_entry_ok [OF ok p(1) i new n p(2)] new
  by (auto simp: found_entry_def value_or_null_def elim!: returns_mono)

lemma found_present:
  assumes "hash_ok t" "i < length (ht_buckets t)" "e \<in> set (ht_buckets t ! i)" "ht_entries t e = Some x"
    "key_class (he_key x) = key_class key" "table_map t (key_class key) = Some (he_value x)"
  shows "found_entry key t e t"
proof -
  have "e \<in> set (chained t)" unfolding chained_def by (rule in_chain_concat [OF assms(2,3)])
  then show ?thesis using assms by (simp add: found_entry_def value_or_null_def)
qed

text \<open>An element taken from the pool, and given back unused.\<close>

lemma preallocate_ok:
  assumes ok: "hash_ok t" and a: "alloc_entry t = (Some p, u)"
  shows "hash_ok u" "table_map u = table_map t" "same_shape t u" "same_frame t u" "logged [] [] t u"
    "p \<notin> set (chained u)" "ht_entries u p = Some \<lparr>he_key = DirectKey 0, he_value = 0\<rparr>"
proof -
  obtain b m where m: "alloc (ht_mem t) = (b, m)" by fastforce
  have b: "b" and p: "p = ht_fresh t"
    and u: "u = t\<lparr>ht_mem := m, ht_entries := (ht_entries t)(p \<mapsto> \<lparr>he_key = DirectKey 0, he_value = 0\<rparr>), ht_fresh := p + 1\<rparr>"
    using a by (auto simp: alloc_entry_def hash_alloc_def m split: if_splits)
  show sh: "same_shape t u" and "same_frame t u" "logged [] [] t u"
    "ht_entries u p = Some \<lparr>he_key = DirectKey 0, he_value = 0\<rparr>"
    using alloc_answers [OF m] by (simp_all add: u same_shape_def same_frame_def)
  have out: "e \<noteq> p" if "e \<in> set (chained t)" for e
    using hash_ok_dom [OF ok that] hash_ok_fresh [OF ok] p by auto
  then have pc: "p \<notin> set (chained t)" by blast
  moreover have "chained u = chained t" using sh by (simp add: same_shape_def chained_def)
  ultimately show "p \<notin> set (chained u)" by simp
  have fr: "\<forall>e. e \<in> dom (ht_entries u) \<longrightarrow> e < ht_fresh u"
    using hash_ok_fresh [OF ok] by (auto simp: u p less_Suc_eq)
  have E: "\<forall>e \<in> set (chained t). ht_entries u e = ht_entries t e" using out by (simp add: u)
  show "hash_ok u" "table_map u = table_map t" by (rule other_entries [OF ok sh fr E])+
qed

lemma alloc_entry_fails:
  assumes "alloc_entry t = (None, u)"
  shows "not_inserted t u"
  using assms by (cases "ht_mem t") (auto simp: alloc_entry_def hash_alloc_def not_inserted_def split: if_splits)

lemma release_ok:
  assumes ok: "hash_ok u" and p: "p \<notin> set (chained u)" "ht_entries u p = Some y"
  shows "returns (mem_pool_release p u) (\<lambda>u'. hash_ok u' \<and> table_map u' = table_map u \<and> same_shape u u' \<and>
    same_frame u u' \<and> logged [] [] u u' \<and> ht_entries u' = (ht_entries u)(p := None))"
proof -
  let ?u = "u\<lparr>ht_entries := (ht_entries u)(p := None)\<rparr>"
  have sh: "same_shape u ?u" by (simp add: same_shape_def)
  have fr: "\<forall>e. e \<in> dom (ht_entries ?u) \<longrightarrow> e < ht_fresh ?u"
    using hash_ok_fresh [OF ok] by (auto split: if_splits)
  have E: "\<forall>e \<in> set (chained u). ht_entries ?u e = ht_entries u e" using p(1) by auto
  show ?thesis using other_entries [OF ok sh fr E] sh p(2)
    by (simp add: mem_pool_release_def same_frame_def)
qed

lemma insert_direct_ok:
  assumes ok: "hash_ok t" and T: "ht_key_type t \<noteq> DBUS_HASH_STRING" and n: "ht_n_entries t < 805306367"
  shows "returns (insert_direct w v t) (\<lambda>(b, t'). if b then inserted (DirectKey w) v t t' else not_inserted t t')"
proof -
  let ?k = "DirectKey w"
  note defs = insert_direct_def find_function_def find_generic_function_def bucket_chain_current
  have K: "key_ok (ht_key_type t) ?k" using T by simp
  obtain i where i: "key_index t ?k = Some i" "i < length (ht_buckets t)"
    and or: "search_chain (ht_entries t) ?k (ht_buckets t ! i) = Some None \<and> table_map t (key_class ?k) = None \<or>
     (\<exists>e x. search_chain (ht_entries t) ?k (ht_buckets t ! i) = Some (Some e) \<and> e \<in> set (ht_buckets t ! i) \<and>
       ht_entries t e = Some x \<and> key_class (he_key x) = key_class ?k \<and> table_map t (key_class ?k) = Some (he_value x))"
    by (rule search_ok [OF ok K])
  from or show ?thesis
  proof (elim disjE exE conjE)
    assume new: "search_chain (ht_entries t) ?k (ht_buckets t ! i) = Some None" "table_map t (key_class ?k) = None"
    obtain a u where a: "alloc_entry t = (a, u)" by fastforce
    show ?thesis
    proof (cases a)
      case None
      then show ?thesis using alloc_entry_fails [of t u] a new(1) i by (simp add: defs add_entry_def)
    next
      case (Some p)
      note pre = preallocate_ok [OF ok a [unfolded Some]]
      have i': "key_index u ?k = Some i" "i < length (ht_buckets u)"
        using i pre(3) key_index_cong [of u t ?k] by (simp_all add: same_shape_def)
      have new': "table_map u (key_class ?k) = None" "ht_n_entries u < 805306367"
        using new(2) pre(2,3) n by (simp_all add: same_shape_def)
      obtain b t' where t': "add_allocated_entry p i ?k u = Some (b, t')" "found_entry ?k u p t'"
        by (rule returnsE [OF add_new_ok [OF pre(1) i' new' pre(6,7)]]) auto
      from store_found [OF found_entry_trans [OF t'(2) pre(2,4,5)], of v] show ?thesis
        using a new(1) i t'(1) Some by (simp add: defs add_entry_def returns_bind)
    qed
  next
    fix e x
    assume e: "search_chain (ht_entries t) ?k (ht_buckets t ! i) = Some (Some e)" "e \<in> set (ht_buckets t ! i)"
      "ht_entries t e = Some x" "key_class (he_key x) = key_class ?k" "table_map t (key_class ?k) = Some (he_value x)"
    from store_found [OF found_present [OF ok i(2) e(2-5)], of v] show ?thesis
      using e(1) i by (simp add: defs returns_bind)
  qed
qed

lemma insert_string_ok:
  assumes ok: "hash_ok t" and T: "ht_key_type t = DBUS_HASH_STRING" and n: "ht_n_entries t < 805306367"
  shows "returns (hash_table_insert_string a s v t)
    (\<lambda>(b, t'). if b then inserted (StringKey a s) v t t' else not_inserted t t')"
proof -
  let ?k = "StringKey a s"
  note defs = hash_table_insert_string_def hash_table_insert_string_preallocated_def hash_table_preallocate_entry_def
    find_function_def find_generic_function_def bucket_chain_current free_preallocated_entry_def
  obtain b u where b: "alloc_entry t = (b, u)" by fastforce
  show ?thesis
  proof (cases b)
    case None
    then show ?thesis using alloc_entry_fails [of t u] b T by (simp add: defs)
  next
    case (Some p)
    note pre = preallocate_ok [OF ok b [unfolded Some]]
    have Tu: "ht_key_type u = DBUS_HASH_STRING" using pre(4) T by (simp add: same_frame_def)
    have K: "key_ok (ht_key_type u) ?k" using Tu by simp
    note found = found_entry_trans [OF _ pre(2,4,5)]
    obtain i where i: "key_index u ?k = Some i" "i < length (ht_buckets u)"
      and or: "search_chain (ht_entries u) ?k (ht_buckets u ! i) = Some None \<and> table_map u (key_class ?k) = None \<or>
       (\<exists>e x. search_chain (ht_entries u) ?k (ht_buckets u ! i) = Some (Some e) \<and> e \<in> set (ht_buckets u ! i) \<and>
         ht_entries u e = Some x \<and> key_class (he_key x) = key_class ?k \<and> table_map u (key_class ?k) = Some (he_value x))"
      by (rule search_ok [OF pre(1) K])
    from or show ?thesis
    proof (elim disjE exE conjE)
      assume new: "search_chain (ht_entries u) ?k (ht_buckets u ! i) = Some None" "table_map u (key_class ?k) = None"
      have n': "ht_n_entries u < 805306367" using pre(3) n by (simp add: same_shape_def)
      obtain b' t' where t': "add_allocated_entry p i ?k u = Some (b', t')" "found_entry ?k u p t'"
        by (rule returnsE [OF add_new_ok [OF pre(1) i new(2) n' pre(6,7)]]) auto
      from store_found [OF found [OF t'(2)], of v] show ?thesis
        using b new(1) i t'(1) Some T Tu by (simp add: defs add_entry_def returns_bind)
    next
      fix e x
      assume e: "search_chain (ht_entries u) ?k (ht_buckets u ! i) = Some (Some e)" "e \<in> set (ht_buckets u ! i)"
        "ht_entries u e = Some x" "key_class (he_key x) = key_class ?k" "table_map u (key_class ?k) = Some (he_value x)"
      obtain u' where u': "mem_pool_release p u = Some u'" "hash_ok u'" "table_map u' = table_map u"
        "same_shape u u'" "same_frame u u'" "logged [] [] u u'" "ht_entries u' = (ht_entries u)(p := None)"
        by (rule returnsE [OF release_ok [OF pre(1,6,7)]]) auto
      have "e \<in> set (chained u)" unfolding chained_def by (rule in_chain_concat [OF i(2) e(2)])
      then have "e \<noteq> p" using pre(6) by blast
      then have "found_entry ?k u' e u'"
        using i e u' by (intro found_present [of u' i e x]) (simp_all add: same_shape_def)
      then have "found_entry ?k u e u'" using u'(3,5,6) by (rule found_entry_trans)
      from store_found [OF found [OF this], of v] show ?thesis
        using b e(1) i u'(1) Some T Tu by (simp add: defs returns_bind)
    qed
  qed
qed

end
