(* ===== verification/HashRun.thy ===== *)
theory HashRun
  imports HashMap
begin

text \<open>
  Walking over a hash table while removing entries, and tables as dictionaries: the contract of a
  map under insertions that may fail, its consequence for sequences of operations, and the tables
  for the three types of keys as instances.
\<close>

section \<open>Walking over a table\<close>

text \<open>The iterator has its table and will yield the entries \<open>es\<close>.\<close>

definition iter_at :: "hash_table \<Rightarrow> hash_iter \<Rightarrow> nat list \<Rightarrow> bool" where
  "iter_at t it es \<longleftrightarrow>
     hi_table it \<and> ht_n_entries t \<le> hi_n_entries_on_init it \<and>
     (case hi_next_entry it of
        None \<Rightarrow> es = concat (drop (hi_next_bucket it) (ht_buckets t))
      | Some e \<Rightarrow> \<exists>i c d. hi_bucket it = Some (ht_array t, i) \<and> hi_next_bucket it = Suc i \<and> i < length (ht_buckets t) \<and>
          ht_buckets t ! i = c @ e # d \<and> es = e # d @ concat (drop (Suc i) (ht_buckets t)))"

lemma iter_at_init: "iter_at t (hash_iter_init t) (chained t)"
  by (simp add: iter_at_def hash_iter_init_def chained_def)

text \<open>It stands on entry \<open>e\<close> of bucket \<open>i\<close>.\<close>

definition iter_on :: "hash_table \<Rightarrow> hash_iter \<Rightarrow> nat \<Rightarrow> nat \<Rightarrow> bool" where
  "iter_on t it i e \<longleftrightarrow> hi_entry it = Some e \<and> hi_bucket it = Some (ht_array t, i) \<and> i < length (ht_buckets t) \<and>
     e \<in> set (ht_buckets t ! i) \<and> hi_next_bucket it = Suc i"

lemma next_bucket_loop_ends:
  "concat cs = [] \<Longrightarrow> hi_next_entry it = None \<Longrightarrow> hi_next_entry (next_bucket_loop a cs it) = None"
  by (induction cs arbitrary: it) simp_all

lemma next_bucket_loop_finds:
  "concat cs \<noteq> [] \<Longrightarrow> \<exists>j e d. j < length cs \<and> cs ! j = e # d \<and> concat cs = e # d @ concat (drop (Suc j) cs) \<and>
     next_bucket_loop a cs it = it\<lparr>hi_bucket := Some (a, hi_next_bucket it + j), hi_next_entry := Some e,
       hi_next_bucket := Suc (hi_next_bucket it + j)\<rparr>"
proof (induction cs arbitrary: it)
  case (Cons c cs)
  show ?case
  proof (cases c)
    case Nil
    let ?it = "it\<lparr>hi_bucket := Some (a, hi_next_bucket it), hi_next_entry := None, hi_next_bucket := hi_next_bucket it + 1\<rparr>"
    obtain j e d where "j < length cs" "cs ! j = e # d" "concat cs = e # d @ concat (drop (Suc j) cs)"
      "next_bucket_loop a cs ?it = ?it\<lparr>hi_bucket := Some (a, hi_next_bucket ?it + j), hi_next_entry := Some e,
        hi_next_bucket := Suc (hi_next_bucket ?it + j)\<rparr>"
      using Cons.IH [of ?it] Cons.prems Nil by auto
    then show ?thesis using Nil by (intro exI [of _ "Suc j"] exI [of _ e] exI [of _ d]) simp
  next
    case (Cons e d)
    then show ?thesis by (intro exI [of _ 0] exI [of _ e] exI [of _ d]) simp
  qed
qed simp

text \<open>The entry after another in its chain.\<close>

lemma entry_next_eq:
  assumes ok: "hash_ok t" and i: "i < length (ht_buckets t)" "ht_buckets t ! i = c @ e # d"
  shows "entry_next t e = Some (case d of [] \<Rightarrow> None | y # _ \<Rightarrow> Some y)"
proof -
  have dc: "distinct (concat (ht_buckets t))" using hash_ok_distinct [OF ok] by (simp only: chained_def)
  have e: "e \<in> set (ht_buckets t ! i)" using i(2) by simp
  have u: "j = i" if "j < length (ht_buckets t)" "e \<in> set (ht_buckets t ! j)" for j
  proof -
    obtain x where x: "ht_entries t e = Some x" "key_index t (he_key x) = Some i"
      using placedD [OF hash_ok_placed [OF ok] i(1) e] by blast
    then show ?thesis using placedD [OF hash_ok_placed [OF ok] that] by simp
  qed
  have f: "List.find (\<lambda>c. e \<in> set c) (ht_buckets t) = Some (ht_buckets t ! i)"
    unfolding find_Some_iff using i(1) e u by (intro exI [of _ i]) (metis less_irrefl less_trans)
  have "distinct (ht_buckets t ! i)"
    using dc i(1) nth_mem unfolding distinct_concat_iff by blast
  then have "e \<notin> set c" using i(2) by simp
  then have "dropWhile (\<lambda>x. x \<noteq> e) (c @ e # d) = e # d" by (induction c) auto
  then show ?thesis using f i(2) by (simp add: entry_next_def split: list.split)
qed

lemma iter_next_step:
  assumes ok: "hash_ok t" and it: "hi_table it" "ht_n_entries t \<le> hi_n_entries_on_init it"
    and b: "hi_bucket it = Some (ht_array t, i)" "hi_next_bucket it = Suc i" "i < length (ht_buckets t)"
    and e: "ht_buckets t ! i = c @ e # d"
  shows "\<exists>it'. it' = it\<lparr>hi_entry := Some e, hi_next_entry := (case d of [] \<Rightarrow> None | y # _ \<Rightarrow> Some y)\<rparr> \<and>
    iter_at t it' (d @ concat (drop (Suc i) (ht_buckets t))) \<and> iter_on t it' i e"
proof -
  let ?it = "it\<lparr>hi_entry := Some e, hi_next_entry := (case d of [] \<Rightarrow> None | y # _ \<Rightarrow> Some y)\<rparr>"
  have "iter_on t ?it i e" using b e by (simp add: iter_on_def)
  moreover have "iter_at t ?it (d @ concat (drop (Suc i) (ht_buckets t)))"
  proof (cases d)
    case Nil
    then show ?thesis using it b by (simp add: iter_at_def)
  next
    case (Cons y ys)
    then have "ht_buckets t ! i = (c @ [e]) @ y # ys" using e by simp
    then show ?thesis using it b Cons by (auto simp: iter_at_def)
  qed
  ultimately show ?thesis by blast
qed

lemma iter_next_ok:
  assumes ok: "hash_ok t" and at: "iter_at t it es"
  shows "returns (hash_iter_next t it) (\<lambda>(b, it'). case es of
      [] \<Rightarrow> \<not> b
    | e # es' \<Rightarrow> b \<and> iter_at t it' es' \<and> (\<exists>i. iter_on t it' i e))"
proof -
  have it: "hi_table it" "ht_n_entries t \<le> hi_n_entries_on_init it" using at by (simp_all add: iter_at_def)
  have go: "hash_iter_next t it = (case hi_next_entry it' of
      None \<Rightarrow> Some (False, it'\<lparr>hi_entry := None, hi_table := False, hi_bucket := None\<rparr>)
    | Some e \<Rightarrow>
        if hi_bucket it' = None then None
        else do { n \<leftarrow> entry_next t e; Some (True, it'\<lparr>hi_entry := Some e, hi_next_entry := n\<rparr>) })"
    if "it' = (if hi_next_entry it = None
               then next_bucket_loop (ht_array t) (drop (hi_next_bucket it) (ht_buckets t)) it else it)" for it'
    using it unfolding that hash_iter_next_def Let_def by simp
  have found: ?thesis
    if n: "hi_next_entry it' = Some e" and same: "hi_table it' = hi_table it" "hi_n_entries_on_init it' = hi_n_entries_on_init it"
      and b: "hi_bucket it' = Some (ht_array t, i)" "hi_next_bucket it' = Suc i" "i < length (ht_buckets t)"
      and e: "ht_buckets t ! i = c @ e # d" "es = e # d @ concat (drop (Suc i) (ht_buckets t))"
      and g: "it' = (if hi_next_entry it = None
               then next_bucket_loop (ht_array t) (drop (hi_next_bucket it) (ht_buckets t)) it else it)"
    for it' i c d e
  proof -
    from it same have it': "hi_table it'" "ht_n_entries t \<le> hi_n_entries_on_init it'" by simp_all
    show ?thesis
      using iter_next_step [OF ok it' b e(1)] go [OF g] n b(1) entry_next_eq [OF ok b(3) e(1)] e(2) by auto
  qed
  show ?thesis
  proof (cases "hi_next_entry it")
    case (Some e)
    with at obtain i c d where "hi_bucket it = Some (ht_array t, i)" "hi_next_bucket it = Suc i"
      "i < length (ht_buckets t)" "ht_buckets t ! i = c @ e # d" "es = e # d @ concat (drop (Suc i) (ht_buckets t))"
      by (auto simp: iter_at_def)
    from found [OF Some refl refl this] Some show ?thesis by simp
  next
    case None
    let ?nb = "hi_next_bucket it"
    have es: "es = concat (drop ?nb (ht_buckets t))" using at None by (simp add: iter_at_def)
    show ?thesis
    proof (cases es)
      case Nil
      then have "hi_next_entry (next_bucket_loop (ht_array t) (drop ?nb (ht_buckets t)) it) = None"
        using next_bucket_loop_ends [of "drop ?nb (ht_buckets t)"] es None by simp
      then show ?thesis using go [OF refl] None Nil by simp
    next
      case (Cons x xs)
      then obtain j e d where j: "j < length (drop ?nb (ht_buckets t))" "drop ?nb (ht_buckets t) ! j = e # d"
        "concat (drop ?nb (ht_buckets t)) = e # d @ concat (drop (Suc j) (drop ?nb (ht_buckets t)))"
        and l: "next_bucket_loop (ht_array t) (drop ?nb (ht_buckets t)) it =
          it\<lparr>hi_bucket := Some (ht_array t, ?nb + j), hi_next_entry := Some e, hi_next_bucket := Suc (?nb + j)\<rparr>"
        using next_bucket_loop_finds [of "drop ?nb (ht_buckets t)" "ht_array t" it] es by (metis list.distinct(1))
      from j have "ht_buckets t ! (?nb + j) = [] @ e # d" "?nb + j < length (ht_buckets t)"
        "es = e # d @ concat (drop (Suc (?nb + j)) (ht_buckets t))"
        by (simp_all add: es add.commute)
      then show ?thesis
        by (intro found [of "next_bucket_loop (ht_array t) (drop ?nb (ht_buckets t)) it" e "?nb + j" "[]" d])
          (simp_all add: None l)
    qed
  qed
qed

lemma iter_entry_on: "hash_ok t \<Longrightarrow> iter_at t it es \<Longrightarrow> iter_on t it i e \<Longrightarrow> iter_entry t it = ht_entries t e"
  by (simp add: iter_entry_def iter_at_def iter_on_def)

text \<open>Removing the entry it stands on leaves the others to come.\<close>

lemma iter_remove_ok:
  assumes ok: "hash_ok t" and at: "iter_at t it es" and on: "iter_on t it i e" and x: "ht_entries t e = Some x"
    and new: "e \<notin> set es"
  shows "returns (hash_iter_remove_entry t it) (\<lambda>(t', it'). iter_at t' it' es \<and> entry_removed i e x t t')"
proof -
  have i: "i < length (ht_buckets t)" "e \<in> set (ht_buckets t ! i)" "hi_bucket it = Some (ht_array t, i)"
    "hi_entry it = Some e" "hi_next_bucket it = Suc i" using on by (simp_all add: iter_on_def)
  obtain t' where t': "remove_entry (ht_array t, i) e t = Some t'" "entry_removed i e x t t'"
    by (rule returnsE [OF remove_entry_eq [OF ok i(1,2) x]])
  have a: "ht_array t' = ht_array t" "ht_n_entries t' = ht_n_entries t - 1"
    "ht_buckets t' = (ht_buckets t)[i := remove1 e (ht_buckets t ! i)]"
    using t'(2) by (simp_all add: entry_removed_def)
  have "iter_at t' (it\<lparr>hi_entry := None\<rparr>) es"
  proof (cases "hi_next_entry it")
    case None
    then show ?thesis using at a i(5) by (simp add: iter_at_def)
  next
    case (Some f)
    with at i(3) obtain c d where f: "ht_buckets t ! i = c @ f # d" "es = f # d @ concat (drop (Suc i) (ht_buckets t))"
      by (auto simp: iter_at_def)
    then have "remove1 e (ht_buckets t ! i) = remove1 e c @ f # d"
      using new i(2) by (simp add: remove1_append)
    then show ?thesis using at a i f Some by (auto simp: iter_at_def)
  qed
  then show ?thesis using t' i at by (simp add: hash_iter_remove_entry_def iter_at_def)
qed

abbreviation entry_of :: "hash_table \<Rightarrow> nat \<Rightarrow> hash_entry" where
  "entry_of t e \<equiv> the (ht_entries t e)"

text \<open>What a walk over the entries \<open>es\<close> that removes those with property \<open>P\<close> does to the table.\<close>

definition swept :: "(hash_entry \<Rightarrow> bool) \<Rightarrow> nat list \<Rightarrow> hash_table \<Rightarrow> hash_table \<Rightarrow> bool" where
  "swept P es t t' \<longleftrightarrow>
     hash_ok t' \<and> same_frame t t' \<and> chained t' = filter (\<lambda>e. e \<in> set es \<longrightarrow> \<not> P (entry_of t e)) (chained t) \<and>
     (\<forall>e \<in> set (chained t'). ht_entries t' e = ht_entries t e) \<and>
     logged (map he_key (filter P (map (entry_of t) es))) (map he_value (filter P (map (entry_of t) es))) t t'"

lemma swept_Nil: "hash_ok t \<Longrightarrow> swept P [] t t"
  by (simp add: swept_def)

lemma swept_keep:
  assumes "\<not> P (entry_of t e)" "swept P es t t'"
  shows "swept P (e # es) t t'"
proof -
  have "filter (\<lambda>f. f \<in> set (e # es) \<longrightarrow> \<not> P (entry_of t f)) (chained t) =
      filter (\<lambda>f. f \<in> set es \<longrightarrow> \<not> P (entry_of t f)) (chained t)"
    using assms(1) by (intro filter_cong) auto
  then show ?thesis using assms by (simp only: swept_def) simp
qed

lemma swept_remove:
  assumes P: "P x" "ht_entries t e = Some x" "e \<notin> set es"
    and r: "entry_removed i e x t u" "chained u = filter (\<lambda>f. f \<noteq> e) (chained t)" and s: "swept P es u t'"
  shows "swept P (e # es) t t'"
proof -
  have E: "ht_entries u f = ht_entries t f" if "f \<noteq> e" for f using r(1) that by (simp add: entry_removed_def)
  have me: "map (entry_of u) es = map (entry_of t) es" using P(3) E by (intro map_cong) metis+
  have "filter (\<lambda>f. f \<in> set es \<longrightarrow> \<not> P (entry_of u f)) (chained u) =
      filter (\<lambda>f. f \<noteq> e \<and> (f \<in> set es \<longrightarrow> \<not> P (entry_of u f))) (chained t)"
    by (simp only: r(2) filter_filter)
  also have "\<dots> = filter (\<lambda>f. f \<in> set (e # es) \<longrightarrow> \<not> P (entry_of t f)) (chained t)"
    using P by (intro filter_cong) (auto simp: E)
  finally have c: "chained t' = filter (\<lambda>f. f \<in> set (e # es) \<longrightarrow> \<not> P (entry_of t f)) (chained t)"
    using s by (simp only: swept_def)
  have fu: "same_frame t u" and lu: "logged [he_key x] [he_value x] t u" using r(1) by (simp_all add: entry_removed_def)
  have "ht_entries t' f = ht_entries t f" if f: "f \<in> set (chained t')" for f
  proof -
    have "f \<noteq> e" using f P(1,2) by (auto simp: c)
    moreover have "ht_entries t' f = ht_entries u f" using s f by (simp add: swept_def)
    ultimately show ?thesis using E by simp
  qed
  moreover have "logged (map he_key (filter P (map (entry_of t) (e # es))))
      (map he_value (filter P (map (entry_of t) (e # es)))) t t'"
    using logged_append [OF lu _ fu] s P(1,2) by (simp add: swept_def me)
  moreover have "same_frame t t'" using same_frame_trans [OF fu] s by (simp add: swept_def)
  moreover have "hash_ok t'" using s by (simp add: swept_def)
  ultimately show ?thesis using c by (simp only: swept_def) simp
qed

lemma sweep_ok:
  assumes "hash_ok t" "iter_at t it es" "distinct es"
  shows "\<exists>t'. hash_sweep P t it = Some (map (entry_of t) es, t') \<and> swept P es t t'"
  using assms
proof (induction es arbitrary: t it)
  case Nil
  obtain it' where "hash_iter_next t it = Some (False, it')"
    by (rule returnsE [OF iter_next_ok [OF Nil.prems(1,2)]]) auto
  then show ?case using Nil by (simp add: hash_sweep.simps swept_Nil)
next
  case (Cons e es)
  note ok = Cons.prems(1)
  obtain it' i where 1: "hash_iter_next t it = Some (True, it')" and at: "iter_at t it' es" and on: "iter_on t it' i e"
    by (rule returnsE [OF iter_next_ok [OF Cons.prems(1,2)]]) auto
  have ib: "i < length (ht_buckets t)" "e \<in> set (ht_buckets t ! i)" using on by (simp_all add: iter_on_def)
  obtain x where x: "ht_entries t e = Some x" using placedD [OF hash_ok_placed [OF ok] ib] by blast
  have en: "e \<notin> set es" "distinct es" using Cons.prems(3) by simp_all
  note step = hash_sweep.simps [of P t it] 1 iter_entry_on [OF ok at on] x
  show ?case
  proof (cases "P x")
    case False
    obtain t' where "hash_sweep P t it' = Some (map (entry_of t) es, t')" "swept P es t t'"
      using Cons.IH [OF ok at en(2)] by blast
    then show ?thesis using False x swept_keep [of P t e es t'] by (simp add: step)
  next
    case True
    obtain u it'' where u: "hash_iter_remove_entry t it' = Some (u, it'')" "iter_at u it'' es" "entry_removed i e x t u"
      by (rule returnsE [OF iter_remove_ok [OF ok at on x en(1)]]) auto
    note r = entry_removed_ok [OF ok ib x u(3)]
    obtain t' where t': "hash_sweep P u it'' = Some (map (entry_of u) es, t')" "swept P es u t'"
      using Cons.IH [OF r(1) u(2) en(2)] by blast
    have "map (entry_of u) es = map (entry_of t) es"
      using en(1) u(3) by (intro map_cong) (auto simp: entry_removed_def)
    then show ?thesis
      using True x t'(1) u(1) swept_remove [OF True x en(1) u(3) r(2) t'(2)] by (simp add: step)
  qed
qed

definition entry_binding :: "hash_entry \<Rightarrow> (string + 64 word) \<times> nat" where
  "entry_binding x = (key_class (he_key x), he_value x)"

lemma entry_pair_binding: "entry_pair (ht_entries t) e = entry_binding (entry_of t e)"
  by (simp add: entry_pair_def entry_binding_def)

lemma hash_sweep_ok:
  assumes ok: "hash_ok t"
  shows "\<exists>xs t'. hash_sweep P t (hash_iter_init t) = Some (xs, t') \<and> hash_ok t' \<and> same_frame t t' \<and>
    distinct (map (key_class \<circ> he_key) xs) \<and> table_map t = map_of (map entry_binding xs) \<and>
    table_map t' = map_of (map entry_binding (filter (\<lambda>x. \<not> P x) xs)) \<and>
    logged (map he_key (filter P xs)) (map he_value (filter P xs)) t t'"
proof -
  obtain t' where s: "hash_sweep P t (hash_iter_init t) = Some (map (entry_of t) (chained t), t')"
    "swept P (chained t) t t'"
    using sweep_ok [OF ok iter_at_init hash_ok_distinct [OF ok]] by blast
  let ?xs = "map (entry_of t) (chained t)"
  have f: "filter (\<lambda>e. e \<in> set (chained t) \<longrightarrow> \<not> P (entry_of t e)) (chained t) =
      filter (\<lambda>e. \<not> P (entry_of t e)) (chained t)" by (intro filter_cong) auto
  have c: "chained t' = filter (\<lambda>e. \<not> P (entry_of t e)) (chained t)"
    using s(2) by (simp only: swept_def f)
  have m: "table_map t = map_of (map entry_binding ?xs)"
    by (simp only: table_map_def map_map comp_def entry_pair_binding [symmetric])
  have "map (entry_pair (ht_entries t')) (chained t') = map (entry_pair (ht_entries t)) (chained t')"
    using s(2) by (intro map_cong) (simp_all add: swept_def entry_pair_def)
  then have m': "table_map t' = map_of (map entry_binding (filter (\<lambda>x. \<not> P x) ?xs))"
    by (simp only: table_map_def filter_map map_map comp_def entry_pair_binding [symmetric] c)
  have "distinct (map (key_class \<circ> he_key) ?xs)"
    using ok by (simp add: hash_ok_def comp_def entry_pair_def)
  then show ?thesis using s m m' by (auto simp: swept_def simp del: logged_Nil)
qed

lemma remove_all_ok:
  assumes "hash_ok t"
  shows "\<exists>xs t'. hash_table_remove_all t = Some t' \<and> hash_ok t' \<and> table_map t' = Map.empty \<and>
    table_map t = map_of (map entry_binding xs) \<and> logged (map he_key xs) (map he_value xs) t t'"
proof -
  obtain xs t' where "hash_sweep (\<lambda>_. True) t (hash_iter_init t) = Some (xs, t')" "hash_ok t'"
    "table_map t = map_of (map entry_binding xs)" "table_map t' = Map.empty" "logged (map he_key xs) (map he_value xs) t t'"
    using hash_sweep_ok [OF assms, of "\<lambda>_. True"] by (auto simp del: logged_Nil)
  then show ?thesis by (auto simp: hash_table_remove_all_def simp del: logged_Nil)
qed

section \<open>Dictionaries\<close>

datatype 'k dict_op = Put 'k nat | Drop 'k | Get 'k
datatype dict_answer = Done bool | Value nat

fun run_dict :: "('k \<Rightarrow> nat \<Rightarrow> 't \<Rightarrow> (bool \<times> 't) option) \<Rightarrow> ('k \<Rightarrow> 't \<Rightarrow> (bool \<times> 't) option) \<Rightarrow> ('k \<Rightarrow> 't \<Rightarrow> nat option) \<Rightarrow>
    'k dict_op list \<Rightarrow> 't \<Rightarrow> (dict_answer list \<times> 't) option" where
  "run_dict put del get [] t = Some ([], t)"
| "run_dict put del get (Put k v # ops) t =
     do { (b, t) \<leftarrow> put k v t; (as, t) \<leftarrow> run_dict put del get ops t; Some (Done b # as, t) }"
| "run_dict put del get (Drop k # ops) t =
     do { (b, t) \<leftarrow> del k t; (as, t) \<leftarrow> run_dict put del get ops t; Some (Done b # as, t) }"
| "run_dict put del get (Get k # ops) t =
     do { v \<leftarrow> get k t; (as, t) \<leftarrow> run_dict put del get ops t; Some (Value v # as, t) }"

text \<open>
  The answers are those of a map, where keys of the same class are the same key and an insertion
  that says so changes nothing; \<open>sure\<close> says that no insertion fails.
\<close>

fun explains :: "('k \<Rightarrow> 'c) \<Rightarrow> bool \<Rightarrow> 'k dict_op list \<Rightarrow> dict_answer list \<Rightarrow> ('c \<rightharpoonup> nat) \<Rightarrow> ('c \<rightharpoonup> nat) \<Rightarrow> bool" where
  "explains cls sure [] [] m m' \<longleftrightarrow> m' = m"
| "explains cls sure (Put k v # ops) (Done b # as) m m' \<longleftrightarrow>
     (sure \<longrightarrow> b) \<and> explains cls sure ops as (if b then m(cls k \<mapsto> v) else m) m'"
| "explains cls sure (Drop k # ops) (Done b # as) m m' \<longleftrightarrow>
     b = (cls k \<in> dom m) \<and> explains cls sure ops as (m(cls k := None)) m'"
| "explains cls sure (Get k # ops) (Value v # as) m m' \<longleftrightarrow>
     v = value_or_null (m (cls k)) \<and> explains cls sure ops as m m'"
| "explains cls sure _ _ m m' \<longleftrightarrow> False"

locale dictionary =
  fixes inv :: "bool \<Rightarrow> 't \<Rightarrow> bool"
    and content :: "'t \<Rightarrow> 'c \<rightharpoonup> nat"
    and cls :: "'k \<Rightarrow> 'c"
    and put :: "'k \<Rightarrow> nat \<Rightarrow> 't \<Rightarrow> (bool \<times> 't) option"
    and del :: "'k \<Rightarrow> 't \<Rightarrow> (bool \<times> 't) option"
    and get :: "'k \<Rightarrow> 't \<Rightarrow> nat option"
    and room :: nat
  assumes finite_content: "inv sure t \<Longrightarrow> finite (dom (content t))"
    and put_law: "inv sure t \<Longrightarrow> card (dom (content t)) < room \<Longrightarrow>
      returns (put k v t) (\<lambda>(b, t'). inv sure t' \<and> (sure \<longrightarrow> b) \<and>
        content t' = (if b then (content t)(cls k \<mapsto> v) else content t))"
    and del_law: "inv sure t \<Longrightarrow>
      returns (del k t) (\<lambda>(b, t'). inv sure t' \<and> b = (cls k \<in> dom (content t)) \<and>
        content t' = (content t)(cls k := None))"
    and get_law: "inv sure t \<Longrightarrow> get k t = Some (value_or_null (content t (cls k)))"
begin

lemma run_explained:
  "inv sure t \<Longrightarrow> card (dom (content t)) + length ops \<le> room \<Longrightarrow>
   returns (run_dict put del get ops t) (\<lambda>(as, t'). inv sure t' \<and> explains cls sure ops as (content t) (content t'))"
proof (induction ops arbitrary: t)
  case (Cons op ops)
  note I = Cons.prems(1) and fin = finite_content [OF Cons.prems(1)]
  show ?case
  proof (cases op)
    case (Put k v)
    from Cons.prems(2) have r: "card (dom (content t)) < room" by simp
    obtain b u where u: "put k v t = Some (b, u)" "inv sure u" "sure \<longrightarrow> b"
      "content u = (if b then (content t)(cls k \<mapsto> v) else content t)"
      by (rule returnsE [OF put_law [OF I r, of k v]]) auto
    have "card (dom (content u)) \<le> Suc (card (dom (content t)))"
      using fin by (simp add: u(4) card_insert_if)
    then have "card (dom (content u)) + length ops \<le> room" using Cons.prems(2) by simp
    then obtain as t' where "run_dict put del get ops u = Some (as, t')" "inv sure t'"
      "explains cls sure ops as (content u) (content t')" by (rule returnsE [OF Cons.IH [OF u(2)]]) auto
    then show ?thesis using u(1,3) Put by (simp flip: u(4))
  next
    case (Drop k)
    obtain b u where u: "del k t = Some (b, u)" "inv sure u" "b = (cls k \<in> dom (content t))"
      "content u = (content t)(cls k := None)"
      by (rule returnsE [OF del_law [OF I, of k]]) auto
    have "card (dom (content u)) \<le> card (dom (content t))"
      using fin by (simp add: u(4) card_Diff1_le)
    then have "card (dom (content u)) + length ops \<le> room" using Cons.prems(2) by simp
    then obtain as t' where "run_dict put del get ops u = Some (as, t')" "inv sure t'"
      "explains cls sure ops as (content u) (content t')" by (rule returnsE [OF Cons.IH [OF u(2)]]) auto
    then show ?thesis using u(1,3) Drop by (simp flip: u(4))
  next
    case (Get k)
    have "card (dom (content t)) + length ops \<le> room" using Cons.prems(2) by simp
    from Cons.IH [OF I this] show ?thesis
      using get_law [OF I] Get by (auto simp: returns_bind elim!: returns_mono)
  qed
qed simp

end

text \<open>
  A table with keys of type \<open>T\<close>, the classes of which are the values of \<open>f\<close>. With \<open>sure\<close>, the
  allocator never fails.
\<close>

definition table_of :: "hash_type \<Rightarrow> ('c \<Rightarrow> string + 64 word) \<Rightarrow> bool \<Rightarrow> hash_table \<Rightarrow> bool" where
  "table_of T f sure t \<longleftrightarrow> hash_ok t \<and> ht_key_type t = T \<and> dom (table_map t) \<subseteq> range f \<and>
     (sure \<longrightarrow> False \<notin> set (ht_mem t))"

lemma card_table_map:
  assumes "hash_ok t"
  shows "ht_n_entries t = int (card (dom (table_map t)))"
proof -
  have "distinct (map (fst \<circ> entry_pair (ht_entries t)) (chained t))" using assms by (simp only: hash_ok_def)
  from distinct_card [OF this] have "card (dom (table_map t)) = length (chained t)"
    by (simp add: table_map_def dom_map_of_conv_image_fst image_image)
  then show ?thesis using assms by (simp add: hash_ok_def)
qed

lemma card_dom_comp:
  assumes "inj f" "dom m \<subseteq> range f"
  shows "card (dom (m \<circ> f)) = card (dom m)" "finite (dom m) \<Longrightarrow> finite (dom (m \<circ> f))"
proof -
  have "c \<in> f ` dom (m \<circ> f)" if c: "c \<in> dom m" for c
  proof -
    obtain k where "c = f k" using c assms(2) by blast
    then show ?thesis using c by auto
  qed
  then have d: "dom m = f ` dom (m \<circ> f)" by auto
  have i: "inj_on f (dom (m \<circ> f))" using assms(1) by (rule inj_on_subset) simp
  show "card (dom (m \<circ> f)) = card (dom m)" unfolding d by (rule card_image [OF i, symmetric])
  show "finite (dom m) \<Longrightarrow> finite (dom (m \<circ> f))" unfolding d by (rule finite_imageD [OF _ i])
qed

lemma upd_comp: "inj f \<Longrightarrow> m(f k := v) \<circ> f = (m \<circ> f)(k := v)"
  by (auto simp: fun_eq_iff inj_def)

lemma table_of_finite: "table_of T f sure t \<Longrightarrow> inj f \<Longrightarrow> finite (dom (table_map t \<circ> f))"
  by (rule card_dom_comp(2)) (simp_all add: table_of_def table_map_def finite_dom_map_of)

lemma table_of_n_entries:
  "table_of T f sure t \<Longrightarrow> inj f \<Longrightarrow> ht_n_entries t = int (card (dom (table_map t \<circ> f)))"
  by (simp add: table_of_def card_dom_comp(1) card_table_map)

lemma table_put:
  assumes t: "table_of T f sure t" and f: "inj f" and key: "key_class key = f k"
    and put: "returns r (\<lambda>(b, t'). if b then inserted key v t t' else not_inserted t t')"
  shows "returns r (\<lambda>(b, t'). table_of T f sure t' \<and> (sure \<longrightarrow> b) \<and>
    table_map t' \<circ> f = (if b then (table_map t \<circ> f)(k \<mapsto> v) else table_map t \<circ> f))"
  using put
proof (rule returns_mono, clarify)
  fix b t' assume a: "if b then inserted key v t t' else not_inserted t t'"
  show "table_of T f sure t' \<and> (sure \<longrightarrow> b) \<and>
    table_map t' \<circ> f = (if b then (table_map t \<circ> f)(k \<mapsto> v) else table_map t \<circ> f)"
  proof (cases b)
    case True
    then have i: "hash_ok t'" "same_frame t t'" "table_map t' = (table_map t)(f k \<mapsto> v)"
      using a key by (simp_all add: inserted_def)
    then show ?thesis using t True upd_comp [OF f]
      by (auto simp: table_of_def same_frame_def)
  next
    case False
    then have n: "False \<in> set (ht_mem t)" "t' = t\<lparr>ht_mem := tl (ht_mem t)\<rparr>" using a by (simp_all add: not_inserted_def)
    then have "\<not> sure" "hash_ok t'" "table_map t' = table_map t" using t by (simp_all add: table_of_def table_map_def)
    then show ?thesis using t n(2) False by (simp add: table_of_def)
  qed
qed

lemma table_del:
  assumes t: "table_of T f sure t" and f: "inj f" and key: "key_class key = f k" "key_ok T key"
  shows "returns (hash_table_remove key t) (\<lambda>(b, t'). table_of T f sure t' \<and> b = (k \<in> dom (table_map t \<circ> f)) \<and>
    table_map t' \<circ> f = (table_map t \<circ> f)(k := None))"
proof -
  have ok: "hash_ok t" and K: "key_ok (ht_key_type t) key" using t key(2) by (simp_all add: table_of_def)
  from remove_ok [OF ok K] show ?thesis
  proof (rule returns_mono, clarify, intro conjI)
    fix b t'
    assume r: "hash_ok t'" "same_frame t t'" "table_map t' = (table_map t)(key_class key := None)"
    show "table_of T f sure t'" using t r by (auto simp: table_of_def same_frame_def)
    show "table_map t' \<circ> f = (table_map t \<circ> f)(k := None)" unfolding r(3) key(1) by (rule upd_comp [OF f])
    show "(key_class key \<in> dom (table_map t)) = (k \<in> dom (table_map t \<circ> f))" by (simp add: key(1) domIff)
  qed
qed

lemma table_get:
  "table_of T f sure t \<Longrightarrow> key_class key = f k \<Longrightarrow> key_ok T key \<Longrightarrow>
   hash_table_lookup key t = Some (value_or_null ((table_map t \<circ> f) k))"
  by (simp add: lookup_ok table_of_def value_or_null_def)

text \<open>The operations for string keys, which are an address with the text there.\<close>

definition string_put :: "nat \<times> string \<Rightarrow> nat \<Rightarrow> hash_table \<Rightarrow> (bool \<times> hash_table) option" where
  "string_put k v t = hash_table_insert_string (fst k) (snd k) v t"

definition string_del :: "nat \<times> string \<Rightarrow> hash_table \<Rightarrow> (bool \<times> hash_table) option" where
  "string_del k t = hash_table_remove_string (fst k) (snd k) t"

definition string_get :: "nat \<times> string \<Rightarrow> hash_table \<Rightarrow> nat option" where
  "string_get k t = hash_table_lookup_string (fst k) (snd k) t"

interpretation strings: dictionary "table_of DBUS_HASH_STRING Inl" "\<lambda>t. table_map t \<circ> Inl" snd
  string_put string_del string_get 805306367
proof
  fix sure t v and k :: "nat \<times> string"
  assume t: "table_of DBUS_HASH_STRING Inl sure t"
  then have T: "ht_key_type t = DBUS_HASH_STRING" and ok: "hash_ok t" by (simp_all add: table_of_def)
  show "finite (dom (table_map t \<circ> Inl))" by (rule table_of_finite [OF t]) simp
  show "returns (string_put k v t) (\<lambda>(b, t'). table_of DBUS_HASH_STRING Inl sure t' \<and> (sure \<longrightarrow> b) \<and>
      table_map t' \<circ> Inl = (if b then (table_map t \<circ> Inl)(snd k \<mapsto> v) else table_map t \<circ> Inl))"
    if r: "card (dom (table_map t \<circ> Inl)) < 805306367"
  proof -
    have "ht_n_entries t < 805306367" using table_of_n_entries [OF t] r by simp
    from table_put [OF t _ _ insert_string_ok [OF ok T this]] show ?thesis by (simp add: string_put_def)
  qed
  show "returns (string_del k t) (\<lambda>(b, t'). table_of DBUS_HASH_STRING Inl sure t' \<and>
      b = (snd k \<in> dom (table_map t \<circ> Inl)) \<and> table_map t' \<circ> Inl = (table_map t \<circ> Inl)(snd k := None))"
    using table_del [OF t, of "StringKey (fst k) (snd k)" "snd k"] T
    by (simp add: string_del_def hash_table_remove_string_def)
  show "string_get k t = Some (value_or_null ((table_map t \<circ> Inl) (snd k)))"
    using table_get [OF t, of "StringKey (fst k) (snd k)" "snd k"] T
    by (simp add: string_get_def hash_table_lookup_string_def)
qed

interpretation pointers: dictionary "table_of DBUS_HASH_UINTPTR Inr" "\<lambda>t. table_map t \<circ> Inr" id
  hash_table_insert_uintptr hash_table_remove_uintptr hash_table_lookup_uintptr 805306367
proof
  fix sure t v and k :: "64 word"
  assume t: "table_of DBUS_HASH_UINTPTR Inr sure t"
  then have T: "ht_key_type t = DBUS_HASH_UINTPTR" and ok: "hash_ok t" by (simp_all add: table_of_def)
  then have T': "ht_key_type t \<noteq> DBUS_HASH_STRING" by simp
  show "finite (dom (table_map t \<circ> Inr))" by (rule table_of_finite [OF t]) simp
  show "returns (hash_table_insert_uintptr k v t) (\<lambda>(b, t'). table_of DBUS_HASH_UINTPTR Inr sure t' \<and> (sure \<longrightarrow> b) \<and>
      table_map t' \<circ> Inr = (if b then (table_map t \<circ> Inr)(id k \<mapsto> v) else table_map t \<circ> Inr))"
    if r: "card (dom (table_map t \<circ> Inr)) < 805306367"
  proof -
    have "ht_n_entries t < 805306367" using table_of_n_entries [OF t] r by simp
    from table_put [OF t _ _ insert_direct_ok [OF ok T' this, of k v], of k] T show ?thesis
      unfolding id_apply by (simp add: hash_table_insert_uintptr_def)
  qed
  show "returns (hash_table_remove_uintptr k t) (\<lambda>(b, t'). table_of DBUS_HASH_UINTPTR Inr sure t' \<and>
      b = (id k \<in> dom (table_map t \<circ> Inr)) \<and> table_map t' \<circ> Inr = (table_map t \<circ> Inr)(id k := None))"
    using table_del [OF t, of "DirectKey k" k] T by (simp add: hash_table_remove_uintptr_def)
  show "hash_table_lookup_uintptr k t = Some (value_or_null ((table_map t \<circ> Inr) (id k)))"
    using table_get [OF t, of "DirectKey k" k] T by (simp add: hash_table_lookup_uintptr_def)
qed

text \<open>Integer keys are sign-extended to pointers, which keeps them apart.\<close>

lemma bit_scast_64: "n < 32 \<Longrightarrow> bit (scast (i :: 32 word) :: 64 word) n = bit i n"
  by (cases "n = 31") (auto simp: bit_simps min_def)

lemma scast_64_eq: "(scast (i :: 32 word) :: 64 word) = scast j \<Longrightarrow> i = j"
proof (rule bit_word_eqI)
  fix n :: nat
  assume eq: "(scast i :: 64 word) = scast j" and n: "n < LENGTH(32)"
  have "bit (scast i :: 64 word) n = bit (scast j :: 64 word) n" by (simp only: eq)
  then show "bit i n = bit j n" using n bit_scast_64 [of n i] bit_scast_64 [of n j] by simp
qed

definition int_key :: "32 word \<Rightarrow> string + 64 word" where
  "int_key i = Inr (scast i)"

lemma inj_int_key: "inj int_key"
  by (rule injI, rule scast_64_eq) (simp add: int_key_def)

interpretation ints: dictionary "table_of DBUS_HASH_INT int_key" "\<lambda>t. table_map t \<circ> int_key" id
  hash_table_insert_int hash_table_remove_int hash_table_lookup_int 805306367
proof
  fix sure t v and k :: "32 word"
  assume t: "table_of DBUS_HASH_INT int_key sure t"
  then have T: "ht_key_type t = DBUS_HASH_INT" and ok: "hash_ok t" by (simp_all add: table_of_def)
  then have T': "ht_key_type t \<noteq> DBUS_HASH_STRING" by simp
  show "finite (dom (table_map t \<circ> int_key))" by (rule table_of_finite [OF t inj_int_key])
  show "returns (hash_table_insert_int k v t) (\<lambda>(b, t'). table_of DBUS_HASH_INT int_key sure t' \<and> (sure \<longrightarrow> b) \<and>
      table_map t' \<circ> int_key = (if b then (table_map t \<circ> int_key)(id k \<mapsto> v) else table_map t \<circ> int_key))"
    if r: "card (dom (table_map t \<circ> int_key)) < 805306367"
  proof -
    have "ht_n_entries t < 805306367" using table_of_n_entries [OF t inj_int_key] r by simp
    from table_put [OF t inj_int_key _ insert_direct_ok [OF ok T' this, of "scast k" v], of k] T show ?thesis
      unfolding id_apply by (simp add: hash_table_insert_int_def int_key_def)
  qed
  show "returns (hash_table_remove_int k t) (\<lambda>(b, t'). table_of DBUS_HASH_INT int_key sure t' \<and>
      b = (id k \<in> dom (table_map t \<circ> int_key)) \<and> table_map t' \<circ> int_key = (table_map t \<circ> int_key)(id k := None))"
    using table_del [OF t inj_int_key, of "DirectKey (scast k)" k] T by (simp add: hash_table_remove_int_def int_key_def)
  show "hash_table_lookup_int k t = Some (value_or_null ((table_map t \<circ> int_key) (id k)))"
    using table_get [OF t, of "DirectKey (scast k)" k] T by (simp add: hash_table_lookup_int_def int_key_def)
qed

section \<open>Results\<close>

lemma hash_table_new_ok:
  assumes "hash_table_new T kf vf m = (Some t, m')"
  shows "hash_ok t" "ht_key_type t = T" "table_map t = Map.empty" "False \<notin> set m \<Longrightarrow> False \<notin> set (ht_mem t)"
proof -
  obtain b1 m1 b2 m2 where m: "alloc m = (b1, m1)" "alloc m1 = (b2, m2)" by (metis surj_pair)
  have "set m2 \<subseteq> set m" using alloc_answers [OF m(1)] alloc_answers [OF m(2)] by blast
  moreover have geo: "geometry 0 u" if "ht_n_buckets u = 4" "ht_mask u = 3" "ht_down_shift u = 28"
      "ht_hi_rebuild_size u = 12" "ht_lo_rebuild_size u = 0" for u using that by (simp add: geometry_def)
  moreover have "replicate 4 ([] :: nat list) = [[], [], [], []]" by (simp add: eval_nat_numeral)
  ultimately show "hash_ok t" "ht_key_type t = T" "table_map t = Map.empty" "False \<notin> set m \<Longrightarrow> False \<notin> set (ht_mem t)"
    using assms m by (auto simp: hash_table_new_def hash_ok_def placed_def table_map_def chained_def less_Suc_eq
        split: if_splits intro!: exI [of _ 0])
qed

text \<open>
  C36. A hash table for strings, from its creation on, answers like a map: up to 805306367
  insertions, removals and lookups neither stop nor fail an assertion, whatever rebuilding they
  cause and whichever allocations fail; an insertion that reports failure changes nothing, and
  with enough memory none does.
\<close>

theorem hash_table_refines_map:
  assumes "hash_table_new DBUS_HASH_STRING kf vf m = (Some t, m')" "length ops \<le> 805306367"
  shows "\<exists>as t'. run_dict string_put string_del string_get ops t = Some (as, t') \<and> hash_ok t' \<and>
    explains snd (False \<notin> set m) ops as Map.empty (table_map t' \<circ> Inl)"
proof -
  have t: "table_of DBUS_HASH_STRING Inl (False \<notin> set m) t"
    using hash_table_new_ok [OF assms(1)] by (simp add: table_of_def)
  have e: "table_map t \<circ> Inl = Map.empty" using hash_table_new_ok(3) [OF assms(1)] by auto
  obtain as t' where "run_dict string_put string_del string_get ops t = Some (as, t')"
    "table_of DBUS_HASH_STRING Inl (False \<notin> set m) t'"
    "explains snd (False \<notin> set m) ops as (table_map t \<circ> Inl) (table_map t' \<circ> Inl)"
    by (rule returnsE [OF strings.run_explained [OF t, of ops]]) (use assms(2) e in auto)
  then show ?thesis unfolding e by (auto simp: table_of_def)
qed

lemma hash_table_refines_map_witness:
  "\<exists>as t'. run_dict string_put string_del string_get
      [Put (1, ''a'') 7, Put (2, ''b'') 8, Get (3, ''a''), Drop (4, ''a''), Get (1, ''a'')]
      (the (fst (hash_table_new DBUS_HASH_STRING True True []))) = Some (as, t') \<and>
    as = [Done True, Done True, Value 7, Done True, Value 0]"
proof -
  let ?t = "the (fst (hash_table_new DBUS_HASH_STRING True True []))"
  have "hash_table_new DBUS_HASH_STRING True True [] = (Some ?t, [])" by (simp add: hash_table_new_def)
  from hash_table_refines_map [OF this, of "[Put (1, ''a'') 7, Put (2, ''b'') 8, Get (3, ''a''), Drop (4, ''a''), Get (1, ''a'')]"]
  obtain as t' where r: "run_dict string_put string_del string_get
      [Put (1, ''a'') 7, Put (2, ''b'') 8, Get (3, ''a''), Drop (4, ''a''), Get (1, ''a'')] ?t = Some (as, t')"
    "explains snd True [Put (1 :: nat, ''a'') 7, Put (2, ''b'') 8, Get (3, ''a''), Drop (4, ''a''), Get (1, ''a'')]
      as Map.empty (table_map t' \<circ> Inl)" by auto
  have "as = [Done True, Done True, Value 7, Done True, Value 0]"
    using r(2) by (auto simp: value_or_null_def elim!: explains.elims)
  then show ?thesis using r(1) by blast
qed

text \<open>
  C37. Walking over a table visits every entry exactly once, also when entries are removed on
  the way: those chosen are gone and handed to the free functions, the others stay. Removing all
  entries leaves the table empty.
\<close>

theorem hash_sweep_visits:
  assumes "hash_ok t"
  shows "(\<exists>xs t'. hash_sweep P t (hash_iter_init t) = Some (xs, t') \<and> hash_ok t' \<and>
      distinct (map (key_class \<circ> he_key) xs) \<and> table_map t = map_of (map entry_binding xs) \<and>
      table_map t' = map_of (map entry_binding (filter (\<lambda>x. \<not> P x) xs)) \<and>
      logged (map he_key (filter P xs)) (map he_value (filter P xs)) t t') \<and>
    (\<exists>t'. hash_table_remove_all t = Some t' \<and> hash_ok t' \<and> table_map t' = Map.empty)"
proof (rule conjI)
  show "\<exists>xs t'. hash_sweep P t (hash_iter_init t) = Some (xs, t') \<and> hash_ok t' \<and>
      distinct (map (key_class \<circ> he_key) xs) \<and> table_map t = map_of (map entry_binding xs) \<and>
      table_map t' = map_of (map entry_binding (filter (\<lambda>x. \<not> P x) xs)) \<and>
      logged (map he_key (filter P xs)) (map he_value (filter P xs)) t t'"
    using hash_sweep_ok [OF assms, of P] by blast
  show "\<exists>t'. hash_table_remove_all t = Some t' \<and> hash_ok t' \<and> table_map t' = Map.empty"
    using remove_all_ok [OF assms] by blast
qed

lemma hash_sweep_visits_witness:
  "\<exists>t xs t'. hash_ok t \<and> table_map t = [Inr 5 \<mapsto> 7] \<and>
    hash_sweep (\<lambda>x. he_value x = 7) t (hash_iter_init t) = Some (xs, t') \<and> table_map t = map_of (map entry_binding xs)"
proof -
  obtain t where t: "hash_table_new DBUS_HASH_UINTPTR True True [] = (Some t, [])" by (simp add: hash_table_new_def)
  note new = hash_table_new_ok [OF t]
  have n: "ht_n_entries t < 805306367" and T: "ht_key_type t \<noteq> DBUS_HASH_STRING" and m: "ht_mem t = []"
    using t by (auto simp: hash_table_new_def)
  obtain u where "inserted (DirectKey 5) 7 t u"
    by (rule returnsE [OF insert_direct_ok [OF new(1) T n, of 5 7]]) (auto simp: not_inserted_def m split: if_splits)
  then have u: "hash_ok u" "table_map u = [Inr 5 \<mapsto> 7]" using new(3) by (simp_all add: inserted_def)
  from hash_sweep_visits [OF u(1), of "\<lambda>x. he_value x = 7"] u show ?thesis by blast
qed

section \<open>Limits\<close>

text \<open>
  The check against overflow in \<^verbatim>\<open>rebuild_table\<close> looks at the number of buckets; the bound for the
  next enlargement overflows one enlargement earlier.
\<close>

lemma rebuild_overflow:
  assumes "geometry 13 t" "ht_n_entries t = ht_hi_rebuild_size t" "ht_mem t = []"
  shows "ht_n_buckets t < INT_MAX div 4 \<and> ht_down_shift t \<ge> 0 \<and> rebuild_table t = None"
  using assms by (simp add: geometry_def rebuild_table_def hash_alloc_def resize_fields_def int32_def Let_def)

text \<open>
  When the entry it adds makes the table grow, \<^verbatim>\<open>_dbus_hash_iter_lookup\<close> computes the number of its
  bucket from a pointer into the old bucket array.
\<close>

fun put_all :: "nat \<Rightarrow> hash_table \<Rightarrow> hash_table option" where
  "put_all 0 t = Some t"
| "put_all (Suc n) t =
     do { (b, t) \<leftarrow> hash_table_insert_uintptr (of_nat n) (Suc n) t; put_all n t }"

lemma iter_lookup_stale_bucket:
  "do { t \<leftarrow> fst (hash_table_new DBUS_HASH_UINTPTR False False []);
        t \<leftarrow> put_all 11 t;
        Some (hash_iter_lookup (DirectKey 11) True t = None, hash_iter_lookup (DirectKey 10) True t = None) } =
   Some (True, False)"
  by code_simp

end
