(* ===== verification/Credentials.thy ===== *)
theory Credentials
  imports StringOps
begin

text \<open>
  The credentials of a process, \<^verbatim>\<open>dbus/dbus-credentials.c\<close>: a process, a user, a Windows security
  identifier, a security label and audit data, each of which may be missing. Copying a string may
  run out of memory and consumes one answer of the allocator; the results are whether memory
  lasted, the object and the answers left. The reference count is not modelled.
\<close>

record credentials =
  cr_pid :: "64 word"
  cr_unix_uid :: "64 word"
  cr_windows_sid :: "bytes option"
  cr_linux_security_label :: "bytes option"
  cr_adt_audit_data :: "bytes option"

abbreviation DBUS_PID_UNSET :: "64 word" where "DBUS_PID_UNSET \<equiv> - 1"
abbreviation DBUS_UID_UNSET :: "64 word" where "DBUS_UID_UNSET \<equiv> - 1"

datatype credential_type =
  UNIX_PROCESS_ID | UNIX_USER_ID | ADT_AUDIT_DATA_ID | LINUX_SECURITY_LABEL | WINDOWS_SID

definition credentials_empty :: credentials where
  "credentials_empty = \<lparr>cr_pid = DBUS_PID_UNSET, cr_unix_uid = DBUS_UID_UNSET, cr_windows_sid = None,
     cr_linux_security_label = None, cr_adt_audit_data = None\<rparr>"

definition credentials_new :: "mem \<Rightarrow> credentials option \<times> mem" where
  "credentials_new m = (let (ok, m) = alloc m in (if ok then Some credentials_empty else None, m))"

definition credentials_clear :: "credentials \<Rightarrow> credentials" where
  "credentials_clear c = c\<lparr>cr_pid := DBUS_PID_UNSET, cr_unix_uid := DBUS_UID_UNSET, cr_windows_sid := None,
     cr_linux_security_label := None, cr_adt_audit_data := None\<rparr>"

definition credentials_add_pid :: "credentials \<Rightarrow> 64 word \<Rightarrow> mem \<Rightarrow> bool \<times> credentials \<times> mem" where
  "credentials_add_pid c pid m = (True, c\<lparr>cr_pid := pid\<rparr>, m)"

definition credentials_add_unix_uid :: "credentials \<Rightarrow> 64 word \<Rightarrow> mem \<Rightarrow> bool \<times> credentials \<times> mem" where
  "credentials_add_unix_uid c uid m = (True, c\<lparr>cr_unix_uid := uid\<rparr>, m)"

definition credentials_add_windows_sid :: "credentials \<Rightarrow> bytes \<Rightarrow> mem \<Rightarrow> bool \<times> credentials \<times> mem" where
  "credentials_add_windows_sid c sid m =
     (let (ok, m) = alloc m in (ok, if ok then c\<lparr>cr_windows_sid := Some sid\<rparr> else c, m))"

definition credentials_add_linux_security_label :: "credentials \<Rightarrow> bytes \<Rightarrow> mem \<Rightarrow> bool \<times> credentials \<times> mem" where
  "credentials_add_linux_security_label c label m =
     (let (ok, m) = alloc m in (ok, if ok then c\<lparr>cr_linux_security_label := Some label\<rparr> else c, m))"

definition credentials_add_adt_audit_data :: "credentials \<Rightarrow> bytes \<Rightarrow> mem \<Rightarrow> bool \<times> credentials \<times> mem" where
  "credentials_add_adt_audit_data c audit_data m =
     (let (ok, m) = alloc m in (ok, if ok then c\<lparr>cr_adt_audit_data := Some audit_data\<rparr> else c, m))"

fun credentials_include :: "credentials \<Rightarrow> credential_type \<Rightarrow> bool" where
  "credentials_include c UNIX_PROCESS_ID \<longleftrightarrow> cr_pid c \<noteq> DBUS_PID_UNSET"
| "credentials_include c UNIX_USER_ID \<longleftrightarrow> cr_unix_uid c \<noteq> DBUS_UID_UNSET"
| "credentials_include c WINDOWS_SID \<longleftrightarrow> cr_windows_sid c \<noteq> None"
| "credentials_include c LINUX_SECURITY_LABEL \<longleftrightarrow> cr_linux_security_label c \<noteq> None"
| "credentials_include c ADT_AUDIT_DATA_ID \<longleftrightarrow> cr_adt_audit_data c \<noteq> None"

fun credentials_add_credential ::
    "credentials \<Rightarrow> credential_type \<Rightarrow> credentials \<Rightarrow> mem \<Rightarrow> bool \<times> credentials \<times> mem" where
  "credentials_add_credential c UNIX_PROCESS_ID other m =
     (if cr_pid other \<noteq> DBUS_PID_UNSET then credentials_add_pid c (cr_pid other) m else (True, c, m))"
| "credentials_add_credential c UNIX_USER_ID other m =
     (if cr_unix_uid other \<noteq> DBUS_UID_UNSET then credentials_add_unix_uid c (cr_unix_uid other) m else (True, c, m))"
| "credentials_add_credential c WINDOWS_SID other m =
     (case cr_windows_sid other of Some sid \<Rightarrow> credentials_add_windows_sid c sid m | None \<Rightarrow> (True, c, m))"
| "credentials_add_credential c LINUX_SECURITY_LABEL other m =
     (case cr_linux_security_label other of
        Some label \<Rightarrow> credentials_add_linux_security_label c label m | None \<Rightarrow> (True, c, m))"
| "credentials_add_credential c ADT_AUDIT_DATA_ID other m =
     (case cr_adt_audit_data other of
        Some audit_data \<Rightarrow> credentials_add_adt_audit_data c audit_data m | None \<Rightarrow> (True, c, m))"

text \<open>The conjunction of the calls stops at the first that fails.\<close>

fun add_credential_list ::
    "credential_type list \<Rightarrow> credentials \<Rightarrow> credentials \<Rightarrow> mem \<Rightarrow> bool \<times> credentials \<times> mem" where
  "add_credential_list [] c other m = (True, c, m)"
| "add_credential_list (k # ks) c other m =
     (let (ok, c, m) = credentials_add_credential c k other m in
      if ok then add_credential_list ks c other m else (False, c, m))"

definition credentials_add_credentials :: "credentials \<Rightarrow> credentials \<Rightarrow> mem \<Rightarrow> bool \<times> credentials \<times> mem" where
  "credentials_add_credentials c other m =
     add_credential_list [UNIX_PROCESS_ID, UNIX_USER_ID, ADT_AUDIT_DATA_ID, LINUX_SECURITY_LABEL, WINDOWS_SID] c other m"

definition credentials_copy :: "credentials \<Rightarrow> mem \<Rightarrow> credentials option \<times> mem" where
  "credentials_copy c m =
     (case credentials_new m of
        (None, m) \<Rightarrow> (None, m)
      | (Some copy, m) \<Rightarrow>
          (let (ok, copy, m) = credentials_add_credentials copy c m in (if ok then Some copy else None, m)))"

definition credentials_are_empty :: "credentials \<Rightarrow> bool" where
  "credentials_are_empty c \<longleftrightarrow> cr_pid c = DBUS_PID_UNSET \<and> cr_unix_uid c = DBUS_UID_UNSET \<and>
     cr_windows_sid c = None \<and> cr_linux_security_label c = None \<and> cr_adt_audit_data c = None"

definition credentials_are_anonymous :: "credentials \<Rightarrow> bool" where
  "credentials_are_anonymous c \<longleftrightarrow> cr_unix_uid c = DBUS_UID_UNSET \<and> cr_windows_sid c = None"

definition credentials_same_user :: "credentials \<Rightarrow> credentials \<Rightarrow> bool" where
  "credentials_same_user c other \<longleftrightarrow> cr_unix_uid c = cr_unix_uid other \<and> cr_windows_sid c = cr_windows_sid other"

text \<open>
  The audit data are compared over the size of those of \<open>c\<close>, whatever the size of the others, which
  may read past their end.
\<close>

definition credentials_are_superset :: "credentials \<Rightarrow> credentials \<Rightarrow> bool option" where
  "credentials_are_superset c other =
     (if (cr_pid other = DBUS_PID_UNSET \<or> cr_pid other = cr_pid c) \<and>
         (cr_unix_uid other = DBUS_UID_UNSET \<or> cr_unix_uid other = cr_unix_uid c) \<and>
         (cr_windows_sid other = None \<or> cr_windows_sid other = cr_windows_sid c) \<and>
         (cr_linux_security_label other = None \<or> cr_linux_security_label other = cr_linux_security_label c)
      then
        (case (cr_adt_audit_data other, cr_adt_audit_data c) of
           (None, _) \<Rightarrow> Some True
         | (Some _, None) \<Rightarrow> Some False
         | (Some data, Some own) \<Rightarrow>
             if length own \<le> length data then Some (take (length own) data = own) else None)
      else Some False)"

section \<open>What merging adds\<close>

text \<open>Every field of the first is one of \<open>c\<close> or of \<open>other\<close>.\<close>

definition drawn_from :: "credentials \<Rightarrow> credentials \<Rightarrow> credentials \<Rightarrow> bool" where
  "drawn_from c other c' \<longleftrightarrow>
     (cr_unix_uid c' = cr_unix_uid c \<or> cr_unix_uid c' = cr_unix_uid other) \<and>
     (cr_windows_sid c' = cr_windows_sid c \<or> cr_windows_sid c' = cr_windows_sid other)"

lemma drawn_from_refl [simp]: "drawn_from c other c"
  by (simp add: drawn_from_def)

lemma drawn_from_trans: "drawn_from c other d \<Longrightarrow> drawn_from d other e \<Longrightarrow> drawn_from c other e"
  by (auto simp: drawn_from_def)

lemmas credentials_add_defs = credentials_add_pid_def credentials_add_unix_uid_def
  credentials_add_windows_sid_def credentials_add_linux_security_label_def credentials_add_adt_audit_data_def

lemma add_credential_drawn: "credentials_add_credential c k other m = (ok, c', m') \<Longrightarrow> drawn_from c other c'"
  by (cases k) (auto simp: credentials_add_defs drawn_from_def split: if_splits option.splits prod.splits)

lemma add_credential_list_drawn: "add_credential_list ks c other m = (ok, c', m') \<Longrightarrow> drawn_from c other c'"
proof (induction ks arbitrary: c m)
  case (Cons k ks)
  obtain ok1 c1 m1 where 1: "credentials_add_credential c k other m = (ok1, c1, m1)" by (metis prod_cases3)
  note d = add_credential_drawn [OF 1]
  show ?case
  proof (cases ok1)
    case True
    then show ?thesis using Cons.IH [of c1 m1] Cons.prems 1 drawn_from_trans [OF d] by simp
  next
    case False
    then show ?thesis using Cons.prems 1 d by simp
  qed
qed simp

text \<open>A user that was added is there.\<close>

lemma add_credential_user:
  "credentials_add_credential c k other m = (True, c', m') \<Longrightarrow> k = UNIX_USER_ID \<Longrightarrow>
   cr_unix_uid other \<noteq> DBUS_UID_UNSET \<Longrightarrow> cr_unix_uid c' = cr_unix_uid other"
  "credentials_add_credential c k other m = (True, c', m') \<Longrightarrow> k = WINDOWS_SID \<Longrightarrow>
   cr_windows_sid other \<noteq> None \<Longrightarrow> cr_windows_sid c' = cr_windows_sid other"
  by (auto simp: credentials_add_defs split: option.splits prod.splits if_splits)

end
