(* ===== verification/Keyring.thy ===== *)
theory Keyring
  imports Credentials Utf8
begin

text \<open>
  The cookies of \<^verbatim>\<open>dbus/dbus-keyring.c\<close> as the authentication uses them: a keyring in memory with
  its keys and the user it belongs to, the lookup of a key, the check of a cookie context, and the
  numbers in the exchanged text (\<^verbatim>\<open>dbus/dbus-sysdeps.c\<close>). Reading and writing the cookie file are
  not modelled: loading a keyring and choosing its best key are parameters of the authentication.
\<close>

section \<open>Keys\<close>

record keyring_key =
  ky_id :: int
  ky_creation_time :: int
  ky_secret :: bytes

record keyring =
  kr_keys :: "keyring_key list"
  kr_credentials :: credentials

text \<open>The loop of \<^verbatim>\<open>find_key_by_id\<close> over the array of keys.\<close>

fun find_key_by_id :: "keyring_key list \<Rightarrow> int \<Rightarrow> keyring_key option" where
  "find_key_by_id [] i = None"
| "find_key_by_id (k # ks) i = (if ky_id k = i then Some k else find_key_by_id ks i)"

definition keyring_is_for_credentials :: "keyring \<Rightarrow> credentials \<Rightarrow> bool" where
  "keyring_is_for_credentials r c \<longleftrightarrow> credentials_same_user (kr_credentials r) c"

text \<open>The key in hexadecimal, empty when there is no such key; \<open>None\<close> when memory runs out.\<close>

definition keyring_get_hex_key :: "keyring \<Rightarrow> int \<Rightarrow> mem \<Rightarrow> bytes option \<times> mem" where
  "keyring_get_hex_key r i m =
     (case find_key_by_id (kr_keys r) i of
        None \<Rightarrow> (Some [], m)
      | Some k \<Rightarrow> (let (ok, m) = alloc m in (if ok then Some (hex_of (ky_secret k)) else None, m)))"

text \<open>A context names a file: no separators of directories or of the protocol, and no dot.\<close>

definition contains_c_str :: "bytes \<Rightarrow> bytes \<Rightarrow> bool" where
  "contains_c_str s sub = (case string_find s 0 sub of Some (found, _) \<Rightarrow> found | None \<Rightarrow> False)"

definition keyring_validate_context :: "bytes \<Rightarrow> bool" where
  "keyring_validate_context context =
     (if context = [] then False
      else if \<not> validate_ascii context 0 (length context) then False
      else if contains_c_str context (bytes ''/'') then False
      else if contains_c_str context [92] then False
      else if contains_c_str context (bytes ''.'') then False
      else if fst (find_blank_loop context) then False
      else if contains_c_str context [LF] then False
      else if contains_c_str context [CR] then False
      else True)"

section \<open>Numbers\<close>

text \<open>The decimal digits that \<^verbatim>\<open>snprintf\<close> writes for \<open>%lu\<close> and \<open>%ld\<close>.\<close>

fun decimal :: "nat \<Rightarrow> bytes" where
  "decimal n = (if n < 10 then [of_nat (48 + n)] else decimal (n div 10) @ [of_nat (48 + n mod 10)])"

declare decimal.simps [simp del]

definition decimal_int :: "int \<Rightarrow> bytes" where
  "decimal_int i = (if i < 0 then 45 # decimal (nat (- i)) else decimal (nat i))"

text \<open>
  \<^verbatim>\<open>strtol\<close> with base 0, as \<^verbatim>\<open>_dbus_string_parse_int\<close> calls it: white space, a sign, a prefix that
  selects the base, digits. There is no value when there are no digits or when it does not fit in a
  \<^verbatim>\<open>long\<close> of 64 bits.
\<close>

definition digit_value :: "byte \<Rightarrow> nat" where
  "digit_value c =
     (if 48 \<le> c \<and> c \<le> 57 then unat c - 48
      else if 97 \<le> c \<and> c \<le> 122 then unat c - 87
      else if 65 \<le> c \<and> c \<le> 90 then unat c - 55 else 36)"

fun digits_value :: "nat \<Rightarrow> nat \<Rightarrow> bytes \<Rightarrow> nat" where
  "digits_value base v [] = v"
| "digits_value base v (c # cs) =
     (if digit_value c < base then digits_value base (v * base + digit_value c) cs else v)"

fun unsigned_value :: "bytes \<Rightarrow> nat option" where
  "unsigned_value [] = None"
| "unsigned_value [c] = (if digit_value c < 10 then Some (digit_value c) else None)"
| "unsigned_value (c # d # cs) =
     (if c = 48 \<and> (d = 120 \<or> d = 88) \<and> (case cs of e # _ \<Rightarrow> digit_value e < 16 | [] \<Rightarrow> False)
      then Some (digits_value 16 0 cs)
      else if c = 48 then Some (digits_value 8 0 (d # cs))
      else if digit_value c < 10 then Some (digits_value 10 0 (c # d # cs)) else None)"

definition string_parse_int :: "bytes \<Rightarrow> int option" where
  "string_parse_int s =
     (let rest = dropWhile (\<lambda>c. c = 32 \<or> (9 \<le> c \<and> c \<le> 13)) s;
          negative = (rest \<noteq> [] \<and> hd rest = 45);
          rest = (if rest \<noteq> [] \<and> (hd rest = 45 \<or> hd rest = 43) then tl rest else rest)
      in case unsigned_value rest of
           None \<Rightarrow> None
         | Some v \<Rightarrow>
             (let i = (if negative then - int v else int v) in
              if - (2 ^ 63) \<le> i \<and> i < 2 ^ 63 then Some i else None))"

section \<open>Decoding\<close>

text \<open>
  The bytes \<^verbatim>\<open>_dbus_string_hex_decode\<close> reads from a string and how many digits it used; a last
  digit without a partner gives the high half of a byte.
\<close>

fun unhex :: "bytes \<Rightarrow> bytes \<times> nat" where
  "unhex [] = ([], 0)"
| "unhex [c] = (case hex_value c of None \<Rightarrow> ([], 0) | Some v \<Rightarrow> ([push_bit 4 v], 1))"
| "unhex (c # d # cs) =
     (case hex_value c of
        None \<Rightarrow> ([], 0)
      | Some v \<Rightarrow>
          (case hex_value d of
             None \<Rightarrow> ([push_bit 4 v], 1)
           | Some w \<Rightarrow> (let (bs, n) = unhex cs in ((push_bit 4 v OR w) # bs, n + 2))))"

lemma unhex_hex_of: "unhex (hex_of bs) = (bs, 2 * length bs)"
  by (induction bs) (simp_all add: hex_of_byte_def hex_values nibbles)

lemma unhex_digits: "list_all (\<lambda>c. hex_value c \<noteq> None) cs \<Longrightarrow> snd (unhex cs) = length cs"
  by (induction cs rule: unhex.induct) (auto split: option.splits prod.splits)

lemma snd_unhex_le: "snd (unhex cs) \<le> length cs"
  by (induction cs rule: unhex.induct) (auto split: option.splits prod.splits)

text \<open>A number of \<open>k\<close> digits.\<close>

lemma decimal_digits: "list_all (\<lambda>c. 48 \<le> c \<and> c \<le> 57) (decimal n)"
proof (induction n rule: decimal.induct)
  case (1 n)
  have digit: "48 \<le> (of_nat (48 + k) :: byte) \<and> (of_nat (48 + k) :: byte) \<le> 57" if "k < 10" for k
  proof -
    have "unat (of_nat (48 + k) :: byte) = 48 + k"
      using that by (simp only: unsigned_of_nat) (simp add: take_bit_nat_eq_self)
    with that show ?thesis unfolding word_le_nat_alt by simp
  qed
  show ?case
  proof (cases "n < 10")
    case True
    then show ?thesis using digit [of n] by (simp add: decimal.simps [of n])
  next
    case False
    then show ?thesis using 1 digit [of "n mod 10"] by (simp add: decimal.simps [of n])
  qed
qed

lemma decimal_nonempty [simp]: "decimal n \<noteq> []"
  by (subst decimal.simps) simp

lemma length_decimal: "n < 10 ^ Suc k \<Longrightarrow> length (decimal n) \<le> Suc k"
proof (induction k arbitrary: n)
  case 0
  then show ?case by (subst decimal.simps) simp
next
  case (Suc k)
  then have "n div 10 < 10 ^ Suc k" by (simp add: less_mult_imp_div_less)
  with Suc.IH have "length (decimal (n div 10)) \<le> Suc k" by blast
  then show ?case by (subst decimal.simps) simp
qed

end
