(* ===== verification/Sha.thy ===== *)
theory Sha
  imports Octets StringOps
begin

text \<open>
  SHA-1 as \<^verbatim>\<open>dbus/dbus-sha.c\<close> computes it for the cookie authentication: a context that is fed any
  number of buffers, the transformation with its circular buffer of 16 words and its renamed
  variables, and the final padding. The buffer of the context is the 64 bytes of memory, its words
  are read in the byte order of the \<open>host\<close>. The result is shown to be the digest that FIPS 180
  defines for the concatenated buffers, on hosts of either byte order.
\<close>

section \<open>The code\<close>

definition SHA_DATASIZE :: nat where "SHA_DATASIZE = 64"

definition f1 :: "32 word \<Rightarrow> 32 word \<Rightarrow> 32 word \<Rightarrow> 32 word" where "f1 x y z = z XOR (x AND (y XOR z))"
definition f2 :: "32 word \<Rightarrow> 32 word \<Rightarrow> 32 word \<Rightarrow> 32 word" where "f2 x y z = x XOR y XOR z"
definition f3 :: "32 word \<Rightarrow> 32 word \<Rightarrow> 32 word \<Rightarrow> 32 word" where "f3 x y z = (x AND y) OR (z AND (x OR y))"
definition f4 :: "32 word \<Rightarrow> 32 word \<Rightarrow> 32 word \<Rightarrow> 32 word" where "f4 x y z = x XOR y XOR z"

definition K1 :: "32 word" where "K1 = 0x5A827999"
definition K2 :: "32 word" where "K2 = 0x6ED9EBA1"
definition K3 :: "32 word" where "K3 = 0x8F1BBCDC"
definition K4 :: "32 word" where "K4 = 0xCA62C1D6"

definition ROTL :: "nat \<Rightarrow> 32 word \<Rightarrow> 32 word" where
  "ROTL n X = push_bit n X OR drop_bit (32 - n) X"

text \<open>The macro assigns and has the new value as its result.\<close>

definition expand :: "32 word list \<Rightarrow> nat \<Rightarrow> 32 word \<times> 32 word list" where
  "expand W i =
     (let w = ROTL 1 (W ! (i mod 16) XOR W ! ((i - 14) mod 16) XOR W ! ((i - 8) mod 16) XOR W ! ((i - 3) mod 16))
      in (w, W[i mod 16 := w]))"

text \<open>The new values of the variables in the places of \<open>e\<close> and \<open>b\<close>.\<close>

definition subRound ::
    "32 word \<Rightarrow> 32 word \<Rightarrow> 32 word \<Rightarrow> 32 word \<Rightarrow> 32 word \<Rightarrow> (32 word \<Rightarrow> 32 word \<Rightarrow> 32 word \<Rightarrow> 32 word) \<Rightarrow>
     32 word \<Rightarrow> 32 word \<Rightarrow> 32 word \<times> 32 word" where
  "subRound a b c d e f k data = (e + (ROTL 5 a + f b c d + k + data), ROTL 30 b)"

text \<open>The data of sub-round \<open>i\<close>: a word of the block in the first sixteen, an expanded word after.\<close>

definition round_data :: "nat \<Rightarrow> 32 word list \<Rightarrow> 32 word \<times> 32 word list" where
  "round_data i W = (if i < 16 then (W ! i, W) else expand W i)"

type_synonym sha_vars = "32 word \<times> 32 word \<times> 32 word \<times> 32 word \<times> 32 word \<times> 32 word list"

text \<open>Five lines of the unrolled rounds, after which the variables are back in their places.\<close>

definition five_rounds :: "(32 word \<Rightarrow> 32 word \<Rightarrow> 32 word \<Rightarrow> 32 word) \<Rightarrow> 32 word \<Rightarrow> nat \<Rightarrow> sha_vars \<Rightarrow> sha_vars" where
  "five_rounds f k i = (\<lambda>(A, B, C, D, E, W).
     (let (w, W) = round_data i W; (E, B) = subRound A B C D E f k w;
          (w, W) = round_data (i + 1) W; (D, A) = subRound E A B C D f k w;
          (w, W) = round_data (i + 2) W; (C, E) = subRound D E A B C f k w;
          (w, W) = round_data (i + 3) W; (B, D) = subRound C D E A B f k w;
          (w, W) = round_data (i + 4) W; (A, C) = subRound B C D E A f k w
      in (A, B, C, D, E, W)))"

definition twenty_rounds :: "(32 word \<Rightarrow> 32 word \<Rightarrow> 32 word \<Rightarrow> 32 word) \<Rightarrow> 32 word \<Rightarrow> nat \<Rightarrow> sha_vars \<Rightarrow> sha_vars" where
  "twenty_rounds f k i v =
     five_rounds f k (i + 15) (five_rounds f k (i + 10) (five_rounds f k (i + 5) (five_rounds f k i v)))"

definition SHATransform :: "32 word list \<Rightarrow> 32 word list \<Rightarrow> 32 word list" where
  "SHATransform digest data =
     (let v = (digest ! 0, digest ! 1, digest ! 2, digest ! 3, digest ! 4, data);
          v = twenty_rounds f1 K1 0 v; v = twenty_rounds f2 K2 20 v;
          v = twenty_rounds f3 K3 40 v; v = twenty_rounds f4 K4 60 v
      in case v of (A, B, C, D, E, W) \<Rightarrow>
           [digest ! 0 + A, digest ! 1 + B, digest ! 2 + C, digest ! 3 + D, digest ! 4 + E])"

text \<open>On a big endian machine \<^verbatim>\<open>swap_words\<close> is empty.\<close>

definition swap_word :: "byte_order \<Rightarrow> bytes \<Rightarrow> bytes" where
  "swap_word host bs = (if host = BIG_ENDIAN then bs else store host (UINT32_SWAP_LE_BE (load host bs)))"

fun swap_words :: "byte_order \<Rightarrow> bytes \<Rightarrow> nat \<Rightarrow> bytes" where
  "swap_words host buffer 0 = buffer"
| "swap_words host buffer (Suc n) = swap_word host (take 4 buffer) @ swap_words host (drop 4 buffer) n"

fun mem_words :: "byte_order \<Rightarrow> bytes \<Rightarrow> nat \<Rightarrow> 32 word list" where
  "mem_words host buffer 0 = []"
| "mem_words host buffer (Suc n) = load host (take 4 buffer) # mem_words host (drop 4 buffer) n"

record sha_context =
  sh_digest :: "32 word list"
  sh_count_lo :: "32 word"
  sh_count_hi :: "32 word"
  sh_data :: bytes

definition sha_init :: "bytes \<Rightarrow> sha_context" where
  "sha_init uninitialized =
     \<lparr>sh_digest = [0x67452301, 0xEFCDAB89, 0x98BADCFE, 0x10325476, 0xC3D2E1F0],
      sh_count_lo = 0, sh_count_hi = 0, sh_data = uninitialized\<rparr>"

definition put_data :: "nat \<Rightarrow> bytes \<Rightarrow> sha_context \<Rightarrow> sha_context" where
  "put_data at bs context =
     context\<lparr>sh_data := take at (sh_data context) @ bs @ drop (at + length bs) (sh_data context)\<rparr>"

text \<open>Swapping the first \<open>n\<close> words of the buffer and transforming.\<close>

definition swap_transform :: "byte_order \<Rightarrow> nat \<Rightarrow> sha_context \<Rightarrow> sha_context" where
  "swap_transform host n context =
     (let data = swap_words host (sh_data context) n in
      context\<lparr>sh_data := data, sh_digest := SHATransform (sh_digest context) (mem_words host data 16)\<rparr>)"

function sha_chunks :: "byte_order \<Rightarrow> sha_context \<Rightarrow> bytes \<Rightarrow> sha_context" where
  "sha_chunks host context buffer =
     (if length buffer \<ge> SHA_DATASIZE
      then sha_chunks host (swap_transform host 16 (put_data 0 (take SHA_DATASIZE buffer) context)) (drop SHA_DATASIZE buffer)
      else put_data 0 buffer context)"
  by pat_completeness auto
termination by (relation "measure (\<lambda>(_, _, buffer). length buffer)") (auto simp: SHA_DATASIZE_def)

declare sha_chunks.simps [simp del]

definition sha_append :: "byte_order \<Rightarrow> sha_context \<Rightarrow> bytes \<Rightarrow> sha_context" where
  "sha_append host context buffer =
     (let count = (of_nat (length buffer) :: 32 word);
          tmp = sh_count_lo context;
          context = context\<lparr>sh_count_lo := tmp + push_bit 3 count\<rparr>;
          context = (if sh_count_lo context < tmp then context\<lparr>sh_count_hi := sh_count_hi context + 1\<rparr> else context);
          context = context\<lparr>sh_count_hi := sh_count_hi context + drop_bit 29 count\<rparr>;
          dataCount = unat (drop_bit 3 tmp AND 0x3F)
      in if dataCount \<noteq> 0
         then (if length buffer < SHA_DATASIZE - dataCount then put_data dataCount buffer context
               else sha_chunks host
                      (swap_transform host 16 (put_data dataCount (take (SHA_DATASIZE - dataCount) buffer) context))
                      (drop (SHA_DATASIZE - dataCount) buffer))
         else sha_chunks host context buffer)"

definition sha_finish :: "byte_order \<Rightarrow> sha_context \<Rightarrow> bytes" where
  "sha_finish host context =
     (let count = unat (drop_bit 3 (sh_count_lo context) AND 0x3F);
          context = put_data count [0x80] context;
          at = count + 1;
          count = SHA_DATASIZE - 1 - count;
          context =
            (if count < 8
             then put_data 0 (replicate (SHA_DATASIZE - 8) 0)
                    (swap_transform host 16 (put_data at (replicate count 0) context))
             else put_data at (replicate (count - 8) 0) context);
          context = put_data 56 (store host (sh_count_hi context)) context;
          context = put_data 60 (store host (sh_count_lo context)) context;
          context = swap_transform host 14 context
      in swap_words host (concat (map (store host) (sh_digest context))) 5)"

definition sha_update :: "byte_order \<Rightarrow> sha_context \<Rightarrow> bytes \<Rightarrow> sha_context" where
  "sha_update host context data = sha_append host context data"

text \<open>The answer of \<^verbatim>\<open>_dbus_sha_compute\<close>, when memory lasts: what it appends to its output.\<close>

definition sha_compute :: "byte_order \<Rightarrow> bytes \<Rightarrow> bytes" where
  "sha_compute host data = hex_of (sha_finish host (sha_update host (sha_init (replicate 64 0)) data))"

section \<open>The standard\<close>

text \<open>FIPS 180: the functions and constants of the eighty steps and the message schedule.\<close>

definition fips_f :: "nat \<Rightarrow> 32 word \<Rightarrow> 32 word \<Rightarrow> 32 word \<Rightarrow> 32 word" where
  "fips_f t x y z =
     (if t < 20 then (x AND y) XOR (NOT x AND z)
      else if 40 \<le> t \<and> t < 60 then (x AND y) XOR (x AND z) XOR (y AND z)
      else x XOR y XOR z)"

definition fips_K :: "nat \<Rightarrow> 32 word" where
  "fips_K t = (if t < 20 then 0x5a827999 else if t < 40 then 0x6ed9eba1 else if t < 60 then 0x8f1bbcdc else 0xca62c1d6)"

fun schedule :: "32 word list \<Rightarrow> nat \<Rightarrow> 32 word" where
  "schedule M t =
     (if t < 16 then M ! t
      else word_rotl 1 (schedule M (t - 3) XOR schedule M (t - 8) XOR schedule M (t - 14) XOR schedule M (t - 16)))"

declare schedule.simps [simp del]

fun fips_step :: "32 word list \<Rightarrow> nat \<Rightarrow> 32 word \<times> 32 word \<times> 32 word \<times> 32 word \<times> 32 word \<Rightarrow>
    32 word \<times> 32 word \<times> 32 word \<times> 32 word \<times> 32 word" where
  "fips_step M t (a, b, c, d, e) =
     (word_rotl 5 a + fips_f t b c d + e + fips_K t + schedule M t, a, word_rotl 30 b, c, d)"

fun fips_block :: "32 word list \<Rightarrow> 32 word \<times> 32 word \<times> 32 word \<times> 32 word \<times> 32 word \<Rightarrow>
    32 word \<times> 32 word \<times> 32 word \<times> 32 word \<times> 32 word" where
  "fips_block M (h0, h1, h2, h3, h4) =
     (case fold (fips_step M) [0..<80] (h0, h1, h2, h3, h4) of
        (a, b, c, d, e) \<Rightarrow> (h0 + a, h1 + b, h2 + c, h3 + d, h4 + e))"

text \<open>Words with their most significant byte first.\<close>

definition be_bytes :: "'a::len word \<Rightarrow> bytes" where
  "be_bytes w = rev (le_bytes w)"

fun be_words :: "bytes \<Rightarrow> nat \<Rightarrow> 32 word list" where
  "be_words bs 0 = []"
| "be_words bs (Suc n) = of_le (rev (take 4 bs)) # be_words (drop 4 bs) n"

text \<open>The message, a bit 1, zeros up to 56 bytes modulo 64, and the number of bits.\<close>

definition fips_pad :: "bytes \<Rightarrow> bytes" where
  "fips_pad M =
     M @ 0x80 # replicate ((119 - length M mod 64) mod 64) 0 @ be_bytes (of_nat (8 * length M) :: 64 word)"

function fips_blocks :: "bytes \<Rightarrow> 32 word \<times> 32 word \<times> 32 word \<times> 32 word \<times> 32 word \<Rightarrow>
    32 word \<times> 32 word \<times> 32 word \<times> 32 word \<times> 32 word" where
  "fips_blocks bs h = (if length bs < 64 then h else fips_blocks (drop 64 bs) (fips_block (be_words bs 16) h))"
  by pat_completeness auto
termination by (relation "measure (\<lambda>(bs, _). length bs)") auto

declare fips_blocks.simps [simp del]

definition sha1 :: "bytes \<Rightarrow> bytes" where
  "sha1 M =
     (case fips_blocks (fips_pad M) (0x67452301, 0xefcdab89, 0x98badcfe, 0x10325476, 0xc3d2e1f0) of
        (h0, h1, h2, h3, h4) \<Rightarrow> be_bytes h0 @ be_bytes h1 @ be_bytes h2 @ be_bytes h3 @ be_bytes h4)"

section \<open>The transformation\<close>

lemma ROTL_eq: "0 < n \<Longrightarrow> n < 32 \<Longrightarrow> ROTL n X = word_rotl n X"
proof (rule bit_word_eqI)
  fix m assume n: "0 < n" "n < 32" and "m < LENGTH(32)"
  then have m: "m < 32" by simp
  have "\<not> bit X (m + (32 - n))" if "n \<le> m"
    using that n bit_imp_le_length [of X "m + (32 - n)"] by auto
  moreover have "(m + (32 - n)) mod 32 = (if n \<le> m then m - n else m + (32 - n))"
    using n m by (auto simp: mod_if)
  moreover have "bit (ROTL n X) m \<longleftrightarrow> n \<le> m \<and> bit X (m - n) \<or> bit X (m + (32 - n))"
    using m by (simp add: ROTL_def bit_or_iff bit_push_bit_iff bit_drop_bit_eq add.commute [of "32 - n"])
  moreover have "bit (word_rotl n X) m \<longleftrightarrow> bit X ((m + (32 - n)) mod 32)"
    using n m by (simp add: bit_word_rotl_iff)
  ultimately show "bit (ROTL n X) m \<longleftrightarrow> bit (word_rotl n X) m" by auto
qed

lemma f_eq:
  "t < 20 \<Longrightarrow> fips_f t = f1" "20 \<le> t \<Longrightarrow> t < 40 \<Longrightarrow> fips_f t = f2"
  "40 \<le> t \<Longrightarrow> t < 60 \<Longrightarrow> fips_f t = f3" "60 \<le> t \<Longrightarrow> fips_f t = f4"
  by (auto simp: fips_f_def f1_def f2_def f3_def f4_def fun_eq_iff bit_simps intro!: bit_word_eqI)

lemma K_eq:
  "t < 20 \<Longrightarrow> fips_K t = K1" "20 \<le> t \<Longrightarrow> t < 40 \<Longrightarrow> fips_K t = K2"
  "40 \<le> t \<Longrightarrow> t < 60 \<Longrightarrow> fips_K t = K3" "60 \<le> t \<Longrightarrow> fips_K t = K4"
  by (simp_all add: fips_K_def K1_def K2_def K3_def K4_def)

text \<open>The circular buffer holds the last sixteen words of the schedule, the first sixteen to begin with.\<close>

definition buffers :: "32 word list \<Rightarrow> nat \<Rightarrow> 32 word list \<Rightarrow> bool" where
  "buffers M i W \<longleftrightarrow> length W = 16 \<and> (\<forall>l. i \<le> l + 16 \<and> l < max i 16 \<longrightarrow> W ! (l mod 16) = schedule M l)"

lemma buffers_start: "length M = 16 \<Longrightarrow> buffers M 0 M"
  by (simp add: buffers_def schedule.simps)

lemma buffers_expand:
  assumes "buffers M i W" "16 \<le> i"
  shows "fst (expand W i) = schedule M i" "buffers M (i + 1) (snd (expand W i))"
proof -
  have W: "length W = 16" "\<And>l. i \<le> l + 16 \<Longrightarrow> l < i \<Longrightarrow> W ! (l mod 16) = schedule M l"
    using assms by (auto simp: buffers_def)
  have "W ! (i mod 16) = schedule M (i - 16)"
    using W(2) [of "i - 16"] assms(2) by (simp add: mod_if [of i])
  moreover have "W ! ((i - d) mod 16) = schedule M (i - d)" if "0 < d" "d \<le> 16" for d
    using W(2) [of "i - d"] that assms(2) by simp
  ultimately show v: "fst (expand W i) = schedule M i"
    using assms(2) by (simp add: expand_def Let_def schedule.simps [of M i] ROTL_eq ac_simps)
  have "snd (expand W i) = W[i mod 16 := schedule M i]"
    using v by (simp add: expand_def Let_def)
  moreover have "i mod 16 \<noteq> l mod 16" if "i + 1 \<le> l + 16" "l < i" for l
  proof
    assume "i mod 16 = l mod 16"
    then have "16 dvd i - l" using that(2) mod_eq_dvd_iff_nat [of l i 16] by simp
    then show False using that dvd_imp_le [of 16 "i - l"] by simp
  qed
  ultimately show "buffers M (i + 1) (snd (expand W i))"
    using W assms(2) by (auto simp: buffers_def less_Suc_eq)
qed

lemma round_data_spec:
  assumes "buffers M i W" "j = i + 1"
  shows "\<exists>W'. round_data i W = (schedule M i, W') \<and> buffers M j W'"
proof (cases "i < 16")
  case True
  then have "W ! i = schedule M i" "buffers M j W" using assms by (auto simp: buffers_def)
  with True show ?thesis by (simp add: round_data_def)
next
  case False
  then have "round_data i W = (schedule M i, snd (expand W i))"
    using buffers_expand(1) [OF assms(1)] by (simp add: round_data_def prod_eq_iff)
  with False buffers_expand(2) [OF assms(1)] assms(2) show ?thesis by auto
qed

text \<open>The code's variables, with the buffer, after the same steps.\<close>

fun with_buffer :: "32 word list \<Rightarrow> 32 word \<times> 32 word \<times> 32 word \<times> 32 word \<times> 32 word \<Rightarrow> sha_vars" where
  "with_buffer W (a, b, c, d, e) = (a, b, c, d, e, W)"

lemma five_rounds_spec:
  assumes "buffers M i W" and fk: "\<And>t. i \<le> t \<Longrightarrow> t < i + 5 \<Longrightarrow> fips_f t = f \<and> fips_K t = k"
  shows "\<exists>W'. five_rounds f k i (with_buffer W v) = with_buffer W' (fold (fips_step M) [i..<i + 5] v) \<and>
    buffers M (i + 5) W'"
proof -
  obtain a b c d e where v: "v = (a, b, c, d, e)" by (cases v) auto
  have plus: "i + 2 = i + 1 + 1" "i + 3 = i + 2 + 1" "i + 4 = i + 3 + 1" "i + 5 = i + 4 + 1" by simp_all
  obtain W1 where 1: "round_data i W = (schedule M i, W1)" "buffers M (i + 1) W1"
    using round_data_spec [OF assms(1) refl] by blast
  obtain W2 where 2: "round_data (i + 1) W1 = (schedule M (i + 1), W2)" "buffers M (i + 2) W2"
    using round_data_spec [OF 1(2) plus(1)] by blast
  obtain W3 where 3: "round_data (i + 2) W2 = (schedule M (i + 2), W3)" "buffers M (i + 3) W3"
    using round_data_spec [OF 2(2) plus(2)] by blast
  obtain W4 where 4: "round_data (i + 3) W3 = (schedule M (i + 3), W4)" "buffers M (i + 4) W4"
    using round_data_spec [OF 3(2) plus(3)] by blast
  obtain W5 where 5: "round_data (i + 4) W4 = (schedule M (i + 4), W5)" "buffers M (i + 5) W5"
    using round_data_spec [OF 4(2) plus(4)] by blast
  have list: "[i..<i + 5] = [i, i + 1, i + 2, i + 3, i + 4]"
    by (simp add: upt_rec [of i] upt_rec [of "Suc _"] eval_nat_numeral)
  have steps: "fips_f i = f" "fips_f (i + 1) = f" "fips_f (i + 2) = f" "fips_f (i + 3) = f" "fips_f (i + 4) = f"
    "fips_K i = k" "fips_K (i + 1) = k" "fips_K (i + 2) = k" "fips_K (i + 3) = k" "fips_K (i + 4) = k"
    using fk by auto
  have "five_rounds f k i (with_buffer W v) = with_buffer W5 (fold (fips_step M) [i..<i + 5] v)"
    unfolding list v five_rounds_def with_buffer.simps prod.case 1(1) Let_def 2(1) 3(1) 4(1) 5(1) subRound_def
      fold_simps fips_step.simps steps ROTL_eq [of 5, simplified] ROTL_eq [of 30, simplified]
    by (simp only: with_buffer.simps ac_simps)
  with 5(2) show ?thesis by blast
qed

text \<open>The tuples of both sides in step.\<close>

lemma twenty_rounds_spec:
  assumes "buffers M i W" and fk: "\<And>t. i \<le> t \<Longrightarrow> t < i + 20 \<Longrightarrow> fips_f t = f \<and> fips_K t = k"
  shows "\<exists>W'. twenty_rounds f k i (with_buffer W v) = with_buffer W' (fold (fips_step M) [i..<i + 20] v) \<and>
    buffers M (i + 20) W'"
proof -
  have f5: "\<exists>W'. five_rounds f k j (with_buffer W v) = with_buffer W' (fold (fips_step M) [j..<j + 5] v) \<and>
      buffers M (j + 5) W'" if "buffers M j W" "i \<le> j" "j + 5 \<le> i + 20" for j W v
    using that fk by (intro five_rounds_spec) auto
  define v1 where "v1 = fold (fips_step M) [i..<i + 5] v"
  define v2 where "v2 = fold (fips_step M) [i + 5..<i + 10] v1"
  define v3 where "v3 = fold (fips_step M) [i + 10..<i + 15] v2"
  have plus: "i + 5 + 5 = i + 10" "i + 10 + 5 = i + 15" "i + 15 + 5 = i + 20" by simp_all
  obtain W1 where 1: "five_rounds f k i (with_buffer W v) = with_buffer W1 v1" "buffers M (i + 5) W1"
    using f5 [OF assms(1), of v] unfolding v1_def by auto
  obtain W2 where 2: "five_rounds f k (i + 5) (with_buffer W1 v1) = with_buffer W2 v2" "buffers M (i + 10) W2"
    using f5 [OF 1(2), of v1] unfolding v2_def plus by auto
  obtain W3 where 3: "five_rounds f k (i + 10) (with_buffer W2 v2) = with_buffer W3 v3" "buffers M (i + 15) W3"
    using f5 [OF 2(2), of v2] unfolding v3_def plus by auto
  obtain W4 where 4: "five_rounds f k (i + 15) (with_buffer W3 v3) =
      with_buffer W4 (fold (fips_step M) [i + 15..<i + 20] v3)" "buffers M (i + 20) W4"
    using f5 [OF 3(2), of v3] unfolding plus by auto
  have "[i..<i + 20] = [i..<i + 5] @ [i + 5..<i + 10] @ [i + 10..<i + 15] @ [i + 15..<i + 20]"
    using upt_add_eq_append [of i "i + 5" 5] upt_add_eq_append [of i "i + 10" 5]
      upt_add_eq_append [of i "i + 15" 5] unfolding plus by simp
  then have "fold (fips_step M) [i + 15..<i + 20] v3 = fold (fips_step M) [i..<i + 20] v"
    by (simp add: v1_def v2_def v3_def)
  with 1 2 3 4 show ?thesis by (auto simp: twenty_rounds_def)
qed

text \<open>The digest of a context as a tuple.\<close>

definition digest5 :: "32 word list \<Rightarrow> 32 word \<times> 32 word \<times> 32 word \<times> 32 word \<times> 32 word" where
  "digest5 d = (d ! 0, d ! 1, d ! 2, d ! 3, d ! 4)"

lemma SHATransform_spec:
  assumes "length M = 16"
  shows "digest5 (SHATransform d M) = fips_block M (digest5 d)" "length (SHATransform d M) = 5"
proof -
  obtain W1 where 1: "twenty_rounds f1 K1 0 (with_buffer M (digest5 d)) =
      with_buffer W1 (fold (fips_step M) [0..<20] (digest5 d))" (is "_ = with_buffer W1 ?v1") "buffers M 20 W1"
    using twenty_rounds_spec [OF buffers_start [OF assms], of f1 K1 "digest5 d"] by (auto simp: f_eq K_eq)
  obtain W2 where 2: "twenty_rounds f2 K2 20 (with_buffer W1 ?v1) =
      with_buffer W2 (fold (fips_step M) [20..<40] ?v1)" (is "_ = with_buffer W2 ?v2") "buffers M 40 W2"
    using twenty_rounds_spec [OF 1(2), of f2 K2 ?v1] by (auto simp: f_eq K_eq)
  obtain W3 where 3: "twenty_rounds f3 K3 40 (with_buffer W2 ?v2) =
      with_buffer W3 (fold (fips_step M) [40..<60] ?v2)" (is "_ = with_buffer W3 ?v3") "buffers M 60 W3"
    using twenty_rounds_spec [OF 2(2), of f3 K3 ?v2] by (auto simp: f_eq K_eq)
  obtain W4 where 4: "twenty_rounds f4 K4 60 (with_buffer W3 ?v3) =
      with_buffer W4 (fold (fips_step M) [60..<80] ?v3)" "buffers M 80 W4"
    using twenty_rounds_spec [OF 3(2), of f4 K4 ?v3] by (auto simp: f_eq K_eq)
  have "[0..<80] = [0..<20] @ [20..<40] @ [40..<60] @ [60..<80 :: nat]"
    using upt_add_eq_append [of 0 20 20] upt_add_eq_append [of 0 40 20] upt_add_eq_append [of 0 60 20] by simp
  then have v4: "fold (fips_step M) [60..<80] ?v3 = fold (fips_step M) [0..<80] (digest5 d)" by simp
  have start: "(d ! 0, d ! 1, d ! 2, d ! 3, d ! 4, M) = with_buffer M (digest5 d)"
    by (simp add: digest5_def)
  obtain a b c d' e where r: "fold (fips_step M) [0..<80] (digest5 d) = (a, b, c, d', e)"
    by (cases "fold (fips_step M) [0..<80] (digest5 d)") auto
  have *: "SHATransform d M = [d ! 0 + a, d ! 1 + b, d ! 2 + c, d ! 3 + d', d ! 4 + e]"
    unfolding SHATransform_def Let_def start 1 2 3 4 v4 r by simp
  show "length (SHATransform d M) = 5" unfolding * by simp
  show "digest5 (SHATransform d M) = fips_block M (digest5 d)"
    unfolding * using r by (simp add: digest5_def)
qed

section \<open>The buffer in memory\<close>

lemma load_swap_word: "length bs = 4 \<Longrightarrow> load host (swap_word host bs) = (of_le (rev bs) :: 32 word)"
  by (cases host) (simp_all add: swap_word_def load_store swap32 of_le_reversed, simp_all add: load_def of_le_reversed)

lemma length_swap_word [simp]: "length bs = 4 \<Longrightarrow> length (swap_word host bs) = 4"
  by (simp add: swap_word_def)

lemma swap_word_store: "swap_word host (store host (w :: 32 word)) = be_bytes w"
  by (cases host) (simp_all add: swap_word_def load_store swap32 be_bytes_def, simp_all add: store_def le_bytes_reversed)

lemma length_swap_words [simp]: "4 * n \<le> length b \<Longrightarrow> length (swap_words host b n) = length b"
  by (induction n arbitrary: b) simp_all

lemma mem_words_swap:
  "4 * n \<le> length b \<Longrightarrow>
   mem_words host (swap_words host b n) (n + k) = be_words b n @ mem_words host (drop (4 * n) b) k"
proof (induction n arbitrary: b)
  case (Suc n)
  then have "length (take 4 b) = 4" by simp
  with Suc show ?case by (simp add: load_swap_word add.commute)
qed simp

lemma be_words_append: "length x = 4 * n \<Longrightarrow> be_words (x @ y) (n + k) = be_words x n @ be_words y k"
proof (induction n arbitrary: x)
  case (Suc n)
  then have "take 4 (x @ y) = take 4 x" "drop 4 (x @ y) = drop 4 x @ y" by simp_all
  with Suc show ?case by simp
qed simp

lemma length_be_words [simp]: "length (be_words b n) = n"
  by (induction n arbitrary: b) simp_all

lemma swap_words_store: "swap_words host (concat (map (store host) d)) (length d) = concat (map be_bytes (d :: 32 word list))"
  by (induction d) (simp_all add: swap_word_store)

lemma take4_store: "take 4 (store host (w :: 32 word)) = store host w" "drop 4 (store host (w :: 32 word)) = []"
  "take 4 (store host w @ ys) = store host w" "drop 4 (store host w @ ys) = ys"
  by simp_all

lemma take4_be: "take 4 (be_bytes (w :: 32 word) @ ys) = be_bytes w" "drop 4 (be_bytes w @ ys) = ys"
  "length (be_bytes w) = 4"
  by (simp_all add: be_bytes_def)

lemma be_words_be_bytes: "be_words (be_bytes v @ be_bytes w) 2 = [v, w]"
proof -
  have "take 4 (be_bytes w) = be_bytes w" by (simp add: be_bytes_def)
  then show ?thesis by (simp add: numeral_2_eq_2 take4_be) (simp add: be_bytes_def of_le_bytes)
qed

text \<open>The 64 bits of the count in two words.\<close>

lemma bit_of_nat_word [simp]: "bit (of_nat n :: 'a::len word) j \<longleftrightarrow> j < LENGTH('a) \<and> bit n j"
  by transfer (simp add: bit_take_bit_iff bit_of_nat_iff_bit)

lemma be_bytes_64:
  "be_bytes (of_nat n :: 64 word) = be_bytes (of_nat (n div 2 ^ 32) :: 32 word) @ be_bytes (of_nat n :: 32 word)"
proof -
  have "le_bytes (of_nat n :: 64 word) = le_bytes (of_nat n :: 32 word) @ le_bytes (of_nat (n div 2 ^ 32) :: 32 word)"
  proof (rule nth_equalityI)
    fix i assume "i < length (le_bytes (of_nat n :: 64 word))"
    then have i: "i < 8" by simp
    have div: "bit (n div 4294967296) j = bit n (32 + j)" for j
      using bit_drop_bit_eq [of 32 n] by (simp add: drop_bit_eq_div)
    show "le_bytes (of_nat n :: 64 word) ! i = (le_bytes (of_nat n :: 32 word) @ le_bytes (of_nat (n div 2 ^ 32) :: 32 word)) ! i"
    proof (rule bit_word_eqI)
      fix j assume "j < LENGTH(8)"
      then have j: "j < 8" by simp
      show "bit (le_bytes (of_nat n :: 64 word) ! i) j =
          bit ((le_bytes (of_nat n :: 32 word) @ le_bytes (of_nat (n div 2 ^ 32) :: 32 word)) ! i) j"
      proof (cases "i < 4")
        case True
        with i j show ?thesis by (simp add: nth_append bit_le_bytes)
      next
        case False
        then have "32 + (8 * (i - 4) + j) = 8 * i + j" by simp
        then have "bit (n div 4294967296) (8 * (i - 4) + j) = bit n (8 * i + j)" by (simp only: div)
        moreover have "8 * (i - 4) + j < 32" using i j by simp
        ultimately show ?thesis using False i j unfolding nth_append by (simp add: bit_le_bytes)
      qed
    qed
  qed simp
  then show ?thesis by (simp add: be_bytes_def)
qed

section \<open>Feeding a context\<close>

lemma fips_blocks_short [simp]: "length bs < 64 \<Longrightarrow> fips_blocks bs h = h"
  by (subst fips_blocks.simps) simp

lemma fips_blocks_block: "length b = 64 \<Longrightarrow> fips_blocks (b @ bs) h = fips_blocks bs (fips_block (be_words b 16) h)"
  by (subst fips_blocks.simps) (simp add: be_words_append [of b 16 bs 0, simplified])

lemma fips_blocks_append: "64 dvd length x \<Longrightarrow> fips_blocks (x @ y) h = fips_blocks y (fips_blocks x h)"
proof (induction "length x" arbitrary: x h rule: less_induct)
  case less
  show ?case
  proof (cases "x = []")
    case False
    then have "64 \<le> length x" using less.prems dvd_imp_le by auto
    then obtain b z where x: "x = b @ z" "length b = 64"
      by (metis append_take_drop_id length_take min.absorb2)
    then show ?thesis using less.hyps [of z] less.prems by (simp add: fips_blocks_block)
  qed simp
qed

text \<open>The invariant: the context has taken in the message \<open>M\<close>.\<close>

definition sha_h0 :: "32 word \<times> 32 word \<times> 32 word \<times> 32 word \<times> 32 word" where
  "sha_h0 = (0x67452301, 0xefcdab89, 0x98badcfe, 0x10325476, 0xc3d2e1f0)"

definition whole_blocks :: "bytes \<Rightarrow> bytes" where "whole_blocks M = take (length M - length M mod 64) M"
definition tail_bytes :: "bytes \<Rightarrow> bytes" where "tail_bytes M = drop (length M - length M mod 64) M"

lemma whole_rest: "M = whole_blocks M @ tail_bytes M" "64 dvd length (whole_blocks M)" "length (tail_bytes M) = length M mod 64"
  by (simp_all add: whole_blocks_def tail_bytes_def)

definition has_taken :: "sha_context \<Rightarrow> bytes \<Rightarrow> bool" where
  "has_taken c M \<longleftrightarrow> length (sh_data c) = 64 \<and> length (sh_digest c) = 5 \<and>
     sh_count_lo c = of_nat (8 * length M) \<and> sh_count_hi c = of_nat (8 * length M div 2 ^ 32) \<and>
     digest5 (sh_digest c) = fips_blocks M sha_h0 \<and> take (length (tail_bytes M)) (sh_data c) = tail_bytes M"

lemma has_taken_init: "length d = 64 \<Longrightarrow> has_taken (sha_init d) []"
  by (simp add: has_taken_def sha_init_def digest5_def sha_h0_def tail_bytes_def)

lemma put_data_simps [simp]:
  "sh_digest (put_data i bs c) = sh_digest c" "sh_count_lo (put_data i bs c) = sh_count_lo c"
  "sh_count_hi (put_data i bs c) = sh_count_hi c"
  by (simp_all add: put_data_def)

lemma length_put_data [simp]:
  "i + length bs \<le> length (sh_data c) \<Longrightarrow> length (sh_data (put_data i bs c)) = length (sh_data c)"
  by (simp add: put_data_def)

lemma take_put_data:
  "i + length bs \<le> length (sh_data c) \<Longrightarrow>
   take (i + length bs) (sh_data (put_data i bs c)) = take i (sh_data c) @ bs"
  by (simp add: put_data_def)

lemma swap_transform_spec:
  assumes "length (sh_data c) = 64" "length (sh_digest c) = 5"
  shows "digest5 (sh_digest (swap_transform host 16 c)) = fips_block (be_words (sh_data c) 16) (digest5 (sh_digest c))"
    "length (sh_data (swap_transform host 16 c)) = 64" "length (sh_digest (swap_transform host n c)) = 5"
    "sh_count_lo (swap_transform host n c) = sh_count_lo c" "sh_count_hi (swap_transform host n c) = sh_count_hi c"
proof -
  have "mem_words host (swap_words host (sh_data c) 16) 16 = be_words (sh_data c) 16"
    using mem_words_swap [of 16 "sh_data c" host 0] assms(1) by simp
  then show "digest5 (sh_digest (swap_transform host 16 c)) = fips_block (be_words (sh_data c) 16) (digest5 (sh_digest c))"
    by (simp add: swap_transform_def Let_def SHATransform_spec(1))
  show "length (sh_digest (swap_transform host n c)) = 5"
    by (simp add: swap_transform_def Let_def SHATransform_def split: prod.splits)
qed (simp_all add: swap_transform_def Let_def assms(1))

lemma sha_chunks_spec:
  "length (sh_data c) = 64 \<Longrightarrow> length (sh_digest c) = 5 \<Longrightarrow>
   length (sh_data (sha_chunks host c b)) = 64 \<and> length (sh_digest (sha_chunks host c b)) = 5 \<and>
   sh_count_lo (sha_chunks host c b) = sh_count_lo c \<and> sh_count_hi (sha_chunks host c b) = sh_count_hi c \<and>
   digest5 (sh_digest (sha_chunks host c b)) = fips_blocks b (digest5 (sh_digest c)) \<and>
   take (length b mod 64) (sh_data (sha_chunks host c b)) = drop (length b - length b mod 64) b"
proof (induction host c b rule: sha_chunks.induct)
  case (1 host c b)
  show ?case
  proof (cases "SHA_DATASIZE \<le> length b")
    case True
    let ?c = "swap_transform host 16 (put_data 0 (take 64 b) c)"
    have len: "64 \<le> length b" using True by (simp add: SHA_DATASIZE_def)
    with 1 have data: "sh_data (put_data 0 (take 64 b) c) = take 64 b" by (simp add: put_data_def)
    with len 1 have put: "length (sh_data (put_data 0 (take 64 b) c)) = 64"
      "length (sh_digest (put_data 0 (take 64 b) c)) = 5" by simp_all
    note t = swap_transform_spec [OF put]
    have "fips_blocks b (digest5 (sh_digest c)) = fips_blocks (drop 64 b) (digest5 (sh_digest ?c))"
      using fips_blocks_block [of "take 64 b" "drop 64 b"] len t(1) [of host] data by simp
    moreover have "sha_chunks host c b = sha_chunks host ?c (drop 64 b)"
      using True by (subst sha_chunks.simps) (simp add: SHA_DATASIZE_def)
    moreover have "length b mod 64 = length (drop 64 b) mod 64" using len by (simp add: le_mod_geq)
    moreover have "drop (length b - length b mod 64) b =
        drop (length (drop 64 b) - length (drop 64 b) mod 64) (drop 64 b)"
    proof -
      have "64 + (length b - 64 - (length b - 64) mod 64) = length b - length b mod 64"
        using len by (simp add: le_mod_geq)
      then show ?thesis by (simp add: add.commute)
    qed
    ultimately show ?thesis using "1.IH" [OF True] t put by (simp add: SHA_DATASIZE_def)
  next
    case False
    then have "length b < 64" "sha_chunks host c b = put_data 0 b c"
      by (simp_all add: SHA_DATASIZE_def sha_chunks.simps [of host c b])
    with 1 show ?thesis by (simp add: put_data_def)
  qed
qed

lemma data_count: "unat (drop_bit 3 (of_nat (8 * n) :: 32 word) AND 0x3F) = n mod 64"
proof -
  have "(0x3F :: 32 word) = mask 6" by (simp add: mask_eq_exp_minus_1)
  then have "drop_bit 3 (of_nat (8 * n) :: 32 word) AND 0x3F = take_bit 6 (drop_bit 3 (of_nat (8 * n)))"
    by (simp add: take_bit_eq_mask)
  then have "unat (drop_bit 3 (of_nat (8 * n) :: 32 word) AND 0x3F) = 8 * n mod 2 ^ 32 div 2 ^ 3 mod 2 ^ 6"
    by (simp only: unat_take_bit unat_drop_bit unat_of_nat) simp
  also have "8 * n mod 2 ^ 32 = 8 * (n mod 2 ^ 29)" using mult_mod_right [of 8 n "2 ^ 29"] by simp
  also have "8 * (n mod 2 ^ 29) div 2 ^ 3 mod 2 ^ 6 = n mod 64" by (simp add: mod_mod_cancel)
  finally show ?thesis .
qed

lemma count_lo: "of_nat (8 * n) + push_bit 3 (of_nat k) = (of_nat (8 * n + 8 * k) :: 32 word)"
  by (simp add: push_bit_eq_mult algebra_simps)

lemma div_plus: "0 < b \<Longrightarrow> (x + y) div b = x div b + y div b + (if x mod b + y mod b < b then 0 else 1)" for b :: nat
  by (auto simp: div_add1_eq [of x y b] not_less intro!: div_nat_eqI)
    (metis add_less_mono mod_less_divisor mult_2)

lemma mod_plus: "x < b \<Longrightarrow> y < b \<Longrightarrow> (x + y) mod b = (if x + y < b then x + y else x + y - b)" for b :: nat
  by (simp add: le_mod_geq)

lemma carry_count: "x < b \<Longrightarrow> y < b \<Longrightarrow> (x + y) mod b < x \<longleftrightarrow> \<not> x + y < b" for b :: nat
  by (auto simp: mod_plus)

lemma count_high_bits:
  assumes "k < 2 ^ 32"
  shows "drop_bit 29 (of_nat k :: 32 word) = of_nat (8 * k div 2 ^ 32)"
proof -
  have "unat (drop_bit 29 (of_nat k :: 32 word)) = k div 2 ^ 29"
    using assms by (simp only: unat_drop_bit unat_of_nat) simp
  moreover have "8 * k div 2 ^ 32 = k div 2 ^ 29" using div_mult_mult1 [of 8 k "2 ^ 29"] by simp
  moreover have "of_nat (unat (drop_bit 29 (of_nat k :: 32 word))) = drop_bit 29 (of_nat k :: 32 word)" by simp
  ultimately show ?thesis by simp
qed

lemma carry_word: "(of_nat (x + y) :: 32 word) < of_nat x \<longleftrightarrow> \<not> x mod 2 ^ 32 + y mod 2 ^ 32 < 2 ^ 32"
proof -
  have "(of_nat (x + y) :: 32 word) < of_nat x \<longleftrightarrow> (x mod 2 ^ 32 + y mod 2 ^ 32) mod 2 ^ 32 < x mod 2 ^ 32"
    by (simp only: word_less_nat_alt unat_of_nat len_num1 len_bit0 mod_add_eq) simp
  then show ?thesis by (simp only: carry_count mod_less_divisor zero_less_power zero_less_numeral)
qed

lemma count_hi:
  assumes "k < 2 ^ 32"
  shows "(if (of_nat (8 * n + 8 * k) :: 32 word) < of_nat (8 * n) then of_nat (8 * n div 2 ^ 32) + 1
      else of_nat (8 * n div 2 ^ 32)) + drop_bit 29 (of_nat k) = (of_nat ((8 * n + 8 * k) div 2 ^ 32) :: 32 word)"
proof -
  have "(8 * n + 8 * k) div 2 ^ 32 = 8 * n div 2 ^ 32 + 8 * k div 2 ^ 32 +
      (if 8 * n mod 2 ^ 32 + 8 * k mod 2 ^ 32 < 2 ^ 32 then 0 else 1)"
    by (rule div_plus) simp
  note d = this
  show ?thesis
  proof (cases "8 * n mod 2 ^ 32 + 8 * k mod 2 ^ 32 < (2 :: nat) ^ 32")
    case True
    then have "\<not> (of_nat (8 * n + 8 * k) :: 32 word) < of_nat (8 * n)" using carry_word [of "8 * n" "8 * k"] by blast
    then show ?thesis unfolding d count_high_bits [OF assms] using True by (simp only: if_False if_True) simp
  next
    case False
    then have "(of_nat (8 * n + 8 * k) :: 32 word) < of_nat (8 * n)" using carry_word [of "8 * n" "8 * k"] by blast
    then show ?thesis unfolding d count_high_bits [OF assms] using False by (simp only: if_False if_True) simp
  qed
qed

lemma fips_blocks_whole: "length (tail_bytes M @ b) < 64 \<Longrightarrow> fips_blocks (M @ b) h = fips_blocks (whole_blocks M) h"
  using fips_blocks_append [OF whole_rest(2) [of M], of "tail_bytes M @ b" h] whole_rest(1) [of M]
  by (metis append_assoc fips_blocks_short)

lemma rest_append: "64 dvd length x \<Longrightarrow> tail_bytes (x @ y) = tail_bytes y"
proof -
  assume "64 dvd length x"
  then have "(length x + length y) mod 64 = length y mod 64" by (metis add.commute mod_add_self2 dvd_eq_mod_eq_0 mod_add_right_eq add_0_right)
  then show ?thesis by (simp add: tail_bytes_def)
qed

lemma rest_short [simp]: "length b < 64 \<Longrightarrow> tail_bytes b = b"
  by (simp add: tail_bytes_def)

lemma rest_grows: "length (tail_bytes M @ b) < 64 \<Longrightarrow> tail_bytes (M @ b) = tail_bytes M @ b"
  using rest_append [OF whole_rest(2) [of M], of "tail_bytes M @ b"] whole_rest(1) [of M] rest_short
  by (metis append_assoc)

lemma length_rest_less: "length (tail_bytes M) < 64"
  by (simp add: whole_rest(3))

lemma sha_append_taken:
  assumes c: "has_taken c M" and len: "length b < 2 ^ 32"
  shows "has_taken (sha_append host c b) (M @ b)"
proof -
  let ?c = "c\<lparr>sh_count_lo := of_nat (8 * length M + 8 * length b),
    sh_count_hi := of_nat ((8 * length M + 8 * length b) div 2 ^ 32)\<rparr>"
  have lo: "sh_count_lo c = of_nat (8 * length M)" and hi: "sh_count_hi c = of_nat (8 * length M div 2 ^ 32)"
    using c by (simp_all add: has_taken_def)
  have c': "length (sh_data ?c) = 64" "length (sh_digest ?c) = 5"
    "take (length (tail_bytes M)) (sh_data ?c) = tail_bytes M" "digest5 (sh_digest ?c) = fips_blocks M sha_h0"
    using c by (simp_all add: has_taken_def)
  define r where "r = length (tail_bytes M)"
  have r: "r < 64" "unat (drop_bit 3 (sh_count_lo c) AND 0x3F) = r"
    using c data_count [of "length M"] whole_rest(3) [of M] by (simp_all add: has_taken_def r_def)
  have counts: "sh_count_lo c + push_bit 3 (of_nat (length b)) = of_nat (8 * length M + 8 * length b)"
    "(if (of_nat (8 * length M + 8 * length b) :: 32 word) < sh_count_lo c then sh_count_hi c + 1 else sh_count_hi c) +
       drop_bit 29 (of_nat (length b)) = of_nat ((8 * length M + 8 * length b) div 2 ^ 32)"
    unfolding lo hi by (rule count_lo, rule count_hi [OF len])
  have code: "sha_append host c b =
      (if r \<noteq> 0
       then (if length b < 64 - r then put_data r b ?c
             else sha_chunks host (swap_transform host 16 (put_data r (take (64 - r) b) ?c)) (drop (64 - r) b))
       else sha_chunks host ?c b)"
  proof -
    have "(let c1 = c\<lparr>sh_count_lo := sh_count_lo c + push_bit 3 (of_nat (length b))\<rparr>;
        c2 = (if sh_count_lo c1 < sh_count_lo c then c1\<lparr>sh_count_hi := sh_count_hi c1 + 1\<rparr> else c1)
      in c2\<lparr>sh_count_hi := sh_count_hi c2 + drop_bit 29 (of_nat (length b))\<rparr>) = ?c"
      unfolding Let_def counts(1) using counts(2) by (simp split: if_splits)
    then show ?thesis unfolding sha_append_def Let_def r(2) SHA_DATASIZE_def by (simp only:)
  qed
  show ?thesis
  proof (cases "r = 0")
    case True
    then have M: "64 dvd length M" using whole_rest(3) [of M] by (simp add: r_def mod_eq_0_iff_dvd)
    from sha_chunks_spec [OF c'(1, 2), of host b] show ?thesis
      unfolding code using True c' by (simp add: has_taken_def fips_blocks_append [OF M] rest_append [OF M])
        (simp add: tail_bytes_def)
  next
    case False
    show ?thesis
    proof (cases "length b < 64 - r")
      case True
      then have small: "length (tail_bytes M @ b) < 64" by (simp add: r_def)
      then have "fips_blocks (M @ b) sha_h0 = fips_blocks M sha_h0"
        using fips_blocks_whole [of M b sha_h0] fips_blocks_whole [of M "[]" sha_h0] by simp
      moreover have "take (r + length b) (sh_data (put_data r b ?c)) = tail_bytes M @ b"
        using take_put_data [of r b ?c] c' True by (simp add: r_def)
      ultimately show ?thesis
        unfolding code using False True c' r(1) rest_grows [OF small] by (simp add: has_taken_def r_def)
    next
      case long: False
      let ?h = "take (64 - r) b" and ?t = "drop (64 - r) b"
      let ?p = "put_data r ?h ?c"
      have full: "length (tail_bytes M @ ?h) = 64" using long r(1) by (simp add: r_def)
      have M: "64 dvd length (M @ ?h)"
        using whole_rest(1, 2) [of M] full by (metis append_assoc dvd_add dvd_refl length_append)
      have p: "length (sh_data ?p) = 64" "length (sh_digest ?p) = 5" "sh_data ?p = tail_bytes M @ ?h"
        using c' full long r(1) take_put_data [of r ?h ?c] by (simp_all add: r_def put_data_def)
      have split: "M @ ?h = whole_blocks M @ (tail_bytes M @ ?h)" using whole_rest(1) [of M] by (metis append_assoc)
      have "fips_blocks (M @ ?h) sha_h0 = fips_block (be_words (tail_bytes M @ ?h) 16) (fips_blocks M sha_h0)"
        unfolding split fips_blocks_append [OF whole_rest(2) [of M]]
        using fips_blocks_block [OF full, of "[]"] fips_blocks_whole [of M "[]" sha_h0] length_rest_less [of M] by simp
      then have digest: "digest5 (sh_digest (swap_transform host 16 ?p)) = fips_blocks (M @ ?h) sha_h0"
        using swap_transform_spec(1) [OF p(1, 2), of host] p(3) c'(4) by simp
      have b: "M @ b = (M @ ?h) @ ?t" by simp
      have "tail_bytes (M @ b) = tail_bytes ?t" "fips_blocks (M @ b) sha_h0 = fips_blocks ?t (fips_blocks (M @ ?h) sha_h0)"
        unfolding b by (rule rest_append [OF M], rule fips_blocks_append [OF M])
      with sha_chunks_spec [OF swap_transform_spec(2, 3) [OF p(1, 2)], of host host ?t] digest
        swap_transform_spec(4, 5) [OF p(1, 2)] False long show ?thesis
        unfolding code by (simp add: has_taken_def whole_rest(3)) (simp add: tail_bytes_def)
    qed
  qed
qed

section \<open>Finishing\<close>

lemma length_be_64 [simp]: "length (be_bytes (w :: 64 word)) = 8"
  by (simp add: be_bytes_def)

lemma digest_bytes:
  "length d = 5 \<Longrightarrow> digest5 d = (h0, h1, h2, h3, h4) \<Longrightarrow>
   swap_words host (concat (map (store host) d)) 5 =
     be_bytes h0 @ be_bytes h1 @ be_bytes h2 @ be_bytes h3 @ be_bytes h4"
proof -
  assume d: "length d = 5" "digest5 d = (h0, h1, h2, h3, h4)"
  then have "d = [h0, h1, h2, h3, h4]"
    by (auto simp: digest5_def numeral_eq_Suc length_Suc_conv)
  note list = this
  have "swap_words host (concat (map (store host) d)) 5 = concat (map be_bytes d)"
    using swap_words_store [of host d] d(1) by simp
  then show ?thesis by (simp only:) (simp add: list)
qed

text \<open>Transforming a last block: 56 bytes in the order of bytes, and the count in words of the machine.\<close>

lemma swap_transform_last:
  assumes "length x = 56" "length (sh_digest c) = 5" "sh_data c = x @ store host hi @ store host (lo :: 32 word)"
  shows "digest5 (sh_digest (swap_transform host 14 c)) =
      fips_block (be_words (x @ be_bytes (hi :: 32 word) @ be_bytes lo) 16) (digest5 (sh_digest c))"
    "length (sh_digest (swap_transform host 14 c)) = 5"
proof -
  let ?b = "x @ store host hi @ store host lo"
  have "mem_words host (swap_words host ?b 14) (14 + 2) = be_words ?b 14 @ mem_words host (store host hi @ store host lo) 2"
    using mem_words_swap [of 14 ?b host 2] assms(1) by simp
  also have "mem_words host (store host hi @ store host lo) 2 = [hi, lo]"
    by (simp add: numeral_2_eq_2) (simp add: load_store)
  also have "be_words ?b 14 = be_words x 14"
    using be_words_append [of x 14 "store host hi @ store host lo" 0] assms(1) by simp
  also have "be_words x 14 @ [hi, lo] = be_words (x @ be_bytes hi @ be_bytes lo) 16"
    using be_words_append [of x 14 "be_bytes hi @ be_bytes lo" 2] assms(1) by (simp add: be_words_be_bytes)
  finally have words: "mem_words host (swap_words host ?b 14) 16 = be_words (x @ be_bytes hi @ be_bytes lo) 16" by simp
  then show "digest5 (sh_digest (swap_transform host 14 c)) =
      fips_block (be_words (x @ be_bytes hi @ be_bytes lo) 16) (digest5 (sh_digest c))"
    by (simp add: swap_transform_def Let_def assms(3) SHATransform_spec(1))
  show "length (sh_digest (swap_transform host 14 c)) = 5"
    using words by (simp add: swap_transform_def Let_def assms(3) SHATransform_spec(2))
qed

lemma put_last:
  assumes "length (sh_data c) = 64" "take 56 (sh_data c) = x"
  shows "sh_data (put_data 60 (store host (lo :: 32 word)) (put_data 56 (store host (hi :: 32 word)) c)) =
    x @ store host hi @ store host lo"
proof -
  have "sh_data (put_data 56 (store host hi) c) = x @ store host hi @ drop 60 (sh_data c)"
    using assms by (simp add: put_data_def)
  moreover have "length x = 56" using assms by auto
  ultimately show ?thesis using assms(1) by (simp add: put_data_def)
qed

lemma sha_finish_sha1:
  assumes c: "has_taken c M"
  shows "sha_finish host c = sha1 M"
proof -
  define r where "r = length (tail_bytes M)"
  have r: "r < 64" "unat (drop_bit 3 (sh_count_lo c) AND 0x3F) = r" "length M mod 64 = r"
    using c data_count [of "length M"] whole_rest(3) [of M] by (simp_all add: has_taken_def r_def)
  have data: "length (sh_data c) = 64" "length (sh_digest c) = 5" "take r (sh_data c) = tail_bytes M"
    and digest: "digest5 (sh_digest c) = fips_blocks (whole_blocks M) sha_h0"
    using c fips_blocks_whole [of M "[]" sha_h0] length_rest_less [of M] by (simp_all add: has_taken_def r_def)
  let ?hi = "sh_count_hi c" and ?lo = "sh_count_lo c"
  have bits: "be_bytes (of_nat (8 * length M) :: 64 word) = be_bytes ?hi @ be_bytes ?lo"
    using c be_bytes_64 [of "8 * length M"] by (simp only: has_taken_def)
  let ?c1 = "put_data r [0x80] c"
  have d1: "take (r + 1) (sh_data ?c1) = tail_bytes M @ [0x80]" "length (sh_data ?c1) = 64"
    using take_put_data [of r "[0x80]" c] data r(1) by simp_all
  \<comment> \<open>the context before the count is stored: its first 56 bytes and its digest\<close>
  obtain c2 x where c2: "length (sh_data c2) = 64" "length (sh_digest c2) = 5" "take 56 (sh_data c2) = x"
      "sh_count_hi c2 = ?hi" "sh_count_lo c2 = ?lo"
    and code: "sha_finish host c = swap_words host (concat (map (store host) (sh_digest
      (swap_transform host 14 (put_data 60 (store host ?lo) (put_data 56 (store host ?hi) c2)))))) 5"
    and pad: "fips_blocks (fips_pad M) sha_h0 =
      fips_block (be_words (x @ be_bytes ?hi @ be_bytes ?lo) 16) (digest5 (sh_digest c2))"
  proof (cases "63 - r < 8")
    case True
    let ?c2 = "put_data (r + 1) (replicate (63 - r) 0) ?c1"
    let ?c3 = "swap_transform host 16 ?c2"
    have full: "sh_data ?c2 = tail_bytes M @ 0x80 # replicate (63 - r) 0"
      using take_put_data [of "r + 1" "replicate (63 - r) 0" ?c1] d1 r(1) by simp
    have len: "length (sh_data ?c2) = 64" "length (sh_digest ?c2) = 5" using d1 data r(1) by simp_all
    note t = swap_transform_spec [OF len]
    let ?x = "replicate 56 (0 :: byte)"
    show ?thesis
    proof (rule that [of "put_data 0 (replicate 56 0) ?c3" ?x])
      show "sha_finish host c = swap_words host (concat (map (store host) (sh_digest (swap_transform host 14
          (put_data 60 (store host ?lo) (put_data 56 (store host ?hi) (put_data 0 (replicate 56 0) ?c3))))))) 5"
        unfolding sha_finish_def Let_def r(2) SHA_DATASIZE_def using True t(4, 5)
        by (simp add: numeral_eq_Suc [of "num.Bit1 _"] numeral_eq_Suc [of "num.Bit0 _"] del: replicate_Suc)
      have "M @ 0x80 # replicate ((119 - r) mod 64) 0 @ be_bytes (of_nat (8 * length M) :: 64 word) =
          whole_blocks M @ (sh_data ?c2 @ (?x @ be_bytes ?hi @ be_bytes ?lo))"
      proof -
        have "(119 - r) mod 64 = 63 - r + 56" using True r(1) by simp
        then show ?thesis unfolding bits full
          using whole_rest(1) [of M] by (simp only: replicate_add append_assoc append_Cons) (metis append_assoc append_Cons)
      qed
      then show "fips_blocks (fips_pad M) sha_h0 = fips_block (be_words (?x @ be_bytes ?hi @ be_bytes ?lo) 16)
          (digest5 (sh_digest (put_data 0 (replicate 56 0) ?c3)))"
        using fips_blocks_append [OF whole_rest(2) [of M]] fips_blocks_block [OF len(1)] t(1) [of host] digest
          fips_blocks_block [of "?x @ be_bytes ?hi @ be_bytes ?lo" "[]"]
        by (simp add: fips_pad_def r(3) take4_be)
    qed (use t in \<open>simp_all add: put_data_def\<close>)
  next
    case False
    let ?c2 = "put_data (r + 1) (replicate (55 - r) 0) ?c1"
    let ?x = "tail_bytes M @ 0x80 # replicate (55 - r) 0"
    show ?thesis
    proof (rule that [of ?c2 ?x])
      show "sha_finish host c = swap_words host (concat (map (store host) (sh_digest
          (swap_transform host 14 (put_data 60 (store host ?lo) (put_data 56 (store host ?hi) ?c2)))))) 5"
        unfolding sha_finish_def Let_def r(2) SHA_DATASIZE_def using False by simp
      show "take 56 (sh_data ?c2) = ?x"
        using take_put_data [of "r + 1" "replicate (55 - r) 0" ?c1] d1 False by simp
      have "M @ 0x80 # replicate ((119 - r) mod 64) 0 @ be_bytes (of_nat (8 * length M) :: 64 word) =
          whole_blocks M @ (?x @ be_bytes ?hi @ be_bytes ?lo)"
      proof -
        have "(119 - r) mod 64 = 55 - r" using False by (simp add: mod_if)
        then show ?thesis unfolding bits
          using whole_rest(1) [of M] by simp
      qed
      moreover have "length (?x @ be_bytes ?hi @ be_bytes ?lo) = 64" using False by (simp add: r_def take4_be)
      ultimately show "fips_blocks (fips_pad M) sha_h0 =
          fips_block (be_words (?x @ be_bytes ?hi @ be_bytes ?lo) 16) (digest5 (sh_digest ?c2))"
        using fips_blocks_append [OF whole_rest(2) [of M]] digest
          fips_blocks_block [of "?x @ be_bytes ?hi @ be_bytes ?lo" "[]"] by (simp add: fips_pad_def r(3))
    qed (use d1 data False in simp_all)
  qed
  have x: "length x = 56" using c2 by auto
  let ?c = "put_data 60 (store host ?lo) (put_data 56 (store host ?hi) c2)"
  obtain h0 h1 h2 h3 h4 where h: "fips_blocks (fips_pad M) sha_h0 = (h0, h1, h2, h3, h4)"
    by (cases "fips_blocks (fips_pad M) sha_h0") auto
  have "digest5 (sh_digest (swap_transform host 14 ?c)) = (h0, h1, h2, h3, h4)"
    using swap_transform_last(1) [of x ?c host ?hi ?lo] x c2 put_last [OF c2(1, 3)] pad h by simp
  moreover have "length (sh_digest (swap_transform host 14 ?c)) = 5"
    using swap_transform_last(2) [of x ?c host ?hi ?lo] x c2 put_last [OF c2(1, 3)] by simp
  ultimately show ?thesis unfolding code using digest_bytes h by (simp add: sha1_def sha_h0_def)
qed

lemma sha_updates_taken:
  "has_taken c M \<Longrightarrow> \<forall>b \<in> set bufs. length b < 2 ^ 32 \<Longrightarrow>
   has_taken (fold (\<lambda>b c. sha_update host c b) bufs c) (M @ concat bufs)"
proof (induction bufs arbitrary: c M)
  case (Cons b bufs)
  then have "has_taken (sha_update host c b) (M @ b)"
    by (simp add: sha_update_def sha_append_taken)
  from Cons.IH [OF this] Cons.prems(2) show ?case by simp
qed simp

text \<open>
  C39. Feeding a message in any pieces to a context and finishing it gives the digest that FIPS
  180 defines for the whole message, on hosts of either byte order: the circular buffer, the
  renamed variables, the carry of the count and the two ways of padding are those of the
  standard.
\<close>

theorem sha_updates_are_sha1:
  assumes "\<forall>b \<in> set bufs. length b < 2 ^ 32" and "length uninitialized = 64"
  shows "sha_finish host (fold (\<lambda>b c. sha_update host c b) bufs (sha_init uninitialized)) = sha1 (concat bufs)"
  using sha_finish_sha1 [OF sha_updates_taken [OF has_taken_init [OF assms(2)] assms(1)], of host host] by simp

theorem sha_updates_witness:
  "sha_finish BIG_ENDIAN (fold (\<lambda>b c. sha_update BIG_ENDIAN c b) [bytes ''a'', bytes ''bc''] (sha_init (replicate 64 7))) =
    sha1 (bytes ''abc'')"
  using sha_updates_are_sha1 [of "[bytes ''a'', bytes ''bc'']" "replicate 64 7" BIG_ENDIAN] by simp

lemma sha_compute_sha1: "length data < 2 ^ 32 \<Longrightarrow> sha_compute host data = hex_of (sha1 data)"
  using sha_finish_sha1 [OF sha_append_taken [OF has_taken_init], of "replicate 64 0" data host host]
  by (simp add: sha_compute_def sha_update_def)

end
