(* ===== verification/Auth.thy ===== *)
theory Auth
  imports Keyring Sha
begin

text \<open>
  The authentication conversation of \<^verbatim>\<open>dbus/dbus-auth.c\<close>: the state of one side, the mechanisms, the
  commands it sends and the handlers of the commands it receives, the splitting of the input into
  lines, and the interface for the transport. Every call that may run out of memory consumes one answer of the
  allocator; an operation answers \<open>Some (ok, auth)\<close>, where \<open>ok\<close> is whether memory lasted, and \<open>None\<close>
  when an assertion fails or a \<^verbatim>\<open>NULL\<close> handler is called. Strings are their bytes.

  Parameters, in an \<open>auth_env\<close>, are the system: the database of users, the effective user of the
  process, the file of cookies, random bytes and the version of the library. Questions whose answer
  may change over time take the number of questions asked before.
\<close>

section \<open>The state of a conversation\<close>

datatype auth_side = AUTH_CLIENT | AUTH_SERVER

datatype mechanism = EXTERNAL | DBUS_COOKIE_SHA1 | ANONYMOUS

datatype auth_command =
  COMMAND_AUTH | COMMAND_CANCEL | COMMAND_DATA | COMMAND_BEGIN | COMMAND_REJECTED | COMMAND_OK |
  COMMAND_ERROR | COMMAND_UNKNOWN | COMMAND_NEGOTIATE_UNIX_FD | COMMAND_AGREE_UNIX_FD

datatype auth_state =
  SERVER_WAITING_FOR_AUTH | SERVER_WAITING_FOR_DATA | SERVER_WAITING_FOR_BEGIN |
  CLIENT_NEED_SEND_AUTH | CLIENT_WAITING_FOR_DATA | CLIENT_WAITING_FOR_OK | CLIENT_WAITING_FOR_REJECT |
  CLIENT_WAITING_FOR_AGREE_UNIX_FD | AUTHENTICATED | NEED_DISCONNECT

record auth =
  au_side :: auth_side
  au_outgoing :: bytes
  au_state :: auth_state
  au_mech :: "mechanism option"
  au_identity :: bytes
  au_credentials :: credentials
  au_authorized_identity :: credentials
  au_desired_identity :: credentials
  au_context :: bytes
  au_keyring :: "keyring option"
  au_cookie_id :: int
  au_challenge :: bytes
  au_allowed_mechs :: "bytes list option"
  au_needed_memory :: bool
  au_already_got_mechanisms :: bool
  au_already_asked_for_initial_response :: bool
  au_unix_fd_possible :: bool
  au_unix_fd_negotiated :: bool
  au_mechs_to_try :: "mechanism list"
  au_guid_from_server :: bytes
  au_failures :: nat
  au_max_failures :: nat
  au_guid :: bytes
  au_mem :: mem
  au_asked :: nat

text \<open>
  The buffer of received text is kept apart from the rest of the structure: the handlers of commands
  do not get it.
\<close>

record conversation =
  cv_auth :: auth
  cv_incoming :: bytes
  cv_buffer_outstanding :: bool

text \<open>An answer of the system: an error that is a lack of memory is told from the others.\<close>

datatype 'a answered = NO_MEMORY | OTHER_ERROR | Got 'a

record auth_env =
  ae_get_username :: "nat \<Rightarrow> bytes \<Rightarrow> 64 word option"
  ae_euid :: "64 word"
  ae_new_keyring :: "nat \<Rightarrow> credentials option \<Rightarrow> bytes \<Rightarrow> keyring answered"
  ae_best_key :: "nat \<Rightarrow> keyring \<Rightarrow> int \<times> keyring"
  ae_random_bytes :: "nat \<Rightarrow> nat \<Rightarrow> bytes answered"
  ae_version :: string
  ae_host :: byte_order

type_synonym auth_op = "auth \<Rightarrow> (bool \<times> auth) option"

section \<open>Sequences of operations\<close>

text \<open>\<open>f\<close> and, when memory lasted, \<open>g\<close>.\<close>

definition and_then :: "auth_op \<Rightarrow> auth_op \<Rightarrow> auth_op" where
  "and_then f g a = (case f a of None \<Rightarrow> None | Some (ok, a) \<Rightarrow> if ok then g a else Some (False, a))"

definition done_with :: "(auth \<Rightarrow> auth) \<Rightarrow> auth_op" where
  "done_with f a = Some (True, f a)"

text \<open>\<open>n\<close> calls in a row on strings of their own, each of which may run out of memory.\<close>

fun mem_allocs :: "nat \<Rightarrow> mem \<Rightarrow> bool \<times> mem" where
  "mem_allocs 0 m = (True, m)"
| "mem_allocs (Suc n) m = (let (ok, m) = alloc m in if ok then mem_allocs n m else (False, m))"

definition allocs :: "nat \<Rightarrow> auth_op" where
  "allocs n a = (let (ok, m) = mem_allocs n (au_mem a) in Some (ok, a\<lparr>au_mem := m\<rparr>))"

text \<open>Appending to the outgoing text with one call.\<close>

definition append_outgoing :: "bytes \<Rightarrow> auth_op" where
  "append_outgoing s = and_then (allocs 1) (done_with (\<lambda>a. a\<lparr>au_outgoing := au_outgoing a @ s\<rparr>))"

definition goto_state :: "auth_state \<Rightarrow> auth \<Rightarrow> auth" where
  "goto_state s a = a\<lparr>au_state := s\<rparr>"

definition asked :: "auth \<Rightarrow> auth" where
  "asked a = a\<lparr>au_asked := Suc (au_asked a)\<rparr>"

section \<open>Mechanisms\<close>

fun mechanism_name :: "mechanism \<Rightarrow> bytes" where
  "mechanism_name EXTERNAL = bytes ''EXTERNAL''"
| "mechanism_name DBUS_COOKIE_SHA1 = bytes ''DBUS_COOKIE_SHA1''"
| "mechanism_name ANONYMOUS = bytes ''ANONYMOUS''"

definition all_mechanisms :: "mechanism list" where
  "all_mechanisms = [EXTERNAL, DBUS_COOKIE_SHA1, ANONYMOUS]"

text \<open>The same function on both sides, for the one mechanism that has something to shut down.\<close>

fun shutdown_func :: "mechanism \<Rightarrow> auth \<Rightarrow> auth" where
  "shutdown_func EXTERNAL a = a"
| "shutdown_func DBUS_COOKIE_SHA1 a = a\<lparr>au_cookie_id := - 1, au_challenge := []\<rparr>"
| "shutdown_func ANONYMOUS a = a"

definition shutdown_mech :: "auth \<Rightarrow> auth" where
  "shutdown_mech a =
     (let a = a\<lparr>au_already_asked_for_initial_response := False, au_identity := [],
                au_authorized_identity := credentials_clear (au_authorized_identity a),
                au_desired_identity := credentials_clear (au_desired_identity a)\<rparr>
      in case au_mech a of
           None \<Rightarrow> a
         | Some mech \<Rightarrow> (shutdown_func mech a)\<lparr>au_mech := None\<rparr>)"

text \<open>\<^verbatim>\<open>_dbus_string_array_contains\<close> compares C strings.\<close>

fun string_array_contains :: "bytes list \<Rightarrow> bytes \<Rightarrow> bool" where
  "string_array_contains [] str = False"
| "string_array_contains (s # ss) str = (if s = takeWhile (\<lambda>c. c \<noteq> 0) str then True else string_array_contains ss str)"

fun find_mech_loop :: "mechanism list \<Rightarrow> bytes \<Rightarrow> mechanism option" where
  "find_mech_loop [] name = None"
| "find_mech_loop (m # ms) name =
     (if string_equal_c_str name (mechanism_name m) then Some m else find_mech_loop ms name)"

definition find_mech :: "bytes \<Rightarrow> bytes list option \<Rightarrow> mechanism option" where
  "find_mech name allowed_mechs =
     (case allowed_mechs of
        Some l \<Rightarrow> if \<not> string_array_contains l name then None else find_mech_loop all_mechanisms name
      | None \<Rightarrow> find_mech_loop all_mechanisms name)"

section \<open>Sending\<close>

definition send_data :: "bytes \<Rightarrow> auth_op" where
  "send_data data a =
     (if data = [] then append_outgoing (bytes ''DATA'' @ [CR, LF]) a
      else and_then (allocs 3)
             (done_with (\<lambda>a. a\<lparr>au_outgoing := au_outgoing a @ bytes ''DATA '' @ hex_of data @ [CR, LF]\<rparr>)) a)"

definition rejected_text :: bytes where
  "rejected_text =
     bytes ''REJECTED'' @ concat (map (\<lambda>m. bytes '' '' @ mechanism_name m) all_mechanisms) @ [CR, LF]"

text \<open>Two appends for each mechanism, the others for the command word, the end of line and the copy.\<close>

definition send_rejected :: auth_op where
  "send_rejected =
     and_then (allocs (2 + 2 * length all_mechanisms + 2)) (\<lambda>a.
       let a = shutdown_mech (a\<lparr>au_outgoing := au_outgoing a @ rejected_text\<rparr>) in
       if au_side a \<noteq> AUTH_SERVER then None
       else let a = a\<lparr>au_failures := au_failures a + 1\<rparr> in
            Some (True, goto_state (if au_failures a \<ge> au_max_failures a then NEED_DISCONNECT else SERVER_WAITING_FOR_AUTH) a))"

definition send_error :: "string \<Rightarrow> auth_op" where
  "send_error message = append_outgoing (bytes ''ERROR '' @ [34] @ bytes message @ [34, CR, LF])"

definition send_ok :: auth_op where
  "send_ok =
     and_then (allocs 3) (done_with (\<lambda>a. goto_state SERVER_WAITING_FOR_BEGIN
       (a\<lparr>au_outgoing := au_outgoing a @ bytes ''OK '' @ au_guid a @ [CR, LF]\<rparr>)))"

definition send_begin :: auth_op where
  "send_begin = and_then (append_outgoing (bytes ''BEGIN'' @ [CR, LF])) (done_with (goto_state AUTHENTICATED))"

definition send_cancel :: auth_op where
  "send_cancel = and_then (append_outgoing (bytes ''CANCEL'' @ [CR, LF])) (done_with (goto_state CLIENT_WAITING_FOR_REJECT))"

definition send_negotiate_unix_fd :: auth_op where
  "send_negotiate_unix_fd =
     and_then (append_outgoing (bytes ''NEGOTIATE_UNIX_FD'' @ [CR, LF])) (done_with (goto_state CLIENT_WAITING_FOR_AGREE_UNIX_FD))"

definition send_agree_unix_fd :: auth_op where
  "send_agree_unix_fd a =
     (if \<not> au_unix_fd_possible a then None
      else and_then (append_outgoing (bytes ''AGREE_UNIX_FD'' @ [CR, LF]))
             (done_with (goto_state SERVER_WAITING_FOR_BEGIN)) (a\<lparr>au_unix_fd_negotiated := True\<rparr>))"

text \<open>
  The initial response of a client, in hexadecimal: its user, or the name of the library. It takes
  three calls that may run out of memory: for the plain text, for filling it and for encoding it.
\<close>

fun initial_response :: "auth_env \<Rightarrow> mechanism \<Rightarrow> bytes" where
  "initial_response env EXTERNAL = hex_of (decimal (unat (ae_euid env)))"
| "initial_response env DBUS_COOKIE_SHA1 = hex_of (decimal (unat (ae_euid env)))"
| "initial_response env ANONYMOUS = hex_of (bytes (''libdbus '' @ ae_version env))"

definition send_auth :: "auth_env \<Rightarrow> mechanism \<Rightarrow> auth_op" where
  "send_auth env mech =
     and_then (allocs (4 + 3 + 2)) (done_with (\<lambda>a.
       let a = a\<lparr>au_outgoing := au_outgoing a @ bytes ''AUTH '' @ mechanism_name mech @ bytes '' '' @
             initial_response env mech @ [CR, LF]\<rparr>;
           a = shutdown_mech a
       in goto_state CLIENT_WAITING_FOR_DATA (a\<lparr>au_mech := Some mech\<rparr>)))"

text \<open>\<^verbatim>\<open>_dbus_credentials_add_from_user\<close>, which does not tell a lack of memory from an unknown user.\<close>

definition add_from_user :: "auth_env \<Rightarrow> bytes \<Rightarrow> auth \<Rightarrow> bool \<times> auth" where
  "add_from_user env username a =
     (case ae_get_username env (au_asked a) username of
        None \<Rightarrow> (False, asked a)
      | Some uid \<Rightarrow>
          (let (ok, c, m) = credentials_add_unix_uid (au_desired_identity a) uid (au_mem a) in
           (ok, asked (a\<lparr>au_desired_identity := c, au_mem := m\<rparr>))))"

text \<open>Adding to the authorized identity a credential, and all credentials.\<close>

definition authorize_credential :: "credential_type \<Rightarrow> auth_op" where
  "authorize_credential k a =
     (let (ok, c, m) = credentials_add_credential (au_authorized_identity a) k (au_credentials a) (au_mem a) in
      Some (ok, a\<lparr>au_authorized_identity := c, au_mem := m\<rparr>))"

definition authorize_desired :: auth_op where
  "authorize_desired a =
     (let (ok, c, m) = credentials_add_credentials (au_authorized_identity a) (au_desired_identity a) (au_mem a) in
      Some (ok, a\<lparr>au_authorized_identity := c, au_mem := m\<rparr>))"

definition copy_identity :: "bytes \<Rightarrow> auth_op" where
  "copy_identity data = and_then (allocs 1) (done_with (\<lambda>a. a\<lparr>au_identity := data @ au_identity a\<rparr>))"

section \<open>The mechanism EXTERNAL\<close>

text \<open>The identity is known: look it up, compare it with the credentials of the socket.\<close>

definition external_authorize :: auth_op where
  "external_authorize a =
     (if credentials_are_anonymous (au_desired_identity a) then send_rejected a
      else case credentials_are_superset (au_credentials a) (au_desired_identity a) of
             None \<Rightarrow> None
           | Some False \<Rightarrow> send_rejected a
           | Some True \<Rightarrow>
               and_then authorize_desired
                 (and_then (authorize_credential UNIX_PROCESS_ID)
                   (and_then (authorize_credential ADT_AUDIT_DATA_ID)
                     (and_then (authorize_credential LINUX_SECURITY_LABEL) send_ok))) a)"

definition external_identify :: "auth_env \<Rightarrow> auth_op" where
  "external_identify env a =
     (let a = a\<lparr>au_desired_identity := credentials_clear (au_desired_identity a)\<rparr> in
      if au_identity a = []
      then (let (ok, c, m) = credentials_add_credentials (au_desired_identity a) (au_credentials a) (au_mem a);
                a = a\<lparr>au_desired_identity := c, au_mem := m\<rparr>
            in if \<not> ok then Some (False, a) else external_authorize a)
      else (let (ok, a) = add_from_user env (au_identity a) a in
            if \<not> ok then send_rejected a else external_authorize a))"

text \<open>Without an identity the client is asked for one, once.\<close>

definition external_challenge :: "auth_env \<Rightarrow> auth_op" where
  "external_challenge env a =
     (if au_identity a = [] \<and> \<not> au_already_asked_for_initial_response a
      then and_then (send_data [])
             (done_with (\<lambda>a. goto_state SERVER_WAITING_FOR_DATA (a\<lparr>au_already_asked_for_initial_response := True\<rparr>))) a
      else external_identify env a)"

definition handle_server_data_external_mech :: "auth_env \<Rightarrow> bytes \<Rightarrow> auth_op" where
  "handle_server_data_external_mech env data a =
     (if credentials_are_anonymous (au_credentials a) then send_rejected a
      else if data \<noteq> [] then
        (if au_identity a \<noteq> [] then send_rejected a
         else and_then (copy_identity data) (external_challenge env) a)
      else external_challenge env a)"

section \<open>The mechanism ANONYMOUS\<close>

definition handle_server_data_anonymous_mech :: "bytes \<Rightarrow> auth_op" where
  "handle_server_data_anonymous_mech data a =
     (if data \<noteq> [] \<and> \<not> validate_utf8 data 0 (length data) then send_rejected a
      else and_then (authorize_credential UNIX_PROCESS_ID) send_ok
             (a\<lparr>au_desired_identity := credentials_clear (au_desired_identity a)\<rparr>))"

section \<open>The mechanism DBUS\_COOKIE\_SHA1\<close>

definition N_CHALLENGE_BYTES :: nat where "N_CHALLENGE_BYTES = 128 div 8"

text \<open>The hash that proves knowledge of the cookie; it is empty when the cookie is not known.\<close>

definition sha1_compute_hash ::
    "auth_env \<Rightarrow> int \<Rightarrow> bytes \<Rightarrow> bytes \<Rightarrow> (bytes \<Rightarrow> auth_op) \<Rightarrow> auth_op" where
  "sha1_compute_hash env cookie_id server_challenge client_challenge use a =
     (case au_keyring a of
        None \<Rightarrow> None
      | Some keyring \<Rightarrow>
          and_then (allocs 1) (\<lambda>a.
            let (cookie, m) = keyring_get_hex_key keyring cookie_id (au_mem a); a = a\<lparr>au_mem := m\<rparr> in
            case cookie of
              None \<Rightarrow> Some (False, a)
            | Some [] \<Rightarrow> use [] a
            | Some cookie \<Rightarrow>
                and_then (allocs (1 + 5 + 3))
                  (use (sha_compute (ae_host env)
                    (server_challenge @ bytes '':'' @ client_challenge @ bytes '':'' @ cookie))) a) a)"

definition sha1_send_challenge :: "auth_env \<Rightarrow> keyring \<Rightarrow> auth_op" where
  "sha1_send_challenge env keyring a =
     (let (cookie_id, keyring) = ae_best_key env (au_asked a) keyring;
          a = asked (a\<lparr>au_keyring := Some keyring, au_cookie_id := cookie_id\<rparr>)
      in if cookie_id < 0 then send_rejected a
         else and_then (allocs 4) (\<lambda>a.
           case ae_random_bytes env (au_asked a) N_CHALLENGE_BYTES of
             NO_MEMORY \<Rightarrow> Some (False, asked a)
           | OTHER_ERROR \<Rightarrow> send_rejected (asked a)
           | Got tmp \<Rightarrow>
               and_then (allocs 1)
                 (and_then (done_with (\<lambda>a. a\<lparr>au_challenge := hex_of tmp\<rparr>))
                   (and_then (allocs 1)
                     (and_then (send_data (au_context a @ bytes '' '' @ decimal_int cookie_id @ bytes '' '' @ hex_of tmp))
                       (done_with (goto_state SERVER_WAITING_FOR_DATA)))))
                 (asked (a\<lparr>au_challenge := []\<rparr>))) a)"

definition sha1_load_keyring :: "auth_env \<Rightarrow> auth_op" where
  "sha1_load_keyring env a =
     (let a = (case au_keyring a of
                 Some keyring \<Rightarrow>
                   if \<not> keyring_is_for_credentials keyring (au_desired_identity a) then a\<lparr>au_keyring := None\<rparr> else a
               | None \<Rightarrow> a)
      in case au_keyring a of
           Some keyring \<Rightarrow> sha1_send_challenge env keyring a
         | None \<Rightarrow>
             (case ae_new_keyring env (au_asked a) (Some (au_desired_identity a)) (au_context a) of
                NO_MEMORY \<Rightarrow> Some (False, asked a)
              | OTHER_ERROR \<Rightarrow> send_rejected (asked a)
              | Got keyring \<Rightarrow> sha1_send_challenge env keyring (asked (a\<lparr>au_keyring := Some keyring\<rparr>))))"

definition sha1_identify :: "auth_env \<Rightarrow> bytes \<Rightarrow> auth_op" where
  "sha1_identify env data a =
     (let (ok, a) = add_from_user env data a in
      if \<not> ok then send_rejected a else and_then (allocs 2) (sha1_load_keyring env) a)"

definition sha1_handle_first_client_response :: "auth_env \<Rightarrow> bytes \<Rightarrow> auth_op" where
  "sha1_handle_first_client_response env data a =
     (let a = a\<lparr>au_challenge := []\<rparr> in
      if data \<noteq> [] then
        (if au_identity a \<noteq> [] then send_rejected a
         else and_then (copy_identity data) (sha1_identify env data) a)
      else sha1_identify env data a)"

text \<open>Two words: the challenge of the client and the hash. The blank test and the skipping may stop.\<close>

definition sha1_handle_second_client_response :: "auth_env \<Rightarrow> bytes \<Rightarrow> auth_op" where
  "sha1_handle_second_client_response env data a =
     (case string_find_blank data 0 of
        None \<Rightarrow> None
      | Some (False, _) \<Rightarrow> send_rejected a
      | Some (True, i) \<Rightarrow>
          and_then (allocs 3) (\<lambda>a.
            case string_skip_blank data i of
              None \<Rightarrow> None
            | Some j \<Rightarrow>
                and_then (allocs 1) (\<lambda>a.
                  let client_challenge = take i data; client_hash = drop j data in
                  if client_challenge = [] \<or> client_hash = [] then send_rejected a
                  else and_then (allocs 1)
                    (sha1_compute_hash env (au_cookie_id a) (au_challenge a) client_challenge (\<lambda>correct_hash a.
                      if correct_hash = [] then send_rejected a
                      else if \<not> string_equal client_hash correct_hash then send_rejected a
                      else and_then authorize_desired
                             (and_then (authorize_credential UNIX_PROCESS_ID) send_ok) a)) a) a) a)"

definition handle_server_data_cookie_sha1_mech :: "auth_env \<Rightarrow> bytes \<Rightarrow> auth_op" where
  "handle_server_data_cookie_sha1_mech env data a =
     (if au_cookie_id a < 0 then sha1_handle_first_client_response env data a
      else sha1_handle_second_client_response env data a)"

text \<open>
  The client reads the context, the number of the cookie and the challenge of the server, and answers
  with its own challenge and the hash. A number that does not fit in an \<^verbatim>\<open>int\<close> is truncated.
\<close>

definition to_int32 :: "int \<Rightarrow> int" where
  "to_int32 v = (v + 2 ^ 31) mod 2 ^ 32 - 2 ^ 31"

definition sha1_respond :: "auth_env \<Rightarrow> int \<Rightarrow> bytes \<Rightarrow> auth_op" where
  "sha1_respond env cookie_id server_challenge =
     and_then (allocs 1) (\<lambda>a.
       case ae_random_bytes env (au_asked a) N_CHALLENGE_BYTES of
         NO_MEMORY \<Rightarrow> Some (False, asked a)
       | OTHER_ERROR \<Rightarrow> send_error ''Failed to generate challenge'' (asked a)
       | Got tmp \<Rightarrow>
           (let client_challenge = hex_of tmp in
            and_then (allocs 3)
              (sha1_compute_hash env (to_int32 cookie_id) server_challenge client_challenge (\<lambda>correct_hash.
                if correct_hash = [] then send_error ''Don't have the requested cookie ID''
                else and_then (allocs 3) (send_data (client_challenge @ bytes '' '' @ correct_hash)))) (asked a)))"

definition sha1_open_keyring :: "auth_env \<Rightarrow> bytes \<Rightarrow> auth_op \<Rightarrow> auth_op" where
  "sha1_open_keyring env context use a =
     (case au_keyring a of
        Some _ \<Rightarrow> use a
      | None \<Rightarrow>
          (case ae_new_keyring env (au_asked a) None context of
             NO_MEMORY \<Rightarrow> Some (False, asked a)
           | OTHER_ERROR \<Rightarrow> send_error ''Could not load cookie file'' (asked a)
           | Got keyring \<Rightarrow> use (asked (a\<lparr>au_keyring := Some keyring\<rparr>))))"

definition sha1_check_challenge :: "auth_env \<Rightarrow> bytes \<Rightarrow> bytes \<Rightarrow> bytes \<Rightarrow> auth_op" where
  "sha1_check_challenge env context cookie_id_str server_challenge =
     (if \<not> keyring_validate_context context then send_error ''Server sent invalid cookie context''
      else case string_parse_int cookie_id_str of
             None \<Rightarrow> send_error ''Could not parse cookie ID as an integer''
           | Some val \<Rightarrow>
               if server_challenge = [] then send_error ''Empty server challenge string''
               else sha1_open_keyring env context (sha1_respond env val server_challenge))"

definition handle_client_data_cookie_sha1_mech :: "auth_env \<Rightarrow> bytes \<Rightarrow> auth_op" where
  "handle_client_data_cookie_sha1_mech env data a =
     (case string_find_blank data 0 of
        None \<Rightarrow> None
      | Some (False, _) \<Rightarrow> send_error ''Server did not send context/ID/challenge properly'' a
      | Some (True, i) \<Rightarrow>
          and_then (allocs 2) (\<lambda>a.
            case string_skip_blank data i of
              None \<Rightarrow> None
            | Some k \<Rightarrow>
                (case string_find_blank data k of
                   None \<Rightarrow> None
                 | Some (False, _) \<Rightarrow> send_error ''Server did not send context/ID/challenge properly'' a
                 | Some (True, j) \<Rightarrow>
                     and_then (allocs 3) (\<lambda>a.
                       case string_skip_blank data j of
                         None \<Rightarrow> None
                       | Some l \<Rightarrow>
                           and_then (allocs 1)
                             (sha1_check_challenge env (take i data) (substring data k (j - k)) (drop l data)) a) a)) a)"

section \<open>Commands\<close>

fun server_data_func :: "auth_env \<Rightarrow> mechanism \<Rightarrow> bytes \<Rightarrow> auth_op" where
  "server_data_func env EXTERNAL data = handle_server_data_external_mech env data"
| "server_data_func env DBUS_COOKIE_SHA1 data = handle_server_data_cookie_sha1_mech env data"
| "server_data_func env ANONYMOUS data = handle_server_data_anonymous_mech data"

fun client_data_func :: "auth_env \<Rightarrow> mechanism \<Rightarrow> bytes \<Rightarrow> auth_op" where
  "client_data_func env EXTERNAL data = done_with id"
| "client_data_func env DBUS_COOKIE_SHA1 data = handle_client_data_cookie_sha1_mech env data"
| "client_data_func env ANONYMOUS data = done_with id"

definition process_data :: "bytes \<Rightarrow> (bytes \<Rightarrow> auth_op) \<Rightarrow> auth_op" where
  "process_data args data_func =
     and_then (allocs 2) (\<lambda>a.
       let (decoded, e) = unhex args in
       if length args \<noteq> e then send_error ''Invalid hex encoding'' a else data_func decoded a)"

definition process_ok :: "bytes \<Rightarrow> auth_op" where
  "process_ok args_from_ok a =
     (if au_guid_from_server a \<noteq> [] then None
      else and_then (allocs 1) (\<lambda>a.
        let end_of_hex = snd (unhex args_from_ok) in
        if end_of_hex \<noteq> length args_from_ok \<or> end_of_hex = 0
        then Some (True, goto_state NEED_DISCONNECT a)
        else and_then (allocs 1) (\<lambda>a.
          let a = a\<lparr>au_guid_from_server := args_from_ok\<rparr> in
          if au_unix_fd_possible a then send_negotiate_unix_fd a else send_begin a) a) a)"

text \<open>On the path \<^verbatim>\<open>failed\<close> the mechanism is dropped.\<close>

definition or_failed :: "auth_op \<Rightarrow> auth_op" where
  "or_failed f a =
     (case f a of None \<Rightarrow> None | Some (ok, a) \<Rightarrow> Some (ok, if ok then a else a\<lparr>au_mech := None\<rparr>))"

definition handle_auth :: "auth_env \<Rightarrow> bytes \<Rightarrow> auth_op" where
  "handle_auth env args a =
     (if args = [] then send_rejected a
      else case string_find_blank args 0 of
             None \<Rightarrow> None
           | Some (_, i) \<Rightarrow>
               and_then (allocs 2) (or_failed (and_then (allocs 1) (\<lambda>a.
                 case string_skip_blank args i of
                   None \<Rightarrow> None
                 | Some j \<Rightarrow>
                     and_then (allocs 1) (\<lambda>a.
                       let m = find_mech (take i args) (au_allowed_mechs a); a = a\<lparr>au_mech := m\<rparr> in
                       case m of
                         Some mech \<Rightarrow> process_data (drop j args) (server_data_func env mech) a
                       | None \<Rightarrow> send_rejected a) a))) a)"

fun handle_server_state_waiting_for_auth :: "auth_env \<Rightarrow> auth_command \<Rightarrow> bytes \<Rightarrow> auth_op" where
  "handle_server_state_waiting_for_auth env COMMAND_AUTH args = handle_auth env args"
| "handle_server_state_waiting_for_auth env COMMAND_CANCEL args = send_error ''Not currently in an auth conversation''"
| "handle_server_state_waiting_for_auth env COMMAND_DATA args = send_error ''Not currently in an auth conversation''"
| "handle_server_state_waiting_for_auth env COMMAND_BEGIN args = done_with (goto_state NEED_DISCONNECT)"
| "handle_server_state_waiting_for_auth env COMMAND_ERROR args = send_rejected"
| "handle_server_state_waiting_for_auth env COMMAND_NEGOTIATE_UNIX_FD args = send_error ''Need to authenticate first''"
| "handle_server_state_waiting_for_auth env _ args = send_error ''Unknown command''"

fun handle_server_state_waiting_for_data :: "auth_env \<Rightarrow> auth_command \<Rightarrow> bytes \<Rightarrow> auth_op" where
  "handle_server_state_waiting_for_data env COMMAND_AUTH args = send_error ''Sent AUTH while another AUTH in progress''"
| "handle_server_state_waiting_for_data env COMMAND_CANCEL args = send_rejected"
| "handle_server_state_waiting_for_data env COMMAND_ERROR args = send_rejected"
| "handle_server_state_waiting_for_data env COMMAND_DATA args =
     (\<lambda>a. case au_mech a of None \<Rightarrow> None | Some mech \<Rightarrow> process_data args (server_data_func env mech) a)"
| "handle_server_state_waiting_for_data env COMMAND_BEGIN args = done_with (goto_state NEED_DISCONNECT)"
| "handle_server_state_waiting_for_data env COMMAND_NEGOTIATE_UNIX_FD args = send_error ''Need to authenticate first''"
| "handle_server_state_waiting_for_data env _ args = send_error ''Unknown command''"

fun handle_server_state_waiting_for_begin :: "auth_command \<Rightarrow> auth_op" where
  "handle_server_state_waiting_for_begin COMMAND_AUTH = send_error ''Sent AUTH while expecting BEGIN''"
| "handle_server_state_waiting_for_begin COMMAND_DATA = send_error ''Sent DATA while expecting BEGIN''"
| "handle_server_state_waiting_for_begin COMMAND_BEGIN = done_with (goto_state AUTHENTICATED)"
| "handle_server_state_waiting_for_begin COMMAND_NEGOTIATE_UNIX_FD =
     (\<lambda>a. if au_unix_fd_possible a then send_agree_unix_fd a
          else send_error ''Unix FD passing not supported, not authenticated or otherwise not possible'' a)"
| "handle_server_state_waiting_for_begin COMMAND_CANCEL = send_rejected"
| "handle_server_state_waiting_for_begin COMMAND_ERROR = send_rejected"
| "handle_server_state_waiting_for_begin _ = send_error ''Unknown command''"

text \<open>The next word from position \<open>start\<close> on, and the position after it.\<close>

definition get_word :: "bytes \<Rightarrow> nat \<Rightarrow> mem \<Rightarrow> (bool \<times> nat \<times> bytes \<times> mem) option" where
  "get_word str start m =
     (case string_skip_blank str start of
        None \<Rightarrow> None
      | Some start \<Rightarrow>
          (case string_find_blank str start of
             None \<Rightarrow> None
           | Some (_, i) \<Rightarrow>
               if i > start then
                 (let (ok, m) = alloc m in
                  if \<not> ok then Some (False, start, [], m) else Some (True, i, substring str start (i - start), m))
               else Some (True, start, [], m)))"

lemma skip_loop_le: "skip_loop P cs \<le> length cs"
  by (induction cs) auto

lemma find_blank_le: "snd (find_blank_loop cs) \<le> length cs"
  by (induction cs) (auto split: prod.splits)

lemma get_word_progress:
  assumes "get_word str start m = Some (True, e, w, m')" "start < length str"
  shows "start < e"
proof -
  obtain k where k: "string_skip_blank str start = Some k"
    using assms(1) by (auto simp: get_word_def split: option.splits)
  then have le: "start \<le> k" "k \<le> length str"
    using skip_loop_le [of IS_ASCII_BLANK "drop start str"] assms(2)
    by (auto simp: string_skip_blank_def check_def Let_def split: if_splits)
  show ?thesis
  proof (cases "k = length str")
    case True
    then have "string_find_blank str k = Some (False, k)"
      by (simp add: string_find_blank_def check_def)
    with k True assms show ?thesis by (simp add: get_word_def)
  next
    case False
    then have "\<not> IS_ASCII_WHITE (byte_at str k)" "k < length str"
      using k le by (auto simp: string_skip_blank_def check_def Let_def split: if_splits)
    moreover from this have "drop k str = byte_at str k # drop (Suc k) str"
      by (simp add: byte_at_def Cons_nth_drop_Suc)
    moreover obtain b n where "find_blank_loop (drop (Suc k) str) = (b, n)" by fastforce
    ultimately have "string_find_blank str k = Some (b, k + Suc n)"
      by (simp add: string_find_blank_def check_def IS_ASCII_WHITE_def)
    with k le assms(1) show ?thesis
      by (auto simp: get_word_def split: prod.splits if_splits)
  qed
qed

text \<open>The loop of \<^verbatim>\<open>record_mechanisms\<close>; on \<^verbatim>\<open>nomem\<close> the list is cleared.\<close>

function record_loop ::
    "bytes list option \<Rightarrow> bytes \<Rightarrow> nat \<Rightarrow> mechanism list \<Rightarrow> mem \<Rightarrow> (bool \<times> mechanism list \<times> mem) option" where
  "record_loop allowed args start to_try m =
     (if start < length args then
        (case alloc m of
           (False, m) \<Rightarrow> Some (False, [], m)
         | (True, m) \<Rightarrow>
             (case get_word args start m of
                None \<Rightarrow> None
              | Some (False, _, _, m) \<Rightarrow> Some (False, [], m)
              | Some (True, start, word, m) \<Rightarrow>
                  (case find_mech word allowed of
                     None \<Rightarrow> record_loop allowed args start to_try m
                   | Some mech \<Rightarrow>
                       if mech \<noteq> hd all_mechanisms then
                         (case alloc m of
                            (False, m) \<Rightarrow> Some (False, [], m)
                          | (True, m) \<Rightarrow> record_loop allowed args start (to_try @ [mech]) m)
                       else record_loop allowed args start to_try m)))
      else Some (True, to_try, m))"
  by pat_completeness auto
termination
  by (relation "measure (\<lambda>(_, args, start, _). length args - start)")
    (auto dest!: get_word_progress)

declare record_loop.simps [simp del]

definition record_mechanisms :: "bytes \<Rightarrow> auth_op" where
  "record_mechanisms args a =
     (if au_already_got_mechanisms a then Some (True, a)
      else case record_loop (au_allowed_mechs a) args 0 (au_mechs_to_try a) (au_mem a) of
             None \<Rightarrow> None
           | Some (ok, to_try, m) \<Rightarrow>
               (let a = a\<lparr>au_mechs_to_try := to_try, au_mem := m\<rparr> in
                if ok then Some (True, a\<lparr>au_already_got_mechanisms := True\<rparr>) else Some (False, a)))"

definition try_next_mech :: "auth_env \<Rightarrow> auth_op" where
  "try_next_mech env a =
     (case au_mechs_to_try a of
        mech # _ \<Rightarrow>
          and_then (send_auth env mech) (done_with (\<lambda>a. a\<lparr>au_mechs_to_try := tl (au_mechs_to_try a)\<rparr>)) a
      | [] \<Rightarrow> Some (True, goto_state NEED_DISCONNECT a))"

definition process_rejected :: "auth_env \<Rightarrow> bytes \<Rightarrow> auth_op" where
  "process_rejected env args a =
     (if \<not> au_already_got_mechanisms a then and_then (record_mechanisms args) (try_next_mech env) a
      else try_next_mech env a)"

fun handle_client_state_waiting_for_data :: "auth_env \<Rightarrow> auth_command \<Rightarrow> bytes \<Rightarrow> auth_op" where
  "handle_client_state_waiting_for_data env command args a =
     (case au_mech a of
        None \<Rightarrow> None
      | Some mech \<Rightarrow>
          (case command of
             COMMAND_DATA \<Rightarrow> process_data args (client_data_func env mech) a
           | COMMAND_REJECTED \<Rightarrow> process_rejected env args a
           | COMMAND_OK \<Rightarrow> process_ok args a
           | COMMAND_ERROR \<Rightarrow> send_cancel a
           | _ \<Rightarrow> send_error ''Unknown command'' a))"

fun handle_client_state_waiting_for_ok :: "auth_env \<Rightarrow> auth_command \<Rightarrow> bytes \<Rightarrow> auth_op" where
  "handle_client_state_waiting_for_ok env COMMAND_REJECTED args = process_rejected env args"
| "handle_client_state_waiting_for_ok env COMMAND_OK args = process_ok args"
| "handle_client_state_waiting_for_ok env COMMAND_DATA args = send_cancel"
| "handle_client_state_waiting_for_ok env COMMAND_ERROR args = send_cancel"
| "handle_client_state_waiting_for_ok env _ args = send_error ''Unknown command''"

fun handle_client_state_waiting_for_reject :: "auth_env \<Rightarrow> auth_command \<Rightarrow> bytes \<Rightarrow> auth_op" where
  "handle_client_state_waiting_for_reject env COMMAND_REJECTED args = process_rejected env args"
| "handle_client_state_waiting_for_reject env _ args = done_with (goto_state NEED_DISCONNECT)"

fun handle_client_state_waiting_for_agree_unix_fd :: "auth_command \<Rightarrow> auth_op" where
  "handle_client_state_waiting_for_agree_unix_fd COMMAND_AGREE_UNIX_FD =
     (\<lambda>a. if \<not> au_unix_fd_possible a then None else send_begin (a\<lparr>au_unix_fd_negotiated := True\<rparr>))"
| "handle_client_state_waiting_for_agree_unix_fd COMMAND_ERROR =
     (\<lambda>a. if \<not> au_unix_fd_possible a then None else send_begin (a\<lparr>au_unix_fd_negotiated := False\<rparr>))"
| "handle_client_state_waiting_for_agree_unix_fd _ = send_error ''Unknown command''"

section \<open>Lines\<close>

fun lookup_command_loop :: "(bytes \<times> auth_command) list \<Rightarrow> bytes \<Rightarrow> auth_command" where
  "lookup_command_loop [] command = COMMAND_UNKNOWN"
| "lookup_command_loop ((name, c) # ncs) command =
     (if string_equal_c_str command name then c else lookup_command_loop ncs command)"

definition auth_command_names :: "(bytes \<times> auth_command) list" where
  "auth_command_names =
     [(bytes ''AUTH'', COMMAND_AUTH), (bytes ''CANCEL'', COMMAND_CANCEL), (bytes ''DATA'', COMMAND_DATA),
      (bytes ''BEGIN'', COMMAND_BEGIN), (bytes ''REJECTED'', COMMAND_REJECTED), (bytes ''OK'', COMMAND_OK),
      (bytes ''ERROR'', COMMAND_ERROR), (bytes ''NEGOTIATE_UNIX_FD'', COMMAND_NEGOTIATE_UNIX_FD),
      (bytes ''AGREE_UNIX_FD'', COMMAND_AGREE_UNIX_FD)]"

definition lookup_command_from_name :: "bytes \<Rightarrow> auth_command" where
  "lookup_command_from_name command = lookup_command_loop auth_command_names command"

text \<open>The handler of a state; the others have none.\<close>

fun state_handler :: "auth_env \<Rightarrow> auth_state \<Rightarrow> (auth_command \<Rightarrow> bytes \<Rightarrow> auth_op) option" where
  "state_handler env SERVER_WAITING_FOR_AUTH = Some (handle_server_state_waiting_for_auth env)"
| "state_handler env SERVER_WAITING_FOR_DATA = Some (handle_server_state_waiting_for_data env)"
| "state_handler env SERVER_WAITING_FOR_BEGIN = Some (\<lambda>c args. handle_server_state_waiting_for_begin c)"
| "state_handler env CLIENT_NEED_SEND_AUTH = None"
| "state_handler env CLIENT_WAITING_FOR_DATA = Some (handle_client_state_waiting_for_data env)"
| "state_handler env CLIENT_WAITING_FOR_OK = Some (handle_client_state_waiting_for_ok env)"
| "state_handler env CLIENT_WAITING_FOR_REJECT = Some (handle_client_state_waiting_for_reject env)"
| "state_handler env CLIENT_WAITING_FOR_AGREE_UNIX_FD = Some (\<lambda>c args. handle_client_state_waiting_for_agree_unix_fd c)"
| "state_handler env AUTHENTICATED = None"
| "state_handler env NEED_DISCONNECT = None"

definition in_end_state :: "auth_env \<Rightarrow> auth \<Rightarrow> bool" where
  "in_end_state env a = (case state_handler env (au_state a) of None \<Rightarrow> True | Some _ \<Rightarrow> False)"

text \<open>A whole line: the command word, blanks, the arguments.\<close>

definition process_line :: "auth_env \<Rightarrow> bytes \<Rightarrow> auth_op" where
  "process_line env line a =
     (if \<not> validate_ascii line 0 (length line) then send_error ''Command contained non-ASCII'' a
      else case string_find_blank line 0 of
             None \<Rightarrow> None
           | Some (_, i) \<Rightarrow>
               (case string_skip_blank line i of
                  None \<Rightarrow> None
                | Some j \<Rightarrow>
                    (let line = (if j > i then take i line @ drop j line else line) in
                     and_then (allocs 1) (\<lambda>a.
                       let args = drop i line; line = take i line in
                       case state_handler env (au_state a) of
                         None \<Rightarrow> None
                       | Some handler \<Rightarrow> handler (lookup_command_from_name line) args a) a)))"

text \<open>The answer is whether to try the next line.\<close>

definition process_command :: "auth_env \<Rightarrow> conversation \<Rightarrow> (bool \<times> conversation) option" where
  "process_command env c =
     (case string_find (cv_incoming c) 0 [CR, LF] of
        None \<Rightarrow> None
      | Some (False, _) \<Rightarrow> Some (False, c)
      | Some (True, eol) \<Rightarrow>
          (case and_then (allocs 3) (process_line env (take eol (cv_incoming c))) (cv_auth c) of
             None \<Rightarrow> None
           | Some (False, a) \<Rightarrow> Some (False, c\<lparr>cv_auth := a\<lparr>au_needed_memory := True\<rparr>\<rparr>)
           | Some (True, a) \<Rightarrow>
               Some (True, c\<lparr>cv_auth := a\<lparr>au_needed_memory := False\<rparr>,
                 cv_incoming := drop 2 (drop eol (cv_incoming c))\<rparr>)))"

lemma process_command_shorter:
  "process_command env c = Some (True, c') \<Longrightarrow> length (cv_incoming c') < length (cv_incoming c)"
  by (cases "cv_incoming c")
    (auto simp: process_command_def string_find_def string_find_to_def check_def substring_def split: option.splits bool.splits prod.splits)

definition MAX_BUFFER :: nat where "MAX_BUFFER = 16 * 1024"

function work_loop :: "auth_env \<Rightarrow> conversation \<Rightarrow> conversation option" where
  "work_loop env c =
     (if in_end_state env (cv_auth c) then Some c
      else if length (cv_incoming c) > MAX_BUFFER \<or> length (au_outgoing (cv_auth c)) > MAX_BUFFER
      then Some (c\<lparr>cv_auth := goto_state NEED_DISCONNECT (cv_auth c)\<rparr>)
      else case process_command env c of
             None \<Rightarrow> None
           | Some (again, c) \<Rightarrow> if again then work_loop env c else Some c)"
  by pat_completeness auto
termination by (relation "measure (\<lambda>(_, c). length (cv_incoming c))") (auto dest!: process_command_shorter)

declare work_loop.simps [simp del]

datatype work_state = WAITING_FOR_INPUT | WAITING_FOR_MEMORY | HAVE_BYTES_TO_SEND | WORK_NEED_DISCONNECT | WORK_AUTHENTICATED

definition auth_do_work :: "auth_env \<Rightarrow> conversation \<Rightarrow> (work_state \<times> conversation) option" where
  "auth_do_work env c =
     (case work_loop env (c\<lparr>cv_auth := (cv_auth c)\<lparr>au_needed_memory := False\<rparr>\<rparr>) of
        None \<Rightarrow> None
      | Some c \<Rightarrow>
          Some (if au_needed_memory (cv_auth c) then WAITING_FOR_MEMORY
                else if au_outgoing (cv_auth c) \<noteq> [] then HAVE_BYTES_TO_SEND
                else if au_state (cv_auth c) = NEED_DISCONNECT then WORK_NEED_DISCONNECT
                else if au_state (cv_auth c) = AUTHENTICATED then WORK_AUTHENTICATED
                else WAITING_FOR_INPUT, c))"

section \<open>Objects\<close>

text \<open>
  A new object has the side and the state that its two callers set; the structure, five strings, the
  default context and three sets of credentials are allocated.
\<close>

definition auth_new :: "auth_side \<Rightarrow> auth_state \<Rightarrow> bytes \<Rightarrow> mem \<Rightarrow> auth option \<times> mem" where
  "auth_new side state guid m =
     (let (ok, m) = mem_allocs 10 m in
      if \<not> ok then (None, m)
      else (Some \<lparr>au_side = side, au_outgoing = [], au_state = state, au_mech = None, au_identity = [],
              au_credentials = credentials_empty, au_authorized_identity = credentials_empty,
              au_desired_identity = credentials_empty, au_context = bytes ''org_freedesktop_general'',
              au_keyring = None, au_cookie_id = - 1, au_challenge = [], au_allowed_mechs = None,
              au_needed_memory = False, au_already_got_mechanisms = False,
              au_already_asked_for_initial_response = False, au_unix_fd_possible = False,
              au_unix_fd_negotiated = False, au_mechs_to_try = [], au_guid_from_server = [],
              au_failures = 0, au_max_failures = (if side = AUTH_SERVER then 6 else 0), au_guid = guid,
              au_mem = m, au_asked = 0\<rparr>, m))"

definition auth_server_new :: "bytes \<Rightarrow> mem \<Rightarrow> conversation option" where
  "auth_server_new guid m =
     (let (ok, m) = mem_allocs 2 m in
      if \<not> ok then None
      else case auth_new AUTH_SERVER SERVER_WAITING_FOR_AUTH guid m of
             (None, _) \<Rightarrow> None
           | (Some a, _) \<Rightarrow> Some \<lparr>cv_auth = a, cv_incoming = [], cv_buffer_outstanding = False\<rparr>)"

text \<open>The outer option is a failed assertion, the inner one a lack of memory.\<close>

definition auth_client_new :: "auth_env \<Rightarrow> mem \<Rightarrow> conversation option option" where
  "auth_client_new env m =
     (let (ok, m) = mem_allocs 1 m in
      if \<not> ok then Some None
      else case auth_new AUTH_CLIENT CLIENT_NEED_SEND_AUTH [] m of
             (None, _) \<Rightarrow> Some None
           | (Some a, _) \<Rightarrow>
               (case send_auth env (hd all_mechanisms) a of
                  None \<Rightarrow> None
                | Some (False, _) \<Rightarrow> Some None
                | Some (True, a) \<Rightarrow> Some (Some \<lparr>cv_auth = a, cv_incoming = [], cv_buffer_outstanding = False\<rparr>)))"

definition auth_set_mechanisms :: "bytes list option \<Rightarrow> auth_op" where
  "auth_set_mechanisms mechanisms =
     (case mechanisms of
        None \<Rightarrow> done_with (\<lambda>a. a\<lparr>au_allowed_mechs := None\<rparr>)
      | Some l \<Rightarrow> and_then (allocs (1 + length l)) (done_with (\<lambda>a. a\<lparr>au_allowed_mechs := Some l\<rparr>)))"

definition auth_set_credentials :: "credentials \<Rightarrow> auth_op" where
  "auth_set_credentials c a =
     (let (ok, c, m) = credentials_add_credentials (credentials_clear (au_credentials a)) c (au_mem a) in
      Some (ok, a\<lparr>au_credentials := c, au_mem := m\<rparr>))"

text \<open>
  The context replaces as many bytes of the old one as it has itself; the replacing asserts that the old one
  has that many.
\<close>

definition auth_set_context :: "bytes \<Rightarrow> auth_op" where
  "auth_set_context context a =
     (if length context > length (au_context a) then None
      else and_then (allocs 1) (done_with (\<lambda>a. a\<lparr>au_context := context @ drop (length context) (au_context a)\<rparr>)) a)"

definition auth_set_unix_fd_possible :: "bool \<Rightarrow> auth \<Rightarrow> auth" where
  "auth_set_unix_fd_possible b a = a\<lparr>au_unix_fd_possible := b\<rparr>"

definition auth_get_unix_fd_negotiated :: "auth \<Rightarrow> bool" where
  "auth_get_unix_fd_negotiated a = au_unix_fd_negotiated a"

definition auth_get_identity :: "auth \<Rightarrow> credentials option" where
  "auth_get_identity a =
     (if au_state a = AUTHENTICATED then Some (au_authorized_identity a)
      else if credentials_are_empty (au_authorized_identity a) then Some (au_authorized_identity a) else None)"

definition auth_get_guid_from_server :: "auth \<Rightarrow> bytes option option" where
  "auth_get_guid_from_server a =
     (if au_side a \<noteq> AUTH_CLIENT then None
      else Some (if au_state a = AUTHENTICATED then Some (au_guid_from_server a) else None))"

text \<open>The buffers.\<close>

definition auth_get_bytes_to_send :: "conversation \<Rightarrow> bytes option" where
  "auth_get_bytes_to_send c = (if au_outgoing (cv_auth c) = [] then None else Some (au_outgoing (cv_auth c)))"

definition auth_bytes_sent :: "nat \<Rightarrow> conversation \<Rightarrow> conversation option" where
  "auth_bytes_sent n c =
     (if n > length (au_outgoing (cv_auth c)) then None
      else Some (c\<lparr>cv_auth := (cv_auth c)\<lparr>au_outgoing := drop n (au_outgoing (cv_auth c))\<rparr>\<rparr>))"

definition auth_get_buffer :: "conversation \<Rightarrow> (bytes \<times> conversation) option" where
  "auth_get_buffer c =
     (if cv_buffer_outstanding c then None else Some (cv_incoming c, c\<lparr>cv_buffer_outstanding := True\<rparr>))"

definition auth_return_buffer :: "bytes \<Rightarrow> conversation \<Rightarrow> conversation option" where
  "auth_return_buffer buffer c =
     (if \<not> cv_buffer_outstanding c then None
      else Some (c\<lparr>cv_incoming := buffer, cv_buffer_outstanding := False\<rparr>))"

definition auth_get_unused_bytes :: "auth_env \<Rightarrow> conversation \<Rightarrow> bytes option" where
  "auth_get_unused_bytes env c = (if \<not> in_end_state env (cv_auth c) then None else Some (cv_incoming c))"

definition auth_delete_unused_bytes :: "auth_env \<Rightarrow> conversation \<Rightarrow> conversation" where
  "auth_delete_unused_bytes env c = (if \<not> in_end_state env (cv_auth c) then c else c\<lparr>cv_incoming := []\<rparr>)"

text \<open>No mechanism has a function to encode or decode the messages that follow.\<close>

definition has_encode_func :: "mechanism \<Rightarrow> bool" where "has_encode_func m = False"
definition has_decode_func :: "mechanism \<Rightarrow> bool" where "has_decode_func m = False"

definition auth_needs_encoding :: "auth \<Rightarrow> bool" where
  "auth_needs_encoding a =
     (if au_state a \<noteq> AUTHENTICATED then False
      else case au_mech a of Some m \<Rightarrow> has_encode_func m | None \<Rightarrow> False)"

definition auth_needs_decoding :: "auth \<Rightarrow> bool" where
  "auth_needs_decoding a =
     (if au_state a \<noteq> AUTHENTICATED then False
      else case au_mech a of Some m \<Rightarrow> has_decode_func m | None \<Rightarrow> False)"

end
