(* ===== verification/AuthServer.thy ===== *)
theory AuthServer
  imports Auth
begin

text \<open>
  Safety of the server side of the authentication. Postconditions of operations are propagated
  backwards through their definitions (\<open>wp\<close>); every handler keeps an invariant that ties the
  authorized identity to the credentials of the socket. The interface of the transport and the
  changes of the allocator are the events of a run.
\<close>

section \<open>Weakest preconditions\<close>

definition wp :: "(bool \<times> auth) option \<Rightarrow> (bool \<Rightarrow> auth \<Rightarrow> bool) \<Rightarrow> bool" where
  "wp r Q \<longleftrightarrow> (case r of None \<Rightarrow> True | Some (ok, a) \<Rightarrow> Q ok a)"

named_theorems wp_simps \<open>weakest preconditions of the constructs\<close>

lemma wp_basic [wp_simps]:
  "wp None Q" "wp (Some (ok, a)) Q \<longleftrightarrow> Q ok a"
  "wp (and_then f g a) Q \<longleftrightarrow> wp (f a) (\<lambda>ok a. if ok then wp (g a) Q else Q False a)"
  "wp (done_with u a) Q \<longleftrightarrow> Q True (u a)"
  "wp (if b then r else r') Q \<longleftrightarrow> (if b then wp r Q else wp r' Q)"
  "wp (or_failed f a) Q \<longleftrightarrow> wp (f a) (\<lambda>ok a. Q ok (if ok then a else a\<lparr>au_mech := None\<rparr>))"
  by (auto simp: wp_def and_then_def done_with_def or_failed_def split: option.splits)

lemma wpD: "wp r Q \<Longrightarrow> r = Some (ok, a) \<Longrightarrow> Q ok a"
  by (simp add: wp_def)

lemma wp_mono: "wp r P \<Longrightarrow> (\<And>ok a. P ok a \<Longrightarrow> Q ok a) \<Longrightarrow> wp r Q"
  by (auto simp: wp_def split: option.splits)

lemma wp_allocs: "(\<And>ok m. Q ok (a\<lparr>au_mem := m\<rparr>)) \<Longrightarrow> wp (allocs n a) Q"
  by (auto simp: wp_def allocs_def split: prod.splits)

lemma wp_append_outgoing:
  "(\<And>m. Q False (a\<lparr>au_mem := m\<rparr>)) \<Longrightarrow> (\<And>m. Q True (a\<lparr>au_mem := m, au_outgoing := au_outgoing a @ s\<rparr>)) \<Longrightarrow>
   wp (append_outgoing s a) Q"
  unfolding append_outgoing_def wp_simps by (rule wp_allocs) simp

section \<open>The invariant\<close>

text \<open>The text that is sent does not matter here.\<close>

declare bytes_Cons [simp del] mechanism_name.simps [simp del]

text \<open>
  The server allows the mechanisms \<open>l\<close> and knows the credentials \<open>C\<close> of the socket. A user of the
  authorized identity is the one of the socket.
\<close>

definition server_inv :: "bytes list \<Rightarrow> credentials \<Rightarrow> auth \<Rightarrow> bool" where
  "server_inv l C a \<longleftrightarrow>
     au_side a = AUTH_SERVER \<and> au_max_failures a = 6 \<and> au_allowed_mechs a = Some l \<and> au_credentials a = C \<and>
     mechanism_name DBUS_COOKIE_SHA1 \<notin> set l \<and>
     au_failures a \<le> 6 \<and> (au_state a \<noteq> NEED_DISCONNECT \<longrightarrow> au_failures a < 6) \<and>
     (\<forall>m. au_mech a = Some m \<longrightarrow> mechanism_name m \<in> set l) \<and>
     drawn_from credentials_empty C (au_authorized_identity a) \<and>
     au_state a \<in> {SERVER_WAITING_FOR_AUTH, SERVER_WAITING_FOR_DATA, SERVER_WAITING_FOR_BEGIN, AUTHENTICATED, NEED_DISCONNECT} \<and>
     (au_state a = SERVER_WAITING_FOR_DATA \<longrightarrow> au_mech a = Some EXTERNAL) \<and>
     (au_state a \<in> {SERVER_WAITING_FOR_BEGIN, AUTHENTICATED} \<longrightarrow>
        au_mech a \<noteq> None \<and>
        (au_mech a = Some EXTERNAL \<longrightarrow> \<not> credentials_are_anonymous (au_authorized_identity a)))"

text \<open>While a handler runs the state is not final; an operation that fails has not changed it.\<close>

abbreviation active :: "bytes list \<Rightarrow> credentials \<Rightarrow> auth \<Rightarrow> bool" where
  "active l C a \<equiv> server_inv l C a \<and> au_state a \<notin> {AUTHENTICATED, NEED_DISCONNECT}"

abbreviation handled :: "bytes list \<Rightarrow> credentials \<Rightarrow> auth_state \<Rightarrow> bool \<Rightarrow> auth \<Rightarrow> bool" where
  "handled l C s ok a \<equiv> server_inv l C a \<and> (\<not> ok \<longrightarrow> au_state a = s)"

lemma drawn_from_clear [simp]: "drawn_from credentials_empty C (credentials_clear c)"
  by (simp add: drawn_from_def credentials_clear_def credentials_empty_def)

text \<open>Changes the invariant does not see.\<close>

lemma server_inv_update [simp]:
  "server_inv l C (a\<lparr>au_mem := m\<rparr>) = server_inv l C a"
  "server_inv l C (a\<lparr>au_outgoing := s\<rparr>) = server_inv l C a"
  "server_inv l C (a\<lparr>au_identity := s\<rparr>) = server_inv l C a"
  "server_inv l C (a\<lparr>au_desired_identity := d\<rparr>) = server_inv l C a"
  "server_inv l C (a\<lparr>au_asked := n\<rparr>) = server_inv l C a"
  "server_inv l C (a\<lparr>au_needed_memory := b\<rparr>) = server_inv l C a"
  "server_inv l C (a\<lparr>au_already_asked_for_initial_response := b\<rparr>) = server_inv l C a"
  "server_inv l C (a\<lparr>au_unix_fd_negotiated := b\<rparr>) = server_inv l C a"
  by (simp_all add: server_inv_def)

section \<open>Sending\<close>

lemma send_error_wp:
  "server_inv l C a \<Longrightarrow> wp (send_error msg a) (\<lambda>ok a'. server_inv l C a' \<and> au_state a' = au_state a)"
  unfolding send_error_def by (rule wp_append_outgoing) simp_all

lemma shutdown_mech_simps [simp]:
  "au_side (shutdown_mech a) = au_side a" "au_state (shutdown_mech a) = au_state a" "au_mech (shutdown_mech a) = None"
  "au_max_failures (shutdown_mech a) = au_max_failures a" "au_failures (shutdown_mech a) = au_failures a"
  "au_allowed_mechs (shutdown_mech a) = au_allowed_mechs a" "au_credentials (shutdown_mech a) = au_credentials a"
  "au_authorized_identity (shutdown_mech a) = credentials_clear (au_authorized_identity a)"
  "au_outgoing (shutdown_mech a) = au_outgoing a" "au_guid (shutdown_mech a) = au_guid a" "au_mem (shutdown_mech a) = au_mem a"
  "au_unix_fd_possible (shutdown_mech a) = au_unix_fd_possible a" "au_identity (shutdown_mech a) = []"
  "au_guid_from_server (shutdown_mech a) = au_guid_from_server a"
  "au_unix_fd_negotiated (shutdown_mech a) = au_unix_fd_negotiated a"
  by (cases "au_mech a"; simp add: shutdown_mech_def Let_def; cases "the (au_mech a)"; simp)+

lemma send_rejected_wp: "active l C a \<Longrightarrow> wp (send_rejected a) (handled l C (au_state a))"
  unfolding send_rejected_def wp_simps Let_def
  by (rule wp_allocs) (auto simp: wp_simps server_inv_def goto_state_def)

lemma send_ok_wp:
  "server_inv l C a \<Longrightarrow> au_state a \<noteq> NEED_DISCONNECT \<Longrightarrow> au_mech a = Some m \<Longrightarrow>
   m = EXTERNAL \<longrightarrow> \<not> credentials_are_anonymous (au_authorized_identity a) \<Longrightarrow> wp (send_ok a) (handled l C (au_state a))"
  unfolding send_ok_def wp_simps by (rule wp_allocs) (auto simp: server_inv_def goto_state_def)

lemma send_agree_wp:
  "server_inv l C a \<Longrightarrow> au_state a = SERVER_WAITING_FOR_BEGIN \<Longrightarrow> wp (send_agree_unix_fd a) (handled l C (au_state a))"
  unfolding send_agree_unix_fd_def wp_simps
  by (cases "au_unix_fd_possible a", simp_all only: not_True_eq_False not_False_eq_True if_True if_False simp_thms)
    (rule wp_append_outgoing, auto simp: wp_simps(1) server_inv_def goto_state_def)

section \<open>Authorizing\<close>

text \<open>A credential that is no user leaves the user.\<close>

lemma add_other_credential:
  "credentials_add_credential c k other m = (ok, c', m') \<Longrightarrow> k \<noteq> UNIX_USER_ID \<Longrightarrow> k \<noteq> WINDOWS_SID \<Longrightarrow>
   cr_unix_uid c' = cr_unix_uid c \<and> cr_windows_sid c' = cr_windows_sid c"
  by (cases k) (auto simp: credentials_add_defs split: if_splits option.splits prod.splits)

lemma server_inv_authorized:
  "server_inv l C a \<Longrightarrow> drawn_from credentials_empty C c \<Longrightarrow>
   credentials_are_anonymous c \<longrightarrow> credentials_are_anonymous (au_authorized_identity a) \<Longrightarrow>
   server_inv l C (a\<lparr>au_authorized_identity := c, au_mem := m\<rparr>)"
  unfolding server_inv_def by (simp, blast)

lemma server_inv_authorized_early:
  "server_inv l C a \<Longrightarrow> drawn_from credentials_empty C c \<Longrightarrow> au_state a \<notin> {SERVER_WAITING_FOR_BEGIN, AUTHENTICATED} \<Longrightarrow>
   server_inv l C (a\<lparr>au_authorized_identity := c, au_mem := m\<rparr>)"
  unfolding server_inv_def by simp

lemma server_inv_drawn: "server_inv l C a \<Longrightarrow> drawn_from credentials_empty C (au_authorized_identity a)"
  by (simp add: server_inv_def)

lemma authorize_credential_wp:
  assumes "server_inv l C a" "k \<noteq> UNIX_USER_ID" "k \<noteq> WINDOWS_SID"
  shows "wp (authorize_credential k a) (\<lambda>ok a'. server_inv l C a' \<and> au_state a' = au_state a \<and> au_mech a' = au_mech a \<and>
    credentials_are_anonymous (au_authorized_identity a') = credentials_are_anonymous (au_authorized_identity a))"
proof -
  obtain ok c m where r: "credentials_add_credential (au_authorized_identity a) k (au_credentials a) (au_mem a) = (ok, c, m)"
    by (metis prod_cases3)
  note user = add_other_credential [OF r assms(2, 3)]
  have "drawn_from credentials_empty C c" using server_inv_drawn [OF assms(1)] user by (simp add: drawn_from_def)
  from server_inv_authorized [OF assms(1) this] user show ?thesis
    by (simp add: authorize_credential_def r wp_simps credentials_are_anonymous_def)
qed

lemma add_credentials_user:
  assumes "credentials_add_credentials c other m = (True, c', m')"
  shows "(cr_unix_uid other \<noteq> DBUS_UID_UNSET \<longrightarrow> cr_unix_uid c' = cr_unix_uid other) \<and>
    (cr_windows_sid other \<noteq> None \<longrightarrow> cr_windows_sid c' = cr_windows_sid other)"
  using assms unfolding credentials_add_credentials_def
  by (auto simp: credentials_add_defs split: if_splits option.splits prod.splits)

lemma authorize_desired_wp:
  assumes "server_inv l C a" "drawn_from credentials_empty C (au_desired_identity a)"
    "\<not> credentials_are_anonymous (au_desired_identity a)" "au_state a \<notin> {SERVER_WAITING_FOR_BEGIN, AUTHENTICATED}"
  shows "wp (authorize_desired a) (\<lambda>ok a'. server_inv l C a' \<and> au_state a' = au_state a \<and> au_mech a' = au_mech a \<and>
    (ok \<longrightarrow> \<not> credentials_are_anonymous (au_authorized_identity a')))"
proof -
  obtain ok c m where r: "credentials_add_credentials (au_authorized_identity a) (au_desired_identity a) (au_mem a) = (ok, c, m)"
    by (metis prod_cases3)
  then have "drawn_from (au_authorized_identity a) (au_desired_identity a) c"
    unfolding credentials_add_credentials_def by (rule add_credential_list_drawn)
  then have "drawn_from credentials_empty C c"
    using server_inv_drawn [OF assms(1)] assms(2) unfolding drawn_from_def by metis
  moreover have "\<not> credentials_are_anonymous c" if ok
    using add_credentials_user [of _ _ _ c] r that assms(3) by (auto simp: credentials_are_anonymous_def)
  ultimately show ?thesis using server_inv_authorized_early [OF assms(1) _ assms(4)]
    by (simp add: authorize_desired_def r wp_simps)
qed

section \<open>The mechanisms\<close>

text \<open>What a data function of the server may assume.\<close>

abbreviation trying :: "bytes list \<Rightarrow> credentials \<Rightarrow> mechanism \<Rightarrow> auth_state \<Rightarrow> auth \<Rightarrow> bool" where
  "trying l C m s a \<equiv> server_inv l C a \<and> au_mech a = Some m \<and> au_state a = s \<and>
     (s = SERVER_WAITING_FOR_AUTH \<or> s = SERVER_WAITING_FOR_DATA)"

lemma trying_active: "trying l C m s a \<Longrightarrow> active l C a"
  by auto

lemma superset_drawn:
  "credentials_are_superset C d = Some True \<Longrightarrow> drawn_from credentials_empty C d"
  by (auto simp: credentials_are_superset_def drawn_from_def credentials_empty_def split: if_splits)

text \<open>Composing: each step keeps what the next one needs; a failure ends the operation.\<close>

lemma wp_andI:
  "wp (f a) (\<lambda>ok a'. if ok then P a' else Q False a') \<Longrightarrow> (\<And>a'. P a' \<Longrightarrow> wp (g a') Q) \<Longrightarrow> wp (and_then f g a) Q"
  unfolding wp_simps by (erule wp_mono) simp

lemma wp_weaken: "wp r P \<Longrightarrow> (\<And>a. P True a \<Longrightarrow> Q True a) \<Longrightarrow> (\<And>a. P False a \<Longrightarrow> Q False a) \<Longrightarrow> wp r Q"
  by (erule wp_mono) (metis (full_types))

lemma authorize_wp:
  assumes "trying l C m s a" "\<not> credentials_are_anonymous (au_authorized_identity a)" "k \<noteq> UNIX_USER_ID" "k \<noteq> WINDOWS_SID"
    and g: "\<And>a. trying l C m s a \<Longrightarrow> \<not> credentials_are_anonymous (au_authorized_identity a) \<Longrightarrow> wp (g a) (handled l C s)"
  shows "wp (and_then (authorize_credential k) g a) (handled l C s)"
proof (rule wp_andI)
  show "wp (authorize_credential k a) (\<lambda>ok a'. if ok then trying l C m s a' \<and>
      \<not> credentials_are_anonymous (au_authorized_identity a') else handled l C s False a')"
    by (rule wp_weaken, rule authorize_credential_wp [of l C a k]) (use assms(1-4) in auto)
qed (use g in blast)

lemma external_authorize_wp:
  assumes "trying l C EXTERNAL s a"
  shows "wp (external_authorize a) (handled l C s)"
proof -
  have rejected: "wp (send_rejected a) (handled l C s)"
    using send_rejected_wp [OF trying_active [OF assms]] assms by simp
  have "wp (and_then authorize_desired (and_then (authorize_credential UNIX_PROCESS_ID)
      (and_then (authorize_credential ADT_AUDIT_DATA_ID) (and_then (authorize_credential LINUX_SECURITY_LABEL) send_ok))) a)
      (handled l C s)"
    if superset: "credentials_are_superset C (au_desired_identity a) = Some True"
      and user: "\<not> credentials_are_anonymous (au_desired_identity a)"
  proof (rule wp_andI)
    show "wp (authorize_desired a) (\<lambda>ok a'. if ok then trying l C EXTERNAL s a' \<and>
        \<not> credentials_are_anonymous (au_authorized_identity a') else handled l C s False a')"
      by (rule wp_weaken, rule authorize_desired_wp [of l C a, OF _ superset_drawn [OF superset] user]) (use assms in auto)
    fix b assume b: "trying l C EXTERNAL s b \<and> \<not> credentials_are_anonymous (au_authorized_identity b)"
    have ok: "wp (send_ok e) (handled l C s)"
      if "trying l C EXTERNAL s e" "\<not> credentials_are_anonymous (au_authorized_identity e)" for e
      using send_ok_wp [of l C e EXTERNAL] that by auto
    show "wp (and_then (authorize_credential UNIX_PROCESS_ID) (and_then (authorize_credential ADT_AUDIT_DATA_ID)
        (and_then (authorize_credential LINUX_SECURITY_LABEL) send_ok)) b) (handled l C s)"
      by (intro authorize_wp [where m = EXTERNAL] ok) (use b in simp_all)
  qed
  moreover have "au_credentials a = C" using assms by (simp add: server_inv_def)
  ultimately show ?thesis using rejected
    by (auto simp: external_authorize_def wp_simps(1) split: option.split bool.split)
qed

lemma desired_cleared [simp]:
  "trying l C m s (a\<lparr>au_desired_identity := d\<rparr>) = trying l C m s a"
  "trying l C m s (a\<lparr>au_mem := v\<rparr>) = trying l C m s a"
  "trying l C m s (asked a) = trying l C m s a"
  "trying l C m s (a\<lparr>au_identity := i\<rparr>) = trying l C m s a"
  by (simp_all add: asked_def)

lemma add_from_user_trying: "add_from_user env u a = (ok, a') \<Longrightarrow> trying l C m s a \<Longrightarrow> trying l C m s a'"
  by (auto simp: add_from_user_def credentials_add_unix_uid_def asked_def split: option.splits)

lemma rejected_wp: "trying l C m s a \<Longrightarrow> wp (send_rejected a) (handled l C s)"
  using send_rejected_wp [of l C a] by auto

lemma external_identify_wp:
  assumes "trying l C EXTERNAL s a"
  shows "wp (external_identify env a) (handled l C s)"
proof -
  let ?a = "a\<lparr>au_desired_identity := credentials_clear (au_desired_identity a)\<rparr>"
  have a: "trying l C EXTERNAL s ?a" using assms by simp
  show ?thesis
  proof (cases "au_identity a = []")
    case True
    obtain ok c m where r: "credentials_add_credentials (au_desired_identity ?a) (au_credentials ?a) (au_mem ?a) = (ok, c, m)"
      by (metis prod_cases3)
    have "trying l C EXTERNAL s (?a\<lparr>au_desired_identity := c, au_mem := m\<rparr>)" using a by simp
    from external_authorize_wp [OF this] this show ?thesis
      using True r by (simp add: external_identify_def Let_def wp_simps)
  next
    case False
    obtain ok b where r: "add_from_user env (au_identity a) ?a = (ok, b)" by fastforce
    from add_from_user_trying [OF r a] have b: "trying l C EXTERNAL s b" .
    from external_authorize_wp [OF b] rejected_wp [OF b] show ?thesis
      using False r by (simp add: external_identify_def Let_def wp_simps)
  qed
qed

lemma external_challenge_wp:
  assumes "trying l C EXTERNAL s a"
  shows "wp (external_challenge env a) (handled l C s)"
proof -
  have "wp (and_then (send_data []) (done_with (\<lambda>a. goto_state SERVER_WAITING_FOR_DATA
      (a\<lparr>au_already_asked_for_initial_response := True\<rparr>))) a) (handled l C s)"
    unfolding wp_simps send_data_def
    by (simp only: simp_thms if_True, rule wp_append_outgoing)
      (use assms in \<open>auto simp: goto_state_def server_inv_def\<close>)
  then show ?thesis using external_identify_wp [OF assms] by (simp add: external_challenge_def)
qed

lemma external_mech_wp:
  assumes "trying l C EXTERNAL s a"
  shows "wp (handle_server_data_external_mech env data a) (handled l C s)"
proof -
  have "wp (and_then (copy_identity data) (external_challenge env) a) (handled l C s)"
  proof (rule wp_andI)
    show "wp (copy_identity data a) (\<lambda>ok a'. if ok then trying l C EXTERNAL s a' else handled l C s False a')"
      unfolding copy_identity_def wp_simps by (rule wp_allocs) (use assms in auto)
  qed (rule external_challenge_wp)
  then show ?thesis
    using external_challenge_wp [OF assms] rejected_wp [OF assms] by (simp add: handle_server_data_external_mech_def)
qed

lemma anonymous_mech_wp:
  assumes "trying l C ANONYMOUS s a"
  shows "wp (handle_server_data_anonymous_mech data a) (handled l C s)"
proof -
  let ?a = "a\<lparr>au_desired_identity := credentials_clear (au_desired_identity a)\<rparr>"
  have "wp (and_then (authorize_credential UNIX_PROCESS_ID) send_ok ?a) (handled l C s)"
  proof (rule wp_andI)
    show "wp (authorize_credential UNIX_PROCESS_ID ?a) (\<lambda>ok a'. if ok then trying l C ANONYMOUS s a' else handled l C s False a')"
      by (rule wp_weaken, rule authorize_credential_wp [of l C ?a]) (use assms in auto)
    show "wp (send_ok b) (handled l C s)" if "trying l C ANONYMOUS s b" for b
      using send_ok_wp [of l C b ANONYMOUS] that by auto
  qed
  then show ?thesis using rejected_wp [OF assms] by (simp add: handle_server_data_anonymous_mech_def)
qed

section \<open>The handlers\<close>

lemma server_inv_no_cookie: "server_inv l C a \<Longrightarrow> au_mech a = Some m \<Longrightarrow> m \<noteq> DBUS_COOKIE_SHA1"
  by (auto simp: server_inv_def)

lemma server_data_wp:
  assumes "trying l C m s a"
  shows "wp (server_data_func env m data a) (handled l C s)"
proof (cases m)
  case EXTERNAL
  then show ?thesis using external_mech_wp [where l = l and C = C and s = s and a = a] assms by simp
next
  case DBUS_COOKIE_SHA1
  then show ?thesis using server_inv_no_cookie [of l C a m] assms by simp
next
  case ANONYMOUS
  then show ?thesis using anonymous_mech_wp [where l = l and C = C and s = s and a = a] assms by simp
qed

lemma process_data_wp:
  assumes "trying l C m s a"
  shows "wp (process_data args (server_data_func env m) a) (handled l C s)"
  unfolding process_data_def
proof (rule wp_andI)
  show "wp (allocs 2 a) (\<lambda>ok a'. if ok then trying l C m s a' else handled l C s False a')"
    by (rule wp_allocs) (use assms in auto)
  fix b assume b: "trying l C m s b"
  have "wp (send_error ''Invalid hex encoding'' b) (handled l C s)"
    by (rule wp_weaken, rule send_error_wp [of l C b]) (use b in auto)
  with server_data_wp [OF b] show "wp (let (decoded, e) = unhex args in
      if length args \<noteq> e then send_error ''Invalid hex encoding'' b else server_data_func env m decoded b) (handled l C s)"
    by (simp add: Let_def split: prod.split)
qed

lemma string_equal_c_str_iff: "string_equal_c_str a b \<longleftrightarrow> a = b"
  unfolding string_equal_c_str_def by (induction a b rule: equal_c_str_loop.induct) auto

lemma find_mech_allowed: "find_mech name (Some l) = Some m \<Longrightarrow> mechanism_name m \<in> set l"
proof -
  assume m: "find_mech name (Some l) = Some m"
  have loop: "find_mech_loop ms name = Some m \<Longrightarrow> name = mechanism_name m" for ms
    by (induction ms) (auto simp: string_equal_c_str_iff split: if_splits)
  have "name = mechanism_name m" "string_array_contains l name"
    using m loop by (auto simp: find_mech_def split: if_splits)
  moreover have "takeWhile (\<lambda>c. c \<noteq> 0) (mechanism_name m) = mechanism_name m"
    by (cases m) (simp_all add: mechanism_name.simps bytes_Cons)
  moreover have "string_array_contains l s \<Longrightarrow> takeWhile (\<lambda>c. c \<noteq> 0) s \<in> set l" for s
    by (induction l) (auto split: if_splits)
  ultimately show ?thesis by metis
qed

lemma set_mech_trying:
  "server_inv l C a \<Longrightarrow> au_state a = SERVER_WAITING_FOR_AUTH \<Longrightarrow> mechanism_name m \<in> set l \<Longrightarrow>
   trying l C m SERVER_WAITING_FOR_AUTH (a\<lparr>au_mech := Some m\<rparr>)"
  by (simp add: server_inv_def)

lemma drop_mech: "server_inv l C a \<Longrightarrow> au_state a = SERVER_WAITING_FOR_AUTH \<Longrightarrow> server_inv l C (a\<lparr>au_mech := None\<rparr>)"
  by (simp add: server_inv_def)

abbreviation waiting :: "bytes list \<Rightarrow> credentials \<Rightarrow> auth \<Rightarrow> bool" where
  "waiting l C a \<equiv> server_inv l C a \<and> au_state a = SERVER_WAITING_FOR_AUTH"

lemma waiting_allocs: "waiting l C a \<Longrightarrow>
   wp (allocs n a) (\<lambda>ok a'. if ok then waiting l C a' else handled l C SERVER_WAITING_FOR_AUTH False a')"
  by (rule wp_allocs) auto

lemma try_mech_wp:
  assumes "waiting l C a"
  shows "wp (let m = find_mech name (au_allowed_mechs a); a = a\<lparr>au_mech := m\<rparr> in
      case m of Some mech \<Rightarrow> process_data data (server_data_func env mech) a | None \<Rightarrow> send_rejected a)
    (handled l C SERVER_WAITING_FOR_AUTH)"
proof -
  have allowed: "au_allowed_mechs a = Some l" using assms by (simp add: server_inv_def)
  show ?thesis
  proof (cases "find_mech name (Some l)")
    case None
    have "active l C (a\<lparr>au_mech := None\<rparr>)" using drop_mech [of l C a] assms by simp
    from send_rejected_wp [OF this] show ?thesis using None allowed assms by simp
  next
    case (Some m)
    from set_mech_trying [OF _ _ find_mech_allowed [OF this], of C a] assms
    have "trying l C m SERVER_WAITING_FOR_AUTH (a\<lparr>au_mech := Some m\<rparr>)" by blast
    from process_data_wp [OF this] show ?thesis using Some allowed by simp
  qed
qed

lemma handle_auth_wp:
  assumes a: "waiting l C a"
  shows "wp (handle_auth env args a) (\<lambda>_. server_inv l C)"
proof -
  have failing: "wp (or_failed f b) (\<lambda>_. server_inv l C)" if "wp (f b) (handled l C SERVER_WAITING_FOR_AUTH)" for f b
    unfolding wp_simps using that by (rule wp_mono) (auto intro: drop_mech)
  have rejected: "wp (send_rejected a) (\<lambda>_. server_inv l C)"
    by (rule wp_weaken, rule send_rejected_wp [of l C a]) (use a in auto)
  have "wp (and_then (allocs 2) (or_failed (and_then (allocs 1) (\<lambda>a.
      case string_skip_blank args i of
        None \<Rightarrow> None
      | Some j \<Rightarrow> and_then (allocs 1) (\<lambda>a.
          let m = find_mech (take i args) (au_allowed_mechs a); a = a\<lparr>au_mech := m\<rparr> in
          case m of
            Some mech \<Rightarrow> process_data (drop j args) (server_data_func env mech) a
          | None \<Rightarrow> send_rejected a) a))) a) (\<lambda>_. server_inv l C)" for i
  proof (rule wp_andI [where P = "waiting l C"])
    show "wp (allocs 2 a) (\<lambda>ok a'. if ok then waiting l C a' else server_inv l C a')"
      by (rule wp_allocs) (use a in auto)
    fix b assume b: "waiting l C b"
    show "wp (or_failed (and_then (allocs 1) (\<lambda>a.
        case string_skip_blank args i of
          None \<Rightarrow> None
        | Some j \<Rightarrow> and_then (allocs 1) (\<lambda>a.
            let m = find_mech (take i args) (au_allowed_mechs a); a = a\<lparr>au_mech := m\<rparr> in
            case m of
              Some mech \<Rightarrow> process_data (drop j args) (server_data_func env mech) a
            | None \<Rightarrow> send_rejected a) a)) b) (\<lambda>_. server_inv l C)"
    proof (intro failing wp_andI [where P = "waiting l C"] waiting_allocs b)
      fix d assume d: "waiting l C d"
      have "wp (and_then (allocs 1) (\<lambda>a.
            let m = find_mech (take i args) (au_allowed_mechs a); a = a\<lparr>au_mech := m\<rparr> in
            case m of
              Some mech \<Rightarrow> process_data (drop j args) (server_data_func env mech) a
            | None \<Rightarrow> send_rejected a) d) (handled l C SERVER_WAITING_FOR_AUTH)" for j
        by (rule wp_andI [where P = "waiting l C"], rule waiting_allocs [OF d], rule try_mech_wp)
      then show "wp (case string_skip_blank args i of
          None \<Rightarrow> None
        | Some j \<Rightarrow> and_then (allocs 1) (\<lambda>a.
            let m = find_mech (take i args) (au_allowed_mechs a); a = a\<lparr>au_mech := m\<rparr> in
            case m of
              Some mech \<Rightarrow> process_data (drop j args) (server_data_func env mech) a
            | None \<Rightarrow> send_rejected a) d) (handled l C SERVER_WAITING_FOR_AUTH)"
        by (cases "string_skip_blank args i") (simp_all add: wp_simps(1))
    qed
  qed
  with rejected show ?thesis by (auto simp: handle_auth_def wp_simps(1) split: option.split)
qed

lemma disconnect_wp: "server_inv l C a \<Longrightarrow> wp (done_with (goto_state NEED_DISCONNECT) a) (\<lambda>_. server_inv l C)"
  by (simp add: wp_simps goto_state_def server_inv_def)

lemma error_wp: "server_inv l C a \<Longrightarrow> wp (send_error msg a) (\<lambda>_. server_inv l C)"
  by (rule wp_weaken, rule send_error_wp) auto

lemma reject_wp: "active l C a \<Longrightarrow> wp (send_rejected a) (\<lambda>_. server_inv l C)"
  by (rule wp_weaken, rule send_rejected_wp) auto

lemma waiting_for_data_wp:
  assumes "server_inv l C a" "au_state a = SERVER_WAITING_FOR_DATA"
  shows "wp (handle_server_state_waiting_for_data env c args a) (\<lambda>_. server_inv l C)"
proof -
  have m: "au_mech a = Some EXTERNAL" using assms by (simp add: server_inv_def)
  have "wp (process_data args (server_data_func env EXTERNAL) a) (\<lambda>_. server_inv l C)"
    by (rule wp_weaken, rule process_data_wp [where l = l and C = C and m = EXTERNAL and s = SERVER_WAITING_FOR_DATA]) (use assms m in auto)
  then show ?thesis using assms m error_wp reject_wp disconnect_wp
    by (cases c) auto
qed

lemma waiting_for_begin_wp:
  assumes "server_inv l C a" "au_state a = SERVER_WAITING_FOR_BEGIN"
  shows "wp (handle_server_state_waiting_for_begin c a) (\<lambda>_. server_inv l C)"
proof -
  have "wp (done_with (goto_state AUTHENTICATED) a) (\<lambda>_. server_inv l C)"
    using assms by (simp add: wp_simps goto_state_def server_inv_def)
  moreover have "wp (send_agree_unix_fd a) (\<lambda>_. server_inv l C)"
    by (rule wp_weaken, rule send_agree_wp [OF assms]) auto
  ultimately show ?thesis using assms error_wp reject_wp
    by (cases c) auto
qed

lemma waiting_for_auth_wp:
  assumes "waiting l C a"
  shows "wp (handle_server_state_waiting_for_auth env c args a) (\<lambda>_. server_inv l C)"
  using assms handle_auth_wp [OF assms] error_wp reject_wp disconnect_wp by (cases c) auto

lemma handler_wp:
  assumes "server_inv l C a" "state_handler env (au_state a) = Some h"
  shows "wp (h c args a) (\<lambda>_. server_inv l C)"
proof -
  have "au_state a \<in> {SERVER_WAITING_FOR_AUTH, SERVER_WAITING_FOR_DATA, SERVER_WAITING_FOR_BEGIN, AUTHENTICATED, NEED_DISCONNECT}"
    using assms(1) unfolding server_inv_def by blast
  then show ?thesis
    using assms waiting_for_auth_wp [of l C a] waiting_for_data_wp [of l C a] waiting_for_begin_wp [of l C a]
    by (elim insertE emptyE) auto
qed

section \<open>Runs\<close>

lemma process_line_wp:
  assumes "server_inv l C a"
  shows "wp (process_line env line a) (\<lambda>_. server_inv l C)"
proof -
  have "wp (and_then (allocs 1) (\<lambda>a.
      case state_handler env (au_state a) of None \<Rightarrow> None | Some handler \<Rightarrow> handler c args a) a) (\<lambda>_. server_inv l C)" for c args
  proof (rule wp_andI [where P = "server_inv l C"])
    show "wp (allocs 1 a) (\<lambda>ok a'. if ok then server_inv l C a' else server_inv l C a')"
      by (rule wp_allocs) (use assms in simp)
    show "wp (case state_handler env (au_state b) of None \<Rightarrow> None | Some handler \<Rightarrow> handler c args b) (\<lambda>_. server_inv l C)"
      if "server_inv l C b" for b
      using handler_wp [OF that, of env] by (auto simp: wp_simps(1) split: option.split)
  qed
  then show ?thesis using error_wp [OF assms]
    by (auto simp: process_line_def Let_def wp_simps(1) split: option.split)
qed

lemma process_command_inv:
  assumes "process_command env c = Some (again, c')" "server_inv l C (cv_auth c)"
  shows "server_inv l C (cv_auth c')"
proof -
  have w: "wp (and_then (allocs 3) (process_line env line) (cv_auth c)) (\<lambda>_. server_inv l C)" for line
    by (rule wp_andI [where P = "server_inv l C"], rule wp_allocs)
      (use assms(2) in \<open>auto intro: process_line_wp\<close>)
  show ?thesis using assms wpD [OF w]
    by (auto simp: process_command_def split: option.splits prod.splits bool.splits)
qed

lemma work_loop_inv:
  "work_loop env c = Some c' \<Longrightarrow> server_inv l C (cv_auth c) \<Longrightarrow> server_inv l C (cv_auth c')"
proof (induction env c rule: work_loop.induct)
  case (1 env c)
  have disconnect: "server_inv l C (goto_state NEED_DISCONNECT (cv_auth c))"
    using "1.prems"(2) by (simp add: goto_state_def server_inv_def)
  note p = "1.prems"(1) [unfolded work_loop.simps [of env c]]
  show ?case
  proof (cases "process_command env c")
    case None
    with p "1.prems"(2) disconnect show ?thesis by (auto split: if_splits)
  next
    case (Some r)
    obtain again d where r: "r = (again, d)" by fastforce
    from process_command_inv [OF Some [unfolded r] "1.prems"(2)] have d: "server_inv l C (cv_auth d)" .
    show ?thesis
      using p "1.prems"(2) "1.IH" [OF _ _ Some r [symmetric]] d disconnect Some r by (auto split: if_splits)
  qed
qed

text \<open>
  A run of a server that allows the mechanisms \<open>l\<close> on a socket with the credentials \<open>creds\<close>: it is set
  up, receives any bytes, works, has its answers taken, while the allocator changes as it likes.
\<close>

inductive auth_server_run :: "auth_env \<Rightarrow> bytes list \<Rightarrow> credentials \<Rightarrow> conversation \<Rightarrow> bool"
  for env l creds where
  run_start: "auth_server_new guid m = Some c \<Longrightarrow> auth_set_mechanisms (Some l) (cv_auth c) = Some (True, a) \<Longrightarrow>
    auth_set_credentials creds a = Some (True, b) \<Longrightarrow>
    auth_server_run env l creds (c\<lparr>cv_auth := auth_set_unix_fd_possible possible b\<rparr>)"
| run_receive: "auth_server_run env l creds c \<Longrightarrow> auth_get_buffer c = Some (buffer, c1) \<Longrightarrow>
    auth_return_buffer (buffer @ received) c1 = Some c2 \<Longrightarrow> auth_server_run env l creds c2"
| run_memory: "auth_server_run env l creds c \<Longrightarrow> auth_server_run env l creds (c\<lparr>cv_auth := (cv_auth c)\<lparr>au_mem := m\<rparr>\<rparr>)"
| run_work: "auth_server_run env l creds c \<Longrightarrow> auth_do_work env c = Some (w, c') \<Longrightarrow> auth_server_run env l creds c'"
| run_sent: "auth_server_run env l creds c \<Longrightarrow> auth_bytes_sent n c = Some c' \<Longrightarrow> auth_server_run env l creds c'"

text \<open>The credentials of the conversation name the user of the socket.\<close>

definition user_of :: "credentials \<Rightarrow> credentials \<Rightarrow> bool" where
  "user_of creds C \<longleftrightarrow> cr_unix_uid C = cr_unix_uid creds \<and> cr_windows_sid C = cr_windows_sid creds"

lemma set_credentials_user:
  assumes "auth_set_credentials creds a = Some (True, b)"
  shows "\<exists>C m. b = a\<lparr>au_credentials := C, au_mem := m\<rparr> \<and> user_of creds C"
proof -
  obtain ok C m where r: "credentials_add_credentials (credentials_clear (au_credentials a)) creds (au_mem a) = (ok, C, m)"
    by (metis prod_cases3)
  then have b: "ok" "b = a\<lparr>au_credentials := C, au_mem := m\<rparr>"
    using assms by (simp_all add: auth_set_credentials_def)
  have d: "drawn_from (credentials_clear (au_credentials a)) creds C"
    using r unfolding credentials_add_credentials_def by (rule add_credential_list_drawn)
  from add_credentials_user [of "credentials_clear (au_credentials a)" creds "au_mem a" C m] r b(1) d
  have "user_of creds C"
    unfolding user_of_def drawn_from_def by (auto simp: credentials_clear_def)
  with b(2) show ?thesis by blast
qed

lemma auth_new_fields:
  "auth_new side state guid m = (Some a, m') \<Longrightarrow>
   au_side a = side \<and> au_state a = state \<and> au_mech a = None \<and> au_failures a = 0 \<and>
   au_max_failures a = (if side = AUTH_SERVER then 6 else 0) \<and> au_authorized_identity a = credentials_empty"
  by (auto simp: auth_new_def split: prod.splits if_splits)

lemma server_run_inv:
  assumes "auth_server_run env l creds c" "mechanism_name DBUS_COOKIE_SHA1 \<notin> set l"
  shows "\<exists>C. user_of creds C \<and> server_inv l C (cv_auth c)"
  using assms
proof (induction rule: auth_server_run.induct)
  case (run_start guid m c a b possible)
  have "\<exists>m1 m2. auth_new AUTH_SERVER SERVER_WAITING_FOR_AUTH guid m1 = (Some (cv_auth c), m2)"
    using run_start(1) unfolding auth_server_new_def Let_def
    by (auto split: prod.splits if_splits option.splits) (metis conversation.select_convs(1))
  then obtain m1 m2 where c: "auth_new AUTH_SERVER SERVER_WAITING_FOR_AUTH guid m1 = (Some (cv_auth c), m2)" by blast
  have a: "\<exists>m2. a = (cv_auth c)\<lparr>au_mem := m2, au_allowed_mechs := Some l\<rparr>"
    using run_start(2) by (auto simp: auth_set_mechanisms_def and_then_def done_with_def allocs_def split: prod.splits if_splits)
  obtain C m3 where b: "b = a\<lparr>au_credentials := C, au_mem := m3\<rparr>" "user_of creds C"
    using set_credentials_user [OF run_start(3)] by blast
  have "server_inv l C b"
    using a b(1) auth_new_fields [OF c] run_start(4) by (auto simp: server_inv_def drawn_from_def)
  then have "server_inv l C (auth_set_unix_fd_possible possible b)"
    by (simp add: auth_set_unix_fd_possible_def server_inv_def)
  with b(2) show ?case by auto
next
  case (run_receive c buffer c1 received c2)
  then have "cv_auth c2 = cv_auth c"
    by (auto simp: auth_get_buffer_def auth_return_buffer_def split: if_splits)
  with run_receive show ?case by simp
next
  case (run_work c w c')
  then obtain C where C: "user_of creds C" "server_inv l C (cv_auth c)" by blast
  obtain d where d: "work_loop env (c\<lparr>cv_auth := (cv_auth c)\<lparr>au_needed_memory := False\<rparr>\<rparr>) = Some d" "c' = d"
    using run_work(2) by (auto simp: auth_do_work_def split: option.splits)
  from work_loop_inv [OF d(1), of l C] C d(2) show ?case by auto
next
  case (run_sent c n c')
  then show ?case by (auto simp: auth_bytes_sent_def split: if_splits)
qed auto

text \<open>
  C4. Whatever bytes arrive in whatever pieces, and whichever allocations fail, a server that
  does not allow DBUS_COOKIE_SHA1 ends authenticated only with an allowed mechanism and with the
  user of the socket as the authorized identity, which EXTERNAL never leaves anonymous; the
  sixth rejection disconnects.
\<close>

theorem auth_server_safe:
  assumes "auth_server_run env l creds c" "mechanism_name DBUS_COOKIE_SHA1 \<notin> set l"
  shows "au_failures (cv_auth c) \<le> 6 \<and> (au_failures (cv_auth c) = 6 \<longrightarrow> au_state (cv_auth c) = NEED_DISCONNECT) \<and>
    (au_state (cv_auth c) = AUTHENTICATED \<longrightarrow>
      (\<exists>m identity. au_mech (cv_auth c) = Some m \<and> mechanism_name m \<in> set l \<and>
         auth_get_identity (cv_auth c) = Some identity \<and>
         cr_unix_uid identity \<in> {DBUS_UID_UNSET, cr_unix_uid creds} \<and>
         cr_windows_sid identity \<in> {None, cr_windows_sid creds} \<and>
         (m = EXTERNAL \<longrightarrow> \<not> credentials_are_anonymous identity)))"
proof -
  obtain C where C: "user_of creds C" "server_inv l C (cv_auth c)" using server_run_inv [OF assms] by blast
  then have "drawn_from credentials_empty C (au_authorized_identity (cv_auth c))" by (simp add: server_inv_def)
  with C(1) have "cr_unix_uid (au_authorized_identity (cv_auth c)) \<in> {DBUS_UID_UNSET, cr_unix_uid creds} \<and>
      cr_windows_sid (au_authorized_identity (cv_auth c)) \<in> {None, cr_windows_sid creds}"
    by (auto simp: drawn_from_def user_of_def credentials_empty_def)
  with C(2) show ?thesis by (auto simp: server_inv_def auth_get_identity_def)
qed

end
