(* ===== verification/AuthHandshake.thy ===== *)
theory AuthHandshake
  imports AuthServer
begin

text \<open>
  A client and a server of \<^verbatim>\<open>dbus/dbus-auth.c\<close> talking to each other: when the user of the client is
  the user of the socket and memory lasts, both sides end authenticated, agree on the passing of
  file descriptors, and nothing is left in their buffers. Lines of text are evaluated by a few
  lemmas on words, blanks and ends of lines.
\<close>

section \<open>Evaluating lines\<close>

lemma mem_allocs_nil [simp]: "mem_allocs n [] = (True, [])"
  by (induction n) simp_all

lemma allocs_nil [simp]: "au_mem a = [] \<Longrightarrow> allocs n a = Some (True, a)"
proof -
  have "mem_allocs n [] = (True, [])" by (induction n) simp_all
  then show "au_mem a = [] \<Longrightarrow> allocs n a = Some (True, a)" by (cases a) (simp add: allocs_def)
qed

lemma and_then_ok: "f a = Some (True, a') \<Longrightarrow> and_then f g a = g a'"
  by (simp add: and_then_def)

lemma and_then_allocs [simp]: "au_mem a = [] \<Longrightarrow> and_then (allocs n) g a = g a"
  by (simp add: and_then_def)

lemma append_outgoing_nil [simp]:
  "au_mem a = [] \<Longrightarrow> append_outgoing s a = Some (True, a\<lparr>au_outgoing := au_outgoing a @ s\<rparr>)"
  by (simp add: append_outgoing_def done_with_def)

definition plain :: "bytes \<Rightarrow> bool" where
  "plain w \<longleftrightarrow> list_all (\<lambda>c. c \<noteq> 0 \<and> c < 128 \<and> c \<noteq> 32 \<and> c \<noteq> 9 \<and> c \<noteq> CR \<and> c \<noteq> LF) w"

definition ascii :: "bytes \<Rightarrow> bool" where
  "ascii w \<longleftrightarrow> list_all (\<lambda>c. c \<noteq> 0 \<and> c < 128) w"

lemma plain_simps [simp]:
  "plain []" "plain (c # w) \<longleftrightarrow> c \<noteq> 0 \<and> c < 128 \<and> c \<noteq> 32 \<and> c \<noteq> 9 \<and> c \<noteq> CR \<and> c \<noteq> LF \<and> plain w"
  "plain (v @ w) \<longleftrightarrow> plain v \<and> plain w"
  by (simp_all add: plain_def)

lemma ascii_simps [simp]:
  "ascii []" "ascii (c # w) \<longleftrightarrow> c \<noteq> 0 \<and> c < 128 \<and> ascii w" "ascii (v @ w) \<longleftrightarrow> ascii v \<and> ascii w"
  by (simp_all add: ascii_def)

lemma plain_ascii: "plain w \<Longrightarrow> ascii w"
  by (auto simp: plain_def ascii_def list_all_iff)

lemma plain_no_cr: "plain w \<Longrightarrow> CR \<notin> set w"
  by (auto simp: plain_def list_all_iff)

lemma validate_ascii_whole [simp]: "validate_ascii w 0 (length w) = ascii w"
  by (simp add: validate_ascii_def validate_ascii_loop_eq ascii_def)

lemma find_blank_plain: "plain w \<Longrightarrow> find_blank_loop w = (False, length w)"
  "plain w \<Longrightarrow> find_blank_loop (w @ 32 # rest) = (True, length w)"
  by (induction w) auto

lemma plain_not_white: "plain w \<Longrightarrow> w \<noteq> [] \<Longrightarrow> \<not> IS_ASCII_WHITE (hd w)"
  by (cases w) (auto simp: IS_ASCII_WHITE_def)

lemma skip_blank_one:
  assumes "args \<noteq> [] \<longrightarrow> \<not> IS_ASCII_WHITE (hd args)"
  shows "string_skip_blank (w @ 32 # args) (length w) = Some (Suc (length w))"
proof (cases args)
  case Nil
  then show ?thesis by (simp add: string_skip_blank_def check_def IS_ASCII_BLANK_def Let_def)
next
  case (Cons c cs)
  then have "\<not> IS_ASCII_WHITE c" using assms by simp
  then show ?thesis using Cons
    by (simp add: string_skip_blank_def check_def IS_ASCII_BLANK_def IS_ASCII_WHITE_def Let_def byte_at_def nth_append)
qed

lemma skip_blank_end: "string_skip_blank w (length w) = Some (length w)"
  by (simp add: string_skip_blank_def check_def Let_def)

lemma process_line_args:
  assumes "plain w" "ascii args" "args \<noteq> [] \<longrightarrow> \<not> IS_ASCII_WHITE (hd args)"
    and "au_mem a = []" "state_handler env (au_state a) = Some h"
  shows "process_line env (w @ 32 # args) a = h (lookup_command_from_name w) args a"
  using assms plain_ascii [of w]
  by (simp add: process_line_def string_find_blank_def check_def find_blank_plain skip_blank_one Let_def
      validate_ascii_whole [of "w @ 32 # args", simplified])

lemma process_line_word:
  assumes "plain w" "au_mem a = []" "state_handler env (au_state a) = Some h"
  shows "process_line env w a = h (lookup_command_from_name w) [] a"
  using assms plain_ascii [of w]
  by (simp add: process_line_def string_find_blank_def check_def find_blank_plain skip_blank_end Let_def)

lemma find_crlf: "CR \<notin> set line \<Longrightarrow> string_find (line @ [CR, LF]) 0 [CR, LF] = Some (True, length line)"
proof -
  have "CR \<notin> set line \<Longrightarrow> find_loop (line @ [CR, LF]) CR [LF] = (True, length line)"
    by (induction line) auto
  moreover assume "CR \<notin> set line"
  ultimately show ?thesis by (simp add: string_find_def string_find_to_def check_def substring_def)
qed

lemma find_crlf_nil: "string_find [] 0 [CR, LF] = Some (False, 0)"
  by (simp add: string_find_def string_find_to_def check_def substring_def)

text \<open>One line is received, handled and removed.\<close>

lemma do_work_line:
  assumes c: "cv_incoming c = line @ [CR, LF]" "CR \<notin> set line" "length line \<le> 16000"
    and a: "a = (cv_auth c)\<lparr>au_needed_memory := False\<rparr>" "au_mem a = []" "\<not> in_end_state env a" "length (au_outgoing a) \<le> 16000"
    and line: "process_line env line a = Some (True, a')" "length (au_outgoing a') \<le> MAX_BUFFER"
  shows "\<exists>w. auth_do_work env c =
    Some (w, c\<lparr>cv_auth := a'\<lparr>au_needed_memory := False\<rparr>, cv_incoming := []\<rparr>)"
proof -
  let ?c = "c\<lparr>cv_auth := a\<rparr>" and ?d = "c\<lparr>cv_auth := a'\<lparr>au_needed_memory := False\<rparr>, cv_incoming := []\<rparr>"
  have step: "process_command env ?c = Some (True, ?d)"
    using c a(2) line(1) by (simp add: process_command_def find_crlf)
  have "work_loop env ?d = Some ?d"
    using line(2) by (subst work_loop.simps) (simp add: process_command_def find_crlf_nil MAX_BUFFER_def)
  then have "work_loop env ?c = Some ?d"
    using c a step by (subst work_loop.simps) (simp add: MAX_BUFFER_def)
  then show ?thesis using a(1) by (simp add: auth_do_work_def)
qed

section \<open>The transport\<close>

text \<open>
  What the transports of both sides do with the interface: take the bytes to send, report them as
  sent, append them to the buffer of the other side and let it work.
\<close>

definition deliver :: "auth_env \<Rightarrow> conversation \<Rightarrow> conversation \<Rightarrow> (conversation \<times> conversation) option" where
  "deliver env sender receiver =
     (case auth_get_bytes_to_send sender of
        None \<Rightarrow> None
      | Some sent \<Rightarrow>
          do { sender \<leftarrow> auth_bytes_sent (length sent) sender;
               (buffer, receiver) \<leftarrow> auth_get_buffer receiver;
               receiver \<leftarrow> auth_return_buffer (buffer @ sent) receiver;
               (w, receiver) \<leftarrow> auth_do_work env receiver;
               Some (sender, receiver) })"

text \<open>Whole turns: the client's text to the server, the answer back.\<close>

fun turns :: "nat \<Rightarrow> auth_env \<Rightarrow> auth_env \<Rightarrow> conversation \<Rightarrow> conversation \<Rightarrow> (conversation \<times> conversation) option" where
  "turns 0 env_c env_s c s = deliver env_s c s"
| "turns (Suc n) env_c env_s c s =
     do { (c, s) \<leftarrow> deliver env_s c s;
          (s, c) \<leftarrow> deliver env_c s c;
          turns n env_c env_s c s }"

text \<open>A side with nothing received yet, memory that lasts and the text \<open>line\<close> to send.\<close>

definition ready :: "conversation \<Rightarrow> bytes \<Rightarrow> bool" where
  "ready c line \<longleftrightarrow> cv_incoming c = [] \<and> \<not> cv_buffer_outstanding c \<and> au_mem (cv_auth c) = [] \<and>
     au_outgoing (cv_auth c) = line @ [CR, LF]"

definition quiet :: "conversation \<Rightarrow> bool" where
  "quiet c \<longleftrightarrow> cv_incoming c = [] \<and> \<not> cv_buffer_outstanding c \<and> au_mem (cv_auth c) = [] \<and> au_outgoing (cv_auth c) = []"

lemma deliver_line:
  assumes s: "ready s line" "CR \<notin> set line" "length line \<le> 16000"
    and r: "quiet r" "\<not> in_end_state env (cv_auth r)"
    and line: "process_line env line ((cv_auth r)\<lparr>au_needed_memory := False\<rparr>) = Some (True, a)"
    and out: "length (au_outgoing a) \<le> 16002"
  shows "deliver env s r = Some (s\<lparr>cv_auth := (cv_auth s)\<lparr>au_outgoing := []\<rparr>\<rparr>,
    r\<lparr>cv_auth := a\<lparr>au_needed_memory := False\<rparr>\<rparr>)"
proof -
  let ?r = "r\<lparr>cv_incoming := line @ [CR, LF], cv_buffer_outstanding := False\<rparr>"
  have "\<exists>w. auth_do_work env ?r = Some (w, ?r\<lparr>cv_auth := a\<lparr>au_needed_memory := False\<rparr>, cv_incoming := []\<rparr>)"
    using s r line out by (intro do_work_line) (auto simp: quiet_def in_end_state_def MAX_BUFFER_def)
  moreover have "?r\<lparr>cv_auth := a\<lparr>au_needed_memory := False\<rparr>, cv_incoming := []\<rparr> = r\<lparr>cv_auth := a\<lparr>au_needed_memory := False\<rparr>\<rparr>"
    using r by (cases r) (simp add: quiet_def)
  ultimately show ?thesis using s r
    by (auto simp: deliver_def auth_get_bytes_to_send_def auth_bytes_sent_def auth_get_buffer_def auth_return_buffer_def
        ready_def quiet_def)
qed

section \<open>The server\<close>

lemma clear_authorized: "credentials_clear c = credentials_empty"
  by (simp add: credentials_clear_def credentials_empty_def)

lemma add_with_memory:
  "\<exists>c'. credentials_add_credential c k other [] = (True, c', []) \<and>
     (k \<noteq> UNIX_USER_ID \<longrightarrow> cr_unix_uid c' = cr_unix_uid c)"
  by (cases k) (auto simp: credentials_add_defs split: option.splits)

lemma add_user_with_memory:
  "credentials_add_credentials credentials_empty (credentials_empty\<lparr>cr_unix_uid := uid\<rparr>) [] =
     (True, credentials_empty\<lparr>cr_unix_uid := uid\<rparr>, [])"
  by (simp add: credentials_add_credentials_def credentials_add_defs credentials_empty_def)

lemma authorize_with_memory:
  assumes "au_mem a = []" "k \<noteq> UNIX_USER_ID"
  shows "\<exists>c. authorize_credential k a = Some (True, a\<lparr>au_authorized_identity := c\<rparr>) \<and>
    cr_unix_uid c = cr_unix_uid (au_authorized_identity a)"
proof -
  obtain c where "credentials_add_credential (au_authorized_identity a) k (au_credentials a) [] = (True, c, [])"
    "cr_unix_uid c = cr_unix_uid (au_authorized_identity a)"
    using add_with_memory [of "au_authorized_identity a" k "au_credentials a"] assms(2) by blast
  with assms(1) show ?thesis by (cases a) (simp add: authorize_credential_def)
qed

lemma external_ok:
  assumes "au_mem a = []" "au_authorized_identity a = credentials_empty"
    and "au_desired_identity a = credentials_empty\<lparr>cr_unix_uid := uid\<rparr>" "uid \<noteq> DBUS_UID_UNSET"
    and "cr_unix_uid (au_credentials a) = uid"
  shows "\<exists>c. external_authorize a = Some (True, a\<lparr>au_authorized_identity := c,
      au_outgoing := au_outgoing a @ bytes ''OK '' @ au_guid a @ [CR, LF], au_state := SERVER_WAITING_FOR_BEGIN\<rparr>) \<and>
    cr_unix_uid c = uid"
proof -
  have super: "credentials_are_superset (au_credentials a) (au_desired_identity a) = Some True"
    using assms(3, 5) by (simp add: credentials_are_superset_def credentials_empty_def)
  have user: "\<not> credentials_are_anonymous (au_desired_identity a)"
    using assms(3, 4) by (simp add: credentials_are_anonymous_def)
  let ?c = "credentials_empty\<lparr>cr_unix_uid := uid\<rparr>"
  have "authorize_desired a = Some (True, a\<lparr>au_authorized_identity := ?c\<rparr>)"
    using assms(1-3) add_user_with_memory [of uid] by (cases a) (simp add: authorize_desired_def)
  moreover obtain c1 where 1: "authorize_credential UNIX_PROCESS_ID (a\<lparr>au_authorized_identity := ?c\<rparr>) =
      Some (True, a\<lparr>au_authorized_identity := c1\<rparr>)" "cr_unix_uid c1 = uid"
    using authorize_with_memory [of "a\<lparr>au_authorized_identity := ?c\<rparr>" UNIX_PROCESS_ID] assms(1) by auto
  moreover obtain c2 where 2: "authorize_credential ADT_AUDIT_DATA_ID (a\<lparr>au_authorized_identity := c1\<rparr>) =
      Some (True, a\<lparr>au_authorized_identity := c2\<rparr>)" "cr_unix_uid c2 = uid"
    using authorize_with_memory [of "a\<lparr>au_authorized_identity := c1\<rparr>" ADT_AUDIT_DATA_ID] assms(1) 1(2) by auto
  moreover obtain c3 where 3: "authorize_credential LINUX_SECURITY_LABEL (a\<lparr>au_authorized_identity := c2\<rparr>) =
      Some (True, a\<lparr>au_authorized_identity := c3\<rparr>)" "cr_unix_uid c3 = uid"
    using authorize_with_memory [of "a\<lparr>au_authorized_identity := c2\<rparr>" LINUX_SECURITY_LABEL] assms(1) 2(2) by auto
  ultimately show ?thesis using super user assms(1)
    by (auto simp: external_authorize_def and_then_def send_ok_def done_with_def goto_state_def)
qed

lemma hexdigits_plain: "k < 16 \<Longrightarrow> plain [hexdigits ! k]"
proof -
  have "plain hexdigits" by (simp add: hexdigits_def bytes_Cons)
  moreover assume "k < 16"
  then have "hexdigits ! k \<in> set hexdigits" by (simp add: hexdigits_def)
  ultimately show ?thesis by (auto simp: plain_def list_all_iff)
qed

lemma plain_hex_of: "plain (hex_of bs)"
  using hexdigits_plain [OF nibble_high] hexdigits_plain [OF nibble_low]
  by (induction bs) (simp_all add: hex_of_byte_def)

lemma plain_words [simp]:
  "plain (bytes ''AUTH'')" "plain (bytes ''EXTERNAL'')" "plain (bytes ''OK'')" "plain (bytes ''ERROR'')" "plain (bytes ''BEGIN'')"
  "plain (bytes ''NEGOTIATE_UNIX_FD'')" "plain (bytes ''AGREE_UNIX_FD'')"
  by (simp_all add: bytes_Cons)

lemma lookup_words [simp]:
  "lookup_command_from_name (bytes ''AUTH'') = COMMAND_AUTH" "lookup_command_from_name (bytes ''OK'') = COMMAND_OK"
  "lookup_command_from_name (bytes ''ERROR'') = COMMAND_ERROR" "lookup_command_from_name (bytes ''BEGIN'') = COMMAND_BEGIN"
  "lookup_command_from_name (bytes ''NEGOTIATE_UNIX_FD'') = COMMAND_NEGOTIATE_UNIX_FD"
  "lookup_command_from_name (bytes ''AGREE_UNIX_FD'') = COMMAND_AGREE_UNIX_FD"
  by (simp_all add: lookup_command_from_name_def auth_command_names_def string_equal_c_str_iff bytes_Cons)

text \<open>A set of mechanisms, or none for all, allows EXTERNAL.\<close>

definition allows_external :: "bytes list option \<Rightarrow> bool" where
  "allows_external mechs \<longleftrightarrow> (case mechs of None \<Rightarrow> True | Some l \<Rightarrow> mechanism_name EXTERNAL \<in> set l)"

lemma find_external: "allows_external mechs \<Longrightarrow> find_mech (bytes ''EXTERNAL'') mechs = Some EXTERNAL"
proof -
  have name: "mechanism_name EXTERNAL = bytes ''EXTERNAL''" by (simp add: mechanism_name.simps)
  have no_nul: "takeWhile (\<lambda>c. c \<noteq> 0) (bytes ''EXTERNAL'') = bytes ''EXTERNAL''" by (simp add: bytes_Cons)
  have "bytes ''EXTERNAL'' \<in> set l \<Longrightarrow> string_array_contains l (bytes ''EXTERNAL'')" for l
    by (induction l) (auto simp: no_nul simp del: takeWhile_eq_all_conv)
  then show "allows_external mechs \<Longrightarrow> find_mech (bytes ''EXTERNAL'') mechs = Some EXTERNAL"
    by (auto simp: find_mech_def allows_external_def all_mechanisms_def string_equal_c_str_iff name split: option.splits)
qed

lemma handle_auth_external:
  assumes "au_mem a = []" "allows_external (au_allowed_mechs a)" "plain hex"
    and "server_data_func env EXTERNAL (fst (unhex hex)) (a\<lparr>au_mech := Some EXTERNAL\<rparr>) = Some (True, a')"
    and "snd (unhex hex) = length hex" "hex \<noteq> []"
  shows "handle_auth env (bytes ''EXTERNAL'' @ 32 # hex) a = Some (True, a')"
proof -
  let ?w = "bytes ''EXTERNAL''"
  have "string_find_blank (?w @ 32 # hex) 0 = Some (True, length ?w)"
    using find_blank_plain(2) [of ?w hex] by (simp add: string_find_blank_def check_def)
  moreover have "string_skip_blank (?w @ 32 # hex) (length ?w) = Some (Suc (length ?w))"
    using plain_not_white [OF assms(3)] by (intro skip_blank_one) simp
  moreover have "process_data hex (server_data_func env EXTERNAL) (a\<lparr>au_mech := Some EXTERNAL\<rparr>) = Some (True, a')"
    using assms(1, 4, 5) by (cases "unhex hex") (simp add: process_data_def)
  ultimately show ?thesis
    using assms(1, 2) find_external by (simp add: handle_auth_def or_failed_def bytes_def)
qed

lemma server_auth_line:
  assumes a: "au_mem a = []" "au_state a = SERVER_WAITING_FOR_AUTH" "au_identity a = []"
      "au_authorized_identity a = credentials_empty" "allows_external (au_allowed_mechs a)"
    and user: "user \<noteq> []" "ae_get_username env (au_asked a) user = Some uid" "uid \<noteq> DBUS_UID_UNSET"
      "cr_unix_uid (au_credentials a) = uid"
  shows "\<exists>a'. process_line env (bytes ''AUTH'' @ 32 # bytes ''EXTERNAL'' @ 32 # hex_of user) a = Some (True, a') \<and>
    au_state a' = SERVER_WAITING_FOR_BEGIN \<and> au_mem a' = [] \<and>
    au_outgoing a' = au_outgoing a @ bytes ''OK '' @ au_guid a @ [CR, LF] \<and>
    cr_unix_uid (au_authorized_identity a') = uid \<and> au_unix_fd_possible a' = au_unix_fd_possible a \<and>
    au_unix_fd_negotiated a' = au_unix_fd_negotiated a"
proof -
  have hex: "unhex (hex_of user) = (user, length (hex_of user))" by (simp add: unhex_hex_of)
  have named: "\<not> credentials_are_anonymous (au_credentials a)"
    using user(3, 4) by (simp add: credentials_are_anonymous_def)
  let ?b = "a\<lparr>au_mech := Some EXTERNAL, au_identity := user, au_desired_identity := credentials_empty\<lparr>cr_unix_uid := uid\<rparr>,
    au_asked := Suc (au_asked a)\<rparr>"
  have "server_data_func env EXTERNAL user (a\<lparr>au_mech := Some EXTERNAL\<rparr>) = external_authorize ?b"
    using a user named
    by (cases a) (simp add: handle_server_data_external_mech_def copy_identity_def and_then_def done_with_def
        external_challenge_def external_identify_def add_from_user_def credentials_add_unix_uid_def clear_authorized asked_def)
  moreover obtain c where "external_authorize ?b = Some (True, ?b\<lparr>au_authorized_identity := c,
      au_outgoing := au_outgoing ?b @ bytes ''OK '' @ au_guid ?b @ [CR, LF], au_state := SERVER_WAITING_FOR_BEGIN\<rparr>)"
      "cr_unix_uid c = uid"
    using external_ok [of ?b uid] a user by auto
  moreover have "process_line env (bytes ''AUTH'' @ 32 # bytes ''EXTERNAL'' @ 32 # hex_of user) a =
      handle_server_state_waiting_for_auth env (lookup_command_from_name (bytes ''AUTH'')) (bytes ''EXTERNAL'' @ 32 # hex_of user) a"
    using a plain_ascii [OF plain_hex_of [of user]] plain_ascii [OF plain_words(2)]
    by (intro process_line_args) (simp_all add: bytes_Cons IS_ASCII_WHITE_def)
  ultimately show ?thesis
    using handle_auth_external [OF a(1, 5) plain_hex_of [of user], of env] hex user(1) a
    by (auto simp: hex_of_def hex_of_byte_def split: list.splits) 
qed

lemma server_negotiate_line:
  assumes "au_mem a = []" "au_state a = SERVER_WAITING_FOR_BEGIN"
  shows "process_line env (bytes ''NEGOTIATE_UNIX_FD'') a =
    (if au_unix_fd_possible a
     then Some (True, a\<lparr>au_unix_fd_negotiated := True, au_outgoing := au_outgoing a @ bytes ''AGREE_UNIX_FD'' @ [CR, LF]\<rparr>)
     else Some (True, a\<lparr>au_outgoing := au_outgoing a @ bytes ''ERROR '' @ [34] @
       bytes ''Unix FD passing not supported, not authenticated or otherwise not possible'' @ [34, CR, LF]\<rparr>))"
  using assms by (cases a) (simp add: process_line_word send_agree_unix_fd_def send_error_def and_then_def done_with_def goto_state_def)

lemma server_begin_line:
  assumes "au_mem a = []" "au_state a = SERVER_WAITING_FOR_BEGIN"
  shows "process_line env (bytes ''BEGIN'') a = Some (True, a\<lparr>au_state := AUTHENTICATED\<rparr>)"
  using assms by (simp add: process_line_word done_with_def goto_state_def)

section \<open>The client\<close>

lemma client_ok_line:
  assumes "au_mem a = []" "au_state a = CLIENT_WAITING_FOR_DATA" "au_mech a = Some EXTERNAL" "au_guid_from_server a = []"
    and guid: "guid \<noteq> []" "list_all (\<lambda>c. hex_value c \<noteq> None) guid"
  shows "process_line env (bytes ''OK'' @ 32 # guid) a =
    (if au_unix_fd_possible a
     then Some (True, a\<lparr>au_guid_from_server := guid, au_outgoing := au_outgoing a @ bytes ''NEGOTIATE_UNIX_FD'' @ [CR, LF],
       au_state := CLIENT_WAITING_FOR_AGREE_UNIX_FD\<rparr>)
     else Some (True, a\<lparr>au_guid_from_server := guid, au_outgoing := au_outgoing a @ bytes ''BEGIN'' @ [CR, LF],
       au_state := AUTHENTICATED\<rparr>))"
proof -
  have digit: "c \<noteq> 0 \<and> c < 128 \<and> \<not> IS_ASCII_WHITE c" if "hex_value c \<noteq> None" for c
    using that by (auto simp: hex_value_def IS_ASCII_WHITE_def word_less_nat_alt word_le_nat_alt split: if_splits)
  have "ascii guid" "\<not> IS_ASCII_WHITE (hd guid)"
    using guid digit by (auto simp: ascii_def list_all_iff)
  then have "process_line env (bytes ''OK'' @ 32 # guid) a = process_ok guid a"
    using assms by (subst process_line_args [where h = "handle_client_state_waiting_for_data env"]) simp_all
  then show ?thesis
    using assms unhex_digits [OF guid(2)]
    by (simp add: process_ok_def send_negotiate_unix_fd_def send_begin_def and_then_def done_with_def goto_state_def)
qed

lemma client_agree_line:
  assumes "au_mem a = []" "au_state a = CLIENT_WAITING_FOR_AGREE_UNIX_FD" "au_unix_fd_possible a"
  shows "process_line env (bytes ''AGREE_UNIX_FD'') a = Some (True, a\<lparr>au_unix_fd_negotiated := True,
      au_outgoing := au_outgoing a @ bytes ''BEGIN'' @ [CR, LF], au_state := AUTHENTICATED\<rparr>)"
    and "ascii args \<Longrightarrow> args \<noteq> [] \<longrightarrow> \<not> IS_ASCII_WHITE (hd args) \<Longrightarrow> process_line env (bytes ''ERROR'' @ 32 # args) a = Some (True, a\<lparr>au_unix_fd_negotiated := False,
      au_outgoing := au_outgoing a @ bytes ''BEGIN'' @ [CR, LF], au_state := AUTHENTICATED\<rparr>)"
  using assms
  by (simp_all add: process_line_word process_line_args send_begin_def and_then_def done_with_def goto_state_def)

text \<open>A new client has its first command to send.\<close>

lemma client_start:
  "\<exists>a. auth_client_new env [] = Some (Some \<lparr>cv_auth = a, cv_incoming = [], cv_buffer_outstanding = False\<rparr>) \<and>
    au_mem a = [] \<and> au_state a = CLIENT_WAITING_FOR_DATA \<and> au_mech a = Some EXTERNAL \<and> au_guid_from_server a = [] \<and>
    \<not> au_unix_fd_negotiated a \<and>
    au_outgoing a = bytes ''AUTH '' @ bytes ''EXTERNAL'' @ bytes '' '' @ hex_of (decimal (unat (ae_euid env))) @ [CR, LF]"
proof -
  have m: "mem_allocs n [] = (True, [])" for n by (induction n) simp_all
  show ?thesis
    by (simp add: auth_client_new_def auth_new_def m send_auth_def done_with_def goto_state_def
        all_mechanisms_def mechanism_name.simps Let_def)
qed

section \<open>The conversation\<close>

definition start_server ::
    "bytes list option \<Rightarrow> credentials \<Rightarrow> bool \<Rightarrow> bytes \<Rightarrow> conversation option" where
  "start_server mechs creds possible guid =
     (case auth_server_new guid [] of
        None \<Rightarrow> None
      | Some s \<Rightarrow>
          map_option (\<lambda>(_, a). s\<lparr>cv_auth := auth_set_unix_fd_possible possible a\<rparr>)
            (and_then (auth_set_mechanisms mechs) (auth_set_credentials creds) (cv_auth s)))"

definition start_client :: "auth_env \<Rightarrow> bool \<Rightarrow> conversation option" where
  "start_client env possible =
     (case auth_client_new env [] of
        Some (Some c) \<Rightarrow> Some (c\<lparr>cv_auth := auth_set_unix_fd_possible possible (cv_auth c)\<rparr>)
      | _ \<Rightarrow> None)"

lemma add_all_with_memory:
  "\<exists>C. credentials_add_credentials c other [] = (True, C, [])"
proof -
  have "\<exists>C. add_credential_list ks c other [] = (True, C, [])" for ks c
  proof (induction ks arbitrary: c)
    case (Cons k ks)
    obtain c1 where "credentials_add_credential c k other [] = (True, c1, [])"
      using add_with_memory [of c k other] by blast
    with Cons show ?case by simp
  qed simp
  then show ?thesis unfolding credentials_add_credentials_def .
qed

lemma server_start:
  "\<exists>a. start_server mechs creds possible guid = Some \<lparr>cv_auth = a, cv_incoming = [], cv_buffer_outstanding = False\<rparr> \<and>
    au_mem a = [] \<and> au_state a = SERVER_WAITING_FOR_AUTH \<and> au_identity a = [] \<and>
    au_authorized_identity a = credentials_empty \<and> au_allowed_mechs a = mechs \<and>
    cr_unix_uid (au_credentials a) = cr_unix_uid creds \<and> au_guid a = guid \<and> au_asked a = 0 \<and> au_outgoing a = [] \<and>
    au_unix_fd_possible a = possible \<and> \<not> au_unix_fd_negotiated a"
proof -
  have m: "mem_allocs n [] = (True, [])" for n by (induction n) simp_all
  obtain b where new: "auth_new AUTH_SERVER SERVER_WAITING_FOR_AUTH guid [] = (Some b, [])"
    and b: "au_mem b = []" "au_state b = SERVER_WAITING_FOR_AUTH" "au_identity b = []"
      "au_authorized_identity b = credentials_empty" "au_guid b = guid" "au_asked b = 0" "au_outgoing b = []"
      "\<not> au_unix_fd_negotiated b" "au_allowed_mechs b = None"
    by (simp add: auth_new_def m)
  have "auth_set_mechanisms mechs b = Some (True, b\<lparr>au_allowed_mechs := mechs\<rparr>)"
    using b by (cases mechs; cases b) (simp_all add: auth_set_mechanisms_def done_with_def)
  moreover obtain C where C: "credentials_add_credentials (credentials_clear (au_credentials b)) creds [] = (True, C, [])"
    using add_all_with_memory by blast
  moreover have "user_of creds C"
  proof -
    obtain D m where e: "b\<lparr>au_credentials := C, au_mem := []\<rparr> = b\<lparr>au_credentials := D, au_mem := m\<rparr>" "user_of creds D"
      using set_credentials_user [of creds b] C b(1) by (auto simp: auth_set_credentials_def)
    have "C = D" using arg_cong [OF e(1), of au_credentials] by simp
    with e(2) show ?thesis by simp
  qed
  ultimately show ?thesis using b
    by (simp add: start_server_def auth_server_new_def m new and_then_def auth_set_credentials_def auth_set_unix_fd_possible_def user_of_def)
qed

lemma text_words:
  "bytes ''AUTH '' = bytes ''AUTH'' @ [32]" "bytes '' '' = [32]" "bytes ''OK '' = bytes ''OK'' @ [32]"
  "bytes ''ERROR '' = bytes ''ERROR'' @ [32]"
  by (simp_all add: bytes_Cons)

lemma no_cr:
  "CR \<notin> set (bytes ''AUTH'' @ 32 # bytes ''EXTERNAL'' @ 32 # hex_of user)"
  "CR \<notin> set (bytes ''NEGOTIATE_UNIX_FD'')" "CR \<notin> set (bytes ''AGREE_UNIX_FD'')" "CR \<notin> set (bytes ''BEGIN'')"
  using plain_no_cr [OF plain_hex_of [of user]] plain_no_cr [OF plain_words(1)] plain_no_cr [OF plain_words(2)]
    plain_no_cr [OF plain_words(5)] plain_no_cr [OF plain_words(6)] plain_no_cr [OF plain_words(7)]
  by auto

definition refusal :: bytes where
  "refusal = [34] @ bytes ''Unix FD passing not supported, not authenticated or otherwise not possible'' @ [34]"

lemma refusal_text: "ascii refusal" "refusal \<noteq> [] \<longrightarrow> \<not> IS_ASCII_WHITE (hd refusal)" "CR \<notin> set refusal" "length refusal = 76"
  by (simp_all add: refusal_def bytes_Cons IS_ASCII_WHITE_def)

lemma hex_text:
  assumes "list_all (\<lambda>c. hex_value c \<noteq> None) guid"
  shows "CR \<notin> set (bytes ''OK'' @ 32 # guid)"
  using assms plain_no_cr [OF plain_words(3)] by (auto simp: list_all_iff hex_value_def)

text \<open>The first turn: the server authorizes the user, the client accepts the identifier of the server.\<close>

definition handshake_ok :: "auth_env \<Rightarrow> auth_env \<Rightarrow> bytes list option \<Rightarrow> credentials \<Rightarrow> bytes \<Rightarrow> bool" where
  "handshake_ok env_c env_s mechs creds guid \<longleftrightarrow>
     cr_unix_uid creds = ae_euid env_c \<and> ae_euid env_c \<noteq> DBUS_UID_UNSET \<and>
     ae_get_username env_s 0 (decimal (unat (ae_euid env_c))) = Some (ae_euid env_c) \<and> allows_external mechs \<and>
     guid \<noteq> [] \<and> list_all (\<lambda>c. hex_value c \<noteq> None) guid \<and> length guid \<le> 15000"

lemma first_delivery:
  assumes h: "handshake_ok env_c env_s mechs creds guid"
    and c: "start_client env_c fd_c = Some c" and s: "start_server mechs creds fd_s guid = Some s"
  shows "\<exists>c1 s1. deliver env_s c s = Some (c1, s1) \<and> quiet c1 \<and> ready s1 (bytes ''OK'' @ 32 # guid) \<and>
    au_state (cv_auth c1) = CLIENT_WAITING_FOR_DATA \<and> au_mech (cv_auth c1) = Some EXTERNAL \<and>
    au_guid_from_server (cv_auth c1) = [] \<and> \<not> au_unix_fd_negotiated (cv_auth c1) \<and> au_unix_fd_possible (cv_auth c1) = fd_c \<and>
    au_state (cv_auth s1) = SERVER_WAITING_FOR_BEGIN \<and> cr_unix_uid (au_authorized_identity (cv_auth s1)) = ae_euid env_c \<and>
    au_unix_fd_possible (cv_auth s1) = fd_s \<and> \<not> au_unix_fd_negotiated (cv_auth s1)"
proof -
  let ?user = "decimal (unat (ae_euid env_c))"
  let ?line = "bytes ''AUTH'' @ 32 # bytes ''EXTERNAL'' @ 32 # hex_of ?user"
  obtain a where a: "c = \<lparr>cv_auth = auth_set_unix_fd_possible fd_c a, cv_incoming = [], cv_buffer_outstanding = False\<rparr>"
    "au_mem a = []" "au_state a = CLIENT_WAITING_FOR_DATA" "au_mech a = Some EXTERNAL" "au_guid_from_server a = []"
    "\<not> au_unix_fd_negotiated a" "au_outgoing a = ?line @ [CR, LF]"
    using client_start [of env_c] c by (auto simp: start_client_def text_words)
  obtain b where b: "s = \<lparr>cv_auth = b, cv_incoming = [], cv_buffer_outstanding = False\<rparr>"
    "au_mem b = []" "au_state b = SERVER_WAITING_FOR_AUTH" "au_identity b = []" "au_authorized_identity b = credentials_empty"
    "au_allowed_mechs b = mechs" "cr_unix_uid (au_credentials b) = cr_unix_uid creds" "au_guid b = guid" "au_asked b = 0"
    "au_outgoing b = []" "au_unix_fd_possible b = fd_s" "\<not> au_unix_fd_negotiated b"
    using server_start [of mechs creds fd_s guid] s by auto
  have ready: "ready c ?line" using a by (simp add: ready_def auth_set_unix_fd_possible_def)
  have quiet: "quiet s" using b by (simp add: quiet_def)
  have "unat (ae_euid env_c) < 2 ^ LENGTH(64)" by (rule unsigned_less)
  then have "length ?user \<le> 20" using length_decimal [of "unat (ae_euid env_c)" 19] by simp
  then have len: "length ?line \<le> 16000" by simp
  obtain b' where b': "process_line env_s ?line (b\<lparr>au_needed_memory := False\<rparr>) = Some (True, b')"
    "au_state b' = SERVER_WAITING_FOR_BEGIN" "au_mem b' = []" "au_outgoing b' = bytes ''OK '' @ guid @ [CR, LF]"
    "cr_unix_uid (au_authorized_identity b') = ae_euid env_c" "au_unix_fd_possible b' = fd_s" "\<not> au_unix_fd_negotiated b'"
    using server_auth_line [of "b\<lparr>au_needed_memory := False\<rparr>" ?user env_s "ae_euid env_c"] h b
    by (auto simp: handshake_ok_def)
  have "deliver env_s c s = Some (c\<lparr>cv_auth := (cv_auth c)\<lparr>au_outgoing := []\<rparr>\<rparr>, s\<lparr>cv_auth := b'\<lparr>au_needed_memory := False\<rparr>\<rparr>)"
    using ready no_cr(1) len quiet b b' h
    by (intro deliver_line) (simp_all add: in_end_state_def handshake_ok_def)
  then show ?thesis
    using a b b' by (auto simp: quiet_def ready_def auth_set_unix_fd_possible_def text_words)
qed

text \<open>The second delivery, and the end of the conversation.\<close>

lemma ok_delivery:
  assumes h: "handshake_ok env_c env_s mechs creds guid"
    and s: "ready s (bytes ''OK'' @ 32 # guid)" and c: "quiet c" "au_state (cv_auth c) = CLIENT_WAITING_FOR_DATA"
      "au_mech (cv_auth c) = Some EXTERNAL" "au_guid_from_server (cv_auth c) = []"
  shows "deliver env_c s c = Some (s\<lparr>cv_auth := (cv_auth s)\<lparr>au_outgoing := []\<rparr>\<rparr>,
    c\<lparr>cv_auth := (cv_auth c)\<lparr>au_needed_memory := False, au_guid_from_server := guid,
      au_outgoing := (if au_unix_fd_possible (cv_auth c) then bytes ''NEGOTIATE_UNIX_FD'' else bytes ''BEGIN'') @ [CR, LF],
      au_state := (if au_unix_fd_possible (cv_auth c) then CLIENT_WAITING_FOR_AGREE_UNIX_FD else AUTHENTICATED)\<rparr>\<rparr>)"
proof -
  let ?a = "(cv_auth c)\<lparr>au_needed_memory := False\<rparr>"
  have "process_line env_c (bytes ''OK'' @ 32 # guid) ?a = Some (True, ?a\<lparr>au_guid_from_server := guid,
      au_outgoing := (if au_unix_fd_possible (cv_auth c) then bytes ''NEGOTIATE_UNIX_FD'' else bytes ''BEGIN'') @ [CR, LF],
      au_state := (if au_unix_fd_possible (cv_auth c) then CLIENT_WAITING_FOR_AGREE_UNIX_FD else AUTHENTICATED)\<rparr>)"
    using client_ok_line [of ?a guid env_c] c h by (simp add: quiet_def handshake_ok_def)
  from deliver_line [OF s _ _ c(1) _ this] show ?thesis
    using c(2) h hex_text [of guid] by (cases "cv_auth c") (auto simp: in_end_state_def handshake_ok_def)
qed

lemma begin_delivery:
  assumes "ready c (bytes ''BEGIN'')" "quiet s" "au_state (cv_auth s) = SERVER_WAITING_FOR_BEGIN"
  shows "deliver env_s c s = Some (c\<lparr>cv_auth := (cv_auth c)\<lparr>au_outgoing := []\<rparr>\<rparr>,
    s\<lparr>cv_auth := (cv_auth s)\<lparr>au_needed_memory := False, au_state := AUTHENTICATED\<rparr>\<rparr>)"
proof -
  have "process_line env_s (bytes ''BEGIN'') ((cv_auth s)\<lparr>au_needed_memory := False\<rparr>) =
      Some (True, (cv_auth s)\<lparr>au_needed_memory := False, au_state := AUTHENTICATED\<rparr>)"
    using server_begin_line [of "(cv_auth s)\<lparr>au_needed_memory := False\<rparr>" env_s] assms by (simp add: quiet_def)
  from deliver_line [OF assms(1) no_cr(4) _ assms(2) _ this] show ?thesis
    using assms by (cases "cv_auth s") (auto simp: in_end_state_def quiet_def)
qed

text \<open>The turn in which the passing of file descriptors is negotiated.\<close>

lemma negotiate_deliveries:
  assumes c: "ready c (bytes ''NEGOTIATE_UNIX_FD'')" "au_state (cv_auth c) = CLIENT_WAITING_FOR_AGREE_UNIX_FD"
      "au_unix_fd_possible (cv_auth c)"
    and s: "quiet s" "au_state (cv_auth s) = SERVER_WAITING_FOR_BEGIN" "\<not> au_unix_fd_negotiated (cv_auth s)"
  shows "\<exists>s1. deliver env_s c s = Some (c\<lparr>cv_auth := (cv_auth c)\<lparr>au_outgoing := []\<rparr>\<rparr>, s1) \<and>
    deliver env_c s1 (c\<lparr>cv_auth := (cv_auth c)\<lparr>au_outgoing := []\<rparr>\<rparr>) =
      Some (s\<lparr>cv_auth := (cv_auth s)\<lparr>au_needed_memory := False, au_unix_fd_negotiated := au_unix_fd_possible (cv_auth s)\<rparr>\<rparr>,
        c\<lparr>cv_auth := (cv_auth c)\<lparr>au_needed_memory := False, au_unix_fd_negotiated := au_unix_fd_possible (cv_auth s),
          au_outgoing := bytes ''BEGIN'' @ [CR, LF], au_state := AUTHENTICATED\<rparr>\<rparr>)"
proof -
  let ?c = "c\<lparr>cv_auth := (cv_auth c)\<lparr>au_outgoing := []\<rparr>\<rparr>"
  let ?a = "(cv_auth s)\<lparr>au_needed_memory := False\<rparr>" and ?b = "(cv_auth ?c)\<lparr>au_needed_memory := False\<rparr>"
  have c1: "quiet ?c" "\<not> in_end_state env_c (cv_auth ?c)" using c by (simp_all add: quiet_def ready_def in_end_state_def)
  have s1: "\<not> in_end_state env_s (cv_auth s)" using s by (simp add: in_end_state_def)
  have first: "deliver env_s c s = Some (?c, s\<lparr>cv_auth := a\<lparr>au_needed_memory := False\<rparr>\<rparr>)"
    if "process_line env_s (bytes ''NEGOTIATE_UNIX_FD'') ?a = Some (True, a)" "length (au_outgoing a) \<le> 16002" for a
    using deliver_line [OF c(1) no_cr(2) _ s(1) s1 that] by simp
  show ?thesis
  proof (cases "au_unix_fd_possible (cv_auth s)")
    case True
    let ?s = "s\<lparr>cv_auth := ?a\<lparr>au_unix_fd_negotiated := True, au_outgoing := bytes ''AGREE_UNIX_FD'' @ [CR, LF]\<rparr>\<rparr>"
    have "deliver env_s c s = Some (?c, ?s)"
      using first [of "?a\<lparr>au_unix_fd_negotiated := True, au_outgoing := bytes ''AGREE_UNIX_FD'' @ [CR, LF]\<rparr>"]
        server_negotiate_line [of ?a env_s] s True by (cases "cv_auth s") (simp add: quiet_def)
    moreover have "process_line env_c (bytes ''AGREE_UNIX_FD'') ?b = Some (True, ?b\<lparr>au_unix_fd_negotiated := True,
        au_outgoing := bytes ''BEGIN'' @ [CR, LF], au_state := AUTHENTICATED\<rparr>)"
      using client_agree_line(1) [of ?b env_c] c by (simp add: ready_def)
    moreover have "ready ?s (bytes ''AGREE_UNIX_FD'')" using s by (simp add: quiet_def ready_def)
    ultimately show ?thesis
      using deliver_line [OF _ no_cr(3) _ c1, of ?s] True s
      by (cases s, cases "cv_auth s", cases "cv_auth c") (simp add: quiet_def)
  next
    case False
    let ?s = "s\<lparr>cv_auth := ?a\<lparr>au_outgoing := bytes ''ERROR'' @ 32 # refusal @ [CR, LF]\<rparr>\<rparr>"
    have "deliver env_s c s = Some (?c, ?s)"
      using first [of "?a\<lparr>au_outgoing := bytes ''ERROR'' @ 32 # refusal @ [CR, LF]\<rparr>"]
        server_negotiate_line [of ?a env_s] s False refusal_text(4)
      by (cases "cv_auth s") (simp add: quiet_def refusal_def text_words)
    moreover have "process_line env_c (bytes ''ERROR'' @ 32 # refusal) ?b = Some (True, ?b\<lparr>au_unix_fd_negotiated := False,
        au_outgoing := bytes ''BEGIN'' @ [CR, LF], au_state := AUTHENTICATED\<rparr>)"
      using client_agree_line(2) [of ?b refusal env_c] refusal_text c by (simp add: ready_def)
    moreover have "ready ?s (bytes ''ERROR'' @ 32 # refusal)" using s by (simp add: quiet_def ready_def)
    moreover have "CR \<notin> set (bytes ''ERROR'' @ 32 # refusal)"
      using refusal_text(3) plain_no_cr [OF plain_words(4)] by auto
    ultimately show ?thesis
      using deliver_line [OF _ _ _ c1, of ?s "bytes ''ERROR'' @ 32 # refusal"] False s refusal_text(4)
      by (cases s, cases "cv_auth s", cases "cv_auth c") (simp add: quiet_def)
  qed
qed

lemma handshake_completes:
  assumes h: "handshake_ok env_c env_s mechs creds guid"
    and c0: "start_client env_c fd_c = Some c0" and s0: "start_server mechs creds fd_s guid = Some s0"
  shows "\<exists>c s. turns (if fd_c then 2 else 1) env_c env_s c0 s0 = Some (c, s) \<and>
    au_state (cv_auth c) = AUTHENTICATED \<and> au_state (cv_auth s) = AUTHENTICATED \<and> quiet c \<and> quiet s \<and>
    auth_get_unix_fd_negotiated (cv_auth c) = (fd_c \<and> fd_s) \<and> auth_get_unix_fd_negotiated (cv_auth s) = (fd_c \<and> fd_s) \<and>
    au_guid_from_server (cv_auth c) = guid \<and>
    map_option cr_unix_uid (auth_get_identity (cv_auth s)) = Some (ae_euid env_c)"
proof -
  obtain c1 s1 where 1: "deliver env_s c0 s0 = Some (c1, s1)" "quiet c1" "ready s1 (bytes ''OK'' @ 32 # guid)"
    "au_state (cv_auth c1) = CLIENT_WAITING_FOR_DATA" "au_mech (cv_auth c1) = Some EXTERNAL"
    "au_guid_from_server (cv_auth c1) = []" "\<not> au_unix_fd_negotiated (cv_auth c1)" "au_unix_fd_possible (cv_auth c1) = fd_c"
    "au_state (cv_auth s1) = SERVER_WAITING_FOR_BEGIN" "cr_unix_uid (au_authorized_identity (cv_auth s1)) = ae_euid env_c"
    "au_unix_fd_possible (cv_auth s1) = fd_s" "\<not> au_unix_fd_negotiated (cv_auth s1)"
    using first_delivery [OF h c0 s0] by blast
  define s2 where "s2 = s1\<lparr>cv_auth := (cv_auth s1)\<lparr>au_outgoing := []\<rparr>\<rparr>"
  define c2 where "c2 = c1\<lparr>cv_auth := (cv_auth c1)\<lparr>au_needed_memory := False, au_guid_from_server := guid,
      au_outgoing := (if fd_c then bytes ''NEGOTIATE_UNIX_FD'' else bytes ''BEGIN'') @ [CR, LF],
      au_state := (if fd_c then CLIENT_WAITING_FOR_AGREE_UNIX_FD else AUTHENTICATED)\<rparr>\<rparr>"
  have 2: "deliver env_c s1 c1 = Some (s2, c2)"
    using ok_delivery [OF h 1(3, 2, 4, 5, 6)] 1(8) by (simp add: s2_def c2_def)
  have s2: "quiet s2" "au_state (cv_auth s2) = SERVER_WAITING_FOR_BEGIN" "\<not> au_unix_fd_negotiated (cv_auth s2)"
    "au_unix_fd_possible (cv_auth s2) = fd_s" "cr_unix_uid (au_authorized_identity (cv_auth s2)) = ae_euid env_c"
    using 1 by (simp_all add: s2_def quiet_def ready_def)
  show ?thesis
  proof (cases fd_c)
    case False
    then have "ready c2 (bytes ''BEGIN'')" using 1(2) by (simp add: c2_def quiet_def ready_def)
    from begin_delivery [OF this s2(1, 2), of env_s] show ?thesis
      using False 1 2 s2
      by (auto simp: numeral_2_eq_2 c2_def quiet_def auth_get_unix_fd_negotiated_def auth_get_identity_def)
  next
    case True
    then have "ready c2 (bytes ''NEGOTIATE_UNIX_FD'')" "au_state (cv_auth c2) = CLIENT_WAITING_FOR_AGREE_UNIX_FD"
      "au_unix_fd_possible (cv_auth c2)" using 1(2, 8) by (simp_all add: c2_def quiet_def ready_def)
    from negotiate_deliveries [OF this s2(1-3), of env_s env_c] obtain s3 where 3:
      "deliver env_s c2 s2 = Some (c2\<lparr>cv_auth := (cv_auth c2)\<lparr>au_outgoing := []\<rparr>\<rparr>, s3)"
      "deliver env_c s3 (c2\<lparr>cv_auth := (cv_auth c2)\<lparr>au_outgoing := []\<rparr>\<rparr>) =
        Some (s2\<lparr>cv_auth := (cv_auth s2)\<lparr>au_needed_memory := False, au_unix_fd_negotiated := fd_s\<rparr>\<rparr>,
          c2\<lparr>cv_auth := (cv_auth c2)\<lparr>au_needed_memory := False, au_unix_fd_negotiated := fd_s,
            au_outgoing := bytes ''BEGIN'' @ [CR, LF], au_state := AUTHENTICATED\<rparr>\<rparr>)"
      using s2(4) by auto
    define s4 where "s4 = s2\<lparr>cv_auth := (cv_auth s2)\<lparr>au_needed_memory := False, au_unix_fd_negotiated := fd_s\<rparr>\<rparr>"
    define c4 where "c4 = c2\<lparr>cv_auth := (cv_auth c2)\<lparr>au_needed_memory := False, au_unix_fd_negotiated := fd_s,
            au_outgoing := bytes ''BEGIN'' @ [CR, LF], au_state := AUTHENTICATED\<rparr>\<rparr>"
    have 4: "ready c4 (bytes ''BEGIN'')" "quiet s4" "au_state (cv_auth s4) = SERVER_WAITING_FOR_BEGIN"
      "au_guid_from_server (cv_auth c4) = guid" "au_unix_fd_negotiated (cv_auth c4) = fd_s"
      "au_unix_fd_negotiated (cv_auth s4) = fd_s" "au_state (cv_auth c4) = AUTHENTICATED"
      "cr_unix_uid (au_authorized_identity (cv_auth s4)) = ae_euid env_c"
      using s2 1(2) by (simp_all add: s4_def c4_def c2_def quiet_def ready_def)
    have "turns 2 env_c env_s c0 s0 = deliver env_s c4 s4"
      using 1(1) 2 3 by (simp add: numeral_2_eq_2 s4_def c4_def)
    with begin_delivery [OF 4(1, 2, 3), of env_s] show ?thesis
      using True 4 by (auto simp: quiet_def ready_def auth_get_unix_fd_negotiated_def auth_get_identity_def)
  qed
qed

text \<open>
  C5. A client and a server whose transports deliver each text finish: when the user of the
  client is the user of the socket, EXTERNAL is allowed, the identifier is hexadecimal and
  memory lasts, both are authenticated with empty buffers after three or five deliveries, they
  agree on the passing of file descriptors, which needs both, the client knows the identifier
  and the server the user.
\<close>

theorem auth_handshake:
  assumes "handshake_ok env_c env_s mechs creds guid"
    and "start_client env_c fd_c = Some c0" and "start_server mechs creds fd_s guid = Some s0"
  shows "\<exists>c s. turns (if fd_c then 2 else 1) env_c env_s c0 s0 = Some (c, s) \<and>
    au_state (cv_auth c) = AUTHENTICATED \<and> au_state (cv_auth s) = AUTHENTICATED \<and> quiet c \<and> quiet s \<and>
    auth_get_unix_fd_negotiated (cv_auth c) = (fd_c \<and> fd_s) \<and> auth_get_unix_fd_negotiated (cv_auth s) = (fd_c \<and> fd_s) \<and>
    au_guid_from_server (cv_auth c) = guid \<and>
    map_option cr_unix_uid (auth_get_identity (cv_auth s)) = Some (ae_euid env_c)"
  using assms by (rule handshake_completes)

text \<open>A system with one user, for concrete runs.\<close>

definition one_user :: "64 word \<Rightarrow> auth_env" where
  "one_user uid = \<lparr>ae_get_username = (\<lambda>n name. if name = decimal (unat uid) then Some uid else None), ae_euid = uid,
     ae_new_keyring = (\<lambda>n c context. OTHER_ERROR), ae_best_key = (\<lambda>n k. (- 1, k)),
     ae_random_bytes = (\<lambda>n k. OTHER_ERROR), ae_version = ''1.10.4'', ae_host = LITTLE_ENDIAN\<rparr>"

lemma one_user_ok:
  "handshake_ok (one_user 1000) (one_user 1000) (Some [mechanism_name EXTERNAL]) (credentials_empty\<lparr>cr_unix_uid := 1000\<rparr>) (bytes ''2b'')"
  by (simp add: handshake_ok_def one_user_def allows_external_def hex_value_def bytes_Cons)

theorem auth_handshake_witness:
  "\<exists>c0 s0 c s. start_client (one_user 1000) True = Some c0 \<and>
    start_server (Some [mechanism_name EXTERNAL]) (credentials_empty\<lparr>cr_unix_uid := 1000\<rparr>) False (bytes ''2b'') = Some s0 \<and>
    turns 2 (one_user 1000) (one_user 1000) c0 s0 = Some (c, s) \<and>
    au_state (cv_auth c) = AUTHENTICATED \<and> au_state (cv_auth s) = AUTHENTICATED \<and>
    \<not> auth_get_unix_fd_negotiated (cv_auth c)"
proof -
  obtain c0 where c0: "start_client (one_user 1000) True = Some c0"
    using client_start [of "one_user 1000"] by (auto simp: start_client_def)
  obtain s0 where s0: "start_server (Some [mechanism_name EXTERNAL]) (credentials_empty\<lparr>cr_unix_uid := 1000\<rparr>) False (bytes ''2b'') = Some s0"
    using server_start by blast
  from auth_handshake [OF one_user_ok c0 s0] c0 s0 show ?thesis by auto
qed

section \<open>The server of the conversation is a run\<close>

lemma deliver_to_run:
  assumes "auth_server_run env l creds s" "deliver env c s = Some (c', s')"
  shows "auth_server_run env l creds s'"
proof -
  obtain sent buffer s1 s2 w where "auth_get_buffer s = Some (buffer, s1)" "auth_return_buffer (buffer @ sent) s1 = Some s2"
    "auth_do_work env s2 = Some (w, s')"
    using assms(2) by (auto simp: deliver_def split: option.splits bind_splits)
  with assms(1) show ?thesis by (blast intro: run_receive run_work)
qed

lemma deliver_from_run:
  assumes "auth_server_run env l creds s" "deliver env_c s c = Some (s', c')"
  shows "auth_server_run env l creds s'"
proof -
  obtain n where "auth_bytes_sent n s = Some s'"
    using assms(2) by (auto simp: deliver_def split: option.splits bind_splits)
  with assms(1) show ?thesis by (blast intro: run_sent)
qed

lemma turns_run:
  "auth_server_run env_s l creds s \<Longrightarrow> turns n env_c env_s c s = Some (c', s') \<Longrightarrow> auth_server_run env_s l creds s'"
proof (induction n arbitrary: c s)
  case 0
  then show ?case using deliver_to_run by simp
next
  case (Suc n)
  then obtain c1 s1 s2 c2 where d: "deliver env_s c s = Some (c1, s1)" "deliver env_c s1 c1 = Some (s2, c2)"
    "turns n env_c env_s c2 s2 = Some (c', s')"
    by (auto split: bind_splits)
  from Suc.IH [OF deliver_from_run [OF deliver_to_run [OF Suc.prems(1) d(1)] d(2)] d(3)] show ?case .
qed

lemma start_server_run:
  assumes "start_server (Some l) creds possible guid = Some s"
  shows "auth_server_run env l creds s"
proof -
  obtain s0 where new: "auth_server_new guid [] = Some s0"
    using assms by (auto simp: start_server_def split: option.splits)
  obtain ok b where r: "and_then (auth_set_mechanisms (Some l)) (auth_set_credentials creds) (cv_auth s0) = Some (ok, b)"
    "s = s0\<lparr>cv_auth := auth_set_unix_fd_possible possible b\<rparr>"
    using assms new by (auto simp: start_server_def)
  have mem: "au_mem (cv_auth s0) = []"
    using new by (auto simp: auth_server_new_def auth_new_def Let_def split: prod.splits if_splits option.splits)
  then have "auth_set_mechanisms (Some l) (cv_auth s0) = Some (True, (cv_auth s0)\<lparr>au_allowed_mechs := Some l\<rparr>)"
    by (simp add: auth_set_mechanisms_def done_with_def)
  moreover from this r have "auth_set_credentials creds ((cv_auth s0)\<lparr>au_allowed_mechs := Some l\<rparr>) = Some (True, b)"
    using mem add_all_with_memory [of "credentials_clear (au_credentials (cv_auth s0))" creds]
    by (auto simp: and_then_def auth_set_credentials_def)
  ultimately show ?thesis using run_start [OF new] r(2) by blast
qed

theorem auth_server_safe_witness:
  "\<exists>s identity. auth_server_run (one_user 1000) [mechanism_name EXTERNAL] (credentials_empty\<lparr>cr_unix_uid := 1000\<rparr>) s \<and>
    au_state (cv_auth s) = AUTHENTICATED \<and> auth_get_identity (cv_auth s) = Some identity \<and> cr_unix_uid identity = 1000"
proof -
  let ?creds = "credentials_empty\<lparr>cr_unix_uid := (1000 :: 64 word)\<rparr>" and ?l = "[mechanism_name EXTERNAL]"
  obtain c0 where c0: "start_client (one_user 1000) True = Some c0"
    using client_start [of "one_user 1000"] by (auto simp: start_client_def)
  obtain s0 where s0: "start_server (Some ?l) ?creds True (bytes ''2b'') = Some s0"
    using server_start by blast
  from handshake_completes [OF one_user_ok c0 s0] obtain c s
    where ends: "turns 2 (one_user 1000) (one_user 1000) c0 s0 = Some (c, s)" "au_state (cv_auth s) = AUTHENTICATED"
    by auto
  have run: "auth_server_run (one_user 1000) ?l ?creds s"
    by (rule turns_run [OF start_server_run [OF s0] ends(1)])
  have "mechanism_name DBUS_COOKIE_SHA1 \<notin> set ?l" by (simp add: mechanism_name.simps bytes_Cons)
  from auth_server_safe [OF run this] ends(2) obtain m identity where
    "mechanism_name m \<in> set ?l" "auth_get_identity (cv_auth s) = Some identity"
    "cr_unix_uid identity \<in> {DBUS_UID_UNSET, 1000}" "cr_windows_sid identity = None" 
    "m = EXTERNAL \<longrightarrow> \<not> credentials_are_anonymous identity"
    by (auto simp: credentials_empty_def)
  moreover from this have "m = EXTERNAL" by (cases m) (simp_all add: mechanism_name.simps bytes_Cons)
  ultimately show ?thesis using run ends(2) by (auto simp: credentials_are_anonymous_def)
qed

section \<open>A carriage return of its own\<close>

text \<open>
  A line may hold a carriage return without a line feed. After a blank it ends the skipping, but not
  the way the assertion of \<^verbatim>\<open>_dbus_string_skip_blank\<close> wants it.
\<close>

lemma find_crlf_later:
  "CR \<notin> set w \<Longrightarrow> string_find (w @ 32 # CR # CR # LF # received) 0 [CR, LF] = Some (True, Suc (Suc (length w)))"
proof -
  have "CR \<notin> set w \<Longrightarrow> find_loop (w @ 32 # CR # CR # LF # received) CR [LF] = (True, Suc (Suc (length w)))"
    by (induction w) auto
  moreover assume "CR \<notin> set w"
  ultimately show ?thesis by (simp add: string_find_def string_find_to_def check_def substring_def)
qed

lemma process_line_cr: "plain w \<Longrightarrow> process_line env (w @ [32, CR]) a = None"
proof -
  assume w: "plain w"
  then have "validate_ascii (w @ [32, CR]) 0 (length (w @ [32, CR]))"
    using plain_ascii [OF w] validate_ascii_whole [of "w @ [32, CR]"] by simp
  moreover have "string_find_blank (w @ [32, CR]) 0 = Some (True, length w)"
    using find_blank_plain(2) [OF w, of "[CR]"] by (simp add: string_find_blank_def check_def)
  moreover have "string_skip_blank (w @ [32, CR]) (length w) = None"
    by (simp add: string_skip_blank_def check_def Let_def IS_ASCII_BLANK_def IS_ASCII_WHITE_def byte_at_def nth_append)
  ultimately show ?thesis by (simp add: process_line_def)
qed

text \<open>
  C40. A line whose blank is followed by a carriage return of its own stops either side in the
  middle of the conversation: the assertion after the skipping of blanks fails.
\<close>

theorem auth_work_stops:
  assumes "plain w" "cv_incoming c = w @ 32 # CR # CR # LF # received" "length (cv_incoming c) \<le> MAX_BUFFER"
    and "length (au_outgoing (cv_auth c)) \<le> MAX_BUFFER" "\<not> in_end_state env (cv_auth c)" "au_mem (cv_auth c) = []"
  shows "auth_do_work env c = None"
proof -
  let ?c = "c\<lparr>cv_auth := (cv_auth c)\<lparr>au_needed_memory := False\<rparr>\<rparr>"
  have "process_command env ?c = None"
    using assms(2, 6) find_crlf_later [OF plain_no_cr [OF assms(1)], of received] process_line_cr [OF assms(1)]
    by (simp add: process_command_def)
  then have "work_loop env ?c = None"
    using assms(3-5) by (subst work_loop.simps) (simp add: in_end_state_def)
  then show ?thesis by (simp add: auth_do_work_def)
qed

theorem auth_work_stops_witness:
  "\<exists>s0. start_server None (credentials_empty\<lparr>cr_unix_uid := 1000\<rparr>) True (bytes ''2b'') = Some s0 \<and>
    auth_do_work (one_user 1000) (s0\<lparr>cv_incoming := bytes ''AUTH'' @ [32, CR, CR, LF]\<rparr>) = None"
proof -
  obtain a where "start_server None (credentials_empty\<lparr>cr_unix_uid := 1000\<rparr>) True (bytes ''2b'') =
      Some \<lparr>cv_auth = a, cv_incoming = [], cv_buffer_outstanding = False\<rparr>"
    "au_mem a = []" "au_state a = SERVER_WAITING_FOR_AUTH" "au_outgoing a = []"
    using server_start by blast
  then show ?thesis using auth_work_stops [OF plain_words(1), of
      "\<lparr>cv_auth = a, cv_incoming = bytes ''AUTH'' @ [32, CR, CR, LF], cv_buffer_outstanding = False\<rparr>" "[]" "one_user 1000"]
    by (simp add: MAX_BUFFER_def in_end_state_def)
qed

end
