(* ===== verification/Policy.thy ===== *)
theory Policy
  imports NameQueue Credentials "HOL-Library.Mapping"
begin

text \<open>
  The security policy of the message bus, \<^verbatim>\<open>bus/policy.c\<close>: rules, the policy of the configuration
  and the policy of a client, its optimisation, and the three questions asked of it: may the
  client own a name, send a message, receive a message.

  Rules do not change once they are in a policy, so the lists hold their values; the counting of
  references to rules and policies, and the freeing at zero, are left out. The tables of rules by
  user and by group are finite maps: what \<open>HashRun\<close> proves of the hash tables is what is used of
  them here. Every allocation consumes an answer of the allocator; \<open>None\<close> is a failed assertion
  or a bad pointer followed. What the operating system says of a user is an argument.
\<close>

section \<open>Messages\<close>

text \<open>What the accessor functions of \<^verbatim>\<open>dbus/dbus-message.c\<close> answer for a message.\<close>

record message =
  mg_type :: int
  mg_serial :: "32 word"
  mg_reply_serial :: "32 word"
  mg_no_reply :: bool
  mg_path :: "bytes option"
  mg_interface :: "bytes option"
  mg_member :: "bytes option"
  mg_error_name :: "bytes option"
  mg_destination :: "bytes option"
  mg_sender :: "bytes option"

abbreviation MESSAGE_TYPE_INVALID :: int where "MESSAGE_TYPE_INVALID \<equiv> 0"
abbreviation MESSAGE_TYPE_METHOD_CALL :: int where "MESSAGE_TYPE_METHOD_CALL \<equiv> 1"
abbreviation MESSAGE_TYPE_METHOD_RETURN :: int where "MESSAGE_TYPE_METHOD_RETURN \<equiv> 2"
abbreviation MESSAGE_TYPE_ERROR :: int where "MESSAGE_TYPE_ERROR \<equiv> 3"
abbreviation MESSAGE_TYPE_SIGNAL :: int where "MESSAGE_TYPE_SIGNAL \<equiv> 4"

definition message_has_destination :: "message \<Rightarrow> bytes \<Rightarrow> bool" where
  "message_has_destination m name = (case mg_destination m of None \<Rightarrow> False | Some s \<Rightarrow> s = name)"

definition message_has_sender :: "message \<Rightarrow> bytes \<Rightarrow> bool" where
  "message_has_sender m name = (case mg_sender m of None \<Rightarrow> False | Some s \<Rightarrow> s = name)"

definition message_is_method_call :: "message \<Rightarrow> bytes \<Rightarrow> bytes \<Rightarrow> bool" where
  "message_is_method_call m interface method \<longleftrightarrow>
     mg_type m = MESSAGE_TYPE_METHOD_CALL \<and> mg_member m = Some method \<and>
     (mg_interface m = None \<or> mg_interface m = Some interface)"

section \<open>Rules\<close>

datatype rule_type = RULE_SEND | RULE_RECEIVE | RULE_OWN | RULE_USER | RULE_GROUP

record send_data =
  sd_message_type :: int
  sd_path :: "bytes option"
  sd_interface :: "bytes option"
  sd_member :: "bytes option"
  sd_error :: "bytes option"
  sd_destination :: "bytes option"
  sd_eavesdrop :: bool
  sd_requested_reply :: bool
  sd_log :: bool

record receive_data =
  rd_message_type :: int
  rd_path :: "bytes option"
  rd_interface :: "bytes option"
  rd_member :: "bytes option"
  rd_error :: "bytes option"
  rd_origin :: "bytes option"
  rd_eavesdrop :: bool
  rd_requested_reply :: bool

record own_data =
  od_service_name :: "bytes option"
  od_prefix :: bool

text \<open>The union of a rule, with its tag.\<close>

datatype rule_data =
    Send send_data
  | Receive receive_data
  | Own own_data
  | User "64 word"
  | Group "64 word"

record policy_rule =
  pr_allow :: bool
  pr_d :: rule_data

abbreviation DBUS_GID_UNSET :: "64 word" where "DBUS_GID_UNSET \<equiv> - 1"

fun rule_data_type :: "rule_data \<Rightarrow> rule_type" where
  "rule_data_type (Send _) = RULE_SEND"
| "rule_data_type (Receive _) = RULE_RECEIVE"
| "rule_data_type (Own _) = RULE_OWN"
| "rule_data_type (User _) = RULE_USER"
| "rule_data_type (Group _) = RULE_GROUP"

definition pr_type :: "policy_rule \<Rightarrow> rule_type" where
  "pr_type r = rule_data_type (pr_d r)"

definition rule_is_per_client :: "policy_rule \<Rightarrow> bool" where
  "rule_is_per_client r \<longleftrightarrow> \<not> (pr_type r = RULE_USER \<or> pr_type r = RULE_GROUP)"

fun new_rule_data :: "rule_type \<Rightarrow> bool \<Rightarrow> rule_data" where
  "new_rule_data RULE_USER allow = User DBUS_UID_UNSET"
| "new_rule_data RULE_GROUP allow = Group DBUS_GID_UNSET"
| "new_rule_data RULE_SEND allow =
     Send \<lparr>sd_message_type = MESSAGE_TYPE_INVALID, sd_path = None, sd_interface = None, sd_member = None,
       sd_error = None, sd_destination = None, sd_eavesdrop = False, sd_requested_reply = allow, sd_log = False\<rparr>"
| "new_rule_data RULE_RECEIVE allow =
     Receive \<lparr>rd_message_type = MESSAGE_TYPE_INVALID, rd_path = None, rd_interface = None, rd_member = None,
       rd_error = None, rd_origin = None, rd_eavesdrop = False, rd_requested_reply = allow\<rparr>"
| "new_rule_data RULE_OWN allow = Own \<lparr>od_service_name = None, od_prefix = False\<rparr>"

definition policy_rule_new :: "rule_type \<Rightarrow> bool \<Rightarrow> mem \<Rightarrow> policy_rule option \<times> mem" where
  "policy_rule_new type allow m =
     (let (ok, m) = alloc m in
      (if ok then Some \<lparr>pr_allow = allow, pr_d = new_rule_data type allow\<rparr> else None, m))"

section \<open>The policy of a client\<close>

text \<open>\<^verbatim>\<open>BusClientPolicy\<close> is its list of rules.\<close>

type_synonym client_policy = "policy_rule list"

definition append_rule :: "policy_rule list \<Rightarrow> policy_rule \<Rightarrow> mem \<Rightarrow> bool \<times> policy_rule list \<times> mem" where
  "append_rule rules r m = (let (ok, m) = alloc m in (ok, if ok then rules @ [r] else rules, m))"

definition client_policy_append_rule :: "client_policy \<Rightarrow> policy_rule \<Rightarrow> mem \<Rightarrow> bool \<times> client_policy \<times> mem" where
  "client_policy_append_rule policy r m = append_rule policy r m"

subsection \<open>Optimisation\<close>

text \<open>The rules before a link, without those of a type.\<close>

fun remove_rules_by_type_up_to :: "rule_type \<Rightarrow> policy_rule list \<Rightarrow> policy_rule list" where
  "remove_rules_by_type_up_to type [] = []"
| "remove_rules_by_type_up_to type (r # rs) =
     (if pr_type r = type then remove_rules_by_type_up_to type rs else r # remove_rules_by_type_up_to type rs)"

fun remove_preceding :: "rule_data \<Rightarrow> bool option" where
  "remove_preceding (Send d) = Some
     (sd_message_type d = MESSAGE_TYPE_INVALID \<and> sd_path d = None \<and> sd_interface d = None \<and>
      sd_member d = None \<and> sd_error d = None \<and> sd_destination d = None)"
| "remove_preceding (Receive d) = Some
     (rd_message_type d = MESSAGE_TYPE_INVALID \<and> rd_path d = None \<and> rd_interface d = None \<and>
      rd_member d = None \<and> rd_error d = None \<and> rd_origin d = None)"
| "remove_preceding (Own d) = Some (od_service_name d = None)"
| "remove_preceding (User _) = None"
| "remove_preceding (Group _) = None"

text \<open>The loop, with the rules already passed and kept.\<close>

fun optimize_loop :: "policy_rule list \<Rightarrow> policy_rule list \<Rightarrow> policy_rule list option" where
  "optimize_loop before [] = Some before"
| "optimize_loop before (r # rs) =
     do { b \<leftarrow> remove_preceding (pr_d r);
          optimize_loop ((if b then remove_rules_by_type_up_to (pr_type r) before else before) @ [r]) rs }"

definition client_policy_optimize :: "client_policy \<Rightarrow> client_policy option" where
  "client_policy_optimize policy = optimize_loop [] policy"

subsection \<open>Owning a name\<close>

text \<open>A prefix rule without a name would follow a null pointer.\<close>

definition own_rule_applies :: "own_data \<Rightarrow> bytes \<Rightarrow> bool option" where
  "own_rule_applies d service_name =
     (if \<not> od_prefix d \<and> od_service_name d \<noteq> None then
        do { n \<leftarrow> od_service_name d; Some (string_equal_c_str service_name n) }
      else if od_prefix d then
        do { n \<leftarrow> od_service_name d;
             if \<not> string_starts_with_c_str service_name n then Some False
             else
               let next_char = (service_name @ [0]) ! length n in
               Some (\<not> (next_char \<noteq> 0 \<and> next_char \<noteq> of_char CHR ''.'')) }
      else Some True)"

fun rules_check_can_own_loop :: "policy_rule list \<Rightarrow> bytes \<Rightarrow> bool \<Rightarrow> bool option" where
  "rules_check_can_own_loop [] service_name allowed = Some allowed"
| "rules_check_can_own_loop (r # rs) service_name allowed =
     (case pr_d r of
        Own d \<Rightarrow>
          do { applies \<leftarrow> own_rule_applies d service_name;
               rules_check_can_own_loop rs service_name (if applies then pr_allow r else allowed) }
      | _ \<Rightarrow> rules_check_can_own_loop rs service_name allowed)"

definition client_policy_check_can_own :: "client_policy \<Rightarrow> bytes \<Rightarrow> bool option" where
  "client_policy_check_can_own policy service_name = rules_check_can_own_loop policy service_name False"

subsection \<open>Sending and receiving\<close>

text \<open>A field that rule and message both have, and that differs.\<close>

definition field_differs :: "bytes option \<Rightarrow> bytes option \<Rightarrow> bool" where
  "field_differs rule_field field \<longleftrightarrow> rule_field \<noteq> None \<and> field \<noteq> None \<and> the field \<noteq> the rule_field"

text \<open>A message without an interface: a deny rule applies, an allow rule does not.\<close>

definition interface_differs :: "bool \<Rightarrow> bytes option \<Rightarrow> bytes option \<Rightarrow> bool" where
  "interface_differs allow rule_interface interface \<longleftrightarrow>
     rule_interface \<noteq> None \<and>
     (let no_interface = interface = None in
      no_interface \<and> allow \<or> \<not> no_interface \<and> the interface \<noteq> the rule_interface)"

text \<open>Whether the peer has the name of the rule; the bus itself, the missing peer, is told by the message.\<close>

definition peer_has_name :: "bus \<Rightarrow> bytes \<Rightarrow> connection option \<Rightarrow> bool \<Rightarrow> bool option" where
  "peer_has_name s name peer message_says =
     (case peer of
        None \<Rightarrow> Some message_says
      | Some c \<Rightarrow>
          (case bus_registry_lookup name s of None \<Rightarrow> Some False | Some p \<Rightarrow> bus_service_has_owner p c s))"

definition send_rule_applies ::
    "bus \<Rightarrow> bool \<Rightarrow> connection option \<Rightarrow> message \<Rightarrow> bool \<Rightarrow> send_data \<Rightarrow> bool option" where
  "send_rule_applies s requested_reply receiver m allow d =
     (if sd_message_type d \<noteq> MESSAGE_TYPE_INVALID \<and> mg_type m \<noteq> sd_message_type d then Some False
      else if mg_reply_serial m \<noteq> 0 \<and>
          \<not> requested_reply \<and> allow \<and> sd_requested_reply d \<and> \<not> sd_eavesdrop d then Some False
      else if mg_reply_serial m \<noteq> 0 \<and> requested_reply \<and> \<not> allow \<and> \<not> sd_requested_reply d then Some False
      else if field_differs (sd_path d) (mg_path m) then Some False
      else if interface_differs allow (sd_interface d) (mg_interface m) then Some False
      else if field_differs (sd_member d) (mg_member m) then Some False
      else if field_differs (sd_error d) (mg_error_name m) then Some False
      else
        (case sd_destination d of
           None \<Rightarrow> Some True
         | Some name \<Rightarrow> peer_has_name s name receiver (message_has_destination m name)))"

fun check_can_send_loop ::
    "bus \<Rightarrow> bool \<Rightarrow> connection option \<Rightarrow> message \<Rightarrow> policy_rule list \<Rightarrow> bool \<times> nat \<times> bool \<Rightarrow>
     (bool \<times> nat \<times> bool) option" where
  "check_can_send_loop s requested_reply receiver m [] answer = Some answer"
| "check_can_send_loop s requested_reply receiver m (r # rs) (allowed, toggles, log) =
     (case pr_d r of
        Send d \<Rightarrow>
          do { applies \<leftarrow> send_rule_applies s requested_reply receiver m (pr_allow r) d;
               check_can_send_loop s requested_reply receiver m rs
                 (if applies then (pr_allow r, toggles + 1, sd_log d) else (allowed, toggles, log)) }
      | _ \<Rightarrow> check_can_send_loop s requested_reply receiver m rs (allowed, toggles, log))"

definition client_policy_check_can_send ::
    "client_policy \<Rightarrow> bus \<Rightarrow> bool \<Rightarrow> connection option \<Rightarrow> message \<Rightarrow> bool \<Rightarrow> (bool \<times> nat \<times> bool) option" where
  "client_policy_check_can_send policy s requested_reply receiver m log =
     check_can_send_loop s requested_reply receiver m policy (False, 0, log)"

definition receive_rule_applies ::
    "bus \<Rightarrow> bool \<Rightarrow> bool \<Rightarrow> connection option \<Rightarrow> message \<Rightarrow> bool \<Rightarrow> receive_data \<Rightarrow> bool option" where
  "receive_rule_applies s requested_reply eavesdropping sender m allow d =
     (if rd_message_type d \<noteq> MESSAGE_TYPE_INVALID \<and> mg_type m \<noteq> rd_message_type d then Some False
      else if eavesdropping \<and> allow \<and> \<not> rd_eavesdrop d then Some False
      else if \<not> eavesdropping \<and> \<not> allow \<and> rd_eavesdrop d then Some False
      else if mg_reply_serial m \<noteq> 0 \<and>
          \<not> requested_reply \<and> allow \<and> rd_requested_reply d \<and> \<not> rd_eavesdrop d then Some False
      else if mg_reply_serial m \<noteq> 0 \<and> requested_reply \<and> \<not> allow \<and> \<not> rd_requested_reply d then Some False
      else if field_differs (rd_path d) (mg_path m) then Some False
      else if interface_differs allow (rd_interface d) (mg_interface m) then Some False
      else if field_differs (rd_member d) (mg_member m) then Some False
      else if field_differs (rd_error d) (mg_error_name m) then Some False
      else
        (case rd_origin d of
           None \<Rightarrow> Some True
         | Some name \<Rightarrow> peer_has_name s name sender (message_has_sender m name)))"

fun check_can_receive_loop ::
    "bus \<Rightarrow> bool \<Rightarrow> bool \<Rightarrow> connection option \<Rightarrow> message \<Rightarrow> policy_rule list \<Rightarrow> bool \<times> nat \<Rightarrow>
     (bool \<times> nat) option" where
  "check_can_receive_loop s requested_reply eavesdropping sender m [] answer = Some answer"
| "check_can_receive_loop s requested_reply eavesdropping sender m (r # rs) (allowed, toggles) =
     (case pr_d r of
        Receive d \<Rightarrow>
          do { applies \<leftarrow> receive_rule_applies s requested_reply eavesdropping sender m (pr_allow r) d;
               check_can_receive_loop s requested_reply eavesdropping sender m rs
                 (if applies then (pr_allow r, toggles + 1) else (allowed, toggles)) }
      | _ \<Rightarrow> check_can_receive_loop s requested_reply eavesdropping sender m rs (allowed, toggles))"

definition is_eavesdropping :: "connection option \<Rightarrow> connection option \<Rightarrow> message \<Rightarrow> bool" where
  "is_eavesdropping addressed_recipient proposed_recipient m \<longleftrightarrow>
     addressed_recipient \<noteq> proposed_recipient \<and> mg_destination m \<noteq> None"

definition client_policy_check_can_receive ::
    "client_policy \<Rightarrow> bus \<Rightarrow> bool \<Rightarrow> connection option \<Rightarrow> connection option \<Rightarrow> connection option \<Rightarrow> message \<Rightarrow>
     (bool \<times> nat) option" where
  "client_policy_check_can_receive policy s requested_reply sender addressed_recipient proposed_recipient m =
     check_can_receive_loop s requested_reply (is_eavesdropping addressed_recipient proposed_recipient m)
       sender m policy (False, 0)"

section \<open>The policy of the configuration\<close>

record bus_policy =
  bp_default_rules :: "policy_rule list"
  bp_mandatory_rules :: "policy_rule list"
  bp_rules_by_uid :: "(64 word, policy_rule list) mapping"
  bp_rules_by_gid :: "(64 word, policy_rule list) mapping"
  bp_at_console_true_rules :: "policy_rule list"
  bp_at_console_false_rules :: "policy_rule list"

definition policy_empty :: bus_policy where
  "policy_empty = \<lparr>bp_default_rules = [], bp_mandatory_rules = [], bp_rules_by_uid = Mapping.empty,
     bp_rules_by_gid = Mapping.empty, bp_at_console_true_rules = [], bp_at_console_false_rules = []\<rparr>"

text \<open>The policy, and its two tables.\<close>

definition policy_new :: "mem \<Rightarrow> bus_policy option \<times> mem" where
  "policy_new m =
     (let (ok, m) = alloc m in
      if \<not> ok then (None, m)
      else
        let (ok, m) = alloc m in
        if \<not> ok then (None, m)
        else let (ok, m) = alloc m in (if ok then Some policy_empty else None, m))"

definition policy_append_default_rule :: "bus_policy \<Rightarrow> policy_rule \<Rightarrow> mem \<Rightarrow> bool \<times> bus_policy \<times> mem" where
  "policy_append_default_rule p r m =
     (let (ok, rs, m) = append_rule (bp_default_rules p) r m in (ok, p\<lparr>bp_default_rules := rs\<rparr>, m))"

definition policy_append_mandatory_rule :: "bus_policy \<Rightarrow> policy_rule \<Rightarrow> mem \<Rightarrow> bool \<times> bus_policy \<times> mem" where
  "policy_append_mandatory_rule p r m =
     (let (ok, rs, m) = append_rule (bp_mandatory_rules p) r m in (ok, p\<lparr>bp_mandatory_rules := rs\<rparr>, m))"

text \<open>The list of a key, made empty if there is none: the list and its entry are allocated.\<close>

definition get_list ::
    "(64 word, policy_rule list) mapping \<Rightarrow> 64 word \<Rightarrow> mem \<Rightarrow>
     policy_rule list option \<times> (64 word, policy_rule list) mapping \<times> mem" where
  "get_list hash key m =
     (case Mapping.lookup hash key of
        Some l \<Rightarrow> (Some l, hash, m)
      | None \<Rightarrow>
          let (ok, m) = alloc m in
          if \<not> ok then (None, hash, m)
          else
            let (ok, m) = alloc m in
            if \<not> ok then (None, hash, m) else (Some [], Mapping.update key [] hash, m))"

definition append_keyed_rule ::
    "(64 word, policy_rule list) mapping \<Rightarrow> 64 word \<Rightarrow> policy_rule \<Rightarrow> mem \<Rightarrow>
     bool \<times> (64 word, policy_rule list) mapping \<times> mem" where
  "append_keyed_rule hash key r m =
     (let (l, hash, m) = get_list hash key m in
      case l of
        None \<Rightarrow> (False, hash, m)
      | Some l \<Rightarrow> let (ok, l, m) = append_rule l r m in (ok, Mapping.update key l hash, m))"

definition policy_append_user_rule ::
    "bus_policy \<Rightarrow> 64 word \<Rightarrow> policy_rule \<Rightarrow> mem \<Rightarrow> bool \<times> bus_policy \<times> mem" where
  "policy_append_user_rule p uid r m =
     (let (ok, t, m) = append_keyed_rule (bp_rules_by_uid p) uid r m in (ok, p\<lparr>bp_rules_by_uid := t\<rparr>, m))"

definition policy_append_group_rule ::
    "bus_policy \<Rightarrow> 64 word \<Rightarrow> policy_rule \<Rightarrow> mem \<Rightarrow> bool \<times> bus_policy \<times> mem" where
  "policy_append_group_rule p gid r m =
     (let (ok, t, m) = append_keyed_rule (bp_rules_by_gid p) gid r m in (ok, p\<lparr>bp_rules_by_gid := t\<rparr>, m))"

definition policy_append_console_rule ::
    "bus_policy \<Rightarrow> bool \<Rightarrow> policy_rule \<Rightarrow> mem \<Rightarrow> bool \<times> bus_policy \<times> mem" where
  "policy_append_console_rule p at_console r m =
     (if at_console then
        let (ok, rs, m) = append_rule (bp_at_console_true_rules p) r m in
        (ok, p\<lparr>bp_at_console_true_rules := rs\<rparr>, m)
      else
        let (ok, rs, m) = append_rule (bp_at_console_false_rules p) r m in
        (ok, p\<lparr>bp_at_console_false_rules := rs\<rparr>, m))"

subsection \<open>Merging\<close>

fun copy_links :: "policy_rule list \<Rightarrow> mem \<Rightarrow> bool \<times> mem" where
  "copy_links [] m = (True, m)"
| "copy_links (r # rs) m = (let (ok, m) = alloc m in if ok then copy_links rs m else (False, m))"

text \<open>All links are allocated before the first rule is appended.\<close>

definition append_copy_of_policy_list ::
    "policy_rule list \<Rightarrow> policy_rule list \<Rightarrow> mem \<Rightarrow> bool \<times> policy_rule list \<times> mem" where
  "append_copy_of_policy_list l to_append m =
     (let (ok, m) = copy_links to_append m in (ok, if ok then l @ to_append else l, m))"

text \<open>The entries to absorb, in the order the iterator of the hash table yields them.\<close>

fun merge_id_hash ::
    "(64 word, policy_rule list) mapping \<Rightarrow> (64 word \<times> policy_rule list) list \<Rightarrow> mem \<Rightarrow>
     bool \<times> (64 word, policy_rule list) mapping \<times> mem" where
  "merge_id_hash dest [] m = (True, dest, m)"
| "merge_id_hash dest ((key, l) # entries) m =
     (let (target, dest, m) = get_list dest key m in
      case target of
        None \<Rightarrow> (False, dest, m)
      | Some target \<Rightarrow>
          let (ok, target, m) = append_copy_of_policy_list target l m;
              dest = Mapping.update key target dest in
          if \<not> ok then (False, dest, m) else merge_id_hash dest entries m)"

text \<open>\<open>entries\<close> is the iteration over a table. What was merged before a failure stays merged.\<close>

definition policy_merge ::
    "((64 word, policy_rule list) mapping \<Rightarrow> (64 word \<times> policy_rule list) list) \<Rightarrow>
     bus_policy \<Rightarrow> bus_policy \<Rightarrow> mem \<Rightarrow> bool \<times> bus_policy \<times> mem" where
  "policy_merge entries p q m =
     (let (ok, rs, m) = append_copy_of_policy_list (bp_default_rules p) (bp_default_rules q) m;
          p = p\<lparr>bp_default_rules := rs\<rparr> in
      if \<not> ok then (False, p, m) else
      let (ok, rs, m) = append_copy_of_policy_list (bp_mandatory_rules p) (bp_mandatory_rules q) m;
          p = p\<lparr>bp_mandatory_rules := rs\<rparr> in
      if \<not> ok then (False, p, m) else
      let (ok, rs, m) = append_copy_of_policy_list (bp_at_console_true_rules p) (bp_at_console_true_rules q) m;
          p = p\<lparr>bp_at_console_true_rules := rs\<rparr> in
      if \<not> ok then (False, p, m) else
      let (ok, rs, m) = append_copy_of_policy_list (bp_at_console_false_rules p) (bp_at_console_false_rules q) m;
          p = p\<lparr>bp_at_console_false_rules := rs\<rparr> in
      if \<not> ok then (False, p, m) else
      let (ok, t, m) = merge_id_hash (bp_rules_by_uid p) (entries (bp_rules_by_uid q)) m;
          p = p\<lparr>bp_rules_by_uid := t\<rparr> in
      if \<not> ok then (False, p, m) else
      let (ok, t, m) = merge_id_hash (bp_rules_by_gid p) (entries (bp_rules_by_gid q)) m;
          p = p\<lparr>bp_rules_by_gid := t\<rparr> in
      (ok, p, m))"

subsection \<open>From the configuration to a client\<close>

text \<open>
  What the system says of the peer: its user, if known, the groups of that user (\<open>None\<close> when
  they cannot be looked up), and whether it is at the console (\<open>None\<close> when that sets an error).
\<close>

record peer =
  pe_unix_user :: "64 word option"
  pe_groups_of_uid :: "64 word \<Rightarrow> 64 word list option"
  pe_at_console :: "64 word \<Rightarrow> bool option"

text \<open>\<^verbatim>\<open>bus_connection_get_unix_groups\<close>; it sets no error when the look-up fails.\<close>

definition connection_get_unix_groups :: "peer \<Rightarrow> 64 word list option" where
  "connection_get_unix_groups c = (case pe_unix_user c of None \<Rightarrow> Some [] | Some uid \<Rightarrow> pe_groups_of_uid c uid)"

fun add_list_to_client :: "policy_rule list \<Rightarrow> client_policy \<Rightarrow> mem \<Rightarrow> bool \<times> client_policy \<times> mem" where
  "add_list_to_client [] client m = (True, client, m)"
| "add_list_to_client (r # rs) client m =
     (if pr_type r = RULE_USER \<or> pr_type r = RULE_GROUP then add_list_to_client rs client m
      else
        let (ok, client, m) = client_policy_append_rule client r m in
        if \<not> ok then (False, client, m) else add_list_to_client rs client m)"

fun add_group_lists ::
    "(64 word, policy_rule list) mapping \<Rightarrow> 64 word list \<Rightarrow> client_policy \<Rightarrow> mem \<Rightarrow> bool \<times> client_policy \<times> mem" where
  "add_group_lists hash [] client m = (True, client, m)"
| "add_group_lists hash (g # gs) client m =
     (case Mapping.lookup hash g of
        None \<Rightarrow> add_group_lists hash gs client m
      | Some l \<Rightarrow>
          let (ok, client, m) = add_list_to_client l client m in
          if \<not> ok then (False, client, m) else add_group_lists hash gs client m)"

datatype policy_error = POLICY_NO_MEMORY | POLICY_CONSOLE_ERROR

definition add_user_rules ::
    "bus_policy \<Rightarrow> 64 word \<Rightarrow> client_policy \<Rightarrow> mem \<Rightarrow> bool \<times> client_policy \<times> mem" where
  "add_user_rules p uid client m =
     (if Mapping.is_empty (bp_rules_by_uid p) then (True, client, m)
      else
        case Mapping.lookup (bp_rules_by_uid p) uid of
          None \<Rightarrow> (True, client, m)
        | Some l \<Rightarrow> add_list_to_client l client m)"

definition add_console_rules ::
    "bus_policy \<Rightarrow> bool option \<Rightarrow> client_policy \<Rightarrow> mem \<Rightarrow> (policy_error + client_policy) \<times> mem" where
  "add_console_rules p at_console client m =
     (case at_console of
        None \<Rightarrow> (Inl POLICY_CONSOLE_ERROR, m)
      | Some b \<Rightarrow>
          let (ok, client, m) =
            add_list_to_client (if b then bp_at_console_true_rules p else bp_at_console_false_rules p) client m in
          (if ok then Inr client else Inl POLICY_NO_MEMORY, m))"

text \<open>
  The group rules: without any, the groups are not looked up. A failed look-up leaves no error
  set, and at the label \<^verbatim>\<open>failed\<close> it is asserted that one is.
\<close>

definition add_group_rules ::
    "bus_policy \<Rightarrow> peer \<Rightarrow> client_policy \<Rightarrow> mem \<Rightarrow> ((policy_error + client_policy) \<times> mem) option" where
  "add_group_rules p c client m =
     (if Mapping.is_empty (bp_rules_by_gid p) then Some (Inr client, m)
      else
        do { groups \<leftarrow> connection_get_unix_groups c;
             let (ok, client, m) = add_group_lists (bp_rules_by_gid p) groups client m in
             Some (if ok then Inr client else Inl POLICY_NO_MEMORY, m) })"

text \<open>The user's rules and those of the console.\<close>

definition add_peer_rules ::
    "bus_policy \<Rightarrow> peer \<Rightarrow> client_policy \<Rightarrow> mem \<Rightarrow> (policy_error + client_policy) \<times> mem" where
  "add_peer_rules p c client m =
     (case pe_unix_user c of
        None \<Rightarrow> (Inr client, m)
      | Some uid \<Rightarrow>
          let (ok, client, m) = add_user_rules p uid client m in
          if \<not> ok then (Inl POLICY_NO_MEMORY, m) else add_console_rules p (pe_at_console c uid) client m)"

definition policy_create_client_policy ::
    "bus_policy \<Rightarrow> peer \<Rightarrow> mem \<Rightarrow> ((policy_error + client_policy) \<times> mem) option" where
  "policy_create_client_policy p c m =
     (let (ok, m) = alloc m in
      if \<not> ok then Some (Inl POLICY_NO_MEMORY, m)
      else
        let (ok, client, m) = add_list_to_client (bp_default_rules p) [] m in
        if \<not> ok then Some (Inl POLICY_NO_MEMORY, m)
        else
          do { (answer, m) \<leftarrow> add_group_rules p c client m;
               case answer of
                 Inl e \<Rightarrow> Some (Inl e, m)
               | Inr client \<Rightarrow>
                   (case add_peer_rules p c client m of
                      (Inl e, m) \<Rightarrow> Some (Inl e, m)
                    | (Inr client, m) \<Rightarrow>
                        let (ok, client, m) = add_list_to_client (bp_mandatory_rules p) client m in
                        if \<not> ok then Some (Inl POLICY_NO_MEMORY, m)
                        else do { client \<leftarrow> client_policy_optimize client; Some (Inr client, m) }) })"

subsection \<open>Who may connect\<close>

definition user_rule_applies :: "64 word \<Rightarrow> 64 word list \<Rightarrow> rule_data \<Rightarrow> bool" where
  "user_rule_applies uid group_ids d =
     (case d of
        User u \<Rightarrow> if u = DBUS_UID_UNSET then True else u = uid
      | Group g \<Rightarrow> if g = DBUS_GID_UNSET then True else g \<in> set group_ids
      | _ \<Rightarrow> False)"

fun list_allows_user :: "bool \<Rightarrow> policy_rule list \<Rightarrow> 64 word \<Rightarrow> 64 word list \<Rightarrow> bool" where
  "list_allows_user allowed [] uid group_ids = allowed"
| "list_allows_user allowed (r # rs) uid group_ids =
     list_allows_user (if user_rule_applies uid group_ids (pr_d r) then pr_allow r else allowed) rs uid group_ids"

text \<open>The arguments: the groups of the user, if they were found, and whether it owns the process.\<close>

definition policy_allow_unix_user :: "bus_policy \<Rightarrow> 64 word \<Rightarrow> 64 word list option \<Rightarrow> bool \<Rightarrow> bool" where
  "policy_allow_unix_user p uid group_ids is_process_owner =
     (case group_ids of
        None \<Rightarrow> False
      | Some gs \<Rightarrow>
          let allowed = list_allows_user is_process_owner (bp_default_rules p) uid gs in
          list_allows_user allowed (bp_mandatory_rules p) uid gs)"

end
