(* ===== verification/PolicyChecks.thy ===== *)
theory PolicyChecks
  imports Policy
begin

text \<open>
  What the policy of a client decides. The rules are read in the order of the configuration and
  the last one that applies wins; \<open>decides\<close> states that, and the checks, the lists a client's policy
  is put together from and its optimisation are related to it.
\<close>

section \<open>The last rule that applies\<close>

definition decides :: "(policy_rule \<Rightarrow> bool) \<Rightarrow> policy_rule list \<Rightarrow> bool" where
  "decides P rs = (case List.find P (rev rs) of None \<Rightarrow> False | Some r \<Rightarrow> pr_allow r)"

lemma find_append: "List.find P (xs @ ys) = (case List.find P xs of None \<Rightarrow> List.find P ys | Some x \<Rightarrow> Some x)"
  by (induction xs) auto

lemma decides_Nil [simp]: "\<not> decides P []"
  by (simp add: decides_def)

lemma decides_snoc [simp]: "decides P (rs @ [r]) = (if P r then pr_allow r else decides P rs)"
  by (simp add: decides_def)

lemma decides_none: "\<forall>r\<in>set rs. \<not> P r \<Longrightarrow> \<not> decides P rs"
  by (induction rs rule: rev_induct) auto

lemma decides_append:
  "decides P (xs @ ys) = (if \<exists>r\<in>set ys. P r then decides P ys else decides P xs)"
  by (induction ys rule: rev_induct) (auto simp flip: append_assoc)

lemma decides_Cons:
  "decides P (r # rs) = (if \<exists>r\<in>set rs. P r then decides P rs else P r \<and> pr_allow r)"
  using decides_append [of P "[r]" rs] decides_snoc [of P "[]" r] by simp

lemma decides_filter: "(\<And>r. P r \<Longrightarrow> Q r) \<Longrightarrow> decides P (filter Q rs) = decides P rs"
  by (induction rs rule: rev_induct) auto

lemma decides_cong: "(\<And>r. r \<in> set rs \<Longrightarrow> P r = Q r) \<Longrightarrow> decides P rs = decides Q rs"
  by (induction rs rule: rev_induct) auto

section \<open>Optimisation\<close>

text \<open>A rule without a match of its own.\<close>

definition broad :: "policy_rule \<Rightarrow> bool" where
  "broad r \<longleftrightarrow> (case pr_d r of
     Send d \<Rightarrow> sd_message_type d = MESSAGE_TYPE_INVALID \<and>
       (\<forall>f\<in>{sd_path d, sd_interface d, sd_member d, sd_error d, sd_destination d}. f = None)
   | Receive d \<Rightarrow> rd_message_type d = MESSAGE_TYPE_INVALID \<and>
       (\<forall>f\<in>{rd_path d, rd_interface d, rd_member d, rd_error d, rd_origin d}. f = None)
   | Own d \<Rightarrow> od_service_name d = None
   | _ \<Rightarrow> False)"

lemma remove_preceding_broad: "remove_preceding (pr_d r) = Some b \<Longrightarrow> broad r = b"
  by (cases "pr_d r") (auto simp: broad_def)

lemma remove_rules_by_type_up_to_eq:
  "remove_rules_by_type_up_to type rs = filter (\<lambda>r. pr_type r \<noteq> type) rs"
  by (induction rs) auto

lemma remove_preceding_answers:
  "rule_is_per_client r \<Longrightarrow> \<exists>b. remove_preceding (pr_d r) = Some b"
  by (cases "pr_d r") (auto simp: rule_is_per_client_def pr_type_def)

lemma optimize_loop_answers:
  "\<forall>r\<in>set rs. rule_is_per_client r \<Longrightarrow> \<exists>rs'. optimize_loop before rs = Some rs'"
proof (induction rs arbitrary: before)
  case (Cons r rs)
  obtain b where "remove_preceding (pr_d r) = Some b"
    using remove_preceding_answers Cons.prems by force
  with Cons show ?case by simp
qed simp

lemma optimize_loop_set:
  "optimize_loop before rs = Some rs' \<Longrightarrow> set rs' \<subseteq> set before \<union> set rs"
proof (induction rs arbitrary: before)
  case (Cons r rs)
  then show ?case by (fastforce simp: remove_rules_by_type_up_to_eq split: bind_splits if_splits)
qed simp

text \<open>
  A question asked of the rules of one type. A rule that removes the preceding ones of its type
  decides as they would have, or lets nothing through that they would have stopped.
\<close>

lemma optimize_loop_decides:
  assumes type: "\<And>r. P r \<Longrightarrow> pr_type r = type"
    and "optimize_loop before rs = Some rs'"
  shows "(decides P rs' \<longrightarrow> decides P (before @ rs)) \<and>
    ((\<forall>r\<in>set rs. pr_type r = type \<and> broad r \<longrightarrow> P r) \<longrightarrow> decides P rs' = decides P (before @ rs))"
  using assms(2)
proof (induction rs arbitrary: before)
  case (Cons r rs)
  from Cons.prems obtain b where b: "remove_preceding (pr_d r) = Some b"
    by (auto split: bind_splits)
  define kept where "kept = (if b then remove_rules_by_type_up_to (pr_type r) before else before)"
  have kept: "decides P kept = (if b \<and> pr_type r = type then False else decides P before)"
  proof (cases "b \<and> pr_type r = type")
    case True
    then have "\<forall>x\<in>set kept. \<not> P x" using type by (auto simp: kept_def remove_rules_by_type_up_to_eq)
    then show ?thesis using True decides_none by auto
  next
    case False
    then show ?thesis
      using decides_filter [of P "\<lambda>x. pr_type x \<noteq> pr_type r" before] type
      by (auto simp: kept_def remove_rules_by_type_up_to_eq)
  qed
  have "optimize_loop (kept @ [r]) rs = Some rs'" using Cons.prems b by (simp add: kept_def)
  note IH = Cons.IH [OF this]
  have "decides P (kept @ [r]) \<longrightarrow> decides P (before @ [r])"
    using kept by auto
  moreover have "decides P (kept @ [r]) = decides P (before @ [r])" if "pr_type r = type \<and> broad r \<longrightarrow> P r"
    using kept that remove_preceding_broad [OF b] by auto
  ultimately show ?case
    using IH decides_append [of P "kept @ [r]" rs] decides_append [of P "before @ [r]" rs] by (auto split: if_splits)
qed simp

section \<open>The checks\<close>

definition own_used :: "bytes \<Rightarrow> policy_rule \<Rightarrow> bool" where
  "own_used n r \<longleftrightarrow> (\<exists>d. pr_d r = Own d \<and> own_rule_applies d n = Some True)"

definition send_used :: "bus \<Rightarrow> bool \<Rightarrow> connection option \<Rightarrow> message \<Rightarrow> policy_rule \<Rightarrow> bool" where
  "send_used s requested_reply receiver m r \<longleftrightarrow>
     (\<exists>d. pr_d r = Send d \<and> send_rule_applies s requested_reply receiver m (pr_allow r) d = Some True)"

definition receive_used :: "bus \<Rightarrow> bool \<Rightarrow> bool \<Rightarrow> connection option \<Rightarrow> message \<Rightarrow> policy_rule \<Rightarrow> bool" where
  "receive_used s requested_reply eavesdropping sender m r \<longleftrightarrow>
     (\<exists>d. pr_d r = Receive d \<and>
        receive_rule_applies s requested_reply eavesdropping sender m (pr_allow r) d = Some True)"

lemma used_types:
  "own_used n r \<Longrightarrow> pr_type r = RULE_OWN"
  "send_used s b w m r \<Longrightarrow> pr_type r = RULE_SEND"
  "receive_used s b e w m r \<Longrightarrow> pr_type r = RULE_RECEIVE"
  by (auto simp: own_used_def send_used_def receive_used_def pr_type_def)

lemma not_used:
  "pr_type r \<noteq> RULE_OWN \<Longrightarrow> \<not> own_used n r"
  "pr_type r \<noteq> RULE_SEND \<Longrightarrow> \<not> send_used s b w m r"
  "pr_type r \<noteq> RULE_RECEIVE \<Longrightarrow> \<not> receive_used s b e w m r"
  using used_types by blast+

lemma check_loops_skip:
  "pr_type r \<noteq> RULE_OWN \<Longrightarrow> rules_check_can_own_loop (r # rs) n a = rules_check_can_own_loop rs n a"
  "pr_type r \<noteq> RULE_SEND \<Longrightarrow> check_can_send_loop s rr w m (r # rs) x = check_can_send_loop s rr w m rs x"
  "pr_type r \<noteq> RULE_RECEIVE \<Longrightarrow> check_can_receive_loop s rr e w m (r # rs) y = check_can_receive_loop s rr e w m rs y"
  by (cases "pr_d r"; cases x; cases y; simp add: pr_type_def)+

lemma rule_type_cases:
  "pr_type r = RULE_OWN \<longleftrightarrow> (\<exists>d. pr_d r = Own d)"
  "pr_type r = RULE_SEND \<longleftrightarrow> (\<exists>d. pr_d r = Send d)"
  "pr_type r = RULE_RECEIVE \<longleftrightarrow> (\<exists>d. pr_d r = Receive d)"
  by (cases "pr_d r"; simp add: pr_type_def)+

text \<open>A rule for a prefix has one: without, checking it would follow a null pointer.\<close>

definition rule_ok :: "policy_rule \<Rightarrow> bool" where
  "rule_ok r = (case pr_d r of Own d \<Rightarrow> od_prefix d \<longrightarrow> od_service_name d \<noteq> None | _ \<Rightarrow> True)"

lemma string_starts_with_c_str_iff: "string_starts_with_c_str a b \<longleftrightarrow> take (length b) a = b"
  unfolding string_starts_with_c_str_def by (induction a b rule: starts_with_loop.induct) auto

lemma string_equal_c_str_eq: "string_equal_c_str a b \<longleftrightarrow> a = b"
  unfolding string_equal_c_str_def by (induction a b rule: equal_c_str_loop.induct) auto

text \<open>A rule for a prefix is about the name itself and the names below it.\<close>

definition covers :: "own_data \<Rightarrow> bytes \<Rightarrow> bool" where
  "covers d n \<longleftrightarrow>
     (case od_service_name d of
        None \<Rightarrow> True
      | Some p \<Rightarrow> n = p \<or> od_prefix d \<and> (\<exists>xs. n = p @ bytes ''.'' @ xs))"

lemma own_rule_applies_eq:
  assumes "od_prefix d \<longrightarrow> od_service_name d \<noteq> None" "0 \<notin> set n"
  shows "own_rule_applies d n = Some (covers d n)"
proof (cases "od_prefix d")
  case True
  then obtain p where p: "od_service_name d = Some p" using assms(1) by auto
  have "(take (length p) n = p \<and> ((n @ [0]) ! length p = 0 \<or> (n @ [0]) ! length p = of_char CHR ''.'')) \<longleftrightarrow>
      n = p \<or> (\<exists>xs. n = p @ bytes ''.'' @ xs)"
  proof (cases "take (length p) n = p")
    case True
    then obtain q where q: "n = p @ q" by (metis append_take_drop_id)
    show ?thesis using assms(2) q by (cases q) (auto simp: nth_append)
  next
    case False
    then show ?thesis by auto
  qed
  then show ?thesis
    using True p by (auto simp: own_rule_applies_def covers_def string_starts_with_c_str_iff Let_def)
next
  case False
  then show ?thesis
    by (auto simp: own_rule_applies_def covers_def string_equal_c_str_eq split: option.splits)
qed

lemma own_used_eq:
  assumes "rule_ok r" "0 \<notin> set n"
  shows "own_used n r \<longleftrightarrow> (\<exists>d. pr_d r = Own d \<and> covers d n)"
  using assms own_rule_applies_eq [OF _ assms(2)] by (auto simp: own_used_def rule_ok_def)

lemma rules_check_can_own_loop_eq:
  assumes "\<forall>r\<in>set rs. rule_ok r" "0 \<notin> set n"
  shows "rules_check_can_own_loop rs n allowed =
    Some (if \<exists>r\<in>set rs. own_used n r then decides (own_used n) rs else allowed)"
  using assms(1)
proof (induction rs arbitrary: allowed)
  case (Cons r rs)
  then have IH: "rules_check_can_own_loop rs n a =
      Some (if \<exists>r\<in>set rs. own_used n r then decides (own_used n) rs else a)" for a by simp
  show ?case
  proof (cases "pr_type r = RULE_OWN")
    case True
    then obtain d where Own: "pr_d r = Own d" by (auto simp: rule_type_cases)
    then have "own_rule_applies d n = Some (own_used n r)"
      using own_rule_applies_eq [of d n] assms(2) Cons.prems by (auto simp: rule_ok_def own_used_def)
    then show ?thesis using Own IH by (simp add: decides_Cons)
  qed (simp only: check_loops_skip IH simp_thms, simp add: not_used decides_Cons)
qed simp

subsection \<open>Sending and receiving\<close>

text \<open>A connection has a name when it stands in its queue.\<close>

definition has_name :: "bus \<Rightarrow> connection \<Rightarrow> bytes \<Rightarrow> bool" where
  "has_name s c n \<longleftrightarrow> c \<in> conns (names_queue s n)"

lemma peer_has_name_eq:
  assumes "registry_ok s"
  shows "peer_has_name s n peer b = Some (case peer of None \<Rightarrow> b | Some c \<Rightarrow> has_name s c n)"
proof (cases "bs_hash s n")
  case None
  then show ?thesis
    by (auto simp: peer_has_name_def bus_registry_lookup_def has_name_def names_queue_def conns_def split: option.split)
next
  case (Some p)
  then obtain v where v: "bs_services s p = Some v" by (rule hash_service [OF assms])
  have "bus_service_has_owner p c s = Some (\<exists>w\<in>set (sv_owners v). conn_of s w = c)" for c
    using find_owner_link_eq [OF _ v, of "{#}" "{#}" c] assms
      find_None_iff [of "\<lambda>w. conn_of s w = c" "sv_owners v"]
    by (auto simp add: bus_service_has_owner_def registry_ok_def simp del: not_None_eq)
  moreover have "has_name s c n \<longleftrightarrow> (\<exists>w\<in>set (sv_owners v). conn_of s w = c)" for c
    using Some v by (auto simp: has_name_def names_queue_def queue_of_def conns_def image_iff)
  ultimately show ?thesis
    using Some by (simp add: peer_has_name_def bus_registry_lookup_def split: option.split)
qed

lemma if_answers: "\<exists>b. x = Some b \<Longrightarrow> \<exists>b. y = Some b \<Longrightarrow> \<exists>b. (if c then x else y) = Some b"
  by simp

lemma some_answers: "\<exists>b. Some x = Some b"
  by simp

lemma applies_answers:
  assumes "registry_ok s"
  shows "\<exists>b. send_rule_applies s rr receiver m allow d = Some b"
    and "\<exists>b. receive_rule_applies s rr e sender m allow d' = Some b"
  unfolding send_rule_applies_def receive_rule_applies_def
  by (intro if_answers some_answers; auto simp: peer_has_name_eq [OF assms] split: option.split)+

lemma check_can_send_loop_eq:
  assumes "registry_ok s"
  shows "\<exists>log'. check_can_send_loop s rr receiver m rs (allowed, toggles, log) =
    Some (if \<exists>r\<in>set rs. send_used s rr receiver m r then decides (send_used s rr receiver m) rs else allowed,
      toggles + length (filter (send_used s rr receiver m) rs), log')"
proof (induction rs arbitrary: allowed toggles log)
  case (Cons r rs)
  show ?case
  proof (cases "pr_type r = RULE_SEND")
    case True
    then obtain d where Send: "pr_d r = Send d" by (auto simp: rule_type_cases)
    obtain b where b: "send_rule_applies s rr receiver m (pr_allow r) d = Some b"
      using applies_answers [OF assms] by blast
    then have "send_used s rr receiver m r \<longleftrightarrow> b" using Send by (simp add: send_used_def)
    then show ?thesis
      using Send b Cons.IH [of "pr_allow r" "toggles + 1" "sd_log d"] Cons.IH [of allowed toggles log]
      by (cases b) (auto simp: decides_Cons)
  next
    case False
    then show ?thesis
      using Cons.IH [of allowed toggles log] by (simp only: check_loops_skip simp_thms) (auto simp: not_used decides_Cons)
  qed
qed simp

lemma check_can_receive_loop_eq:
  assumes "registry_ok s"
  shows "check_can_receive_loop s rr e sender m rs (allowed, toggles) =
    Some (if \<exists>r\<in>set rs. receive_used s rr e sender m r then decides (receive_used s rr e sender m) rs else allowed,
      toggles + length (filter (receive_used s rr e sender m) rs))"
proof (induction rs arbitrary: allowed toggles)
  case (Cons r rs)
  show ?case
  proof (cases "pr_type r = RULE_RECEIVE")
    case True
    then obtain d where Receive: "pr_d r = Receive d" by (auto simp: rule_type_cases)
    obtain b where b: "receive_rule_applies s rr e sender m (pr_allow r) d = Some b"
      using applies_answers [OF assms] by blast
    then have "receive_used s rr e sender m r \<longleftrightarrow> b" using Receive by (simp add: receive_used_def)
    then show ?thesis using Receive b Cons.IH by (cases b) (simp_all add: decides_Cons)
  qed (simp only: check_loops_skip Cons.IH simp_thms, simp add: not_used decides_Cons)
qed simp

section \<open>The policy made for a client\<close>

definition group_rules :: "bus_policy \<Rightarrow> peer \<Rightarrow> policy_rule list" where
  "group_rules p c =
     (case connection_get_unix_groups c of
        None \<Rightarrow> []
      | Some gs \<Rightarrow> concat (map (Mapping.lookup_default [] (bp_rules_by_gid p)) gs))"

definition user_rules :: "bus_policy \<Rightarrow> peer \<Rightarrow> policy_rule list" where
  "user_rules p c =
     (case pe_unix_user c of
        None \<Rightarrow> []
      | Some uid \<Rightarrow> Mapping.lookup_default [] (bp_rules_by_uid p) uid @
          (if pe_at_console c uid = Some True then bp_at_console_true_rules p else bp_at_console_false_rules p))"

text \<open>The rules of the configuration that concern a client, the weakest first.\<close>

definition rules_for :: "bus_policy \<Rightarrow> peer \<Rightarrow> policy_rule list" where
  "rules_for p c =
     filter rule_is_per_client
       (bp_default_rules p @ group_rules p c @ user_rules p c @ bp_mandatory_rules p)"

lemma lookup_default_cases:
  "Mapping.lookup_default d t k = (case Mapping.lookup t k of None \<Rightarrow> d | Some v \<Rightarrow> v)"
  by (simp add: Mapping.lookup_default_def)

lemma is_empty_lookup: "Mapping.is_empty t \<Longrightarrow> Mapping.lookup t k = None"
  by (metis Mapping.is_empty_empty Mapping.lookup_empty Mapping.keys_empty Mapping.keys_is_none_rep
      Option.is_none_def empty_iff Mapping.is_empty_def)

lemma add_list_to_client_eq:
  "add_list_to_client rs client m = (True, client', m') \<Longrightarrow> client' = client @ filter rule_is_per_client rs"
  by (induction rs client m rule: add_list_to_client.induct)
    (auto simp: rule_is_per_client_def client_policy_append_rule_def append_rule_def split: if_splits prod.splits)

lemma add_group_lists_eq:
  "add_group_lists t gs client m = (True, client', m') \<Longrightarrow>
   client' = client @ filter rule_is_per_client (concat (map (Mapping.lookup_default [] t) gs))"
proof (induction gs arbitrary: client m)
  case (Cons g gs)
  show ?case
  proof (cases "Mapping.lookup t g")
    case None
    then show ?thesis using Cons.prems Cons.IH by (simp add: lookup_default_cases)
  next
    case (Some l)
    then obtain client1 m1 where "add_list_to_client l client m = (True, client1, m1)"
        "add_group_lists t gs client1 m1 = (True, client', m')"
      using Cons.prems by (auto split: prod.splits if_splits)
    then show ?thesis using Some Cons.IH [of client1 m1] add_list_to_client_eq [of l client m client1 m1]
      by (simp add: lookup_default_cases)
  qed
qed simp

lemma add_group_rules_eq:
  "add_group_rules p c client m = Some (Inr client', m') \<Longrightarrow>
   client' = client @ filter rule_is_per_client (group_rules p c)"
  by (auto simp: add_group_rules_def group_rules_def lookup_default_cases is_empty_lookup
      dest!: add_group_lists_eq split: if_splits bind_splits prod.splits option.splits)

lemma add_peer_rules_eq:
  "add_peer_rules p c client m = (Inr client', m') \<Longrightarrow>
   client' = client @ filter rule_is_per_client (user_rules p c)"
  by (auto simp: add_peer_rules_def add_user_rules_def add_console_rules_def user_rules_def lookup_default_cases
      is_empty_lookup dest!: add_list_to_client_eq split: if_splits prod.splits option.splits)

lemma create_client_policy_eq:
  assumes "policy_create_client_policy p c m = Some (Inr client, m')"
  shows "client_policy_optimize (rules_for p c) = Some client"
  using assms
  by (auto simp: policy_create_client_policy_def rules_for_def
      dest!: add_list_to_client_eq add_group_rules_eq add_peer_rules_eq
      split: if_splits bind_splits prod.splits sum.splits)

text \<open>The state every policy of a configuration is in: rules for prefixes have one.\<close>

definition table_ok :: "(64 word, policy_rule list) mapping \<Rightarrow> bool" where
  "table_ok t \<longleftrightarrow> (\<forall>k l. Mapping.lookup t k = Some l \<longrightarrow> list_all rule_ok l)"

definition policy_ok :: "bus_policy \<Rightarrow> bool" where
  "policy_ok p \<longleftrightarrow> list_all rule_ok (bp_default_rules p) \<and> list_all rule_ok (bp_mandatory_rules p) \<and>
     table_ok (bp_rules_by_uid p) \<and> table_ok (bp_rules_by_gid p) \<and>
     list_all rule_ok (bp_at_console_true_rules p) \<and> list_all rule_ok (bp_at_console_false_rules p)"

lemma table_okD: "table_ok t \<Longrightarrow> \<forall>r\<in>set (Mapping.lookup_default [] t k). rule_ok r"
  by (cases "Mapping.lookup t k") (auto simp: table_ok_def lookup_default_cases list_all_iff)

lemma rules_for_ok: "policy_ok p \<Longrightarrow> \<forall>r\<in>set (rules_for p c). rule_ok r"
  by (auto simp: rules_for_def policy_ok_def group_rules_def user_rules_def list_all_iff
      dest: table_okD split: option.splits if_splits)

lemma rules_for_per_client: "\<forall>r\<in>set (rules_for p c). rule_is_per_client r"
  by (auto simp: rules_for_def)

text \<open>An optimised list decides like the list it was made from, or denies.\<close>

lemma optimize_decides:
  assumes "client_policy_optimize rs = Some rs'" "\<And>r. P r \<Longrightarrow> pr_type r = type"
  shows "decides P rs' \<Longrightarrow> decides P rs"
    and "\<forall>r\<in>set rs. pr_type r = type \<and> broad r \<longrightarrow> P r \<Longrightarrow> decides P rs' = decides P rs"
  using optimize_loop_decides [OF assms(2) assms(1) [unfolded client_policy_optimize_def]] by simp_all

lemma broad_own_used: "rule_ok r \<Longrightarrow> pr_type r = RULE_OWN \<Longrightarrow> broad r \<Longrightarrow> own_used n r"
  by (auto simp: rule_type_cases broad_def own_used_def own_rule_applies_def rule_ok_def)

lemma broad_send_used: "mg_reply_serial m = 0 \<Longrightarrow> pr_type r = RULE_SEND \<Longrightarrow> broad r \<Longrightarrow> send_used s rr receiver m r"
  by (auto simp: rule_type_cases broad_def send_used_def send_rule_applies_def field_differs_def interface_differs_def)

lemma checks_eq:
  assumes "registry_ok s"
  shows "\<exists>toggles log'. client_policy_check_can_send rs s rr receiver m log =
      Some (decides (send_used s rr receiver m) rs, toggles, log')"
    and "\<exists>toggles. client_policy_check_can_receive rs s rr sender addressed proposed m =
      Some (decides (receive_used s rr (is_eavesdropping addressed proposed m) sender m) rs, toggles)"
  using check_can_send_loop_eq [OF assms, of rr receiver m rs False 0 log]
    decides_none [of rs "send_used s rr receiver m"]
    decides_none [of rs "receive_used s rr (is_eavesdropping addressed proposed m) sender m"]
  by (auto simp: client_policy_check_can_send_def client_policy_check_can_receive_def
      check_can_receive_loop_eq [OF assms] split: if_splits)

lemma can_own_eq:
  assumes "\<forall>r\<in>set rs. rule_ok r" "0 \<notin> set n"
  shows "client_policy_check_can_own rs n = Some (decides (own_used n) rs)"
  using decides_none [of rs "own_used n"]
  by (auto simp: client_policy_check_can_own_def rules_check_can_own_loop_eq [OF assms])

lemma client_check_can_send:
  assumes "client_policy_optimize rs = Some client" "registry_ok s"
  shows "\<exists>allowed toggles log'.
    client_policy_check_can_send client s rr receiver m log = Some (allowed, toggles, log') \<and>
    (let used = send_used s rr receiver m in
     (allowed \<longrightarrow> decides used rs) \<and>
     (mg_reply_serial m = 0 \<or> (\<forall>r\<in>set rs. pr_type r = RULE_SEND \<and> broad r \<longrightarrow> used r) \<longrightarrow>
        allowed = decides used rs))"
proof -
  have "\<forall>r\<in>set rs. pr_type r = RULE_SEND \<and> broad r \<longrightarrow> send_used s rr receiver m r" if "mg_reply_serial m = 0"
    using broad_send_used [OF that] by blast
  moreover obtain toggles log' where "client_policy_check_can_send client s rr receiver m log =
      Some (decides (send_used s rr receiver m) client, toggles, log')"
    using checks_eq(1) [OF assms(2)] by blast
  ultimately show ?thesis
    using optimize_decides [OF assms(1), of "send_used s rr receiver m" RULE_SEND] used_types(2)
    by (simp add: Let_def)
qed

lemma client_check_can_receive:
  assumes "client_policy_optimize rs = Some client" "registry_ok s"
  shows "\<exists>allowed toggles.
    client_policy_check_can_receive client s rr sender addressed proposed m = Some (allowed, toggles) \<and>
    (let used = receive_used s rr (is_eavesdropping addressed proposed m) sender m in
     (allowed \<longrightarrow> decides used rs) \<and>
     ((\<forall>r\<in>set rs. pr_type r = RULE_RECEIVE \<and> broad r \<longrightarrow> used r) \<longrightarrow> allowed = decides used rs))"
proof -
  let ?used = "receive_used s rr (is_eavesdropping addressed proposed m) sender m"
  obtain toggles where "client_policy_check_can_receive client s rr sender addressed proposed m =
      Some (decides ?used client, toggles)"
    using checks_eq(2) [OF assms(2)] by blast
  then show ?thesis
    using optimize_decides [OF assms(1), of ?used RULE_RECEIVE] used_types(3)
    by (simp add: Let_def)
qed

lemma client_check_can_own:
  assumes "client_policy_optimize rs = Some client" "\<forall>r\<in>set rs. rule_ok r" "0 \<notin> set n"
  shows "client_policy_check_can_own client n = Some (decides (own_used n) rs)"
proof -
  have "\<forall>r\<in>set client. rule_ok r"
    using optimize_loop_set [OF assms(1) [unfolded client_policy_optimize_def]] assms(2) by auto
  then have "client_policy_check_can_own client n = Some (decides (own_used n) client)"
    by (rule can_own_eq [OF _ assms(3)])
  also have "decides (own_used n) client = decides (own_used n) rs"
    using assms(2) by (intro optimize_decides(2) [OF assms(1), of _ RULE_OWN] used_types(1) ballI impI)
      (blast intro: broad_own_used)+
  finally show ?thesis .
qed

end
