(* ===== verification/PolicyConfig.thy ===== *)
theory PolicyConfig
  imports PolicyChecks
begin

text \<open>
  From the configuration file to the policy, \<^verbatim>\<open>bus/config-parser.c\<close>: the attributes of an element,
  the \<^verbatim>\<open><policy>\<close> element that says whom the rules inside are for, and the \<^verbatim>\<open><allow>\<close> and \<^verbatim>\<open><deny>\<close>
  elements that make a rule. An element is its list of attributes, as the XML parser hands it over.
  The look-up of user and group names is an argument; \<open>None\<close> is a failed assertion.
\<close>

section \<open>Attributes\<close>

datatype config_error = CONFIG_FAILED | CONFIG_NO_MEMORY

text \<open>The values of the attributes asked for; a missing one is \<open>None\<close>.\<close>

type_synonym attributes = "string \<Rightarrow> bytes option"

fun locate_loop :: "string list \<Rightarrow> (bytes \<times> bytes) list \<Rightarrow> attributes \<Rightarrow> config_error + attributes" where
  "locate_loop names [] a = Inr a"
| "locate_loop names ((attribute_name, attribute_value) # attrs) a =
     (case List.find (\<lambda>n. bytes n = attribute_name) names of
        None \<Rightarrow> Inl CONFIG_FAILED
      | Some n \<Rightarrow>
          if a n \<noteq> None then Inl CONFIG_FAILED
          else locate_loop names attrs (a(n := Some attribute_value)))"

definition locate_attributes :: "string list \<Rightarrow> (bytes \<times> bytes) list \<Rightarrow> config_error + attributes" where
  "locate_attributes names attrs = locate_loop names attrs (\<lambda>_. None)"

section \<open>The policy element\<close>

datatype policy_type =
    POLICY_IGNORED
  | POLICY_DEFAULT
  | POLICY_MANDATORY
  | POLICY_USER "64 word"
  | POLICY_GROUP "64 word"
  | POLICY_CONSOLE bool

record name_service =
  parse_unix_user :: "bytes \<Rightarrow> 64 word option"
  parse_unix_group :: "bytes \<Rightarrow> 64 word option"

definition given :: "attributes \<Rightarrow> string \<Rightarrow> bool" where
  "given a n \<longleftrightarrow> a n \<noteq> None"

definition policy_element :: "name_service \<Rightarrow> (bytes \<times> bytes) list \<Rightarrow> config_error + policy_type" where
  "policy_element ns attrs =
     (case locate_attributes [''context'', ''user'', ''group'', ''at_console''] attrs of
        Inl e \<Rightarrow> Inl e
      | Inr a \<Rightarrow>
          if given a ''context'' \<and> given a ''user'' \<or> given a ''context'' \<and> given a ''group'' \<or>
             given a ''context'' \<and> given a ''at_console'' \<or> given a ''user'' \<and> given a ''group'' \<or>
             given a ''user'' \<and> given a ''at_console'' \<or> given a ''group'' \<and> given a ''at_console'' \<or>
             \<not> (given a ''context'' \<or> given a ''user'' \<or> given a ''group'' \<or> given a ''at_console'')
          then Inl CONFIG_FAILED
          else
            case a ''context'' of
              Some context \<Rightarrow>
                if context = bytes ''default'' then Inr POLICY_DEFAULT
                else if context = bytes ''mandatory'' then Inr POLICY_MANDATORY
                else Inl CONFIG_FAILED
            | None \<Rightarrow>
            case a ''user'' of
              Some user \<Rightarrow>
                Inr (case parse_unix_user ns user of Some uid \<Rightarrow> POLICY_USER uid | None \<Rightarrow> POLICY_IGNORED)
            | None \<Rightarrow>
            case a ''group'' of
              Some gname \<Rightarrow>
                Inr (case parse_unix_group ns gname of Some gid \<Rightarrow> POLICY_GROUP gid | None \<Rightarrow> POLICY_IGNORED)
            | None \<Rightarrow>
                let at_console = the (a ''at_console'') in
                if at_console = bytes ''true'' then Inr (POLICY_CONSOLE True)
                else if at_console = bytes ''false'' then Inr (POLICY_CONSOLE False)
                else Inl CONFIG_FAILED)"

section \<open>Rules\<close>

definition rule_attributes :: "string list" where
  "rule_attributes =
     [''send_interface'', ''send_member'', ''send_error'', ''send_destination'', ''send_path'', ''send_type'',
      ''receive_interface'', ''receive_member'', ''receive_error'', ''receive_sender'', ''receive_path'',
      ''receive_type'', ''eavesdrop'', ''send_requested_reply'', ''receive_requested_reply'',
      ''own'', ''own_prefix'', ''user'', ''group'', ''log'']"

text \<open>Some attribute of a list is given.\<close>

definition any_given :: "attributes \<Rightarrow> string list \<Rightarrow> bool" where
  "any_given a ns = list_ex (given a) ns"

definition nothing_given :: "attributes \<Rightarrow> bool" where
  "nothing_given a \<longleftrightarrow>
     \<not> any_given a
       [''send_interface'', ''send_member'', ''send_error'', ''send_destination'', ''send_type'', ''send_path'',
        ''receive_interface'', ''receive_member'', ''receive_error'', ''receive_sender'', ''receive_type'',
        ''receive_path'', ''eavesdrop'', ''send_requested_reply'', ''receive_requested_reply'',
        ''own'', ''own_prefix'', ''user'', ''group'']"

definition member_alone :: "attributes \<Rightarrow> bool" where
  "member_alone a \<longleftrightarrow>
     given a ''send_member'' \<and> \<not> given a ''send_interface'' \<and> \<not> given a ''send_path'' \<or>
     given a ''receive_member'' \<and> \<not> given a ''receive_interface'' \<and> \<not> given a ''receive_path''"

definition invalid_combination :: "attributes \<Rightarrow> bool" where
  "invalid_combination a \<longleftrightarrow>
     given a ''send_interface'' \<and> any_given a
       [''send_error'', ''receive_interface'', ''receive_member'', ''receive_error'', ''receive_sender'',
        ''receive_requested_reply'', ''own'', ''own_prefix'', ''user'', ''group''] \<or>
     given a ''send_member'' \<and> any_given a
       [''send_error'', ''receive_interface'', ''receive_member'', ''receive_error'', ''receive_sender'',
        ''receive_requested_reply'', ''own'', ''own_prefix'', ''user'', ''group''] \<or>
     given a ''send_error'' \<and> any_given a
       [''receive_interface'', ''receive_member'', ''receive_error'', ''receive_sender'',
        ''receive_requested_reply'', ''own'', ''own_prefix'', ''user'', ''group''] \<or>
     given a ''send_destination'' \<and> any_given a
       [''receive_interface'', ''receive_member'', ''receive_error'', ''receive_sender'',
        ''receive_requested_reply'', ''own'', ''own_prefix'', ''user'', ''group''] \<or>
     given a ''send_type'' \<and> any_given a
       [''receive_interface'', ''receive_member'', ''receive_error'', ''receive_sender'',
        ''receive_requested_reply'', ''own'', ''own_prefix'', ''user'', ''group''] \<or>
     given a ''send_path'' \<and> any_given a
       [''receive_interface'', ''receive_member'', ''receive_error'', ''receive_sender'',
        ''receive_requested_reply'', ''own'', ''own_prefix'', ''user'', ''group''] \<or>
     given a ''send_requested_reply'' \<and> any_given a
       [''receive_interface'', ''receive_member'', ''receive_error'', ''receive_sender'',
        ''receive_requested_reply'', ''own'', ''own_prefix'', ''user'', ''group''] \<or>
     given a ''receive_interface'' \<and> any_given a
       [''receive_error'', ''own'', ''own_prefix'', ''user'', ''group''] \<or>
     given a ''receive_member'' \<and> any_given a
       [''receive_error'', ''own'', ''own_prefix'', ''user'', ''group''] \<or>
     given a ''receive_error'' \<and> any_given a [''own'', ''own_prefix'', ''user'', ''group''] \<or>
     given a ''eavesdrop'' \<and> any_given a [''own'', ''own_prefix'', ''user'', ''group''] \<or>
     given a ''receive_requested_reply'' \<and> any_given a [''own'', ''own_prefix'', ''user'', ''group''] \<or>
     given a ''own'' \<and> any_given a [''own_prefix'', ''user'', ''group''] \<or>
     given a ''own_prefix'' \<and> any_given a [''own'', ''user'', ''group''] \<or>
     given a ''user'' \<and> given a ''group''"

text \<open>An attribute, a wildcard read as a missing one.\<close>

definition is_wildcard :: "bytes option \<Rightarrow> bool" where
  "is_wildcard s \<longleftrightarrow> s = Some (bytes ''*'')"

definition unless_wildcard :: "bytes option \<Rightarrow> bytes option" where
  "unless_wildcard s = (if is_wildcard s then None else s)"

definition message_type_from_string :: "bytes \<Rightarrow> int" where
  "message_type_from_string type_str =
     (if type_str = bytes ''method_call'' then MESSAGE_TYPE_METHOD_CALL
      else if type_str = bytes ''method_return'' then MESSAGE_TYPE_METHOD_RETURN
      else if type_str = bytes ''signal'' then MESSAGE_TYPE_SIGNAL
      else if type_str = bytes ''error'' then MESSAGE_TYPE_ERROR
      else MESSAGE_TYPE_INVALID)"

text \<open>The message type of a rule; \<open>None\<close> is an unknown type name.\<close>

definition rule_message_type :: "bytes option \<Rightarrow> int option" where
  "rule_message_type type =
     (case type of
        None \<Rightarrow> Some MESSAGE_TYPE_INVALID
      | Some t \<Rightarrow>
          let message_type = message_type_from_string t in
          if message_type = MESSAGE_TYPE_INVALID then None else Some message_type)"

definition bad_boolean :: "bytes option \<Rightarrow> bool" where
  "bad_boolean s \<longleftrightarrow> (case s of None \<Rightarrow> False | Some s \<Rightarrow> \<not> (s = bytes ''true'' \<or> s = bytes ''false''))"

definition boolean_or :: "bool \<Rightarrow> bytes option \<Rightarrow> bool" where
  "boolean_or d s = (case s of None \<Rightarrow> d | Some s \<Rightarrow> s = bytes ''true'')"

text \<open>\<^verbatim>\<open>_dbus_strdup\<close>: the copy of a null pointer is one, without an allocation.\<close>

definition strdup :: "bytes option \<Rightarrow> mem \<Rightarrow> bytes option \<times> mem" where
  "strdup s m =
     (case s of None \<Rightarrow> (None, m) | Some s \<Rightarrow> let (ok, m) = alloc m in (if ok then Some s else None, m))"

text \<open>The result of making a rule: an error, no rule, or a rule.\<close>

type_synonym made = "(config_error + policy_rule option) \<times> mem"

definition make_send_rule :: "attributes \<Rightarrow> bool \<Rightarrow> mem \<Rightarrow> made" where
  "make_send_rule a allow m =
     (let send_interface = unless_wildcard (a ''send_interface'');
          send_member = unless_wildcard (a ''send_member'');
          send_error = unless_wildcard (a ''send_error'');
          send_destination = unless_wildcard (a ''send_destination'');
          send_path = unless_wildcard (a ''send_path'');
          send_type = unless_wildcard (a ''send_type'') in
      case rule_message_type send_type of
        None \<Rightarrow> (Inl CONFIG_FAILED, m)
      | Some message_type \<Rightarrow>
          if bad_boolean (a ''eavesdrop'') then (Inl CONFIG_FAILED, m)
          else if bad_boolean (a ''send_requested_reply'') then (Inl CONFIG_FAILED, m)
          else
            let (rule, m) = policy_rule_new RULE_SEND allow m in
            case rule of
              None \<Rightarrow> (Inl CONFIG_NO_MEMORY, m)
            | Some rule \<Rightarrow>
                let (path, m) = strdup send_path m;
                    (interface, m) = strdup send_interface m;
                    (member, m) = strdup send_member m;
                    (error, m) = strdup send_error m;
                    (destination, m) = strdup send_destination m in
                if send_path \<noteq> None \<and> path = None \<or> send_interface \<noteq> None \<and> interface = None \<or>
                   send_member \<noteq> None \<and> member = None \<or> send_error \<noteq> None \<and> error = None \<or>
                   send_destination \<noteq> None \<and> destination = None
                then (Inl CONFIG_NO_MEMORY, m)
                else
                  (Inr (Some (rule\<lparr>pr_d := Send \<lparr>sd_message_type = message_type, sd_path = path,
                     sd_interface = interface, sd_member = member, sd_error = error, sd_destination = destination,
                     sd_eavesdrop = boolean_or False (a ''eavesdrop''),
                     sd_requested_reply = boolean_or allow (a ''send_requested_reply''),
                     sd_log = boolean_or False (a ''log'')\<rparr>\<rparr>)), m))"

definition make_receive_rule :: "attributes \<Rightarrow> bool \<Rightarrow> mem \<Rightarrow> made" where
  "make_receive_rule a allow m =
     (let receive_interface = unless_wildcard (a ''receive_interface'');
          receive_member = unless_wildcard (a ''receive_member'');
          receive_error = unless_wildcard (a ''receive_error'');
          receive_sender = unless_wildcard (a ''receive_sender'');
          receive_path = unless_wildcard (a ''receive_path'');
          receive_type = unless_wildcard (a ''receive_type'') in
      case rule_message_type receive_type of
        None \<Rightarrow> (Inl CONFIG_FAILED, m)
      | Some message_type \<Rightarrow>
          if bad_boolean (a ''eavesdrop'') then (Inl CONFIG_FAILED, m)
          else if bad_boolean (a ''receive_requested_reply'') then (Inl CONFIG_FAILED, m)
          else
            let (rule, m) = policy_rule_new RULE_RECEIVE allow m in
            case rule of
              None \<Rightarrow> (Inl CONFIG_NO_MEMORY, m)
            | Some rule \<Rightarrow>
                let (path, m) = strdup receive_path m;
                    (interface, m) = strdup receive_interface m;
                    (member, m) = strdup receive_member m;
                    (error, m) = strdup receive_error m;
                    (origin, m) = strdup receive_sender m in
                if receive_path \<noteq> None \<and> path = None \<or> receive_interface \<noteq> None \<and> interface = None \<or>
                   receive_member \<noteq> None \<and> member = None \<or> receive_error \<noteq> None \<and> error = None \<or>
                   receive_sender \<noteq> None \<and> origin = None
                then (Inl CONFIG_NO_MEMORY, m)
                else
                  (Inr (Some (rule\<lparr>pr_d := Receive \<lparr>rd_message_type = message_type, rd_path = path,
                     rd_interface = interface, rd_member = member, rd_error = error, rd_origin = origin,
                     rd_eavesdrop = boolean_or False (a ''eavesdrop''),
                     rd_requested_reply = boolean_or allow (a ''receive_requested_reply'')\<rparr>\<rparr>)), m))"

definition make_own_rule :: "attributes \<Rightarrow> bool \<Rightarrow> mem \<Rightarrow> made" where
  "make_own_rule a allow m =
     (let (rule, m) = policy_rule_new RULE_OWN allow m in
      case rule of
        None \<Rightarrow> (Inl CONFIG_NO_MEMORY, m)
      | Some rule \<Rightarrow>
          if given a ''own'' then
            let own = unless_wildcard (a ''own'');
                (service_name, m) = strdup own m in
            if own \<noteq> None \<and> service_name = None then (Inl CONFIG_NO_MEMORY, m)
            else (Inr (Some (rule\<lparr>pr_d := Own \<lparr>od_service_name = service_name, od_prefix = False\<rparr>\<rparr>)), m)
          else
            let (service_name, m) = strdup (a ''own_prefix'') m in
            if service_name = None then (Inl CONFIG_NO_MEMORY, m)
            else (Inr (Some (rule\<lparr>pr_d := Own \<lparr>od_service_name = service_name, od_prefix = True\<rparr>\<rparr>)), m))"

text \<open>A user or group that is not known makes no rule.\<close>

definition make_user_rule :: "name_service \<Rightarrow> bytes \<Rightarrow> bool \<Rightarrow> mem \<Rightarrow> made" where
  "make_user_rule ns user allow m =
     (if is_wildcard (Some user) then
        let (rule, m) = policy_rule_new RULE_USER allow m in
        case rule of
          None \<Rightarrow> (Inl CONFIG_NO_MEMORY, m)
        | Some rule \<Rightarrow> (Inr (Some (rule\<lparr>pr_d := User DBUS_UID_UNSET\<rparr>)), m)
      else
        case parse_unix_user ns user of
          None \<Rightarrow> (Inr None, m)
        | Some uid \<Rightarrow>
            let (rule, m) = policy_rule_new RULE_USER allow m in
            case rule of
              None \<Rightarrow> (Inl CONFIG_NO_MEMORY, m)
            | Some rule \<Rightarrow> (Inr (Some (rule\<lparr>pr_d := User uid\<rparr>)), m))"

definition make_group_rule :: "name_service \<Rightarrow> bytes \<Rightarrow> bool \<Rightarrow> mem \<Rightarrow> made" where
  "make_group_rule ns gname allow m =
     (if is_wildcard (Some gname) then
        let (rule, m) = policy_rule_new RULE_GROUP allow m in
        case rule of
          None \<Rightarrow> (Inl CONFIG_NO_MEMORY, m)
        | Some rule \<Rightarrow> (Inr (Some (rule\<lparr>pr_d := Group DBUS_GID_UNSET\<rparr>)), m)
      else
        case parse_unix_group ns gname of
          None \<Rightarrow> (Inr None, m)
        | Some gid \<Rightarrow>
            let (rule, m) = policy_rule_new RULE_GROUP allow m in
            case rule of
              None \<Rightarrow> (Inl CONFIG_NO_MEMORY, m)
            | Some rule \<Rightarrow> (Inr (Some (rule\<lparr>pr_d := Group gid\<rparr>)), m))"

definition make_rule :: "name_service \<Rightarrow> attributes \<Rightarrow> bool \<Rightarrow> mem \<Rightarrow> made option" where
  "make_rule ns a allow m =
     (if any_given a [''send_interface'', ''send_member'', ''send_error'', ''send_destination'', ''send_path'',
          ''send_type'', ''send_requested_reply''] then Some (make_send_rule a allow m)
      else if any_given a [''receive_interface'', ''receive_member'', ''receive_error'', ''receive_sender'',
          ''receive_path'', ''receive_type'', ''eavesdrop'', ''receive_requested_reply''] then
        Some (make_receive_rule a allow m)
      else if any_given a [''own'', ''own_prefix''] then Some (make_own_rule a allow m)
      else
        case a ''user'' of
          Some user \<Rightarrow> Some (make_user_rule ns user allow m)
        | None \<Rightarrow>
            (case a ''group'' of Some gname \<Rightarrow> Some (make_group_rule ns gname allow m) | None \<Rightarrow> None))"

text \<open>Putting the rule where the enclosing element says.\<close>

definition append_made_rule ::
    "policy_type \<Rightarrow> policy_rule \<Rightarrow> bus_policy \<Rightarrow> mem \<Rightarrow> (config_error + unit) \<times> bus_policy \<times> mem" where
  "append_made_rule pe rule p m =
     (let appended = \<lambda>(ok, p, m). (if ok then Inr () else Inl CONFIG_NO_MEMORY, p, m) in
      case pe of
        POLICY_IGNORED \<Rightarrow> (Inr (), p, m)
      | POLICY_DEFAULT \<Rightarrow> appended (policy_append_default_rule p rule m)
      | POLICY_MANDATORY \<Rightarrow> appended (policy_append_mandatory_rule p rule m)
      | POLICY_USER uid \<Rightarrow>
          if \<not> rule_is_per_client rule then (Inl CONFIG_FAILED, p, m)
          else appended (policy_append_user_rule p uid rule m)
      | POLICY_GROUP gid \<Rightarrow>
          if \<not> rule_is_per_client rule then (Inl CONFIG_FAILED, p, m)
          else appended (policy_append_group_rule p gid rule m)
      | POLICY_CONSOLE b \<Rightarrow> appended (policy_append_console_rule p b rule m))"

definition append_rule_from_element ::
    "name_service \<Rightarrow> policy_type \<Rightarrow> (bytes \<times> bytes) list \<Rightarrow> bool \<Rightarrow> bus_policy \<Rightarrow> mem \<Rightarrow>
     ((config_error + unit) \<times> bus_policy \<times> mem) option" where
  "append_rule_from_element ns pe attrs allow p m =
     (case locate_attributes rule_attributes attrs of
        Inl e \<Rightarrow> Some (Inl e, p, m)
      | Inr a \<Rightarrow>
          if nothing_given a then Some (Inl CONFIG_FAILED, p, m)
          else if member_alone a then Some (Inl CONFIG_FAILED, p, m)
          else if invalid_combination a then Some (Inl CONFIG_FAILED, p, m)
          else
            do { (made, m) \<leftarrow> make_rule ns a allow m;
                 case made of
                   Inl e \<Rightarrow> Some (Inl e, p, m)
                 | Inr None \<Rightarrow> Some (Inr (), p, m)
                 | Inr (Some rule) \<Rightarrow> Some (append_made_rule pe rule p m) })"

section \<open>The policies of configurations\<close>

lemma policy_rule_new_Some: "fst (policy_rule_new type allow m) = Some r \<Longrightarrow> pr_allow r = allow"
  by (auto simp: policy_rule_new_def split: prod.splits if_splits)

text \<open>What the elements make: the verdict of the element, and a prefix where one is needed.\<close>

definition made_ok :: "bool \<Rightarrow> made \<Rightarrow> bool" where
  "made_ok allow x \<longleftrightarrow> (\<forall>r. fst x = Inr (Some r) \<longrightarrow> pr_allow r = allow \<and> rule_ok r)"

lemma made_ok_simps [simp]:
  "made_ok allow (Inl e, m)"
  "made_ok allow (Inr None, m)"
  "made_ok allow (Inr (Some r), m) \<longleftrightarrow> pr_allow r = allow \<and> rule_ok r"
  by (simp_all add: made_ok_def)

lemma made_ok_if: "(\<not> c \<Longrightarrow> made_ok allow y) \<Longrightarrow> made_ok allow (if c then (Inl e, m) else y)"
  by simp

lemma made_ok_case: "(\<And>x. s = Some x \<Longrightarrow> made_ok allow (f x)) \<Longrightarrow>
   made_ok allow (case s of None \<Rightarrow> (Inl e, m) | Some x \<Rightarrow> f x)"
  by (cases s) auto

lemma make_send_rule_ok: "made_ok allow (make_send_rule a allow m)"
  unfolding make_send_rule_def Let_def case_prod_beta
  by (intro made_ok_if made_ok_case) (simp add: rule_ok_def policy_rule_new_Some)

lemma make_receive_rule_ok: "made_ok allow (make_receive_rule a allow m)"
  unfolding make_receive_rule_def Let_def case_prod_beta
  by (intro made_ok_if made_ok_case) (simp add: rule_ok_def policy_rule_new_Some)

lemma make_other_rules_ok:
  "made_ok allow (make_own_rule a allow m)"
  "made_ok allow (make_user_rule ns user allow m)"
  "made_ok allow (make_group_rule ns gname allow m)"
  unfolding make_own_rule_def make_user_rule_def make_group_rule_def Let_def case_prod_beta
  by (auto simp: rule_ok_def policy_rule_new_Some split: option.split)

lemma something_given:
  assumes "\<not> nothing_given a"
    and "\<not> any_given a [''send_interface'', ''send_member'', ''send_error'', ''send_destination'', ''send_path'',
          ''send_type'', ''send_requested_reply'']"
    and "\<not> any_given a [''receive_interface'', ''receive_member'', ''receive_error'', ''receive_sender'',
          ''receive_path'', ''receive_type'', ''eavesdrop'', ''receive_requested_reply'']"
    and "\<not> any_given a [''own'', ''own_prefix'']"
  shows "given a ''user'' \<or> given a ''group''"
  using assms unfolding nothing_given_def any_given_def list_ex_Nil_iff list_ex_Cons_iff by blast

lemma made_if: "(c \<Longrightarrow> \<exists>x. y = Some x \<and> Q x) \<Longrightarrow> (\<not> c \<Longrightarrow> \<exists>x. z = Some x \<and> Q x) \<Longrightarrow>
   \<exists>x. (if c then y else z) = Some x \<and> Q x"
  by simp

lemma make_rule_answers:
  assumes "\<not> nothing_given a"
  shows "\<exists>x. make_rule ns a allow m = Some x \<and> made_ok allow x"
  unfolding make_rule_def
  apply (intro made_if)
     apply (simp add: make_send_rule_ok)
    apply (simp add: make_receive_rule_ok)
   apply (simp add: make_other_rules_ok)
  apply (frule (2) something_given [OF assms])
  apply (cases "a ''user''")
   apply (auto simp only: given_def make_other_rules_ok option.simps)
  done

lemma append_rule_Pair:
  "append_rule l r m = (ok, l', m') \<Longrightarrow> l' = (if ok then l @ [r] else l)"
  by (auto simp: append_rule_def split: prod.splits)

lemma append_rule_ok: "append_rule l r m = (ok, l', m') \<Longrightarrow> list_all P l \<Longrightarrow> P r \<Longrightarrow> list_all P l'"
  by (auto dest!: append_rule_Pair)

definition table_all :: "(policy_rule \<Rightarrow> bool) \<Rightarrow> (64 word, policy_rule list) mapping \<Rightarrow> bool" where
  "table_all P t \<longleftrightarrow> (\<forall>k l. Mapping.lookup t k = Some l \<longrightarrow> list_all P l)"

lemma table_all_empty [simp]: "table_all P Mapping.empty"
  by (simp add: table_all_def)

lemma table_all_update: "table_all P t \<Longrightarrow> list_all P l \<Longrightarrow> table_all P (Mapping.update k l t)"
  by (auto simp: table_all_def Mapping.lookup_update')

lemma get_list_all:
  "get_list t k m = (l, t', m') \<Longrightarrow> table_all P t \<Longrightarrow> table_all P t' \<and> (\<forall>xs. l = Some xs \<longrightarrow> list_all P xs)"
  by (auto simp: get_list_def intro: table_all_update split: option.splits prod.splits if_splits)
    (auto simp: table_all_def)

lemma append_keyed_rule_all:
  "append_keyed_rule t k r m = (ok, t', m') \<Longrightarrow> table_all P t \<Longrightarrow> P r \<Longrightarrow> table_all P t'"
  by (auto simp: append_keyed_rule_def intro: table_all_update append_rule_ok
      dest!: get_list_all [where P = P] split: option.splits prod.splits)

text \<open>
  The lists and tables of a policy hold well-formed rules, and the tables no rule that is not for
  a client.
\<close>

definition policy_wf :: "bus_policy \<Rightarrow> bool" where
  "policy_wf p \<longleftrightarrow> policy_ok p \<and>
     table_all rule_is_per_client (bp_rules_by_uid p) \<and> table_all rule_is_per_client (bp_rules_by_gid p)"

lemma table_ok_all: "table_ok = table_all rule_ok"
  by (simp add: table_ok_def table_all_def fun_eq_iff)

lemma append_made_rule_wf:
  assumes "append_made_rule pe r p m = (x, p', m')" "policy_wf p" "rule_ok r"
  shows "policy_wf p'"
  using assms
  by (auto simp: append_made_rule_def policy_wf_def policy_ok_def Let_def table_ok_all
      policy_append_default_rule_def policy_append_mandatory_rule_def policy_append_user_rule_def
      policy_append_group_rule_def policy_append_console_rule_def
      dest: append_rule_ok append_keyed_rule_all
      split: policy_type.splits prod.splits if_splits)

lemma append_rule_from_element_answers:
  "\<exists>x p' m'. append_rule_from_element ns pe attrs allow p m = Some (x, p', m') \<and> (policy_wf p \<longrightarrow> policy_wf p')"
proof (cases "locate_attributes rule_attributes attrs")
  case (Inl e)
  then show ?thesis by (simp add: append_rule_from_element_def)
next
  case (Inr a)
  show ?thesis
  proof (cases "nothing_given a \<or> member_alone a \<or> invalid_combination a")
    case True
    then show ?thesis using Inr by (auto simp: append_rule_from_element_def)
  next
    case False
    then obtain made m1 where made: "make_rule ns a allow m = Some (made, m1)" "made_ok allow (made, m1)"
      using make_rule_answers [of a ns allow m] by auto
    show ?thesis
    proof (cases "\<exists>r. made = Inr (Some r)")
      case True
      then obtain r where r: "made = Inr (Some r)" ..
      obtain x p' m' where "append_made_rule pe r p m1 = (x, p', m')" by (cases "append_made_rule pe r p m1")
      then show ?thesis
        using Inr False made r append_made_rule_wf [of pe r p m1 x p' m'] by (auto simp: append_rule_from_element_def)
    next
      case no: False
      then show ?thesis
        using Inr False made by (auto simp: append_rule_from_element_def split: sum.split option.split)
    qed
  qed
qed

subsection \<open>Merging\<close>

text \<open>What is used of the iteration over a hash table: it yields entries of the table.\<close>

definition yields_entries ::
    "((64 word, policy_rule list) mapping \<Rightarrow> (64 word \<times> policy_rule list) list) \<Rightarrow> bool" where
  "yields_entries entries \<longleftrightarrow> (\<forall>t k l. (k, l) \<in> set (entries t) \<longrightarrow> Mapping.lookup t k = Some l)"

lemma append_copy_all:
  "append_copy_of_policy_list l l2 m = (ok, l', m') \<Longrightarrow> list_all P l \<Longrightarrow> list_all P l2 \<Longrightarrow> list_all P l'"
  by (auto simp: append_copy_of_policy_list_def split: prod.splits if_splits)

lemma merge_id_hash_all:
  "merge_id_hash t es m = (ok, t', m') \<Longrightarrow> table_all P t \<Longrightarrow> \<forall>(k, l)\<in>set es. list_all P l \<Longrightarrow> table_all P t'"
proof (induction es arbitrary: t m)
  case (Cons e es)
  obtain k l where e: "e = (k, l)" by (cases e)
  obtain target t1 m1 where g: "get_list t k m = (target, t1, m1)" by (cases "get_list t k m")
  note t1 = get_list_all [OF g Cons.prems(2)]
  show ?case
  proof (cases target)
    case None
    then show ?thesis using Cons.prems t1 e g by simp
  next
    case (Some l1)
    obtain ok2 l2 m2 where a: "append_copy_of_policy_list l1 l m1 = (ok2, l2, m2)"
      by (cases "append_copy_of_policy_list l1 l m1")
    have "table_all P (Mapping.update k l2 t1)"
      using t1 Some append_copy_all [OF a, of P] Cons.prems(3) e by (auto intro: table_all_update)
    then show ?thesis using Cons.prems Cons.IH Some a e g by (auto simp: Let_def split: if_splits)
  qed
qed simp

lemma entries_all: "yields_entries entries \<Longrightarrow> table_all P t \<Longrightarrow> \<forall>(k, l)\<in>set (entries t). list_all P l"
  unfolding yields_entries_def table_all_def by blast

lemma merge_id_hash_entries:
  "merge_id_hash t (entries t2) m = (ok, t', m') \<Longrightarrow> yields_entries entries \<Longrightarrow> table_all P t \<Longrightarrow>
   table_all P t2 \<Longrightarrow> table_all P t'"
  by (rule merge_id_hash_all [OF _ _ entries_all])

lemma policy_merge_wf:
  assumes "policy_merge entries p q m = (ok, p', m')" "yields_entries entries" "policy_wf p" "policy_wf q"
  shows "policy_wf p'"
  using assms
  by (auto simp: policy_merge_def policy_wf_def policy_ok_def table_ok_all Let_def
      dest: append_copy_all [where P = rule_ok] merge_id_hash_entries [where P = rule_ok]
        merge_id_hash_entries [where P = rule_is_per_client] split: prod.splits if_splits)

subsection \<open>Configurations\<close>

text \<open>
  The policies reading a configuration can make, whatever its elements say and whichever
  allocations fail: from the empty policy by elements and by merging included files.
\<close>

inductive configured :: "bus_policy \<Rightarrow> bool" where
  new: "configured policy_empty"
| element: "configured p \<Longrightarrow> append_rule_from_element ns pe attrs allow p m = Some (answer, p', m') \<Longrightarrow> configured p'"
| merge: "configured p \<Longrightarrow> configured q \<Longrightarrow> yields_entries entries \<Longrightarrow>
    policy_merge entries p q m = (ok, p', m') \<Longrightarrow> configured p'"

lemma policy_wf_empty [simp]: "policy_wf policy_empty"
  by (simp add: policy_wf_def policy_ok_def policy_empty_def table_ok_all)

lemma configured_wf: "configured p \<Longrightarrow> policy_wf p"
proof (induction rule: configured.induct)
  case (element p ns pe attrs allow m answer p' m')
  then show ?case using append_rule_from_element_answers [of ns pe attrs allow p m] by auto
qed (simp_all add: policy_merge_wf)

lemma configured_policy_ok: "configured p \<Longrightarrow> policy_ok p"
  using configured_wf by (auto simp: policy_wf_def)

text \<open>
  C6. Whatever the elements of a configuration say, in whatever order they and included files
  are read and whichever allocations fail, reading the next element never fails an assertion,
  and the rules in the policy are well-formed: a rule for a prefix has one, and the rules kept
  for a user or a group are rules for clients.
\<close>

theorem configured_policies_well_formed:
  assumes "configured p"
  shows "policy_wf p \<and> (\<forall>ns pe attrs allow m. append_rule_from_element ns pe attrs allow p m \<noteq> None)"
proof -
  have "append_rule_from_element ns pe attrs allow p m \<noteq> None" for ns pe attrs allow m
    using append_rule_from_element_answers [of ns pe attrs allow p m] by auto
  then show ?thesis using configured_wf [OF assms] by simp
qed

section \<open>What a client may do\<close>

text \<open>
  C2. The policy made for a client decides by the last rule that applies, of the default rules,
  those of its groups, of its user and of the console, and the mandatory ones, in this order:
  for names exactly; for messages it never lets through what these rules stop, and it decides
  exactly like them what is sent and is not a reply, and of the rest, sent or received, whatever
  every rule without a match of its own applies to.
\<close>

theorem client_policy_decides:
  assumes "policy_create_client_policy p c mem = Some (Inr client, mem')"
    and "configured p" and "registry_ok s"
  shows "(\<forall>n. 0 \<notin> set n \<longrightarrow>
      client_policy_check_can_own client n = Some (decides (own_used n) (rules_for p c))) \<and>
    (\<forall>rr receiver m log. \<exists>allowed toggles log'.
      client_policy_check_can_send client s rr receiver m log = Some (allowed, toggles, log') \<and>
      (let used = send_used s rr receiver m in
       (allowed \<longrightarrow> decides used (rules_for p c)) \<and>
       (mg_reply_serial m = 0 \<or> (\<forall>r\<in>set (rules_for p c). pr_type r = RULE_SEND \<and> broad r \<longrightarrow> used r) \<longrightarrow>
        allowed = decides used (rules_for p c)))) \<and>
    (\<forall>rr sender addressed proposed m. \<exists>allowed toggles.
      client_policy_check_can_receive client s rr sender addressed proposed m = Some (allowed, toggles) \<and>
      (let used = receive_used s rr (is_eavesdropping addressed proposed m) sender m in
       (allowed \<longrightarrow> decides used (rules_for p c)) \<and>
       ((\<forall>r\<in>set (rules_for p c). pr_type r = RULE_RECEIVE \<and> broad r \<longrightarrow> used r) \<longrightarrow>
        allowed = decides used (rules_for p c))))"
proof -
  note opt = create_client_policy_eq [OF assms(1)]
  show ?thesis
  proof (intro conjI allI impI)
    fix n :: bytes
    assume "0 \<notin> set n"
    then show "client_policy_check_can_own client n = Some (decides (own_used n) (rules_for p c))"
      by (rule client_check_can_own [OF opt rules_for_ok [OF configured_policy_ok [OF assms(2)]]])
  qed (rule client_check_can_send [OF opt assms(3)], rule client_check_can_receive [OF opt assms(3)])
qed

text \<open>The two rules of the configuration \<^verbatim>\<open><allow receive_sender="*"/><deny eavesdrop="true"/>\<close>.\<close>

definition allow_all_senders :: policy_rule where
  "allow_all_senders = \<lparr>pr_allow = True, pr_d = Receive \<lparr>rd_message_type = 0, rd_path = None, rd_interface = None,
     rd_member = None, rd_error = None, rd_origin = None, rd_eavesdrop = False, rd_requested_reply = True\<rparr>\<rparr>"

definition deny_eavesdropping :: policy_rule where
  "deny_eavesdropping = \<lparr>pr_allow = False, pr_d = Receive \<lparr>rd_message_type = 0, rd_path = None, rd_interface = None,
     rd_member = None, rd_error = None, rd_origin = None, rd_eavesdrop = True, rd_requested_reply = False\<rparr>\<rparr>"

lemma of_char_byte_eq: "(of_char c :: byte) = of_char d \<longleftrightarrow> c = d"
proof
  assume eq: "(of_char c :: byte) = of_char d"
  have "unat (of_char c :: byte) = (of_char c :: nat)" for c
    by (cases c) (simp add: of_char_def unat_of_nat)
  then show "c = d" using eq by (metis char_of_char)
qed simp

lemma bytes_eq_iff: "bytes v = bytes w \<longleftrightarrow> v = w"
  by (simp add: bytes_def of_char_byte_eq inj_map_eq_map inj_def)

lemmas read_defs = append_rule_from_element_def locate_attributes_def rule_attributes_def bytes_eq_iff
  nothing_given_def member_alone_def invalid_combination_def any_given_def given_def make_rule_def
  make_receive_rule_def unless_wildcard_def is_wildcard_def rule_message_type_def bad_boolean_def
  policy_rule_new_def strdup_def boolean_or_def append_made_rule_def policy_append_default_rule_def
  append_rule_def

lemma read_allow_all_senders:
  "append_rule_from_element ns POLICY_DEFAULT [(bytes ''receive_sender'', bytes ''*'')] True p [] =
   Some (Inr (), p\<lparr>bp_default_rules := bp_default_rules p @ [allow_all_senders]\<rparr>, [])"
  by (simp add: read_defs allow_all_senders_def del: bytes_Cons bytes_Nil)

lemma read_deny_eavesdropping:
  "append_rule_from_element ns POLICY_DEFAULT [(bytes ''eavesdrop'', bytes ''true'')] False p [] =
   Some (Inr (), p\<lparr>bp_default_rules := bp_default_rules p @ [deny_eavesdropping]\<rparr>, [])"
  by (simp add: read_defs deny_eavesdropping_def del: bytes_Cons bytes_Nil)

text \<open>
  An attribute for receiving beside one for owning is accepted, and the latter dropped, although
  the comment above the check says that \<^verbatim>\<open>own\<close> must occur alone.
\<close>

lemma receive_sender_with_own_accepted:
  "append_rule_from_element ns POLICY_DEFAULT
     [(bytes ''receive_sender'', bytes ''*''), (bytes ''own'', bytes ''a.b'')] True p [] =
   append_rule_from_element ns POLICY_DEFAULT [(bytes ''receive_sender'', bytes ''*'')] True p []"
  by (simp add: read_defs del: bytes_Cons bytes_Nil)

text \<open>When the groups of the client cannot be looked up, it is asserted that an error is set, and none is.\<close>

lemma create_client_policy_stops:
  assumes "pe_unix_user c = Some uid" "pe_groups_of_uid c uid = None"
  shows "policy_create_client_policy (policy_empty\<lparr>bp_rules_by_gid := Mapping.update g [] Mapping.empty\<rparr>) c [] = None"
proof -
  have "\<not> Mapping.is_empty (Mapping.update g ([] :: policy_rule list) Mapping.empty)"
    using is_empty_lookup [of "Mapping.update g ([] :: policy_rule list) Mapping.empty" g] by auto
  then show ?thesis
    using assms by (simp add: policy_create_client_policy_def add_group_rules_def connection_get_unix_groups_def
        policy_empty_def)
qed

definition eavesdropping_policy :: bus_policy where
  "eavesdropping_policy = policy_empty\<lparr>bp_default_rules := [allow_all_senders, deny_eavesdropping]\<rparr>"

lemma read_eavesdropping_policy:
  "\<exists>p. append_rule_from_element ns POLICY_DEFAULT [(bytes ''receive_sender'', bytes ''*'')] True policy_empty [] =
      Some (Inr (), p, []) \<and>
    append_rule_from_element ns POLICY_DEFAULT [(bytes ''eavesdrop'', bytes ''true'')] False p [] =
      Some (Inr (), eavesdropping_policy, [])"
  by (simp add: read_allow_all_senders read_deny_eavesdropping eavesdropping_policy_def del: bytes_Cons bytes_Nil)
    (simp add: policy_empty_def)

lemma configured_eavesdropping_policy: "configured eavesdropping_policy"
  using read_eavesdropping_policy configured.new by (blast intro: configured.element)

lemma eavesdropping_rules_for:
  "rules_for eavesdropping_policy c = [allow_all_senders, deny_eavesdropping]"
proof -
  have "concat (map (Mapping.lookup_default [] Mapping.empty) gs) = ([] :: policy_rule list)" for gs :: "64 word list"
    by (induction gs) (simp_all add: lookup_default_cases)
  then show ?thesis
    by (simp add: rules_for_def group_rules_def user_rules_def eavesdropping_policy_def policy_empty_def
        rule_is_per_client_def pr_type_def allow_all_senders_def deny_eavesdropping_def lookup_default_cases
        split: option.split)
qed

lemma eavesdropping_client:
  assumes "pe_unix_user c = None"
  shows "policy_create_client_policy eavesdropping_policy c [] = Some (Inr [deny_eavesdropping], [])"
  using assms
  by (simp add: policy_create_client_policy_def eavesdropping_policy_def policy_empty_def add_group_rules_def
      add_peer_rules_def client_policy_append_rule_def append_rule_def pr_type_def
      client_policy_optimize_def allow_all_senders_def deny_eavesdropping_def)

lemma eavesdropping_client_only:
  "policy_create_client_policy eavesdropping_policy c mem = Some (Inr client, mem') \<Longrightarrow> client = [deny_eavesdropping]"
  using create_client_policy_eq [of eavesdropping_policy c mem client mem']
  by (simp add: eavesdropping_rules_for client_policy_optimize_def allow_all_senders_def deny_eavesdropping_def pr_type_def)

lemma deny_eavesdropping_denies:
  "\<exists>n. client_policy_check_can_receive [deny_eavesdropping] s rr sender addressed proposed m = Some (False, n)"
  by (simp add: client_policy_check_can_receive_def deny_eavesdropping_def receive_rule_applies_def field_differs_def
      interface_differs_def)

lemma eavesdropping_rules_allow:
  "\<not> is_eavesdropping addressed proposed m \<Longrightarrow> mg_reply_serial m = 0 \<or> rr \<Longrightarrow>
   client_policy_check_can_receive [allow_all_senders, deny_eavesdropping] s rr sender addressed proposed m = Some (True, 1)"
  by (auto simp: client_policy_check_can_receive_def allow_all_senders_def deny_eavesdropping_def
      receive_rule_applies_def field_differs_def interface_differs_def)

text \<open>After a rule without a match of its own, no other rule of its type is left.\<close>

lemma optimize_loop_append:
  "optimize_loop before (rs @ [r]) = Some rs' \<Longrightarrow>
   \<exists>rs1. optimize_loop before rs = Some rs1 \<and>
     rs' = (if broad r then filter (\<lambda>x. pr_type x \<noteq> pr_type r) rs1 else rs1) @ [r]"
proof (induction rs arbitrary: before)
  case Nil
  then show ?case
    by (auto simp: remove_rules_by_type_up_to_eq dest: remove_preceding_broad split: bind_splits)
next
  case (Cons a rs)
  then obtain b where "remove_preceding (pr_d a) = Some b" by (auto split: bind_splits)
  with Cons show ?case by (simp only: append_Cons optimize_loop.simps Option.bind.bind_lunit)
qed

text \<open>
  C9. Optimising the rules of a client changes what they mean. When a rule without a match of
  its own stands last, no other rule of its type is left, whether or not it applies to the
  message. So with the elements allow receive_sender=* and deny eavesdrop=true in the
  configuration, the rules of every client allow it to receive whatever it does not eavesdrop on
  and is no reply it did not ask for, but the policy made for the client denies it every
  message.
\<close>

theorem optimization_denies_addressed:
  "(\<forall>rs r rs'. client_policy_optimize (rs @ [r]) = Some rs' \<longrightarrow> broad r \<longrightarrow>
      (\<forall>x\<in>set rs'. pr_type x = pr_type r \<longrightarrow> x = r)) \<and>
   (\<exists>p1 p.
      append_rule_from_element ns POLICY_DEFAULT [(bytes ''receive_sender'', bytes ''*'')] True policy_empty [] =
        Some (Inr (), p1, []) \<and>
      append_rule_from_element ns POLICY_DEFAULT [(bytes ''eavesdrop'', bytes ''true'')] False p1 [] =
        Some (Inr (), p, []) \<and>
      (\<forall>c mem client mem'. policy_create_client_policy p c mem = Some (Inr client, mem') \<longrightarrow>
        (\<forall>s requested_reply sender addressed proposed m.
          (\<not> is_eavesdropping addressed proposed m \<longrightarrow> mg_reply_serial m = 0 \<or> requested_reply \<longrightarrow>
             client_policy_check_can_receive (rules_for p c) s requested_reply sender addressed proposed m = Some (True, 1)) \<and>
          (\<exists>n. client_policy_check_can_receive client s requested_reply sender addressed proposed m = Some (False, n)))))"
proof (rule conjI, intro allI impI ballI)
  fix rs r rs' x
  assume o: "client_policy_optimize (rs @ [r]) = Some rs'" and "broad r" "x \<in> set rs'" "pr_type x = pr_type r"
  then show "x = r" using optimize_loop_append [of "[]" rs r rs'] by (auto simp: client_policy_optimize_def)
next
  obtain p1 where "append_rule_from_element ns POLICY_DEFAULT [(bytes ''receive_sender'', bytes ''*'')] True
        policy_empty [] = Some (Inr (), p1, [])"
      "append_rule_from_element ns POLICY_DEFAULT [(bytes ''eavesdrop'', bytes ''true'')] False p1 [] =
        Some (Inr (), eavesdropping_policy, [])"
    using read_eavesdropping_policy [of ns] by blast
  moreover have "(\<forall>s requested_reply sender addressed proposed m.
      (\<not> is_eavesdropping addressed proposed m \<longrightarrow> mg_reply_serial m = 0 \<or> requested_reply \<longrightarrow>
         client_policy_check_can_receive (rules_for eavesdropping_policy c) s requested_reply sender addressed proposed m =
           Some (True, 1)) \<and>
      (\<exists>n. client_policy_check_can_receive client s requested_reply sender addressed proposed m = Some (False, n)))"
    if "policy_create_client_policy eavesdropping_policy c mem = Some (Inr client, mem')" for c mem client mem'
    unfolding eavesdropping_client_only [OF that] eavesdropping_rules_for
    using eavesdropping_rules_allow deny_eavesdropping_denies by simp
  ultimately show "\<exists>p1 p.
      append_rule_from_element ns POLICY_DEFAULT [(bytes ''receive_sender'', bytes ''*'')] True policy_empty [] =
        Some (Inr (), p1, []) \<and>
      append_rule_from_element ns POLICY_DEFAULT [(bytes ''eavesdrop'', bytes ''true'')] False p1 [] =
        Some (Inr (), p, []) \<and>
      (\<forall>c mem client mem'. policy_create_client_policy p c mem = Some (Inr client, mem') \<longrightarrow>
        (\<forall>s requested_reply sender addressed proposed m.
          (\<not> is_eavesdropping addressed proposed m \<longrightarrow> mg_reply_serial m = 0 \<or> requested_reply \<longrightarrow>
             client_policy_check_can_receive (rules_for p c) s requested_reply sender addressed proposed m = Some (True, 1)) \<and>
          (\<exists>n. client_policy_check_can_receive client s requested_reply sender addressed proposed m = Some (False, n))))"
    by blast
qed

section \<open>Instances\<close>

definition some_peer :: peer where
  "some_peer = \<lparr>pe_unix_user = None, pe_groups_of_uid = (\<lambda>_. None), pe_at_console = (\<lambda>_. None)\<rparr>"

definition some_signal :: message where
  "some_signal = \<lparr>mg_type = MESSAGE_TYPE_SIGNAL, mg_serial = 1, mg_reply_serial = 0, mg_no_reply = False,
     mg_path = Some (bytes ''/''), mg_interface = Some (bytes ''a.b''), mg_member = Some (bytes ''c''),
     mg_error_name = None, mg_destination = None, mg_sender = None\<rparr>"

theorem configured_policies_well_formed_witness:
  "policy_wf eavesdropping_policy \<and>
   append_rule_from_element \<lparr>parse_unix_user = (\<lambda>_. None), parse_unix_group = (\<lambda>_. None)\<rparr> POLICY_MANDATORY [] True
     eavesdropping_policy [] \<noteq> None"
  using configured_policies_well_formed [OF configured_eavesdropping_policy] by blast

theorem client_policy_decides_witness:
  "client_policy_check_can_own [deny_eavesdropping] (bytes ''a.b'') =
   Some (decides (own_used (bytes ''a.b'')) [allow_all_senders, deny_eavesdropping])"
proof -
  have "0 \<notin> set (bytes ''a.b'')" by code_simp
  then show ?thesis
    using client_policy_decides [OF eavesdropping_client configured_eavesdropping_policy registry_ok_start, of some_peer]
      eavesdropping_rules_for [of some_peer] by (simp add: some_peer_def del: bytes_Cons)
qed

text \<open>The elements are read, a client gets its policy, and a signal to it is allowed by the rules and denied by the policy.\<close>

theorem optimization_denies_addressed_witness:
  "\<exists>p client. policy_create_client_policy p some_peer [] = Some (Inr client, []) \<and>
    client_policy_check_can_receive (rules_for p some_peer) (bus_start []) False None (Some 1) (Some 1) some_signal =
      Some (True, 1) \<and>
    (\<exists>n. client_policy_check_can_receive client (bus_start []) False None (Some 1) (Some 1) some_signal = Some (False, n))"
proof -
  let ?ns = "\<lparr>parse_unix_user = (\<lambda>_. None), parse_unix_group = (\<lambda>_. None)\<rparr>"
  obtain p1 p where
      "append_rule_from_element ?ns POLICY_DEFAULT [(bytes ''receive_sender'', bytes ''*'')] True policy_empty [] =
        Some (Inr (), p1, [])"
      "append_rule_from_element ?ns POLICY_DEFAULT [(bytes ''eavesdrop'', bytes ''true'')] False p1 [] =
        Some (Inr (), p, [])"
    and denied: "\<forall>c mem client mem'. policy_create_client_policy p c mem = Some (Inr client, mem') \<longrightarrow>
      (\<forall>s requested_reply sender addressed proposed m.
        (\<not> is_eavesdropping addressed proposed m \<longrightarrow> mg_reply_serial m = 0 \<or> requested_reply \<longrightarrow>
           client_policy_check_can_receive (rules_for p c) s requested_reply sender addressed proposed m = Some (True, 1)) \<and>
        (\<exists>n. client_policy_check_can_receive client s requested_reply sender addressed proposed m = Some (False, n)))"
    using optimization_denies_addressed [of ?ns] by blast
  moreover obtain p2 where
      "append_rule_from_element ?ns POLICY_DEFAULT [(bytes ''receive_sender'', bytes ''*'')] True policy_empty [] =
        Some (Inr (), p2, [])"
      "append_rule_from_element ?ns POLICY_DEFAULT [(bytes ''eavesdrop'', bytes ''true'')] False p2 [] =
        Some (Inr (), eavesdropping_policy, [])"
    using read_eavesdropping_policy [of ?ns] by blast
  ultimately have p: "p = eavesdropping_policy" by simp
  have "policy_create_client_policy p some_peer [] = Some (Inr [deny_eavesdropping], [])"
    unfolding p by (rule eavesdropping_client) (simp add: some_peer_def)
  moreover have "\<not> is_eavesdropping (Some 1) (Some 1) some_signal" "mg_reply_serial some_signal = 0"
    by (simp_all add: is_eavesdropping_def some_signal_def)
  ultimately show ?thesis using denied by blast
qed

end
