(* ===== verification/Replies.thy ===== *)
theory Replies
  imports Policy
begin

text \<open>
  Pending replies of the message bus, \<^verbatim>\<open>bus/connection.c\<close>, on the list of expiring items of
  \<^verbatim>\<open>bus/expirelist.c\<close>. A method call that passes the security policy allows one reply; the reply,
  a timeout or the loss of a connection ends that. Pending replies are objects of an explicit store,
  so that a dangling or freed pointer shows as \<open>None\<close>, as a failed assertion does. The list of items
  is a HOL list of their pointers, connections are numbers.

  The hooks of a transaction are those of this component. The sending of the error for a missing
  reply consumes one answer of the allocator, whatever it does inside. Times are seconds and
  microseconds; the source computes with them in \<^verbatim>\<open>double\<close>, the model exactly.
\<close>

section \<open>State\<close>

type_synonym reply_ptr = nat
type_synonym timeval = "int \<times> int"

record pending_reply =
  pd_added :: timeval
  pd_will_get_reply :: connection
  pd_will_send_reply :: "connection option"
  pd_reply_serial :: "32 word"

text \<open>\<^verbatim>\<open>CancelPendingReplyData\<close>, and \<^verbatim>\<open>CheckPendingReplyData\<close> with its link.\<close>

datatype reply_hook =
    CancelPendingReply reply_ptr
  | CheckPendingReply "reply_ptr option"

text \<open>
  The pending replies and the list of items, the timeout of the list when it is enabled, the
  transaction under way, and the errors sent for replies that did not come.
\<close>

record replies =
  rp_pending :: "reply_ptr \<rightharpoonup> pending_reply"
  rp_items :: "reply_ptr list"
  rp_timeout :: "int option"
  rp_fresh :: nat
  rp_mem :: mem
  rp_hooks :: "reply_hook list"
  rp_no_reply_sent :: "(connection \<times> 32 word) list"

datatype reply_error = REPLY_ACCESS_DENIED | REPLY_LIMITS_EXCEEDED | REPLY_NO_MEMORY

definition replies_start :: "mem \<Rightarrow> replies" where
  "replies_start m = \<lparr>rp_pending = Map.empty, rp_items = [], rp_timeout = None, rp_fresh = 0, rp_mem = m,
     rp_hooks = [], rp_no_reply_sent = []\<rparr>"

definition reply_alloc :: "replies \<Rightarrow> bool \<times> replies" where
  "reply_alloc r = (let (ok, m) = alloc (rp_mem r) in (ok, r\<lparr>rp_mem := m\<rparr>))"

section \<open>The list of items\<close>

definition expire_timeout_set_interval :: "int \<Rightarrow> replies \<Rightarrow> replies" where
  "expire_timeout_set_interval next_interval r =
     (if next_interval \<ge> 0 then r\<lparr>rp_timeout := Some next_interval\<rparr> else r\<lparr>rp_timeout := None\<rparr>)"

definition expire_list_recheck_immediately :: "replies \<Rightarrow> replies" where
  "expire_list_recheck_immediately r = expire_timeout_set_interval 0 r"

definition enable_timeout :: "replies \<Rightarrow> replies" where
  "enable_timeout r = (if rp_timeout r = None then expire_timeout_set_interval 0 r else r)"

definition expire_list_add :: "reply_ptr \<Rightarrow> replies \<Rightarrow> bool \<times> replies" where
  "expire_list_add p r =
     (let (ok, r) = reply_alloc r in
      (ok, if ok then enable_timeout (r\<lparr>rp_items := p # rp_items r\<rparr>) else r))"

definition expire_list_add_link :: "reply_ptr \<Rightarrow> replies \<Rightarrow> replies" where
  "expire_list_add_link p r = enable_timeout (r\<lparr>rp_items := p # rp_items r\<rparr>)"

definition expire_list_remove :: "reply_ptr \<Rightarrow> replies \<Rightarrow> bool \<times> replies" where
  "expire_list_remove p r = (p \<in> set (rp_items r), r\<lparr>rp_items := remove1 p (rp_items r)\<rparr>)"

text \<open>Taking a link out of the list, and freeing it or not.\<close>

definition expire_list_unlink :: "reply_ptr \<Rightarrow> replies \<Rightarrow> replies" where
  "expire_list_unlink p r = r\<lparr>rp_items := remove1 p (rp_items r)\<rparr>"

definition expire_list_contains_item :: "reply_ptr \<Rightarrow> replies \<Rightarrow> bool" where
  "expire_list_contains_item p r \<longleftrightarrow> p \<in> set (rp_items r)"

definition pending_reply_free :: "reply_ptr \<Rightarrow> replies \<Rightarrow> replies option" where
  "pending_reply_free p r =
     (if rp_pending r p = None then None else Some (r\<lparr>rp_pending := (rp_pending r)(p := None)\<rparr>))"

section \<open>Hooks\<close>

fun cancel_reply_hook :: "reply_hook \<Rightarrow> replies \<Rightarrow> (reply_hook \<times> replies) option" where
  "cancel_reply_hook (CancelPendingReply p) r =
     (let (found, r) = expire_list_remove p r in
      if \<not> found then None
      else do { r \<leftarrow> pending_reply_free p r; Some (CancelPendingReply p, r) })"
| "cancel_reply_hook (CheckPendingReply link) r =
     (case link of None \<Rightarrow> None | Some p \<Rightarrow> Some (CheckPendingReply None, expire_list_add_link p r))"

fun free_reply_hook :: "reply_hook \<Rightarrow> replies \<Rightarrow> replies option" where
  "free_reply_hook (CancelPendingReply p) r = Some r"
| "free_reply_hook (CheckPendingReply link) r =
     (case link of
        None \<Rightarrow> Some r
      | Some p \<Rightarrow> if expire_list_contains_item p r then None else pending_reply_free p r)"

definition add_reply_hook :: "reply_hook \<Rightarrow> replies \<Rightarrow> bool \<times> replies" where
  "add_reply_hook h r =
     (let (ok, r) = reply_alloc r in
      if \<not> ok then (False, r)
      else
        let (ok, r) = reply_alloc r in
        (ok, if ok then r\<lparr>rp_hooks := h # rp_hooks r\<rparr> else r))"

fun cancel_reply_hooks :: "reply_hook list \<Rightarrow> replies \<Rightarrow> (reply_hook list \<times> replies) option" where
  "cancel_reply_hooks [] r = Some ([], r)"
| "cancel_reply_hooks (h # hs) r =
     do { (h, r) \<leftarrow> cancel_reply_hook h r; (hs, r) \<leftarrow> cancel_reply_hooks hs r; Some (h # hs, r) }"

fun free_reply_hooks :: "reply_hook list \<Rightarrow> replies \<Rightarrow> replies option" where
  "free_reply_hooks [] r = Some (r\<lparr>rp_hooks := []\<rparr>)"
| "free_reply_hooks (h # hs) r = do { r \<leftarrow> free_reply_hook h r; free_reply_hooks hs r }"

definition reply_transaction_execute :: "replies \<Rightarrow> replies option" where
  "reply_transaction_execute r = free_reply_hooks (rp_hooks r) r"

definition reply_transaction_cancel :: "replies \<Rightarrow> replies option" where
  "reply_transaction_cancel r = do { (hs, r) \<leftarrow> cancel_reply_hooks (rp_hooks r) r; free_reply_hooks hs r }"

section \<open>Expecting and checking\<close>

text \<open>The walk over the list: \<open>None\<close> for a call that is pending already, or the count for the receiver.\<close>

fun expect_loop ::
    "(reply_ptr \<rightharpoonup> pending_reply) \<Rightarrow> connection \<Rightarrow> connection \<Rightarrow> 32 word \<Rightarrow> reply_ptr list \<Rightarrow> int \<Rightarrow>
     int option option" where
  "expect_loop P get send serial [] n = Some (Some n)"
| "expect_loop P get send serial (p # ps) n =
     do { x \<leftarrow> P p;
          if pd_reply_serial x = serial \<and> pd_will_get_reply x = get \<and> pd_will_send_reply x = Some send
          then Some None
          else expect_loop P get send serial ps (if pd_will_get_reply x = get then n + 1 else n) }"

text \<open>The answer: no error, or one. \<open>max_replies\<close> is the configured limit, \<open>now\<close> the clock.\<close>

definition connections_expect_reply ::
    "int \<Rightarrow> timeval \<Rightarrow> connection \<Rightarrow> connection \<Rightarrow> message \<Rightarrow> replies \<Rightarrow> (reply_error option \<times> replies) option" where
  "connections_expect_reply max_replies now will_get_reply will_send_reply reply_to_this r =
     (if mg_no_reply reply_to_this then Some (None, r)
      else
        do { walk \<leftarrow> expect_loop (rp_pending r) will_get_reply will_send_reply (mg_serial reply_to_this) (rp_items r) 0;
             case walk of
               None \<Rightarrow> Some (Some REPLY_ACCESS_DENIED, r)
             | Some n \<Rightarrow>
                 if n \<ge> max_replies then Some (Some REPLY_LIMITS_EXCEEDED, r)
                 else
                   let (ok, r) = reply_alloc r in
                   if \<not> ok then Some (Some REPLY_NO_MEMORY, r)
                   else
                     let p = rp_fresh r;
                         pending = \<lparr>pd_added = (0, 0), pd_will_get_reply = will_get_reply,
                           pd_will_send_reply = Some will_send_reply, pd_reply_serial = mg_serial reply_to_this\<rparr>;
                         r = r\<lparr>rp_fresh := p + 1, rp_pending := (rp_pending r)(p \<mapsto> pending)\<rparr>;
                         (ok, r) = reply_alloc r in
                     if \<not> ok then do { r \<leftarrow> pending_reply_free p r; Some (Some REPLY_NO_MEMORY, r) }
                     else
                       let (ok, r) = expire_list_add p r in
                       if \<not> ok then do { r \<leftarrow> pending_reply_free p r; Some (Some REPLY_NO_MEMORY, r) }
                       else
                         let (ok, r) = add_reply_hook (CancelPendingReply p) r in
                         if \<not> ok then
                           let (_, r) = expire_list_remove p r in
                           do { r \<leftarrow> pending_reply_free p r; Some (Some REPLY_NO_MEMORY, r) }
                         else
                           Some (None, r\<lparr>rp_pending := (rp_pending r)(p \<mapsto> pending\<lparr>pd_added := now\<rparr>)\<rparr>) })"

fun find_pending_loop ::
    "(reply_ptr \<rightharpoonup> pending_reply) \<Rightarrow> connection \<Rightarrow> connection \<Rightarrow> 32 word \<Rightarrow> reply_ptr list \<Rightarrow> reply_ptr option option" where
  "find_pending_loop P get send serial [] = Some None"
| "find_pending_loop P get send serial (p # ps) =
     do { x \<leftarrow> P p;
          if pd_reply_serial x = serial \<and> pd_will_get_reply x = get \<and> pd_will_send_reply x = Some send
          then Some (Some p)
          else find_pending_loop P get send serial ps }"

text \<open>The answer: an error, or whether the reply was expected.\<close>

definition connections_check_reply ::
    "connection \<Rightarrow> connection \<Rightarrow> message \<Rightarrow> replies \<Rightarrow> ((reply_error + bool) \<times> replies) option" where
  "connections_check_reply sending_reply receiving_reply reply r =
     do { found \<leftarrow> find_pending_loop (rp_pending r) receiving_reply sending_reply (mg_reply_serial reply) (rp_items r);
          case found of
            None \<Rightarrow> Some (Inr False, r)
          | Some p \<Rightarrow>
              let (ok, r) = reply_alloc r in
              if \<not> ok then Some (Inl REPLY_NO_MEMORY, r)
              else
                let (ok, r) = add_reply_hook (CheckPendingReply (Some p)) r in
                if \<not> ok then Some (Inl REPLY_NO_MEMORY, r)
                else
                  let r = expire_list_unlink p r in
                  if expire_list_contains_item p r then None else Some (Inr True, r) }"

section \<open>Expiry\<close>

text \<open>Building and sending the error, in a transaction of its own.\<close>

definition pending_reply_expired :: "reply_ptr \<Rightarrow> replies \<Rightarrow> (bool \<times> replies) option" where
  "pending_reply_expired p r =
     do { x \<leftarrow> rp_pending r p;
          let (ok, r) = reply_alloc r in
          if \<not> ok then Some (False, r)
          else
            let (ok, r) = reply_alloc r in
            if \<not> ok then Some (False, r)
            else
              do { r \<leftarrow> pending_reply_free p (expire_list_unlink p r);
                   Some (True, r\<lparr>rp_no_reply_sent :=
                     rp_no_reply_sent r @ [(pd_will_get_reply x, pd_reply_serial x)]\<rparr>) } }"

definition elapsed_microseconds :: "timeval \<Rightarrow> timeval \<Rightarrow> int" where
  "elapsed_microseconds orig now = (fst now - fst orig) * 1000000 + (snd now - snd orig)"

abbreviation OOM_WAIT :: int where "OOM_WAIT \<equiv> 500"

text \<open>
  The loop of \<^verbatim>\<open>do_expiration_with_monotonic_time\<close> over the links that were in the list when it
  began, the only link that goes away during a round being the one it is at. It returns the next
  interval, the shortest wait and whether there is an item to wait for.
\<close>

fun expiration_loop ::
    "int \<Rightarrow> timeval \<Rightarrow> reply_ptr list \<Rightarrow> int \<Rightarrow> bool \<Rightarrow> replies \<Rightarrow> (int \<times> int \<times> bool \<times> replies) option" where
  "expiration_loop expire_after now [] min_wait_time items_to_expire r =
     Some (- 1, min_wait_time, items_to_expire, r)"
| "expiration_loop expire_after now (p # ps) min_wait_time items_to_expire r =
     do { x \<leftarrow> rp_pending r p;
          let elapsed = elapsed_microseconds (pd_added x) now in
          if pd_added x = (0, 0) \<or> expire_after > 0 \<and> elapsed \<ge> expire_after * 1000 then
            do { (ok, r) \<leftarrow> pending_reply_expired p r;
                 if \<not> ok then Some (OOM_WAIT, min_wait_time, items_to_expire, r)
                 else expiration_loop expire_after now ps min_wait_time items_to_expire r }
          else if expire_after > 0 then
            let to_wait = expire_after * 1000 - elapsed in
            expiration_loop expire_after now ps
              (if min_wait_time * 1000 > to_wait then to_wait div 1000 else min_wait_time) True r
          else expiration_loop expire_after now ps min_wait_time items_to_expire r }"

definition do_expiration_with_monotonic_time :: "int \<Rightarrow> timeval \<Rightarrow> replies \<Rightarrow> (int \<times> replies) option" where
  "do_expiration_with_monotonic_time expire_after now r =
     do { (next_interval, min_wait_time, items_to_expire, r) \<leftarrow>
            expiration_loop expire_after now (rp_items r) (3600 * 1000) False r;
          Some (if next_interval < 0 \<and> items_to_expire then min_wait_time else next_interval, r) }"

definition expirelist_expire :: "int \<Rightarrow> timeval \<Rightarrow> replies \<Rightarrow> replies option" where
  "expirelist_expire expire_after now r =
     do { (next_interval, r) \<leftarrow>
            (if rp_items r \<noteq> [] then do_expiration_with_monotonic_time expire_after now r else Some (- 1, r));
          Some (expire_timeout_set_interval next_interval r) }"

section \<open>Losing a connection\<close>

fun drop_pending_loop :: "connection \<Rightarrow> reply_ptr list \<Rightarrow> replies \<Rightarrow> replies option" where
  "drop_pending_loop c [] r = Some r"
| "drop_pending_loop c (p # ps) r =
     do { x \<leftarrow> rp_pending r p;
          r \<leftarrow>
            (if pd_will_get_reply x = c then pending_reply_free p (expire_list_unlink p r)
             else if pd_will_send_reply x = Some c then
               Some (expire_list_recheck_immediately
                 (r\<lparr>rp_pending := (rp_pending r)(p \<mapsto> x\<lparr>pd_will_send_reply := None, pd_added := (0, 0)\<rparr>)\<rparr>))
             else Some r);
          drop_pending_loop c ps r }"

definition connection_drop_pending_replies :: "connection \<Rightarrow> replies \<Rightarrow> replies option" where
  "connection_drop_pending_replies c r = drop_pending_loop c (rp_items r) r"

end
