(* ===== verification/ReplyWindow.thy ===== *)
theory ReplyWindow
  imports Replies
begin

text \<open>
  Every reply that is let through answers a call of its own. The invariant of the pending replies:
  which objects are alive, and that a cancelled transaction leaves what was there before. A history
  of calls and replies over whatever transactions, expiries and lost connections is related to the
  set of replies expected.
\<close>

section \<open>What is expected\<close>

text \<open>Receiver, sender and serial of a reply that can still come.\<close>

definition reply_of :: "pending_reply \<Rightarrow> (connection \<times> connection \<times> 32 word) option" where
  "reply_of x = (case pd_will_send_reply x of
     None \<Rightarrow> None | Some s \<Rightarrow> Some (pd_will_get_reply x, s, pd_reply_serial x))"

definition expected_in ::
    "(reply_ptr \<rightharpoonup> pending_reply) \<Rightarrow> reply_ptr set \<Rightarrow> (connection \<times> connection \<times> 32 word) set" where
  "expected_in P S = {t. \<exists>p\<in>S. \<exists>x. P p = Some x \<and> reply_of x = Some t}"

definition expected :: "replies \<Rightarrow> (connection \<times> connection \<times> 32 word) set" where
  "expected r = expected_in (rp_pending r) (set (rp_items r))"

definition different_calls :: "(reply_ptr \<rightharpoonup> pending_reply) \<Rightarrow> reply_ptr set \<Rightarrow> bool" where
  "different_calls P S \<longleftrightarrow>
     (\<forall>p\<in>S. \<forall>q\<in>S. \<forall>x y t. P p = Some x \<longrightarrow> P q = Some y \<longrightarrow> reply_of x = Some t \<longrightarrow> reply_of y = Some t \<longrightarrow> p = q)"

definition waiting_in :: "(reply_ptr \<rightharpoonup> pending_reply) \<Rightarrow> connection \<Rightarrow> reply_ptr set" where
  "waiting_in P c = {p. \<exists>x. P p = Some x \<and> pd_will_get_reply x = c}"

lemma reply_of_eq: "reply_of x = Some (g, s, n) \<longleftrightarrow>
    pd_reply_serial x = n \<and> pd_will_get_reply x = g \<and> pd_will_send_reply x = Some s"
  by (auto simp: reply_of_def split: option.split)

lemma reply_of_new [simp]: "reply_of \<lparr>pd_added = a, pd_will_get_reply = g, pd_will_send_reply = Some s,
    pd_reply_serial = n\<rparr> = Some (g, s, n)"
  by (simp add: reply_of_def)

section \<open>The invariant\<close>

definition checked :: "reply_hook list \<Rightarrow> reply_ptr set" where
  "checked hs = {p. CheckPendingReply (Some p) \<in> set hs}"

definition cancelled :: "reply_hook list \<Rightarrow> reply_ptr set" where
  "cancelled hs = {p. CancelPendingReply p \<in> set hs}"

lemma hook_sets [simp]:
  "checked [] = {}" "cancelled [] = {}"
  "checked (CancelPendingReply p # hs) = checked hs"
  "checked (CheckPendingReply (Some p) # hs) = insert p (checked hs)"
  "cancelled (CancelPendingReply p # hs) = insert p (cancelled hs)"
  "cancelled (CheckPendingReply l # hs) = cancelled hs"
  by (auto simp: checked_def cancelled_def)

text \<open>The hooks can run, newest first, from the items \<open>S\<close>.\<close>

fun hooks_run :: "reply_hook list \<Rightarrow> reply_ptr set \<Rightarrow> bool" where
  "hooks_run [] S = True"
| "hooks_run (CancelPendingReply p # hs) S \<longleftrightarrow>
     p \<in> S \<and> p \<notin> checked hs \<and> p \<notin> cancelled hs \<and> hooks_run hs (S - {p})"
| "hooks_run (CheckPendingReply l # hs) S \<longleftrightarrow>
     (case l of None \<Rightarrow> False | Some p \<Rightarrow> p \<notin> S \<and> hooks_run hs (insert p S))"

lemma hooks_run_checked: "hooks_run hs S \<Longrightarrow> checked hs \<inter> S = {}"
proof (induction hs S rule: hooks_run.induct)
  case (3 l hs S)
  then show ?case by (cases l) auto
qed auto

lemma hooks_run_cancelled: "hooks_run hs S \<Longrightarrow> cancelled hs \<subseteq> S \<union> checked hs"
proof (induction hs S rule: hooks_run.induct)
  case (3 l hs S)
  then show ?case by (cases l) auto
qed auto

text \<open>
  The objects alive are those in the list and those a check has taken out of it; cancelling the
  transaction leaves those that were there before.
\<close>

definition before :: "replies \<Rightarrow> reply_ptr set" where
  "before r = dom (rp_pending r) - cancelled (rp_hooks r)"

definition expected_before :: "replies \<Rightarrow> (connection \<times> connection \<times> 32 word) set" where
  "expected_before r = expected_in (rp_pending r) (before r)"

definition calls_ok :: "int \<Rightarrow> (reply_ptr \<rightharpoonup> pending_reply) \<Rightarrow> reply_ptr set \<Rightarrow> bool" where
  "calls_ok L P S \<longleftrightarrow> different_calls P S \<and> (\<forall>c. card (S \<inter> waiting_in P c) \<le> nat L)"

definition replies_ok :: "int \<Rightarrow> replies \<Rightarrow> bool" where
  "replies_ok L r \<longleftrightarrow>
     distinct (rp_items r) \<and>
     dom (rp_pending r) = set (rp_items r) \<union> checked (rp_hooks r) \<and>
     hooks_run (rp_hooks r) (set (rp_items r)) \<and>
     (\<forall>p\<in>dom (rp_pending r). p < rp_fresh r) \<and>
     calls_ok L (rp_pending r) (set (rp_items r)) \<and>
     calls_ok L (rp_pending r) (before r)"

lemma replies_okD:
  assumes "replies_ok L r"
  shows "distinct (rp_items r)" "dom (rp_pending r) = set (rp_items r) \<union> checked (rp_hooks r)"
    "hooks_run (rp_hooks r) (set (rp_items r))" "\<forall>p\<in>dom (rp_pending r). p < rp_fresh r"
    "calls_ok L (rp_pending r) (set (rp_items r))" "calls_ok L (rp_pending r) (before r)"
  using assms by (simp_all add: replies_ok_def)

lemma replies_ok_item:
  assumes "replies_ok L r" "p \<in> set (rp_items r)"
  obtains x where "rp_pending r p = Some x"
  using replies_okD(2) [OF assms(1)] assms(2) by blast

lemma replies_ok_fresh:
  assumes "replies_ok L r"
  shows "rp_pending r (rp_fresh r) = None" "rp_fresh r \<notin> set (rp_items r)"
    "rp_fresh r \<notin> checked (rp_hooks r)" "rp_fresh r \<notin> cancelled (rp_hooks r)"
proof -
  have "rp_fresh r \<notin> dom (rp_pending r)" using replies_okD(4) [OF assms] by blast
  moreover have "cancelled (rp_hooks r) \<subseteq> dom (rp_pending r)"
    using hooks_run_cancelled [OF replies_okD(3) [OF assms]] replies_okD(2) [OF assms] by simp
  ultimately show "rp_pending r (rp_fresh r) = None" "rp_fresh r \<notin> set (rp_items r)"
    "rp_fresh r \<notin> checked (rp_hooks r)" "rp_fresh r \<notin> cancelled (rp_hooks r)"
    using replies_okD(2) [OF assms] by auto
qed

text \<open>Nothing that matters has changed.\<close>

definition same_replies :: "replies \<Rightarrow> replies \<Rightarrow> bool" where
  "same_replies r r' \<longleftrightarrow> rp_items r' = rp_items r \<and> rp_pending r' = rp_pending r \<and> rp_hooks r' = rp_hooks r \<and>
     rp_fresh r \<le> rp_fresh r'"

lemma same_replies_ok: "same_replies r r' \<Longrightarrow> replies_ok L r \<Longrightarrow> replies_ok L r'"
  unfolding same_replies_def replies_ok_def before_def by (metis order_less_le_trans)

lemma same_replies_expected:
  "same_replies r r' \<Longrightarrow> expected r' = expected r \<and> expected_before r' = expected_before r"
  by (simp add: same_replies_def expected_def expected_before_def before_def)

lemma same_replies_refl [simp]: "same_replies r r"
  by (simp add: same_replies_def)

lemma reply_alloc_same: "reply_alloc r = (ok, r') \<Longrightarrow> \<exists>m. r' = r\<lparr>rp_mem := m\<rparr>"
  by (auto simp: reply_alloc_def split: prod.splits)

lemma enable_timeout_same: "\<exists>t. enable_timeout r = r\<lparr>rp_timeout := t\<rparr>"
proof (cases "rp_timeout r")
  case (Some t)
  then have "enable_timeout r = r\<lparr>rp_timeout := Some t\<rparr>" by (simp add: enable_timeout_def)
  then show ?thesis by blast
qed (auto simp: enable_timeout_def expire_timeout_set_interval_def)

lemma enable_timeout_fields [simp]:
  "rp_items (enable_timeout r) = rp_items r" "rp_pending (enable_timeout r) = rp_pending r"
  "rp_hooks (enable_timeout r) = rp_hooks r" "rp_fresh (enable_timeout r) = rp_fresh r"
  "rp_no_reply_sent (enable_timeout r) = rp_no_reply_sent r"
  by (simp_all add: enable_timeout_def expire_timeout_set_interval_def)

section \<open>Expecting a reply\<close>

lemma expect_loop_eq:
  assumes "\<forall>p\<in>set ps. P p \<noteq> None"
  shows "expect_loop P g s n ps k =
    Some (if (g, s, n) \<in> expected_in P (set ps) then None
      else Some (k + int (length (filter (\<lambda>p. p \<in> waiting_in P g) ps))))"
  using assms
proof (induction ps arbitrary: k)
  case (Cons p ps)
  then obtain x where x: "P p = Some x" by auto
  have "(g, s, n) \<in> expected_in P (set (p # ps)) \<longleftrightarrow>
      reply_of x = Some (g, s, n) \<or> (g, s, n) \<in> expected_in P (set ps)"
    using x by (auto simp: expected_in_def)
  moreover have "p \<in> waiting_in P g \<longleftrightarrow> pd_will_get_reply x = g" using x by (simp add: waiting_in_def)
  ultimately show ?case using Cons x by (auto simp: reply_of_eq)
qed (simp add: expected_in_def)

definition new_call :: "timeval \<Rightarrow> connection \<Rightarrow> connection \<Rightarrow> 32 word \<Rightarrow> replies \<Rightarrow> replies \<Rightarrow> bool" where
  "new_call now g s n r r' \<longleftrightarrow>
     (let p = rp_fresh r in
      rp_pending r' = (rp_pending r)(p \<mapsto> \<lparr>pd_added = now, pd_will_get_reply = g, pd_will_send_reply = Some s,
        pd_reply_serial = n\<rparr>) \<and>
      rp_items r' = p # rp_items r \<and> rp_hooks r' = CancelPendingReply p # rp_hooks r \<and> rp_fresh r' = p + 1)"

lemma waiting_count:
  assumes "replies_ok L r"
  shows "length (filter (\<lambda>p. p \<in> waiting_in (rp_pending r) g) (rp_items r)) =
    card (set (rp_items r) \<inter> waiting_in (rp_pending r) g)"
proof -
  have "set (rp_items r) \<inter> waiting_in (rp_pending r) g =
      set (filter (\<lambda>p. p \<in> waiting_in (rp_pending r) g) (rp_items r))" by auto
  then show ?thesis using replies_okD(1) [OF assms] by (metis distinct_card distinct_filter)
qed

text \<open>Rules for the calls that may run out of memory.\<close>

lemma returns_reply_alloc:
  assumes "\<And>ok m. returns (f ok (r\<lparr>rp_mem := m\<rparr>)) Q"
  shows "returns (case reply_alloc r of (ok, r) \<Rightarrow> f ok r) Q"
  using assms by (simp add: reply_alloc_def Let_def split: prod.split)

lemma returns_expire_list_add:
  assumes "\<And>m. returns (f False (r\<lparr>rp_mem := m\<rparr>)) Q"
    and "\<And>m t. returns (f True (r\<lparr>rp_mem := m, rp_items := p # rp_items r, rp_timeout := t\<rparr>)) Q"
  shows "returns (case expire_list_add p r of (ok, r) \<Rightarrow> f ok r) Q"
proof -
  obtain ok m where m: "alloc (rp_mem r) = (ok, m)" by fastforce
  obtain t where "enable_timeout (r\<lparr>rp_mem := m, rp_items := p # rp_items r\<rparr>) =
      r\<lparr>rp_mem := m, rp_items := p # rp_items r, rp_timeout := t\<rparr>"
    using enable_timeout_same by blast
  then show ?thesis using m assms by (cases ok) (simp_all add: expire_list_add_def reply_alloc_def Let_def)
qed

lemma returns_add_reply_hook:
  assumes "\<And>m. returns (f False (r\<lparr>rp_mem := m\<rparr>)) Q"
    and "\<And>m. returns (f True (r\<lparr>rp_mem := m, rp_hooks := h # rp_hooks r\<rparr>)) Q"
  shows "returns (case add_reply_hook h r of (ok, r) \<Rightarrow> f ok r) Q"
proof -
  obtain ok m where m: "alloc (rp_mem r) = (ok, m)" by fastforce
  obtain ok2 m2 where m2: "alloc m = (ok2, m2)" by fastforce
  show ?thesis
    using m m2 assms by (cases ok; cases ok2) (simp_all add: add_reply_hook_def reply_alloc_def Let_def)
qed

lemmas returns_alloc_rules = returns_reply_alloc returns_expire_list_add returns_add_reply_hook returns_if

lemma expect_reply_cases:
  assumes "replies_ok L r"
  shows "returns (connections_expect_reply L now g s m r) (\<lambda>(e, r').
    if e \<noteq> None \<or> mg_no_reply m then same_replies r r'
    else (g, s, mg_serial m) \<notin> expected r \<and>
      int (card (set (rp_items r) \<inter> waiting_in (rp_pending r) g)) < L \<and> new_call now g s (mg_serial m) r r')"
proof -
  note fresh = replies_ok_fresh [OF assms]
  have "\<forall>p\<in>set (rp_items r). rp_pending r p \<noteq> None" using replies_okD(2) [OF assms] by blast
  note walk = expect_loop_eq [OF this, of g s "mg_serial m" 0]
  have undo: "(rp_pending r)(rp_fresh r := None) = rp_pending r" using fresh(1) by auto
  consider "mg_no_reply m" | "\<not> mg_no_reply m" "(g, s, mg_serial m) \<in> expected r"
    | "\<not> mg_no_reply m" "(g, s, mg_serial m) \<notin> expected r"
      "int (card (set (rp_items r) \<inter> waiting_in (rp_pending r) g)) \<ge> L"
    | "\<not> mg_no_reply m" "(g, s, mg_serial m) \<notin> expected r"
      "int (card (set (rp_items r) \<inter> waiting_in (rp_pending r) g)) < L" by linarith
  then show ?thesis
  proof cases
    case 4
    then show ?thesis
      using fresh unfolding connections_expect_reply_def walk Let_def expire_list_remove_def prod.case
      by (simp add: waiting_count [OF assms] flip: expected_def split del: if_split, intro returns_alloc_rules)
        (simp_all add: pending_reply_free_def same_replies_def undo new_call_def)
  qed (simp_all add: connections_expect_reply_def walk waiting_count [OF assms] flip: expected_def)
qed

lemma expected_in_insert:
  assumes "p \<notin> S"
  shows "expected_in (P(p \<mapsto> x)) (insert p S) = (case reply_of x of None \<Rightarrow> {} | Some t \<Rightarrow> {t}) \<union> expected_in P S"
  using assms by (auto simp: expected_in_def split: option.splits)

lemma expected_in_upd: "p \<notin> S \<Longrightarrow> expected_in (P(p := v)) S = expected_in P S"
  by (auto simp: expected_in_def)

lemma calls_ok_upd: "p \<notin> S \<Longrightarrow> calls_ok L (P(p := v)) S = calls_ok L P S"
proof -
  assume p: "p \<notin> S"
  have "S \<inter> waiting_in (P(p := v)) c = S \<inter> waiting_in P c" for c using p by (auto simp: waiting_in_def)
  moreover have "(P(p := v)) q = P q" if "q \<in> S" for q using p that by auto
  ultimately show ?thesis unfolding calls_ok_def different_calls_def by simp
qed

lemma calls_ok_subset: "calls_ok L P S \<Longrightarrow> T \<subseteq> S \<Longrightarrow> finite S \<Longrightarrow> calls_ok L P T"
  unfolding calls_ok_def different_calls_def
  by (meson card_mono finite_Int Int_mono order_refl order_trans subsetD)

lemma calls_ok_insert:
  assumes ok: "calls_ok L P S" and p: "p \<notin> S" and new: "(g, s, n) \<notin> expected_in P S"
    and room: "int (card (S \<inter> waiting_in P g)) < L" and S: "finite S"
    and x: "reply_of x = Some (g, s, n)" "pd_will_get_reply x = g"
  shows "calls_ok L (P(p \<mapsto> x)) (insert p S)"
proof -
  have "insert p S \<inter> waiting_in (P(p \<mapsto> x)) c =
      (if c = g then insert p (S \<inter> waiting_in P c) else S \<inter> waiting_in P c)" for c
    using p x by (auto simp: waiting_in_def)
  moreover have "card (insert p (S \<inter> waiting_in P g)) \<le> nat L" using p room S by simp
  moreover have "different_calls (P(p \<mapsto> x)) (insert p S)"
    using ok p new x by (auto simp: calls_ok_def different_calls_def expected_in_def)
  ultimately show ?thesis using ok by (simp add: calls_ok_def)
qed

lemma new_call_ok:
  assumes ok: "replies_ok L r" and new: "new_call now g s n r r'" "(g, s, n) \<notin> expected r"
    and room: "int (card (set (rp_items r) \<inter> waiting_in (rp_pending r) g)) < L"
  shows "replies_ok L r' \<and> expected r' = insert (g, s, n) (expected r) \<and> expected_before r' = expected_before r"
proof -
  note fresh = replies_ok_fresh [OF ok] and D = replies_okD [OF ok]
  have B: "before r' = before r" "rp_fresh r \<notin> before r"
    using fresh new(1) by (auto simp: before_def new_call_def Let_def)
  have "hooks_run (rp_hooks r') (set (rp_items r'))"
    using D(3) fresh new(1) by (simp add: new_call_def Let_def)
  moreover have "calls_ok L (rp_pending r') (set (rp_items r'))"
    using calls_ok_insert [OF D(5) fresh(2) new(2) [unfolded expected_def] room] new(1)
    by (simp add: new_call_def Let_def)
  moreover have "calls_ok L (rp_pending r') (before r')"
    using calls_ok_upd [OF B(2)] B(1) D(6) new(1) by (simp add: new_call_def Let_def)
  moreover have "\<forall>p\<in>dom (rp_pending r'). p < rp_fresh r'"
    using D(4) new(1) by (auto simp: new_call_def Let_def intro: less_SucI)
  ultimately have "replies_ok L r'"
    using D(1,2) fresh new(1) unfolding replies_ok_def by (auto simp: new_call_def Let_def)
  moreover have "expected r' = insert (g, s, n) (expected r)"
    using expected_in_insert [OF fresh(2)] new(1) by (simp add: expected_def new_call_def Let_def)
  moreover have "expected_before r' = expected_before r"
    using expected_in_upd [OF B(2)] B(1) new(1) by (simp add: expected_before_def new_call_def Let_def)
  ultimately show ?thesis by blast
qed

lemma expect_reply_ok:
  assumes "replies_ok L r"
  shows "returns (connections_expect_reply L now g s m r) (\<lambda>(e, r').
    replies_ok L r' \<and> expected_before r' = expected_before r \<and>
    (if e \<noteq> None \<or> mg_no_reply m then expected r' = expected r
     else (g, s, mg_serial m) \<notin> expected r \<and> expected r' = insert (g, s, mg_serial m) (expected r)))"
  by (rule returns_mono [OF expect_reply_cases [OF assms]])
    (auto simp: assms same_replies_ok same_replies_expected dest: new_call_ok [OF assms] split: if_splits)

section \<open>Checking a reply\<close>

lemma find_pending_loop_eq:
  assumes "\<forall>p\<in>set ps. P p \<noteq> None"
  shows "\<exists>found. find_pending_loop P g s n ps = Some found \<and>
    (case found of None \<Rightarrow> (g, s, n) \<notin> expected_in P (set ps)
     | Some p \<Rightarrow> p \<in> set ps \<and> (\<exists>x. P p = Some x \<and> reply_of x = Some (g, s, n)))"
  using assms
proof (induction ps)
  case (Cons p ps)
  then obtain x where x: "P p = Some x" by auto
  have "(g, s, n) \<in> expected_in P (set (p # ps)) \<longleftrightarrow>
      reply_of x = Some (g, s, n) \<or> (g, s, n) \<in> expected_in P (set ps)"
    using x by (auto simp: expected_in_def)
  moreover obtain found where "find_pending_loop P g s n ps = Some found"
      "case found of None \<Rightarrow> (g, s, n) \<notin> expected_in P (set ps)
       | Some p \<Rightarrow> p \<in> set ps \<and> (\<exists>x. P p = Some x \<and> reply_of x = Some (g, s, n))"
    using Cons by auto
  ultimately show ?case
    using x by (cases "reply_of x = Some (g, s, n)"; cases found) (auto simp flip: reply_of_eq)
qed (simp add: expected_in_def)

text \<open>A pending reply taken out of the list.\<close>

definition taken :: "reply_ptr \<Rightarrow> replies \<Rightarrow> replies \<Rightarrow> bool" where
  "taken p r r' \<longleftrightarrow> rp_items r' = remove1 p (rp_items r) \<and> rp_pending r' = rp_pending r \<and>
     rp_hooks r' = CheckPendingReply (Some p) # rp_hooks r \<and> rp_fresh r' = rp_fresh r"

lemma check_reply_cases:
  assumes "replies_ok L r"
  shows "returns (connections_check_reply s g m r) (\<lambda>(answer, r').
    if answer = Inr True
    then \<exists>p\<in>set (rp_items r). \<exists>x. rp_pending r p = Some x \<and>
        reply_of x = Some (g, s, mg_reply_serial m) \<and> taken p r r'
    else same_replies r r' \<and> (answer = Inr False \<longrightarrow> (g, s, mg_reply_serial m) \<notin> expected r))"
proof -
  have "\<forall>p\<in>set (rp_items r). rp_pending r p \<noteq> None" using replies_okD(2) [OF assms] by blast
  from find_pending_loop_eq [OF this, of g s "mg_reply_serial m"] obtain found where
    found: "find_pending_loop (rp_pending r) g s (mg_reply_serial m) (rp_items r) = Some found"
      "case found of None \<Rightarrow> (g, s, mg_reply_serial m) \<notin> expected r
       | Some p \<Rightarrow> p \<in> set (rp_items r) \<and> (\<exists>x. rp_pending r p = Some x \<and> reply_of x = Some (g, s, mg_reply_serial m))"
    unfolding expected_def by blast
  show ?thesis
  proof (cases found)
    case None
    then show ?thesis using found by (simp add: connections_check_reply_def)
  next
    case (Some p)
    have "p \<notin> set (remove1 p (rp_items r))" using replies_okD(1) [OF assms] by simp
    then show ?thesis
      using found Some unfolding connections_check_reply_def Let_def expire_list_contains_item_def expire_list_unlink_def
      by (simp split del: if_split, intro returns_alloc_rules) (auto simp: same_replies_def taken_def)
  qed
qed

lemma expected_in_remove:
  assumes "different_calls P S" "p \<in> S" "P p = Some x" "reply_of x = Some t"
  shows "expected_in P (S - {p}) = expected_in P S - {t}"
  using assms unfolding expected_in_def different_calls_def by fastforce

lemma taken_ok:
  assumes ok: "replies_ok L r" and p: "p \<in> set (rp_items r)" "rp_pending r p = Some x" "reply_of x = Some t"
    and taken: "taken p r r'"
  shows "replies_ok L r' \<and> expected r' = expected r - {t} \<and> expected_before r' = expected_before r \<and> t \<in> expected r"
proof -
  note D = replies_okD [OF ok]
  have items: "set (rp_items r') = set (rp_items r) - {p}" using taken D(1) by (simp add: taken_def)
  have "before r' = before r" using taken by (simp add: before_def taken_def)
  moreover have "hooks_run (rp_hooks r') (set (rp_items r'))"
    using D(3) items taken p(1) by (simp add: taken_def insert_absorb)
  moreover have "calls_ok L (rp_pending r) (set (rp_items r'))"
    using calls_ok_subset [OF D(5)] items by auto
  ultimately have "replies_ok L r'"
    using D items taken p(1) unfolding replies_ok_def by (auto simp: taken_def)
  moreover have "expected r' = expected r - {t}"
    using expected_in_remove [of "rp_pending r" "set (rp_items r)" p x t] p D(5) items taken by (simp add: expected_def calls_ok_def taken_def)
  moreover have "expected_before r' = expected_before r"
    using \<open>before r' = before r\<close> taken by (simp add: expected_before_def taken_def)
  ultimately show ?thesis using p by (auto simp: expected_def expected_in_def)
qed

lemma check_reply_ok:
  assumes "replies_ok L r"
  shows "returns (connections_check_reply s g m r) (\<lambda>(answer, r').
    replies_ok L r' \<and> expected_before r' = expected_before r \<and>
    (let t = (g, s, mg_reply_serial m) in
     if answer = Inr True then t \<in> expected r \<and> expected r' = expected r - {t}
     else expected r' = expected r \<and> (answer = Inr False \<longrightarrow> t \<notin> expected r)))"
  by (rule returns_mono [OF check_reply_cases [OF assms]])
    (auto simp: assms same_replies_ok same_replies_expected Let_def dest: taken_ok [OF assms] split: if_splits)

section \<open>The end of a transaction\<close>

lemma free_reply_hooks_eq:
  assumes "hooks_run hs S" "checked hs \<inter> set (rp_items r) = {}" "checked hs \<subseteq> dom (rp_pending r)"
  shows "free_reply_hooks hs r = Some (r\<lparr>rp_hooks := [], rp_pending := rp_pending r |` (- checked hs)\<rparr>)"
  using assms
proof (induction hs S arbitrary: r rule: hooks_run.induct)
  case (3 l hs S)
  then obtain p where l: "l = Some p" by (auto split: option.splits)
  then have p: "p \<notin> checked hs" "p \<notin> set (rp_items r)" "rp_pending r p \<noteq> None"
    using 3 hooks_run_checked [of hs "insert p S"] by auto
  have "free_reply_hooks hs (r\<lparr>rp_pending := (rp_pending r)(p := None)\<rparr>) =
      Some (r\<lparr>rp_hooks := [], rp_pending := (rp_pending r)(p := None) |` (- checked hs)\<rparr>)"
    using 3 l p by (subst "3.IH" [OF l]) auto
  moreover have "(rp_pending r)(p := None) |` (- checked hs) = rp_pending r |` (- insert p (checked hs))"
    by (auto simp: restrict_map_def fun_eq_iff)
  ultimately show ?case using l p by (simp add: pending_reply_free_def expire_list_contains_item_def)
qed (simp_all add: restrict_map_def)

definition spent :: "reply_hook \<Rightarrow> bool" where
  "spent h \<longleftrightarrow> h \<noteq> CheckPendingReply None \<longrightarrow> (\<exists>p. h = CancelPendingReply p)"

lemma free_spent_hooks: "\<forall>h\<in>set hs. spent h \<Longrightarrow> free_reply_hooks hs r = Some (r\<lparr>rp_hooks := []\<rparr>)"
  by (induction hs) (auto simp: spent_def)

lemma cancel_reply_hooks_eq:
  assumes "hooks_run hs (set (rp_items r))" "distinct (rp_items r)" "set (rp_items r) \<union> checked hs \<subseteq> dom (rp_pending r)"
  shows "\<exists>hs' r'. cancel_reply_hooks hs r = Some (hs', r') \<and> (\<forall>h\<in>set hs'. spent h) \<and>
    rp_pending r' = rp_pending r |` (- cancelled hs) \<and> distinct (rp_items r') \<and>
    set (rp_items r') = (set (rp_items r) \<union> checked hs) - cancelled hs \<and> rp_fresh r' = rp_fresh r"
  using assms
proof (induction hs arbitrary: r)
  case (Cons h hs)
  show ?case
  proof (cases h)
    case (CancelPendingReply p)
    let ?r = "r\<lparr>rp_items := remove1 p (rp_items r), rp_pending := (rp_pending r)(p := None)\<rparr>"
    have p: "p \<in> set (rp_items r)" "p \<notin> checked hs" "p \<notin> cancelled hs" "rp_pending r p \<noteq> None"
      using Cons.prems CancelPendingReply by auto
    then have step: "cancel_reply_hook h r = Some (h, ?r)"
      using CancelPendingReply by (auto simp: expire_list_remove_def pending_reply_free_def)
    have items: "set (rp_items ?r) = set (rp_items r) - {p}" using Cons.prems(2) by simp
    then have "hooks_run hs (set (rp_items ?r))" "distinct (rp_items ?r)"
        "set (rp_items ?r) \<union> checked hs \<subseteq> dom (rp_pending ?r)"
      using Cons.prems CancelPendingReply p by auto
    then obtain hs' r' where "cancel_reply_hooks hs ?r = Some (hs', r')" "\<forall>h\<in>set hs'. spent h"
      "rp_pending r' = rp_pending ?r |` (- cancelled hs)" "distinct (rp_items r')"
      "set (rp_items r') = (set (rp_items ?r) \<union> checked hs) - cancelled hs" "rp_fresh r' = rp_fresh ?r"
      using Cons.IH [of ?r] by blast
    moreover have "(rp_pending r)(p := None) |` (- cancelled hs) = rp_pending r |` (- insert p (cancelled hs))"
      by (auto simp: restrict_map_def fun_eq_iff)
    ultimately show ?thesis
      using step CancelPendingReply p(2) items by (auto simp: spent_def)
  next
    case (CheckPendingReply l)
    then obtain p where l: "l = Some p" using Cons.prems by (auto split: option.splits)
    let ?r = "enable_timeout (r\<lparr>rp_items := p # rp_items r\<rparr>)"
    have p: "p \<notin> set (rp_items r)" using Cons.prems CheckPendingReply l by auto
    have step: "cancel_reply_hook h r = Some (CheckPendingReply None, ?r)"
      using CheckPendingReply l by (simp add: expire_list_add_link_def)
    obtain hs' r' where "cancel_reply_hooks hs ?r = Some (hs', r')" "\<forall>h\<in>set hs'. spent h"
      "rp_pending r' = rp_pending ?r |` (- cancelled hs)" "distinct (rp_items r')"
      "set (rp_items r') = (set (rp_items ?r) \<union> checked hs) - cancelled hs" "rp_fresh r' = rp_fresh ?r"
      using Cons.IH [of ?r] Cons.prems CheckPendingReply l p by auto
    then show ?thesis using step CheckPendingReply l by (auto simp: spent_def)
  qed
qed (simp add: restrict_map_def)

lemma restrict_calls:
  assumes "S \<inter> A = {}"
  shows "calls_ok L (P |` (- A)) S = calls_ok L P S" "expected_in (P |` (- A)) S = expected_in P S"
proof -
  have eq: "(P |` (- A)) p = P p" if "p \<in> S" for p using assms that by (auto simp: restrict_map_def)
  then have "S \<inter> waiting_in (P |` (- A)) c = S \<inter> waiting_in P c" for c by (auto simp: waiting_in_def)
  then show "calls_ok L (P |` (- A)) S = calls_ok L P S" "expected_in (P |` (- A)) S = expected_in P S"
    unfolding calls_ok_def different_calls_def expected_in_def using eq by simp_all
qed

text \<open>Between two transactions.\<close>

definition settled :: "int \<Rightarrow> replies \<Rightarrow> bool" where
  "settled L r \<longleftrightarrow> replies_ok L r \<and> rp_hooks r = []"

lemma settled_iff:
  "settled L r \<longleftrightarrow> rp_hooks r = [] \<and> distinct (rp_items r) \<and> dom (rp_pending r) = set (rp_items r) \<and>
     (\<forall>p\<in>set (rp_items r). p < rp_fresh r) \<and> calls_ok L (rp_pending r) (set (rp_items r))"
  by (auto simp: settled_def replies_ok_def before_def)

lemma settled_before: "settled L r \<Longrightarrow> before r = set (rp_items r) \<and> expected_before r = expected r"
  by (auto simp: settled_iff before_def expected_before_def expected_def)

lemma reply_execute_ok:
  assumes "replies_ok L r"
  shows "returns (reply_transaction_execute r) (\<lambda>r'. settled L r' \<and> expected r' = expected r)"
proof -
  note D = replies_okD [OF assms]
  have disj: "set (rp_items r) \<inter> checked (rp_hooks r) = {}" using hooks_run_checked [OF D(3)] by blast
  have "free_reply_hooks (rp_hooks r) r =
      Some (r\<lparr>rp_hooks := [], rp_pending := rp_pending r |` (- checked (rp_hooks r))\<rparr>)"
    by (rule free_reply_hooks_eq [OF D(3)]) (use disj D(2) in auto)
  then show ?thesis
    using D disj restrict_calls [OF disj]
    by (auto simp: reply_transaction_execute_def settled_iff expected_def)
qed

lemma reply_cancel_ok:
  assumes "replies_ok L r"
  shows "returns (reply_transaction_cancel r) (\<lambda>r'. settled L r' \<and> expected r' = expected_before r)"
proof -
  note D = replies_okD [OF assms]
  obtain hs' r' where r': "cancel_reply_hooks (rp_hooks r) r = Some (hs', r')" "\<forall>h\<in>set hs'. spent h"
    "rp_pending r' = rp_pending r |` (- cancelled (rp_hooks r))" "distinct (rp_items r')"
    "set (rp_items r') = (set (rp_items r) \<union> checked (rp_hooks r)) - cancelled (rp_hooks r)"
    "rp_fresh r' = rp_fresh r"
    using cancel_reply_hooks_eq [OF D(3,1)] D(2) by auto
  have items: "set (rp_items r') = before r" using r'(5) D(2) by (simp add: before_def)
  have "before r \<inter> cancelled (rp_hooks r) = {}" by (auto simp: before_def)
  note eqs = restrict_calls [OF this]
  have "dom (rp_pending r') = before r" using r'(3) by (auto simp: before_def)
  moreover have "\<forall>p\<in>before r. p < rp_fresh r" using D(4) by (auto simp: before_def)
  ultimately show ?thesis
    using r' items eqs D(6) free_spent_hooks [OF r'(2)]
    by (simp add: reply_transaction_cancel_def settled_iff expected_def expected_before_def)
qed

section \<open>Expiry\<close>

text \<open>One pending reply leaves the list and is freed.\<close>

definition gone :: "reply_ptr \<Rightarrow> replies \<Rightarrow> replies \<Rightarrow> bool" where
  "gone p r r' \<longleftrightarrow> rp_items r' = remove1 p (rp_items r) \<and> rp_pending r' = (rp_pending r)(p := None) \<and>
     rp_hooks r' = rp_hooks r \<and> rp_fresh r' = rp_fresh r"

lemma gone_ok:
  assumes ok: "settled L r" and p: "p \<in> set (rp_items r)" and gone: "gone p r r'"
  shows "settled L r'" "set (rp_items r') = set (rp_items r) - {p}"
    "expected r' = expected_in (rp_pending r) (set (rp_items r) - {p})"
proof -
  show items: "set (rp_items r') = set (rp_items r) - {p}" using ok gone by (simp add: gone_def settled_iff)
  have "calls_ok L (rp_pending r) (set (rp_items r) - {p})"
    using ok calls_ok_subset [of L "rp_pending r" "set (rp_items r)"] by (auto simp: settled_iff)
  then show "settled L r'"
    using ok gone items calls_ok_upd [of p "set (rp_items r) - {p}" L "rp_pending r" None]
    by (auto simp: settled_iff gone_def)
  show "expected r' = expected_in (rp_pending r) (set (rp_items r) - {p})"
    using gone items expected_in_upd [of p "set (rp_items r) - {p}" "rp_pending r" None]
    by (simp add: expected_def gone_def)
qed

lemma settled_item: "settled L r \<Longrightarrow> p \<in> set (rp_items r) \<Longrightarrow> \<exists>x. rp_pending r p = Some x"
  by (auto simp: settled_iff)

lemma pending_reply_expired_cases:
  assumes "rp_pending r p = Some x"
  shows "returns (pending_reply_expired p r) (\<lambda>(ok, r').
    if ok then gone p r r' \<and> rp_no_reply_sent r' = rp_no_reply_sent r @ [(pd_will_get_reply x, pd_reply_serial x)]
    else \<exists>m. r' = r\<lparr>rp_mem := m\<rparr>)"
  using assms unfolding pending_reply_expired_def Let_def
  by (simp split del: if_split, intro returns_alloc_rules)
    (auto simp: pending_reply_free_def expire_list_unlink_def gone_def intro: exI [of _ "rp_mem _"])

definition due :: "int \<Rightarrow> timeval \<Rightarrow> pending_reply \<Rightarrow> bool" where
  "due expire_after now x \<longleftrightarrow> pd_added x = (0, 0) \<or>
     expire_after > 0 \<and> elapsed_microseconds (pd_added x) now \<ge> expire_after * 1000"

text \<open>What a round may do: only what is due goes, and with memory all of it.\<close>

definition expired_some :: "int \<Rightarrow> int \<Rightarrow> timeval \<Rightarrow> reply_ptr set \<Rightarrow> replies \<Rightarrow> bool \<Rightarrow> replies \<Rightarrow> bool" where
  "expired_some L expire_after now ps r whole r' \<longleftrightarrow>
     settled L r' \<and> set (rp_items r') \<subseteq> set (rp_items r) \<and>
     (\<forall>p\<in>set (rp_items r'). rp_pending r' p = rp_pending r p) \<and>
     (\<forall>p\<in>set (rp_items r) - set (rp_items r'). \<exists>x. p \<in> ps \<and> rp_pending r p = Some x \<and> due expire_after now x) \<and>
     (whole \<longrightarrow> (\<forall>p\<in>ps. \<forall>x. rp_pending r p = Some x \<longrightarrow> due expire_after now x \<longrightarrow> p \<notin> set (rp_items r')))"

lemma expired_some_step:
  assumes "settled L r" and p: "p \<in> set (rp_items r)" "p \<notin> ps"
    and x: "rp_pending r p = Some x" "due expire_after now x" and gone: "gone p r r1"
    and r': "expired_some L expire_after now ps r1 whole r'"
  shows "expired_some L expire_after now (insert p ps) r whole r'"
proof -
  have items: "set (rp_items r1) = set (rp_items r) - {p}" using assms(1) gone by (simp add: gone_def settled_iff)
  have P: "rp_pending r1 q = rp_pending r q" if "q \<noteq> p" for q using gone that by (simp add: gone_def)
  have "set (rp_items r') \<subseteq> set (rp_items r) - {p}" using r' items by (simp add: expired_some_def)
  moreover have "rp_pending r' q = rp_pending r q" if "q \<in> set (rp_items r')" for q
    using r' P [of q] that calculation by (auto simp: expired_some_def)
  moreover have "\<exists>y. q \<in> insert p ps \<and> rp_pending r q = Some y \<and> due expire_after now y"
    if q: "q \<in> set (rp_items r) - set (rp_items r')" for q
  proof (cases "q = p")
    case False
    then have "q \<in> set (rp_items r1) - set (rp_items r')" using q items by simp
    then show ?thesis using r' P [OF False] unfolding expired_some_def by (metis insertI2)
  qed (use x in simp)
  moreover have "q \<notin> set (rp_items r')"
    if "whole" "q \<in> insert p ps" "rp_pending r q = Some y" "due expire_after now y" for q y
  proof (cases "q = p")
    case False
    then show ?thesis using r' that P [OF False] by (simp add: expired_some_def)
  qed (use calculation(1) in auto)
  ultimately show ?thesis using r' unfolding expired_some_def by blast
qed

lemma expiration_loop_ok:
  assumes "settled L r" "set ps \<subseteq> set (rp_items r)" "distinct ps"
  shows "returns (expiration_loop expire_after now ps w b r) (\<lambda>(next_interval, w', b', r').
    expired_some L expire_after now (set ps) r (next_interval = - 1) r')"
  using assms
proof (induction ps arbitrary: w b r)
  case Nil
  then show ?case by (auto simp: expired_some_def settled_iff)
next
  case (Cons p ps)
  obtain x where x: "rp_pending r p = Some x" using settled_item [OF Cons.prems(1)] Cons.prems(2) by auto
  show ?case
  proof (cases "due expire_after now x")
    case False
    have "returns (expiration_loop expire_after now ps w' b' r) (\<lambda>(next_interval, w', b', r').
        expired_some L expire_after now (set (p # ps)) r (next_interval = - 1) r')" for w' b'
      by (rule returns_mono [OF Cons.IH [OF Cons.prems(1)]])
        (use Cons.prems x False in \<open>auto simp: expired_some_def\<close>)
    then show ?thesis using x False by (auto simp: due_def Let_def)
  next
    case True
    have "returns (if ok then expiration_loop expire_after now ps w b r1 else Some (OOM_WAIT, w, b, r1))
        (\<lambda>(next_interval, w', b', r'). expired_some L expire_after now (set (p # ps)) r (next_interval = - 1) r')"
      if step: "if ok then gone p r r1 else \<exists>m. r1 = r\<lparr>rp_mem := m\<rparr>" for ok r1
    proof (cases ok)
      case False
      then obtain m where "r1 = r\<lparr>rp_mem := m\<rparr>" using step by auto
      moreover have "settled L (r\<lparr>rp_mem := m\<rparr>)" using Cons.prems(1) by (simp add: settled_iff)
      ultimately show ?thesis using False by (simp add: expired_some_def)
    next
      case ok: True
      then have gone: "gone p r r1" using step by simp
      have p: "p \<in> set (rp_items r)" "p \<notin> set ps" using Cons.prems by auto
      note r1 = gone_ok [OF Cons.prems(1) p(1) gone]
      have "set ps \<subseteq> set (rp_items r1)" "distinct ps" using Cons.prems(2,3) p r1(2) by auto
      then have "returns (expiration_loop expire_after now ps w b r1) (\<lambda>(next_interval, w', b', r').
          expired_some L expire_after now (set (p # ps)) r (next_interval = - 1) r')"
        using expired_some_step [OF Cons.prems(1) p x True gone]
        by (intro returns_mono [OF Cons.IH [OF r1(1)]]) auto
      then show ?thesis using ok by simp
    qed
    note steps = this
    have "returns (Option.bind (pending_reply_expired p r) (\<lambda>(ok, r1).
        if \<not> ok then Some (OOM_WAIT, w, b, r1) else expiration_loop expire_after now ps w b r1))
      (\<lambda>(next_interval, w', b', r'). expired_some L expire_after now (set (p # ps)) r (next_interval = - 1) r')"
    proof (rule returns_bindI [OF pending_reply_expired_cases [OF x]])
      fix z
      assume z: "case z of (ok, r') \<Rightarrow> if ok then gone p r r' \<and> rp_no_reply_sent r' =
          rp_no_reply_sent r @ [(pd_will_get_reply x, pd_reply_serial x)] else \<exists>m. r' = r\<lparr>rp_mem := m\<rparr>"
      obtain ok r1 where "z = (ok, r1)" by fastforce
      then show "returns (case z of (ok, r1) \<Rightarrow>
          if \<not> ok then Some (OOM_WAIT, w, b, r1) else expiration_loop expire_after now ps w b r1)
        (\<lambda>(next_interval, w', b', r'). expired_some L expire_after now (set (p # ps)) r (next_interval = - 1) r')"
        using steps [of ok r1] z by (cases ok) simp_all
    qed
    then show ?thesis using x True by (auto simp: due_def Let_def)
  qed
qed

lemma set_interval_same [simp]:
  "rp_items (expire_timeout_set_interval i r) = rp_items r" "rp_pending (expire_timeout_set_interval i r) = rp_pending r"
  "rp_hooks (expire_timeout_set_interval i r) = rp_hooks r" "rp_fresh (expire_timeout_set_interval i r) = rp_fresh r"
  by (simp_all add: expire_timeout_set_interval_def)

lemma settled_set_interval [simp]: "settled L (expire_timeout_set_interval i r) = settled L r"
  by (simp add: settled_iff)

lemma expired_some_expected:
  assumes "expired_some L expire_after now ps r whole r'"
  shows "expected r' \<subseteq> expected r"
  using assms by (fastforce simp: expired_some_def expected_def expected_in_def)

lemma expire_ok:
  assumes "settled L r"
  shows "returns (expirelist_expire expire_after now r) (\<lambda>r'.
    \<exists>whole. expired_some L expire_after now (set (rp_items r)) r whole r')"
proof -
  have "returns (expiration_loop expire_after now (rp_items r) (3600 * 1000) False r) (\<lambda>(next_interval, w', b', r').
      expired_some L expire_after now (set (rp_items r)) r (next_interval = - 1) r')"
    by (rule expiration_loop_ok) (use assms in \<open>auto simp: settled_iff\<close>)
  moreover have "expired_some L expire_after now {} r False r"
    using assms by (auto simp: expired_some_def)
  ultimately show ?thesis
    by (auto simp: expirelist_expire_def do_expiration_with_monotonic_time_def returns_def expired_some_def
        split: prod.splits)
qed

section \<open>Losing a connection\<close>

definition without_conn ::
    "connection \<Rightarrow> (connection \<times> connection \<times> 32 word) set \<Rightarrow> (connection \<times> connection \<times> 32 word) set" where
  "without_conn c T = {(g, s, n) \<in> T. g \<noteq> c \<and> s \<noteq> c}"

lemma different_calls_weaken:
  assumes "different_calls P S" "T \<subseteq> S"
    and "\<And>p y t. p \<in> T \<Longrightarrow> Q p = Some y \<Longrightarrow> reply_of y = Some t \<Longrightarrow> \<exists>x. P p = Some x \<and> reply_of x = Some t"
  shows "different_calls Q T"
  unfolding different_calls_def
proof (intro ballI allI impI)
  fix p q x y t
  assume T: "p \<in> T" "q \<in> T" and "Q p = Some x" "Q q = Some y" "reply_of x = Some t" "reply_of y = Some t"
  then obtain x' y' where "P p = Some x'" "reply_of x' = Some t" "P q = Some y'" "reply_of y' = Some t"
    using assms(3) by blast
  moreover have "p \<in> S" "q \<in> S" using T assms(2) by blast+
  ultimately show "p = q" using assms(1) unfolding different_calls_def by blast
qed

text \<open>The replier is gone, the pending reply is to expire.\<close>

definition orphaned :: "reply_ptr \<Rightarrow> pending_reply \<Rightarrow> replies \<Rightarrow> replies \<Rightarrow> bool" where
  "orphaned p x r r' \<longleftrightarrow> rp_items r' = rp_items r \<and> rp_hooks r' = rp_hooks r \<and> rp_fresh r' = rp_fresh r \<and>
     rp_pending r' = (rp_pending r)(p \<mapsto> x\<lparr>pd_will_send_reply := None, pd_added := (0, 0)\<rparr>)"

lemma orphaned_ok:
  assumes ok: "settled L r" and p: "p \<in> set (rp_items r)" "rp_pending r p = Some x" and orphaned: "orphaned p x r r'"
  shows "settled L r'" "expected r' = expected_in (rp_pending r) (set (rp_items r) - {p})"
proof -
  have "waiting_in (rp_pending r') c = waiting_in (rp_pending r) c" for c
    using p orphaned by (auto simp: waiting_in_def orphaned_def)
  moreover have "different_calls (rp_pending r') (set (rp_items r))"
    by (rule different_calls_weaken [of "rp_pending r" "set (rp_items r)"])
      (use ok p orphaned in \<open>auto simp: settled_iff calls_ok_def orphaned_def reply_of_def split: if_splits\<close>)
  ultimately show "settled L r'"
    using ok p orphaned by (auto simp: settled_iff orphaned_def calls_ok_def)
  show "expected r' = expected_in (rp_pending r) (set (rp_items r) - {p})"
    using p orphaned by (auto simp: expected_def expected_in_def orphaned_def reply_of_def split: if_splits)
qed

text \<open>What is left once the pending replies \<open>ps\<close> have been looked at.\<close>

definition dropped_from :: "int \<Rightarrow> connection \<Rightarrow> reply_ptr set \<Rightarrow> replies \<Rightarrow> replies \<Rightarrow> bool" where
  "dropped_from L c ps r r' \<longleftrightarrow> settled L r' \<and>
     set (rp_items r') = set (rp_items r) - (ps \<inter> waiting_in (rp_pending r) c) \<and>
     (\<forall>p\<in>set (rp_items r'). \<forall>x. rp_pending r p = Some x \<longrightarrow>
       rp_pending r' p = Some (if p \<in> ps \<and> pd_will_send_reply x = Some c
         then x\<lparr>pd_will_send_reply := None, pd_added := (0, 0)\<rparr> else x))"

lemma drop_pending_loop_ok:
  assumes "settled L r" "set ps \<subseteq> set (rp_items r)" "distinct ps"
  shows "returns (drop_pending_loop c ps r) (dropped_from L c (set ps) r)"
  using assms
proof (induction ps arbitrary: r)
  case Nil
  then show ?case by (auto simp: dropped_from_def)
next
  case (Cons p ps)
  have p: "p \<in> set (rp_items r)" "p \<notin> set ps" using Cons.prems by auto
  then obtain x where x: "rp_pending r p = Some x" using settled_item [OF Cons.prems(1)] by auto
  consider "pd_will_get_reply x = c" | "pd_will_get_reply x \<noteq> c" "pd_will_send_reply x = Some c"
    | "pd_will_get_reply x \<noteq> c" "pd_will_send_reply x \<noteq> Some c" by blast
  then show ?case
  proof cases
    case 1
    obtain r1 where r1: "pending_reply_free p (expire_list_unlink p r) = Some r1" "gone p r r1"
      using x by (simp add: pending_reply_free_def expire_list_unlink_def gone_def)
    note ok = gone_ok [OF Cons.prems(1) p(1) r1(2)]
    have "set ps \<subseteq> set (rp_items r1)" "distinct ps" using Cons.prems(2,3) p ok(2) by auto
    moreover have "rp_pending r1 q = rp_pending r q" if "q \<noteq> p" for q using r1(2) that by (simp add: gone_def)
    moreover have "p \<in> waiting_in (rp_pending r) c" using x 1 by (simp add: waiting_in_def)
    moreover have "q \<in> waiting_in (rp_pending r1) c \<longleftrightarrow> q \<in> waiting_in (rp_pending r) c" if "q \<noteq> p" for q
      using that r1(2) by (simp add: waiting_in_def gone_def)
    ultimately show ?thesis
      using x 1 r1(1) by (simp, intro returns_mono [OF Cons.IH [OF ok(1)]])
        (use p ok(2) in \<open>auto simp: dropped_from_def\<close>)
  next
    case 2
    define y where "y = x\<lparr>pd_will_send_reply := None, pd_added := (0, 0)\<rparr>"
    obtain r1 where r1: "expire_list_recheck_immediately (r\<lparr>rp_pending := (rp_pending r)(p \<mapsto> y)\<rparr>) = r1"
        "rp_pending r1 = (rp_pending r)(p \<mapsto> y)" "rp_items r1 = rp_items r" "orphaned p x r r1"
      by (simp add: orphaned_def expire_list_recheck_immediately_def y_def)
    note ok = orphaned_ok(1) [OF Cons.prems(1) p(1) x r1(4)]
    have w: "waiting_in (rp_pending r1) c = waiting_in (rp_pending r) c" "p \<notin> waiting_in (rp_pending r) c"
      using x 2 r1(2) by (auto simp: waiting_in_def y_def)
    have y: "pd_will_send_reply y \<noteq> Some c" by (simp add: y_def)
    have "set ps \<subseteq> set (rp_items r1)" "distinct ps" using Cons.prems(2,3) r1(3) by auto
    from Cons.IH [OF ok this] have "returns (drop_pending_loop c ps r1) (dropped_from L c (set (p # ps)) r)"
    proof (rule returns_mono)
      fix r'
      assume r': "dropped_from L c (set ps) r1 r'"
      have "rp_pending r' q = Some (if q \<in> set (p # ps) \<and> pd_will_send_reply z = Some c
          then z\<lparr>pd_will_send_reply := None, pd_added := (0, 0)\<rparr> else z)"
        if q: "q \<in> set (rp_items r')" "rp_pending r q = Some z" for q z
      proof (cases "q = p")
        case True
        then have "rp_pending r' p = Some y" using r' q(1) r1(2) p(2) by (simp add: dropped_from_def)
        then show ?thesis using True q(2) x 2 by (simp add: y_def)
      next
        case False
        then show ?thesis using r' q r1(2) by (simp add: dropped_from_def)
      qed
      then show "dropped_from L c (set (p # ps)) r r'"
        using r' w r1(3) by (auto simp: dropped_from_def)
    qed
    then show ?thesis using x 2 r1(1) by (simp add: y_def)
  next
    case 3
    then have "p \<notin> waiting_in (rp_pending r) c" using x by (simp add: waiting_in_def)
    then show ?thesis
      using x 3 Cons.prems by (simp, intro returns_mono [OF Cons.IH [OF Cons.prems(1)]])
        (auto simp: dropped_from_def)
  qed
qed

lemma drop_ok:
  assumes "settled L r"
  shows "returns (connection_drop_pending_replies c r) (\<lambda>r'. settled L r' \<and> expected r' = without_conn c (expected r))"
proof -
  have "returns (connection_drop_pending_replies c r) (dropped_from L c (set (rp_items r)) r)"
    unfolding connection_drop_pending_replies_def
    by (rule drop_pending_loop_ok) (use assms in \<open>auto simp: settled_iff\<close>)
  moreover have "expected r' = without_conn c (expected r)" if r': "dropped_from L c (set (rp_items r)) r r'" for r'
  proof -
    have "(g, s, n) \<in> expected r' \<longleftrightarrow> (g, s, n) \<in> expected r \<and> g \<noteq> c \<and> s \<noteq> c" for g s n
    proof -
      have "p \<in> set (rp_items r') \<and> (\<exists>x. rp_pending r' p = Some x \<and> reply_of x = Some (g, s, n)) \<longleftrightarrow>
          p \<in> set (rp_items r) \<and> (\<exists>x. rp_pending r p = Some x \<and> reply_of x = Some (g, s, n)) \<and> g \<noteq> c \<and> s \<noteq> c" for p
      proof (cases "p \<in> set (rp_items r)")
        case True
        then obtain x where x: "rp_pending r p = Some x" using settled_item [OF assms] by auto
        show ?thesis
        proof (cases "pd_will_get_reply x = c")
          case c: True
          then have "p \<notin> set (rp_items r')" using r' True x by (auto simp: dropped_from_def waiting_in_def)
          then show ?thesis using x c by (auto simp: reply_of_eq)
        next
          case c: False
          then have p: "p \<in> set (rp_items r')" using r' True x by (auto simp: dropped_from_def waiting_in_def)
          then have "rp_pending r' p = Some (if pd_will_send_reply x = Some c
              then x\<lparr>pd_will_send_reply := None, pd_added := (0, 0)\<rparr> else x)"
            using r' x True by (simp add: dropped_from_def)
          then show ?thesis using p True x c by (auto simp: reply_of_eq)
        qed
      qed (use r' in \<open>auto simp: dropped_from_def\<close>)
      then show ?thesis unfolding expected_def expected_in_def by blast
    qed
    then show ?thesis by (auto simp: without_conn_def)
  qed
  ultimately show ?thesis by (auto simp: dropped_from_def elim!: returns_mono)
qed

section \<open>Calls and replies over time\<close>

text \<open>Calls let through, and replies let through as expected.\<close>

datatype exchange_event =
    Called "connection \<times> connection \<times> 32 word"
  | Replied "connection \<times> connection \<times> 32 word"

text \<open>
  The pending replies with the log of what executed transactions let through, and of what the open
  one has; \<open>T\<close> are the replies that were expected when the open transaction began. Expiry and the loss
  of a connection come between two transactions; the allocator may fail at other times than before.
\<close>

inductive exchange ::
    "int \<Rightarrow> replies \<Rightarrow> (connection \<times> connection \<times> 32 word) set \<Rightarrow> exchange_event list \<Rightarrow> exchange_event list \<Rightarrow> bool"
  for L where
  start: "exchange L (replies_start m) {} [] []"
| memory: "exchange L r T log tx \<Longrightarrow> exchange L (r\<lparr>rp_mem := m\<rparr>) T log tx"
| call: "exchange L r T log tx \<Longrightarrow> connections_expect_reply L now g s m r = Some (e, r') \<Longrightarrow>
    exchange L r' T log (if e = None \<and> \<not> mg_no_reply m then tx @ [Called (g, s, mg_serial m)] else tx)"
| reply: "exchange L r T log tx \<Longrightarrow> connections_check_reply s g m r = Some (answer, r') \<Longrightarrow>
    exchange L r' T log (if answer = Inr True then tx @ [Replied (g, s, mg_reply_serial m)] else tx)"
| execute: "exchange L r T log tx \<Longrightarrow> reply_transaction_execute r = Some r' \<Longrightarrow>
    exchange L r' (expected r') (log @ tx) []"
| cancel: "exchange L r T log tx \<Longrightarrow> reply_transaction_cancel r = Some r' \<Longrightarrow> exchange L r' (expected r') log []"
| expire: "exchange L r T log [] \<Longrightarrow> rp_hooks r = [] \<Longrightarrow> expirelist_expire expire_after now r = Some r' \<Longrightarrow>
    exchange L r' (expected r') log []"
| lost: "exchange L r T log [] \<Longrightarrow> rp_hooks r = [] \<Longrightarrow> connection_drop_pending_replies c r = Some r' \<Longrightarrow>
    exchange L r' (expected r') log []"

text \<open>At every time, no more replies than calls between the same connections with the same serial.\<close>

definition answered :: "exchange_event list \<Rightarrow> bool" where
  "answered es \<longleftrightarrow> (\<forall>k t. count_list (take k es) (Replied t) \<le> count_list (take k es) (Called t))"

text \<open>What a log leaves open covers the replies expected.\<close>

definition leaves_open :: "exchange_event list \<Rightarrow> (connection \<times> connection \<times> 32 word) set \<Rightarrow> bool" where
  "leaves_open es T \<longleftrightarrow>
     (\<forall>t. count_list es (Replied t) + (if t \<in> T then 1 else 0) \<le> count_list es (Called t))"

lemma answered_Nil [simp]: "answered []"
  by (simp add: answered_def)

lemma answered_snoc:
  "answered (es @ [e]) \<longleftrightarrow> answered es \<and>
     (\<forall>t. count_list (es @ [e]) (Replied t) \<le> count_list (es @ [e]) (Called t))"
proof
  assume l: "answered (es @ [e])"
  have "take k es = take (min k (length es)) (es @ [e])" for k by (simp add: min_def)
  then show "answered es \<and> (\<forall>t. count_list (es @ [e]) (Replied t) \<le> count_list (es @ [e]) (Called t))"
    using l unfolding answered_def by (metis append_Nil2 length_append order_refl take_all)
next
  assume r: "answered es \<and> (\<forall>t. count_list (es @ [e]) (Replied t) \<le> count_list (es @ [e]) (Called t))"
  have "take k (es @ [e]) = take k es \<or> take k (es @ [e]) = es @ [e]" for k
    by (cases "k \<le> length es") auto
  then show "answered (es @ [e])" using r unfolding answered_def by metis
qed

lemma leaves_openD:
  assumes "leaves_open es T"
  shows "count_list es (Replied t) \<le> count_list es (Called t)"
    and "t \<in> T \<Longrightarrow> count_list es (Replied t) < count_list es (Called t)"
  using assms [unfolded leaves_open_def, rule_format, of t] by (auto split: if_splits)

lemma leaves_openI:
  assumes "\<And>t. count_list es (Replied t) \<le> count_list es (Called t)"
    and "\<And>t. t \<in> T \<Longrightarrow> count_list es (Replied t) < count_list es (Called t)"
  shows "leaves_open es T"
  unfolding leaves_open_def using assms by (simp add: Suc_leI)

lemma leaves_open_subset: "leaves_open es T \<Longrightarrow> T' \<subseteq> T \<Longrightarrow> leaves_open es T'"
  by (rule leaves_openI) (auto dest: leaves_openD)

lemma leaves_open_called:
  assumes "leaves_open es T"
  shows "leaves_open (es @ [Called t]) (insert t T)"
proof (rule leaves_openI)
  fix u
  show "count_list (es @ [Called t]) (Replied u) \<le> count_list (es @ [Called t]) (Called u)"
    using leaves_openD(1) [OF assms, of u] by (auto simp: count_list_append)
next
  fix u
  assume "u \<in> insert t T"
  then show "count_list (es @ [Called t]) (Replied u) < count_list (es @ [Called t]) (Called u)"
    using leaves_openD [OF assms, of u] by (cases "u = t") (auto simp: count_list_append)
qed

lemma leaves_open_replied:
  assumes "leaves_open es T" "t \<in> T"
  shows "leaves_open (es @ [Replied t]) (T - {t})"
proof (rule leaves_openI)
  fix u
  show "count_list (es @ [Replied t]) (Replied u) \<le> count_list (es @ [Replied t]) (Called u)"
    using leaves_openD [OF assms(1), of u] assms(2) by (cases "u = t") (auto simp: count_list_append)
next
  fix u
  assume "u \<in> T - {t}"
  then show "count_list (es @ [Replied t]) (Replied u) < count_list (es @ [Replied t]) (Called u)"
    using leaves_openD(2) [OF assms(1), of u] by (auto simp: count_list_append)
qed

lemma leaves_open_answered: "answered es \<Longrightarrow> leaves_open (es @ [e]) T \<Longrightarrow> answered (es @ [e])"
  by (auto simp only: answered_snoc intro: leaves_openD(1))

lemma leaves_open_Nil: "leaves_open [] {}"
  by (simp add: leaves_open_def)

lemma replies_start_ok: "replies_ok L (replies_start m)"
  by (simp add: replies_ok_def replies_start_def before_def calls_ok_def different_calls_def)

lemma replies_ok_mem [simp]:
  "replies_ok L (r\<lparr>rp_mem := m\<rparr>) = replies_ok L r" "expected (r\<lparr>rp_mem := m\<rparr>) = expected r"
  "expected_before (r\<lparr>rp_mem := m\<rparr>) = expected_before r"
  by (simp_all add: replies_ok_def before_def expected_def expected_before_def)

text \<open>The state and its history fit together, with the open transaction and without.\<close>

definition exchange_ok :: "int \<Rightarrow> replies \<Rightarrow> exchange_event list \<Rightarrow> exchange_event list \<Rightarrow> bool" where
  "exchange_ok L r log tx \<longleftrightarrow> replies_ok L r \<and> answered (log @ tx) \<and> answered log \<and>
     leaves_open (log @ tx) (expected r) \<and> leaves_open log (expected_before r)"

lemma exchange_ok_settled:
  "settled L r \<Longrightarrow> answered log \<Longrightarrow> leaves_open log (expected r) \<Longrightarrow> exchange_ok L r log []"
  using settled_before [of L r] by (simp add: exchange_ok_def settled_def)

lemma exchange_ok_call:
  assumes "exchange_ok L r log tx" and step: "connections_expect_reply L now g s m r = Some (e, r')"
  shows "exchange_ok L r' log (if e = None \<and> \<not> mg_no_reply m then tx @ [Called (g, s, mg_serial m)] else tx)"
proof -
  let ?t = "(g, s, mg_serial m)"
  have ok: "replies_ok L r" "answered (log @ tx)" "answered log" "leaves_open (log @ tx) (expected r)"
    "leaves_open log (expected_before r)" using assms(1) by (simp_all add: exchange_ok_def)
  have r': "replies_ok L r'" "expected_before r' = expected_before r"
    "if e \<noteq> None \<or> mg_no_reply m then expected r' = expected r else expected r' = insert ?t (expected r)"
    using expect_reply_ok [OF ok(1), of now g s m] step by (auto split: if_splits)
  note called = leaves_open_called [OF ok(4), of ?t]
  show ?thesis
    using ok r' called leaves_open_answered [OF ok(2) called] by (simp add: exchange_ok_def)
qed

lemma exchange_ok_reply:
  assumes "exchange_ok L r log tx" and step: "connections_check_reply s g m r = Some (answer, r')"
  shows "exchange_ok L r' log (if answer = Inr True then tx @ [Replied (g, s, mg_reply_serial m)] else tx)"
proof -
  let ?t = "(g, s, mg_reply_serial m)"
  have ok: "replies_ok L r" "answered (log @ tx)" "answered log" "leaves_open (log @ tx) (expected r)"
    "leaves_open log (expected_before r)" using assms(1) by (simp_all add: exchange_ok_def)
  have r': "replies_ok L r'" "expected_before r' = expected_before r"
    "if answer = Inr True then ?t \<in> expected r \<and> expected r' = expected r - {?t} else expected r' = expected r"
    using check_reply_ok [OF ok(1), of s g m] step by (auto simp: Let_def split: if_splits)
  show ?thesis
  proof (cases "answer = Inr True")
    case True
    then have replied: "leaves_open ((log @ tx) @ [Replied ?t]) (expected r')"
      using leaves_open_replied [OF ok(4), of ?t] r'(3) by simp
    show ?thesis
      using True ok r' replied leaves_open_answered [OF ok(2) replied] by (simp add: exchange_ok_def)
  qed (use ok r' in \<open>simp add: exchange_ok_def\<close>)
qed

lemma exchange_ok_start: "exchange_ok L (replies_start m) [] []"
proof -
  have "settled L (replies_start m)" by (simp add: settled_def replies_start_ok) (simp add: replies_start_def)
  moreover have "expected (replies_start m) = {}" by (simp add: expected_def expected_in_def replies_start_def)
  ultimately show ?thesis by (simp add: exchange_ok_settled leaves_open_Nil)
qed

lemma exchange_ok_execute:
  "exchange_ok L r log tx \<Longrightarrow> reply_transaction_execute r = Some r' \<Longrightarrow> exchange_ok L r' (log @ tx) []"
  using reply_execute_ok [of L r] by (intro exchange_ok_settled) (auto simp: exchange_ok_def)

lemma exchange_ok_cancel:
  "exchange_ok L r log tx \<Longrightarrow> reply_transaction_cancel r = Some r' \<Longrightarrow> exchange_ok L r' log []"
  using reply_cancel_ok [of L r] by (intro exchange_ok_settled) (auto simp: exchange_ok_def)

lemma exchange_ok_fewer:
  "exchange_ok L r log [] \<Longrightarrow> settled L r' \<Longrightarrow> expected r' \<subseteq> expected r \<Longrightarrow> exchange_ok L r' log []"
  by (intro exchange_ok_settled) (auto simp: exchange_ok_def intro: leaves_open_subset)

lemma exchange_ok_expire:
  assumes "exchange_ok L r log []" "rp_hooks r = []" "expirelist_expire expire_after now r = Some r'"
  shows "exchange_ok L r' log []"
proof -
  have s: "settled L r" using assms by (simp add: exchange_ok_def settled_def)
  obtain whole where e: "expired_some L expire_after now (set (rp_items r)) r whole r'"
    using expire_ok [OF s, of expire_after now] assms by auto
  have "settled L r'" using e by (simp add: expired_some_def)
  then show ?thesis by (rule exchange_ok_fewer [OF assms(1) _ expired_some_expected [OF e]])
qed

lemma exchange_ok_lost:
  assumes "exchange_ok L r log []" "rp_hooks r = []" "connection_drop_pending_replies c r = Some r'"
  shows "exchange_ok L r' log []"
proof -
  have s: "settled L r" using assms by (simp add: exchange_ok_def settled_def)
  have "settled L r'" "expected r' \<subseteq> expected r" using drop_ok [OF s, of c] assms by (auto simp: without_conn_def)
  then show ?thesis by (rule exchange_ok_fewer [OF assms(1)])
qed

lemma exchange_ok_memory: "exchange_ok L r log tx \<Longrightarrow> exchange_ok L (r\<lparr>rp_mem := m\<rparr>) log tx"
  by (simp add: exchange_ok_def)

lemma exchange_invariant: "exchange L r T log tx \<Longrightarrow> exchange_ok L r log tx"
  by (induction rule: exchange.induct)
    (rule exchange_ok_start exchange_ok_memory exchange_ok_call exchange_ok_reply exchange_ok_execute
      exchange_ok_cancel exchange_ok_expire exchange_ok_lost; assumption)+

lemma exchange_began: "exchange L r T log tx \<Longrightarrow> expected_before r = T"
proof (induction rule: exchange.induct)
  case (start m)
  then show ?case
    by (simp add: expected_before_def expected_in_def replies_start_def before_def)
next
  case (call r T log tx now g s m e r')
  then have "replies_ok L r" using exchange_invariant by (fastforce simp: exchange_ok_def)
  from expect_reply_ok [OF this, of now g s m] call show ?case by simp
next
  case (reply r T log tx s g m answer r')
  then have "replies_ok L r" using exchange_invariant by (fastforce simp: exchange_ok_def)
  from check_reply_ok [OF this, of s g m] reply show ?case by simp
next
  case (execute r T log tx r')
  then have "replies_ok L r" using exchange_invariant by (fastforce simp: exchange_ok_def)
  from reply_execute_ok [OF this] execute show ?case using settled_before by auto
next
  case (cancel r T log tx r')
  then have "replies_ok L r" using exchange_invariant by (fastforce simp: exchange_ok_def)
  from reply_cancel_ok [OF this] cancel show ?case using settled_before by auto
next
  case (expire r T log expire_after now r')
  have s: "settled L r" using exchange_invariant [OF expire(1)] expire(2) by (simp add: exchange_ok_def settled_def)
  from expire_ok [OF s, of expire_after now] expire(3) have "settled L r'" by (auto simp: expired_some_def)
  then show ?case using settled_before by blast
next
  case (lost r T log c r')
  have s: "settled L r" using exchange_invariant [OF lost(1)] lost(2) by (simp add: exchange_ok_def settled_def)
  from drop_ok [OF s, of c] lost(3) have "settled L r'" by simp
  then show ?case using settled_before by blast
qed simp

lemma returns_not_None: "returns m P \<Longrightarrow> m \<noteq> None"
  by (auto simp: returns_def)

text \<open>What may be gone after a round of expiry: nothing that is not due.\<close>

lemma expired_some_not_due:
  assumes "expired_some L expire_after now ps r whole r'" "p \<in> set (rp_items r)" "rp_pending r p = Some x"
    and "\<not> due expire_after now x" "reply_of x = Some t"
  shows "t \<in> expected r'"
proof -
  have "p \<in> set (rp_items r')" using assms(1-4) by (force simp: expired_some_def)
  then show ?thesis using assms(1,3,5) by (auto simp: expired_some_def expected_def expected_in_def)
qed

text \<open>
  C8. Over any run of calls, replies, executed and cancelled transactions, expiry, lost
  connections and failed allocations, every reply taken for an expected one has a call of its
  own before it, and no client has more pending replies than the limit. Expecting and checking a
  reply never touch freed memory or fail an assertion. Neither do executing the open
  transaction, which keeps what is expected, and cancelling it, which brings back exactly the
  replies expected when it began; nor, between transactions, the loss of a connection, which
  drops exactly its replies, and expiry, which keeps every reply that is not due.
\<close>

theorem replies_answer_calls:
  assumes "exchange L r T log tx"
  shows "(\<forall>k t. count_list (take k log) (Replied t) \<le> count_list (take k log) (Called t)) \<and>
    (\<forall>c. card {p \<in> set (rp_items r). \<exists>x. rp_pending r p = Some x \<and> pd_will_get_reply x = c} \<le> nat L) \<and>
    (\<forall>now g s m. connections_expect_reply L now g s m r \<noteq> None \<and> connections_check_reply s g m r \<noteq> None) \<and>
    (\<exists>r'. reply_transaction_execute r = Some r' \<and> expected r' = expected r) \<and>
    (\<exists>r'. reply_transaction_cancel r = Some r' \<and> expected r' = T) \<and>
    (rp_hooks r = [] \<longrightarrow> expected r = T \<and>
      (\<forall>c. \<exists>r'. connection_drop_pending_replies c r = Some r' \<and>
        expected r' = {(g, s, n) \<in> expected r. g \<noteq> c \<and> s \<noteq> c}) \<and>
      (\<forall>expire_after now. \<exists>r'. expirelist_expire expire_after now r = Some r' \<and> expected r' \<subseteq> expected r \<and>
        (\<forall>p\<in>set (rp_items r). \<forall>x t. rp_pending r p = Some x \<longrightarrow> \<not> due expire_after now x \<longrightarrow>
          reply_of x = Some t \<longrightarrow> t \<in> expected r')))"
proof -
  have inv: "exchange_ok L r log tx" using assms by (rule exchange_invariant)
  then have ok: "replies_ok L r" "answered log" by (simp_all add: exchange_ok_def)
  have limit: "card {p \<in> set (rp_items r). \<exists>x. rp_pending r p = Some x \<and> pd_will_get_reply x = c} \<le> nat L" for c
    using replies_okD(5) [OF ok(1)] by (simp add: calls_ok_def waiting_in_def Int_def)
  have steps: "connections_expect_reply L now g s m r \<noteq> None \<and> connections_check_reply s g m r \<noteq> None" for now g s m
    using returns_not_None [OF expect_reply_ok [OF ok(1)]] returns_not_None [OF check_reply_ok [OF ok(1)]] by auto
  have executed: "\<exists>r'. reply_transaction_execute r = Some r' \<and> expected r' = expected r"
    using reply_execute_ok [OF ok(1)] by (auto simp: returns_def)
  have cancelled: "\<exists>r'. reply_transaction_cancel r = Some r' \<and> expected r' = T"
    using reply_cancel_ok [OF ok(1)] exchange_began [OF assms] by (auto simp: returns_def)
  have between: "expected r = T \<and>
      (\<forall>c. \<exists>r'. connection_drop_pending_replies c r = Some r' \<and>
        expected r' = {(g, s, n) \<in> expected r. g \<noteq> c \<and> s \<noteq> c}) \<and>
      (\<forall>expire_after now. \<exists>r'. expirelist_expire expire_after now r = Some r' \<and> expected r' \<subseteq> expected r \<and>
        (\<forall>p\<in>set (rp_items r). \<forall>x t. rp_pending r p = Some x \<longrightarrow> \<not> due expire_after now x \<longrightarrow>
          reply_of x = Some t \<longrightarrow> t \<in> expected r'))" if "rp_hooks r = []"
  proof (intro conjI allI)
    have s: "settled L r" using ok(1) that by (simp add: settled_def)
    show "expected r = T" using settled_before [OF s] exchange_began [OF assms] by simp
    show "\<exists>r'. connection_drop_pending_replies c r = Some r' \<and>
        expected r' = {(g, s, n) \<in> expected r. g \<noteq> c \<and> s \<noteq> c}" for c
      using drop_ok [OF s, of c] by (auto simp: returns_def without_conn_def)
    fix expire_after now
    obtain r' whole where r': "expirelist_expire expire_after now r = Some r'"
        "expired_some L expire_after now (set (rp_items r)) r whole r'"
      using expire_ok [OF s, of expire_after now] by (auto simp: returns_def)
    then show "\<exists>r'. expirelist_expire expire_after now r = Some r' \<and> expected r' \<subseteq> expected r \<and>
        (\<forall>p\<in>set (rp_items r). \<forall>x t. rp_pending r p = Some x \<longrightarrow> \<not> due expire_after now x \<longrightarrow>
          reply_of x = Some t \<longrightarrow> t \<in> expected r')"
      using expired_some_expected [OF r'(2)] expired_some_not_due [OF r'(2)] by blast
  qed
  show ?thesis
    using ok(2) limit steps executed cancelled by (intro conjI impI between) (simp_all only: answered_def simp_thms)
qed

definition a_call :: message where
  "a_call = \<lparr>mg_type = MESSAGE_TYPE_METHOD_CALL, mg_serial = 7, mg_reply_serial = 0, mg_no_reply = False,
     mg_path = Some (bytes ''/''), mg_interface = None, mg_member = Some (bytes ''c''),
     mg_error_name = None, mg_destination = Some (bytes '':1.2''), mg_sender = Some (bytes '':1.1'')\<rparr>"

definition its_reply :: message where
  "its_reply = \<lparr>mg_type = MESSAGE_TYPE_METHOD_RETURN, mg_serial = 9, mg_reply_serial = 7, mg_no_reply = True,
     mg_path = None, mg_interface = None, mg_member = None,
     mg_error_name = None, mg_destination = Some (bytes '':1.1''), mg_sender = Some (bytes '':1.2'')\<rparr>"

lemmas run_defs = connections_expect_reply_def connections_check_reply_def reply_alloc_def expire_list_add_def
  enable_timeout_def expire_timeout_set_interval_def add_reply_hook_def expire_list_unlink_def
  expire_list_contains_item_def reply_transaction_execute_def pending_reply_free_def replies_start_def

definition called_state :: "reply_hook list \<Rightarrow> replies" where
  "called_state hs = \<lparr>rp_pending = [0 \<mapsto> \<lparr>pd_added = (3, 4), pd_will_get_reply = 1, pd_will_send_reply = Some 2,
     pd_reply_serial = 7\<rparr>], rp_items = [0], rp_timeout = Some 0, rp_fresh = 1, rp_mem = [], rp_hooks = hs,
     rp_no_reply_sent = []\<rparr>"

definition replied_state :: replies where
  "replied_state = (called_state [])\<lparr>rp_items := [], rp_hooks := [CheckPendingReply (Some 0)]\<rparr>"

lemma run_call:
  "connections_expect_reply 5 (3, 4) 1 2 a_call (replies_start []) = Some (None, called_state [CancelPendingReply 0])"
  "reply_transaction_execute (called_state [CancelPendingReply 0]) = Some (called_state [])"
  by (simp_all add: run_defs a_call_def called_state_def)

lemma run_reply:
  "connections_check_reply 2 1 its_reply (called_state []) = Some (Inr True, replied_state)"
  "reply_transaction_execute replied_state = Some (replied_state\<lparr>rp_hooks := [], rp_pending := Map.empty\<rparr>)"
  by (simp_all add: run_defs its_reply_def called_state_def replied_state_def)

lemma call_and_reply:
  "exchange 5 replied_state {(1, 2, 7)} [Called (1, 2, 7)] [Replied (1, 2, 7)]"
proof -
  have "exchange 5 (called_state [CancelPendingReply 0]) {} [] [Called (1, 2, 7)]"
    using exchange.call [OF exchange.start run_call(1)] by (simp add: a_call_def)
  then have "exchange 5 (called_state []) (expected (called_state [])) [Called (1, 2, 7)] []"
    using exchange.execute [OF _ run_call(2)] by fastforce
  moreover have "expected (called_state []) = {(1, 2, 7)}"
    by (auto simp: expected_def expected_in_def called_state_def reply_of_eq)
  ultimately show ?thesis
    using exchange.reply [OF _ run_reply(1), of 5 "{(1, 2, 7)}" "[Called (1, 2, 7)]" "[]"] by (simp add: its_reply_def)
qed

text \<open>Cancelling the transaction of the reply brings back that it is expected.\<close>

theorem replies_answer_calls_witness:
  "expected replied_state = {} \<and> (\<exists>r'. reply_transaction_cancel replied_state = Some r' \<and> expected r' = {(1, 2, 7)})"
  using replies_answer_calls [OF call_and_reply]
  by (auto simp: replied_state_def expected_def expected_in_def)

end
