(* ===== verification/Security.thy ===== *)
theory Security
  imports PolicyConfig ReplyWindow
begin

text \<open>
  The decision on every message the bus is about to pass on: \<^verbatim>\<open>bus_context_check_security_policy\<close> of
  \<^verbatim>\<open>bus/bus.c\<close>. It puts together the policies of sender and recipient, the pending replies and the
  names in the registry; the security modules and the sizes of queues are arguments. What is logged
  is left out. \<open>None\<close> is a failed assertion or a null pointer followed, and the missing connection
  is the bus itself.
\<close>

section \<open>The check\<close>

text \<open>
  What is known of connections, and what the security modules and the configuration say. A module
  that denies without setting an error is given the one the source then sets.
\<close>

record bus_context =
  cx_active :: "connection \<Rightarrow> bool"
  cx_policy :: "connection \<Rightarrow> client_policy option"
  cx_selinux_send :: "connection \<Rightarrow> connection option \<Rightarrow> message \<Rightarrow> reply_error option"
  cx_apparmor_send :: "connection \<Rightarrow> connection option \<Rightarrow> bool \<Rightarrow> message \<Rightarrow> reply_error option"
  cx_outgoing_size :: "connection \<Rightarrow> int"
  cx_outgoing_unix_fds :: "connection \<Rightarrow> int"
  cx_max_outgoing_bytes :: int
  cx_max_outgoing_unix_fds :: int
  cx_max_replies :: int
  cx_now :: timeval

definition DBUS_SERVICE_DBUS :: bytes where
  "DBUS_SERVICE_DBUS = bytes ''org.freedesktop.DBus''"

definition DBUS_INTERFACE_DBUS :: bytes where
  "DBUS_INTERFACE_DBUS = bytes ''org.freedesktop.DBus''"

text \<open>The assertions on what \<^verbatim>\<open>dispatch.c\<close> hands over.\<close>

definition dispatch_ensured ::
    "bus_context \<Rightarrow> connection option \<Rightarrow> connection option \<Rightarrow> connection option \<Rightarrow> message \<Rightarrow> unit option" where
  "dispatch_ensured cx sender addressed_recipient proposed_recipient m =
     do { _ \<leftarrow> (if mg_destination m \<noteq> None \<or> mg_type m = MESSAGE_TYPE_SIGNAL then Some ()
            else if sender = None
            then do { p \<leftarrow> proposed_recipient; check (\<not> cx_active cx p) }
            else None);
          if mg_type m = MESSAGE_TYPE_SIGNAL \<or> addressed_recipient \<noteq> None then Some ()
          else do { dest \<leftarrow> mg_destination m; check (dest = DBUS_SERVICE_DBUS) } }"

definition known_type :: "int \<Rightarrow> bool" where
  "known_type type \<longleftrightarrow> type = MESSAGE_TYPE_METHOD_CALL \<or> type = MESSAGE_TYPE_SIGNAL \<or>
     type = MESSAGE_TYPE_METHOD_RETURN \<or> type = MESSAGE_TYPE_ERROR"

text \<open>
  Whether the message is a reply that was asked for; the pending reply goes. An error ends the check.
\<close>

definition fill_requested_reply ::
    "bus_context \<Rightarrow> connection \<Rightarrow> connection option \<Rightarrow> connection option \<Rightarrow> message \<Rightarrow> replies \<Rightarrow>
     ((reply_error + bool) \<times> replies) option" where
  "fill_requested_reply cx sender addressed_recipient proposed_recipient m r =
     (if \<not> cx_active cx sender then Some (Inr False, r)
      else
        do { _ \<leftarrow> cx_policy cx sender;
             if mg_reply_serial m \<noteq> 0 then
               (case proposed_recipient of
                  None \<Rightarrow> Some (Inr False, r)
                | Some c \<Rightarrow>
                    if addressed_recipient = proposed_recipient then connections_check_reply sender c m r
                    else Some (Inr False, r))
             else Some (Inr False, r) })"

text \<open>How the part of the check that concerns the sender ends: with an answer, or with its policy.\<close>

datatype sender_verdict =
    Answer "reply_error option"
  | GoOn bool "client_policy option"

definition sender_part ::
    "bus_context \<Rightarrow> connection option \<Rightarrow> connection option \<Rightarrow> connection option \<Rightarrow> message \<Rightarrow> replies \<Rightarrow>
     (sender_verdict \<times> replies) option" where
  "sender_part cx sender addressed_recipient proposed_recipient m r =
     (case sender of
        None \<Rightarrow> Some (GoOn (addressed_recipient = proposed_recipient \<and> mg_reply_serial m \<noteq> 0) None, r)
      | Some c \<Rightarrow>
          do { (answer, r) \<leftarrow> fill_requested_reply cx c addressed_recipient proposed_recipient m r;
               case answer of
                 Inl e \<Rightarrow> Some (Answer (Some e), r)
               | Inr requested_reply \<Rightarrow>
                   (case cx_selinux_send cx c proposed_recipient m of
                      Some e \<Rightarrow> Some (Answer (Some e), r)
                    | None \<Rightarrow>
                        (case cx_apparmor_send cx c proposed_recipient requested_reply m of
                           Some e \<Rightarrow> Some (Answer (Some e), r)
                         | None \<Rightarrow>
                             if \<not> cx_active cx c then
                               if proposed_recipient = None \<and>
                                  message_is_method_call m DBUS_INTERFACE_DBUS (bytes ''Hello'')
                               then Some (Answer None, r)
                               else Some (Answer (Some REPLY_ACCESS_DENIED), r)
                             else Some (GoOn requested_reply (cx_policy cx c), r))) })"

definition find_recipient_policy ::
    "bus_context \<Rightarrow> connection option \<Rightarrow> connection option \<Rightarrow> client_policy option option" where
  "find_recipient_policy cx sender proposed_recipient =
     (case proposed_recipient of
        None \<Rightarrow> Some None
      | Some c \<Rightarrow>
          if cx_active cx c then do { policy \<leftarrow> cx_policy cx c; Some (Some policy) }
          else if sender = None then Some None
          else None)"

definition queue_full :: "bus_context \<Rightarrow> connection option \<Rightarrow> bool" where
  "queue_full cx proposed_recipient =
     (case proposed_recipient of
        None \<Rightarrow> False
      | Some c \<Rightarrow> cx_outgoing_size cx c > cx_max_outgoing_bytes cx \<or>
          cx_outgoing_unix_fds cx c > cx_max_outgoing_unix_fds cx)"

text \<open>A call to the addressed recipient may be replied to.\<close>

definition record_reply ::
    "bus_context \<Rightarrow> connection option \<Rightarrow> connection option \<Rightarrow> connection option \<Rightarrow> message \<Rightarrow> replies \<Rightarrow>
     (reply_error option \<times> replies) option" where
  "record_reply cx sender addressed_recipient proposed_recipient m r =
     (if mg_type m = MESSAGE_TYPE_METHOD_CALL \<and> sender \<noteq> None \<and> addressed_recipient \<noteq> None \<and>
         addressed_recipient = proposed_recipient
      then connections_expect_reply (cx_max_replies cx) (cx_now cx) (the sender) (the addressed_recipient) m r
      else Some (None, r))"

definition policy_part ::
    "bus_context \<Rightarrow> bus \<Rightarrow> bool \<Rightarrow> client_policy option \<Rightarrow> client_policy option \<Rightarrow>
     connection option \<Rightarrow> connection option \<Rightarrow> connection option \<Rightarrow> message \<Rightarrow> reply_error option option" where
  "policy_part cx s requested_reply sender_policy recipient_policy sender addressed_recipient proposed_recipient m =
     do { may_send \<leftarrow>
            (case sender_policy of
               None \<Rightarrow> Some True
             | Some policy \<Rightarrow>
                 do { (allowed, toggles, log) \<leftarrow>
                        client_policy_check_can_send policy s requested_reply proposed_recipient m False;
                      Some allowed });
          if \<not> may_send then Some (Some REPLY_ACCESS_DENIED)
          else
            do { may_receive \<leftarrow>
                   (case recipient_policy of
                      None \<Rightarrow> Some True
                    | Some policy \<Rightarrow>
                        do { (allowed, toggles) \<leftarrow> client_policy_check_can_receive policy s requested_reply
                               sender addressed_recipient proposed_recipient m;
                             Some allowed });
                 if \<not> may_receive then Some (Some REPLY_ACCESS_DENIED)
                 else if queue_full cx proposed_recipient then Some (Some REPLY_LIMITS_EXCEEDED)
                 else Some None } }"

text \<open>The answer: no error, and the message may pass, or an error.\<close>

definition context_check_security_policy ::
    "bus_context \<Rightarrow> bus \<Rightarrow> connection option \<Rightarrow> connection option \<Rightarrow> connection option \<Rightarrow> message \<Rightarrow> replies \<Rightarrow>
     (reply_error option \<times> replies) option" where
  "context_check_security_policy cx s sender addressed_recipient proposed_recipient m r =
     do { _ \<leftarrow> dispatch_ensured cx sender addressed_recipient proposed_recipient m;
          if \<not> known_type (mg_type m) then Some (Some REPLY_ACCESS_DENIED, r)
          else
            do { (verdict, r) \<leftarrow> sender_part cx sender addressed_recipient proposed_recipient m r;
                 case verdict of
                   Answer answer \<Rightarrow> Some (answer, r)
                 | GoOn requested_reply sender_policy \<Rightarrow>
                     do { recipient_policy \<leftarrow> find_recipient_policy cx sender proposed_recipient;
                          refused \<leftarrow> policy_part cx s requested_reply sender_policy recipient_policy
                            sender addressed_recipient proposed_recipient m;
                          if refused \<noteq> None then Some (refused, r)
                          else record_reply cx sender addressed_recipient proposed_recipient m r } } }"

section \<open>What passes\<close>

text \<open>The dispatcher keeps its part: what the assertions ask, and policies for active connections.\<close>

definition dispatched ::
    "bus_context \<Rightarrow> connection option \<Rightarrow> connection option \<Rightarrow> connection option \<Rightarrow> message \<Rightarrow> bool" where
  "dispatched cx sender addressed proposed m \<longleftrightarrow>
     (mg_destination m \<noteq> None \<or> mg_type m = MESSAGE_TYPE_SIGNAL \<or>
        sender = None \<and> (\<exists>c. proposed = Some c \<and> \<not> cx_active cx c)) \<and>
     (mg_type m = MESSAGE_TYPE_SIGNAL \<or> addressed \<noteq> None \<or> mg_destination m = Some DBUS_SERVICE_DBUS) \<and>
     (\<forall>c. cx_active cx c \<longrightarrow> cx_policy cx c \<noteq> None) \<and>
     (\<forall>c. sender \<noteq> None \<and> proposed = Some c \<longrightarrow> cx_active cx c)"

lemma policy_part_eq:
  assumes "registry_ok s"
  shows "policy_part cx s rr sp rp sender addressed proposed m =
    Some (if (\<forall>p. sp = Some p \<longrightarrow> decides (send_used s rr proposed m) p) \<and>
        (\<forall>p. rp = Some p \<longrightarrow>
          decides (receive_used s rr (is_eavesdropping addressed proposed m) sender m) p)
      then if queue_full cx proposed then Some REPLY_LIMITS_EXCEEDED else None
      else Some REPLY_ACCESS_DENIED)"
proof -
  have send: "\<exists>t l. client_policy_check_can_send p s rr proposed m False =
      Some (decides (send_used s rr proposed m) p, t, l)" for p
    by (rule checks_eq(1) [OF assms])
  have receive: "\<exists>t. client_policy_check_can_receive p s rr sender addressed proposed m =
      Some (decides (receive_used s rr (is_eavesdropping addressed proposed m) sender m) p, t)" for p
    by (rule checks_eq(2) [OF assms])
  show ?thesis
  proof (cases sp; cases rp)
    fix p q
    assume "sp = Some p" "rp = Some q"
    then show ?thesis using send [of p] receive [of q] by (auto simp: policy_part_def)
  next
    fix p
    assume "sp = Some p" "rp = None"
    then show ?thesis using send [of p] by (auto simp: policy_part_def)
  next
    fix q
    assume "sp = None" "rp = Some q"
    then show ?thesis using receive [of q] by (auto simp: policy_part_def)
  qed (simp add: policy_part_def)
qed

lemma dispatched_ensured:
  "dispatched cx sender addressed proposed m \<Longrightarrow> dispatch_ensured cx sender addressed proposed m = Some ()"
  by (auto simp: dispatched_def dispatch_ensured_def check_def)

text \<open>The pending reply that a message would be.\<close>

definition asked_for :: "replies \<Rightarrow> connection \<Rightarrow> connection option \<Rightarrow> connection option \<Rightarrow> message \<Rightarrow> bool" where
  "asked_for r c addressed proposed m \<longleftrightarrow> mg_reply_serial m \<noteq> 0 \<and>
     (\<exists>p. proposed = Some p \<and> addressed = Some p \<and> (p, c, mg_reply_serial m) \<in> expected r)"

definition used_up :: "bool \<Rightarrow> connection \<Rightarrow> connection option \<Rightarrow> message \<Rightarrow> (connection \<times> connection \<times> 32 word) set" where
  "used_up b c proposed m = (if b then {(the proposed, c, mg_reply_serial m)} else {})"

definition opened ::
    "connection \<Rightarrow> connection option \<Rightarrow> connection option \<Rightarrow> message \<Rightarrow> (connection \<times> connection \<times> 32 word) set" where
  "opened c addressed proposed m =
     (if mg_type m = MESSAGE_TYPE_METHOD_CALL \<and> \<not> mg_no_reply m \<and> addressed = proposed
      then {(c, p, mg_serial m) | p. proposed = Some p} else {})"

definition kept_apart :: "int \<Rightarrow> replies \<Rightarrow> replies \<Rightarrow> bool" where
  "kept_apart L r r' \<longleftrightarrow> replies_ok L r' \<and> expected_before r' = expected_before r"

lemma fill_requested_reply_ok:
  assumes "replies_ok L r" "\<forall>c. cx_active cx c \<longrightarrow> cx_policy cx c \<noteq> None"
  shows "returns (fill_requested_reply cx c addressed proposed m r) (\<lambda>(answer, r').
    kept_apart L r r' \<and>
    (case answer of Inl e \<Rightarrow> expected r' = expected r
     | Inr b \<Rightarrow> b = (cx_active cx c \<and> asked_for r c addressed proposed m) \<and> expected r' = expected r - used_up b c proposed m))"
proof -
  have plain: "kept_apart L r r" using assms(1) by (simp add: kept_apart_def)
  show ?thesis
  proof (cases "cx_active cx c \<and> mg_reply_serial m \<noteq> 0 \<and> proposed \<noteq> None \<and> addressed = proposed")
    case True
    then obtain p where p: "proposed = Some p" "addressed = Some p" by auto
    have "fill_requested_reply cx c addressed proposed m r = connections_check_reply c p m r"
      using True p assms(2) by (auto simp: fill_requested_reply_def)
    moreover have "returns (connections_check_reply c p m r) (\<lambda>(answer, r').
        kept_apart L r r' \<and>
        (case answer of Inl e \<Rightarrow> expected r' = expected r
         | Inr b \<Rightarrow> b = ((p, c, mg_reply_serial m) \<in> expected r) \<and> expected r' = expected r - used_up b c proposed m))"
      by (rule returns_mono [OF check_reply_ok [OF assms(1)]])
        (auto simp: kept_apart_def used_up_def p Let_def split: sum.split if_splits)
    moreover have "asked_for r c addressed proposed m = ((p, c, mg_reply_serial m) \<in> expected r)" "cx_active cx c"
      using True p by (simp_all add: asked_for_def)
    ultimately show ?thesis by (simp only: conj_absorb simp_thms)
  next
    case False
    then show ?thesis
      using assms(2) plain by (auto simp: fill_requested_reply_def asked_for_def used_up_def split: option.split)
  qed
qed

lemma sender_part_ok:
  assumes "replies_ok L r" "\<forall>c. cx_active cx c \<longrightarrow> cx_policy cx c \<noteq> None"
  shows "returns (sender_part cx (Some c) addressed proposed m r) (\<lambda>(verdict, r').
    kept_apart L r r' \<and> expected r' \<subseteq> expected r \<and>
    (\<not> asked_for r c addressed proposed m \<longrightarrow> expected r' = expected r) \<and>
    (case verdict of
       Answer answer \<Rightarrow> answer = None \<longrightarrow> \<not> cx_active cx c \<and> proposed = None \<and>
         message_is_method_call m DBUS_INTERFACE_DBUS (bytes ''Hello'') \<and> expected r' = expected r
     | GoOn b sp \<Rightarrow> cx_active cx c \<and> sp = cx_policy cx c \<and> b = asked_for r c addressed proposed m \<and>
         cx_selinux_send cx c proposed m = None \<and> cx_apparmor_send cx c proposed b m = None \<and>
         expected r' = expected r - used_up b c proposed m))"
  unfolding sender_part_def option.case
proof (rule returns_bindI [OF fill_requested_reply_ok [OF assms]])
  fix z :: "(reply_error + bool) \<times> replies"
  assume z: "case z of (answer, r') \<Rightarrow> kept_apart L r r' \<and>
    (case answer of Inl e \<Rightarrow> expected r' = expected r
     | Inr b \<Rightarrow> b = (cx_active cx c \<and> asked_for r c addressed proposed m) \<and> expected r' = expected r - used_up b c proposed m)"
  obtain answer r' where "z = (answer, r')" by fastforce
  then show "returns (case z of (answer, r) \<Rightarrow>
      (case answer of
        Inl e \<Rightarrow> Some (Answer (Some e), r)
      | Inr requested_reply \<Rightarrow>
          (case cx_selinux_send cx c proposed m of
             Some e \<Rightarrow> Some (Answer (Some e), r)
           | None \<Rightarrow>
               (case cx_apparmor_send cx c proposed requested_reply m of
                  Some e \<Rightarrow> Some (Answer (Some e), r)
                | None \<Rightarrow>
                    if \<not> cx_active cx c then
                      if proposed = None \<and> message_is_method_call m DBUS_INTERFACE_DBUS (bytes ''Hello'')
                      then Some (Answer None, r)
                      else Some (Answer (Some REPLY_ACCESS_DENIED), r)
                    else Some (GoOn requested_reply (cx_policy cx c), r)))))
    (\<lambda>(verdict, r').
      kept_apart L r r' \<and> expected r' \<subseteq> expected r \<and>
      (\<not> asked_for r c addressed proposed m \<longrightarrow> expected r' = expected r) \<and>
      (case verdict of
         Answer answer \<Rightarrow> answer = None \<longrightarrow> \<not> cx_active cx c \<and> proposed = None \<and>
           message_is_method_call m DBUS_INTERFACE_DBUS (bytes ''Hello'') \<and> expected r' = expected r
       | GoOn b sp \<Rightarrow> cx_active cx c \<and> sp = cx_policy cx c \<and> b = asked_for r c addressed proposed m \<and>
           cx_selinux_send cx c proposed m = None \<and> cx_apparmor_send cx c proposed b m = None \<and>
           expected r' = expected r - used_up b c proposed m))"
    using z by (cases answer) (auto simp: used_up_def split: option.split)
qed

lemma record_reply_ok:
  assumes "replies_ok L r" "L = cx_max_replies cx"
  shows "returns (record_reply cx (Some c) addressed proposed m r) (\<lambda>(e, r').
    kept_apart L r r' \<and>
    expected r' = (if e = None then expected r \<union> opened c addressed proposed m else expected r))"
proof (cases "mg_type m = MESSAGE_TYPE_METHOD_CALL \<and> addressed \<noteq> None \<and> addressed = proposed")
  case True
  then obtain p where p: "addressed = Some p" "proposed = Some p" by auto
  have "returns (connections_expect_reply L (cx_now cx) c p m r) (\<lambda>(e, r').
      kept_apart L r r' \<and>
      expected r' = (if e = None then expected r \<union> opened c addressed proposed m else expected r))"
    by (rule returns_mono [OF expect_reply_ok [OF assms(1)]])
      (use True p in \<open>auto simp: kept_apart_def opened_def split: if_splits\<close>)
  then show ?thesis using True p assms(2) by (simp add: record_reply_def)
next
  case False
  have "kept_apart L r r" using assms(1) by (simp add: kept_apart_def)
  moreover have "opened c addressed proposed m = {}" using False by (auto simp: opened_def)
  ultimately show ?thesis using False by (auto simp: record_reply_def)
qed

text \<open>The policies of sender and recipient let a message through.\<close>

definition permitted ::
    "bus_context \<Rightarrow> bus \<Rightarrow> bool \<Rightarrow> connection option \<Rightarrow> connection option \<Rightarrow> connection option \<Rightarrow> message \<Rightarrow> bool" where
  "permitted cx s requested_reply sender addressed proposed m \<longleftrightarrow>
     (\<forall>c rs. sender = Some c \<longrightarrow> cx_policy cx c = Some rs \<longrightarrow> decides (send_used s requested_reply proposed m) rs) \<and>
     (\<forall>c rs. proposed = Some c \<longrightarrow> cx_active cx c \<longrightarrow> cx_policy cx c = Some rs \<longrightarrow>
        decides (receive_used s requested_reply (is_eavesdropping addressed proposed m) sender m) rs)"

lemma find_recipient_policy_eq:
  assumes "dispatched cx sender addressed proposed m"
  obtains rp where "find_recipient_policy cx sender proposed = Some rp"
    and "\<And>p. rp = Some p \<longleftrightarrow> (\<exists>c. proposed = Some c \<and> cx_active cx c \<and> cx_policy cx c = Some p)"
proof (cases proposed)
  case None
  then show ?thesis using that [of None] by (simp add: find_recipient_policy_def)
next
  case (Some c)
  show ?thesis
  proof (cases "cx_active cx c")
    case True
    then obtain p where "cx_policy cx c = Some p" using assms by (auto simp: dispatched_def)
    then show ?thesis using that [of "Some p"] Some True by (auto simp: find_recipient_policy_def)
  next
    case False
    then have "sender = None" using assms Some by (auto simp: dispatched_def)
    then show ?thesis using that [of None] Some False by (simp add: find_recipient_policy_def)
  qed
qed

text \<open>After the part of the sender, the policies and the size of the queue decide.\<close>

lemma policies_decide:
  assumes "registry_ok s" "dispatched cx sender addressed proposed m"
  obtains rp where "find_recipient_policy cx sender proposed = Some rp"
    and "policy_part cx s b (Option.bind sender (cx_policy cx)) rp sender addressed proposed m =
      Some (if permitted cx s b sender addressed proposed m
        then if queue_full cx proposed then Some REPLY_LIMITS_EXCEEDED else None
        else Some REPLY_ACCESS_DENIED)"
proof -
  obtain rp where rp: "find_recipient_policy cx sender proposed = Some rp"
    "\<And>p. rp = Some p \<longleftrightarrow> (\<exists>c. proposed = Some c \<and> cx_active cx c \<and> cx_policy cx c = Some p)"
    using find_recipient_policy_eq [OF assms(2)] by metis
  have "permitted cx s b sender addressed proposed m \<longleftrightarrow>
      (\<forall>p. Option.bind sender (cx_policy cx) = Some p \<longrightarrow> decides (send_used s b proposed m) p) \<and>
      (\<forall>p. rp = Some p \<longrightarrow> decides (receive_used s b (is_eavesdropping addressed proposed m) sender m) p)"
    unfolding permitted_def rp(2) by (cases sender) auto
  then show ?thesis using that [OF rp(1)] by (simp add: policy_part_eq [OF assms(1)])
qed

definition check_ok ::
    "bus_context \<Rightarrow> bus \<Rightarrow> connection option \<Rightarrow> connection option \<Rightarrow> connection option \<Rightarrow> message \<Rightarrow> replies \<Rightarrow>
     reply_error option \<times> replies \<Rightarrow> bool" where
  "check_ok cx s sender addressed proposed m r = (\<lambda>(answer, r').
    replies_ok (cx_max_replies cx) r' \<and> expected_before r' = expected_before r \<and>
    (case sender of
       None \<Rightarrow> r' = r \<and>
         (answer = None \<longleftrightarrow> known_type (mg_type m) \<and> \<not> queue_full cx proposed \<and>
            permitted cx s (addressed = proposed \<and> mg_reply_serial m \<noteq> 0) sender addressed proposed m)
     | Some c \<Rightarrow>
         (answer \<noteq> None \<longrightarrow> expected r' \<subseteq> expected r \<and>
            (\<not> asked_for r c addressed proposed m \<longrightarrow> expected r' = expected r)) \<and>
         (answer = None \<longrightarrow> known_type (mg_type m) \<and>
            (if cx_active cx c
             then let b = asked_for r c addressed proposed m in
               cx_selinux_send cx c proposed m = None \<and> cx_apparmor_send cx c proposed b m = None \<and>
               permitted cx s b sender addressed proposed m \<and> \<not> queue_full cx proposed \<and>
               expected r' = expected r - used_up b c proposed m \<union> opened c addressed proposed m
             else proposed = None \<and> message_is_method_call m DBUS_INTERFACE_DBUS (bytes ''Hello'') \<and>
               expected r' = expected r))))"

lemma security_check_ok:
  assumes "registry_ok s" "replies_ok (cx_max_replies cx) r" "dispatched cx sender addressed proposed m"
  shows "returns (context_check_security_policy cx s sender addressed proposed m r)
    (check_ok cx s sender addressed proposed m r)"
proof (cases sender)
  note ensured = dispatched_ensured [OF assms(3)]
  case None
  let ?b = "addressed = proposed \<and> mg_reply_serial m \<noteq> 0"
  obtain rp where "find_recipient_policy cx sender proposed = Some rp"
    "policy_part cx s ?b (Option.bind sender (cx_policy cx)) rp sender addressed proposed m =
      Some (if permitted cx s ?b sender addressed proposed m
        then if queue_full cx proposed then Some REPLY_LIMITS_EXCEEDED else None
        else Some REPLY_ACCESS_DENIED)"
    by (rule policies_decide [OF assms(1,3)])
  then show ?thesis
    using None assms(2) ensured
    by (simp add: context_check_security_policy_def check_ok_def sender_part_def record_reply_def)
next
  note ensured = dispatched_ensured [OF assms(3)]
  case (Some c)
  have active: "\<forall>c. cx_active cx c \<longrightarrow> cx_policy cx c \<noteq> None" using assms(3) by (simp add: dispatched_def)
  show ?thesis
  proof (cases "known_type (mg_type m)")
    case True
    obtain verdict r1 where v: "sender_part cx (Some c) addressed proposed m r = Some (verdict, r1)"
      "kept_apart (cx_max_replies cx) r r1" "expected r1 \<subseteq> expected r" "\<not> asked_for r c addressed proposed m \<longrightarrow> expected r1 = expected r"
      and verdict: "case verdict of
         Answer answer \<Rightarrow> answer = None \<longrightarrow> \<not> cx_active cx c \<and> proposed = None \<and>
           message_is_method_call m DBUS_INTERFACE_DBUS (bytes ''Hello'') \<and> expected r1 = expected r
       | GoOn b sp \<Rightarrow> cx_active cx c \<and> sp = cx_policy cx c \<and> b = asked_for r c addressed proposed m \<and>
           cx_selinux_send cx c proposed m = None \<and> cx_apparmor_send cx c proposed b m = None \<and>
           expected r1 = expected r - used_up b c proposed m"
      using sender_part_ok [OF assms(2) active, of c addressed proposed m] by (auto simp: returns_def)
    show ?thesis
    proof (cases verdict)
      case (Answer answer)
      then show ?thesis
        using Some True ensured v verdict
        by (auto simp: context_check_security_policy_def check_ok_def kept_apart_def)
    next
      case (GoOn b sp)
      have r1: "replies_ok (cx_max_replies cx) r1" using v by (simp add: kept_apart_def)
      obtain rp where rp: "find_recipient_policy cx sender proposed = Some rp"
        "policy_part cx s b (Option.bind sender (cx_policy cx)) rp sender addressed proposed m =
          Some (if permitted cx s b sender addressed proposed m
            then if queue_full cx proposed then Some REPLY_LIMITS_EXCEEDED else None
            else Some REPLY_ACCESS_DENIED)"
        by (rule policies_decide [OF assms(1,3)])
      obtain e r2 where "record_reply cx (Some c) addressed proposed m r1 = Some (e, r2)"
        "kept_apart (cx_max_replies cx) r1 r2"
        "expected r2 = (if e = None then expected r1 \<union> opened c addressed proposed m else expected r1)"
        using record_reply_ok [OF r1 refl, of c addressed proposed m] by (auto simp: returns_def)
      moreover have "cx_apparmor_send cx c proposed (asked_for r c addressed proposed m) m = None"
        using verdict GoOn by auto
      ultimately show ?thesis
        using Some True ensured v verdict GoOn rp
        by (simp add: context_check_security_policy_def check_ok_def kept_apart_def)
    qed
  qed (use Some assms(2) ensured in \<open>simp add: context_check_security_policy_def check_ok_def\<close>)
qed

text \<open>
  C3. With a registry and pending replies in order and what the dispatcher ensures, the check of
  a message fails no assertion and keeps the pending replies in order. What the bus sends passes
  exactly when its type is known, the policy of an active recipient decides for it and the queue
  is not full. What an active client sends passes only when the security modules and the
  policies of both sides decide for it; the reply it answers, if any, is then no longer
  expected, and the reply to it, if it waits for one, is. An inactive client passes only with
  Hello to the bus. A refused message opens nothing.
\<close>

theorem security_check_answers:
  assumes "registry_ok s" "replies_ok (cx_max_replies cx) r" "dispatched cx sender addressed proposed m"
  shows "returns (context_check_security_policy cx s sender addressed proposed m r) (\<lambda>(answer, r').
    replies_ok (cx_max_replies cx) r' \<and> expected_before r' = expected_before r \<and>
    (case sender of
       None \<Rightarrow> r' = r \<and>
         (answer = None \<longleftrightarrow> known_type (mg_type m) \<and> \<not> queue_full cx proposed \<and>
            permitted cx s (addressed = proposed \<and> mg_reply_serial m \<noteq> 0) sender addressed proposed m)
     | Some c \<Rightarrow>
         (answer \<noteq> None \<longrightarrow> expected r' \<subseteq> expected r \<and>
            (\<not> asked_for r c addressed proposed m \<longrightarrow> expected r' = expected r)) \<and>
         (answer = None \<longrightarrow> known_type (mg_type m) \<and>
            (if cx_active cx c
             then let b = asked_for r c addressed proposed m in
               cx_selinux_send cx c proposed m = None \<and> cx_apparmor_send cx c proposed b m = None \<and>
               permitted cx s b sender addressed proposed m \<and> \<not> queue_full cx proposed \<and>
               expected r' = expected r - used_up b c proposed m \<union> opened c addressed proposed m
             else proposed = None \<and> message_is_method_call m DBUS_INTERFACE_DBUS (bytes ''Hello'') \<and>
               expected r' = expected r))))"
  using security_check_ok [OF assms] by (simp only: check_ok_def)

section \<open>Replies that were not asked for\<close>

text \<open>The rules that allow replies allow only those that were asked for, as rules do by default.\<close>

definition send_guarded :: "client_policy \<Rightarrow> bool" where
  "send_guarded rs \<longleftrightarrow> (\<forall>r\<in>set rs.
     case pr_d r of Send d \<Rightarrow> pr_allow r \<longrightarrow> sd_requested_reply d \<and> \<not> sd_eavesdrop d | _ \<Rightarrow> True)"

definition receive_guarded :: "client_policy \<Rightarrow> bool" where
  "receive_guarded rs \<longleftrightarrow> (\<forall>r\<in>set rs.
     case pr_d r of Receive d \<Rightarrow> pr_allow r \<longrightarrow> rd_requested_reply d \<and> \<not> rd_eavesdrop d | _ \<Rightarrow> True)"

definition replies_guarded :: "bus_context \<Rightarrow> connection \<Rightarrow> connection option \<Rightarrow> bool" where
  "replies_guarded cx c proposed \<longleftrightarrow>
     (\<exists>rs. cx_policy cx c = Some rs \<and> send_guarded rs) \<or>
     (\<exists>p rs. proposed = Some p \<and> cx_active cx p \<and> cx_policy cx p = Some rs \<and> receive_guarded rs)"

lemma decides_allowed: "decides P rs \<Longrightarrow> \<exists>r\<in>set rs. P r \<and> pr_allow r"
  by (induction rs rule: rev_induct) (auto split: if_splits)

lemma guarded_refuses:
  assumes "mg_reply_serial m \<noteq> 0"
  shows "send_guarded rs \<Longrightarrow> \<not> decides (send_used s False proposed m) rs"
    and "receive_guarded rs \<Longrightarrow> \<not> decides (receive_used s False e sender m) rs"
  using assms
  by (fastforce simp: send_guarded_def send_used_def send_rule_applies_def split: if_splits dest!: decides_allowed)
    (use assms in \<open>fastforce simp: receive_guarded_def receive_used_def receive_rule_applies_def
      split: if_splits dest!: decides_allowed\<close>)

lemma guarded_not_permitted:
  "mg_reply_serial m \<noteq> 0 \<Longrightarrow> replies_guarded cx c proposed \<Longrightarrow>
   \<not> permitted cx s False (Some c) addressed proposed m"
  using guarded_refuses unfolding permitted_def replies_guarded_def by metis

text \<open>
  C7. A message of an active client that carries the serial of a reply its recipient does not
  wait for is refused, and changes nothing in what is expected, when the rules of the sender or
  those of the recipient allow only the replies that were asked for. This holds for messages of
  every type with a reply serial: dbus-daemon.1.xml.in says that requested_reply is ignored for
  types other than errors and method returns, but the code looks at the reply serial and not at
  the type (see the finding).
\<close>

theorem unrequested_reply_refused:
  assumes "registry_ok s" "replies_ok (cx_max_replies cx) r" "dispatched cx (Some c) addressed proposed m"
    and "replies_guarded cx c proposed" "cx_active cx c"
    and "mg_reply_serial m \<noteq> 0" "\<forall>p. proposed = Some p \<longrightarrow> (p, c, mg_reply_serial m) \<notin> expected r"
  shows "returns (context_check_security_policy cx s (Some c) addressed proposed m r) (\<lambda>(answer, r').
    answer \<noteq> None \<and> expected r' = expected r)"
proof -
  have "\<not> asked_for r c addressed proposed m" using assms(7) by (auto simp: asked_for_def)
  then show ?thesis
    using guarded_not_permitted [OF assms(6,4)] assms(5)
    by (intro returns_mono [OF security_check_ok [OF assms(1-3)]]) (auto simp: check_ok_def)
qed

section \<open>Traffic\<close>

text \<open>What a message that passed means to the log: of a reply, and of a call that waits for one.\<close>

definition let_through ::
    "connection option \<Rightarrow> connection option \<Rightarrow> connection option \<Rightarrow> message \<Rightarrow> exchange_event list" where
  "let_through sender addressed proposed m =
     (case (sender, proposed) of
        (Some c, Some p) \<Rightarrow>
          if addressed = proposed then
            (if mg_reply_serial m \<noteq> 0 then [Replied (p, c, mg_reply_serial m)] else []) @
            (if mg_type m = MESSAGE_TYPE_METHOD_CALL \<and> \<not> mg_no_reply m then [Called (c, p, mg_serial m)] else [])
          else []
      | _ \<Rightarrow> [])"

text \<open>
  The bus between executions of the check: registry, policies and connections are any that fit, where
  one side of every message is guarded. A log as in \<open>exchange\<close>, but of the messages that passed.
\<close>

inductive traffic :: "int \<Rightarrow> replies \<Rightarrow> exchange_event list \<Rightarrow> exchange_event list \<Rightarrow> bool" for L where
  start: "traffic L (replies_start m) [] []"
| memory: "traffic L r log tx \<Longrightarrow> traffic L (r\<lparr>rp_mem := m\<rparr>) log tx"
| dispatch: "traffic L r log tx \<Longrightarrow> cx_max_replies cx = L \<Longrightarrow> registry_ok s \<Longrightarrow>
    dispatched cx sender addressed proposed m \<Longrightarrow> \<forall>c. sender = Some c \<longrightarrow> replies_guarded cx c proposed \<Longrightarrow>
    context_check_security_policy cx s sender addressed proposed m r = Some (answer, r') \<Longrightarrow>
    traffic L r' log (if answer = None then tx @ let_through sender addressed proposed m else tx)"
| execute: "traffic L r log tx \<Longrightarrow> reply_transaction_execute r = Some r' \<Longrightarrow> traffic L r' (log @ tx) []"
| cancel: "traffic L r log tx \<Longrightarrow> reply_transaction_cancel r = Some r' \<Longrightarrow> traffic L r' log []"
| expire: "traffic L r log [] \<Longrightarrow> rp_hooks r = [] \<Longrightarrow> expirelist_expire expire_after now r = Some r' \<Longrightarrow>
    traffic L r' log []"
| lost: "traffic L r log [] \<Longrightarrow> rp_hooks r = [] \<Longrightarrow> connection_drop_pending_replies c r = Some r' \<Longrightarrow>
    traffic L r' log []"

lemma traced_replied:
  "answered es \<Longrightarrow> leaves_open es T \<Longrightarrow> t \<in> T \<Longrightarrow>
   answered (es @ [Replied t]) \<and> leaves_open (es @ [Replied t]) (T - {t})"
  using leaves_open_replied leaves_open_answered by blast

lemma traced_called:
  "answered es \<Longrightarrow> leaves_open es T \<Longrightarrow> answered (es @ [Called t]) \<and> leaves_open (es @ [Called t]) (T \<union> {t})"
  using leaves_open_called leaves_open_answered by (metis Un_insert_right sup_bot.right_neutral)

lemma check_ok_traced:
  assumes ok: "check_ok cx s sender addressed proposed m r (answer, r')"
    and guarded: "\<forall>c. sender = Some c \<longrightarrow> replies_guarded cx c proposed"
    and es: "answered es" "leaves_open es (expected r)"
  shows "let es' = (if answer = None then es @ let_through sender addressed proposed m else es) in
    answered es' \<and> leaves_open es' (expected r')"
proof (cases sender)
  case None
  then show ?thesis using ok es by (simp add: check_ok_def let_through_def)
next
  case (Some c)
  show ?thesis
  proof (cases "answer = None \<and> (\<exists>p. proposed = Some p \<and> addressed = Some p)")
    case True
    then obtain p where p: "answer = None" "proposed = Some p" "addressed = Some p" by blast
    let ?b = "asked_for r c addressed proposed m"
    have "permitted cx s ?b sender addressed proposed m"
      and r': "expected r' = expected r - used_up ?b c proposed m \<union> opened c addressed proposed m"
      using ok p Some by (auto simp: check_ok_def Let_def split: if_splits)
    then have b: "?b" if "mg_reply_serial m \<noteq> 0"
      using guarded_not_permitted [OF that, of cx c proposed s addressed] guarded Some by (cases ?b) auto
    then have b_iff: "?b = (mg_reply_serial m \<noteq> 0)" by (auto simp: asked_for_def)
    let ?es = "es @ (if mg_reply_serial m \<noteq> 0 then [Replied (p, c, mg_reply_serial m)] else [])"
    have replied: "answered ?es \<and> leaves_open ?es (expected r - used_up ?b c proposed m)"
      using traced_replied [OF es, of "(p, c, mg_reply_serial m)"] b b_iff es p
      by (auto simp: used_up_def asked_for_def)
    show ?thesis
      using replied traced_called [of ?es _ "(c, p, mg_serial m)"] Some p r'
      by (auto simp: let_through_def opened_def Let_def)
  next
    case False
    have "expected r' \<subseteq> expected r"
      using ok Some False
      by (cases "answer = None") (auto simp: check_ok_def opened_def Let_def split: if_splits)
    moreover have "answer = None \<Longrightarrow> let_through sender addressed proposed m = []"
      using Some False by (auto simp: let_through_def split: option.split)
    ultimately show ?thesis using es leaves_open_subset by (auto simp: Let_def)
  qed
qed

lemma traffic_dispatch:
  assumes "exchange_ok L r log tx" "cx_max_replies cx = L" "registry_ok s"
    and "dispatched cx sender addressed proposed m" "\<forall>c. sender = Some c \<longrightarrow> replies_guarded cx c proposed"
    and step: "context_check_security_policy cx s sender addressed proposed m r = Some (answer, r')"
  shows "exchange_ok L r' log (if answer = None then tx @ let_through sender addressed proposed m else tx)"
proof -
  have r: "replies_ok (cx_max_replies cx) r" using assms(1,2) by (simp add: exchange_ok_def)
  have ok: "check_ok cx s sender addressed proposed m r (answer, r')"
    using security_check_ok [OF assms(3) r assms(4)] step by simp
  have "answered (log @ tx)" "leaves_open (log @ tx) (expected r)" using assms(1) by (simp_all add: exchange_ok_def)
  from check_ok_traced [OF ok assms(5) this]
  have "answered (log @ (if answer = None then tx @ let_through sender addressed proposed m else tx)) \<and>
      leaves_open (log @ (if answer = None then tx @ let_through sender addressed proposed m else tx)) (expected r')"
    by (cases answer) (simp_all add: Let_def)
  moreover have "replies_ok L r'" "expected_before r' = expected_before r"
    using ok assms(2) by (simp_all add: check_ok_def)
  ultimately show ?thesis using assms(1) by (simp add: exchange_ok_def)
qed

lemma traffic_invariant: "traffic L r log tx \<Longrightarrow> exchange_ok L r log tx"
  by (induction rule: traffic.induct)
    (rule exchange_ok_start exchange_ok_memory traffic_dispatch exchange_ok_execute
      exchange_ok_cancel exchange_ok_expire exchange_ok_lost; assumption)+

text \<open>
  C1. On a bus where on one side of every message the rules allow only the replies that were
  asked for, as rules do by default, the messages the check lets through keep to calls and
  replies: at every time no more replies have passed between two clients with a serial than
  calls with this serial the other way, whichever names, policies and connections change,
  transactions are cancelled, allocations fail, replies expire and connections are lost.
\<close>

theorem traffic_replies_answer_calls:
  assumes "traffic L r log tx"
  shows "\<forall>k t. count_list (take k (log @ tx)) (Replied t) \<le> count_list (take k (log @ tx)) (Called t)"
  using traffic_invariant [OF assms] by (simp add: exchange_ok_def answered_def)

section \<open>A call and its reply\<close>

definition allow_messages :: client_policy where
  "allow_messages =
     [\<lparr>pr_allow = True, pr_d = Send \<lparr>sd_message_type = MESSAGE_TYPE_INVALID, sd_path = None, sd_interface = None,
        sd_member = None, sd_error = None, sd_destination = None, sd_eavesdrop = False,
        sd_requested_reply = True, sd_log = False\<rparr>\<rparr>,
      \<lparr>pr_allow = True, pr_d = Receive \<lparr>rd_message_type = MESSAGE_TYPE_INVALID, rd_path = None, rd_interface = None,
        rd_member = None, rd_error = None, rd_origin = None, rd_eavesdrop = False, rd_requested_reply = True\<rparr>\<rparr>]"

definition two_clients :: bus_context where
  "two_clients = \<lparr>cx_active = (\<lambda>_. True), cx_policy = (\<lambda>_. Some allow_messages),
     cx_selinux_send = (\<lambda>_ _ _. None), cx_apparmor_send = (\<lambda>_ _ _ _. None),
     cx_outgoing_size = (\<lambda>_. 0), cx_outgoing_unix_fds = (\<lambda>_. 0),
     cx_max_outgoing_bytes = 127, cx_max_outgoing_unix_fds = 16, cx_max_replies = 5, cx_now = (3, 4)\<rparr>"

lemma two_clients_fields [simp]:
  "cx_active two_clients c" "cx_policy two_clients c = Some allow_messages"
  "cx_selinux_send two_clients c p m = None" "cx_apparmor_send two_clients c p b m = None"
  "\<not> queue_full two_clients p" "cx_max_replies two_clients = 5" "cx_now two_clients = (3, 4)"
  by (simp_all add: two_clients_def queue_full_def split: option.split)

lemma a_call_fields [simp]:
  "mg_type a_call = MESSAGE_TYPE_METHOD_CALL" "mg_reply_serial a_call = 0" "\<not> mg_no_reply a_call"
  "mg_serial a_call = 7" "mg_destination a_call \<noteq> None"
  "mg_type its_reply = MESSAGE_TYPE_METHOD_RETURN" "mg_reply_serial its_reply = 7" "mg_destination its_reply \<noteq> None"
  by (simp_all add: a_call_def its_reply_def)

lemma two_clients_dispatch [simp]:
  "dispatched two_clients sender (Some a) proposed a_call" "dispatched two_clients sender (Some a) proposed its_reply"
  "replies_guarded two_clients c proposed"
  by (simp_all add: dispatched_def replies_guarded_def send_guarded_def allow_messages_def)

lemma allow_messages_checks:
  "\<exists>t l. client_policy_check_can_send allow_messages s b p m False = Some (mg_reply_serial m = 0 \<or> b, t, l)"
  "\<exists>t. client_policy_check_can_receive allow_messages s b sender p p m = Some (mg_reply_serial m = 0 \<or> b, t)"
  by (auto simp: allow_messages_def client_policy_check_can_send_def client_policy_check_can_receive_def
      send_rule_applies_def receive_rule_applies_def field_differs_def interface_differs_def is_eavesdropping_def)

lemma two_clients_policy:
  "policy_part two_clients s b (Some allow_messages) (Some allow_messages) sender p p m =
   Some (if mg_reply_serial m = 0 \<or> b then None else Some REPLY_ACCESS_DENIED)"
  using allow_messages_checks(1) [of s b p m] allow_messages_checks(2) [of s b sender p m]
  by (auto simp: policy_part_def)

lemma two_clients_check:
  "dispatched two_clients (Some c) (Some p) (Some p) m \<Longrightarrow> known_type (mg_type m) \<Longrightarrow>
   context_check_security_policy two_clients s (Some c) (Some p) (Some p) m r =
     do { (answer, r) \<leftarrow> fill_requested_reply two_clients c (Some p) (Some p) m r;
          case answer of
            Inl e \<Rightarrow> Some (Some e, r)
          | Inr b \<Rightarrow>
              (if mg_reply_serial m = 0 \<or> b then record_reply two_clients (Some c) (Some p) (Some p) m r
               else Some (Some REPLY_ACCESS_DENIED, r)) }"
  by (auto simp: context_check_security_policy_def dispatched_ensured sender_part_def find_recipient_policy_def
      two_clients_policy split: option.split sum.split prod.split bind_splits)

lemma two_clients_run:
  "context_check_security_policy two_clients s (Some 1) (Some 2) (Some 2) a_call (replies_start []) =
     Some (None, called_state [CancelPendingReply 0])"
  "context_check_security_policy two_clients s (Some 2) (Some 1) (Some 1) its_reply (called_state []) =
     Some (None, replied_state)"
  using run_call(1) run_reply(1)
  by (simp_all add: two_clients_check known_type_def fill_requested_reply_def record_reply_def del: One_nat_def)

lemma two_clients_traffic:
  "traffic 5 (replied_state\<lparr>rp_hooks := [], rp_pending := Map.empty\<rparr>) [Called (1, 2, 7), Replied (1, 2, 7)] []"
proof -
  have "traffic 5 (called_state [CancelPendingReply 0]) [] [Called (1, 2, 7)]"
    using traffic.dispatch [OF traffic.start _ registry_ok_start two_clients_dispatch(1) _ two_clients_run(1)]
    by (simp add: let_through_def)
  then have "traffic 5 (called_state []) [Called (1, 2, 7)] []"
    using traffic.execute [OF _ run_call(2)] by fastforce
  then have "traffic 5 replied_state [Called (1, 2, 7)] [Replied (1, 2, 7)]"
    using traffic.dispatch [OF _ _ registry_ok_start two_clients_dispatch(2) _ two_clients_run(2), of 5 "[Called (1, 2, 7)]" "[]"]
    by (simp add: let_through_def)
  then show ?thesis using traffic.execute [OF _ run_reply(2)] by fastforce
qed

lemma expected_start [simp]: "expected (replies_start m) = {}"
  by (simp add: expected_def expected_in_def replies_start_def)

theorem traffic_replies_answer_calls_witness:
  "count_list (take 2 [Called (1 :: nat, 2 :: nat, 7 :: 32 word), Replied (1, 2, 7)]) (Replied (1, 2, 7)) \<le>
   count_list (take 2 [Called (1, 2, 7), Replied (1, 2, 7)]) (Called (1, 2, 7))"
  using traffic_replies_answer_calls [OF two_clients_traffic, rule_format, of 2 "(1, 2, 7)"] by simp

theorem security_check_answers_witness:
  "expected (called_state [CancelPendingReply 0]) = {(1, 2, 7)}"
  using security_check_answers [where s = "bus_start []" and cx = two_clients and r = "replies_start []" and
      sender = "Some 1" and addressed = "Some 2" and proposed = "Some 2" and m = a_call]
  by (simp add: registry_ok_start replies_start_ok two_clients_run asked_for_def used_up_def opened_def
      del: One_nat_def)

theorem unrequested_reply_refused_witness:
  "\<exists>e r. context_check_security_policy two_clients (bus_start []) (Some 2) (Some 1) (Some 1) its_reply (replies_start []) =
     Some (Some e, r) \<and> expected r = {}"
    using unrequested_reply_refused [where s = "bus_start []" and cx = two_clients and r = "replies_start []" and
        c = 2 and addressed = "Some 1" and proposed = "Some 1" and m = its_reply]
    by (auto simp: registry_ok_start replies_start_ok returns_def)

end
