(* ===== verification/Spec2Isabelle.thy ===== *)
theory Spec2Isabelle
  imports Body StringOps DList MemPool NameQueue HashRun AuthHandshake Security
begin

text \<open>
  Verification of D-Bus, the reference implementation in version 1.10.4, as it stands under
  \<^verbatim>\<open>src/data/D-Bus_Installation/dbus-1.10.4\<close>; file names below are relative to this directory.

  \<^bold>\<open>The program.\<close> Applications talk over sockets, mostly through a message bus. The library under
  \<^verbatim>\<open>dbus/\<close> authenticates the two ends of a connection, marshals and validates messages and holds its
  data in containers of its own; the daemon under \<^verbatim>\<open>bus/\<close> hands out names, decides by the rules of
  its configuration which message may go where, and remembers which replies are waited for.

  \<^bold>\<open>How C is read.\<close> An integer that is computed with bitwise or may wrap is a word of its width, an
  index or a count is a \<open>nat\<close> or \<open>int\<close>; a byte is an 8-bit word, text is a list of bytes. What would
  abort or is undefined (a failed assertion, reading outside a block, following a null, dangling or
  freed pointer) is \<open>None\<close> of the option monad, so a theorem that an operation returns says that none
  of this happens; \<open>returns m P\<close> of \<open>Prelude\<close> says that \<open>m\<close> is not \<open>None\<close> and its result satisfies \<open>P\<close>.
  Where aliasing matters, objects live in an explicit store of addresses. Every allocation takes
  one answer from a list that is universally quantified, so every pattern of failing allocations is
  covered; when the list is used up, allocations succeed. Errors are values of a sum or of an
  enumeration with the constructors of the source.

  \<^bold>\<open>Strings and text\<close>
  \<^item> \<open>DString\<close> with \<open>StringOps\<close>: \<^verbatim>\<open>dbus/dbus-string.c\<close>. The buffer (\<^verbatim>\<open>DBusRealString\<close>) at the byte level with
    alignment, growth and the maximal length, related to byte lists by \<open>rep\<close>; each operation is
    shown to implement an operation on lists within its block, or to fail and keep the contents.
  \<^item> \<open>Names\<close>: the validators of paths, interfaces, members, errors and bus names of
    \<^verbatim>\<open>dbus/dbus-marshal-validate.c\<close>, against their grammars. The scanning loops share the locale
    \<open>dotted_scanner\<close>, interpreted on three of them.
  \<^item> \<open>Utf8\<close>: the text validators of \<^verbatim>\<open>dbus/dbus-string.c\<close>, against encodings of scalar values.

  \<^bold>\<open>Types and messages\<close>
  \<^item> \<open>Validity\<close>, \<open>Signature\<close>, \<open>SigIter\<close>: the signature validator and the iterators of
    \<^verbatim>\<open>dbus/dbus-signature.c\<close>. Its grammar is the datatype \<open>dtype\<close>. The validator accepts the grammar, and
    nothing else when no dictionaries occur; with them it accepts brackets that interleave.
  \<^item> \<open>Octets\<close>: packing and swapping of integers, \<^verbatim>\<open>dbus/dbus-marshal-basic.c\<close> and its header. The byte
    order of the machine is the parameter \<open>host\<close>; the locale \<open>octet_codec\<close> is the round trip.
  \<^item> \<open>Marshal\<close>: writing and reading basic values in either byte order, with the padding.
  \<^item> \<open>TypeReader\<close>: the readers of \<^verbatim>\<open>dbus/dbus-marshal-recursive.c\<close>, with the virtual methods as a case
    distinction; over signatures they are shown equivalent to the public iterator.
  \<^item> \<open>Body\<close>: validation of the body of a message. The memory is a partial function of addresses; the
    depth of the recursion is bounded by fuel, which the theorems show to be enough. It reads at
    most the three bytes after the body, which a string buffer has. A second copy of the recursion,
    which stops at variants whose signature is accepted without being grammatical, says which
    bodies are excluded.

  \<^bold>\<open>Containers\<close>
  \<^item> \<open>DList\<close>: circular lists, \<^verbatim>\<open>dbus/dbus-list.c\<close>, as linked nodes of a heap, related to lists; the locale
    \<open>queue\<close> is interpreted on them.
  \<^item> \<open>MemPool\<close>: \<^verbatim>\<open>dbus/dbus-mempool.c\<close>; elements of a pool never overlap as long as allocations succeed.
    Sizes and counts are \<^verbatim>\<open>int\<close>; an overflow is \<open>None\<close>, with the limits below which there is none. After a
    block allocation has failed the pool hands out memory beyond a block.
  \<^item> \<open>DHash\<close>, \<open>HashMap\<close>, \<open>HashRun\<close>: \<^verbatim>\<open>dbus/dbus-hash.c\<close>. The invariant of buckets and geometry, the table as a
    map, iteration with removal, and the locale \<open>dictionary\<close>, interpreted for the three types of keys.
    The size of the table is an \<^verbatim>\<open>int\<close> that overflows from 805306368 entries on; the theorems bound the number
    of entries below, where at most 13 rebuilds by four have happened.

  \<^bold>\<open>Authentication\<close>
  \<^item> \<open>Credentials\<close>, \<open>Keyring\<close>, \<open>Sha\<close>: \<^verbatim>\<open>dbus/dbus-credentials.c\<close>, the look-up of cookies of
    \<^verbatim>\<open>dbus/dbus-keyring.c\<close> and \<^verbatim>\<open>dbus/dbus-sha.c\<close>, whose transformation with renamed variables and a
    circular buffer computes SHA-1 as published, for less than \<open>2 ^ 32\<close> bytes.
  \<^item> \<open>Auth\<close>: \<^verbatim>\<open>dbus/dbus-auth.c\<close>, both sides with the three mechanisms. The operating system (users, cookie
    files, random bytes) is the parameter \<open>auth_env\<close>. The loop over commands ends because each takes
    input away; the input is limited to 16 KiB and six rejections end a conversation.
  \<^item> \<open>AuthServer\<close>: whatever arrives, who is authenticated is the user of the socket. \<open>wp\<close> propagates
    postconditions through handlers; runs are inductive.
  \<^item> \<open>AuthHandshake\<close>: two sides connected to each other finish and agree.

  \<^bold>\<open>The bus\<close>
  \<^item> \<open>Services\<close>, \<open>Ownership\<close>, \<open>NameQueue\<close>: \<^verbatim>\<open>bus/services.c\<close> with the transactions of \<^verbatim>\<open>bus/connection.c\<close>. Services and
    owners are counted references; the invariant \<open>registry_ok\<close> accounts for every reference. Requests
    implement \<open>request_name\<close> and \<open>release_name\<close> on the queue of a name, which is compared with what
    \<^verbatim>\<open>doc/dbus-specification.xml\<close> says (\<open>documented_request\<close>); a queued owner comes first when those before it
    leave, and dropping a connection ends. \<open>serves\<close> are the states of a bus that goes on executing, refusing
    and cancelling; \<open>undoable\<close> transactions, which only have owners to take out of queues again, can be
    cancelled, while the hook that restores a primary owner (\<open>RestoreOwnership\<close>) goes wrong.
  \<^item> \<open>Policy\<close>, \<open>PolicyChecks\<close>, \<open>PolicyConfig\<close>: \<^verbatim>\<open>bus/policy.c\<close> and the elements of \<^verbatim>\<open>bus/config-parser.c\<close> that make
    policies. \<open>decides\<close> is the last rule that applies; what the optimised policy of a client answers is
    related to it, for every policy that elements and included files can make.
  \<^item> \<open>Replies\<close>, \<open>ReplyWindow\<close>: pending replies of \<^verbatim>\<open>bus/connection.c\<close> on \<^verbatim>\<open>bus/expirelist.c\<close>. \<open>replies_ok\<close> says which
    objects are alive with respect to the hooks of the open transaction, so that executing it keeps
    what was done and cancelling it brings back the replies expected when it began; \<open>exchange\<close> is a
    history of calls and replies.
  \<^item> \<open>Security\<close>: \<^verbatim>\<open>bus_context_check_security_policy\<close> of \<^verbatim>\<open>bus/bus.c\<close>, where registry, policies and pending
    replies meet: one theorem gives its answer, and \<open>traffic\<close> follows it over time, so that replies
    nobody asked for do not pass.

  \<^bold>\<open>Interaction.\<close> \<open>Security\<close> uses the registry through \<open>registry_ok\<close>, the policies through
  \<open>decides\<close> and the pending replies through \<open>expected\<close>. \<open>Body\<close> rests on the readers, the validators
  and the string buffer, \<open>Auth\<close> on strings, credentials and SHA-1.

  \<^bold>\<open>Simplifications.\<close> Counts of references to rules, policies and credentials are left out, these being
  values that do not change. Tables of rules are finite maps, as justified by \<open>HashRun\<close>. What the
  sending of a signal or an error does inside is one answer of the allocator. The entries of hash
  tables come from a pool in the source and from an ideal allocator here, so what \<open>MemPool\<close> shows of a
  pool after a failed allocation is not followed into the tables. The public iterator gets its
  signatures with memory. Times of pending
  replies are exact microseconds where the source computes in \<^verbatim>\<open>double\<close>. What is logged is left out.
  The security modules, the user database, the console and limits are parameters.

  \<^bold>\<open>Not modelled.\<close> The type writers, message headers and message objects (their accessors are the
  record \<open>message\<close>); addresses and shell words; match rules, the dispatcher, the methods of the bus
  and activation, of which \<open>Security\<close> assumes what \<^verbatim>\<open>bus/dispatch.c\<close> ensures; the other elements of the
  configuration; transports, threads and main loops; wrappers of the operating system; tools and
  tests; and the programs around D-Bus in this repository.
\<close>

end
